(* ===== verification/Prelude.thy ===== *)
theory Prelude
  imports Main "HOL-Library.Word" "HOL-Library.Multiset" "HOL-Library.Monad_Syntax"
begin

unbundle bit_operations_syntax

text \<open>
  Shared vocabulary of the development: the machine types of the LP64 C target the sources are
  written for, object memories as lists of bytes, copying between objects, and the generic lemmas
  on lists, options and words the component theories use.

  A partial operation of the C code (a dereference of a pointer to nothing, an access outside an
  object) is a value of type \<open>option\<close>: \<^const>\<open>None\<close> is the fault, and the
  option monad propagates it the way a crash ends the function that caused it.
\<close>

section \<open>Machine types\<close>

type_synonym addr = "64 word"
type_synonym byte = "8 word"
type_synonym u32 = "32 word"
type_synonym size_t = "64 word"

abbreviation NULL :: addr where
  "NULL \<equiv> 0"

text \<open>\<open>struct timeval\<close>, as \<open>gettimeofday\<close> fills it.\<close>

record timeval =
  tv_sec :: int
  tv_usec :: int

named_theorems memsimps \<open>rewriting of reads after writes\<close>
named_theorems frame \<open>what an operation leaves unchanged\<close>

section \<open>Option monad\<close>

lemma bind_Some_iff [simp]:
  "(Option.bind m f = Some y) \<longleftrightarrow> (\<exists>x. m = Some x \<and> f x = Some y)"
  by (cases m) auto

definition guard_opt :: "bool \<Rightarrow> unit option" where
  "guard_opt b = (if b then Some () else None)"

lemma guard_opt_simps [simp]:
  "guard_opt True = Some ()"
  "guard_opt False = None"
  "(guard_opt b = Some u) \<longleftrightarrow> b"
  by (auto simp: guard_opt_def)


text \<open>Running a fallible step for every element of a list, left to right.\<close>

fun foldM :: "('a \<Rightarrow> 's \<Rightarrow> 's option) \<Rightarrow> 'a list \<Rightarrow> 's \<Rightarrow> 's option" where
  "foldM f [] s = Some s"
| "foldM f (x # xs) s = Option.bind (f x s) (foldM f xs)"

lemma foldM_append: "foldM f (xs @ ys) s = Option.bind (foldM f xs s) (foldM f ys)"
  by (induction xs arbitrary: s) (auto split: bind_splits)


section \<open>Copying between objects\<close>

text \<open>
  \<open>memcpy\<close> of the C library between two distinct objects: \<open>n\<close> elements of \<open>src\<close> from
  \<open>soff\<close> on replace those of \<open>dst\<close> from \<open>doff\<close> on. An access past the end of either object
  is the fault.
\<close>

definition blit :: "'a list \<Rightarrow> nat \<Rightarrow> 'a list \<Rightarrow> nat \<Rightarrow> nat \<Rightarrow> 'a list option" where
  "blit dst doff src soff n =
     (if doff + n \<le> length dst \<and> soff + n \<le> length src
      then Some (take doff dst @ take n (drop soff src) @ drop (doff + n) dst) else None)"

lemma blit_ok:
  "doff + n \<le> length dst \<Longrightarrow> soff + n \<le> length src \<Longrightarrow> \<exists>b. blit dst doff src soff n = Some b"
  by (simp add: blit_def)

lemma blit_length: "blit dst doff src soff n = Some b \<Longrightarrow> length b = length dst"
  by (auto simp: blit_def split: if_splits)

lemma blit_nth:
  assumes "blit dst doff src soff n = Some b" "j < length dst"
  shows "b ! j = (if doff \<le> j \<and> j < doff + n then src ! (soff + (j - doff)) else dst ! j)"
proof -
  have len: "doff + n \<le> length dst" "soff + n \<le> length src"
    and b: "b = take doff dst @ take n (drop soff src) @ drop (doff + n) dst"
    using assms(1) by (auto simp: blit_def split: if_splits)
  have "length (take doff dst) = doff" "length (take n (drop soff src)) = n"
    using len by simp_all
  then show ?thesis
    using len assms(2) by (auto simp: b nth_append simp del: length_take)
qed

section \<open>Powers of two and masks\<close>

lemma unat_and_mask_pow2:
  fixes x s :: "'a::len word"
  assumes "unat s = 2 ^ k"
  shows "unat (x AND (s - 1)) = unat x mod unat s"
proof -
  have "(2::nat) ^ k < 2 ^ LENGTH('a)"
    using assms unsigned_less[of s, where ?'a = nat] by simp
  then have "unat (2 ^ k :: 'a word) = 2 ^ k"
    by (metis of_nat_numeral of_nat_power unat_of_nat mod_less)
  then have s: "s = 2 ^ k"
    using assms by (simp add: word_unat_eq_iff)
  then have "x AND (s - 1) = x mod s"
    by (simp flip: take_bit_eq_mod add: take_bit_eq_mask mask_eq_exp_minus_1)
  then show ?thesis by (simp add: unat_mod)
qed

lemma unat_add_mod_dvd:
  fixes x y :: "'a::len word"
  assumes "d dvd 2 ^ LENGTH('a)"
  shows "unat (x + y) mod d = (unat x + unat y) mod d"
  using assms by (simp add: unat_word_ariths mod_mod_cancel)

lemma unat_and_not_mask_pow2:
  fixes x s :: "'a::len word"
  assumes "unat s = 2 ^ k"
  shows "unat (x AND NOT (s - 1)) = unat x - unat x mod unat s"
proof -
  have "NOT x AND (x AND (s - 1)) = 0" by (simp flip: and.assoc)
  from disjunctive_diff_eq_and_not[OF this]
  have "x - (x AND (s - 1)) = x AND NOT (s - 1)" by (simp add: bit.conj_disj_distrib)
  moreover have m: "unat (x AND (s - 1)) = unat x mod unat s" by (rule unat_and_mask_pow2[OF assms])
  moreover have "x AND (s - 1) \<le> x" by (simp add: word_le_nat_alt m)
  ultimately show ?thesis by (metis unat_sub)
qed

end
