(* ===== verification/Klist.thy ===== *)
theory Klist
  imports Prelude
begin

text \<open>
  The intrusive circular doubly linked list of \<^verbatim>\<open>datastruct/list.h\<close>. A memory of
  list heads maps an address to the \<open>next\<close> and \<open>prev\<close> fields stored there;
  every operation performs the reads and the writes of the C function in its order, on that
  memory, so aliasing (the entry that is its own neighbour, the head of an empty list) is what the
  code sees. \<open>dlist h head xs\<close> says that the ring at \<open>head\<close> holds the entries
  \<open>xs\<close> in order; every operation is proved to act on \<open>xs\<close> as its comment says.
\<close>

section \<open>Memory of list heads\<close>

record list_head =
  next_f :: addr
  prev_f :: addr

type_synonym lheap = "addr \<Rightarrow> list_head option"

definition get_next :: "addr \<Rightarrow> lheap \<Rightarrow> addr option" where
  "get_next p h = map_option next_f (h p)"

definition get_prev :: "addr \<Rightarrow> lheap \<Rightarrow> addr option" where
  "get_prev p h = map_option prev_f (h p)"

definition set_next :: "addr \<Rightarrow> addr \<Rightarrow> lheap \<Rightarrow> lheap option" where
  "set_next p v h = (case h p of None \<Rightarrow> None | Some n \<Rightarrow> Some (h(p \<mapsto> n\<lparr>next_f := v\<rparr>)))"

definition set_prev :: "addr \<Rightarrow> addr \<Rightarrow> lheap \<Rightarrow> lheap option" where
  "set_prev p v h = (case h p of None \<Rightarrow> None | Some n \<Rightarrow> Some (h(p \<mapsto> n\<lparr>prev_f := v\<rparr>)))"

section \<open>The operations of list.h\<close>

definition INIT_LIST_HEAD :: "addr \<Rightarrow> lheap \<Rightarrow> lheap option" where
  "INIT_LIST_HEAD ptr h = do { h \<leftarrow> set_next ptr ptr h; set_prev ptr ptr h }"

definition raw_list_add :: "addr \<Rightarrow> addr \<Rightarrow> addr \<Rightarrow> lheap \<Rightarrow> lheap option" where
  "raw_list_add new prv nxt h = do {
     h \<leftarrow> set_prev nxt new h;
     h \<leftarrow> set_next new nxt h;
     h \<leftarrow> set_prev new prv h;
     set_next prv new h }"

definition list_add :: "addr \<Rightarrow> addr \<Rightarrow> lheap \<Rightarrow> lheap option" where
  "list_add new head h = do { n \<leftarrow> get_next head h; raw_list_add new head n h }"

definition list_add_tail :: "addr \<Rightarrow> addr \<Rightarrow> lheap \<Rightarrow> lheap option" where
  "list_add_tail new head h = do { p \<leftarrow> get_prev head h; raw_list_add new p head h }"

definition raw_list_del :: "addr \<Rightarrow> addr \<Rightarrow> lheap \<Rightarrow> lheap option" where
  "raw_list_del prv nxt h = do { h \<leftarrow> set_prev nxt prv h; set_next prv nxt h }"

definition list_del :: "addr \<Rightarrow> lheap \<Rightarrow> lheap option" where
  "list_del entry h = do {
     p \<leftarrow> get_prev entry h;
     n \<leftarrow> get_next entry h;
     h \<leftarrow> raw_list_del p n h;
     h \<leftarrow> set_next entry NULL h;
     set_prev entry NULL h }"

definition list_del_init :: "addr \<Rightarrow> lheap \<Rightarrow> lheap option" where
  "list_del_init entry h = do {
     p \<leftarrow> get_prev entry h;
     n \<leftarrow> get_next entry h;
     h \<leftarrow> raw_list_del p n h;
     INIT_LIST_HEAD entry h }"

definition list_move :: "addr \<Rightarrow> addr \<Rightarrow> lheap \<Rightarrow> lheap option" where
  "list_move entry head h = do {
     p \<leftarrow> get_prev entry h;
     n \<leftarrow> get_next entry h;
     h \<leftarrow> raw_list_del p n h;
     list_add entry head h }"

definition list_move_tail :: "addr \<Rightarrow> addr \<Rightarrow> lheap \<Rightarrow> lheap option" where
  "list_move_tail entry head h = do {
     p \<leftarrow> get_prev entry h;
     n \<leftarrow> get_next entry h;
     h \<leftarrow> raw_list_del p n h;
     list_add_tail entry head h }"

definition list_empty :: "addr \<Rightarrow> lheap \<Rightarrow> bool option" where
  "list_empty head h = do { n \<leftarrow> get_next head h; Some (n = head) }"

definition raw_list_splice :: "addr \<Rightarrow> addr \<Rightarrow> lheap \<Rightarrow> lheap option" where
  "raw_list_splice lst head h = do {
     first \<leftarrow> get_next lst h;
     last \<leftarrow> get_prev lst h;
     at \<leftarrow> get_next head h;
     h \<leftarrow> set_prev first head h;
     h \<leftarrow> set_next head first h;
     h \<leftarrow> set_next last at h;
     set_prev at last h }"

definition list_splice :: "addr \<Rightarrow> addr \<Rightarrow> lheap \<Rightarrow> lheap option" where
  "list_splice lst head h = do {
     e \<leftarrow> list_empty lst h;
     if \<not> e then raw_list_splice lst head h else Some h }"

definition list_splice_init :: "addr \<Rightarrow> addr \<Rightarrow> lheap \<Rightarrow> lheap option" where
  "list_splice_init lst head h = do {
     e \<leftarrow> list_empty lst h;
     if \<not> e then do { h \<leftarrow> raw_list_splice lst head h; INIT_LIST_HEAD lst h } else Some h }"

text \<open>
  The iteration macros, with a body that only reads: the nodes the loop visits, in order. A walk
  over a damaged ring may run forever, which is \<^const>\<open>None\<close>, as is running into an address that
  holds no list head.
\<close>

partial_function (option) walk_next :: "lheap \<Rightarrow> addr \<Rightarrow> addr \<Rightarrow> addr list option" where
  "walk_next h head pos =
     (if pos = head then Some []
      else Option.bind (get_next pos h)
        (\<lambda>n. Option.bind (walk_next h head n) (\<lambda>ps. Some (pos # ps))))"

partial_function (option) walk_prev :: "lheap \<Rightarrow> addr \<Rightarrow> addr \<Rightarrow> addr list option" where
  "walk_prev h head pos =
     (if pos = head then Some []
      else Option.bind (get_prev pos h)
        (\<lambda>n. Option.bind (walk_prev h head n) (\<lambda>ps. Some (pos # ps))))"

definition list_for_each :: "addr \<Rightarrow> lheap \<Rightarrow> addr list option" where
  "list_for_each head h = do { p \<leftarrow> get_next head h; walk_next h head p }"

definition list_for_each_prev :: "addr \<Rightarrow> lheap \<Rightarrow> addr list option" where
  "list_for_each_prev head h = do { p \<leftarrow> get_prev head h; walk_prev h head p }"

section \<open>Rings\<close>

fun chain :: "lheap \<Rightarrow> addr list \<Rightarrow> bool" where
  "chain h [] = True"
| "chain h [a] = True"
| "chain h (a # b # xs) = (get_next a h = Some b \<and> get_prev b h = Some a \<and> chain h (b # xs))"

definition dlist :: "lheap \<Rightarrow> addr \<Rightarrow> addr list \<Rightarrow> bool" where
  "dlist h head xs \<longleftrightarrow> distinct (head # xs) \<and> chain h (head # xs @ [head])"

subsection \<open>Reads after writes\<close>

lemma get_set [memsimps]:
  "set_next p v h = Some h' \<Longrightarrow> get_next q h' = (if q = p then Some v else get_next q h)"
  "set_next p v h = Some h' \<Longrightarrow> get_prev q h' = get_prev q h"
  "set_prev p v h = Some h' \<Longrightarrow> get_prev q h' = (if q = p then Some v else get_prev q h)"
  "set_prev p v h = Some h' \<Longrightarrow> get_next q h' = get_next q h"
  by (auto simp: set_next_def set_prev_def get_next_def get_prev_def split: option.splits)

lemma set_mapped:
  "set_next p v h = Some h' \<Longrightarrow> dom h' = dom h"
  "set_prev p v h = Some h' \<Longrightarrow> dom h' = dom h"
  by (auto simp: set_next_def set_prev_def split: option.splits if_splits)

lemma set_frame [frame]:
  "set_next p v h = Some h' \<Longrightarrow> q \<noteq> p \<Longrightarrow> h' q = h q"
  "set_prev p v h = Some h' \<Longrightarrow> q \<noteq> p \<Longrightarrow> h' q = h q"
  by (auto simp: set_next_def set_prev_def split: option.splits)

lemma set_ok:
  "p \<in> dom h \<Longrightarrow> \<exists>h'. set_next p v h = Some h'"
  "p \<in> dom h \<Longrightarrow> \<exists>h'. set_prev p v h = Some h'"
  by (auto simp: set_next_def set_prev_def)

lemma get_dom:
  "get_next p h = Some v \<Longrightarrow> p \<in> dom h"
  "get_prev p h = Some v \<Longrightarrow> p \<in> dom h"
  by (auto simp: get_next_def get_prev_def)

lemma get_ok:
  "p \<in> dom h \<Longrightarrow> \<exists>v. get_next p h = Some v"
  "p \<in> dom h \<Longrightarrow> \<exists>v. get_prev p h = Some v"
  by (auto simp: get_next_def get_prev_def)


subsection \<open>Chains\<close>

lemma chain_Cons [simp]:
  "xs \<noteq> [] \<Longrightarrow>
   chain h (a # xs) \<longleftrightarrow> get_next a h = Some (hd xs) \<and> get_prev (hd xs) h = Some a \<and> chain h xs"
  by (cases xs) auto

lemma chain_append:
  "chain h (xs @ a # ys) \<longleftrightarrow> chain h (xs @ [a]) \<and> chain h (a # ys)"
  by (induction h xs rule: chain.induct) (auto simp del: chain_Cons)

lemma chain_snoc:
  "xs \<noteq> [] \<Longrightarrow>
   chain h (xs @ [b]) \<longleftrightarrow> chain h xs \<and> get_next (last xs) h = Some b \<and> get_prev b h = Some (last xs)"
  by (cases xs rule: rev_cases) (auto simp: chain_append[of h _ _ "[b]"])

lemma chain_cong:
  "(\<And>a. a \<in> set (butlast xs) \<Longrightarrow> get_next a h' = get_next a h) \<Longrightarrow>
   (\<And>a. a \<in> set (tl xs) \<Longrightarrow> get_prev a h' = get_prev a h) \<Longrightarrow> chain h' xs = chain h xs"
  by (induction h xs rule: chain.induct) (auto simp del: chain_Cons)

lemma chain_dom:
  "chain h xs \<Longrightarrow> 2 \<le> length xs \<Longrightarrow> set xs \<subseteq> dom h"
proof (induction h xs rule: chain.induct)
  case (3 h a b xs)
  then show ?case by (cases xs) (auto simp del: chain_Cons dest: get_dom)
qed auto

subsection \<open>What the primitive operations do\<close>

lemma INIT_LIST_HEAD_effect:
  assumes "p \<in> dom h"
  shows "\<exists>h'. INIT_LIST_HEAD p h = Some h' \<and> dom h' = dom h \<and>
    (\<forall>q. get_next q h' = (if q = p then Some p else get_next q h)) \<and>
    (\<forall>q. get_prev q h' = (if q = p then Some p else get_prev q h)) \<and>
    (\<forall>q. q \<noteq> p \<longrightarrow> h' q = h q)"
  using assms
  by (auto simp: INIT_LIST_HEAD_def set_next_def set_prev_def get_next_def get_prev_def)

lemma raw_list_add_effect:
  assumes "new \<in> dom h" "p \<in> dom h" "n \<in> dom h"
  shows "\<exists>h'. raw_list_add new p n h = Some h' \<and> dom h' = dom h \<and>
    (\<forall>q. get_next q h' = (if q = p then Some new else if q = new then Some n else get_next q h)) \<and>
    (\<forall>q. get_prev q h' = (if q = new then Some p else if q = n then Some new else get_prev q h)) \<and>
    (\<forall>q. q \<notin> {new, p, n} \<longrightarrow> h' q = h q)"
  using assms
  by (auto simp: raw_list_add_def set_next_def set_prev_def get_next_def get_prev_def)

lemma raw_list_del_effect:
  assumes "p \<in> dom h" "n \<in> dom h"
  shows "\<exists>h'. raw_list_del p n h = Some h' \<and> dom h' = dom h \<and>
    (\<forall>q. get_next q h' = (if q = p then Some n else get_next q h)) \<and>
    (\<forall>q. get_prev q h' = (if q = n then Some p else get_prev q h)) \<and>
    (\<forall>q. q \<notin> {p, n} \<longrightarrow> h' q = h q)"
  using assms
  by (auto simp: raw_list_del_def set_next_def set_prev_def get_next_def get_prev_def)


subsection \<open>Facts on rings\<close>

lemma dlist_distinct: "dlist h head xs \<Longrightarrow> distinct xs \<and> head \<notin> set xs"
  by (simp add: dlist_def)

lemma dlist_dom: "dlist h head xs \<Longrightarrow> set (head # xs) \<subseteq> dom h"
  unfolding dlist_def using chain_dom[of h "head # xs @ [head]"] by simp

lemma dlist_ends:
  assumes "dlist h head xs"
  shows "get_next head h = Some (hd (xs @ [head]))" "get_prev head h = Some (last (head # xs))"
  using assms chain_snoc[of "head # xs" h head] by (simp_all add: dlist_def)

lemma dlist_entry:
  assumes "dlist h head (ys @ e # zs)"
  shows "get_prev e h = Some (last (head # ys))" "get_next e h = Some (hd (zs @ [head]))"
proof -
  have "chain h ((head # ys) @ [e])" "chain h (e # zs @ [head])"
    using assms chain_append[of h "head # ys" e "zs @ [head]"] by (simp_all add: dlist_def)
  then show "get_prev e h = Some (last (head # ys))" "get_next e h = Some (hd (zs @ [head]))"
    using chain_snoc[of "head # ys" h e] by simp_all
qed

lemma dlist_frame [frame]:
  assumes "dlist h head xs" "\<And>q. q \<in> set (head # xs) \<Longrightarrow> h' q = h q"
  shows "dlist h' head xs"
proof -
  have "chain h' (head # xs @ [head]) = chain h (head # xs @ [head])"
    by (rule chain_cong) (auto simp: get_next_def get_prev_def assms(2) dest!: in_set_butlastD)
  then show ?thesis using assms(1) by (simp add: dlist_def)
qed

lemma dlist_unique:
  assumes "dlist h head xs" "dlist h head ys"
  shows "xs = ys"
proof -
  have "chain h (p # xs @ [head]) \<Longrightarrow> chain h (p # ys @ [head]) \<Longrightarrow>
        head \<notin> set xs \<Longrightarrow> head \<notin> set ys \<Longrightarrow> xs = ys" for p
  proof (induction xs arbitrary: p ys)
    case Nil
    then show ?case by (cases ys) auto
  next
    case (Cons x xs)
    then show ?case by (cases ys) auto
  qed
  from this[of head] show ?thesis using assms by (simp add: dlist_def)
qed

section \<open>The operations on rings\<close>

lemma INIT_LIST_HEAD_dlist:
  assumes "p \<in> dom h"
  shows "\<exists>h'. INIT_LIST_HEAD p h = Some h' \<and> dlist h' p [] \<and> dom h' = dom h \<and>
    (\<forall>q. q \<noteq> p \<longrightarrow> h' q = h q)"
  using INIT_LIST_HEAD_effect[OF assms] by (fastforce simp: dlist_def)

lemma list_add_dlist:
  assumes "dlist h head xs" "new \<in> dom h" "new \<notin> set (head # xs)"
  shows "\<exists>h'. list_add new head h = Some h' \<and> dlist h' head (new # xs) \<and> dom h' = dom h \<and>
    (\<forall>q. q \<notin> set (new # head # xs) \<longrightarrow> h' q = h q)"
proof -
  let ?n = "hd (xs @ [head])"
  have n: "?n \<in> set (head # xs)" by (cases xs) auto
  have d: "head \<in> dom h" "?n \<in> dom h" using dlist_dom[OF assms(1)] n by auto
  obtain h' where h': "raw_list_add new head ?n h = Some h'" "dom h' = dom h"
    and nx: "\<And>q. get_next q h' = (if q = head then Some new else if q = new then Some ?n else get_next q h)"
    and pv: "\<And>q. get_prev q h' = (if q = new then Some head else if q = ?n then Some new else get_prev q h)"
    and fr: "\<And>q. q \<notin> {new, head, ?n} \<Longrightarrow> h' q = h q"
    using raw_list_add_effect[OF assms(2) d] by blast
  have "chain h' (xs @ [head]) = chain h (xs @ [head])"
    by (rule chain_cong) (use assms dlist_distinct[OF assms(1)] in \<open>cases xs; auto simp: nx pv\<close>)+
  moreover have "chain h (xs @ [head])" using assms(1) by (simp add: dlist_def)
  moreover have "?n \<noteq> new" using n assms(3) by metis
  ultimately have "dlist h' head (new # xs)"
    using assms nx pv by (auto simp: dlist_def)
  then show ?thesis using h' fr n dlist_ends[OF assms(1)]
    by (auto simp: list_add_def)
qed


lemma list_add_tail_dlist:
  assumes "dlist h head xs" "new \<in> dom h" "new \<notin> set (head # xs)"
  shows "\<exists>h'. list_add_tail new head h = Some h' \<and> dlist h' head (xs @ [new]) \<and> dom h' = dom h \<and>
    (\<forall>q. q \<notin> set (new # head # xs) \<longrightarrow> h' q = h q)"
proof -
  let ?p = "last (head # xs)"
  have p: "?p \<in> set (head # xs)" by (rule last_in_set) simp
  have d: "?p \<in> dom h" "head \<in> dom h" using dlist_dom[OF assms(1)] p by auto
  obtain h' where h': "raw_list_add new ?p head h = Some h'" "dom h' = dom h"
    and nx: "\<And>q. get_next q h' = (if q = ?p then Some new else if q = new then Some head else get_next q h)"
    and pv: "\<And>q. get_prev q h' = (if q = new then Some ?p else if q = head then Some new else get_prev q h)"
    and fr: "\<And>q. q \<notin> {new, ?p, head} \<Longrightarrow> h' q = h q"
    using raw_list_add_effect[OF assms(2) d] by blast
  have np: "?p \<noteq> new" using p assms(3) by metis
  have bl: "a \<in> set (butlast (head # xs)) \<Longrightarrow> a \<noteq> ?p \<and> a \<noteq> new" for a
    using assms(3) dlist_distinct[OF assms(1)]
    by (cases xs rule: rev_cases) (auto split: if_splits dest: in_set_butlastD)
  have "chain h' (head # xs) = chain h (head # xs)"
    by (rule chain_cong)
      (use assms dlist_distinct[OF assms(1)] bl in \<open>auto simp: nx pv simp del: butlast.simps\<close>)
  moreover have "chain h (head # xs)"
    using assms(1) chain_snoc[of "head # xs" h head] by (simp add: dlist_def)
  ultimately have "chain h' ((head # xs @ [new]) @ [head])"
    using chain_snoc[of "head # xs" h' new] chain_snoc[of "head # xs @ [new]" h' head] nx pv np assms(3)
    by auto
  then have "dlist h' head (xs @ [new])"
    using assms by (auto simp: dlist_def)
  then show ?thesis using h' fr p dlist_ends[OF assms(1)]
    by (auto simp: list_add_tail_def)
qed


text \<open>Unlinking an entry, the step shared by the deletions and the moves.\<close>

lemma raw_list_del_dlist:
  assumes "dlist h head (ys @ e # zs)"
  shows "\<exists>h'. raw_list_del (last (head # ys)) (hd (zs @ [head])) h = Some h' \<and>
    dlist h' head (ys @ zs) \<and> dom h' = dom h \<and>
    (\<forall>q. q \<notin> set (head # ys @ zs) \<longrightarrow> h' q = h q)"
proof -
  let ?p = "last (head # ys)" and ?n = "hd (zs @ [head])"
  have pn: "?p \<in> set (head # ys)" "?n \<in> set (head # zs)"
    by (rule last_in_set, simp) (cases zs; simp)
  have d: "?p \<in> dom h" "?n \<in> dom h" using dlist_dom[OF assms] pn by (auto simp del: last.simps)
  obtain h' where h': "raw_list_del ?p ?n h = Some h'" "dom h' = dom h"
    and nx: "\<And>q. get_next q h' = (if q = ?p then Some ?n else get_next q h)"
    and pv: "\<And>q. get_prev q h' = (if q = ?n then Some ?p else get_prev q h)"
    and fr: "\<And>q. q \<notin> {?p, ?n} \<Longrightarrow> h' q = h q"
    using raw_list_del_effect[OF d] by blast
  have dist: "distinct (head # ys @ e # zs)" using assms by (simp add: dlist_def)
  have c: "chain h (head # ys)" "chain h (zs @ [head])"
    using assms chain_append[of h "head # ys" e "zs @ [head]"] chain_snoc[of "head # ys" h e]
    by (simp_all add: dlist_def)
  have bl: "a \<in> set (butlast (head # ys)) \<Longrightarrow> a \<noteq> ?p" for a
    using dist by (cases ys rule: rev_cases) (auto split: if_splits dest: in_set_butlastD)
  have "chain h' (head # ys) = chain h (head # ys)"
  proof (rule chain_cong)
    show "a \<in> set (butlast (head # ys)) \<Longrightarrow> get_next a h' = get_next a h" for a
      using bl by (simp add: nx del: butlast.simps last.simps)
    show "a \<in> set (tl (head # ys)) \<Longrightarrow> get_prev a h' = get_prev a h" for a
      using dist pn(2) by (auto simp: pv)
  qed
  moreover have "chain h' (zs @ [head]) = chain h (zs @ [head])"
  proof (rule chain_cong)
    show "a \<in> set (butlast (zs @ [head])) \<Longrightarrow> get_next a h' = get_next a h" for a
      using dist pn(1) by (auto simp: nx simp del: last.simps)
    show "a \<in> set (tl (zs @ [head])) \<Longrightarrow> get_prev a h' = get_prev a h" for a
      using dist by (cases zs) (auto simp: pv)
  qed
  ultimately have c': "chain h' (head # ys)" "chain h' (zs @ [head])"
    using c by simp_all
  have "chain h' ((head # ys) @ zs @ [head])"
    using c' nx pv chain_snoc[of "head # ys" h' ?n] chain_append[of h' "head # ys" ?n "tl (zs @ [head])"]
    by (cases zs) (simp_all del: last.simps)
  then have "dlist h' head (ys @ zs)"
    using dist by (auto simp: dlist_def)
  moreover have "q \<notin> set (head # ys @ zs) \<Longrightarrow> h' q = h q" for q
    using fr[of q] pn by (auto simp del: last.simps)
  ultimately show ?thesis using h' by blast
qed

lemma list_unlink:
  assumes "dlist h head (ys @ e # zs)"
  obtains p n h1 where "get_prev e h = Some p" "get_next e h = Some n" "raw_list_del p n h = Some h1"
    and "dlist h1 head (ys @ zs)" "dom h1 = dom h"
    and "\<forall>q. q \<notin> set (head # ys @ zs) \<longrightarrow> h1 q = h q"
    and "e \<in> dom h1" "e \<notin> set (head # ys @ zs)"
proof -
  obtain h1 where h1: "raw_list_del (last (head # ys)) (hd (zs @ [head])) h = Some h1"
    "dlist h1 head (ys @ zs)" "dom h1 = dom h" "\<forall>q. q \<notin> set (head # ys @ zs) \<longrightarrow> h1 q = h q"
    using raw_list_del_dlist[OF assms] by blast
  have "e \<in> dom h1" using dlist_dom[OF assms] h1(3) by auto
  moreover have "e \<notin> set (head # ys @ zs)" using assms by (auto simp: dlist_def)
  ultimately show thesis using that[OF dlist_entry[OF assms] h1] by blast
qed

lemma list_del_dlist:
  assumes "dlist h head (ys @ e # zs)"
  shows "\<exists>h'. list_del e h = Some h' \<and> dlist h' head (ys @ zs) \<and> dom h' = dom h \<and>
    h' e = Some \<lparr>next_f = NULL, prev_f = NULL\<rparr> \<and>
    (\<forall>q. q \<notin> set (head # ys @ e # zs) \<longrightarrow> h' q = h q)"
proof -
  obtain p n h1 where h1: "get_prev e h = Some p" "get_next e h = Some n" "raw_list_del p n h = Some h1"
    and d: "dlist h1 head (ys @ zs)" "dom h1 = dom h"
    and fr: "\<forall>q. q \<notin> set (head # ys @ zs) \<longrightarrow> h1 q = h q"
    and e: "e \<in> dom h1" "e \<notin> set (head # ys @ zs)"
    by (rule list_unlink[OF assms])
  let ?h' = "h1(e \<mapsto> \<lparr>next_f = NULL, prev_f = NULL\<rparr>)"
  have "list_del e h = Some ?h'"
    using e(1) by (auto simp: h1 list_del_def set_next_def set_prev_def intro!: arg_cong[of _ _ "\<lambda>v. h1(e \<mapsto> v)"])
  moreover have "dlist ?h' head (ys @ zs)"
    using d(1) by (rule dlist_frame) (use e(2) in auto)
  moreover have "dom ?h' = dom h" using d(2) e(1) by auto
  ultimately show ?thesis using fr by auto
qed

lemma list_del_init_dlist:
  assumes "dlist h head (ys @ e # zs)"
  shows "\<exists>h'. list_del_init e h = Some h' \<and> dlist h' head (ys @ zs) \<and> dlist h' e [] \<and> dom h' = dom h \<and>
    (\<forall>q. q \<notin> set (head # ys @ e # zs) \<longrightarrow> h' q = h q)"
proof -
  obtain p n h1 where h1: "get_prev e h = Some p" "get_next e h = Some n" "raw_list_del p n h = Some h1"
    and d: "dlist h1 head (ys @ zs)" "dom h1 = dom h"
    and fr: "\<forall>q. q \<notin> set (head # ys @ zs) \<longrightarrow> h1 q = h q"
    and e: "e \<in> dom h1" "e \<notin> set (head # ys @ zs)"
    by (rule list_unlink[OF assms])
  obtain h' where h': "INIT_LIST_HEAD e h1 = Some h'" "dlist h' e []" "dom h' = dom h1"
    and fr': "\<And>q. q \<noteq> e \<Longrightarrow> h' q = h1 q"
    using INIT_LIST_HEAD_dlist[OF e(1)] by blast
  have "dlist h' head (ys @ zs)"
    using d(1) by (rule dlist_frame) (use e(2) fr' in force)
  then show ?thesis using h1 h' fr fr' d(2) by (auto simp: list_del_init_def)
qed

text \<open>A move is an unlink followed by an insertion; the two rings may be one.\<close>

lemma list_move_same:
  assumes "dlist h head (ys @ e # zs)"
  shows "\<exists>h'. list_move e head h = Some h' \<and> dlist h' head (e # ys @ zs) \<and> dom h' = dom h"
    and "\<exists>h'. list_move_tail e head h = Some h' \<and> dlist h' head (ys @ zs @ [e]) \<and> dom h' = dom h"
proof -
  obtain p n h1 where h1: "get_prev e h = Some p" "get_next e h = Some n" "raw_list_del p n h = Some h1"
    and d: "dlist h1 head (ys @ zs)" "dom h1 = dom h"
    and e: "e \<in> dom h1" "e \<notin> set (head # ys @ zs)"
    by (rule list_unlink[OF assms])
  show "\<exists>h'. list_move e head h = Some h' \<and> dlist h' head (e # ys @ zs) \<and> dom h' = dom h"
    using list_add_dlist[OF d(1) e] h1 d(2) by (auto simp: list_move_def)
  show "\<exists>h'. list_move_tail e head h = Some h' \<and> dlist h' head (ys @ zs @ [e]) \<and> dom h' = dom h"
    using list_add_tail_dlist[OF d(1) e] h1 d(2) by (auto simp: list_move_tail_def)
qed

lemma list_move_other:
  assumes "dlist h head (ys @ e # zs)" "dlist h dst ws" "set (head # ys @ e # zs) \<inter> set (dst # ws) = {}"
  shows "\<exists>h'. list_move e dst h = Some h' \<and> dlist h' head (ys @ zs) \<and> dlist h' dst (e # ws) \<and>
      dom h' = dom h"
    and "\<exists>h'. list_move_tail e dst h = Some h' \<and> dlist h' head (ys @ zs) \<and> dlist h' dst (ws @ [e]) \<and>
      dom h' = dom h"
proof -
  obtain p n h1 where h1: "get_prev e h = Some p" "get_next e h = Some n" "raw_list_del p n h = Some h1"
    and d: "dlist h1 head (ys @ zs)" "dom h1 = dom h"
    and fr: "\<forall>q. q \<notin> set (head # ys @ zs) \<longrightarrow> h1 q = h q"
    and e: "e \<in> dom h1" "e \<notin> set (head # ys @ zs)"
    by (rule list_unlink[OF assms(1)])
  have ws: "dlist h1 dst ws"
    using assms(2) by (rule dlist_frame) (use fr assms(3) in auto)
  have e': "e \<notin> set (dst # ws)" using assms(3) by auto
  have src: "\<forall>q. q \<notin> set (e # dst # ws) \<longrightarrow> h' q = h1 q \<Longrightarrow> dlist h' head (ys @ zs)" for h'
    using d(1) by (rule dlist_frame) (use assms(3) e(2) in auto)
  show "\<exists>h'. list_move e dst h = Some h' \<and> dlist h' head (ys @ zs) \<and> dlist h' dst (e # ws) \<and>
      dom h' = dom h"
    using list_add_dlist[OF ws e(1) e'] h1 d(2) src by (auto simp: list_move_def)
  show "\<exists>h'. list_move_tail e dst h = Some h' \<and> dlist h' head (ys @ zs) \<and> dlist h' dst (ws @ [e]) \<and>
      dom h' = dom h"
    using list_add_tail_dlist[OF ws e(1) e'] h1 d(2) src by (auto simp: list_move_tail_def)
qed

lemma list_empty_dlist [simp]:
  "dlist h head xs \<Longrightarrow> list_empty head h = Some (xs = [])"
  using dlist_ends(1)[of h head xs] by (cases xs) (auto simp: list_empty_def dlist_def)


subsection \<open>Splicing\<close>

lemma raw_list_splice_effect:
  assumes "get_next lst h = Some f" "get_prev lst h = Some l" "get_next head h = Some a"
    "f \<in> dom h" "l \<in> dom h" "a \<in> dom h" "l \<noteq> head"
  shows "\<exists>h'. raw_list_splice lst head h = Some h' \<and> dom h' = dom h \<and>
    (\<forall>q. get_next q h' = (if q = l then Some a else if q = head then Some f else get_next q h)) \<and>
    (\<forall>q. get_prev q h' = (if q = a then Some l else if q = f then Some head else get_prev q h)) \<and>
    (\<forall>q. q \<notin> {f, l, a, head} \<longrightarrow> h' q = h q)"
  using assms
  by (auto simp: raw_list_splice_def set_next_def set_prev_def get_next_def get_prev_def)

lemma raw_list_splice_dlist:
  assumes "dlist h lst xs" "dlist h head ys" "xs \<noteq> []" "set (lst # xs) \<inter> set (head # ys) = {}"
  shows "\<exists>h'. raw_list_splice lst head h = Some h' \<and> dlist h' head (xs @ ys) \<and> dom h' = dom h \<and>
    (\<forall>q. q \<notin> set (head # xs @ ys) \<longrightarrow> h' q = h q)"
proof -
  let ?f = "hd xs" and ?l = "last xs" and ?a = "hd (ys @ [head])"
  have in1: "?f \<in> set xs" "?l \<in> set xs" "?a \<in> set (head # ys)"
    using assms(3) by (simp_all, cases ys, simp_all)
  have ends: "get_next lst h = Some ?f" "get_prev lst h = Some ?l" "get_next head h = Some ?a"
    using dlist_ends[OF assms(1)] dlist_ends[OF assms(2)] assms(3) by simp_all
  have dom: "?f \<in> dom h" "?l \<in> dom h" "?a \<in> dom h"
    using dlist_dom[OF assms(1)] dlist_dom[OF assms(2)] in1 by auto
  have "?l \<noteq> head" using in1(2) assms(4) by auto
  from raw_list_splice_effect[OF ends dom this]
  obtain h' where h': "raw_list_splice lst head h = Some h'" "dom h' = dom h"
    and nx: "\<And>q. get_next q h' = (if q = ?l then Some ?a else if q = head then Some ?f else get_next q h)"
    and pv: "\<And>q. get_prev q h' = (if q = ?a then Some ?l else if q = ?f then Some head else get_prev q h)"
    and fr: "\<And>q. q \<notin> {?f, ?l, ?a, head} \<Longrightarrow> h' q = h q"
    by blast
  have dist: "distinct (lst # xs)" "distinct (head # ys)"
    using assms(1,2) by (simp_all add: dlist_def)
  have c: "chain h xs" "chain h (ys @ [head])"
    using assms(1,2,3) chain_snoc[of xs h lst] by (simp_all add: dlist_def)
  have bl: "a \<in> set (butlast xs) \<Longrightarrow> a \<noteq> ?l" for a
    using dist(1) assms(3) by (cases xs rule: rev_cases) auto
  have tl: "a \<in> set (tl xs) \<Longrightarrow> a \<noteq> ?f" for a
    using dist(1) assms(3) by (cases xs) auto
  have "chain h' xs = chain h xs"
  proof (rule chain_cong)
    show "a \<in> set (butlast xs) \<Longrightarrow> get_next a h' = get_next a h" for a
      using bl[of a] assms(4) by (auto simp: nx dest: in_set_butlastD)
    show "a \<in> set (tl xs) \<Longrightarrow> get_prev a h' = get_prev a h" for a
      using tl[of a] assms(3,4) in1(3) list.set_sel(2)[of xs a] by (auto simp: pv)
  qed
  moreover have "chain h' (ys @ [head]) = chain h (ys @ [head])"
  proof (rule chain_cong)
    show "a \<in> set (butlast (ys @ [head])) \<Longrightarrow> get_next a h' = get_next a h" for a
      using dist(2) assms(4) in1(2) by (auto simp: nx)
    show "a \<in> set (tl (ys @ [head])) \<Longrightarrow> get_prev a h' = get_prev a h" for a
      using dist(2) assms(4) in1(1) by (cases ys) (auto simp: pv)
  qed
  ultimately have c': "chain h' xs" "chain h' (ys @ [head])" using c by simp_all
  have ne: "?f \<noteq> ?a" "?l \<noteq> head" using in1 assms(4) by auto
  have "chain h' (xs @ ys @ [head])"
    using c' nx pv chain_snoc[OF assms(3), of h' ?a] chain_append[of h' xs ?a "tl (ys @ [head])"]
    by (cases ys) simp_all
  then have "chain h' (head # xs @ ys @ [head])"
    using assms(3) nx pv ne by simp
  then have "dlist h' head (xs @ ys)"
    using dist assms(4) by (auto simp: dlist_def)
  moreover have "q \<notin> set (head # xs @ ys) \<Longrightarrow> h' q = h q" for q
    using fr[of q] in1 by auto
  ultimately show ?thesis using h' by blast
qed

lemma list_splice_dlist:
  assumes "dlist h lst xs" "dlist h head ys" "set (lst # xs) \<inter> set (head # ys) = {}"
  shows "\<exists>h'. list_splice lst head h = Some h' \<and> dlist h' head (xs @ ys) \<and> dom h' = dom h"
  using raw_list_splice_dlist[OF assms(1,2) _ assms(3)] assms(1,2)
  by (cases "xs = []") (auto simp: list_splice_def)

lemma list_splice_init_dlist:
  assumes "dlist h lst xs" "dlist h head ys" "set (lst # xs) \<inter> set (head # ys) = {}"
  shows "\<exists>h'. list_splice_init lst head h = Some h' \<and> dlist h' head (xs @ ys) \<and> dlist h' lst [] \<and>
    dom h' = dom h"
proof (cases "xs = []")
  case True
  then show ?thesis using assms by (simp add: list_splice_init_def)
next
  case False
  obtain h1 where h1: "raw_list_splice lst head h = Some h1" "dlist h1 head (xs @ ys)" "dom h1 = dom h"
    using raw_list_splice_dlist[OF assms(1,2) False assms(3)] by blast
  have lst: "lst \<in> dom h1" "lst \<notin> set (head # xs @ ys)"
    using dlist_dom[OF assms(1)] h1(3) assms(3) dlist_distinct[OF assms(1)] by auto
  obtain h' where h': "INIT_LIST_HEAD lst h1 = Some h'" "dlist h' lst []" "dom h' = dom h1"
    and fr: "\<forall>q. q \<noteq> lst \<longrightarrow> h' q = h1 q"
    using INIT_LIST_HEAD_dlist[OF lst(1)] by blast
  have "dlist h' head (xs @ ys)"
    using h1(2) by (rule dlist_frame) (use lst(2) fr in auto)
  then show ?thesis using False h1 h' assms(1) by (simp add: list_splice_init_def)
qed

subsection \<open>Iteration\<close>

lemma walk_next_chain:
  "chain h (xs @ [head]) \<Longrightarrow> head \<notin> set xs \<Longrightarrow> walk_next h head (hd (xs @ [head])) = Some xs"
  by (induction xs) (auto simp: walk_next.simps[of h head])

lemma walk_prev_chain:
  "chain h (head # xs) \<Longrightarrow> head \<notin> set xs \<Longrightarrow> walk_prev h head (last (head # xs)) = Some (rev xs)"
proof (induction xs rule: rev_induct)
  case Nil
  then show ?case by (simp add: walk_prev.simps)
next
  case (snoc x xs)
  then show ?case using chain_snoc[of "head # xs" h x]
    by (auto simp: walk_prev.simps[of h head x])
qed

lemma list_for_each_dlist [simp]:
  assumes "dlist h head xs"
  shows "list_for_each head h = Some xs" "list_for_each_prev head h = Some (rev xs)"
  using walk_next_chain[of h xs head] walk_prev_chain[of h head xs] assms
    chain_snoc[of "head # xs" h head] dlist_ends[OF assms]
  by (simp_all add: list_for_each_def list_for_each_prev_def dlist_def del: last.simps)


section \<open>Families of rings\<close>

text \<open>
  Several rings with the heads \<open>H\<close> in one memory, no list head in two of them; \<open>R\<close> gives the
  entries of each.
\<close>

definition ring_nodes :: "addr set \<Rightarrow> (addr \<Rightarrow> addr list) \<Rightarrow> addr set" where
  "ring_nodes H R = (\<Union>a \<in> H. set (a # R a))"

definition rings :: "lheap \<Rightarrow> addr set \<Rightarrow> (addr \<Rightarrow> addr list) \<Rightarrow> bool" where
  "rings h H R \<longleftrightarrow> (\<forall>a \<in> H. dlist h a (R a)) \<and>
     (\<forall>a \<in> H. \<forall>b \<in> H. a \<noteq> b \<longrightarrow> set (a # R a) \<inter> set (b # R b) = {})"

lemma rings_frame:
  assumes "rings h H R" "\<And>q. q \<in> ring_nodes H R \<Longrightarrow> h' q = h q"
  shows "rings h' H R"
  using assms unfolding rings_def ring_nodes_def by (blast intro: dlist_frame)

lemma rings_update:
  assumes "rings h H R" "a \<in> H" "dlist h' a xs"
    and "set xs \<inter> (ring_nodes H R - set (a # R a)) = {}"
    and "\<And>q. q \<in> ring_nodes H R - set (a # R a) \<Longrightarrow> h' q = h q"
  shows "rings h' H (R(a := xs))"
  unfolding rings_def
proof (intro conjI ballI impI)
  have apart: "set (b # R b) \<subseteq> ring_nodes H R - set (a # R a)" if "b \<in> H" "b \<noteq> a" for b
    using assms(1,2) that unfolding rings_def ring_nodes_def by blast
  fix b assume b: "b \<in> H"
  show "dlist h' b ((R(a := xs)) b)"
  proof (cases "b = a")
    case False
    have "dlist h b (R b)" using assms(1) b by (simp add: rings_def)
    then have "dlist h' b (R b)" by (rule dlist_frame) (use apart[OF b False] assms(5) in blast)
    then show ?thesis using False by simp
  qed (use assms(3) in simp)
  fix c assume c: "c \<in> H" "b \<noteq> c"
  have a: "set (a # xs) \<inter> set (d # R d) = {}" if "d \<in> H" "d \<noteq> a" for d
    using apart[OF that] assms(4) by auto
  show "set (b # (R(a := xs)) b) \<inter> set (c # (R(a := xs)) c) = {}"
  proof (cases "b = a \<or> c = a")
    case True
    then show ?thesis using a[OF b] a[OF c(1)] c(2) by (auto simp: Int_commute)
  next
    case False
    then show ?thesis using assms(1) b c unfolding rings_def by simp
  qed
qed

lemma rings_del:
  assumes "rings h H R" "a \<in> H" "R a = ys @ e # zs"
  shows "\<exists>h'. list_del e h = Some h' \<and> rings h' H (R(a := ys @ zs)) \<and> dom h' = dom h \<and>
    (\<forall>q. q \<notin> ring_nodes H R \<longrightarrow> h' q = h q)"
proof -
  have d: "dlist h a (ys @ e # zs)" using assms by (auto simp: rings_def)
  obtain h' where h': "list_del e h = Some h'" "dlist h' a (ys @ zs)" "dom h' = dom h"
    "\<forall>q. q \<notin> set (a # ys @ e # zs) \<longrightarrow> h' q = h q" using list_del_dlist[OF d] by auto
  have "rings h' H (R(a := ys @ zs))"
    using assms(1,2) h'(2) by (rule rings_update) (use h'(4) assms(3) in auto)
  moreover have "set (a # R a) \<subseteq> ring_nodes H R" using assms(2) by (auto simp: ring_nodes_def)
  then have "set (a # ys @ e # zs) \<subseteq> ring_nodes H R" by (simp only: assms(3))
  ultimately show ?thesis using h' by blast
qed

lemma rings_add:
  assumes "rings h H R" "a \<in> H" "new \<in> dom h" "new \<notin> ring_nodes H R"
  shows "\<exists>h'. list_add new a h = Some h' \<and> rings h' H (R(a := new # R a)) \<and> dom h' = dom h \<and>
    (\<forall>q. q \<notin> insert new (ring_nodes H R) \<longrightarrow> h' q = h q)"
proof -
  have d: "dlist h a (R a)" using assms by (auto simp: rings_def)
  have sub: "set (a # R a) \<subseteq> ring_nodes H R" using assms(2) by (auto simp: ring_nodes_def)
  obtain h' where h': "list_add new a h = Some h'" "dlist h' a (new # R a)" "dom h' = dom h"
    "\<forall>q. q \<notin> set (new # a # R a) \<longrightarrow> h' q = h q"
    using list_add_dlist[OF d assms(3)] assms(4) sub by blast
  have "rings h' H (R(a := new # R a))"
    using assms(1,2) h'(2) by (rule rings_update) (use h'(4) assms(4) in auto)
  then show ?thesis using h' sub by auto
qed

lemma ring_nodes_del:
  assumes "rings h H R" "a \<in> H" "R a = ys @ e # zs"
  shows "ring_nodes H (R(a := ys @ zs)) = ring_nodes H R - {e}"
proof -
  have d: "distinct (a # ys @ e # zs)" using assms unfolding rings_def dlist_def by metis
  have split: "ring_nodes H Q = set (a # Q a) \<union> ring_nodes (H - {a}) Q" for Q
    using assms(2) unfolding ring_nodes_def by blast
  have same: "ring_nodes (H - {a}) (R(a := xs)) = ring_nodes (H - {a}) R" for xs
    by (simp add: ring_nodes_def)
  have "e \<notin> set (b # R b)" if "b \<in> H - {a}" for b
  proof -
    have "set (a # R a) \<inter> set (b # R b) = {}" using assms(1,2) that unfolding rings_def by blast
    moreover have "e \<in> set (a # R a)" using assms(3) by simp
    ultimately show ?thesis by blast
  qed
  then have "e \<notin> ring_nodes (H - {a}) R" unfolding ring_nodes_def by blast
  moreover have "set (a # ys @ zs) = set (a # R a) - {e}" using d by (auto simp: assms(3))
  ultimately show ?thesis by (simp add: split[of R] split[of "R(a := ys @ zs)"] same) blast
qed

lemma ring_nodes_add:
  "a \<in> H \<Longrightarrow> ring_nodes H (R(a := new # R a)) = insert new (ring_nodes H R)"
  by (auto simp: ring_nodes_def split: if_splits)

lemma rings_apart:
  "rings h H R \<Longrightarrow> a \<in> H \<Longrightarrow> b \<in> H \<Longrightarrow> a \<noteq> b \<Longrightarrow> x \<in> set (R a) \<Longrightarrow> x \<notin> set (b # R b)"
  unfolding rings_def by (meson disjoint_iff list.set_intros(2))

lemma init_all:
  "set as \<subseteq> dom h \<Longrightarrow> \<exists>h'. foldM INIT_LIST_HEAD as h = Some h' \<and> dom h' = dom h \<and>
     (\<forall>a \<in> set as. dlist h' a []) \<and> (\<forall>q. q \<notin> set as \<longrightarrow> h' q = h q)"
proof (induction as arbitrary: h)
  case (Cons a as)
  obtain h1 where h1: "INIT_LIST_HEAD a h = Some h1" "dlist h1 a []" "dom h1 = dom h" "\<forall>q. q \<noteq> a \<longrightarrow> h1 q = h q"
    using INIT_LIST_HEAD_dlist[of a h] Cons(2) by auto
  obtain h2 where h2: "foldM INIT_LIST_HEAD as h1 = Some h2" "dom h2 = dom h1" "\<forall>b \<in> set as. dlist h2 b []"
    "\<forall>q. q \<notin> set as \<longrightarrow> h2 q = h1 q"
    using Cons(1)[of h1] Cons(2) h1(3) by auto
  have "dlist h2 a []" using h2(3,4) h1(2) by (cases "a \<in> set as") (auto intro: dlist_frame)
  then show ?case using h1 h2 by auto
qed simp

section \<open>The interface the clients rely on\<close>

text \<open>
  Pools, the caching pool and the thread registry use rings through insertion at either end,
  deletion and iteration only. The laws are stated over an abstraction \<open>rep\<close> of the memory and a
  predicate \<open>node\<close> for the addresses that hold a list head.
\<close>

locale ring_container =
  fixes rep :: "'h \<Rightarrow> 'a \<Rightarrow> 'a list \<Rightarrow> bool"
    and node :: "'h \<Rightarrow> 'a \<Rightarrow> bool"
    and add :: "'a \<Rightarrow> 'a \<Rightarrow> 'h \<Rightarrow> 'h option"
    and add_tail :: "'a \<Rightarrow> 'a \<Rightarrow> 'h \<Rightarrow> 'h option"
    and del :: "'a \<Rightarrow> 'h \<Rightarrow> 'h option"
    and visit :: "'a \<Rightarrow> 'h \<Rightarrow> 'a list option"
  assumes rep_visit: "rep h c xs \<Longrightarrow> visit c h = Some xs"
    and rep_distinct: "rep h c xs \<Longrightarrow> distinct (c # xs)"
    and add_rep: "rep h c xs \<Longrightarrow> node h a \<Longrightarrow> a \<notin> set (c # xs) \<Longrightarrow>
      \<exists>h'. add a c h = Some h' \<and> rep h' c (a # xs) \<and> node h' = node h"
    and add_tail_rep: "rep h c xs \<Longrightarrow> node h a \<Longrightarrow> a \<notin> set (c # xs) \<Longrightarrow>
      \<exists>h'. add_tail a c h = Some h' \<and> rep h' c (xs @ [a]) \<and> node h' = node h"
    and del_rep: "rep h c (ys @ a # zs) \<Longrightarrow>
      \<exists>h'. del a h = Some h' \<and> rep h' c (ys @ zs) \<and> node h' = node h"
    and rep_node: "rep h c xs \<Longrightarrow> a \<in> set (c # xs) \<Longrightarrow> node h a"
begin

lemma enqueue_all:
  "rep h c xs \<Longrightarrow> (\<forall>a\<in>set as. node h a) \<Longrightarrow> distinct as \<Longrightarrow> set as \<inter> set (c # xs) = {} \<Longrightarrow>
   \<exists>h'. foldM (\<lambda>a. add_tail a c) as h = Some h' \<and> rep h' c (xs @ as) \<and> node h' = node h"
proof (induction as arbitrary: h xs)
  case Nil
  then show ?case by simp
next
  case (Cons a as)
  obtain h1 where h1: "add_tail a c h = Some h1" "rep h1 c (xs @ [a])" "node h1 = node h"
    using add_tail_rep[of h c xs a] Cons.prems by auto
  have "\<exists>h'. foldM (\<lambda>a. add_tail a c) as h1 = Some h' \<and> rep h' c ((xs @ [a]) @ as) \<and> node h' = node h1"
    by (rule Cons.IH) (use Cons.prems h1 in auto)
  then show ?case using h1 by auto
qed

lemma push_all:
  "rep h c xs \<Longrightarrow> (\<forall>a\<in>set as. node h a) \<Longrightarrow> distinct as \<Longrightarrow> set as \<inter> set (c # xs) = {} \<Longrightarrow>
   \<exists>h'. foldM (\<lambda>a. add a c) as h = Some h' \<and> rep h' c (rev as @ xs) \<and> node h' = node h"
proof (induction as arbitrary: h xs)
  case Nil
  then show ?case by simp
next
  case (Cons a as)
  obtain h1 where h1: "add a c h = Some h1" "rep h1 c (a # xs)" "node h1 = node h"
    using add_rep[of h c xs a] Cons.prems by auto
  have "\<exists>h'. foldM (\<lambda>a. add a c) as h1 = Some h' \<and> rep h' c (rev as @ a # xs) \<and> node h' = node h1"
    by (rule Cons.IH) (use Cons.prems h1 in auto)
  then show ?case using h1 by auto
qed

lemma del_all:
  "rep h c (ys @ as @ zs) \<Longrightarrow> \<exists>h'. foldM del as h = Some h' \<and> rep h' c (ys @ zs) \<and> node h' = node h"
proof (induction as arbitrary: h)
  case Nil
  then show ?case by simp
next
  case (Cons a as)
  obtain h1 where h1: "del a h = Some h1" "rep h1 c (ys @ as @ zs)" "node h1 = node h"
    using del_rep[of h c ys a "as @ zs"] Cons.prems by auto
  from Cons.IH[OF this(2)] show ?case using h1 by auto
qed

lemma enqueue_then_drain:
  assumes "rep h c []" "\<forall>a\<in>set as. node h a" "distinct as" "c \<notin> set as"
  shows "\<exists>h1 h2. foldM (\<lambda>a. add_tail a c) as h = Some h1 \<and> visit c h1 = Some as \<and>
    foldM del as h1 = Some h2 \<and> rep h2 c []"
proof -
  obtain h1 where h1: "foldM (\<lambda>a. add_tail a c) as h = Some h1" "rep h1 c as"
    using enqueue_all[OF assms(1-3)] assms(4) by auto
  then show ?thesis using rep_visit del_all[of h1 c "[]" as "[]"] by fastforce
qed

end

interpretation kl: ring_container dlist "\<lambda>h a. a \<in> dom h" list_add list_add_tail list_del list_for_each
proof unfold_locales
  fix h c and xs :: "addr list" and a ys zs
  show "dlist h c xs \<Longrightarrow> list_for_each c h = Some xs" by simp
  show "dlist h c xs \<Longrightarrow> distinct (c # xs)" by (simp add: dlist_def)
  show "dlist h c xs \<Longrightarrow> a \<in> dom h \<Longrightarrow> a \<notin> set (c # xs) \<Longrightarrow>
      \<exists>h'. list_add a c h = Some h' \<and> dlist h' c (a # xs) \<and> (\<lambda>a. a \<in> dom h') = (\<lambda>a. a \<in> dom h)"
    using list_add_dlist[of h c xs a] by auto
  show "dlist h c xs \<Longrightarrow> a \<in> dom h \<Longrightarrow> a \<notin> set (c # xs) \<Longrightarrow>
      \<exists>h'. list_add_tail a c h = Some h' \<and> dlist h' c (xs @ [a]) \<and> (\<lambda>a. a \<in> dom h') = (\<lambda>a. a \<in> dom h)"
    using list_add_tail_dlist[of h c xs a] by auto
  show "dlist h c (ys @ a # zs) \<Longrightarrow>
      \<exists>h'. list_del a h = Some h' \<and> dlist h' c (ys @ zs) \<and> (\<lambda>a. a \<in> dom h') = (\<lambda>a. a \<in> dom h)"
    using list_del_dlist[of h c ys a zs] by auto
  show "dlist h c xs \<Longrightarrow> a \<in> set (c # xs) \<Longrightarrow> a \<in> dom h"
    using dlist_dom by blast
qed

section \<open>Properties\<close>

text \<open>A concrete memory for the witnesses: a head at 8 with the entries 16 and 24, and the
  unlinked nodes 32 and 40.\<close>

definition ex_heap :: lheap where
  "ex_heap = [8 \<mapsto> \<lparr>next_f = 16, prev_f = 24\<rparr>, 16 \<mapsto> \<lparr>next_f = 24, prev_f = 8\<rparr>,
     24 \<mapsto> \<lparr>next_f = 8, prev_f = 16\<rparr>, 32 \<mapsto> \<lparr>next_f = 32, prev_f = 32\<rparr>,
     40 \<mapsto> \<lparr>next_f = 0, prev_f = 0\<rparr>]"

lemma ex_heap_dlist:
  "dlist ex_heap 8 [16, 24]" "dlist ex_heap 32 []" "dom ex_heap = {8, 16, 24, 32, 40}"
  by (auto simp: dlist_def ex_heap_def get_next_def get_prev_def)

text \<open>
  C29: entries appended with \<open>list_add_tail\<close> to an empty ring are visited by \<open>list_for_each\<close>
  in the order they were appended (a queue), and deleting each of them with \<open>list_del\<close> in that
  order succeeds and leaves the ring empty.
\<close>
theorem list_queue_discipline:
  assumes "dlist h head []" "\<forall>a\<in>set as. a \<in> dom h" "distinct as" "head \<notin> set as"
  shows "\<exists>h1 h2. foldM (\<lambda>a. list_add_tail a head) as h = Some h1 \<and> list_for_each head h1 = Some as \<and>
    foldM list_del as h1 = Some h2 \<and> dlist h2 head []"
  using assms by (rule kl.enqueue_then_drain)

theorem list_queue_discipline_witness:
  "\<exists>h1 h2. foldM (\<lambda>a. list_add_tail a 32) [40, 16] ex_heap = Some h1 \<and>
    list_for_each 32 h1 = Some [40, 16] \<and> foldM list_del [40, 16] h1 = Some h2 \<and> dlist h2 32 []"
  by (rule list_queue_discipline) (simp_all add: ex_heap_dlist)


text \<open>
  \<open>list_del\<close> of an entry of a ring never faults, removes exactly that entry, poisons both of
  its links with NULL and changes no other list head outside the ring.
\<close>
theorem list_del_removes_entry:
  assumes "dlist h head (ys @ e # zs)"
  shows "\<exists>h'. list_del e h = Some h' \<and> dlist h' head (ys @ zs) \<and>
    h' e = Some \<lparr>next_f = NULL, prev_f = NULL\<rparr> \<and>
    (\<forall>q. q \<notin> set (head # ys @ e # zs) \<longrightarrow> h' q = h q)"
  using list_del_dlist[OF assms] by blast

theorem list_del_removes_entry_witness:
  "\<exists>h'. list_del 16 ex_heap = Some h' \<and> dlist h' 8 [24] \<and>
    h' 16 = Some \<lparr>next_f = NULL, prev_f = NULL\<rparr> \<and> h' 32 = ex_heap 32"
  using list_del_removes_entry[of ex_heap 8 "[]" 16 "[24]"] by (force simp: ex_heap_dlist)

text \<open>
  \<open>list_move\<close> and \<open>list_move_tail\<close> take an entry out of its ring and put it at the front,
  or the back, of another ring; both rings stay well formed.
\<close>
theorem list_move_between_rings:
  assumes "dlist h head (ys @ e # zs)" "dlist h dst ws" "set (head # ys @ e # zs) \<inter> set (dst # ws) = {}"
  shows "(\<exists>h'. list_move e dst h = Some h' \<and> dlist h' head (ys @ zs) \<and> dlist h' dst (e # ws)) \<and>
    (\<exists>h'. list_move_tail e dst h = Some h' \<and> dlist h' head (ys @ zs) \<and> dlist h' dst (ws @ [e]))"
  using list_move_other[OF assms] by blast

theorem list_move_between_rings_witness:
  "\<exists>h'. list_move_tail 24 32 ex_heap = Some h' \<and> dlist h' 8 [16] \<and> dlist h' 32 [24]"
  using list_move_between_rings[of ex_heap 8 "[16]" 24 "[]" 32 "[]"] by (simp add: ex_heap_dlist)

text \<open>
  \<open>list_splice_init\<close> joins the entries of one ring in front of those of a disjoint ring,
  in order, and leaves the first ring empty and usable.
\<close>
theorem list_splice_init_concat:
  assumes "dlist h lst xs" "dlist h head ys" "set (lst # xs) \<inter> set (head # ys) = {}"
  shows "\<exists>h'. list_splice_init lst head h = Some h' \<and> dlist h' head (xs @ ys) \<and> dlist h' lst [] \<and>
    list_for_each head h' = Some (xs @ ys)"
  using list_splice_init_dlist[OF assms] by auto

theorem list_splice_init_concat_witness:
  "\<exists>h'. list_splice_init 8 32 ex_heap = Some h' \<and> dlist h' 32 [16, 24] \<and> dlist h' 8 [] \<and>
    list_for_each 32 h' = Some [16, 24]"
  using list_splice_init_concat[of ex_heap 8 "[16, 24]" 32 "[]"] by (simp add: ex_heap_dlist)

end
