(* ===== verification/Kfifo.thy ===== *)
theory Kfifo
  imports Prelude
begin

text \<open>
  The byte FIFO of \<^verbatim>\<open>datastruct/kfifo.[ch]\<close>: a power-of-two buffer and two free-running 32-bit
  counters whose wrap-around is part of the design. The operations are translated with their word
  arithmetic; the abstraction \<open>contents\<close> is the list of bytes between the two counters, and
  every operation is proved to act on it as a bounded queue does.
\<close>

section \<open>The structure\<close>

record kfifo =
  buffer :: "byte list"
  ksize :: u32
  kin :: u32
  kout :: u32
  klock :: bool

definition c_min :: "u32 \<Rightarrow> u32 \<Rightarrow> u32" where
  "c_min x y = (if x < y then x else y)"

section \<open>Rounding to a power of two\<close>

text \<open>One of the five tests of \<open>generic_fls\<close>: if no bit of the mask is set, shift by \<open>n\<close> and
  lower the result by \<open>n\<close>.\<close>

definition fls_stage :: "u32 \<Rightarrow> nat \<Rightarrow> u32 \<times> nat \<Rightarrow> u32 \<times> nat" where
  "fls_stage m n = (\<lambda>(x, r). if x AND m = 0 then (push_bit n x, r - n) else (x, r))"

definition generic_fls :: "u32 \<Rightarrow> nat" where
  "generic_fls x =
     (if x = 0 then 0 else
      let s = (x, 32);
          s = fls_stage 0xffff0000 16 s;
          s = fls_stage 0xff000000 8 s;
          s = fls_stage 0xf0000000 4 s;
          s = fls_stage 0xc0000000 2 s;
          s = fls_stage 0x80000000 1 s
      in snd s)"

definition roundup_pow_of_two :: "64 word \<Rightarrow> 64 word" where
  "roundup_pow_of_two x = push_bit (generic_fls (ucast (x - 1))) 1"

section \<open>Creation\<close>

text \<open>
  \<open>assert\<close> aborts unless the program is built with \<^verbatim>\<open>NDEBUG\<close>, so both builds are
  modelled by the flag \<open>ndebug\<close>. The result of \<open>malloc\<close> is an argument: whether it succeeds,
  and the (indeterminate) bytes of the buffer it returns.
\<close>

datatype 'a outcome = Aborts | ReturnsNull | Returns 'a

definition kfifo_init :: "bool \<Rightarrow> bool \<Rightarrow> byte list \<Rightarrow> u32 \<Rightarrow> kfifo outcome" where
  "kfifo_init ndebug malloc_ok buf sz =
     (if \<not> ndebug \<and> sz AND (sz - 1) = 0 then Aborts
      else if \<not> malloc_ok then ReturnsNull
      else Returns \<lparr>buffer = buf, ksize = sz, kin = 0, kout = 0, klock = False\<rparr>)"

definition kfifo_alloc :: "bool \<Rightarrow> (u32 \<Rightarrow> byte list option) \<Rightarrow> bool \<Rightarrow> u32 \<Rightarrow> kfifo outcome" where
  "kfifo_alloc ndebug malloc_buf malloc_ok sz =
     (if sz AND (sz - 1) \<noteq> 0 \<and> \<not> ndebug \<and> \<not> 0x80000000 < sz then Aborts
      else
        let sz = (if sz AND (sz - 1) \<noteq> 0 then ucast (roundup_pow_of_two (ucast sz)) else sz)
        in case malloc_buf sz of
             None \<Rightarrow> ReturnsNull
           | Some buf \<Rightarrow> kfifo_init ndebug malloc_ok buf sz)"

section \<open>Transfer\<close>

definition raw_kfifo_put :: "kfifo \<Rightarrow> byte list \<Rightarrow> u32 \<Rightarrow> (kfifo \<times> u32) option" where
  "raw_kfifo_put f buf len =
     (let len = c_min len (ksize f - kin f + kout f);
          l = c_min len (ksize f - (kin f AND (ksize f - 1)))
      in do {
        b \<leftarrow> blit (buffer f) (unat (kin f AND (ksize f - 1))) buf 0 (unat l);
        b \<leftarrow> blit b 0 buf (unat l) (unat (len - l));
        Some (f\<lparr>buffer := b, kin := kin f + len\<rparr>, len) })"

definition raw_kfifo_get :: "kfifo \<Rightarrow> byte list \<Rightarrow> u32 \<Rightarrow> (kfifo \<times> byte list \<times> u32) option" where
  "raw_kfifo_get f buf len =
     (let len = c_min len (kin f - kout f);
          l = c_min len (ksize f - (kout f AND (ksize f - 1)))
      in do {
        b \<leftarrow> blit buf 0 (buffer f) (unat (kout f AND (ksize f - 1))) (unat l);
        b \<leftarrow> blit b (unat l) (buffer f) 0 (unat (len - l));
        Some (f\<lparr>kout := kout f + len\<rparr>, b, len) })"

definition raw_kfifo_reset :: "kfifo \<Rightarrow> kfifo" where
  "raw_kfifo_reset f = f\<lparr>kin := 0, kout := 0\<rparr>"

definition raw_kfifo_len :: "kfifo \<Rightarrow> u32" where
  "raw_kfifo_len f = kin f - kout f"

text \<open>
  The locked variants take the mutex, run the operation and release it. Taking a mutex that is
  held blocks the caller, which is the value \<^const>\<open>None\<close> here.
\<close>

definition klock_acquire :: "kfifo \<Rightarrow> kfifo option" where
  "klock_acquire f = (if klock f then None else Some (f\<lparr>klock := True\<rparr>))"

definition klock_release :: "kfifo \<Rightarrow> kfifo" where
  "klock_release f = f\<lparr>klock := False\<rparr>"

definition kfifo_reset :: "kfifo \<Rightarrow> kfifo option" where
  "kfifo_reset f = do { f \<leftarrow> klock_acquire f; Some (klock_release (raw_kfifo_reset f)) }"

definition kfifo_put :: "kfifo \<Rightarrow> byte list \<Rightarrow> u32 \<Rightarrow> (kfifo \<times> u32) option" where
  "kfifo_put f buf len = do {
     f \<leftarrow> klock_acquire f;
     (f, ret) \<leftarrow> raw_kfifo_put f buf len;
     Some (klock_release f, ret) }"

definition kfifo_get :: "kfifo \<Rightarrow> byte list \<Rightarrow> u32 \<Rightarrow> (kfifo \<times> byte list \<times> u32) option" where
  "kfifo_get f buf len = do {
     f \<leftarrow> klock_acquire f;
     (f, b, ret) \<leftarrow> raw_kfifo_get f buf len;
     let f = (if kin f = kout f then f\<lparr>kin := 0, kout := 0\<rparr> else f);
     Some (klock_release f, b, ret) }"

definition kfifo_len :: "kfifo \<Rightarrow> (kfifo \<times> u32) option" where
  "kfifo_len f = do { f \<leftarrow> klock_acquire f; Some (klock_release f, raw_kfifo_len f) }"


section \<open>Abstraction and invariant\<close>

definition kf_wf :: "kfifo \<Rightarrow> bool" where
  "kf_wf f \<longleftrightarrow> (\<exists>k. unat (ksize f) = 2 ^ k) \<and> length (buffer f) = unat (ksize f) \<and>
     kin f - kout f \<le> ksize f"

definition contents :: "kfifo \<Rightarrow> byte list" where
  "contents f = map (\<lambda>i. buffer f ! ((unat (kout f) + i) mod unat (ksize f)))
     [0..<unat (kin f - kout f)]"

lemma length_contents [simp]: "length (contents f) = unat (kin f - kout f)"
  by (simp add: contents_def)

lemma contents_nth:
  "i < unat (kin f - kout f) \<Longrightarrow>
   contents f ! i = buffer f ! ((unat (kout f) + i) mod unat (ksize f))"
  by (simp add: contents_def)

lemma c_min_unat: "unat (c_min x y) = min (unat x) (unat y)"
  by (simp add: c_min_def word_less_nat_alt min_def)

lemma mod_wrap: "s < N \<Longrightarrow> i < N \<Longrightarrow> (s + i) mod N = (if s + i < N then s + i else s + i - (N::nat))"
  by (simp add: mod_if)

subsection \<open>Two-piece copies around the end of a ring\<close>

lemma ring_write:
  assumes "length b = N" "s < N" "n \<le> N" "l = min n (N - s)"
    and "blit b s xs 0 l = Some b1" "blit b1 0 xs l (n - l) = Some b2"
  shows "length b2 = N"
    and "i < n \<Longrightarrow> b2 ! ((s + i) mod N) = xs ! i"
    and "j < N \<Longrightarrow> (\<And>i. i < n \<Longrightarrow> j \<noteq> (s + i) mod N) \<Longrightarrow> b2 ! j = b ! j"
proof -
  have len: "length b1 = N" using blit_length[OF assms(5)] assms(1) by simp
  then show "length b2 = N" using blit_length[OF assms(6)] by simp
  have nth: "j < N \<Longrightarrow> b2 ! j = (if j < n - l then xs ! (l + j)
      else if s \<le> j \<and> j < s + l then xs ! (j - s) else b ! j)" for j
    using blit_nth[OF assms(5), of j] blit_nth[OF assms(6), of j] len assms(1) by simp
  show "i < n \<Longrightarrow> b2 ! ((s + i) mod N) = xs ! i"
    using nth[of "(s + i) mod N"] assms(2-4) by (auto simp: mod_wrap)
  show "j < N \<Longrightarrow> (\<And>i. i < n \<Longrightarrow> j \<noteq> (s + i) mod N) \<Longrightarrow> b2 ! j = b ! j"
  proof -
    assume j: "j < N" and neq: "\<And>i. i < n \<Longrightarrow> j \<noteq> (s + i) mod N"
    have "\<not> j < n - l"
    proof
      assume "j < n - l"
      then have "N - s + j < n" using assms(2-4) by (auto simp: min_def split: if_splits)
      from neq[OF this] show False using assms(2) j by (simp add: mod_if)
    qed
    moreover have "\<not> (s \<le> j \<and> j < s + l)"
    proof
      assume sj: "s \<le> j \<and> j < s + l"
      then have "j - s < n" using assms(4) by auto
      from neq[OF this] show False using sj j by simp
    qed
    ultimately show ?thesis using nth[OF j] by auto
  qed
qed

lemma ring_read:
  assumes "length b = N" "s < N" "n \<le> N" "l = min n (N - s)" "n \<le> length buf"
  shows "\<exists>c1. blit buf 0 b s l = Some c1 \<and>
    blit c1 l b 0 (n - l) = Some (map (\<lambda>i. b ! ((s + i) mod N)) [0..<n] @ drop n buf)"
proof -
  have "s + l \<le> length b" "0 + l \<le> length buf" using assms by auto
  then obtain c1 where c1: "blit buf 0 b s l = Some c1" using blit_ok by blast
  have len1: "length c1 = length buf" using blit_length[OF c1] .
  have "l + (n - l) \<le> length c1" "0 + (n - l) \<le> length b" using assms len1 by auto
  then obtain c2 where c2: "blit c1 l b 0 (n - l) = Some c2" using blit_ok by blast
  have "c2 = map (\<lambda>i. b ! ((s + i) mod N)) [0..<n] @ drop n buf"
  proof (rule nth_equalityI)
    show "length c2 = length (map (\<lambda>i. b ! ((s + i) mod N)) [0..<n] @ drop n buf)"
      using blit_length[OF c2] len1 assms(5) by simp
    fix j assume "j < length c2"
    then have j: "j < length buf" using blit_length[OF c2] len1 by simp
    show "c2 ! j = (map (\<lambda>i. b ! ((s + i) mod N)) [0..<n] @ drop n buf) ! j"
      using blit_nth[OF c1 j] blit_nth[OF c2, of j] j len1 assms
      by (auto simp: nth_append mod_if add.commute)
  qed
  then show ?thesis using c1 c2 by blast
qed


subsection \<open>The counters modulo the size\<close>

lemma kf_wf_size:
  assumes "kf_wf f"
  shows "0 < unat (ksize f)" "unat (ksize f) dvd 2 ^ LENGTH(32)"
    "unat (kin f) mod unat (ksize f) = (unat (kout f) + unat (kin f - kout f)) mod unat (ksize f)"
    "unat (kin f - kout f) \<le> unat (ksize f)"
    "unat (ksize f - kin f + kout f) = unat (ksize f) - unat (kin f - kout f)"
    "unat (x AND (ksize f - 1)) = unat x mod unat (ksize f)"
    "unat (ksize f - (x AND (ksize f - 1))) = unat (ksize f) - unat x mod unat (ksize f)"
proof -
  obtain k where k: "unat (ksize f) = 2 ^ k" and le: "kin f - kout f \<le> ksize f"
    using assms by (auto simp: kf_wf_def)
  show pos: "0 < unat (ksize f)" using k by simp
  have "(2::nat) ^ k < 2 ^ 32" using k unsigned_less[of "ksize f", where ?'a = nat] by simp
  then have "k < 32" by (metis nat_power_less_imp_less zero_less_numeral)
  then show dvd: "unat (ksize f) dvd 2 ^ LENGTH(32)"
    using le_imp_power_dvd[of k 32 "2::nat"] by (simp add: k)
  have "kin f = kout f + (kin f - kout f)" by simp
  then show "unat (kin f) mod unat (ksize f) =
      (unat (kout f) + unat (kin f - kout f)) mod unat (ksize f)"
    by (metis unat_add_mod_dvd[OF dvd])
  show used: "unat (kin f - kout f) \<le> unat (ksize f)" using le by (simp add: word_le_nat_alt)
  have eq: "ksize f - kin f + kout f = ksize f - (kin f - kout f)" by simp
  show "unat (ksize f - kin f + kout f) = unat (ksize f) - unat (kin f - kout f)"
    by (simp only: eq unat_sub[OF le])
  show m: "unat (x AND (ksize f - 1)) = unat x mod unat (ksize f)"
    by (rule unat_and_mask_pow2[OF k])
  then have "x AND (ksize f - 1) \<le> ksize f"
    using mod_less_divisor[OF pos, of "unat x"] by (simp add: word_le_nat_alt)
  then show "unat (ksize f - (x AND (ksize f - 1))) = unat (ksize f) - unat x mod unat (ksize f)"
    by (simp add: unat_sub m)
qed

subsection \<open>Put and get on the contents\<close>

lemma ring_positions_disjoint:
  fixes N :: nat
  assumes "i < u" "j < n" "u + n \<le> N"
  shows "(out + i) mod N \<noteq> ((out + u) mod N + j) mod N"
proof
  assume "(out + i) mod N = ((out + u) mod N + j) mod N"
  then have "(out + i) mod N = (out + u + j) mod N" by (simp add: mod_add_left_eq)
  then have "N dvd (out + u + j) - (out + i)"
    by (metis mod_eq_dvd_iff_nat le_add_diff_inverse2 assms(1) add.assoc nat_add_left_cancel_le trans_le_add1 less_imp_le_nat)
  then have "N dvd u + j - i" by (simp add: add.assoc)
  moreover have "0 < u + j - i" "u + j - i < N" using assms by auto
  ultimately show False using nat_dvd_not_less by blast
qed

lemma raw_kfifo_put_contents:
  assumes wf: "kf_wf f" and len: "unat len \<le> length buf"
  defines "n \<equiv> min (unat len) (unat (ksize f) - length (contents f))"
  shows "\<exists>f'. raw_kfifo_put f buf len = Some (f', of_nat n) \<and> kf_wf f' \<and>
    contents f' = contents f @ take n buf \<and> ksize f' = ksize f \<and> kout f' = kout f \<and> klock f' = klock f"
proof -
  let ?N = "unat (ksize f)" and ?u = "unat (kin f - kout f)"
  let ?s = "unat (kin f) mod ?N" and ?l = "min n (?N - unat (kin f) mod ?N)"
  define w where "w = c_min len (ksize f - kin f + kout f)"
  define lw where "lw = c_min w (ksize f - (kin f AND (ksize f - 1)))"
  note sz = kf_wf_size[OF wf]
  have uw: "unat w = n" by (simp add: w_def n_def c_min_unat sz)
  have ulw: "unat lw = ?l" by (simp add: lw_def c_min_unat uw sz)
  have "lw \<le> w" using uw ulw by (simp add: word_le_nat_alt)
  then have ud: "unat (w - lw) = n - ?l" by (simp add: unat_sub uw ulw)
  have lb: "length (buffer f) = ?N" using wf by (simp add: kf_wf_def)
  have s: "?s < ?N" using sz(1) by simp
  have n: "n \<le> ?N" "n \<le> length buf" "?u + n \<le> ?N" using len sz(4) by (auto simp: n_def)
  have "?s + ?l \<le> length (buffer f)" "0 + ?l \<le> length buf"
    using lb n s by (auto simp: min_def)
  then obtain b1 where b1: "blit (buffer f) ?s buf 0 ?l = Some b1"
    using blit_ok by blast
  have "0 + (n - ?l) \<le> length b1" "?l + (n - ?l) \<le> length buf"
    using blit_length[OF b1] lb n by auto
  then obtain b2 where b2: "blit b1 0 buf ?l (n - ?l) = Some b2"
    using blit_ok by blast
  let ?f' = "f\<lparr>buffer := b2, kin := kin f + w\<rparr>"
  note rw = ring_write[OF lb s n(1) refl b1 b2]
  have put: "raw_kfifo_put f buf len = Some (?f', of_nat n)"
    using b1 b2 by (simp add: raw_kfifo_put_def Let_def flip: w_def lw_def)
      (simp add: sz ulw ud flip: uw)
  have used: "unat (kin ?f' - kout ?f') = ?u + n"
  proof -
    have "?u + unat w < 2 ^ LENGTH(32)"
      using n(3) uw unsigned_less[of "ksize f", where ?'a = nat] by simp
    from iffD1[OF unat_add_lem this] have "unat ((kin f - kout f) + w) = ?u + n"
      using uw by simp
    then show ?thesis by (simp add: algebra_simps)
  qed
  have wf': "kf_wf ?f'"
    using wf rw(1) used n(3) by (simp add: kf_wf_def word_le_nat_alt)
  have "contents ?f' = contents f @ take n buf"
  proof (rule nth_equalityI)
    show "length (contents ?f') = length (contents f @ take n buf)"
      using used n(2) by simp
    fix i assume "i < length (contents ?f')"
    then have i: "i < ?u + n" using used by simp
    show "contents ?f' ! i = (contents f @ take n buf) ! i"
    proof (cases "i < ?u")
      case True
      have "b2 ! ((unat (kout f) + i) mod ?N) = buffer f ! ((unat (kout f) + i) mod ?N)"
        by (rule rw(3)) (use sz(1) ring_positions_disjoint[OF True _ n(3)] sz(3) in simp_all)
      then show ?thesis using True contents_nth[of i ?f'] i used by (simp add: contents_nth nth_append)
    next
      case False
      then obtain j where "i = ?u + j" by (metis le_Suc_ex not_less)
      then have "(unat (kout f) + i) mod ?N = (?s + (i - ?u)) mod ?N"
        using sz(3) by (simp add: mod_add_left_eq add.assoc)
      then show ?thesis using False i rw(2)[of "i - ?u"] n(2) contents_nth[of i ?f'] used
        by (simp add: nth_append)
    qed
  qed
  then show ?thesis using put wf' by auto
qed


lemma raw_kfifo_get_contents:
  assumes wf: "kf_wf f" and len: "unat len \<le> length buf"
  defines "n \<equiv> min (unat len) (length (contents f))"
  shows "\<exists>f'. raw_kfifo_get f buf len = Some (f', take n (contents f) @ drop n buf, of_nat n) \<and>
    kf_wf f' \<and> contents f' = drop n (contents f) \<and> ksize f' = ksize f \<and> klock f' = klock f"
proof -
  let ?N = "unat (ksize f)" and ?u = "unat (kin f - kout f)"
  let ?s = "unat (kout f) mod ?N" and ?l = "min n (?N - unat (kout f) mod ?N)"
  define w where "w = c_min len (kin f - kout f)"
  define lw where "lw = c_min w (ksize f - (kout f AND (ksize f - 1)))"
  note sz = kf_wf_size[OF wf]
  have uw: "unat w = n" by (simp add: w_def n_def c_min_unat)
  have ulw: "unat lw = ?l" by (simp add: lw_def c_min_unat uw sz)
  have "lw \<le> w" using uw ulw by (simp add: word_le_nat_alt)
  then have ud: "unat (w - lw) = n - ?l" by (simp add: unat_sub uw ulw)
  have lb: "length (buffer f) = ?N" using wf by (simp add: kf_wf_def)
  have s: "?s < ?N" using sz(1) by simp
  have n: "n \<le> ?N" "n \<le> length buf" "n \<le> ?u" using len sz(4) by (auto simp: n_def)
  let ?f' = "f\<lparr>kout := kout f + w\<rparr>"
  have "map (\<lambda>i. buffer f ! ((?s + i) mod ?N)) [0..<n] = take n (contents f)"
    using n(3) by (simp add: contents_def take_map mod_add_left_eq)
  then obtain c1 where "blit buf 0 (buffer f) ?s ?l = Some c1"
    "blit c1 ?l (buffer f) 0 (n - ?l) = Some (take n (contents f) @ drop n buf)"
    using ring_read[OF lb s n(1) refl n(2)] by auto
  then have get: "raw_kfifo_get f buf len = Some (?f', take n (contents f) @ drop n buf, of_nat n)"
    by (simp add: raw_kfifo_get_def Let_def flip: w_def lw_def) (simp add: sz ulw ud flip: uw)
  have le: "w \<le> kin f - kout f" using n(3) uw by (simp add: word_le_nat_alt)
  have eq: "kin f - (kout f + w) = (kin f - kout f) - w" by simp
  have "unat (kin f - (kout f + w)) = ?u - n"
    by (simp only: eq unat_sub[OF le] uw)
  then have used: "unat (kin ?f' - kout ?f') = ?u - n" by simp
  have wf': "kf_wf ?f'"
    using wf used sz(4) by (simp add: kf_wf_def word_le_nat_alt)
  have "contents ?f' = drop n (contents f)"
  proof (rule nth_equalityI)
    show "length (contents ?f') = length (drop n (contents f))"
      using used by simp
    fix i assume "i < length (contents ?f')"
    then have i: "i < ?u - n" using used by simp
    have "(unat (kout f + w) + i) mod ?N = (unat (kout f) + (n + i)) mod ?N"
      using unat_add_mod_dvd[OF sz(2), of "kout f" w] uw by (metis add.assoc mod_add_left_eq)
    then show "contents ?f' ! i = drop n (contents f) ! i"
      using i n(3) contents_nth[of i ?f'] contents_nth[of "n + i" f] used by simp
  qed
  then show ?thesis using get wf' by auto
qed


section \<open>The locked operations\<close>

lemma contents_lock [simp]: "contents (f\<lparr>klock := b\<rparr>) = contents f"
  by (simp add: contents_def)

lemma kf_wf_lock [simp]: "kf_wf (f\<lparr>klock := b\<rparr>) = kf_wf f"
  by (simp add: kf_wf_def)

lemma kf_wf_reset:
  "kf_wf f \<Longrightarrow> kf_wf (f\<lparr>kin := 0, kout := 0\<rparr>) \<and> contents (f\<lparr>kin := 0, kout := 0\<rparr>) = []"
  by (simp add: kf_wf_def contents_def)

lemma kfifo_put_contents:
  assumes "kf_wf f" "\<not> klock f" "unat len \<le> length buf"
  defines "n \<equiv> min (unat len) (unat (ksize f) - length (contents f))"
  shows "\<exists>f'. kfifo_put f buf len = Some (f', of_nat n) \<and> kf_wf f' \<and> \<not> klock f' \<and>
    contents f' = contents f @ take n buf \<and> ksize f' = ksize f"
proof -
  obtain f1 where f1: "raw_kfifo_put (f\<lparr>klock := True\<rparr>) buf len = Some (f1, of_nat n)" "kf_wf f1"
    "contents f1 = contents f @ take n buf" "ksize f1 = ksize f"
    using raw_kfifo_put_contents[of "f\<lparr>klock := True\<rparr>" len buf] assms by auto
  then show ?thesis
    using assms(2) by (auto simp: kfifo_put_def klock_acquire_def klock_release_def)
qed

lemma kfifo_get_contents:
  assumes "kf_wf f" "\<not> klock f" "unat len \<le> length buf"
  defines "n \<equiv> min (unat len) (length (contents f))"
  shows "\<exists>f'. kfifo_get f buf len = Some (f', take n (contents f) @ drop n buf, of_nat n) \<and>
    kf_wf f' \<and> \<not> klock f' \<and> contents f' = drop n (contents f) \<and> ksize f' = ksize f"
proof -
  obtain f1 where f1: "raw_kfifo_get (f\<lparr>klock := True\<rparr>) buf len =
      Some (f1, take n (contents f) @ drop n buf, of_nat n)" "kf_wf f1"
    "contents f1 = drop n (contents f)" "ksize f1 = ksize f"
    using raw_kfifo_get_contents[of "f\<lparr>klock := True\<rparr>" len buf] assms by auto
  define f2 where "f2 = (if kin f1 = kout f1 then f1\<lparr>kin := 0, kout := 0\<rparr> else f1)"
  have "contents f1 = [] \<longleftrightarrow> kin f1 = kout f1"
    by (simp flip: length_0_conv add: unat_eq_zero)
  then have "kf_wf f2 \<and> contents f2 = contents f1 \<and> ksize f2 = ksize f1"
    using kf_wf_reset[OF f1(2)] f1(2) by (auto simp: f2_def)
  then show ?thesis
    using f1 assms(2) by (auto simp: kfifo_get_def klock_acquire_def klock_release_def f2_def Let_def)
qed


section \<open>Correctness of the rounding\<close>

lemma and_high_mask_zero:
  fixes x :: u32
  assumes "m = NOT (mask k)" "k < 32"
  shows "x AND m = 0 \<longleftrightarrow> unat x < 2 ^ k"
proof
  assume "x AND m = 0"
  then have "x = x AND mask k"
    by (metis and.right_neutral assms(1) bit.conj_disj_distrib bit.disj_cancel_right or.right_neutral)
  then have "unat x = unat x mod 2 ^ k"
    by (metis take_bit_eq_mask unsigned_take_bit_eq take_bit_eq_mod)
  then show "unat x < 2 ^ k" by (metis mod_less_divisor zero_less_numeral zero_less_power)
next
  assume "unat x < 2 ^ k"
  then have "take_bit k x = x"
    by (metis take_bit_nat_eq_self_iff unsigned_take_bit_eq word_unat_eq_iff)
  then have "x = x AND mask k" by (simp add: take_bit_eq_mask)
  then show "x AND m = 0"
    by (metis assms(1) and.assoc bit.conj_cancel_right bit.conj_zero_right)
qed

text \<open>What the stages keep and gain: the value is the argument shifted left by what was taken
  from \<open>r\<close>, and after the stage that shifts by \<open>n\<close> it has reached \<open>2 ^ (32 - n)\<close>.\<close>

definition fls_inv :: "u32 \<Rightarrow> nat \<Rightarrow> u32 \<times> nat \<Rightarrow> bool" where
  "fls_inv x0 n s \<longleftrightarrow> unat (fst s) = unat x0 * 2 ^ (32 - snd s) \<and> n \<le> snd s \<and> snd s \<le> 32 \<and>
     2 ^ (32 - n) \<le> unat (fst s)"

lemma fls_stage_inv:
  assumes "fls_inv x0 (2 * n) s" "m = NOT (mask (32 - n))" "0 < n" "n \<le> 16"
  shows "fls_inv x0 n (fls_stage m n s)"
proof (cases "fst s AND m = 0")
  case True
  then have lt: "unat (fst s) < 2 ^ (32 - n)"
    using and_high_mask_zero[OF assms(2)] assms(3,4) by simp
  have e: "(2::nat) ^ 32 = 2 ^ (32 - n) * 2 ^ n" "(2::nat) ^ (32 - n) = 2 ^ (32 - 2 * n) * 2 ^ n"
    using assms(4) by (simp_all flip: power_add)
  have "unat (fst s) * 2 ^ n < 2 ^ LENGTH(32)"
    using lt by (simp add: e(1) del: power_numeral)
  then have u: "unat (push_bit n (fst s)) = unat (fst s) * 2 ^ n"
    unfolding unsigned_push_bit_eq by (simp add: push_bit_eq_mult take_bit_eq_mod)
  have "2 ^ (32 - 2 * n) * 2 ^ n \<le> unat (fst s) * 2 ^ n"
    using assms(1) by (simp add: fls_inv_def)
  moreover have "unat x0 * 2 ^ (32 - snd s) * 2 ^ n = unat x0 * 2 ^ (32 - (snd s - n))"
    using assms(1) by (simp add: fls_inv_def mult.assoc flip: power_add)
  ultimately show ?thesis
    using True assms(1,4) u e(2) by (auto simp: fls_inv_def fls_stage_def split: prod.splits)
next
  case False
  then have "2 ^ (32 - n) \<le> unat (fst s)"
    using and_high_mask_zero[OF assms(2)] assms(3) by (simp add: not_less)
  then show ?thesis
    using False assms(1) by (auto simp: fls_inv_def fls_stage_def split: prod.splits)
qed

lemma generic_fls_bounds:
  assumes "x \<noteq> 0"
  shows "2 ^ (generic_fls x - 1) \<le> unat x" "unat x < 2 ^ generic_fls x"
    "0 < generic_fls x" "generic_fls x \<le> 32"
proof -
  let ?s1 = "fls_stage 0xffff0000 16 (x, 32)" let ?s2 = "fls_stage 0xff000000 8 ?s1"
  let ?s3 = "fls_stage 0xf0000000 4 ?s2" let ?s4 = "fls_stage 0xc0000000 2 ?s3"
  let ?s5 = "fls_stage 0x80000000 1 ?s4"
  have "0 < unat x" using assms by (simp add: unat_gt_0)
  then have "fls_inv x 32 (x, 32)" by (simp add: fls_inv_def)
  then have "fls_inv x 16 ?s1" by (intro fls_stage_inv) (simp_all add: mask_eq_exp_minus_1)
  then have "fls_inv x 8 ?s2" by (intro fls_stage_inv) (simp_all add: mask_eq_exp_minus_1)
  then have "fls_inv x 4 ?s3" by (intro fls_stage_inv) (simp_all add: mask_eq_exp_minus_1)
  then have "fls_inv x 2 ?s4" by (intro fls_stage_inv) (simp_all add: mask_eq_exp_minus_1)
  then have inv: "fls_inv x 1 ?s5" by (intro fls_stage_inv) (simp_all add: mask_eq_exp_minus_1)
  let ?r = "snd ?s5"
  have r: "generic_fls x = ?r" using assms by (simp add: generic_fls_def Let_def)
  have b: "1 \<le> ?r" "?r \<le> 32" "unat (fst ?s5) = unat x * 2 ^ (32 - ?r)" "2 ^ 31 \<le> unat (fst ?s5)"
    using inv by (simp_all add: fls_inv_def)
  show "0 < generic_fls x" "generic_fls x \<le> 32" using b r by simp_all
  have e: "(2::nat) ^ 31 = 2 ^ (?r - 1) * 2 ^ (32 - ?r)" "(2::nat) ^ 32 = 2 ^ ?r * 2 ^ (32 - ?r)"
    using b(1,2) by (simp_all flip: power_add)
  have "2 ^ (?r - 1) * 2 ^ (32 - ?r) \<le> unat x * 2 ^ (32 - ?r)"
    using b(3,4) e(1) by simp
  then show "2 ^ (generic_fls x - 1) \<le> unat x" by (simp add: r)
  have "unat x * 2 ^ (32 - ?r) < 2 ^ ?r * 2 ^ (32 - ?r)"
    using b(3) e(2) unsigned_less[of "fst ?s5", where ?'a = nat] by simp
  then show "unat x < 2 ^ generic_fls x" by (simp add: r)
qed


lemma pow2_and_pred:
  fixes x :: u32
  shows "x AND (x - 1) = 0 \<longleftrightarrow> x = 0 \<or> (\<exists>k. unat x = 2 ^ k)"
proof
  assume z: "x AND (x - 1) = 0"
  show "x = 0 \<or> (\<exists>k. unat x = 2 ^ k)"
  proof (cases "x = 0")
    case False
    define r where "r = generic_fls x - 1"
    have lo: "2 ^ r \<le> unat x" and hi: "unat x < 2 ^ Suc r" and r: "r < 32"
      using generic_fls_bounds[OF False] by (simp_all add: r_def)
    have bit: "bit w r" if "2 ^ r \<le> unat w" "unat w < 2 ^ Suc r" for w :: u32
    proof -
      have "unat w div 2 ^ r = 1" using that by (auto simp: nat_eq_iff intro: Suc_leI div_nat_eqI)
      then have "odd (unat w div 2 ^ r)" by simp
      then show ?thesis by (simp add: bit_iff_odd flip: bit_unsigned_iff) (metis bit_iff_odd bit_unsigned_iff)
    qed
    have "unat x = 2 ^ r"
    proof (rule ccontr)
      assume "unat x \<noteq> 2 ^ r"
      then have "2 ^ r \<le> unat (x - 1)" "unat (x - 1) < 2 ^ Suc r"
        using lo hi unat_minus_one[OF False] by simp_all
      then have "bit (x AND (x - 1)) r" using bit lo hi by (simp add: bit_and_iff)
      then show False using z by simp
    qed
    then show ?thesis by blast
  qed simp
next
  assume "x = 0 \<or> (\<exists>k. unat x = 2 ^ k)"
  then show "x AND (x - 1) = 0"
  proof
    assume "\<exists>k. unat x = 2 ^ k"
    then obtain k where "unat x = 2 ^ k" by blast
    from unat_and_mask_pow2[OF this, of x] show ?thesis by (simp add: unat_eq_0)
  qed simp
qed

lemma roundup_spec:
  fixes x :: u32
  assumes "1 < unat x"
  shows "\<exists>k. unat (roundup_pow_of_two (ucast x)) = 2 ^ k \<and> k \<le> 32 \<and>
    unat x \<le> 2 ^ k \<and> 2 ^ k < 2 * unat x"
proof -
  have ux: "unat (ucast x :: 64 word) = unat x"
    using unsigned_less[of x, where ?'a = nat]
    by (simp add: unsigned_ucast_eq take_bit_nat_eq_self)
  then have nz: "x \<noteq> 0" "(ucast x :: 64 word) \<noteq> 0" using assms by auto
  have u1: "unat (x - 1) = unat x - 1" using nz by (subst unat_minus_one) auto
  have "unat (ucast x - 1 :: 64 word) = unat x - 1"
    using unat_minus_one[OF nz(2)] ux by simp
  then have c: "ucast (ucast x - 1 :: 64 word) = x - 1"
    unfolding word_unat_eq_iff unsigned_ucast_eq
    using u1 unsigned_less[of "x - 1", where ?'a = nat] by (simp add: take_bit_nat_eq_self)
  let ?k = "generic_fls (x - 1)"
  have "x - 1 \<noteq> 0" using u1 assms by auto
  note b = generic_fls_bounds[OF this]
  have "?k < 64" using b(4) by simp
  then have "unat (push_bit ?k (1 :: 64 word)) = 2 ^ ?k"
    unfolding unsigned_push_bit_eq by (simp add: push_bit_eq_mult take_bit_nat_eq_self)
  then have "unat (roundup_pow_of_two (ucast x)) = 2 ^ ?k"
    by (simp add: roundup_pow_of_two_def c)
  moreover have "(2::nat) ^ ?k = 2 * 2 ^ (?k - 1)" using b(3) by (cases ?k) auto
  ultimately show ?thesis using b u1 assms by (intro exI[of _ ?k]) auto
qed

lemma not_pow2_gt_1:
  fixes x :: u32
  assumes "x AND (x - 1) \<noteq> 0"
  shows "1 < unat x"
proof (rule ccontr)
  assume "\<not> 1 < unat x"
  then have "unat x = 0 \<or> unat x = 2 ^ 0" by auto
  then have "x = 0 \<or> (\<exists>k. unat x = 2 ^ k)" unfolding unat_eq_0 by blast
  then show False using assms pow2_and_pred[of x] by simp
qed

lemma ucast_pow2:
  fixes x :: "64 word"
  assumes "unat x = 2 ^ k" "k \<le> 32"
  shows "unat (ucast x :: u32) = (if k = 32 then 0 else 2 ^ k)"
proof -
  have "unat (ucast x :: u32) = 2 ^ k mod 2 ^ 32"
    by (simp add: unsigned_ucast_eq take_bit_eq_mod assms(1))
  moreover have "k \<noteq> 32 \<Longrightarrow> (2::nat) ^ k < 2 ^ 32"
    using assms(2) by (intro power_strict_increasing) auto
  ultimately show ?thesis by auto
qed

section \<open>The interface of a bounded queue\<close>

text \<open>
  What a client of the FIFO relies on: a transfer in takes the longest prefix that fits, a
  transfer out delivers the oldest elements. \<open>maxlen\<close> bounds the length of one transfer (the C
  functions take it as an \<open>unsigned int\<close>).
\<close>

datatype 'e fifo_op = Put "'e list" | Get nat

fun fifo_run :: "('f \<Rightarrow> 'e list \<Rightarrow> ('f \<times> 'e list) option) \<Rightarrow> ('f \<Rightarrow> nat \<Rightarrow> ('f \<times> 'e list) option) \<Rightarrow>
    'e fifo_op list \<Rightarrow> 'f \<Rightarrow> ('f \<times> 'e list \<times> 'e list) option" where
  "fifo_run put get [] f = Some (f, [], [])"
| "fifo_run put get (Put xs # ops) f = do {
     (f, a) \<leftarrow> put f xs;
     (f, ins, outs) \<leftarrow> fifo_run put get ops f;
     Some (f, a @ ins, outs) }"
| "fifo_run put get (Get n # ops) f = do {
     (f, a) \<leftarrow> get f n;
     (f, ins, outs) \<leftarrow> fifo_run put get ops f;
     Some (f, ins, a @ outs) }"

fun op_len :: "'e fifo_op \<Rightarrow> nat" where
  "op_len (Put xs) = length xs"
| "op_len (Get n) = n"

locale bounded_fifo =
  fixes invar :: "'f \<Rightarrow> bool"
    and items :: "'f \<Rightarrow> 'e list"
    and cap :: "'f \<Rightarrow> nat"
    and maxlen :: nat
    and put :: "'f \<Rightarrow> 'e list \<Rightarrow> ('f \<times> 'e list) option"
    and get :: "'f \<Rightarrow> nat \<Rightarrow> ('f \<times> 'e list) option"
  assumes bounded: "invar f \<Longrightarrow> length (items f) \<le> cap f"
    and put_items: "invar f \<Longrightarrow> length xs \<le> maxlen \<Longrightarrow>
      \<exists>f'. put f xs = Some (f', take (cap f - length (items f)) xs) \<and> invar f' \<and>
        items f' = items f @ take (cap f - length (items f)) xs \<and> cap f' = cap f"
    and get_items: "invar f \<Longrightarrow> n \<le> maxlen \<Longrightarrow>
      \<exists>f'. get f n = Some (f', take n (items f)) \<and> invar f' \<and> items f' = drop n (items f) \<and>
        cap f' = cap f"
begin

lemma run_fifo:
  "invar f \<Longrightarrow> (\<forall>x\<in>set ops. op_len x \<le> maxlen) \<Longrightarrow>
   \<exists>f' ins outs. fifo_run put get ops f = Some (f', ins, outs) \<and> invar f' \<and> cap f' = cap f \<and>
     items f @ ins = outs @ items f'"
proof (induction ops arbitrary: f)
  case Nil
  then show ?case by simp
next
  case (Cons x ops)
  show ?case
  proof (cases x)
    case (Put xs)
    then obtain f1 where f1: "put f xs = Some (f1, take (cap f - length (items f)) xs)" "invar f1"
      "items f1 = items f @ take (cap f - length (items f)) xs" "cap f1 = cap f"
      using put_items[OF Cons.prems(1), of xs] Cons.prems(2) by auto
    from Cons.IH[OF f1(2)] obtain f' ins outs where
      "fifo_run put get ops f1 = Some (f', ins, outs)" "invar f'" "cap f' = cap f1"
      "items f1 @ ins = outs @ items f'"
      using Cons.prems(2) by auto
    then show ?thesis using f1 Put by simp
  next
    case (Get n)
    then obtain f1 where f1: "get f n = Some (f1, take n (items f))" "invar f1"
      "items f1 = drop n (items f)" "cap f1 = cap f"
      using get_items[OF Cons.prems(1), of n] Cons.prems(2) by auto
    from Cons.IH[OF f1(2)] obtain f' ins outs where
      r: "fifo_run put get ops f1 = Some (f', ins, outs)" "invar f'" "cap f' = cap f1"
      "items f1 @ ins = outs @ items f'"
      using Cons.prems(2) by auto
    have "items f @ ins = take n (items f) @ items f1 @ ins" using f1(3) by simp
    also have "\<dots> = (take n (items f) @ outs) @ items f'" using r(4) by simp
    finally show ?thesis using r f1 Get by auto
  qed
qed

end


text \<open>The FIFO as its callers use it: a write of the bytes \<open>xs\<close> and a read into a fresh buffer,
  each reporting the bytes the returned count stands for.\<close>

definition kfifo_write :: "kfifo \<Rightarrow> byte list \<Rightarrow> (kfifo \<times> byte list) option" where
  "kfifo_write f xs = do {
     (f, n) \<leftarrow> kfifo_put f xs (of_nat (length xs));
     Some (f, take (unat n) xs) }"

definition kfifo_read :: "kfifo \<Rightarrow> nat \<Rightarrow> (kfifo \<times> byte list) option" where
  "kfifo_read f n = do {
     (f, b, r) \<leftarrow> kfifo_get f (replicate n 0) (of_nat n);
     Some (f, take (unat r) b) }"

lemma unat_of_nat_u32: "n \<le> 2 ^ 32 - 1 \<Longrightarrow> unat (of_nat n :: u32) = n"
  by (simp add: unat_of_nat)

interpretation kf: bounded_fifo "\<lambda>f. kf_wf f \<and> \<not> klock f" contents "\<lambda>f. unat (ksize f)" "2 ^ 32 - 1"
  kfifo_write kfifo_read
proof unfold_locales
  fix f and xs :: "byte list" and n :: nat
  assume wf: "kf_wf f \<and> \<not> klock f"
  show bd: "length (contents f) \<le> unat (ksize f)"
    using wf by (simp add: kf_wf_def word_le_nat_alt)
  have cap: "unat (ksize f) \<le> 2 ^ 32 - 1"
    using unsigned_less[of "ksize f", where ?'a = nat] by simp
  show "length xs \<le> 2 ^ 32 - 1 \<Longrightarrow>
      \<exists>f'. kfifo_write f xs = Some (f', take (unat (ksize f) - length (contents f)) xs) \<and>
        (kf_wf f' \<and> \<not> klock f') \<and>
        contents f' = contents f @ take (unat (ksize f) - length (contents f)) xs \<and>
        unat (ksize f') = unat (ksize f)"
    using kfifo_put_contents[of f "of_nat (length xs)" xs] wf cap
    by (auto simp: kfifo_write_def unat_of_nat_u32 min_def simp del: length_contents)
  show "n \<le> 2 ^ 32 - 1 \<Longrightarrow>
      \<exists>f'. kfifo_read f n = Some (f', take n (contents f)) \<and> (kf_wf f' \<and> \<not> klock f') \<and>
        contents f' = drop n (contents f) \<and> unat (ksize f') = unat (ksize f)"
    using kfifo_get_contents[of f "of_nat n" "replicate n 0"] wf bd cap
    by (auto simp: kfifo_read_def unat_of_nat_u32 min_def simp del: length_contents)
qed

section \<open>Properties\<close>

text \<open>
  C30: any sequence of writes and reads on a well-formed FIFO succeeds and keeps it well formed, and
  the bytes delivered, in order, followed by the bytes still stored are exactly the bytes that were
  stored before followed by those accepted, in order. The statement holds for every value of the
  free-running 32-bit counters, so across their wrap-around.
\<close>
theorem kfifo_run_fifo_order:
  assumes "kf_wf f" "\<not> klock f" "\<forall>x\<in>set ops. op_len x < 2 ^ 32"
  shows "\<exists>f' ins outs. fifo_run kfifo_write kfifo_read ops f = Some (f', ins, outs) \<and>
    kf_wf f' \<and> \<not> klock f' \<and> contents f @ ins = outs @ contents f'"
  using kf.run_fifo[of f ops] assms by (auto simp: less_eq_Suc_le)


definition ex_fifo :: kfifo where
  "ex_fifo = \<lparr>buffer = [1, 2, 3, 4], ksize = 4, kin = 1, kout = 0xfffffffe, klock = False\<rparr>"

lemma ex_fifo_wf: "kf_wf ex_fifo" "contents ex_fifo = [3, 4, 1]" "\<not> klock ex_fifo" "ksize ex_fifo = 4"
proof -
  have "\<exists>k. (2::nat) ^ k = 4" by (rule exI[of _ 2]) simp
  then show "kf_wf ex_fifo" by (auto simp: kf_wf_def ex_fifo_def)
  show "contents ex_fifo = [3, 4, 1]" by (simp add: contents_def ex_fifo_def upt_rec)
  show "\<not> klock ex_fifo" "ksize ex_fifo = 4" by (simp_all add: ex_fifo_def)
qed

theorem kfifo_run_fifo_order_witness:
  "\<exists>f' ins outs. fifo_run kfifo_write kfifo_read [Put [7, 8], Get 2, Put [9]] ex_fifo = Some (f', ins, outs) \<and>
    kf_wf f' \<and> \<not> klock f' \<and> [3, 4, 1] @ ins = outs @ contents f'"
  using kfifo_run_fifo_order[of ex_fifo "[Put [7, 8], Get 2, Put [9]]"] by (simp add: ex_fifo_wf)

text \<open>
  \<open>__kfifo_put\<close> never writes outside the buffer, stores the longest prefix of the offered
  bytes that fits, behind the bytes already stored, returns its length and moves only \<open>in\<close>.
\<close>
theorem kfifo_put_appends:
  assumes "kf_wf f" "unat len \<le> length buf"
  shows "\<exists>f'. raw_kfifo_put f buf len =
      Some (f', of_nat (min (unat len) (unat (ksize f) - length (contents f)))) \<and> kf_wf f' \<and>
    contents f' = contents f @ take (min (unat len) (unat (ksize f) - length (contents f))) buf \<and>
    ksize f' = ksize f \<and> kout f' = kout f"
  using raw_kfifo_put_contents[OF assms] by blast

theorem kfifo_put_appends_witness:
  "\<exists>f'. raw_kfifo_put ex_fifo [7, 8] 2 = Some (f', 1) \<and> kf_wf f' \<and> contents f' = [3, 4, 1, 7]"
  using kfifo_put_appends[of ex_fifo 2 "[7, 8]"] by (simp add: ex_fifo_wf del: length_contents) blast

text \<open>
  \<open>__kfifo_get\<close> never reads outside the buffer, delivers the oldest bytes in order to the
  front of the caller's buffer without touching the rest of it, and removes exactly those bytes.
\<close>
theorem kfifo_get_delivers:
  assumes "kf_wf f" "unat len \<le> length buf"
  shows "\<exists>f'. raw_kfifo_get f buf len =
      Some (f', take (unat len) (contents f) @ drop (min (unat len) (length (contents f))) buf,
            of_nat (min (unat len) (length (contents f)))) \<and>
    kf_wf f' \<and> contents f' = drop (unat len) (contents f)"
  using raw_kfifo_get_contents[OF assms] by (auto simp: min_def simp del: length_contents)

theorem kfifo_get_delivers_witness:
  "\<exists>f'. raw_kfifo_get ex_fifo [0, 0, 0, 0, 5] 5 = Some (f', [3, 4, 1, 0, 5], 3) \<and> kf_wf f' \<and> contents f' = []"
  using kfifo_get_delivers[of ex_fifo 5 "[0, 0, 0, 0, 5]"] by (simp add: ex_fifo_wf del: length_contents)

text \<open>
  C33: with assertions enabled \<open>kfifo_alloc\<close> never returns a FIFO, whatever size is asked for and
  whatever \<open>malloc\<close> does: the assertion of \<open>kfifo_init\<close> demands that the size is not a power of
  two, and every size that reaches it is one or is zero.
\<close>
theorem kfifo_alloc_asserts_abort:
  "kfifo_alloc False malloc_buf malloc_ok sz \<noteq> Returns f"
proof (cases "sz AND (sz - 1) = 0")
  case True
  then show ?thesis
    by (auto simp: kfifo_alloc_def kfifo_init_def split: option.splits)
next
  case False
  then obtain k where k: "unat (roundup_pow_of_two (ucast sz)) = 2 ^ k" "k \<le> 32"
    using roundup_spec not_pow2_gt_1 by blast
  let ?r = "ucast (roundup_pow_of_two (ucast sz)) :: u32"
  have "?r = 0 \<or> (\<exists>k. unat ?r = 2 ^ k)"
    using ucast_pow2[OF k] by (cases "k = 32") (auto simp: unat_eq_0)
  then have "?r AND (?r - 1) = 0" by (simp add: pow2_and_pred)
  then show ?thesis
    using False by (auto simp: kfifo_alloc_def kfifo_init_def Let_def split: option.splits)
qed

text \<open>
  with assertions compiled out, \<open>kfifo_alloc\<close> of any size from 1 to \<open>2 ^ 31\<close> that gets its
  memory returns an empty well-formed FIFO whose capacity is the least power of two that is not
  below the requested size.
\<close>
theorem kfifo_alloc_ndebug_wf:
  assumes "0 < sz" "sz \<le> 0x80000000" "\<forall>n. \<exists>b. malloc_buf n = Some b \<and> length b = unat n"
  shows "\<exists>f k. kfifo_alloc True malloc_buf True sz = Returns f \<and> kf_wf f \<and> contents f = [] \<and>
    unat (ksize f) = 2 ^ k \<and> unat sz \<le> 2 ^ k \<and> 2 ^ k < 2 * unat sz"
proof -
  define r where "r = (if sz AND (sz - 1) \<noteq> 0 then ucast (roundup_pow_of_two (ucast sz)) else sz)"
  obtain k where k: "unat r = 2 ^ k" "unat sz \<le> 2 ^ k" "2 ^ k < 2 * unat sz"
  proof (cases "sz AND (sz - 1) = 0")
    case True
    then obtain k where "unat sz = 2 ^ k" using pow2_and_pred[of sz] assms(1) by auto
    then show thesis using True that[of k] by (simp add: r_def)
  next
    case False
    then obtain k where k: "unat (roundup_pow_of_two (ucast sz)) = 2 ^ k" "k \<le> 32"
      "unat sz \<le> 2 ^ k" "2 ^ k < 2 * unat sz"
      using roundup_spec not_pow2_gt_1 by blast
    have "unat sz \<le> 2 ^ 31" using assms(2) by (simp add: word_le_nat_alt)
    then have "k \<noteq> 32" using k(4) by auto
    then show thesis using False that[of k] k ucast_pow2[OF k(1,2)] by (simp add: r_def)
  qed
  obtain b where b: "malloc_buf r = Some b" "length b = unat r" using assms(3) by blast
  let ?f = "\<lparr>buffer = b, ksize = r, kin = 0, kout = 0, klock = False\<rparr>"
  have "kfifo_alloc True malloc_buf True sz = Returns ?f"
    using b by (simp add: kfifo_alloc_def kfifo_init_def flip: r_def)
  moreover have "kf_wf ?f" "contents ?f = []"
    using k(1) b(2) by (auto simp: kf_wf_def contents_def)
  ultimately show ?thesis using k by auto
qed

theorem kfifo_alloc_ndebug_wf_witness:
  "\<exists>f k. kfifo_alloc True (\<lambda>n. Some (replicate (unat n) 0)) True 5 = Returns f \<and> kf_wf f \<and>
    contents f = [] \<and> unat (ksize f) = 2 ^ k \<and> 5 \<le> (2::nat) ^ k \<and> (2::nat) ^ k < 10"
  using kfifo_alloc_ndebug_wf[of 5 "\<lambda>n. Some (replicate (unat n) 0)"] by simp

end
