(* ===== verification/Sort.thy ===== *)
theory Sort
  imports Prelude
begin

text \<open>
  \<open>datastruct/sort.c\<close>: quick sort, merge sort and bubble sort of an array of \<open>int\<close>.

  An array object is the list of its elements; \<open>aget\<close> and \<open>aset\<close> are the indexed read and
  write, which fault outside the object. Indices are C \<open>int\<close>s, here integers, and every loop is
  a recursive function with a termination proof. Elements are only compared and copied, so they
  are integers as well. The time stamps and the \<open>printf\<close> of the elapsed time are left out.

  The lemmas show that each routine stays inside its array and returns, permutes exactly the
  slice it is given and sorts it. The properties state this against the library's sorting
  function.
\<close>

section \<open>Arrays of C integers\<close>

definition aget :: "int list \<Rightarrow> int \<Rightarrow> int option" where
  "aget a i = (if 0 \<le> i \<and> i < int (length a) then Some (a ! nat i) else None)"

definition aset :: "int list \<Rightarrow> int \<Rightarrow> int \<Rightarrow> int list option" where
  "aset a i v = (if 0 \<le> i \<and> i < int (length a) then Some (a[nat i := v]) else None)"

definition sadd32 :: "int \<Rightarrow> int \<Rightarrow> int option" where
  "sadd32 x y = (if - (2 ^ 31) \<le> x + y \<and> x + y < 2 ^ 31 then Some (x + y) else None)"

section \<open>Quick sort\<close>

text \<open>The two inner loops of \<open>adjust_array\<close>.\<close>

function adjust_down :: "int list \<Rightarrow> int \<Rightarrow> int \<Rightarrow> int \<Rightarrow> int option" where
  "adjust_down arr tmp i j =
     (if i < j
      then do { x \<leftarrow> aget arr j; if x \<ge> tmp then adjust_down arr tmp i (j - 1) else Some j }
      else Some j)"
  by pat_completeness auto
termination
  by (relation "measure (\<lambda>(arr, tmp, i, j). nat (j - i))") auto

function adjust_up :: "int list \<Rightarrow> int \<Rightarrow> int \<Rightarrow> int \<Rightarrow> int option" where
  "adjust_up arr tmp i j =
     (if i < j
      then do { x \<leftarrow> aget arr i; if x < tmp then adjust_up arr tmp (i + 1) j else Some i }
      else Some i)"
  by pat_completeness auto
termination
  by (relation "measure (\<lambda>(arr, tmp, i, j). nat (j - i))") auto

declare adjust_down.simps [simp del] adjust_up.simps [simp del]

lemma adjust_down_bounds:
  "adjust_down arr tmp i j = Some j' \<Longrightarrow> j' \<le> j \<and> (i \<le> j \<longrightarrow> i \<le> j')"
proof (induction arr tmp i j rule: adjust_down.induct)
  case (1 arr tmp i j)
  from 1(2) show ?case
    by (cases "i < j"; simp add: adjust_down.simps[of arr tmp i j] split: if_splits)
      (use 1(1) in fastforce)+
qed

lemma adjust_up_bounds:
  "adjust_up arr tmp i j = Some i' \<Longrightarrow> i \<le> i' \<and> (i \<le> j \<longrightarrow> i' \<le> j)"
proof (induction arr tmp i j rule: adjust_up.induct)
  case (1 arr tmp i j)
  from 1(2) show ?case
    by (cases "i < j"; simp add: adjust_up.simps[of arr tmp i j] split: if_splits)
      (use 1(1) in fastforce)+
qed

text \<open>The outer loop: the hole moves from \<open>i\<close> to \<open>j\<close> and back.\<close>

function adjust_loop :: "int list \<Rightarrow> int \<Rightarrow> int \<Rightarrow> int \<Rightarrow> (int list \<times> int) option" where
  "adjust_loop arr tmp i j =
     (if i < j
      then do {
        j1 \<leftarrow> adjust_down arr tmp i j;
        (arr1, i1) \<leftarrow> (if i < j1
          then do { x \<leftarrow> aget arr j1; arr' \<leftarrow> aset arr i x; Some (arr', i + 1) }
          else Some (arr, i));
        i2 \<leftarrow> adjust_up arr1 tmp i1 j1;
        (arr2, j2) \<leftarrow> (if i2 < j1
          then do { x \<leftarrow> aget arr1 i2; arr' \<leftarrow> aset arr1 j1 x; Some (arr', j1 - 1) }
          else Some (arr1, j1));
        adjust_loop arr2 tmp i2 j2 }
      else Some (arr, i))"
  by pat_completeness auto
termination
  apply (relation "measure (\<lambda>(arr, tmp, i, j). nat (j - i))")
   apply simp
  apply (fastforce dest!: adjust_down_bounds adjust_up_bounds split: if_splits)
  done

definition adjust_array :: "int list \<Rightarrow> int \<Rightarrow> int \<Rightarrow> (int list \<times> int) option" where
  "adjust_array arr left right = do {
     tmp \<leftarrow> aget arr left;
     (arr1, i) \<leftarrow> adjust_loop arr tmp left right;
     arr2 \<leftarrow> aset arr1 i tmp;
     Some (arr2, i) }"

declare adjust_loop.simps [simp del]

lemma adjust_loop_bounds:
  "adjust_loop arr tmp i j = Some (arr', p) \<Longrightarrow> i \<le> j \<Longrightarrow> i \<le> p \<and> p \<le> j"
proof (induction arr tmp i j rule: adjust_loop.induct)
  case (1 arr tmp i j)
  show ?case
  proof (cases "i < j")
    case True
    from True 1(2) obtain j1 arr1 i1 i2 arr2 j2 where
      d: "adjust_down arr tmp i j = Some j1" and u: "adjust_up arr1 tmp i1 j1 = Some i2"
      and s1: "(if i < j1 then do { x \<leftarrow> aget arr j1; arr' \<leftarrow> aset arr i x; Some (arr', i + 1) }
                else Some (arr, i)) = Some (arr1, i1)"
      and s2: "(if i2 < j1 then do { x \<leftarrow> aget arr1 i2; arr' \<leftarrow> aset arr1 j1 x; Some (arr', j1 - 1) }
                else Some (arr1, j1)) = Some (arr2, j2)"
      and rec: "adjust_loop arr2 tmp i2 j2 = Some (arr', p)"
      by (subst (asm) adjust_loop.simps) (simp split: prod.splits, blast)
    have "i \<le> i1" "i1 \<le> j1" "j1 \<le> j"
      using adjust_down_bounds[OF d] True s1 by (auto split: if_splits)
    moreover have "i2 \<le> j2" "j2 \<le> j1" "i1 \<le> i2"
      using adjust_up_bounds[OF u] calculation s2 by (auto split: if_splits)
    ultimately show ?thesis
      using 1(1)[OF True d s1 refl u s2 refl rec] by simp
  qed (use 1(2,3) in \<open>simp add: adjust_loop.simps\<close>)
qed

lemma adjust_array_bounds:
  "adjust_array arr left right = Some (arr', p) \<Longrightarrow> left \<le> right \<Longrightarrow> left \<le> p \<and> p \<le> right"
  by (auto simp: adjust_array_def dest: adjust_loop_bounds)

function quick_sort_rec :: "int list \<Rightarrow> int \<Rightarrow> int \<Rightarrow> int list option" where
  "quick_sort_rec arr left right =
     (if left < right
      then do {
        (arr1, i) \<leftarrow> adjust_array arr left right;
        arr2 \<leftarrow> quick_sort_rec arr1 left (i - 1);
        quick_sort_rec arr2 (i + 1) right }
      else Some arr)"
  by pat_completeness auto
termination
  by (relation "measure (\<lambda>(arr, left, right). nat (right - left))")
    (auto dest: adjust_array_bounds)

declare quick_sort_rec.simps [simp del]

definition quick_sort :: "int list \<Rightarrow> int \<Rightarrow> int list option" where
  "quick_sort a n = do { r \<leftarrow> sadd32 n (- 1); quick_sort_rec a 0 r }"

section \<open>Merge sort\<close>

text \<open>
  \<open>merge_array\<close> merges two arrays into a third; \<open>mergearray\<close> merges two neighbouring slices of
  one array through a scratch array and copies the result back.
\<close>

function copy_run :: "int list \<Rightarrow> int \<Rightarrow> int \<Rightarrow> int list \<Rightarrow> int \<Rightarrow> (int list \<times> int) option" where
  "copy_run a i m c k =
     (if i < m
      then do { x \<leftarrow> aget a i; c' \<leftarrow> aset c k x; copy_run a (i + 1) m c' (k + 1) }
      else Some (c, k))"
  by pat_completeness auto
termination
  by (relation "measure (\<lambda>(a, i, m, c, k). nat (m - i))") auto

function merge_array_loop ::
  "int list \<Rightarrow> int \<Rightarrow> int list \<Rightarrow> int \<Rightarrow> int list \<Rightarrow> int \<Rightarrow> int \<Rightarrow> int \<Rightarrow> (int \<times> int \<times> int list \<times> int) option" where
  "merge_array_loop a m b n c i j k =
     (if i < m \<and> j < n
      then do {
        x \<leftarrow> aget a i; y \<leftarrow> aget b j;
        if x < y
        then do { c' \<leftarrow> aset c k x; merge_array_loop a m b n c' (i + 1) j (k + 1) }
        else do { c' \<leftarrow> aset c k y; merge_array_loop a m b n c' i (j + 1) (k + 1) } }
      else Some (i, j, c, k))"
  by pat_completeness auto
termination
  by (relation "measure (\<lambda>(a, m, b, n, c, i, j, k). nat (m - i) + nat (n - j))") auto

definition merge_array :: "int list \<Rightarrow> int \<Rightarrow> int list \<Rightarrow> int \<Rightarrow> int list \<Rightarrow> int list option" where
  "merge_array a m b n c = do {
     (i, j, c1, k) \<leftarrow> merge_array_loop a m b n c 0 0 0;
     (c2, k2) \<leftarrow> copy_run a i m c1 k;
     (c3, k3) \<leftarrow> copy_run b j n c2 k2;
     Some c3 }"

function mergearray_loop ::
  "int list \<Rightarrow> int \<Rightarrow> int \<Rightarrow> int list \<Rightarrow> int \<Rightarrow> int \<Rightarrow> int \<Rightarrow> (int \<times> int \<times> int list \<times> int) option" where
  "mergearray_loop a m n temp i j k =
     (if i \<le> m \<and> j \<le> n
      then do {
        x \<leftarrow> aget a i; y \<leftarrow> aget a j;
        if x \<le> y
        then do { temp' \<leftarrow> aset temp k x; mergearray_loop a m n temp' (i + 1) j (k + 1) }
        else do { temp' \<leftarrow> aset temp k y; mergearray_loop a m n temp' i (j + 1) (k + 1) } }
      else Some (i, j, temp, k))"
  by pat_completeness auto
termination
  by (relation "measure (\<lambda>(a, m, n, temp, i, j, k). nat (m + 1 - i) + nat (n + 1 - j))") auto

function copy_back :: "int list \<Rightarrow> int \<Rightarrow> int list \<Rightarrow> int \<Rightarrow> int \<Rightarrow> int list option" where
  "copy_back a first temp i k =
     (if i < k
      then do { x \<leftarrow> aget temp i; a' \<leftarrow> aset a (first + i) x; copy_back a' first temp (i + 1) k }
      else Some a)"
  by pat_completeness auto
termination
  by (relation "measure (\<lambda>(a, first, temp, i, k). nat (k - i))") auto

definition mergearray :: "int list \<Rightarrow> int \<Rightarrow> int \<Rightarrow> int \<Rightarrow> int list \<Rightarrow> (int list \<times> int list) option" where
  "mergearray a first mid lst temp = do {
     (i, j, t1, k) \<leftarrow> mergearray_loop a mid lst temp first (mid + 1) 0;
     (t2, k2) \<leftarrow> copy_run a i (mid + 1) t1 k;
     (t3, k3) \<leftarrow> copy_run a j (lst + 1) t2 k2;
     a' \<leftarrow> copy_back a first t3 0 k3;
     Some (a', t3) }"

declare copy_run.simps [simp del] merge_array_loop.simps [simp del]
  mergearray_loop.simps [simp del] copy_back.simps [simp del]

function merge_sort_rec :: "int list \<Rightarrow> int \<Rightarrow> int \<Rightarrow> int list \<Rightarrow> (int list \<times> int list) option" where
  "merge_sort_rec a first lst res =
     (if first < lst
      then do {
        s \<leftarrow> sadd32 first lst;
        let mid = s div 2;
        (a1, res1) \<leftarrow> merge_sort_rec a first mid res;
        (a2, res2) \<leftarrow> merge_sort_rec a1 (mid + 1) lst res1;
        mergearray a2 first mid lst res2 }
      else Some (a, res))"
  by pat_completeness auto
termination
  by (relation "measure (\<lambda>(a, first, lst, res). nat (lst - first))") (auto simp: sadd32_def split: if_splits)

declare merge_sort_rec.simps [simp del]

text \<open>
  \<open>merge_sort\<close> returns its scratch block. The block \<open>malloc\<close> returned is an argument: its
  elements are indeterminate, and it has no element when \<open>malloc\<close> returned \<open>NULL\<close>. The result
  is the sorted array and the returned block.
\<close>

definition merge_sort :: "int list \<Rightarrow> int \<Rightarrow> int list \<Rightarrow> (int list \<times> int list) option" where
  "merge_sort a n res = do { r \<leftarrow> sadd32 n (- 1); merge_sort_rec a 0 r res }"

section \<open>Bubble sort\<close>

function bubble_inner :: "int list \<Rightarrow> int \<Rightarrow> int \<Rightarrow> int list option" where
  "bubble_inner a j b =
     (if j < b
      then do {
        x \<leftarrow> aget a (j + 1); y \<leftarrow> aget a j;
        a' \<leftarrow> (if x < y
          then do { a1 \<leftarrow> aset a j x; aset a1 (j + 1) y }
          else Some a);
        bubble_inner a' (j + 1) b }
      else Some a)"
  by pat_completeness auto
termination
  by (relation "measure (\<lambda>(a, j, b). nat (b - j))") auto

function bubble_outer :: "int list \<Rightarrow> int \<Rightarrow> int \<Rightarrow> int list option" where
  "bubble_outer a n i =
     (if i < n - 1
      then do { a' \<leftarrow> bubble_inner a 0 (n - 1 - i); bubble_outer a' n (i + 1) }
      else Some a)"
  by pat_completeness auto
termination
  by (relation "measure (\<lambda>(a, n, i). nat (n - 1 - i))") auto

declare bubble_inner.simps [simp del] bubble_outer.simps [simp del]

definition bubble_sort :: "int list \<Rightarrow> int \<Rightarrow> int list option" where
  "bubble_sort a n = do { _ \<leftarrow> sadd32 n (- 1); bubble_outer a n 0 }"


section \<open>Permuting and sorting a slice\<close>

text \<open>
  \<open>perm_on l r a b\<close>: the array \<open>b\<close> comes from \<open>a\<close> by permuting elements of the slice from
  \<open>l\<close> to \<open>r\<close> inclusive. \<open>sorted_on l r a\<close>: that slice is in ascending order.
\<close>

definition perm_on :: "int \<Rightarrow> int \<Rightarrow> int list \<Rightarrow> int list \<Rightarrow> bool" where
  "perm_on l r a b \<longleftrightarrow> mset b = mset a \<and> (\<forall>k<length a. (int k < l \<or> r < int k) \<longrightarrow> b ! k = a ! k)"

definition sorted_on :: "int \<Rightarrow> int \<Rightarrow> int list \<Rightarrow> bool" where
  "sorted_on l r a \<longleftrightarrow> (\<forall>x y. l \<le> x \<and> x \<le> y \<and> y \<le> r \<longrightarrow> a ! nat x \<le> a ! nat y)"

lemma perm_on_length: "perm_on l r a b \<Longrightarrow> length b = length a"
  unfolding perm_on_def by (metis size_mset)

lemma perm_on_refl [simp]: "perm_on l r a a"
  by (simp add: perm_on_def)

lemma perm_on_trans: "perm_on l r a b \<Longrightarrow> perm_on l r b c \<Longrightarrow> perm_on l r a c"
  using perm_on_length[of l r a b] by (simp add: perm_on_def)

lemma perm_on_mono: "perm_on l r a b \<Longrightarrow> l' \<le> l \<Longrightarrow> r \<le> r' \<Longrightarrow> perm_on l' r' a b"
  by (auto simp: perm_on_def)

lemma perm_on_outside:
  "perm_on l r a b \<Longrightarrow> 0 \<le> k \<Longrightarrow> k < int (length a) \<Longrightarrow> k < l \<or> r < k \<Longrightarrow> b ! nat k = a ! nat k"
  by (auto simp: perm_on_def)

lemma perm_on_slice:
  assumes "perm_on l r a b" "0 \<le> l" "l \<le> r + 1" "r < int (length a)"
  shows "mset (take (nat (r + 1 - l)) (drop (nat l) b)) = mset (take (nat (r + 1 - l)) (drop (nat l) a))"
proof -
  let ?n = "nat (r + 1 - l)"
  have len: "length b = length a" using assms(1) by (rule perm_on_length)
  have split: "mset xs = mset (take (nat l) xs) + mset (take ?n (drop (nat l) xs)) + mset (drop (nat (r + 1)) xs)"
    for xs :: "int list"
  proof -
    have "drop ?n (drop (nat l) xs) = drop (nat (r + 1)) xs"
      using assms(2,3) by (simp add: nat_diff_distrib)
    then show ?thesis
      by (metis append_take_drop_id mset_append add.assoc)
  qed
  have "take (nat l) b = take (nat l) a"
    using assms len by (auto simp: perm_on_def intro!: nth_equalityI)
  moreover have "drop (nat (r + 1)) b = drop (nat (r + 1)) a"
    using assms len by (auto simp: perm_on_def intro!: nth_equalityI)
  moreover have "mset b = mset a" using assms(1) by (simp add: perm_on_def)
  ultimately show ?thesis using split[of a] split[of b] by simp
qed

lemma perm_on_values:
  assumes "perm_on l r a b" "0 \<le> l" "r < int (length a)"
    and "\<And>k. l \<le> k \<Longrightarrow> k \<le> r \<Longrightarrow> P (a ! nat k)" and k: "l \<le> k" "k \<le> r"
  shows "P (b ! nat k)"
proof -
  let ?n = "nat (r + 1 - l)"
  have len: "length b = length a" using assms(1) by (rule perm_on_length)
  have "b ! nat k = take ?n (drop (nat l) b) ! nat (k - l)"
    using k assms(2,3) len by (simp add: nat_diff_distrib)
  then have "b ! nat k \<in> set (take ?n (drop (nat l) b))"
    using k assms(2,3) len by (auto simp: in_set_conv_nth intro!: exI[of _ "nat (k - l)"])
  also have "\<dots> = set (take ?n (drop (nat l) a))"
    using perm_on_slice[OF assms(1,2) _ assms(3)] k by (metis mset_eq_setD order.trans zle_add1_eq_le less_imp_le)
  finally obtain i where "i < ?n" "nat l + i < length a" "b ! nat k = a ! (nat l + i)"
    by (auto simp: in_set_conv_nth)
  then show ?thesis
    using assms(4)[of "l + int i"] assms(2) by (simp add: nat_add_distrib)
qed

lemma sorted_on_cong:
  "sorted_on l r a \<Longrightarrow> (\<And>k. l \<le> k \<Longrightarrow> k \<le> r \<Longrightarrow> b ! nat k = a ! nat k) \<Longrightarrow> sorted_on l r b"
  by (auto simp: sorted_on_def)

lemma sorted_on_all:
  assumes "perm_on 0 r a b" "sorted_on 0 r b" "r = int (length a) - 1"
  shows "b = sort a"
proof -
  have "length b = length a" using assms(1) by (rule perm_on_length)
  then have "sorted b"
    using assms(2) unfolding sorted_iff_nth_mono sorted_on_def assms(3)
    by (metis (no_types, lifting) nat_int of_nat_0_le_iff of_nat_le_iff of_nat_less_iff zle_diff1_eq)
  with assms(1) show ?thesis
    by (metis perm_on_def properties_for_sort)
qed

lemma swap_perm_on:
  assumes "l \<le> i" "i \<le> r" "l \<le> j" "j \<le> r" "0 \<le> l" "r < int (length a)"
  shows "perm_on l r a (a[nat i := a ! nat j, nat j := a ! nat i])"
  using assms by (auto simp: perm_on_def nth_list_update mset_swap)


section \<open>Quick sort is correct\<close>

lemma adjust_down_ok:
  "0 \<le> i \<Longrightarrow> i \<le> j \<Longrightarrow> j < int (length arr) \<Longrightarrow>
   \<exists>j'. adjust_down arr tmp i j = Some j' \<and> (\<forall>k. j' < k \<and> k \<le> j \<longrightarrow> tmp \<le> arr ! nat k)
     \<and> (i < j' \<longrightarrow> arr ! nat j' < tmp)"
proof (induction arr tmp i j rule: adjust_down.induct)
  case (1 arr tmp i j)
  show ?case
  proof (cases "i < j \<and> tmp \<le> arr ! nat j")
    case True
    then have g: "aget arr j = Some (arr ! nat j)" using 1 by (simp add: aget_def)
    obtain j' where "adjust_down arr tmp i (j - 1) = Some j'"
      "\<forall>k. j' < k \<and> k \<le> j - 1 \<longrightarrow> tmp \<le> arr ! nat k" "i < j' \<longrightarrow> arr ! nat j' < tmp"
      using 1(1)[OF _ g] 1(2-4) True by auto
    moreover from this(2) have "\<forall>k. j' < k \<and> k \<le> j \<longrightarrow> tmp \<le> arr ! nat k"
      using True by (metis zle_diff1_eq order_le_less)
    ultimately show ?thesis
      using True g by (simp add: adjust_down.simps[of arr tmp i j])
  next
    case False
    then show ?thesis
      using 1 by (auto simp: adjust_down.simps[of arr tmp i j] aget_def)
  qed
qed

lemma adjust_up_ok:
  "0 \<le> i \<Longrightarrow> i \<le> j \<Longrightarrow> j < int (length arr) \<Longrightarrow>
   \<exists>i'. adjust_up arr tmp i j = Some i' \<and> (\<forall>k. i \<le> k \<and> k < i' \<longrightarrow> arr ! nat k \<le> tmp)
     \<and> (i' < j \<longrightarrow> tmp \<le> arr ! nat i')"
proof (induction arr tmp i j rule: adjust_up.induct)
  case (1 arr tmp i j)
  show ?case
  proof (cases "i < j \<and> arr ! nat i < tmp")
    case True
    then have g: "aget arr i = Some (arr ! nat i)" using 1 by (simp add: aget_def)
    obtain i' where "adjust_up arr tmp (i + 1) j = Some i'"
      "\<forall>k. i + 1 \<le> k \<and> k < i' \<longrightarrow> arr ! nat k \<le> tmp" "i' < j \<longrightarrow> tmp \<le> arr ! nat i'"
      using 1(1)[OF _ g] 1(2-4) True by auto
    moreover from this(2) have "\<forall>k. i \<le> k \<and> k < i' \<longrightarrow> arr ! nat k \<le> tmp"
      using True by (metis add1_zle_eq order_le_less)
    ultimately show ?thesis
      using True g by (simp add: adjust_up.simps[of arr tmp i j])
  next
    case False
    then show ?thesis
      using 1 by (auto simp: adjust_up.simps[of arr tmp i j] aget_def)
  qed
qed

text \<open>Filling the hole at \<open>i\<close> from \<open>j\<close> moves the hole to \<open>j\<close> and permutes the rest.\<close>

lemma hole_moves:
  assumes "l \<le> i" "i \<le> r" "l \<le> j" "j \<le> r" "0 \<le> l" "r < int (length a)"
  shows "perm_on l r (a[nat i := t]) (a[nat i := a ! nat j, nat j := t])"
proof (cases "i = j")
  case False
  then have "nat i \<noteq> nat j" using assms by simp
  then have "a[nat i := a ! nat j, nat j := t] =
      (a[nat i := t])[nat i := a[nat i := t] ! nat j, nat j := a[nat i := t] ! nat i]"
    using assms by (intro nth_equalityI) (auto simp: nth_list_update)
  then show ?thesis using swap_perm_on[of l i r j "a[nat i := t]"] assms by simp
qed simp

definition split_at :: "int \<Rightarrow> int \<Rightarrow> int list \<Rightarrow> int \<Rightarrow> int \<Rightarrow> int \<Rightarrow> bool" where
  "split_at l r a i j t \<longleftrightarrow> l \<le> i \<and> i \<le> j \<and> j \<le> r \<and>
     (\<forall>k. l \<le> k \<and> k < i \<longrightarrow> a ! nat k \<le> t) \<and> (\<forall>k. j < k \<and> k \<le> r \<longrightarrow> t \<le> a ! nat k)"

lemma adjust_loop_ok:
  "split_at l r arr i j tmp \<Longrightarrow> 0 \<le> l \<Longrightarrow> r < int (length arr) \<Longrightarrow>
   \<exists>arr' p. adjust_loop arr tmp i j = Some (arr', p) \<and> split_at l r arr' p p tmp \<and>
     perm_on l r (arr[nat i := tmp]) (arr'[nat p := tmp])"
proof (induction arr tmp i j rule: adjust_loop.induct)
  case (1 arr tmp i j)
  note st = 1(2)[unfolded split_at_def]
  show ?case
  proof (cases "i < j")
    case False
    with st have "i = j" by simp
    with 1(2) show ?thesis
      by (simp add: adjust_loop.simps[of arr tmp j j])
  next
    case True
    obtain j1 where d: "adjust_down arr tmp i j = Some j1"
      and d1: "\<And>k. j1 < k \<Longrightarrow> k \<le> j \<Longrightarrow> tmp \<le> arr ! nat k" and d2: "i < j1 \<Longrightarrow> arr ! nat j1 < tmp"
      using adjust_down_ok[of i j arr tmp] st 1(3,4) by auto
    have j1: "i \<le> j1" "j1 \<le> j" using adjust_down_bounds[OF d] True by auto
    define arr1 where "arr1 = (if i < j1 then arr[nat i := arr ! nat j1] else arr)"
    define i1 where "i1 = (if i < j1 then i + 1 else i)"
    have s1: "(if i < j1 then do { x \<leftarrow> aget arr j1; arr' \<leftarrow> aset arr i x; Some (arr', i + 1) }
               else Some (arr, i)) = Some (arr1, i1)"
      using st 1(3,4) j1 by (auto simp: arr1_def i1_def aget_def aset_def)
    have len1: "length arr1 = length arr" by (simp add: arr1_def)
    have i1: "i \<le> i1" "i1 \<le> j1" using j1 by (auto simp: i1_def)
    have left1: "\<And>k. l \<le> k \<Longrightarrow> k < i1 \<Longrightarrow> arr1 ! nat k \<le> tmp"
      using st 1(3,4) d2 j1 by (auto simp: arr1_def i1_def nth_list_update split: if_splits)
    have right1: "\<And>k. j1 < k \<Longrightarrow> k \<le> r \<Longrightarrow> tmp \<le> arr1 ! nat k"
      subgoal for k using st 1(3,4) d1[of k] j1 by (cases "k \<le> j") (auto simp: arr1_def)
      done
    have p1: "perm_on l r (arr[nat i := tmp]) (arr1[nat j1 := tmp])"
      using hole_moves[of l i r j1 arr tmp] st j1 1(3,4) by (auto simp: arr1_def)
    obtain i2 where u: "adjust_up arr1 tmp i1 j1 = Some i2"
      and u1: "\<And>k. i1 \<le> k \<Longrightarrow> k < i2 \<Longrightarrow> arr1 ! nat k \<le> tmp" and u2: "i2 < j1 \<Longrightarrow> tmp \<le> arr1 ! nat i2"
      using adjust_up_ok[of i1 j1 arr1 tmp] st 1(3,4) j1 i1 len1 by auto
    have i2: "i1 \<le> i2" "i2 \<le> j1" using adjust_up_bounds[OF u] i1 by auto
    define arr2 where "arr2 = (if i2 < j1 then arr1[nat j1 := arr1 ! nat i2] else arr1)"
    define j2 where "j2 = (if i2 < j1 then j1 - 1 else j1)"
    have s2: "(if i2 < j1 then do { x \<leftarrow> aget arr1 i2; arr' \<leftarrow> aset arr1 j1 x; Some (arr', j1 - 1) }
               else Some (arr1, j1)) = Some (arr2, j2)"
      using st 1(3,4) j1 i1 i2 len1 by (auto simp: arr2_def j2_def aget_def aset_def)
    have len2: "length arr2 = length arr" by (simp add: arr2_def len1)
    have "split_at l r arr2 i2 j2 tmp"
      unfolding split_at_def
    proof (intro conjI allI impI)
      show "l \<le> i2" "i2 \<le> j2" "j2 \<le> r" using st j1 i1 i2 by (auto simp: j2_def)
      show "arr2 ! nat k \<le> tmp" if "l \<le> k \<and> k < i2" for k
        using that left1[of k] u1[of k] i2 st 1(3) by (cases "k < i1") (auto simp: arr2_def)
      show "tmp \<le> arr2 ! nat k" if "j2 < k \<and> k \<le> r" for k
        using that right1[of k] u2 i1 i2 st 1(3,4) len1
        by (cases "k = j1") (auto simp: arr2_def j2_def nth_list_update split: if_splits)
    qed
    moreover have "perm_on l r (arr1[nat j1 := tmp]) (arr2[nat i2 := tmp])"
      using hole_moves[of l j1 r i2 arr1 tmp] st j1 i1 i2 1(3,4) len1 by (auto simp: arr2_def)
    ultimately show ?thesis
      using 1(1)[OF True d s1 refl u s2 refl] 1(3,4) len2 True d s1 u s2 perm_on_trans[OF p1]
      by (auto simp: adjust_loop.simps[of arr tmp i j] intro: perm_on_trans)
  qed
qed

lemma adjust_array_ok:
  assumes "0 \<le> l" "l < r" "r < int (length arr)"
  shows "\<exists>arr' p. adjust_array arr l r = Some (arr', p) \<and> l \<le> p \<and> p \<le> r \<and> perm_on l r arr arr' \<and>
    (\<forall>k. l \<le> k \<and> k < p \<longrightarrow> arr' ! nat k \<le> arr' ! nat p) \<and> (\<forall>k. p < k \<and> k \<le> r \<longrightarrow> arr' ! nat p \<le> arr' ! nat k)"
proof -
  let ?t = "arr ! nat l"
  have "split_at l r arr l r ?t" using assms by (auto simp: split_at_def)
  from adjust_loop_ok[OF this] assms obtain arr' p where
    run: "adjust_loop arr ?t l r = Some (arr', p)" and sp: "split_at l r arr' p p ?t"
    and pm: "perm_on l r arr (arr'[nat p := ?t])"
    by auto
  have len: "length arr' = length arr" using perm_on_length[OF pm] by simp
  have "adjust_array arr l r = Some (arr'[nat p := ?t], p)"
    using run sp assms len by (simp add: adjust_array_def aget_def aset_def split_at_def)
  then show ?thesis
    using sp pm assms len by (auto simp: split_at_def nth_list_update)
qed

lemma quick_sort_rec_ok:
  "0 \<le> l \<Longrightarrow> r < int (length arr) \<Longrightarrow>
   \<exists>arr'. quick_sort_rec arr l r = Some arr' \<and> perm_on l r arr arr' \<and> sorted_on l r arr'"
proof (induction arr l r rule: quick_sort_rec.induct)
  case (1 arr l r)
  show ?case
  proof (cases "l < r")
    case False
    then have "x = y" if "l \<le> x" "x \<le> y" "y \<le> r" for x y using that by linarith
    then have "sorted_on l r arr" unfolding sorted_on_def by (metis order_refl)
    with False show ?thesis by (simp add: quick_sort_rec.simps[of arr l r])
  next
    case True
    then obtain b p where part: "adjust_array arr l r = Some (b, p)" and p: "l \<le> p" "p \<le> r"
      and pm: "perm_on l r arr b"
      and lo: "\<And>k. l \<le> k \<Longrightarrow> k < p \<Longrightarrow> b ! nat k \<le> b ! nat p"
      and hi: "\<And>k. p < k \<Longrightarrow> k \<le> r \<Longrightarrow> b ! nat p \<le> b ! nat k"
      using adjust_array_ok[of l r arr] 1(3,4) by auto
    have lb: "length b = length arr" using pm by (rule perm_on_length)
    obtain c where c: "quick_sort_rec b l (p - 1) = Some c" "perm_on l (p - 1) b c" "sorted_on l (p - 1) c"
      using 1(1)[OF True part refl] 1(3,4) p lb by auto
    have lc: "length c = length arr" using perm_on_length[OF c(2)] lb by simp
    obtain d where d: "quick_sort_rec c (p + 1) r = Some d" "perm_on (p + 1) r c d" "sorted_on (p + 1) r d"
      using 1(2)[OF True part refl c(1)] 1(3,4) p lc by auto
    have mid: "d ! nat p = b ! nat p"
      using perm_on_outside[OF d(2), of p] perm_on_outside[OF c(2), of p] p 1(3,4) lb lc by simp
    have low: "d ! nat k \<le> b ! nat p" if "l \<le> k" "k < p" for k
      using perm_on_values[OF c(2), of "\<lambda>x. x \<le> b ! nat p" k] lo that perm_on_outside[OF d(2), of k] p 1(3,4) lb lc
      by simp
    have high: "b ! nat p \<le> d ! nat k" if "p < k" "k \<le> r" for k
    proof (rule perm_on_values[OF d(2), where P = "\<lambda>x. b ! nat p \<le> x"])
      show "b ! nat p \<le> c ! nat k'" if "p + 1 \<le> k'" "k' \<le> r" for k'
        using perm_on_outside[OF c(2), of k'] hi[of k'] that p 1(3,4) lb by simp
    qed (use that p 1(3,4) lc in auto)
    have sl: "sorted_on l (p - 1) d"
      using c(3) by (rule sorted_on_cong) (use perm_on_outside[OF d(2)] p 1(3,4) lc in auto)
    have "sorted_on l r d"
      unfolding sorted_on_def
    proof (intro allI impI)
      fix x y assume xy: "l \<le> x \<and> x \<le> y \<and> y \<le> r"
      consider "y < p" | "p < x" | "x \<le> p" "p \<le> y" by linarith
      then show "d ! nat x \<le> d ! nat y"
      proof cases
        case 3
        have "d ! nat x \<le> b ! nat p" using low[of x] mid xy 3 by (cases "x = p") auto
        also have "\<dots> \<le> d ! nat y" using high[of y] mid xy 3 by (cases "y = p") auto
        finally show ?thesis .
      qed (use sl d(3) xy in \<open>auto simp: sorted_on_def\<close>)
    qed
    moreover have "perm_on l r arr d"
      using pm perm_on_mono[OF c(2), of l r] perm_on_mono[OF d(2), of l r] p
      by (auto intro: perm_on_trans)
    ultimately show ?thesis
      using True part c(1) d(1) by (simp add: quick_sort_rec.simps[of arr l r])
  qed
qed


section \<open>Merging is correct\<close>

definition aslice :: "int list \<Rightarrow> int \<Rightarrow> int \<Rightarrow> int list" where
  "aslice a i m = take (nat (m - i)) (drop (nat i) a)"

lemma aslice_length: "0 \<le> i \<Longrightarrow> i \<le> m \<Longrightarrow> m \<le> int (length a) \<Longrightarrow> length (aslice a i m) = nat (m - i)"
  by (simp add: aslice_def nat_diff_distrib)

lemma aslice_empty [simp]: "m \<le> i \<Longrightarrow> aslice a i m = []"
  by (simp add: aslice_def)

lemma aslice_Cons:
  assumes "0 \<le> i" "i < m" "m \<le> int (length a)"
  shows "aslice a i m = a ! nat i # aslice a (i + 1) m"
proof -
  have "drop (nat i) a = a ! nat i # drop (nat (i + 1)) a"
    using assms by (simp add: Cons_nth_drop_Suc nat_add_distrib flip: Suc_eq_plus1)
  moreover have "nat (m - i) = Suc (nat (m - (i + 1)))" using assms by simp
  ultimately show ?thesis by (simp add: aslice_def)
qed

lemma take_aset:
  assumes "0 \<le> k" "k < int (length c)"
  shows "take (nat (k + 1)) (c[nat k := x]) = take (nat k) c @ [x]"
proof -
  have "nat (k + 1) = Suc (nat k)" using assms by (simp add: nat_add_distrib)
  then show ?thesis using assms by (simp add: take_Suc_conv_app_nth)
qed

lemma copy_run_ok:
  "0 \<le> i \<Longrightarrow> i \<le> m \<Longrightarrow> m \<le> int (length a) \<Longrightarrow> 0 \<le> k \<Longrightarrow> k + (m - i) \<le> int (length c) \<Longrightarrow>
   \<exists>c'. copy_run a i m c k = Some (c', k + (m - i)) \<and> length c' = length c \<and>
     take (nat (k + (m - i))) c' = take (nat k) c @ aslice a i m"
proof (induction a i m c k rule: copy_run.induct)
  case (1 a i m c k)
  show ?case
  proof (cases "i < m")
    case True
    then have g: "aget a i = Some (a ! nat i)" "aset c k (a ! nat i) = Some (c[nat k := a ! nat i])"
      using 1(2-6) by (auto simp: aget_def aset_def)
    from 1(1)[OF True g] 1(2-6) True show ?thesis
      by (auto simp: copy_run.simps[of a i m c k] g aslice_Cons[of i m a] take_aset)
  next
    case False
    with 1(3) have "i = m" by simp
    then show ?thesis by (simp add: copy_run.simps[of a m m c k])
  qed
qed

text \<open>The reference merge; \<open>f\<close> says when the left head goes first.\<close>

fun merge_by :: "(int \<Rightarrow> int \<Rightarrow> bool) \<Rightarrow> int list \<Rightarrow> int list \<Rightarrow> int list" where
  "merge_by f (x # xs) (y # ys) =
     (if f x y then x # merge_by f xs (y # ys) else y # merge_by f (x # xs) ys)"
| "merge_by f [] ys = ys"
| "merge_by f xs [] = xs"

lemma merge_by_Nil2 [simp]: "merge_by f xs [] = xs"
  by (cases xs) auto

lemma mset_merge_by [simp]: "mset (merge_by f xs ys) = mset xs + mset ys"
  by (induction f xs ys rule: merge_by.induct) auto

lemma set_merge_by [simp]: "set (merge_by f xs ys) = set xs \<union> set ys"
  by (induction f xs ys rule: merge_by.induct) auto

lemma sorted_merge_by:
  "\<forall>x y. f x y \<longrightarrow> x \<le> y \<Longrightarrow> \<forall>x y. \<not> f x y \<longrightarrow> y \<le> x \<Longrightarrow>
   sorted xs \<Longrightarrow> sorted ys \<Longrightarrow> sorted (merge_by f xs ys)"
proof (induction f xs ys rule: merge_by.induct)
  case (1 f x xs y ys)
  then show ?case
  proof (cases "f x y")
    case True
    have "\<forall>z \<in> set ys. x \<le> z" using 1(3,6) True by (auto intro: order_trans[of x y])
    with True 1 show ?thesis by auto
  next
    case False
    have "\<forall>z \<in> set xs. y \<le> z" using 1(4,5) False by (auto intro: order_trans[of y x])
    with False 1 show ?thesis by auto
  qed
qed auto

lemma merge_by_sort:
  assumes "\<And>x y. f x y \<Longrightarrow> x \<le> y" "\<And>x y. \<not> f x y \<Longrightarrow> y \<le> x" "sorted xs" "sorted ys"
  shows "merge_by f xs ys = sort (xs @ ys)"
  by (rule properties_for_sort[symmetric]) (use assms in \<open>auto intro: sorted_merge_by\<close>)

text \<open>One loop covers those of \<open>merge_array\<close> and of \<open>mergearray\<close>.\<close>

function merge_loop ::
  "(int \<Rightarrow> int \<Rightarrow> bool) \<Rightarrow> int list \<Rightarrow> int \<Rightarrow> int list \<Rightarrow> int \<Rightarrow> int list \<Rightarrow> int \<Rightarrow> int \<Rightarrow> int
   \<Rightarrow> (int \<times> int \<times> int list \<times> int) option" where
  "merge_loop f a m b n c i j k =
     (if i < m \<and> j < n
      then do {
        x \<leftarrow> aget a i; y \<leftarrow> aget b j;
        if f x y
        then do { c' \<leftarrow> aset c k x; merge_loop f a m b n c' (i + 1) j (k + 1) }
        else do { c' \<leftarrow> aset c k y; merge_loop f a m b n c' i (j + 1) (k + 1) } }
      else Some (i, j, c, k))"
  by pat_completeness auto
termination
  by (relation "measure (\<lambda>(f, a, m, b, n, c, i, j, k). nat (m - i) + nat (n - j))") auto

declare merge_loop.simps [simp del]

lemma merge_array_loop_eq: "merge_array_loop a m b n c i j k = merge_loop (<) a m b n c i j k"
proof (induction a m b n c i j k rule: merge_array_loop.induct)
  case (1 a m b n c i j k)
  then show ?case
    by (subst merge_array_loop.simps, subst merge_loop.simps) (auto intro!: bind_option_cong)
qed

lemma mergearray_loop_eq:
  "mergearray_loop a m n c i j k = merge_loop (\<le>) a (m + 1) a (n + 1) c i j k"
proof (induction a m n c i j k rule: mergearray_loop.induct)
  case (1 a m n c i j k)
  then show ?case
    by (subst mergearray_loop.simps, subst merge_loop.simps) (auto intro!: bind_option_cong)
qed

lemma merge_loop_ok:
  "0 \<le> i \<Longrightarrow> i \<le> m \<Longrightarrow> m \<le> int (length a) \<Longrightarrow> 0 \<le> j \<Longrightarrow> j \<le> n \<Longrightarrow> n \<le> int (length b) \<Longrightarrow>
   0 \<le> k \<Longrightarrow> k + (m - i) + (n - j) \<le> int (length c) \<Longrightarrow>
   \<exists>i' j' c' k'. merge_loop f a m b n c i j k = Some (i', j', c', k') \<and> length c' = length c \<and>
     i \<le> i' \<and> i' \<le> m \<and> j \<le> j' \<and> j' \<le> n \<and> (i' = m \<or> j' = n) \<and> k \<le> k' \<and>
     k' + (m - i') + (n - j') = k + (m - i) + (n - j) \<and>
     take (nat k') c' @ aslice a i' m @ aslice b j' n =
       take (nat k) c @ merge_by f (aslice a i m) (aslice b j n)"
proof (induction f a m b n c i j k rule: merge_loop.induct)
  case (1 f a m b n c i j k)
  show ?case
  proof (cases "i < m \<and> j < n")
    case True
    let ?x = "a ! nat i" and ?y = "b ! nat j"
    have g: "aget a i = Some ?x" "aget b j = Some ?y" "\<And>v. aset c k v = Some (c[nat k := v])"
      using True 1(3-10) by (auto simp: aget_def aset_def)
    note sl = aslice_Cons[of i m a] aslice_Cons[of j n b] take_aset[of k c]
    show ?thesis
    proof (cases "f ?x ?y")
      case f: True
      from 1(1)[OF True g(1,2) f g(3)] 1(3-10) True obtain i' j' c' k' where
        r: "merge_loop f a m b n (c[nat k := ?x]) (i + 1) j (k + 1) = Some (i', j', c', k')"
          "length c' = length c" "i + 1 \<le> i'" "i' \<le> m" "j \<le> j'" "j' \<le> n" "i' = m \<or> j' = n" "k + 1 \<le> k'"
          "k' + (m - i') + (n - j') = k + 1 + (m - (i + 1)) + (n - j)"
          "take (nat k') c' @ aslice a i' m @ aslice b j' n =
             take (nat (k + 1)) (c[nat k := ?x]) @ merge_by f (aslice a (i + 1) m) (aslice b j n)"
        by auto
      have "merge_loop f a m b n c i j k = Some (i', j', c', k')"
        using r(1) f g True by (simp add: merge_loop.simps[of f a m b n c i j k])
      with r show ?thesis using True f 1(3-10) by (auto simp: sl)
    next
      case f: False
      from 1(2)[OF True g(1,2) f g(3)] 1(3-10) True obtain i' j' c' k' where
        r: "merge_loop f a m b n (c[nat k := ?y]) i (j + 1) (k + 1) = Some (i', j', c', k')"
          "length c' = length c" "i \<le> i'" "i' \<le> m" "j + 1 \<le> j'" "j' \<le> n" "i' = m \<or> j' = n" "k + 1 \<le> k'"
          "k' + (m - i') + (n - j') = k + 1 + (m - i) + (n - (j + 1))"
          "take (nat k') c' @ aslice a i' m @ aslice b j' n =
             take (nat (k + 1)) (c[nat k := ?y]) @ merge_by f (aslice a i m) (aslice b (j + 1) n)"
        by auto
      have "merge_loop f a m b n c i j k = Some (i', j', c', k')"
        using r(1) f g True by (simp add: merge_loop.simps[of f a m b n c i j k])
      with r show ?thesis using True f 1(3-10) by (auto simp: sl)
    qed
  next
    case False
    then have "i = m \<or> j = n" using 1(4,7) by linarith
    with False 1(3-10) show ?thesis by (auto simp: merge_loop.simps[of f a m b n c i j k])
  qed
qed

text \<open>The loop followed by the two copies of what is left over.\<close>

lemma merge_phases_ok:
  assumes "0 \<le> i" "i \<le> m" "m \<le> int (length a)" "0 \<le> j" "j \<le> n" "n \<le> int (length b)"
    and "(m - i) + (n - j) \<le> int (length c)"
  shows "\<exists>i' j' c1 k1 c2 k2 c3. merge_loop f a m b n c i j 0 = Some (i', j', c1, k1) \<and>
    copy_run a i' m c1 k1 = Some (c2, k2) \<and>
    copy_run b j' n c2 k2 = Some (c3, (m - i) + (n - j)) \<and> length c3 = length c \<and>
    take (nat ((m - i) + (n - j))) c3 = merge_by f (aslice a i m) (aslice b j n)"
proof -
  from merge_loop_ok[of i m a j n b 0 c f] assms obtain i' j' c1 k1 where
    r: "merge_loop f a m b n c i j 0 = Some (i', j', c1, k1)" "length c1 = length c" "0 \<le> i'" "i' \<le> m"
      "0 \<le> j'" "j' \<le> n" "0 \<le> k1" "k1 + (m - i') + (n - j') = (m - i) + (n - j)"
      "take (nat k1) c1 @ aslice a i' m @ aslice b j' n = merge_by f (aslice a i m) (aslice b j n)"
    by auto
  from copy_run_ok[of i' m a k1 c1] assms r obtain c2 where
    c2: "copy_run a i' m c1 k1 = Some (c2, k1 + (m - i'))" "length c2 = length c"
      "take (nat (k1 + (m - i'))) c2 = take (nat k1) c1 @ aslice a i' m" by auto
  from copy_run_ok[of j' n b "k1 + (m - i')" c2] assms r c2(2) obtain c3 where
    c3: "copy_run b j' n c2 (k1 + (m - i')) = Some (c3, k1 + (m - i') + (n - j'))" "length c3 = length c"
      "take (nat (k1 + (m - i') + (n - j'))) c3 = take (nat (k1 + (m - i'))) c2 @ aslice b j' n" by auto
  show ?thesis
    using r(1,9) c2 c3 unfolding r(8) by auto
qed

lemma merge_array_ok:
  assumes "0 \<le> m" "m \<le> int (length a)" "0 \<le> n" "n \<le> int (length b)" "m + n \<le> int (length c)"
    and "sorted (take (nat m) a)" "sorted (take (nat n) b)"
  shows "\<exists>c'. merge_array a m b n c = Some c' \<and> length c' = length c \<and>
    take (nat (m + n)) c' = sort (take (nat m) a @ take (nat n) b)"
proof -
  have "merge_by (<) (aslice a 0 m) (aslice b 0 n) = sort (aslice a 0 m @ aslice b 0 n)"
    using assms by (intro merge_by_sort) (auto simp: aslice_def)
  then show ?thesis
    using merge_phases_ok[of 0 m a 0 n b c "(<)"] assms
    by (auto simp: merge_array_def merge_array_loop_eq aslice_def)
qed


lemma copy_back_ok:
  "0 \<le> first \<Longrightarrow> 0 \<le> i \<Longrightarrow> i \<le> k \<Longrightarrow> k \<le> int (length temp) \<Longrightarrow> first + k \<le> int (length a) \<Longrightarrow>
   \<exists>a'. copy_back a first temp i k = Some a' \<and> length a' = length a \<and>
     (\<forall>x<length a. a' ! x = (if first + i \<le> int x \<and> int x < first + k then temp ! nat (int x - first) else a ! x))"
proof (induction a first temp i k rule: copy_back.induct)
  case (1 a first temp i k)
  show ?case
  proof (cases "i < k")
    case True
    let ?a = "a[nat (first + i) := temp ! nat i]"
    have g: "aget temp i = Some (temp ! nat i)" "aset a (first + i) (temp ! nat i) = Some ?a"
      using True 1(2-6) by (auto simp: aget_def aset_def)
    obtain a' where a': "copy_back ?a first temp (i + 1) k = Some a'" "length a' = length a"
      "\<And>x. x < length a \<Longrightarrow>
         a' ! x = (if first + (i + 1) \<le> int x \<and> int x < first + k then temp ! nat (int x - first) else ?a ! x)"
      using 1(1)[OF True g] 1(2-6) True by auto
    have "a' ! x = (if first + i \<le> int x \<and> int x < first + k then temp ! nat (int x - first) else a ! x)"
      if "x < length a" for x
      using a'(3)[OF that] True 1(2,3) that by (cases "int x = first + i") (auto simp: nth_list_update)
    then show ?thesis
      using True g a' by (simp add: copy_back.simps[of a first temp i k])
  next
    case False
    with 1(4) have "i = k" by simp
    then show ?thesis by (simp add: copy_back.simps[of a first temp k k])
  qed
qed

lemma copy_back_list:
  assumes "0 \<le> first" "0 \<le> k" "k \<le> int (length temp)" "first + k \<le> int (length a)"
  shows "copy_back a first temp 0 k =
    Some (take (nat first) a @ take (nat k) temp @ drop (nat (first + k)) a)"
proof -
  obtain a' where a': "copy_back a first temp 0 k = Some a'" "length a' = length a"
    "\<And>x. x < length a \<Longrightarrow>
       a' ! x = (if first \<le> int x \<and> int x < first + k then temp ! nat (int x - first) else a ! x)"
    using copy_back_ok[of first 0 k temp a] assms by auto
  have "a' = take (nat first) a @ take (nat k) temp @ drop (nat (first + k)) a"
  proof (rule nth_equalityI)
    fix x assume "x < length a'"
    then show "a' ! x = (take (nat first) a @ take (nat k) temp @ drop (nat (first + k)) a) ! x"
      using a'(2) a'(3)[of x] assms by (auto simp: nth_append nat_diff_distrib nat_add_distrib nat_less_iff)
  qed (use a'(2) assms in \<open>simp add: nat_add_distrib\<close>)
  with a'(1) show ?thesis by simp
qed

lemma sorted_on_aslice:
  assumes "0 \<le> l" "r < int (length a)"
  shows "sorted_on l r a \<longleftrightarrow> sorted (aslice a l (r + 1))"
proof
  assume s: "sorted_on l r a"
  show "sorted (aslice a l (r + 1))"
    unfolding sorted_iff_nth_mono
  proof (intro allI impI)
    fix x y assume "x \<le> y" "y < length (aslice a l (r + 1))"
    then show "aslice a l (r + 1) ! x \<le> aslice a l (r + 1) ! y"
      using s[unfolded sorted_on_def, rule_format, of "l + int x" "l + int y"] assms
      by (auto simp: aslice_def nat_add_distrib)
  qed
next
  assume s: "sorted (aslice a l (r + 1))"
  show "sorted_on l r a"
    unfolding sorted_on_def
  proof (intro allI impI)
    fix x y assume xy: "l \<le> x \<and> x \<le> y \<and> y \<le> r"
    then have "nat (y - l) < length (aslice a l (r + 1))" "nat (x - l) \<le> nat (y - l)"
      using assms by (auto simp: aslice_def nat_diff_distrib)
    moreover have "nat l + nat (x - l) = nat x" "nat l + nat (y - l) = nat y" using xy assms by auto
    ultimately show "a ! nat x \<le> a ! nat y"
      using sorted_nth_mono[OF s, of "nat (x - l)" "nat (y - l)"] xy assms
      by (subst (asm) (1 2) aslice_def) (auto simp: aslice_def)
  qed
qed

lemma aslice_append:
  assumes "0 \<le> i" "i \<le> j" "j \<le> m"
  shows "aslice a i m = aslice a i j @ aslice a j m"
proof -
  have "nat (m - i) = nat (j - i) + nat (m - j)" "nat j = nat (j - i) + nat i" using assms by auto
  then show ?thesis by (simp add: aslice_def take_add)
qed

lemma aslice_outer:
  assumes "0 \<le> l" "l \<le> m" "m \<le> int (length a)"
  shows "a = take (nat l) a @ aslice a l m @ drop (nat m) a"
proof -
  have "drop (nat m) a = drop (nat (m - l)) (drop (nat l) a)" using assms by (simp add: nat_diff_distrib)
  then show ?thesis unfolding aslice_def by (metis append_take_drop_id)
qed

lemma perm_on_replace:
  assumes "0 \<le> l" "l \<le> r + 1" "r < int (length a)" "mset ws = mset (aslice a l (r + 1))"
  shows "perm_on l r a (take (nat l) a @ ws @ drop (nat (r + 1)) a)"
    and "aslice (take (nat l) a @ ws @ drop (nat (r + 1)) a) l (r + 1) = ws"
proof -
  let ?b = "take (nat l) a @ ws @ drop (nat (r + 1)) a"
  have lw: "length ws = nat (r + 1 - l)"
    using assms by (metis aslice_length add1_zle_eq size_mset)
  have "mset ?b = mset a"
    using arg_cong[OF aslice_outer[of l "r + 1" a], of mset] assms by simp
  moreover have "?b ! k = a ! k" if "k < length a" "int k < l \<or> r < int k" for k
  proof (cases "int k < l")
    case False
    then have "nat l + nat (r + 1 - l) = nat (r + 1)" "nat (r + 1) \<le> k"
      using that assms by auto
    then show ?thesis using lw assms that False by (auto simp: nth_append)
  qed (use that assms in \<open>auto simp: nth_append\<close>)
  ultimately show "perm_on l r a ?b"
    by (simp add: perm_on_def)
  show "aslice ?b l (r + 1) = ws" using lw assms by (simp add: aslice_def)
qed

lemma mergearray_ok:
  assumes "0 \<le> l" "l \<le> m" "m \<le> r" "r < int (length a)" "r < int (length t)"
    and "sorted_on l m a" "sorted_on (m + 1) r a"
  shows "\<exists>a' t'. mergearray a l m r t = Some (a', t') \<and> perm_on l r a a' \<and> sorted_on l r a' \<and>
    length t' = length t \<and> take (nat (r + 1 - l)) t' = aslice a' l (r + 1)"
proof -
  let ?w = "merge_by (\<le>) (aslice a l (m + 1)) (aslice a (m + 1) (r + 1))"
  have k: "(m + 1 - l) + (r + 1 - (m + 1)) = r + 1 - l" by simp
  obtain i' j' c1 k1 c2 k2 c3 where ph:
    "merge_loop (\<le>) a (m + 1) a (r + 1) t l (m + 1) 0 = Some (i', j', c1, k1)"
    "copy_run a i' (m + 1) c1 k1 = Some (c2, k2)"
    "copy_run a j' (r + 1) c2 k2 = Some (c3, r + 1 - l)" "length c3 = length t"
    "take (nat (r + 1 - l)) c3 = ?w"
    using merge_phases_ok[of l "m + 1" a "m + 1" "r + 1" a t "(\<le>)"] assms unfolding k by auto
  have w: "?w = sort (aslice a l (m + 1) @ aslice a (m + 1) (r + 1))"
    using assms sorted_on_aslice[of l m a] sorted_on_aslice[of "m + 1" r a] by (intro merge_by_sort) auto
  then have mw: "mset ?w = mset (aslice a l (r + 1))" and sw: "sorted ?w"
    using assms by (auto simp: aslice_append[of l "m + 1" "r + 1" a])
  define a' where "a' = take (nat l) a @ ?w @ drop (nat (r + 1)) a"
  have "copy_back a l c3 0 (r + 1 - l) = Some a'"
    using copy_back_list[of l "r + 1 - l" c3 a] ph(4,5) assms by (simp add: a'_def)
  then have run: "mergearray a l m r t = Some (a', c3)"
    using ph(1-3) by (simp add: mergearray_def mergearray_loop_eq)
  have pm: "perm_on l r a a'" and sl: "aslice a' l (r + 1) = ?w"
    using perm_on_replace[OF assms(1) _ assms(4) mw] assms unfolding a'_def by auto
  have "sorted_on l r a'"
    using sorted_on_aslice[of l r a'] sl sw assms perm_on_length[OF pm] by simp
  with run pm ph(4,5) sl show ?thesis by auto
qed

lemma merge_sort_rec_ok:
  "0 \<le> l \<Longrightarrow> r < int (length a) \<Longrightarrow> r < int (length t) \<Longrightarrow> l + r < 2 ^ 31 \<Longrightarrow> r < 2 ^ 30 \<Longrightarrow>
   \<exists>a' t'. merge_sort_rec a l r t = Some (a', t') \<and> perm_on l r a a' \<and> sorted_on l r a' \<and>
     length t' = length t \<and> (l < r \<longrightarrow> take (nat (r + 1 - l)) t' = aslice a' l (r + 1)) \<and> (\<not> l < r \<longrightarrow> t' = t)"
proof (induction a l r t rule: merge_sort_rec.induct)
  case (1 a l r t)
  show ?case
  proof (cases "l < r")
    case False
    then have "x = y" if "l \<le> x" "x \<le> y" "y \<le> r" for x y using that by linarith
    then have "sorted_on l r a" unfolding sorted_on_def by (metis order_refl)
    with False show ?thesis by (simp add: merge_sort_rec.simps[of a l r t])
  next
    case True
    let ?m = "(l + r) div 2"
    have s: "sadd32 l r = Some (l + r)" using 1(3-7) True by (simp add: sadd32_def)
    have m: "l \<le> ?m" "?m < r" using True by auto
    obtain b tb where b: "merge_sort_rec a l ?m t = Some (b, tb)" "perm_on l ?m a b" "sorted_on l ?m b"
      "length tb = length t"
      using 1(1)[OF True s refl] 1(3-7) m by auto
    have lb: "length b = length a" using b(2) by (rule perm_on_length)
    obtain c tc where c: "merge_sort_rec b (?m + 1) r tb = Some (c, tc)" "perm_on (?m + 1) r b c"
      "sorted_on (?m + 1) r c" "length tc = length t"
      using 1(2)[OF True s refl b(1) refl] 1(3-7) m lb b(4) by auto
    have lc: "length c = length a" using perm_on_length[OF c(2)] lb by simp
    have "sorted_on l ?m c"
      using b(3) by (rule sorted_on_cong) (use perm_on_outside[OF c(2)] m 1(3-7) lb in auto)
    from mergearray_ok[of l ?m r c tc, OF _ _ _ _ _ this c(3)] obtain d td where
      d: "mergearray c l ?m r tc = Some (d, td)" "perm_on l r c d" "sorted_on l r d" "length td = length t"
        "take (nat (r + 1 - l)) td = aslice d l (r + 1)"
      using m 1(3-7) lc c(4) by auto
    have "perm_on l r a d"
      using perm_on_mono[OF b(2), of l r] perm_on_mono[OF c(2), of l r] d(2) m
      by (auto intro: perm_on_trans)
    with True s b(1) c(1) d show ?thesis
      by (simp add: merge_sort_rec.simps[of a l r t])
  qed
qed

section \<open>Bubble sort is correct\<close>

lemma bubble_inner_ok:
  "0 \<le> j \<Longrightarrow> j \<le> b \<Longrightarrow> b < int (length a) \<Longrightarrow> \<forall>k. 0 \<le> k \<and> k \<le> j \<longrightarrow> a ! nat k \<le> a ! nat j \<Longrightarrow>
   \<exists>a'. bubble_inner a j b = Some a' \<and> perm_on 0 b a a' \<and> (\<forall>k. 0 \<le> k \<and> k \<le> b \<longrightarrow> a' ! nat k \<le> a' ! nat b)"
proof (induction a j b rule: bubble_inner.induct)
  case (1 a j b)
  show ?case
  proof (cases "j < b")
    case False
    with 1(3) have "j = b" by simp
    with 1(5) show ?thesis by (simp add: bubble_inner.simps[of a b b])
  next
    case True
    let ?x = "a ! nat (j + 1)" and ?y = "a ! nat j"
    define a1 where "a1 = (if ?x < ?y then a[nat j := ?x, nat (j + 1) := ?y] else a)"
    have ij: "nat j < length a" "nat (j + 1) < length a" "nat j \<noteq> nat (j + 1)" using True 1(2-4) by auto
    have g: "aget a (j + 1) = Some ?x" "aget a j = Some ?y"
      using True 1(2-4) by (auto simp: aget_def)
    have s: "(if ?x < ?y then do { a1 \<leftarrow> aset a j ?x; aset a1 (j + 1) ?y } else Some a) = Some a1"
      using True 1(2-4) by (simp add: aset_def a1_def)
    have p: "perm_on 0 b a a1"
      using swap_perm_on[of 0 j b "j + 1" a] True 1(2-4) by (auto simp: a1_def)
    have "a1 ! nat k \<le> a1 ! nat (j + 1)" if k: "0 \<le> k" "k \<le> j + 1" for k
    proof -
      consider "k = j + 1" | "k = j" | "k < j" using k by linarith
      then show ?thesis
      proof cases
        case 3
        then have "a ! nat k \<le> ?y" "nat k \<noteq> nat j" "nat k \<noteq> nat (j + 1)" using 1(2,5) k by auto
        then show ?thesis using ij by (auto simp: a1_def)
      qed (use ij in \<open>auto simp: a1_def\<close>)
    qed
    then obtain a' where "bubble_inner a1 (j + 1) b = Some a'" "perm_on 0 b a1 a'"
      "\<forall>k. 0 \<le> k \<and> k \<le> b \<longrightarrow> a' ! nat k \<le> a' ! nat b"
      using 1(1)[OF True g s] 1(2-4) True perm_on_length[OF p] by auto
    then show ?thesis
      using True g s perm_on_trans[OF p] by (auto simp: bubble_inner.simps[of a j b])
  qed
qed

text \<open>
  After \<open>i\<close> rounds the last \<open>i\<close> elements are in place: sorted, and no smaller than the others.
\<close>

lemma bubble_outer_ok:
  "0 \<le> i \<Longrightarrow> n = int (length a) \<Longrightarrow> sorted_on (n - i) (n - 1) a \<Longrightarrow>
   \<forall>x y. 0 \<le> x \<and> x < n - i \<and> n - i \<le> y \<and> y < n \<longrightarrow> a ! nat x \<le> a ! nat y \<Longrightarrow>
   \<exists>a'. bubble_outer a n i = Some a' \<and> perm_on 0 (n - 1) a a' \<and> sorted_on 0 (n - 1) a'"
proof (induction a n i rule: bubble_outer.induct)
  case (1 a n i)
  note tail = 1(5)[rule_format]
  show ?case
  proof (cases "i < n - 1")
    case False
    have "sorted_on 0 (n - 1) a"
      unfolding sorted_on_def
    proof (intro allI impI)
      fix x y assume xy: "0 \<le> x \<and> x \<le> y \<and> y \<le> n - 1"
      consider "n - i \<le> x" | "x < n - i" "n - i \<le> y" | "x = y" using xy False 1(2) by linarith
      then show "a ! nat x \<le> a ! nat y"
        by cases (use xy 1(4) tail[of x y] in \<open>auto simp: sorted_on_def\<close>)
    qed
    with False show ?thesis by (simp add: bubble_outer.simps[of a n i])
  next
    case True
    let ?b = "n - 1 - i"
    obtain b where b: "bubble_inner a 0 ?b = Some b" "perm_on 0 ?b a b"
      and top: "\<And>k. 0 \<le> k \<Longrightarrow> k \<le> ?b \<Longrightarrow> b ! nat k \<le> b ! nat ?b"
      using bubble_inner_ok[of 0 ?b a] True 1(2,3) by auto
    have lb: "length b = length a" using b(2) by (rule perm_on_length)
    have keep: "b ! nat y = a ! nat y" if "n - i \<le> y" "y < n" for y
      using perm_on_outside[OF b(2), of y] that True 1(2,3) by auto
    have below: "b ! nat x \<le> a ! nat y" if "0 \<le> x" "x < n - i" "n - i \<le> y" "y < n" for x y
      by (rule perm_on_values[OF b(2), where P = "\<lambda>v. v \<le> a ! nat y"]) (use that tail True 1(2,3) in auto)
    have "sorted_on (n - (i + 1)) (n - 1) b"
      unfolding sorted_on_def
    proof (intro allI impI)
      fix x y assume xy: "n - (i + 1) \<le> x \<and> x \<le> y \<and> y \<le> n - 1"
      consider "n - i \<le> x" | "x = ?b" "n - i \<le> y" | "x = y" using xy by linarith
      then show "b ! nat x \<le> b ! nat y"
        by cases (use xy keep below[of x y] 1(2,4) True in \<open>auto simp: sorted_on_def\<close>)
    qed
    moreover have "b ! nat x \<le> b ! nat y" if "0 \<le> x \<and> x < n - (i + 1) \<and> n - (i + 1) \<le> y \<and> y < n" for x y
      using that top[of x] below[of x y] keep[of y] by (cases "y = ?b") auto
    ultimately obtain c where "bubble_outer b n (i + 1) = Some c" "perm_on 0 (n - 1) b c" "sorted_on 0 (n - 1) c"
      using 1(1)[OF True b(1)] 1(2,3) lb by auto
    then show ?thesis
      using True b(1) perm_on_trans[OF perm_on_mono[OF b(2), of 0 "n - 1"]] 1(2)
      by (auto simp: bubble_outer.simps[of a n i])
  qed
qed


section \<open>Properties\<close>

text \<open>
  C34: \<open>quick_sort(a, n)\<close> on an array of \<open>n\<close> elements, for every \<open>n\<close> an \<open>int\<close> can hold, returns
  without an access outside the array, and leaves the array sorted in ascending order with the
  same elements.
\<close>
theorem quick_sort_sorts:
  assumes "length a < 2 ^ 31"
  shows "quick_sort a (int (length a)) = Some (sort a)"
proof -
  obtain b where "quick_sort_rec a 0 (int (length a) - 1) = Some b"
    "perm_on 0 (int (length a) - 1) a b" "sorted_on 0 (int (length a) - 1) b"
    using quick_sort_rec_ok[of 0 "int (length a) - 1" a] by auto
  then show ?thesis
    using assms sorted_on_all[of "int (length a) - 1" a b] by (simp add: quick_sort_def sadd32_def)
qed

text \<open>Witness: the array of five elements with repetitions.\<close>
theorem quick_sort_sorts_witness:
  "length [3, 1, 3, 0, 2 :: int] < 2 ^ 31 \<and> quick_sort [3, 1, 3, 0, 2] 5 = Some [0, 1, 2, 3, 3]"
  using quick_sort_sorts[of "[3, 1, 3, 0, 2]"] by simp

text \<open>
  C35: \<open>merge_sort(a, n)\<close> on an array of \<open>n\<close> elements with \<open>2 \<le> n \<le> 2\<^sup>3\<^sup>0\<close>, when its \<open>malloc\<close>
  succeeds, returns without a signed overflow in \<open>first + last\<close> and without an access outside
  either array: both the array and the returned scratch block hold the elements of the array in
  ascending order, whatever the fresh block held.
\<close>
theorem merge_sort_sorts:
  assumes "2 \<le> length a" "length a \<le> 2 ^ 30" "length res = length a"
  shows "merge_sort a (int (length a)) res = Some (sort a, sort a)"
proof -
  let ?r = "int (length a) - 1"
  obtain b t where r: "merge_sort_rec a 0 ?r res = Some (b, t)" "perm_on 0 ?r a b" "sorted_on 0 ?r b"
    "length t = length a" "take (nat (?r + 1)) t = aslice b 0 (?r + 1)"
    using merge_sort_rec_ok[of 0 ?r a res] assms by auto
  have b: "b = sort a" using sorted_on_all[OF r(2,3)] by simp
  moreover have "t = b" using r(4,5) perm_on_length[OF r(2)] by (simp add: aslice_def)
  ultimately show ?thesis using r(1) assms by (simp add: merge_sort_def sadd32_def)
qed

text \<open>Witness: four elements and an arbitrary fresh block.\<close>
theorem merge_sort_sorts_witness:
  "(2::nat) \<le> 4 \<and> (4::nat) \<le> 2 ^ 30 \<and>
   merge_sort [4, 2, 4, 1] 4 [9, 9, 9, 9] = Some ([1, 2, 4, 4], [1, 2, 4, 4])"
  using merge_sort_sorts[of "[4, 2, 4, 1]" "[9, 9, 9, 9]"] by simp

text \<open>
  For an array of one element \<open>merge_sort\<close> returns its scratch block as \<open>malloc\<close> left it: the
  result is the indeterminate value of the block and not the element of the array.
\<close>
theorem merge_sort_singleton_uninitialised:
  "merge_sort [x] 1 [junk] = Some ([x], [junk])"
  by (simp add: merge_sort_def sadd32_def merge_sort_rec.simps)

text \<open>
  \<open>bubble_sort(a, n)\<close> on an array of \<open>n\<close> elements returns without an access outside the array
  and leaves it sorted with the same elements.
\<close>
theorem bubble_sort_sorts:
  assumes "length a < 2 ^ 31"
  shows "bubble_sort a (int (length a)) = Some (sort a)"
proof -
  obtain b where "bubble_outer a (int (length a)) 0 = Some b"
    "perm_on 0 (int (length a) - 1) a b" "sorted_on 0 (int (length a) - 1) b"
    using bubble_outer_ok[of 0 "int (length a)" a] by (auto simp: sorted_on_def)
  then show ?thesis
    using assms sorted_on_all[of "int (length a) - 1" a b] by (simp add: bubble_sort_def sadd32_def)
qed

text \<open>Witness: a descending array.\<close>
theorem bubble_sort_sorts_witness:
  "length [5, 4, 3, 2, 1 :: int] < 2 ^ 31 \<and> bubble_sort [5, 4, 3, 2, 1] 5 = Some [1, 2, 3, 4, 5]"
  using bubble_sort_sorts[of "[5, 4, 3, 2, 1]"] by simp

text \<open>
  \<open>merge_array\<close> on two ascending arrays fills the front of the third with their elements in
  ascending order and keeps the rest of it in bounds.
\<close>
theorem merge_array_merges:
  assumes "sorted a" "sorted b" "length a + length b \<le> length c"
  shows "\<exists>c'. merge_array a (int (length a)) b (int (length b)) c = Some c' \<and> length c' = length c \<and>
    take (length a + length b) c' = sort (a @ b)"
  using merge_array_ok[of "int (length a)" a "int (length b)" b c] assms
  by (auto simp: nat_add_distrib)

text \<open>Witness: two arrays with a common element.\<close>
theorem merge_array_merges_witness:
  "sorted [1, 4 :: int] \<and> sorted [2, 4 :: int] \<and>
   (\<exists>c'. merge_array [1, 4] 2 [2, 4] 2 [0, 0, 0, 0, 7] = Some c' \<and> length c' = 5 \<and> take 4 c' = [1, 2, 4, 4])"
  using merge_array_merges[of "[1, 4]" "[2, 4]" "[0, 0, 0, 0, 7]"] by (simp add: eval_nat_numeral)

end
