(* ===== verification/Cstring.thy ===== *)
theory Cstring
  imports Prelude
begin

text \<open>
  \<open>datastruct/string.c\<close> (the string routines of the Linux kernel kept in the repository) and
  \<open>datastruct/module_string.c\<close>.

  Memory is one list of bytes and a pointer is an index into it, so that the arguments of a
  routine may overlap; a read or a write outside it is the fault \<^const>\<open>None\<close>. Sizes are natural
  numbers. A returned pointer that may be \<open>NULL\<close> is a value of type \<^typ>\<open>nat option\<close>. The routines
  that write return the new memory with their result. Every loop is a recursive function: those
  without a counter end because each round moves on in a memory that ends, by a fault if by
  nothing else.

  \<open>cstr m p xs\<close> says that a NUL-terminated string with the bytes \<open>xs\<close> is stored at \<open>p\<close>. The
  lemmas give, for each routine, its result in terms of the strings its arguments point to.
\<close>

type_synonym mem = "byte list"

section \<open>Access\<close>

definition rd :: "mem \<Rightarrow> nat \<Rightarrow> byte option" where
  "rd m p = (if p < length m then Some (m ! p) else None)"

definition wr :: "mem \<Rightarrow> nat \<Rightarrow> byte \<Rightarrow> mem option" where
  "wr m p v = (if p < length m then Some (m[p := v]) else None)"

lemma rd_Some_iff: "rd m p = Some c \<longleftrightarrow> p < length m \<and> m ! p = c"
  by (auto simp: rd_def)

lemma wr_Some_iff: "wr m p v = Some m' \<longleftrightarrow> p < length m \<and> m' = m[p := v]"
  by (auto simp: wr_def)

section \<open>Comparing without case\<close>

text \<open>
  \<open>tolower\<close> of \<open>linux/ctype.h\<close> is an argument. The result is the last pair of bytes looked at;
  \<open>strnicmp\<close> returns their difference.
\<close>

function strnicmp_loop :: "(byte \<Rightarrow> byte) \<Rightarrow> mem \<Rightarrow> nat \<Rightarrow> nat \<Rightarrow> nat \<Rightarrow> (byte \<times> byte) option" where
  "strnicmp_loop tolower m s1 s2 len = do {
     c1 \<leftarrow> rd m s1; c2 \<leftarrow> rd m s2;
     if c1 = 0 \<or> c2 = 0 then Some (c1, c2)
     else if c1 = c2
     then (if len - 1 = 0 then Some (c1, c2) else strnicmp_loop tolower m (s1 + 1) (s2 + 1) (len - 1))
     else if tolower c1 \<noteq> tolower c2 then Some (tolower c1, tolower c2)
     else (if len - 1 = 0 then Some (tolower c1, tolower c2)
           else strnicmp_loop tolower m (s1 + 1) (s2 + 1) (len - 1)) }"
  by pat_completeness auto
termination
  by (relation "measure (\<lambda>(tolower, m, s1, s2, len). len)") auto

definition strnicmp :: "(byte \<Rightarrow> byte) \<Rightarrow> mem \<Rightarrow> nat \<Rightarrow> nat \<Rightarrow> nat \<Rightarrow> int option" where
  "strnicmp tolower m s1 s2 len =
     (if len = 0 then Some 0
      else do { (c1, c2) \<leftarrow> strnicmp_loop tolower m s1 s2 len; Some (uint c1 - uint c2) })"

section \<open>Lengths\<close>

function scan_nul :: "mem \<Rightarrow> nat \<Rightarrow> nat option" where
  "scan_nul m sc = do { c \<leftarrow> rd m sc; if c = 0 then Some sc else scan_nul m (sc + 1) }"
  by pat_completeness auto
termination
  by (relation "measure (\<lambda>(m, sc). length m - sc)") (auto simp: rd_Some_iff)

definition strlen :: "mem \<Rightarrow> nat \<Rightarrow> nat option" where
  "strlen m s = do { sc \<leftarrow> scan_nul m s; Some (sc - s) }"

fun strnlen_loop :: "mem \<Rightarrow> nat \<Rightarrow> nat \<Rightarrow> nat option" where
  "strnlen_loop m sc 0 = Some sc"
| "strnlen_loop m sc (Suc cnt) = do {
     c \<leftarrow> rd m sc; if c \<noteq> 0 then strnlen_loop m (sc + 1) cnt else Some sc }"

definition strnlen :: "mem \<Rightarrow> nat \<Rightarrow> nat \<Rightarrow> nat option" where
  "strnlen m s cnt = do { sc \<leftarrow> strnlen_loop m s cnt; Some (sc - s) }"

section \<open>Filling and copying memory\<close>

fun memset_loop :: "mem \<Rightarrow> nat \<Rightarrow> byte \<Rightarrow> nat \<Rightarrow> mem option" where
  "memset_loop m xs c 0 = Some m"
| "memset_loop m xs c (Suc cnt) = do { m' \<leftarrow> wr m xs c; memset_loop m' (xs + 1) c cnt }"

definition memset :: "mem \<Rightarrow> nat \<Rightarrow> int \<Rightarrow> nat \<Rightarrow> (mem \<times> nat) option" where
  "memset m s c cnt = do { m' \<leftarrow> memset_loop m s (word_of_int c) cnt; Some (m', s) }"

fun copy_fwd :: "mem \<Rightarrow> nat \<Rightarrow> nat \<Rightarrow> nat \<Rightarrow> mem option" where
  "copy_fwd m tmp s 0 = Some m"
| "copy_fwd m tmp s (Suc cnt) = do {
     c \<leftarrow> rd m s; m' \<leftarrow> wr m tmp c; copy_fwd m' (tmp + 1) (s + 1) cnt }"

fun copy_bwd :: "mem \<Rightarrow> nat \<Rightarrow> nat \<Rightarrow> nat \<Rightarrow> mem option" where
  "copy_bwd m tmp s 0 = Some m"
| "copy_bwd m tmp s (Suc cnt) = do {
     c \<leftarrow> rd m (s - 1); m' \<leftarrow> wr m (tmp - 1) c; copy_bwd m' (tmp - 1) (s - 1) cnt }"

definition memcpy :: "mem \<Rightarrow> nat \<Rightarrow> nat \<Rightarrow> nat \<Rightarrow> (mem \<times> nat) option" where
  "memcpy m dest src cnt = do { m' \<leftarrow> copy_fwd m dest src cnt; Some (m', dest) }"

definition memmove :: "mem \<Rightarrow> nat \<Rightarrow> nat \<Rightarrow> nat \<Rightarrow> (mem \<times> nat) option" where
  "memmove m dest src cnt = do {
     m' \<leftarrow> (if dest \<le> src then copy_fwd m dest src cnt
            else copy_bwd m (dest + cnt) (src + cnt) cnt);
     Some (m', dest) }"

section \<open>Copying strings\<close>

function strcpy_loop :: "mem \<Rightarrow> nat \<Rightarrow> nat \<Rightarrow> mem option" where
  "strcpy_loop m dest src = do {
     c \<leftarrow> rd m src; m' \<leftarrow> wr m dest c;
     if c \<noteq> 0 then strcpy_loop m' (dest + 1) (src + 1) else Some m' }"
  by pat_completeness auto
termination
  by (relation "measure (\<lambda>(m, dest, src). length m - dest)") (auto simp: wr_Some_iff)

definition strcpy :: "mem \<Rightarrow> nat \<Rightarrow> nat \<Rightarrow> (mem \<times> nat) option" where
  "strcpy m dest src = do { m' \<leftarrow> strcpy_loop m dest src; Some (m', dest) }"

fun strncpy_loop :: "mem \<Rightarrow> nat \<Rightarrow> nat \<Rightarrow> nat \<Rightarrow> mem option" where
  "strncpy_loop m tmp src 0 = Some m"
| "strncpy_loop m tmp src (Suc cnt) = do {
     c \<leftarrow> rd m src; m' \<leftarrow> wr m tmp c;
     strncpy_loop m' (tmp + 1) (if c \<noteq> 0 then src + 1 else src) cnt }"

definition strncpy :: "mem \<Rightarrow> nat \<Rightarrow> nat \<Rightarrow> nat \<Rightarrow> (mem \<times> nat) option" where
  "strncpy m dest src cnt = do { m' \<leftarrow> strncpy_loop m dest src cnt; Some (m', dest) }"

definition strlcpy :: "mem \<Rightarrow> nat \<Rightarrow> nat \<Rightarrow> nat \<Rightarrow> (mem \<times> nat) option" where
  "strlcpy m dest src sz = do {
     ret \<leftarrow> strlen m src;
     if sz \<noteq> 0
     then do {
       let len = (if ret \<ge> sz then sz - 1 else ret);
       (m1, _) \<leftarrow> memcpy m dest src len;
       m2 \<leftarrow> wr m1 (dest + len) 0;
       Some (m2, ret) }
     else Some (m, ret) }"

definition strcat :: "mem \<Rightarrow> nat \<Rightarrow> nat \<Rightarrow> (mem \<times> nat) option" where
  "strcat m dest src = do {
     d \<leftarrow> scan_nul m dest;
     m' \<leftarrow> strcpy_loop m d src;
     Some (m', dest) }"

function strncat_loop :: "mem \<Rightarrow> nat \<Rightarrow> nat \<Rightarrow> nat \<Rightarrow> mem option" where
  "strncat_loop m dest src cnt = do {
     c \<leftarrow> rd m src; m' \<leftarrow> wr m dest c;
     if c \<noteq> 0
     then (if cnt - 1 = 0 then wr m' (dest + 1) 0
           else strncat_loop m' (dest + 1) (src + 1) (cnt - 1))
     else Some m' }"
  by pat_completeness auto
termination
  by (relation "measure (\<lambda>(m, dest, src, cnt). cnt)") auto

definition strncat :: "mem \<Rightarrow> nat \<Rightarrow> nat \<Rightarrow> nat \<Rightarrow> (mem \<times> nat) option" where
  "strncat m dest src cnt =
     (if cnt \<noteq> 0
      then do {
        d \<leftarrow> scan_nul m dest;
        m' \<leftarrow> strncat_loop m d src cnt;
        Some (m', dest) }
      else Some (m, dest))"

text \<open>A \<open>BUG_ON\<close> that fires stops the kernel: it is the fault.\<close>

definition strlcat :: "mem \<Rightarrow> nat \<Rightarrow> nat \<Rightarrow> nat \<Rightarrow> (mem \<times> nat) option" where
  "strlcat m dest src cnt = do {
     dsize \<leftarrow> strlen m dest;
     len \<leftarrow> strlen m src;
     let res = dsize + len;
     _ \<leftarrow> guard_opt (\<not> dsize \<ge> cnt);
     let dest' = dest + dsize;
     let cnt' = cnt - dsize;
     let len' = (if len \<ge> cnt' then cnt' - 1 else len);
     (m1, _) \<leftarrow> memcpy m dest' src len';
     m2 \<leftarrow> wr m1 (dest' + len') 0;
     Some (m2, res) }"

section \<open>Comparing\<close>

text \<open>
  \<open>signed char __res = *cs - *ct\<close> keeps the low eight bits of the difference, whatever the
  signedness of \<open>char\<close>.
\<close>

function strcmp_loop :: "mem \<Rightarrow> nat \<Rightarrow> nat \<Rightarrow> byte option" where
  "strcmp_loop m cs ct = do {
     a \<leftarrow> rd m cs; b \<leftarrow> rd m ct;
     let res = a - b;
     if res \<noteq> 0 \<or> a = 0 then Some res else strcmp_loop m (cs + 1) (ct + 1) }"
  by pat_completeness auto
termination
  by (relation "measure (\<lambda>(m, cs, ct). length m - cs)") (auto simp: rd_Some_iff)

definition strcmp :: "mem \<Rightarrow> nat \<Rightarrow> nat \<Rightarrow> int option" where
  "strcmp m cs ct = do { res \<leftarrow> strcmp_loop m cs ct; Some (sint res) }"

fun strncmp_loop :: "mem \<Rightarrow> nat \<Rightarrow> nat \<Rightarrow> nat \<Rightarrow> byte \<Rightarrow> byte option" where
  "strncmp_loop m cs ct 0 res = Some res"
| "strncmp_loop m cs ct (Suc cnt) res = do {
     a \<leftarrow> rd m cs; b \<leftarrow> rd m ct;
     let res = a - b;
     if res \<noteq> 0 \<or> a = 0 then Some res else strncmp_loop m (cs + 1) (ct + 1) cnt res }"

definition strncmp :: "mem \<Rightarrow> nat \<Rightarrow> nat \<Rightarrow> nat \<Rightarrow> int option" where
  "strncmp m cs ct cnt = do { res \<leftarrow> strncmp_loop m cs ct cnt 0; Some (sint res) }"

fun memcmp_loop :: "mem \<Rightarrow> nat \<Rightarrow> nat \<Rightarrow> nat \<Rightarrow> int \<Rightarrow> int option" where
  "memcmp_loop m su1 su2 0 res = Some res"
| "memcmp_loop m su1 su2 (Suc cnt) res = do {
     a \<leftarrow> rd m su1; b \<leftarrow> rd m su2;
     let res = uint a - uint b;
     if res \<noteq> 0 then Some res else memcmp_loop m (su1 + 1) (su2 + 1) cnt res }"

definition memcmp :: "mem \<Rightarrow> nat \<Rightarrow> nat \<Rightarrow> nat \<Rightarrow> int option" where
  "memcmp m cs ct cnt = memcmp_loop m cs ct cnt 0"

section \<open>Searching\<close>

function strchr_loop :: "mem \<Rightarrow> nat \<Rightarrow> byte \<Rightarrow> nat option option" where
  "strchr_loop m s c = do {
     x \<leftarrow> rd m s;
     if x \<noteq> c then (if x = 0 then Some None else strchr_loop m (s + 1) c) else Some (Some s) }"
  by pat_completeness auto
termination
  by (relation "measure (\<lambda>(m, s, c). length m - s)") (auto simp: rd_Some_iff)

definition strchr :: "mem \<Rightarrow> nat \<Rightarrow> int \<Rightarrow> nat option option" where
  "strchr m s c = strchr_loop m s (word_of_int c)"

text \<open>The test \<open>--p >= s\<close> of the loop is a comparison of addresses.\<close>

function strrchr_loop :: "mem \<Rightarrow> nat \<Rightarrow> nat \<Rightarrow> byte \<Rightarrow> nat option option" where
  "strrchr_loop m s p c = do {
     x \<leftarrow> rd m p;
     if x = c then Some (Some p)
     else if int p - 1 \<ge> int s then strrchr_loop m s (p - 1) c else Some None }"
  by pat_completeness auto
termination
  by (relation "measure (\<lambda>(m, s, p, c). p)") auto

definition strrchr :: "mem \<Rightarrow> nat \<Rightarrow> int \<Rightarrow> nat option option" where
  "strrchr m s c = do { l \<leftarrow> strlen m s; strrchr_loop m s (s + l) (word_of_int c) }"

fun strnchr_loop :: "mem \<Rightarrow> nat \<Rightarrow> nat \<Rightarrow> byte \<Rightarrow> nat option option" where
  "strnchr_loop m s 0 c = Some None"
| "strnchr_loop m s (Suc cnt) c = do {
     x \<leftarrow> rd m s;
     if x \<noteq> 0 then (if x = c then Some (Some s) else strnchr_loop m (s + 1) cnt c)
     else Some None }"

definition strnchr :: "mem \<Rightarrow> nat \<Rightarrow> nat \<Rightarrow> int \<Rightarrow> nat option option" where
  "strnchr m s cnt c = strnchr_loop m s cnt (word_of_int c)"

text \<open>
  The inner loop shared by \<open>strspn\<close>, \<open>strcspn\<close> and \<open>strpbrk\<close>: whether the byte occurs in the
  string at \<open>a\<close>, that is, whether the loop leaves before the terminator.
\<close>

function scan_set :: "mem \<Rightarrow> byte \<Rightarrow> nat \<Rightarrow> bool option" where
  "scan_set m x a = do {
     y \<leftarrow> rd m a;
     if y \<noteq> 0 then (if x = y then Some True else scan_set m x (a + 1)) else Some False }"
  by pat_completeness auto
termination
  by (relation "measure (\<lambda>(m, x, a). length m - a)") (auto simp: rd_Some_iff)

function strspn_loop :: "mem \<Rightarrow> nat \<Rightarrow> nat \<Rightarrow> nat \<Rightarrow> nat option" where
  "strspn_loop m p accept cnt = do {
     x \<leftarrow> rd m p;
     if x \<noteq> 0
     then do {
       found \<leftarrow> scan_set m x accept;
       if \<not> found then Some cnt else strspn_loop m (p + 1) accept (cnt + 1) }
     else Some cnt }"
  by pat_completeness auto
termination
  by (relation "measure (\<lambda>(m, p, accept, cnt). length m - p)") (auto simp: rd_Some_iff)

definition strspn :: "mem \<Rightarrow> nat \<Rightarrow> nat \<Rightarrow> nat option" where
  "strspn m s accept = strspn_loop m s accept 0"

function strcspn_loop :: "mem \<Rightarrow> nat \<Rightarrow> nat \<Rightarrow> nat \<Rightarrow> nat option" where
  "strcspn_loop m p reject cnt = do {
     x \<leftarrow> rd m p;
     if x \<noteq> 0
     then do {
       found \<leftarrow> scan_set m x reject;
       if found then Some cnt else strcspn_loop m (p + 1) reject (cnt + 1) }
     else Some cnt }"
  by pat_completeness auto
termination
  by (relation "measure (\<lambda>(m, p, reject, cnt). length m - p)") (auto simp: rd_Some_iff)

definition strcspn :: "mem \<Rightarrow> nat \<Rightarrow> nat \<Rightarrow> nat option" where
  "strcspn m s reject = strcspn_loop m s reject 0"

function strpbrk :: "mem \<Rightarrow> nat \<Rightarrow> nat \<Rightarrow> nat option option" where
  "strpbrk m sc1 ct = do {
     x \<leftarrow> rd m sc1;
     if x \<noteq> 0
     then do {
       found \<leftarrow> scan_set m x ct;
       if found then Some (Some sc1) else strpbrk m (sc1 + 1) ct }
     else Some None }"
  by pat_completeness auto
termination
  by (relation "measure (\<lambda>(m, sc1, ct). length m - sc1)") (auto simp: rd_Some_iff)

text \<open>The pointer \<open>*s\<close> is an argument and a result; the other results are the memory and the token.\<close>

definition strsep :: "mem \<Rightarrow> nat option \<Rightarrow> nat \<Rightarrow> (mem \<times> nat option \<times> nat option) option" where
  "strsep m s ct = (case s of
     None \<Rightarrow> Some (m, None, None)
   | Some sbegin \<Rightarrow> do {
       e \<leftarrow> strpbrk m sbegin ct;
       case e of
         None \<Rightarrow> Some (m, None, Some sbegin)
       | Some p \<Rightarrow> do { m' \<leftarrow> wr m p 0; Some (m', Some (p + 1), Some sbegin) } })"

text \<open>\<open>memscan\<close> compares the byte with the \<open>int\<close> itself, \<open>memchr\<close> with its low eight bits.\<close>

fun memscan :: "mem \<Rightarrow> nat \<Rightarrow> int \<Rightarrow> nat \<Rightarrow> nat option" where
  "memscan m p c 0 = Some p"
| "memscan m p c (Suc sz) = do {
     x \<leftarrow> rd m p; if uint x = c then Some p else memscan m (p + 1) c sz }"

fun memchr_loop :: "mem \<Rightarrow> nat \<Rightarrow> byte \<Rightarrow> nat \<Rightarrow> nat option option" where
  "memchr_loop m p c 0 = Some None"
| "memchr_loop m p c (Suc n) = do {
     x \<leftarrow> rd m p; if c = x then Some (Some p) else memchr_loop m (p + 1) c n }"

definition memchr :: "mem \<Rightarrow> nat \<Rightarrow> int \<Rightarrow> nat \<Rightarrow> nat option option" where
  "memchr m s c n = memchr_loop m s (word_of_int c) n"

text \<open>
  \<open>strstr\<close> keeps the two lengths in \<open>int\<close> variables and passes one of them back as a \<open>size_t\<close>.
\<close>

definition int_of_size :: "nat \<Rightarrow> int" where
  "int_of_size n = sint (word_of_nat n :: 32 word)"

definition size_of_int :: "int \<Rightarrow> nat" where
  "size_of_int i = nat (i mod 2 ^ 64)"

function strstr_loop :: "mem \<Rightarrow> nat \<Rightarrow> nat \<Rightarrow> int \<Rightarrow> int \<Rightarrow> nat option option" where
  "strstr_loop m s1 s2 l1 l2 =
     (if l1 \<ge> l2
      then do {
        r \<leftarrow> memcmp m s1 s2 (size_of_int l2);
        if r = 0 then Some (Some s1) else strstr_loop m (s1 + 1) s2 (l1 - 1) l2 }
      else Some None)"
  by pat_completeness auto
termination
  by (relation "measure (\<lambda>(m, s1, s2, l1, l2). nat (l1 - l2 + 1))") auto

definition strstr :: "mem \<Rightarrow> nat \<Rightarrow> nat \<Rightarrow> nat option option" where
  "strstr m s1 s2 = do {
     n2 \<leftarrow> strlen m s2;
     let l2 = int_of_size n2;
     if l2 = 0 then Some (Some s1)
     else do {
       n1 \<leftarrow> strlen m s1;
       strstr_loop m s1 s2 (int_of_size n1) l2 } }"

section \<open>\<open>module_string.c\<close>\<close>

fun module_cpystrn_loop :: "mem \<Rightarrow> nat \<Rightarrow> nat \<Rightarrow> nat \<Rightarrow> (mem \<times> nat) option" where
  "module_cpystrn_loop m dst src 0 = do { m' \<leftarrow> wr m dst 0; Some (m', dst) }"
| "module_cpystrn_loop m dst src (Suc n) = do {
     c \<leftarrow> rd m src; m' \<leftarrow> wr m dst c;
     if c = 0 then Some (m', dst) else module_cpystrn_loop m' (dst + 1) (src + 1) n }"

definition module_cpystrn :: "mem \<Rightarrow> nat \<Rightarrow> nat \<Rightarrow> nat \<Rightarrow> (mem \<times> nat) option" where
  "module_cpystrn m dst src n =
     (if n = 0 then Some (m, dst) else module_cpystrn_loop m dst src (n - 1))"

fun module_rstrncmp_loop :: "mem \<Rightarrow> nat \<Rightarrow> nat \<Rightarrow> nat \<Rightarrow> int option" where
  "module_rstrncmp_loop m s1 s2 n = do {
     a \<leftarrow> rd m (s1 + n); b \<leftarrow> rd m (s2 + n);
     if a \<noteq> b then Some (uint a - uint b)
     else (case n of 0 \<Rightarrow> Some 0 | Suc n' \<Rightarrow> module_rstrncmp_loop m s1 s2 n') }"

definition module_rstrncmp :: "mem \<Rightarrow> nat \<Rightarrow> nat \<Rightarrow> nat \<Rightarrow> int option" where
  "module_rstrncmp m s1 s2 n = (if n = 0 then Some 0 else module_rstrncmp_loop m s1 s2 (n - 1))"

declare strnicmp_loop.simps [simp del] scan_nul.simps [simp del] strcpy_loop.simps [simp del]
  strncat_loop.simps [simp del] strcmp_loop.simps [simp del] strchr_loop.simps [simp del]
  strrchr_loop.simps [simp del] scan_set.simps [simp del] strspn_loop.simps [simp del]
  strcspn_loop.simps [simp del] strpbrk.simps [simp del] strstr_loop.simps [simp del]
  module_rstrncmp_loop.simps [simp del]


section \<open>Bytes stored in memory\<close>

definition has :: "mem \<Rightarrow> nat \<Rightarrow> byte list \<Rightarrow> bool" where
  "has m p xs \<longleftrightarrow> p + length xs \<le> length m \<and> (\<forall>i<length xs. m ! (p + i) = xs ! i)"

definition cstr :: "mem \<Rightarrow> nat \<Rightarrow> byte list \<Rightarrow> bool" where
  "cstr m p xs \<longleftrightarrow> has m p (xs @ [0]) \<and> 0 \<notin> set xs"

text \<open>\<open>put m d ys\<close>: the memory with the bytes \<open>ys\<close> written from \<open>d\<close> on.\<close>

definition put :: "mem \<Rightarrow> nat \<Rightarrow> byte list \<Rightarrow> mem" where
  "put m d ys = take d m @ ys @ drop (d + length ys) m"

lemma has_Nil [simp]: "has m p [] \<longleftrightarrow> p \<le> length m"
  by (simp add: has_def)

lemma has_Cons [simp]: "has m p (x # xs) \<longleftrightarrow> p < length m \<and> m ! p = x \<and> has m (Suc p) xs"
  by (auto simp: has_def All_less_Suc2)

lemma has_length: "has m p xs \<Longrightarrow> p + length xs \<le> length m"
  by (simp add: has_def)

lemma has_append: "has m p (xs @ ys) \<longleftrightarrow> has m p xs \<and> has m (p + length xs) ys"
  by (induction xs arbitrary: p) (auto dest: has_length)

lemma has_conv: "has m p xs \<longleftrightarrow> p + length xs \<le> length m \<and> take (length xs) (drop p m) = xs"
  by (auto simp: has_def list_eq_iff_nth_eq)

lemma has_update: "has m p xs \<Longrightarrow> d < p \<or> p + length xs \<le> d \<Longrightarrow> has (m[d := v]) p xs"
  by (auto simp: has_def nth_list_update)

lemma cstr_Nil [simp]: "cstr m p [] \<longleftrightarrow> p < length m \<and> m ! p = 0"
  by (auto simp: cstr_def)

lemma cstr_Cons [simp]: "cstr m p (x # xs) \<longleftrightarrow> p < length m \<and> m ! p = x \<and> x \<noteq> 0 \<and> cstr m (Suc p) xs"
  by (auto simp: cstr_def)

lemma cstr_has: "cstr m p xs \<Longrightarrow> has m p xs"
  by (simp add: cstr_def has_append)

lemma cstr_length: "cstr m p xs \<Longrightarrow> p + length xs < length m"
  using has_length[of m p "xs @ [0]"] by (simp add: cstr_def)

lemma cstr_update: "cstr m p xs \<Longrightarrow> d < p \<or> p + length xs < d \<Longrightarrow> cstr (m[d := v]) p xs"
  by (auto simp: cstr_def intro: has_update)

lemma cstr_unique: "cstr m p xs \<Longrightarrow> cstr m p ys \<Longrightarrow> xs = ys"
proof (induction xs arbitrary: p ys)
  case Nil
  then show ?case by (cases ys) auto
next
  case (Cons x xs)
  then show ?case by (cases ys) auto
qed

lemma put_Nil [simp]: "put m d [] = m"
  by (simp add: put_def)

lemma put_Cons: "d < length m \<Longrightarrow> put (m[d := y]) (Suc d) ys = put m d (y # ys)"
  by (simp add: put_def take_Suc_conv_app_nth)

lemma put_length: "d + length ys \<le> length m \<Longrightarrow> length (put m d ys) = length m"
  by (simp add: put_def)

lemma put_nth_outside:
  "d + length ys \<le> length m \<Longrightarrow> i < d \<or> d + length ys \<le> i \<Longrightarrow> put m d ys ! i = m ! i"
  by (cases "i < length m") (auto simp: put_def nth_append)

lemma has_put: "d + length ys \<le> length m \<Longrightarrow> has (put m d ys) d ys"
  by (auto simp: has_def put_def nth_append)

lemma has_put_other:
  "has m p xs \<Longrightarrow> d + length ys \<le> length m \<Longrightarrow> p + length xs \<le> d \<or> d + length ys \<le> p \<Longrightarrow> has (put m d ys) p xs"
  by (auto simp: has_def put_length put_nth_outside)

lemma cstr_put_other:
  "cstr m p xs \<Longrightarrow> d + length ys \<le> length m \<Longrightarrow> p + length xs < d \<or> d + length ys \<le> p \<Longrightarrow> cstr (put m d ys) p xs"
  by (auto simp: cstr_def intro!: has_put_other)

lemma cstr_put:
  "d + length ys < length m \<Longrightarrow> 0 \<notin> set ys \<Longrightarrow> cstr (put m d (ys @ [0])) d ys"
  using has_put[of d "ys @ [0]" m] by (simp add: cstr_def)

lemma put_put_append:
  assumes "d + length ys + length zs \<le> length m"
  shows "put (put m d ys) (d + length ys) zs = put m d (ys @ zs)"
  using assms by (simp add: put_def add_ac)

lemma put_update_end:
  "d + length ys < length m \<Longrightarrow> (put m d ys)[d + length ys := v] = put m d (ys @ [v])"
  using put_put_append[of d ys "[v]" m] by (simp add: put_def list_update_append Cons_nth_drop_Suc upd_conv_take_nth_drop)

section \<open>Length and search\<close>

lemma scan_nul_cstr: "cstr m p xs \<Longrightarrow> scan_nul m p = Some (p + length xs)"
  by (induction xs arbitrary: p; subst scan_nul.simps) (auto simp: rd_def)

lemma strlen_cstr: "cstr m p xs \<Longrightarrow> strlen m p = Some (length xs)"
  by (simp add: strlen_def scan_nul_cstr)

text \<open>Conversely, \<open>strlen\<close> returns only where a terminated string is stored.\<close>

lemma scan_nul_Some: "scan_nul m p = Some q \<Longrightarrow> p \<le> q \<and> cstr m p (take (q - p) (drop p m))"
proof (induction m p rule: scan_nul.induct)
  case (1 m p)
  from 1(2) have p: "p < length m" by (subst (asm) scan_nul.simps) (auto simp: rd_Some_iff)
  show ?case
  proof (cases "m ! p = 0")
    case True
    then show ?thesis using 1(2) p by (subst (asm) scan_nul.simps) (auto simp: rd_def)
  next
    case False
    then have "scan_nul m (p + 1) = Some q"
      using 1(2) p by (subst (asm) scan_nul.simps) (simp add: rd_def)
    with 1(1)[of "m ! p"] False p have "p + 1 \<le> q" "cstr m (p + 1) (take (q - (p + 1)) (drop (p + 1) m))"
      by (auto simp: rd_def)
    moreover have "take (q - p) (drop p m) = m ! p # take (q - (p + 1)) (drop (p + 1) m)"
    proof -
      have "q - p = Suc (q - (p + 1))" using calculation(1) by simp
      then show ?thesis using p by (simp flip: Cons_nth_drop_Suc)
    qed
    ultimately show ?thesis using p False by simp
  qed
qed

lemma strlen_iff: "strlen m p = Some n \<longleftrightarrow> (\<exists>xs. cstr m p xs \<and> length xs = n)"
proof
  assume "strlen m p = Some n"
  then obtain q where q: "scan_nul m p = Some q" "n = q - p" by (auto simp: strlen_def)
  from scan_nul_Some[OF q(1)] have c: "cstr m p (take n (drop p m))" and "p \<le> q" using q(2) by auto
  moreover from scan_nul_cstr[OF c] q have "length (take n (drop p m)) = n"
    using \<open>p \<le> q\<close> by simp
  ultimately show "\<exists>xs. cstr m p xs \<and> length xs = n" by blast
qed (auto simp: strlen_cstr)

lemma strnlen_cstr: "cstr m p xs \<Longrightarrow> strnlen m p cnt = Some (min cnt (length xs))"
proof -
  have "cstr m p xs \<Longrightarrow> strnlen_loop m p cnt = Some (p + min cnt (length xs))"
  proof (induction cnt arbitrary: p xs)
    case (Suc cnt)
    then show ?case by (cases xs) (auto simp: rd_def)
  qed simp
  then show "cstr m p xs \<Longrightarrow> ?thesis" by (simp add: strnlen_def)
qed

lemma scan_set_cstr: "cstr m a cs \<Longrightarrow> scan_set m x a = Some (x \<in> set cs)"
  by (induction cs arbitrary: a; subst scan_set.simps) (auto simp: rd_def)

lemma strspn_cstr:
  assumes "cstr m p xs" "cstr m a cs"
  shows "strspn m p a = Some (length (takeWhile (\<lambda>x. x \<in> set cs) xs))"
proof -
  have "strspn_loop m p a n = Some (n + length (takeWhile (\<lambda>x. x \<in> set cs) xs))" for n
    using assms(1)
    by (induction xs arbitrary: p n; subst strspn_loop.simps) (auto simp: rd_def scan_set_cstr[OF assms(2)])
  then show ?thesis by (simp add: strspn_def)
qed

lemma strcspn_cstr:
  assumes "cstr m p xs" "cstr m a cs"
  shows "strcspn m p a = Some (length (takeWhile (\<lambda>x. x \<notin> set cs) xs))"
proof -
  have "strcspn_loop m p a n = Some (n + length (takeWhile (\<lambda>x. x \<notin> set cs) xs))" for n
    using assms(1)
    by (induction xs arbitrary: p n; subst strcspn_loop.simps) (auto simp: rd_def scan_set_cstr[OF assms(2)])
  then show ?thesis by (simp add: strcspn_def)
qed

lemma strpbrk_cstr:
  assumes "cstr m p xs" "cstr m a cs"
  shows "strpbrk m p a = Some (let t = takeWhile (\<lambda>x. x \<notin> set cs) xs in
    if length t < length xs then Some (p + length t) else None)"
  using assms(1)
  by (induction xs arbitrary: p; subst strpbrk.simps) (auto simp: rd_def scan_set_cstr[OF assms(2)] Let_def)

text \<open>The first index at which a byte occurs, and the last.\<close>

lemma strchr_cstr:
  assumes "cstr m p xs"
  shows "strchr m p c = Some (let x = word_of_int c; t = takeWhile (\<lambda>y. y \<noteq> x) (xs @ [0]) in
    if length t \<le> length xs then Some (p + length t) else None)"
  using assms unfolding strchr_def Let_def
  by (induction xs arbitrary: p; subst strchr_loop.simps) (auto simp: rd_def)

lemma strrchr_cstr:
  assumes "cstr m p xs"
  shows "strrchr m p c = Some (let x = word_of_int c in
    if x \<in> set (xs @ [0])
    then Some (p + length xs - length (takeWhile (\<lambda>y. y \<noteq> x) (rev (xs @ [0])))) else None)"
proof -
  have "has m p (ys @ [y]) \<Longrightarrow> strrchr_loop m p (p + length ys) x = Some (
      if x \<in> set (ys @ [y])
      then Some (p + length ys - length (takeWhile (\<lambda>y. y \<noteq> x) (rev (ys @ [y])))) else None)" for ys y x
  proof (induction ys arbitrary: y rule: rev_induct)
    case (snoc z ys)
    then show ?case
      by (subst strrchr_loop.simps) (auto simp: rd_def has_append)
  qed (subst strrchr_loop.simps, auto simp: rd_def)
  from this[of xs 0 "word_of_int c"] assms show ?thesis
    by (simp add: strrchr_def strlen_cstr cstr_def Let_def)
qed

lemma strnchr_cstr:
  assumes "cstr m p xs"
  shows "strnchr m p cnt c = Some (let t = takeWhile (\<lambda>y. y \<noteq> word_of_int c) (take cnt xs) in
    if length t < length (take cnt xs) then Some (p + length t) else None)"
proof -
  have "cstr m p xs \<Longrightarrow> strnchr_loop m p cnt x = Some (let t = takeWhile (\<lambda>y. y \<noteq> x) (take cnt xs) in
    if length t < length (take cnt xs) then Some (p + length t) else None)" for x
  proof (induction cnt arbitrary: p xs)
    case (Suc cnt)
    then show ?case by (cases xs) (auto simp: rd_def Let_def)
  qed simp
  with assms show ?thesis by (simp add: strnchr_def)
qed

lemma memchr_has:
  assumes "has m p xs"
  shows "memchr m p c (length xs) = Some (let t = takeWhile (\<lambda>y. y \<noteq> word_of_int c) xs in
    if length t < length xs then Some (p + length t) else None)"
  using assms unfolding memchr_def Let_def by (induction xs arbitrary: p) (auto simp: rd_def)

lemma memscan_has:
  assumes "has m p xs"
  shows "memscan m p c (length xs) = Some (p + length (takeWhile (\<lambda>y. uint y \<noteq> c) xs))"
  using assms by (induction xs arbitrary: p) (auto simp: rd_def)


section \<open>Copying\<close>

lemma memset_ok:
  "s + n \<le> length m \<Longrightarrow> memset m s c n = Some (put m s (replicate n (word_of_int c)), s)"
proof -
  have "s + n \<le> length m \<Longrightarrow> memset_loop m s x n = Some (put m s (replicate n x))" for x
    by (induction n arbitrary: m s) (auto simp: wr_def put_Cons)
  then show "s + n \<le> length m \<Longrightarrow> ?thesis" by (simp add: memset_def)
qed

text \<open>
  Copying upwards is right when the destination starts no later than the source or past its end,
  copying downwards when it starts no earlier.
\<close>

lemma copy_fwd_has:
  "has m s xs \<Longrightarrow> d + length xs \<le> length m \<Longrightarrow> d \<le> s \<or> s + length xs \<le> d \<Longrightarrow>
   copy_fwd m d s (length xs) = Some (put m d xs)"
proof (induction xs arbitrary: m d s)
  case (Cons x xs)
  then have "has (m[d := x]) (Suc s) xs" by (intro has_update) auto
  with Cons show ?case by (auto simp: rd_def wr_def put_Cons)
qed simp

lemma copy_bwd_has:
  "has m s xs \<Longrightarrow> d + length xs \<le> length m \<Longrightarrow> s \<le> d \<Longrightarrow>
   copy_bwd m (d + length xs) (s + length xs) (length xs) = Some (put m d xs)"
proof (induction xs arbitrary: m rule: rev_induct)
  case (snoc x xs)
  let ?m = "m[d + length xs := x]"
  have h: "has m s xs" "s + length xs < length m" "m ! (s + length xs) = x"
    using snoc(2) by (auto simp: has_append)
  have "has ?m s xs" using h(1) snoc(4) by (intro has_update) auto
  then have "copy_bwd ?m (d + length xs) (s + length xs) (length xs) = Some (put ?m d xs)"
    using snoc by simp
  moreover have "put ?m d xs = put m d (xs @ [x])"
    using snoc(3) by (simp add: put_def drop_update_swap[symmetric])
      (simp add: upd_conv_take_nth_drop drop_update_swap)
  ultimately show ?case using h snoc(3) by (simp add: rd_def wr_def)
qed simp

lemma memcpy_has:
  "has m s xs \<Longrightarrow> d + length xs \<le> length m \<Longrightarrow> d \<le> s \<or> s + length xs \<le> d \<Longrightarrow>
   memcpy m d s (length xs) = Some (put m d xs, d)"
  by (simp add: memcpy_def copy_fwd_has)

lemma memmove_has:
  "has m s xs \<Longrightarrow> d + length xs \<le> length m \<Longrightarrow> memmove m d s (length xs) = Some (put m d xs, d)"
  by (simp add: memmove_def copy_fwd_has copy_bwd_has)

lemma strcpy_loop_cstr:
  "cstr m s xs \<Longrightarrow> d + length xs < length m \<Longrightarrow> d \<le> s \<or> s + length xs < d \<Longrightarrow>
   strcpy_loop m d s = Some (put m d (xs @ [0]))"
proof (induction xs arbitrary: m d s)
  case Nil
  then show ?case
    using put_Cons[of d m 0 "[]"] by (subst strcpy_loop.simps) (simp add: rd_def wr_def)
next
  case (Cons x xs)
  then have "cstr (m[d := x]) (Suc s) xs" by (intro cstr_update) auto
  with Cons show ?case
    by (subst strcpy_loop.simps) (auto simp: rd_def wr_def put_Cons)
qed

lemma strcpy_cstr:
  "cstr m s xs \<Longrightarrow> d + length xs < length m \<Longrightarrow> d \<le> s \<or> s + length xs < d \<Longrightarrow>
   strcpy m d s = Some (put m d (xs @ [0]), d)"
  by (simp add: strcpy_def strcpy_loop_cstr)

lemma strncpy_cstr:
  "cstr m s xs \<Longrightarrow> d + n \<le> length m \<Longrightarrow> d + n \<le> s \<or> s + length xs < d \<Longrightarrow>
   strncpy m d s n = Some (put m d (take n xs @ replicate (n - length xs) 0), d)"
proof -
  have "cstr m s xs \<Longrightarrow> d + n \<le> length m \<Longrightarrow> d + n \<le> s \<or> s + length xs < d \<Longrightarrow>
     strncpy_loop m d s n = Some (put m d (take n xs @ replicate (n - length xs) 0))"
  proof (induction n arbitrary: m d s xs)
    case (Suc n)
    show ?case
    proof (cases xs)
      case Nil
      moreover have "cstr (m[d := 0]) s []" using Suc(2,4) Nil by (intro cstr_update) auto
      ultimately show ?thesis
        using Suc(1)[of "m[d := 0]" s "[]" "Suc d"] Suc(2-4) by (auto simp: rd_def wr_def put_Cons)
    next
      case (Cons x ys)
      have "cstr (m[d := x]) (Suc s) ys" using Suc(2,4) Cons by (intro cstr_update) auto
      then show ?thesis
        using Suc(1)[of "m[d := x]" "Suc s" ys "Suc d"] Suc(2-4) Cons by (auto simp: rd_def wr_def put_Cons)
    qed
  qed simp
  then show "cstr m s xs \<Longrightarrow> d + n \<le> length m \<Longrightarrow> d + n \<le> s \<or> s + length xs < d \<Longrightarrow> ?thesis"
    by (simp add: strncpy_def)
qed

lemma has_take: "has m p xs \<Longrightarrow> has m p (take n xs)"
  using has_append[of m p "take n xs" "drop n xs"] by simp

lemma copy_terminated:
  assumes "cstr m s xs" "d + min n (length xs) < length m" "d \<le> s \<or> s + length xs < d"
  shows "\<exists>m1. memcpy m d s (min n (length xs)) = Some (m1, d) \<and>
    wr m1 (d + min n (length xs)) 0 = Some (put m d (take n xs @ [0]))"
proof -
  have l: "length (take n xs) = min n (length xs)" by simp
  have "memcpy m d s (length (take n xs)) = Some (put m d (take n xs), d)"
    using assms by (intro memcpy_has has_take cstr_has) auto
  moreover have "wr (put m d (take n xs)) (d + length (take n xs)) 0 = Some (put m d (take n xs @ [0]))"
    using assms put_update_end[of d "take n xs" m 0] by (simp add: wr_def put_length)
  ultimately show ?thesis unfolding l by blast
qed

lemma strlcpy_cstr:
  assumes "cstr m s xs" "0 < n" "d + min (n - 1) (length xs) < length m" "d \<le> s \<or> s + length xs < d"
  shows "strlcpy m d s n = Some (put m d (take (n - 1) xs @ [0]), length xs)"
proof -
  have "(if length xs \<ge> n then n - 1 else length xs) = min (n - 1) (length xs)" using assms(2) by auto
  with copy_terminated[OF assms(1,3,4)] show ?thesis
    using assms(2) by (auto simp: strlcpy_def strlen_cstr[OF assms(1)] Let_def)
qed

lemma strcat_cstr:
  assumes "cstr m d ds" "cstr m s xs" "d + length ds + length xs < length m"
    and "d + length ds \<le> s \<or> s + length xs < d + length ds"
  shows "strcat m d s = Some (put m (d + length ds) (xs @ [0]), d)"
  using assms by (simp add: strcat_def scan_nul_cstr strcpy_loop_cstr)

lemma strncat_cstr:
  assumes "cstr m d ds" "cstr m s xs" "0 < n" "d + length ds + min n (length xs) < length m"
    and "d + length ds + min n (length xs) < s \<or> s + length xs < d + length ds"
  shows "strncat m d s n = Some (put m (d + length ds) (take n xs @ [0]), d)"
proof -
  have "cstr m s xs \<Longrightarrow> 0 < n \<Longrightarrow> d + min n (length xs) < length m \<Longrightarrow>
      d + min n (length xs) < s \<or> s + length xs < d \<Longrightarrow>
      strncat_loop m d s n = Some (put m d (take n xs @ [0]))" for d
  proof (induction xs arbitrary: m d s n)
    case Nil
    then show ?case
      using put_Cons[of d m 0 "[]"] by (subst strncat_loop.simps) (auto simp: rd_def wr_def)
  next
    case (Cons x xs)
    have c: "cstr (m[d := x]) (Suc s) xs" using Cons by (intro cstr_update) auto
    show ?case
    proof (cases "n = 1")
      case True
      then show ?thesis
        using Cons(2,4) put_Cons[of d m x "[0]"] put_Cons[of "Suc d" "m[d := x]" 0 "[]"]
        by (subst strncat_loop.simps) (auto simp: rd_def wr_def)
    next
      case False
      then obtain k where n: "n = Suc k" "0 < k" using Cons(3) by (cases n) auto
      then show ?thesis
        using Cons(1)[OF c, of k "Suc d"] Cons(2,4,5)
        by (subst strncat_loop.simps) (auto simp: rd_def wr_def put_Cons)
    qed
  qed
  with assms show ?thesis by (simp add: strncat_def scan_nul_cstr)
qed

lemma strlcat_cstr:
  assumes "cstr m d ds" "cstr m s xs" "length ds < n"
    and "d + length ds + min (n - 1 - length ds) (length xs) < length m"
    and "d + length ds \<le> s \<or> s + length xs < d + length ds"
  shows "strlcat m d s n = Some (put m (d + length ds) (take (n - 1 - length ds) xs @ [0]), length ds + length xs)"
proof -
  let ?k = "n - 1 - length ds"
  have "(if length xs \<ge> n - length ds then n - length ds - 1 else length xs) = min ?k (length xs)"
    using assms(3) by auto
  with copy_terminated[OF assms(2,4,5)] show ?thesis
    using assms(3) by (auto simp: strlcat_def strlen_cstr[OF assms(1)] strlen_cstr[OF assms(2)] Let_def)
qed

lemma strlcat_bug: "cstr m d ds \<Longrightarrow> cstr m s xs \<Longrightarrow> n \<le> length ds \<Longrightarrow> strlcat m d s n = None"
  by (simp add: strlcat_def strlen_cstr)

lemma module_cpystrn_cstr:
  assumes "cstr m s xs" "0 < n" "d + min (n - 1) (length xs) < length m"
    and "d + min (n - 1) (length xs) < s \<or> s + length xs < d"
  shows "module_cpystrn m d s n = Some (put m d (take (n - 1) xs @ [0]), d + min (n - 1) (length xs))"
proof -
  have "cstr m s xs \<Longrightarrow> d + min k (length xs) < length m \<Longrightarrow> d + min k (length xs) < s \<or> s + length xs < d \<Longrightarrow>
      module_cpystrn_loop m d s k = Some (put m d (take k xs @ [0]), d + min k (length xs))" for k
  proof (induction k arbitrary: m d s xs)
    case 0
    then show ?case using put_Cons[of d m 0 "[]"] by (simp add: wr_def)
  next
    case (Suc k)
    show ?case
    proof (cases xs)
      case Nil
      then show ?thesis using Suc(2,3) put_Cons[of d m 0 "[]"] by (simp add: rd_def wr_def)
    next
      case (Cons x ys)
      have "cstr (m[d := x]) (Suc s) ys" using Suc(2,4) Cons by (intro cstr_update) auto
      from Suc(1)[OF this, of "Suc d"] show ?thesis
        using Suc(2-4) Cons by (auto simp: rd_def wr_def put_Cons)
    qed
  qed
  from this[of "n - 1"] assms show ?thesis by (simp add: module_cpystrn_def)
qed


section \<open>Comparison\<close>

text \<open>The bytes in which two strings first differ, the terminator included.\<close>

fun first_diff :: "byte list \<Rightarrow> byte list \<Rightarrow> byte \<times> byte" where
  "first_diff (x # xs) (y # ys) = (if x = y then first_diff xs ys else (x, y))"
| "first_diff [] (y # ys) = (0, y)"
| "first_diff (x # xs) [] = (x, 0)"
| "first_diff [] [] = (0, 0)"

lemma first_diff_eq:
  "0 \<notin> set xs \<Longrightarrow> 0 \<notin> set ys \<Longrightarrow> fst (first_diff xs ys) = snd (first_diff xs ys) \<longleftrightarrow> xs = ys"
  by (induction xs ys rule: first_diff.induct) auto

lemma first_diff_less:
  "0 \<notin> set xs \<Longrightarrow> 0 \<notin> set ys \<Longrightarrow> fst (first_diff xs ys) < snd (first_diff xs ys) \<longleftrightarrow> ord_class.lexordp xs ys"
  by (induction xs ys rule: first_diff.induct) (auto simp: word_gt_0)

lemma first_diff_bound:
  "\<forall>x \<in> set xs. x < 128 \<Longrightarrow> \<forall>y \<in> set ys. y < 128 \<Longrightarrow> fst (first_diff xs ys) < 128 \<and> snd (first_diff xs ys) < 128"
  by (induction xs ys rule: first_diff.induct) auto

lemma strcmp_cstr:
  assumes "cstr m p xs" "cstr m q ys"
  shows "strcmp m p q = Some (sint (fst (first_diff xs ys) - snd (first_diff xs ys)))"
proof -
  have "cstr m p xs \<Longrightarrow> cstr m q ys \<Longrightarrow> strcmp_loop m p q = Some (fst (first_diff xs ys) - snd (first_diff xs ys))"
    by (induction xs ys arbitrary: p q rule: first_diff.induct; subst strcmp_loop.simps) (auto simp: rd_def)
  with assms show ?thesis by (simp add: strcmp_def)
qed

lemma strncmp_cstr:
  assumes "cstr m p xs" "cstr m q ys"
  shows "strncmp m p q n = Some (sint (fst (first_diff (take n xs) (take n ys)) - snd (first_diff (take n xs) (take n ys))))"
proof -
  have "cstr m p xs \<Longrightarrow> cstr m q ys \<Longrightarrow>
    strncmp_loop m p q n 0 = Some (fst (first_diff (take n xs) (take n ys)) - snd (first_diff (take n xs) (take n ys)))"
  proof (induction n arbitrary: p q xs ys)
    case (Suc n)
    then show ?case by (cases xs; cases ys) (auto simp: rd_def)
  qed simp
  with assms show ?thesis by (simp add: strncmp_def)
qed

lemma strnicmp_zero:
  assumes "cstr m p xs" "cstr m q ys"
  shows "\<exists>r. strnicmp tolower m p q n = Some r \<and>
    (r = 0 \<longleftrightarrow> map tolower (take n xs) = map tolower (take n ys))"
proof (cases "n = 0")
  case False
  have "cstr m p xs \<Longrightarrow> cstr m q ys \<Longrightarrow> \<exists>c1 c2. strnicmp_loop tolower m p q (Suc k) = Some (c1, c2) \<and>
      (c1 = c2 \<longleftrightarrow> map tolower (take (Suc k) xs) = map tolower (take (Suc k) ys))" for k
  proof (induction k arbitrary: p q xs ys)
    case 0
    then show ?case
      by (subst strnicmp_loop.simps) (cases xs; cases ys; auto simp: rd_def)
  next
    case (Suc k)
    show ?case
    proof (cases "xs = [] \<or> ys = []")
      case True
      with Suc show ?thesis
        by (subst strnicmp_loop.simps) (cases xs; cases ys; auto simp: rd_def)
    next
      case False
      then obtain x xs' y ys' where "xs = x # xs'" "ys = y # ys'" by (meson neq_Nil_conv)
      with Suc(2,3) Suc(1)[of "Suc p" xs' "Suc q" ys'] show ?thesis
        by (subst strnicmp_loop.simps) (auto simp: rd_def)
    qed
  qed
  from this[of "n - 1"] assms False obtain c1 c2 where
    "strnicmp_loop tolower m p q n = Some (c1, c2)" "c1 = c2 \<longleftrightarrow> map tolower (take n xs) = map tolower (take n ys)"
    by auto
  with False show ?thesis by (simp add: strnicmp_def flip: word_uint_eq_iff)
qed (simp add: strnicmp_def)

lemma memcmp_has:
  assumes "has m p xs" "has m q ys" "length xs = length ys"
  shows "memcmp m p q (length xs) = Some (uint (fst (first_diff xs ys)) - uint (snd (first_diff xs ys)))"
  using assms(3,1,2) unfolding memcmp_def
proof (induction xs ys arbitrary: p q rule: list_induct2)
  case (Cons x xs y ys)
  then show ?case by (auto simp: rd_def Let_def simp flip: word_uint_eq_iff)
qed simp

lemma first_diff_same_length:
  "length xs = length ys \<Longrightarrow> fst (first_diff xs ys) = snd (first_diff xs ys) \<longleftrightarrow> xs = ys"
  by (induction xs ys rule: list_induct2) auto

lemma memcmp_zero:
  assumes "has m p xs" "has m q ys" "length xs = length ys"
  shows "memcmp m p q (length xs) = Some 0 \<longleftrightarrow> xs = ys"
  using first_diff_same_length[OF assms(3)] by (simp add: memcmp_has[OF assms] word_uint_eq_iff)

lemma module_rstrncmp_has:
  assumes "has m p xs" "has m q ys" "length xs = length ys"
  shows "module_rstrncmp m p q (length xs) =
    Some (uint (fst (first_diff (rev xs) (rev ys))) - uint (snd (first_diff (rev xs) (rev ys))))"
proof (cases xs rule: rev_exhaust)
  case Nil
  then show ?thesis using assms by (simp add: module_rstrncmp_def)
next
  case (snoc us u)
  then obtain vs v where vs: "ys = vs @ [v]" "length us = length vs"
    using assms(3) by (cases ys rule: rev_exhaust) auto
  have "length us = length vs \<Longrightarrow> has m p (us @ [u]) \<Longrightarrow> has m q (vs @ [v]) \<Longrightarrow>
    module_rstrncmp_loop m p q (length us) =
      Some (uint (fst (first_diff (rev (us @ [u])) (rev (vs @ [v])))) - uint (snd (first_diff (rev (us @ [u])) (rev (vs @ [v])))))"
  proof (induction us arbitrary: vs u v rule: rev_induct)
    case Nil
    then show ?case by (subst module_rstrncmp_loop.simps) (auto simp: rd_def)
  next
    case (snoc w us)
    obtain vs' v' where "vs = vs' @ [v']" "length us = length vs'"
      using snoc(2) by (cases vs rule: rev_exhaust) auto
    with snoc(1)[of vs' w v'] snoc(3,4) show ?case
      by (subst module_rstrncmp_loop.simps) (auto simp: rd_def has_append)
  qed
  with vs snoc assms show ?thesis by (simp add: module_rstrncmp_def)
qed

section \<open>Substrings and tokens\<close>

lemma int_of_size_small: "n < 2 ^ 31 \<Longrightarrow> int_of_size n = int n"
  by (simp add: int_of_size_def signed_of_nat signed_take_bit_int_eq_self)

lemma size_of_int_small: "n < 2 ^ 31 \<Longrightarrow> size_of_int (int n) = n"
  by (simp add: size_of_int_def)

lemma strstr_loop_cstr:
  "cstr m p xs \<Longrightarrow> has m q ys \<Longrightarrow> ys \<noteq> [] \<Longrightarrow> length ys < 2 ^ 31 \<Longrightarrow>
   \<exists>r. strstr_loop m p q (int (length xs)) (int (length ys)) = Some r \<and>
     (case r of None \<Rightarrow> \<forall>i. take (length ys) (drop i xs) \<noteq> ys
      | Some a \<Rightarrow> \<exists>i. a = p + i \<and> i \<le> length xs \<and> take (length ys) (drop i xs) = ys \<and>
                    (\<forall>j<i. take (length ys) (drop j xs) \<noteq> ys))"
proof (induction xs arbitrary: p)
  case Nil
  then show ?case by (subst strstr_loop.simps) auto
next
  case (Cons x xs)
  show ?case
  proof (cases "length ys \<le> length (x # xs)")
    case False
    then have "take (length ys) (drop i (x # xs)) \<noteq> ys" for i
      by (metis diff_le_self length_drop length_take min.cobounded1 order_trans)
    with False show ?thesis by (subst strstr_loop.simps) auto
  next
    case True
    let ?pre = "take (length ys) (x # xs)"
    have lp: "length ?pre = length ys" using True by simp
    have "has m p ?pre" using Cons(2) by (intro has_take cstr_has)
    from memcmp_has[OF this Cons(3) lp] memcmp_zero[OF this Cons(3) lp]
    obtain v where v: "memcmp m p q (length ys) = Some v" "v = 0 \<longleftrightarrow> ?pre = ys" unfolding lp by auto
    obtain r where r: "strstr_loop m (Suc p) q (int (length xs)) (int (length ys)) = Some r"
      "case r of None \<Rightarrow> \<forall>i. take (length ys) (drop i xs) \<noteq> ys
       | Some a \<Rightarrow> \<exists>i. a = Suc p + i \<and> i \<le> length xs \<and> take (length ys) (drop i xs) = ys \<and>
                     (\<forall>j<i. take (length ys) (drop j xs) \<noteq> ys)"
      using Cons(1)[of "Suc p"] Cons(2-5) by auto
    have step: "strstr_loop m p q (int (length (x # xs))) (int (length ys)) = Some (if v = 0 then Some p else r)"
      using True v(1) r(1) Cons(5) by (subst strstr_loop.simps) (simp add: size_of_int_small)
    show ?thesis
    proof (cases "v = 0")
      case True
      then show ?thesis using step v(2) by (auto intro!: exI[of _ 0])
    next
      case False
      then have nz: "?pre \<noteq> ys" using v(2) by simp
      show ?thesis
      proof (cases r)
        case None
        then have "take (length ys) (drop i (x # xs)) \<noteq> ys" for i
          using r(2) nz by (cases i) auto
        with False step None show ?thesis by auto
      next
        case (Some a)
        then obtain i where i: "a = Suc p + i" "i \<le> length xs" "take (length ys) (drop i xs) = ys"
          "\<forall>j<i. take (length ys) (drop j xs) \<noteq> ys" using r(2) by auto
        have "take (length ys) (drop j (x # xs)) \<noteq> ys" if "j < Suc i" for j
          using that i(4) nz by (cases j) auto
        with False step Some i show ?thesis by (auto intro!: exI[of _ "Suc i"])
      qed
    qed
  qed
qed

lemma cstr_split:
  assumes "cstr m p (us @ c # vs)"
  shows "cstr (m[p + length us := 0]) p us" and "cstr (m[p + length us := 0]) (p + length us + 1) vs"
proof -
  have h: "has m p us" "p + length us < length m" "cstr m (p + length us + 1) vs" "0 \<notin> set us"
    using assms by (auto simp: cstr_def has_append)
  show "cstr (m[p + length us := 0]) p us"
    using has_update[OF h(1), of "p + length us" 0] h(2,4) by (simp add: cstr_def has_append)
  show "cstr (m[p + length us := 0]) (p + length us + 1) vs"
    using h(3) by (intro cstr_update) auto
qed

lemma strsep_cstr:
  assumes "cstr m p xs" "cstr m q cs" "p + length xs < q \<or> q + length cs < p"
  defines "tok \<equiv> takeWhile (\<lambda>x. x \<notin> set cs) xs"
  shows "tok = xs \<Longrightarrow> strsep m (Some p) q = Some (m, None, Some p)"
    and "tok \<noteq> xs \<Longrightarrow> \<exists>m'. strsep m (Some p) q = Some (m', Some (p + length tok + 1), Some p) \<and>
      m' = m[p + length tok := 0] \<and> cstr m' p tok \<and> cstr m' (p + length tok + 1) (drop (length tok + 1) xs) \<and>
      cstr m' q cs"
proof -
  note pb = strpbrk_cstr[OF assms(1,2), folded tok_def]
  show "strsep m (Some p) q = Some (m, None, Some p)" if "tok = xs"
    using that pb by (simp add: strsep_def)
  assume "tok \<noteq> xs"
  then obtain c vs where xs: "xs = tok @ c # vs"
    unfolding tok_def by (metis takeWhile_dropWhile_id append_Nil2 neq_Nil_conv)
  then have "length xs = length tok + Suc (length vs)" by (metis length_append length_Cons)
  then have len: "length tok < length xs" "p + length tok < length m"
    using cstr_length[OF assms(1)] by auto
  have "strsep m (Some p) q = Some (m[p + length tok := 0], Some (p + length tok + 1), Some p)"
    using pb len by (simp add: strsep_def Let_def wr_def)
  moreover have "cstr (m[p + length tok := 0]) q cs"
    using assms(2,3) len by (intro cstr_update) auto
  moreover have "drop (length tok + 1) xs = vs" by (subst xs) simp
  ultimately show "\<exists>m'. strsep m (Some p) q = Some (m', Some (p + length tok + 1), Some p) \<and>
      m' = m[p + length tok := 0] \<and> cstr m' p tok \<and> cstr m' (p + length tok + 1) (drop (length tok + 1) xs) \<and>
      cstr m' q cs"
    using cstr_split[of m p tok c vs] assms(1) xs by auto
qed


lemma sint_diff_ascii:
  fixes x y :: byte
  assumes "x < 128" "y < 128"
  shows "sint (x - y) = uint x - uint y"
proof -
  have b: "uint x < 128" "uint y < 128" using assms by (simp_all add: word_less_def)
  have "0 \<le> uint x" "0 \<le> uint y" by simp_all
  with b have "- 128 \<le> uint x - uint y" "uint x - uint y < 128" by linarith+
  moreover have "x - y = word_of_int (uint x - uint y)" by simp
  ultimately show ?thesis
    by (simp only: signed_of_int) (simp add: signed_take_bit_int_eq_self)
qed

section \<open>Properties\<close>

text \<open>
  C36: \<open>memmove\<close> copies \<open>n\<close> bytes correctly whatever the overlap of the two areas: afterwards the
  destination holds the bytes the source held before the call, and every other byte is as it was.
\<close>
theorem memmove_overlap:
  assumes "src + n \<le> length m" "dest + n \<le> length m"
  shows "memmove m dest src n = Some (take dest m @ take n (drop src m) @ drop (dest + n) m, dest)"
  using memmove_has[of m src "take n (drop src m)" dest] assms
  by (simp add: has_conv put_def min_absorb2)

text \<open>Witness: a move by one inside four bytes, upwards.\<close>
theorem memmove_overlap_witness:
  "(0::nat) + 3 \<le> length [1, 2, 3, 4 :: byte] \<and>
   memmove [1, 2, 3, 4] 1 0 3 = Some ([1, 1, 2, 3], 1)"
  using memmove_overlap[of 0 3 "[1, 2, 3, 4]" 1] by (simp add: numeral_3_eq_3)

text \<open>
  \<open>strcat\<close> of two strings in areas that do not overlap, where the destination has room,
  stores the concatenation at the destination, changes no byte outside it, keeps the source and
  returns the destination.
\<close>
theorem strcat_appends:
  assumes "cstr m d ds" "cstr m s xs" "d + length ds + length xs < length m"
    and "d + length ds + length xs < s \<or> s + length xs < d"
  shows "\<exists>m'. strcat m d s = Some (m', d) \<and> cstr m' d (ds @ xs) \<and> cstr m' s xs \<and> length m' = length m \<and>
    (\<forall>i. i < d + length ds \<or> d + length ds + length xs < i \<longrightarrow> m' ! i = m ! i)"
proof -
  let ?m = "put m (d + length ds) (xs @ [0])"
  have run: "strcat m d s = Some (?m, d)" using assms by (intro strcat_cstr) auto
  have xs: "0 \<notin> set xs" and ds: "0 \<notin> set ds" using assms by (simp_all add: cstr_def)
  have "cstr ?m (d + length ds) xs" using assms(3) xs by (intro cstr_put) auto
  moreover have "has ?m d ds" using assms by (intro has_put_other cstr_has) auto
  ultimately have "cstr ?m d (ds @ xs)" using xs ds by (auto simp: cstr_def has_append)
  moreover have "cstr ?m s xs" using assms by (intro cstr_put_other) auto
  ultimately show ?thesis
    using run assms(3) put_nth_outside[of "d + length ds" "xs @ [0]" m] by (auto simp: put_length)
qed

text \<open>Witness: \<open>"ab"\<close> and \<open>"c"\<close>.\<close>
theorem strcat_appends_witness:
  "cstr [97, 98, 0, 7, 99, 0] 0 [97, 98] \<and> cstr [97, 98, 0, 7, 99, 0] 4 [99] \<and>
   (\<exists>m'. strcat [97, 98, 0, 7, 99, 0] 0 4 = Some (m', 0) \<and> cstr m' 0 [97, 98, 99])"
  using strcat_appends[of "[97, 98, 0, 7, 99, 0]" 0 "[97, 98]" 4 "[99]"] by auto

text \<open>
  C39: \<open>strlcpy\<close> with a non-zero size always leaves a terminated string in the destination, the
  longest prefix of the source that fits, touches no byte outside the given size, and returns
  the length of the source, so that a return value of at least the size tells of a truncation.
\<close>
theorem strlcpy_bounded:
  assumes "cstr m s xs" "0 < n" "d + n \<le> length m" "d + n \<le> s \<or> s + length xs < d"
  shows "\<exists>m'. strlcpy m d s n = Some (m', length xs) \<and> cstr m' d (take (n - 1) xs) \<and> length m' = length m \<and>
    (\<forall>i. i < d \<or> d + n \<le> i \<longrightarrow> m' ! i = m ! i)"
proof -
  let ?ys = "take (n - 1) xs @ [0]"
  have l: "d + length ?ys \<le> d + n" using assms(2) by auto
  have run: "strlcpy m d s n = Some (put m d ?ys, length xs)"
    using assms by (intro strlcpy_cstr) auto
  moreover have "cstr (put m d ?ys) d (take (n - 1) xs)"
    using assms by (intro cstr_put) (auto simp: cstr_def dest: in_set_takeD)
  moreover have "put m d ?ys ! i = m ! i" if "i < d \<or> d + n \<le> i" for i
    using that l assms(3) by (intro put_nth_outside) auto
  moreover have "length (put m d ?ys) = length m" using l assms(3) by (intro put_length) auto
  ultimately show ?thesis by blast
qed

text \<open>Witness: \<open>"abc"\<close> into two bytes.\<close>
theorem strlcpy_bounded_witness:
  "cstr [9, 9, 97, 98, 99, 0] 2 [97, 98, 99] \<and>
   (\<exists>m'. strlcpy [9, 9, 97, 98, 99, 0] 0 2 2 = Some (m', 3) \<and> cstr m' 0 [97])"
  using strlcpy_bounded[of "[9, 9, 97, 98, 99, 0]" 2 "[97, 98, 99]" 2 0] by auto

text \<open>
  \<open>strlcat\<close> with the size of the destination buffer appends the longest prefix of the source
  that fits, stays inside the buffer and keeps it terminated, and returns the length the whole
  concatenation would have; where the destination string already fills the given size its
  \<open>BUG_ON\<close> stops it.
\<close>
theorem strlcat_bounded:
  assumes "cstr m d ds" "cstr m s xs" "d + n \<le> length m" "d + n \<le> s \<or> s + length xs < d"
  shows "if length ds < n
    then \<exists>m'. strlcat m d s n = Some (m', length ds + length xs) \<and> cstr m' d (take (n - 1) (ds @ xs)) \<and>
      length m' = length m \<and> (\<forall>i. i < d \<or> d + n \<le> i \<longrightarrow> m' ! i = m ! i)
    else strlcat m d s n = None"
proof (cases "length ds < n")
  case False
  then show ?thesis using strlcat_bug[OF assms(1,2), of n] by simp
next
  case True
  let ?p = "d + length ds" and ?k = "n - 1 - length ds"
  let ?m = "put m ?p (take ?k xs @ [0])"
  have l: "?p + length (take ?k xs @ [0]) \<le> d + n" using True by auto
  have run: "strlcat m d s n = Some (?m, length ds + length xs)"
    using assms True by (intro strlcat_cstr) auto
  have zs: "0 \<notin> set ds" "0 \<notin> set (take ?k xs)" using assms by (auto simp: cstr_def dest: in_set_takeD)
  have "cstr ?m ?p (take ?k xs)" using assms(3) True zs by (intro cstr_put) auto
  moreover have "has ?m d ds" using assms l by (intro has_put_other cstr_has) auto
  ultimately have "cstr ?m d (ds @ take ?k xs)" using zs by (auto simp: cstr_def has_append)
  moreover have "take (n - 1) (ds @ xs) = ds @ take ?k xs" using True by simp
  moreover have "?m ! i = m ! i" if "i < d \<or> d + n \<le> i" for i
    using that l assms(3) by (intro put_nth_outside) auto
  moreover have "length ?m = length m" using l assms(3) by (intro put_length) auto
  ultimately show ?thesis using run True by auto
qed

text \<open>Witness: \<open>"a"\<close> and \<open>"bcd"\<close> in a buffer of three bytes.\<close>
theorem strlcat_bounded_witness:
  "cstr [97, 0, 9, 98, 99, 100, 0] 0 [97] \<and> cstr [97, 0, 9, 98, 99, 100, 0] 3 [98, 99, 100] \<and>
   (\<exists>m'. strlcat [97, 0, 9, 98, 99, 100, 0] 0 3 3 = Some (m', 4) \<and> cstr m' 0 [97, 98])"
  using strlcat_bounded[of "[97, 0, 9, 98, 99, 100, 0]" 0 "[97]" 3 "[98, 99, 100]" 3] by auto

text \<open>
  \<open>strcmp\<close> of two terminated strings returns zero exactly when they are equal, and for strings
  of 7-bit characters it returns a negative number exactly when the first precedes the second in
  lexicographic order.
\<close>
theorem strcmp_orders:
  assumes "cstr m p xs" "cstr m q ys"
  shows "\<exists>r. strcmp m p q = Some r \<and> (r = 0 \<longleftrightarrow> xs = ys) \<and>
    ((\<forall>c \<in> set xs \<union> set ys. c < 128) \<longrightarrow> (r < 0 \<longleftrightarrow> ord_class.lexordp xs ys))"
proof -
  have nz: "0 \<notin> set xs" "0 \<notin> set ys" using assms by (auto simp: cstr_def)
  let ?a = "fst (first_diff xs ys)" and ?b = "snd (first_diff xs ys)"
  have "sint (?a - ?b) = 0 \<longleftrightarrow> xs = ys"
    using first_diff_eq[OF nz] by (simp add: signed_eq_0_iff)
  moreover have "sint (?a - ?b) < 0 \<longleftrightarrow> ord_class.lexordp xs ys" if "\<forall>c \<in> set xs \<union> set ys. c < 128"
    using first_diff_bound[of xs ys] that sint_diff_ascii[of ?a ?b] first_diff_less[OF nz]
    by (simp add: word_less_def)
  ultimately show ?thesis using strcmp_cstr[OF assms] by blast
qed

text \<open>Witness: \<open>"ab"\<close> and \<open>"b"\<close>.\<close>
theorem strcmp_orders_witness:
  "cstr [97, 98, 0, 98, 0] 0 [97, 98] \<and> (\<exists>r. strcmp [97, 98, 0, 98, 0] 0 3 = Some r \<and> r < 0)"
  using strcmp_orders[of "[97, 98, 0, 98, 0]" 0 "[97, 98]" 3 "[98]"] by auto

text \<open>
  The difference is kept in a \<open>signed char\<close>: for the strings \<open>"\x01"\<close> and \<open>"\xc8"\<close>, the first
  of which precedes the second, \<open>strcmp\<close> returns the positive number 57.
\<close>
theorem strcmp_sign_wrong:
  "strcmp [1, 0, 200, 0] 0 2 = Some 57 \<and> ord_class.lexordp [1] [200 :: byte]"
  by (simp add: strcmp_def strcmp_loop.simps rd_def)

text \<open>
  C37: \<open>strstr\<close> of two terminated strings shorter than \<open>2\<^sup>3\<^sup>1\<close> returns the address of the first
  occurrence of the second in the first, and \<open>NULL\<close> exactly when there is none.
\<close>
theorem strstr_first_occurrence:
  assumes "cstr m p xs" "cstr m q ys" "length xs < 2 ^ 31" "length ys < 2 ^ 31"
  shows "\<exists>r. strstr m p q = Some r \<and>
    (case r of None \<Rightarrow> \<forall>i. take (length ys) (drop i xs) \<noteq> ys
     | Some a \<Rightarrow> \<exists>i. a = p + i \<and> i \<le> length xs \<and> take (length ys) (drop i xs) = ys \<and>
                   (\<forall>j<i. take (length ys) (drop j xs) \<noteq> ys))"
proof (cases "ys = []")
  case True
  then have "strstr m p q = Some (Some p)"
    using strlen_cstr[OF assms(2)] by (simp add: strstr_def int_of_size_small Let_def)
  with True show ?thesis by auto
next
  case False
  then have "strstr m p q = strstr_loop m p q (int (length xs)) (int (length ys))"
    using assms(3,4) by (simp add: strstr_def strlen_cstr[OF assms(1)] strlen_cstr[OF assms(2)] int_of_size_small Let_def)
  with strstr_loop_cstr[OF assms(1) cstr_has[OF assms(2)] False assms(4)] show ?thesis by simp
qed

text \<open>Witness: \<open>"b"\<close> in \<open>"ab"\<close>.\<close>
theorem strstr_first_occurrence_witness:
  "cstr [97, 98, 0, 98, 0] 0 [97, 98] \<and> cstr [97, 98, 0, 98, 0] 3 [98] \<and>
   strstr [97, 98, 0, 98, 0] 0 3 = Some (Some 1)"
proof -
  let ?m = "[97, 98, 0, 98, 0] :: mem"
  have c: "cstr ?m 0 [97, 98]" "cstr ?m 3 [98]" by simp_all
  from strstr_first_occurrence[OF c] obtain r where r: "strstr ?m 0 3 = Some r"
    "case r of None \<Rightarrow> \<forall>i. take (length [98 :: byte]) (drop i [97, 98 :: byte]) \<noteq> [98]
     | Some a \<Rightarrow> \<exists>i. a = 0 + i \<and> i \<le> length [97, 98 :: byte] \<and>
         take (length [98 :: byte]) (drop i [97, 98 :: byte]) = [98] \<and>
         (\<forall>j<i. take (length [98 :: byte]) (drop j [97, 98 :: byte]) \<noteq> [98])" by auto
  have at1: "take (length [98 :: byte]) (drop 1 [97, 98 :: byte]) = [98]" by simp
  show ?thesis
  proof (cases r)
    case None
    then have "\<forall>i. take (length [98 :: byte]) (drop i [97, 98 :: byte]) \<noteq> [98]" using r(2) by simp
    then have "take (length [98 :: byte]) (drop 1 [97, 98 :: byte]) \<noteq> [98]" ..
    with at1 show ?thesis by contradiction
  next
    case (Some i)
    then have "i \<le> 2" "take 1 (drop i [97, 98 :: byte]) = [98]" using r(2) by auto
    then have "i = 1" by (cases i rule: nat.exhaust; cases "i - 1") auto
    with Some r(1) c show ?thesis by simp
  qed
qed

text \<open>
  C38: One call of \<open>strsep\<close> cuts the string at its first separator: the token is the longest prefix
  without a separator, terminated in place, the saved pointer points at the rest of the string
  after the separator, and the separators stay intact; without a separator the token is the whole
  string and the saved pointer becomes \<open>NULL\<close>. A call with a \<open>NULL\<close> pointer returns \<open>NULL\<close>.
\<close>
theorem strsep_token:
  assumes "cstr m p xs" "cstr m q cs" "p + length xs < q \<or> q + length cs < p"
  defines "tok \<equiv> takeWhile (\<lambda>x. x \<notin> set cs) xs"
  shows "strsep m None q = Some (m, None, None) \<and>
    (if tok = xs then strsep m (Some p) q = Some (m, None, Some p)
     else \<exists>m'. strsep m (Some p) q = Some (m', Some (p + length tok + 1), Some p) \<and>
       m' = m[p + length tok := 0] \<and> cstr m' p tok \<and> cstr m' (p + length tok + 1) (drop (length tok + 1) xs) \<and>
       cstr m' q cs)"
  using strsep_cstr[OF assms(1-3)] unfolding tok_def by (auto simp: strsep_def)

text \<open>Witness: \<open>"a,b"\<close> cut at the comma.\<close>
theorem strsep_token_witness:
  "cstr [97, 44, 98, 0, 44, 0] 0 [97, 44, 98] \<and> cstr [97, 44, 98, 0, 44, 0] 4 [44] \<and>
   (\<exists>m'. strsep [97, 44, 98, 0, 44, 0] (Some 0) 4 = Some (m', Some 2, Some 0) \<and>
     cstr m' 0 [97] \<and> cstr m' 2 [98])"
  using strsep_token[of "[97, 44, 98, 0, 44, 0]" 0 "[97, 44, 98]" 4 "[44]"] by auto

end
