(* ===== verification/Pool.thy ===== *)
theory Pool
  imports Klist
begin

text \<open>
  \<open>pool/policy.c\<close> and \<open>pool/pool.c\<close>: a memory pool carves aligned pieces out of blocks it gets
  from the policy of its factory, whose default is \<open>malloc\<close> with the factory's two accounting
  hooks.

  The state has one typed memory per structure: the list heads (of theory Klist), the blocks and
  the pools, each a partial map from addresses, together with the chunks \<open>malloc\<close> handed out.
  \<open>malloc\<close> makes the addresses of its chunk usable and \<open>free\<close> makes them unusable again, so an
  access to freed memory, or to memory that was never allocated, is the fault \<^const>\<open>None\<close>; so are
  a \<open>free\<close> of an address that is not the start of a chunk, a call through a null function
  pointer and an assertion that fails. Which address \<open>malloc\<close> returns comes from the list
  \<open>mallocs\<close> of the state; an entry that breaks the contract of \<open>malloc\<close> (null, not aligned, or
  overlapping a chunk in use) stands for a failure. Sizes and addresses are 64-bit words.
  Offsets and sizes of the structures are those of the LP64 ABI. Logging is left out.

  The scalar fields of the caching pool that owns the pools (\<open>pool/caching.c\<close>) are part of the
  state, because the hooks of the policy update them.
\<close>

section \<open>Structures\<close>

text \<open>\<open>struct mdl_pool_block_s\<close> without its list node, which is the list head at its address.\<close>

record pool_block =
  start_f :: addr
  current_f :: addr
  end_f :: addr

text \<open>
  \<open>struct mdl_pool_s\<close> without its list heads: \<open>pool_node_list\<close> is the list head at the address of
  the pool, \<open>block_head_list\<close> the one 80 bytes further.
\<close>

record mdl_pool =
  name_f :: "byte list"
  capacity_f :: size_t
  increment_size_f :: size_t
  factory_f :: addr
  data_factory_f :: "64 word"
  callback_f :: addr

record pool_state =
  heads :: lheap
  blocks :: "addr \<Rightarrow> pool_block option"
  pools :: "addr \<Rightarrow> mdl_pool option"
  live :: "(addr \<times> size_t) list"
  mallocs :: "addr list"
  callbacks :: "(addr \<times> addr \<times> size_t) list"
  cp_capacity :: size_t
  cp_max_capacity :: size_t
  cp_used_count :: size_t
  cp_used_size :: size_t
  cp_peak_used_size :: size_t
  cp_lock :: bool

definition sizeof_pool :: size_t where "sizeof_pool = 104"
definition sizeof_block :: size_t where "sizeof_block = 40"
definition POOL_ALIGNMENT :: size_t where "POOL_ALIGNMENT = 4"

definition block_head_list :: "addr \<Rightarrow> addr" where
  "block_head_list pool = pool + 80"

definition zero_pool :: mdl_pool where
  "zero_pool = \<lparr>name_f = replicate 32 0, capacity_f = 0, increment_size_f = 0, factory_f = 0,
     data_factory_f = 0, callback_f = 0\<rparr>"

section \<open>Access\<close>

definition on_heads :: "(lheap \<Rightarrow> lheap option) \<Rightarrow> pool_state \<Rightarrow> pool_state option" where
  "on_heads f s = map_option (\<lambda>h. s\<lparr>heads := h\<rparr>) (f (heads s))"

definition set_block :: "addr \<Rightarrow> pool_block \<Rightarrow> pool_state \<Rightarrow> pool_state option" where
  "set_block b k s = (if blocks s b = None then None else Some (s\<lparr>blocks := (blocks s)(b \<mapsto> k)\<rparr>))"

definition set_pool :: "addr \<Rightarrow> mdl_pool \<Rightarrow> pool_state \<Rightarrow> pool_state option" where
  "set_pool p v s = (if pools s p = None then None else Some (s\<lparr>pools := (pools s)(p \<mapsto> v)\<rparr>))"

definition run_callback :: "addr \<Rightarrow> size_t \<Rightarrow> pool_state \<Rightarrow> pool_state option" where
  "run_callback pool sz s = do {
     P \<leftarrow> pools s pool;
     _ \<leftarrow> guard_opt (callback_f P \<noteq> NULL);
     Some (s\<lparr>callbacks := callbacks s @ [(callback_f P, pool, sz)]\<rparr>) }"

section \<open>malloc and free\<close>

definition disjoint_chunks :: "addr \<Rightarrow> size_t \<Rightarrow> addr \<times> size_t \<Rightarrow> bool" where
  "disjoint_chunks p sz c \<longleftrightarrow>
     unat p + unat sz \<le> unat (fst c) \<or> unat (fst c) + unat (snd c) \<le> unat p"

definition malloc_ok :: "addr \<Rightarrow> size_t \<Rightarrow> pool_state \<Rightarrow> bool" where
  "malloc_ok p sz s \<longleftrightarrow> p \<noteq> NULL \<and> p AND 15 = 0 \<and> unat p + unat sz < 2 ^ 64 \<and>
     list_all (disjoint_chunks p sz) (live s)"

definition within :: "addr \<Rightarrow> size_t \<Rightarrow> nat \<Rightarrow> addr \<Rightarrow> bool" where
  "within p sz n a \<longleftrightarrow> unat p \<le> unat a \<and> unat a + n \<le> unat p + unat sz"

definition map_chunk :: "addr \<Rightarrow> size_t \<Rightarrow> pool_state \<Rightarrow> pool_state" where
  "map_chunk p sz s = s\<lparr>
     heads := (\<lambda>a. if within p sz 16 a then Some \<lparr>next_f = NULL, prev_f = NULL\<rparr> else heads s a),
     blocks := (\<lambda>a. if within p sz 40 a then Some \<lparr>start_f = NULL, current_f = NULL, end_f = NULL\<rparr> else blocks s a),
     pools := (\<lambda>a. if within p sz 104 a then Some zero_pool else pools s a),
     live := (p, sz) # live s\<rparr>"

definition unmap_chunk :: "addr \<Rightarrow> size_t \<Rightarrow> pool_state \<Rightarrow> pool_state" where
  "unmap_chunk p sz s = s\<lparr>
     heads := (\<lambda>a. if within p sz 1 a then None else heads s a),
     blocks := (\<lambda>a. if within p sz 1 a then None else blocks s a),
     pools := (\<lambda>a. if within p sz 1 a then None else pools s a),
     live := filter (\<lambda>c. fst c \<noteq> p) (live s)\<rparr>"

definition c_malloc :: "size_t \<Rightarrow> pool_state \<Rightarrow> addr \<times> pool_state" where
  "c_malloc sz s = (case mallocs s of
     [] \<Rightarrow> (NULL, s)
   | p # ps \<Rightarrow> (let s' = s\<lparr>mallocs := ps\<rparr> in
       if malloc_ok p sz s then (p, map_chunk p sz s') else (NULL, s')))"

definition c_free :: "addr \<Rightarrow> pool_state \<Rightarrow> pool_state option" where
  "c_free p s = (if p = NULL then Some s
     else case map_of (live s) p of None \<Rightarrow> None | Some sz \<Rightarrow> Some (unmap_chunk p sz s))"

section \<open>The policy\<close>

text \<open>The hooks of a factory, either of which may be null.\<close>

record factory_hooks =
  on_block_alloc_f :: "(size_t \<Rightarrow> pool_state \<Rightarrow> bool \<times> pool_state) option"
  on_block_free_f :: "(size_t \<Rightarrow> pool_state \<Rightarrow> pool_state) option"

record factory_policy =
  block_alloc_f :: "factory_hooks \<Rightarrow> size_t \<Rightarrow> pool_state \<Rightarrow> (addr \<times> pool_state) option"
  block_free_f :: "(factory_hooks \<Rightarrow> addr \<Rightarrow> size_t \<Rightarrow> pool_state \<Rightarrow> pool_state option) option"
  policy_callback_f :: addr

record pool_factory =
  factory_addr :: addr
  policy_f :: factory_policy
  hooks_f :: factory_hooks

text \<open>\<open>SAFE_POOL\<close> is 0 in \<open>sigature.h\<close>: \<open>SIG_SIZE\<close> is 0 and the signature macros are empty.\<close>

definition SIG_SIZE :: size_t where "SIG_SIZE = 0"

definition default_block_alloc :: "factory_hooks \<Rightarrow> size_t \<Rightarrow> pool_state \<Rightarrow> (addr \<times> pool_state) option" where
  "default_block_alloc fh sz s =
     (let (rc, s1) = (case on_block_alloc_f fh of None \<Rightarrow> (True, s) | Some g \<Rightarrow> g sz s) in
      if \<not> rc then Some (NULL, s1)
      else (let (p, s2) = c_malloc (sz + push_bit 1 SIG_SIZE) s1 in
        if p = NULL
        then (case on_block_free_f fh of None \<Rightarrow> Some (NULL, s2) | Some g \<Rightarrow> Some (NULL, g sz s2))
        else Some (p, s2)))"

definition default_block_free :: "factory_hooks \<Rightarrow> addr \<Rightarrow> size_t \<Rightarrow> pool_state \<Rightarrow> pool_state option" where
  "default_block_free fh p sz s =
     (let s1 = (case on_block_free_f fh of None \<Rightarrow> s | Some g \<Rightarrow> g sz s) in c_free p s1)"

text \<open>The address of \<open>default_pool_callback\<close>, which ignores its arguments, is an argument.\<close>

definition mdl_pool_factory_default_policy :: "addr \<Rightarrow> factory_policy" where
  "mdl_pool_factory_default_policy cb =
     \<lparr>block_alloc_f = default_block_alloc, block_free_f = Some default_block_free, policy_callback_f = cb\<rparr>"

section \<open>pool.c\<close>

definition ALIGN_PTR :: "addr \<Rightarrow> addr \<Rightarrow> addr" where
  "ALIGN_PTR p al = p + ((- p) AND (al - 1))"

definition call_block_free :: "pool_factory \<Rightarrow> addr \<Rightarrow> size_t \<Rightarrow> pool_state \<Rightarrow> pool_state option" where
  "call_block_free F p sz s = do { g \<leftarrow> block_free_f (policy_f F); g (hooks_f F) p sz s }"

definition mdl_pool_create_block :: "pool_factory \<Rightarrow> addr \<Rightarrow> size_t \<Rightarrow> pool_state \<Rightarrow> (addr \<times> pool_state) option" where
  "mdl_pool_create_block F pool sz s = do {
     _ \<leftarrow> guard_opt (sz \<ge> sizeof_block);
     (block, s) \<leftarrow> block_alloc_f (policy_f F) (hooks_f F) sz s;
     if block = NULL
     then do { s \<leftarrow> run_callback pool sz s; Some (NULL, s) }
     else do {
       P \<leftarrow> pools s pool;
       s \<leftarrow> set_pool pool (P\<lparr>capacity_f := capacity_f P + sz\<rparr>) s;
       let start = block + sizeof_block;
       s \<leftarrow> set_block block \<lparr>start_f = start, current_f = ALIGN_PTR start POOL_ALIGNMENT, end_f = block + sz\<rparr> s;
       s \<leftarrow> on_heads (list_add block (block_head_list pool)) s;
       Some (block, s) } }"

definition mdl_pool_alloc_from_block :: "addr \<Rightarrow> size_t \<Rightarrow> pool_state \<Rightarrow> (addr \<times> pool_state) option" where
  "mdl_pool_alloc_from_block block sz s = do {
     k \<leftarrow> blocks s block;
     let sz = (if sz AND (POOL_ALIGNMENT - 1) \<noteq> 0 then (sz + POOL_ALIGNMENT) AND NOT (POOL_ALIGNMENT - 1) else sz);
     if end_f k - current_f k \<ge> sz
     then do {
       s \<leftarrow> set_block block (k\<lparr>current_f := current_f k + sz\<rparr>) s;
       Some (current_f k, s) }
     else Some (NULL, s) }"

text \<open>The loop of \<open>mdl_pool_allocate_find\<close> over the blocks; it may return from its body.\<close>

partial_function (option) find_in_blocks ::
  "addr \<Rightarrow> addr \<Rightarrow> size_t \<Rightarrow> pool_state \<Rightarrow> (addr \<times> pool_state) option" where
  "find_in_blocks head node sz s =
     (if node = head then Some (NULL, s)
      else Option.bind (mdl_pool_alloc_from_block node sz s) (\<lambda>(p, s).
        if p \<noteq> NULL then Some (p, s)
        else Option.bind (get_next node (heads s)) (\<lambda>n. find_in_blocks head n sz s)))"

definition grow_size :: "size_t \<Rightarrow> size_t \<Rightarrow> size_t" where
  "grow_size inc sz =
     (if inc < sz + sizeof_block + POOL_ALIGNMENT
      then (sz + inc + sizeof_block + POOL_ALIGNMENT) div inc * inc
      else inc)"

definition mdl_pool_allocate_find :: "pool_factory \<Rightarrow> addr \<Rightarrow> size_t \<Rightarrow> pool_state \<Rightarrow> (addr \<times> pool_state) option" where
  "mdl_pool_allocate_find F pool sz s = do {
     node \<leftarrow> get_next (block_head_list pool) (heads s);
     (p, s) \<leftarrow> find_in_blocks (block_head_list pool) node sz s;
     if p \<noteq> NULL then Some (p, s)
     else do {
       P \<leftarrow> pools s pool;
       if increment_size_f P = 0
       then do { s \<leftarrow> run_callback pool sz s; Some (NULL, s) }
       else do {
         (block, s) \<leftarrow> mdl_pool_create_block F pool (grow_size (increment_size_f P) sz) s;
         if block = NULL then Some (NULL, s)
         else do {
           (p, s) \<leftarrow> mdl_pool_alloc_from_block block sz s;
           _ \<leftarrow> guard_opt (p \<noteq> NULL);
           Some (p, s) } } } }"

definition mdl_pool_alloc :: "pool_factory \<Rightarrow> addr \<Rightarrow> size_t \<Rightarrow> pool_state \<Rightarrow> (addr \<times> pool_state) option" where
  "mdl_pool_alloc F pool sz s = do {
     block \<leftarrow> get_next (block_head_list pool) (heads s);
     (ptr, s) \<leftarrow> mdl_pool_alloc_from_block block sz s;
     if ptr = NULL then mdl_pool_allocate_find F pool sz s else Some (ptr, s) }"

text \<open>\<open>bzero\<close> of the allocated piece writes bytes no structure lives in, so it leaves the state alone.\<close>

definition mdl_pool_calloc :: "pool_factory \<Rightarrow> addr \<Rightarrow> size_t \<Rightarrow> size_t \<Rightarrow> pool_state \<Rightarrow> (addr \<times> pool_state) option" where
  "mdl_pool_calloc F pool cnt sz s = mdl_pool_alloc F pool (sz * cnt) s"

definition mdl_pool_zalloc :: "pool_factory \<Rightarrow> addr \<Rightarrow> size_t \<Rightarrow> pool_state \<Rightarrow> (addr \<times> pool_state) option" where
  "mdl_pool_zalloc F pool sz s = mdl_pool_calloc F pool 1 sz s"

text \<open>\<open>strncpy\<close> pads with NUL; the last byte is NUL in any case. A null name clears the first byte.\<close>

definition mdl_pool_init_int :: "addr \<Rightarrow> byte list option \<Rightarrow> size_t \<Rightarrow> addr \<Rightarrow> pool_state \<Rightarrow> pool_state option" where
  "mdl_pool_init_int pool name inc cb s = do {
     P \<leftarrow> pools s pool;
     let P = P\<lparr>increment_size_f := inc, callback_f := cb\<rparr>;
     set_pool pool (P\<lparr>name_f := (case name of
         Some xs \<Rightarrow> (take 32 (xs @ replicate 32 0))[31 := 0]
       | None \<Rightarrow> (name_f P)[0 := 0])\<rparr>) s }"

definition mdl_pool_create_int ::
  "pool_factory \<Rightarrow> byte list option \<Rightarrow> size_t \<Rightarrow> size_t \<Rightarrow> addr \<Rightarrow> pool_state \<Rightarrow> (addr \<times> pool_state) option" where
  "mdl_pool_create_int F name initial_size inc cb s = do {
     _ \<leftarrow> guard_opt (initial_size \<ge> sizeof_pool + sizeof_block);
     let cb = (if cb = NULL then policy_callback_f (policy_f F) else cb);
     (pool, s) \<leftarrow> block_alloc_f (policy_f F) (hooks_f F) initial_size s;
     if pool = NULL then Some (NULL, s)
     else do {
       s \<leftarrow> set_pool pool (zero_pool\<lparr>factory_f := factory_addr F\<rparr>) s;
       s \<leftarrow> on_heads (INIT_LIST_HEAD (block_head_list pool)) s;
       let block = pool + sizeof_pool;
       let start = block + sizeof_block;
       s \<leftarrow> set_block block
         \<lparr>start_f = start, current_f = ALIGN_PTR start POOL_ALIGNMENT, end_f = pool + initial_size\<rparr> s;
       s \<leftarrow> on_heads (list_add block (block_head_list pool)) s;
       s \<leftarrow> mdl_pool_init_int pool name inc cb s;
       P \<leftarrow> pools s pool;
       s \<leftarrow> set_pool pool (P\<lparr>capacity_f := initial_size\<rparr>) s;
       Some (pool, s) } }"

text \<open>
  The loop of \<open>reset_pool\<close> walks backwards, stops at the first entry of the ring and frees the
  entries it passes; the step \<open>node = node->prev\<close> reads the entry just freed. The result is the
  block the variable \<open>block\<close> holds after the loop.
\<close>

partial_function (option) reset_loop ::
  "pool_factory \<Rightarrow> addr \<Rightarrow> addr \<Rightarrow> addr \<Rightarrow> pool_state \<Rightarrow> (addr \<times> pool_state) option" where
  "reset_loop F head block node s =
     (if node = head then Some (block, s)
      else Option.bind (get_prev node (heads s)) (\<lambda>pv.
        if pv = head then Some (node, s)
        else Option.bind (on_heads (list_del node) s) (\<lambda>s.
          Option.bind (blocks s node) (\<lambda>k.
            Option.bind (call_block_free F node (end_f k - node) s) (\<lambda>s.
              Option.bind (get_prev node (heads s)) (\<lambda>pv. reset_loop F head node pv s))))))"

definition reset_pool :: "pool_factory \<Rightarrow> addr \<Rightarrow> pool_state \<Rightarrow> pool_state option" where
  "reset_pool F pool s = do {
     e \<leftarrow> list_empty (block_head_list pool) (heads s);
     if e then Some s
     else do {
       node \<leftarrow> get_prev (block_head_list pool) (heads s);
       (block, s) \<leftarrow> reset_loop F (block_head_list pool) NULL node s;
       k \<leftarrow> blocks s block;
       s \<leftarrow> set_block block (k\<lparr>current_f := ALIGN_PTR (start_f k) POOL_ALIGNMENT\<rparr>) s;
       P \<leftarrow> pools s pool;
       set_pool pool (P\<lparr>capacity_f := end_f k - pool\<rparr>) s } }"

definition mdl_pool_reset :: "pool_factory \<Rightarrow> addr \<Rightarrow> pool_state \<Rightarrow> pool_state option" where
  "mdl_pool_reset F pool s = reset_pool F pool s"

definition mdl_pool_destroy_int :: "pool_factory \<Rightarrow> addr \<Rightarrow> pool_state \<Rightarrow> pool_state option" where
  "mdl_pool_destroy_int F pool s = do {
     block \<leftarrow> get_next (block_head_list pool) (heads s);
     s \<leftarrow> reset_pool F pool s;
     k \<leftarrow> blocks s block;
     let initial_size = end_f k - pool;
     (case block_free_f (policy_f F) of None \<Rightarrow> Some s
      | Some g \<Rightarrow> g (hooks_f F) pool initial_size s) }"

definition mdl_pool_get_capacity :: "addr \<Rightarrow> pool_state \<Rightarrow> size_t option" where
  "mdl_pool_get_capacity pool s = map_option capacity_f (pools s pool)"

definition mdl_pool_get_used_size :: "addr \<Rightarrow> pool_state \<Rightarrow> size_t option" where
  "mdl_pool_get_used_size pool s = do {
     bs \<leftarrow> list_for_each (block_head_list pool) (heads s);
     foldM (\<lambda>b used. do {
       k \<leftarrow> blocks s b;
       Some (used + ((current_f k - start_f k) + sizeof_block)) }) bs sizeof_pool }"

definition mdl_pool_getobjname :: "addr \<Rightarrow> pool_state \<Rightarrow> byte list option" where
  "mdl_pool_getobjname pool s = map_option name_f (pools s pool)"

text \<open>The two operations that call through the function pointers of the factory.\<close>

definition mdl_pool_create ::
  "(pool_factory \<Rightarrow> byte list option \<Rightarrow> size_t \<Rightarrow> size_t \<Rightarrow> addr \<Rightarrow> pool_state \<Rightarrow> (addr \<times> pool_state) option)
   \<Rightarrow> pool_factory \<Rightarrow> byte list option \<Rightarrow> size_t \<Rightarrow> size_t \<Rightarrow> addr \<Rightarrow> pool_state \<Rightarrow> (addr \<times> pool_state) option" where
  "mdl_pool_create create_pool F name initial_size inc cb s = create_pool F name initial_size inc cb s"

definition mdl_pool_release ::
  "(pool_factory \<Rightarrow> addr \<Rightarrow> pool_state \<Rightarrow> pool_state option) option
   \<Rightarrow> pool_factory \<Rightarrow> addr \<Rightarrow> pool_state \<Rightarrow> pool_state option" where
  "mdl_pool_release release_pool F pool s =
     (case release_pool of None \<Rightarrow> Some s | Some g \<Rightarrow> g F pool s)"


section \<open>Rounding\<close>

text \<open>The size a request takes from a block.\<close>

definition pool_round :: "size_t \<Rightarrow> size_t" where
  "pool_round sz = (if sz AND (POOL_ALIGNMENT - 1) \<noteq> 0
     then (sz + POOL_ALIGNMENT) AND NOT (POOL_ALIGNMENT - 1) else sz)"

lemma alignment_pow2: "unat POOL_ALIGNMENT = 2 ^ 2"
  by (simp add: POOL_ALIGNMENT_def)

lemma unat_pool_round:
  assumes "unat sz + 4 < 2 ^ 64"
  shows "unat (pool_round sz) = (unat sz + 3) div 4 * 4"
proof -
  note m = unat_and_mask_pow2[OF alignment_pow2, of sz] alignment_pow2
  have add: "unat (sz + POOL_ALIGNMENT) = unat sz + 4"
    using assms by (simp add: unat_word_ariths POOL_ALIGNMENT_def)
  show ?thesis
  proof (cases "unat sz mod 4 = 0")
    case True
    then have "sz AND (POOL_ALIGNMENT - 1) = 0" using m by (simp flip: unat_eq_zero)
    then have "pool_round sz = sz" by (simp add: pool_round_def)
    with True show ?thesis by presburger
  next
    case False
    then have "sz AND (POOL_ALIGNMENT - 1) \<noteq> 0" using m by (auto simp flip: unat_eq_zero)
    then have "pool_round sz = (sz + POOL_ALIGNMENT) AND NOT (POOL_ALIGNMENT - 1)" by (simp add: pool_round_def)
    then have "unat (pool_round sz) = unat sz + 4 - (unat sz + 4) mod 4"
      using unat_and_not_mask_pow2[OF alignment_pow2] add by (simp add: alignment_pow2)
    with False show ?thesis by presburger
  qed
qed

lemma pool_round_bounds:
  assumes "unat sz + 4 < 2 ^ 64"
  shows "unat sz \<le> unat (pool_round sz)" "unat (pool_round sz) \<le> unat sz + 3" "unat (pool_round sz) mod 4 = 0"
  unfolding unat_pool_round[OF assms] by presburger+

lemma ALIGN_PTR_aligned:
  assumes "unat p mod 4 = 0"
  shows "ALIGN_PTR p POOL_ALIGNMENT = p"
proof -
  have "(unat p + unat (- p)) mod 4 = unat (p + - p) mod 4"
    by (rule unat_add_mod_dvd[symmetric]) simp
  then have "unat (- p) mod 4 = 0" using assms by (simp add: mod_add_eq[symmetric])
  then have "unat ((- p) AND (POOL_ALIGNMENT - 1)) = 0"
    using unat_and_mask_pow2[OF alignment_pow2, of "- p"] by (simp add: alignment_pow2)
  then show ?thesis by (simp add: ALIGN_PTR_def flip: unat_eq_zero)
qed

text \<open>
  The size of a new block is enough for the request, the block's header and the alignment, so
  the assertion after the allocation from it holds.
\<close>

lemma grow_size_enough:
  assumes "0 < unat inc" "unat sz + unat inc + 44 < 2 ^ 64"
  shows "unat sz + 44 \<le> unat (grow_size inc sz)"
proof -
  have a: "unat (sz + sizeof_block + POOL_ALIGNMENT) = unat sz + 44"
    using assms by (simp add: unat_word_ariths sizeof_block_def POOL_ALIGNMENT_def)
  have b: "unat (sz + inc + sizeof_block + POOL_ALIGNMENT) = unat sz + unat inc + 44"
    using assms by (simp add: unat_word_ariths sizeof_block_def POOL_ALIGNMENT_def)
  show ?thesis
  proof (cases "inc < sz + sizeof_block + POOL_ALIGNMENT")
    case True
    let ?n = "(unat sz + unat inc + 44) div unat inc * unat inc"
    have d: "?n + (unat sz + unat inc + 44) mod unat inc = unat sz + unat inc + 44" by simp
    have "(unat sz + unat inc + 44) mod unat inc < unat inc" using assms(1) by simp
    with d have "unat sz + 44 \<le> ?n" by linarith
    moreover have "unat (w div inc * inc) = unat w div unat inc * unat inc mod 2 ^ 64" for w :: size_t
      by (simp add: unat_word_ariths(2) unat_div)
    from this[of "sz + inc + sizeof_block + POOL_ALIGNMENT"]
    have "unat (grow_size inc sz) = ?n mod 2 ^ 64"
      using True unfolding b by (simp add: grow_size_def)
    moreover have "?n < 2 ^ 64" using d assms(2) by linarith
    ultimately show ?thesis by simp
  next
    case False
    then show ?thesis using a by (auto simp: grow_size_def word_le_nat_alt word_less_nat_alt not_less)
  qed
qed


section \<open>The interface between pools and policies\<close>

text \<open>
  What a policy's block allocation promises: it returns; on failure it leaves the memory alone;
  a block it hands out is a fresh chunk.
\<close>

definition same_memory :: "pool_state \<Rightarrow> pool_state \<Rightarrow> bool" where
  "same_memory s t \<longleftrightarrow> heads t = heads s \<and> blocks t = blocks s \<and> pools t = pools s \<and> live t = live s"

lemma same_memory_refl [simp]: "same_memory s s"
  by (simp add: same_memory_def)

lemma same_memory_trans: "same_memory s t \<Longrightarrow> same_memory t u \<Longrightarrow> same_memory s u"
  by (simp add: same_memory_def)

text \<open>The fields of the caching pool that no policy touches.\<close>

definition same_scalars :: "pool_state \<Rightarrow> pool_state \<Rightarrow> bool" where
  "same_scalars s t \<longleftrightarrow> cp_capacity t = cp_capacity s \<and> cp_max_capacity t = cp_max_capacity s \<and>
     cp_used_count t = cp_used_count s \<and> cp_lock t = cp_lock s"

text \<open>The hooks of the caching pool (\<open>caching.c\<close>) only count.\<close>

definition cpool_on_block_alloc :: "size_t \<Rightarrow> pool_state \<Rightarrow> bool \<times> pool_state" where
  "cpool_on_block_alloc sz s =
     (let s = s\<lparr>cp_used_size := cp_used_size s + sz\<rparr>;
          s = (if cp_used_size s > cp_peak_used_size s then s\<lparr>cp_peak_used_size := cp_used_size s\<rparr> else s)
      in (True, s))"

definition cpool_on_block_free :: "size_t \<Rightarrow> pool_state \<Rightarrow> pool_state" where
  "cpool_on_block_free sz s = s\<lparr>cp_used_size := cp_used_size s - sz\<rparr>"

definition caching_factory :: "addr \<Rightarrow> addr \<Rightarrow> pool_factory" where
  "caching_factory cp cb = \<lparr>factory_addr = cp, policy_f = mdl_pool_factory_default_policy cb,
     hooks_f = \<lparr>on_block_alloc_f = Some cpool_on_block_alloc, on_block_free_f = Some cpool_on_block_free\<rparr>\<rparr>"

locale block_allocator =
  fixes F :: pool_factory
  assumes alloc_returns: "\<exists>p t. block_alloc_f (policy_f F) (hooks_f F) sz s = Some (p, t)"
    and alloc_null: "block_alloc_f (policy_f F) (hooks_f F) sz s = Some (NULL, t) \<Longrightarrow> same_memory s t"
    and alloc_chunk: "block_alloc_f (policy_f F) (hooks_f F) sz s = Some (p, t) \<Longrightarrow> p \<noteq> NULL \<Longrightarrow>
      malloc_ok p sz s \<and> same_memory (map_chunk p sz s) t"
    and alloc_callbacks: "block_alloc_f (policy_f F) (hooks_f F) sz s = Some (p, t) \<Longrightarrow> callbacks t = callbacks s"
    and alloc_scalars: "block_alloc_f (policy_f F) (hooks_f F) sz s = Some (p, t) \<Longrightarrow> same_scalars s t"

section \<open>Well-formed pools\<close>

definition blk_end :: "pool_state \<Rightarrow> addr \<Rightarrow> nat" where
  "blk_end s b = unat (end_f (the (blocks s b)))"

definition blk_cur :: "pool_state \<Rightarrow> addr \<Rightarrow> nat" where
  "blk_cur s b = unat (current_f (the (blocks s b)))"

definition in_chunk :: "pool_state \<Rightarrow> nat \<Rightarrow> nat \<Rightarrow> bool" where
  "in_chunk s lo hi \<longleftrightarrow> (\<exists>c n. (c, n) \<in> set (live s) \<and> unat c \<le> lo \<and> hi \<le> unat c + unat n)"

definition block_ok :: "pool_state \<Rightarrow> addr \<Rightarrow> bool" where
  "block_ok s b \<longleftrightarrow> b \<noteq> NULL \<and> unat b mod 4 = 0 \<and> blocks s b \<noteq> None \<and> start_f (the (blocks s b)) = b + sizeof_block \<and>
     unat b + 40 \<le> blk_cur s b \<and> blk_cur s b \<le> blk_end s b \<and> blk_cur s b mod 4 = 0 \<and>
     in_chunk s (unat b) (blk_end s b)"

definition region :: "pool_state \<Rightarrow> addr \<Rightarrow> nat set" where
  "region s b = {unat b ..< blk_end s b}"

definition pool_inv :: "pool_state \<Rightarrow> addr \<Rightarrow> addr list \<Rightarrow> bool" where
  "pool_inv s p bs \<longleftrightarrow> p \<noteq> NULL \<and> dlist (heads s) (block_head_list p) bs \<and> bs \<noteq> [] \<and>
     (\<exists>P. pools s p = Some P \<and> callback_f P \<noteq> NULL \<and>
        capacity_f P = sizeof_pool + sum_list (map (\<lambda>b. end_f (the (blocks s b)) - b) bs)) \<and>
     unat p + 104 < 2 ^ 64 \<and> in_chunk s (unat p) (unat p + 104) \<and>
     (\<forall>b \<in> set bs. block_ok s b) \<and>
     (\<forall>b \<in> set bs. \<forall>b' \<in> set bs. b \<noteq> b' \<longrightarrow> region s b \<inter> region s b' = {}) \<and>
     (\<forall>b \<in> set bs. region s b \<inter> {unat p ..< unat p + 104} = {})"

lemma pool_inv_same_memory:
  "same_memory s t \<Longrightarrow> pool_inv t p bs = pool_inv s p bs"
  by (simp add: same_memory_def pool_inv_def block_ok_def in_chunk_def region_def blk_end_def blk_cur_def)

subsection \<open>Allocation from a block\<close>

definition bump :: "addr \<Rightarrow> size_t \<Rightarrow> pool_state \<Rightarrow> pool_state" where
  "bump b sz s = s\<lparr>blocks := (blocks s)(b \<mapsto>
     (the (blocks s b))\<lparr>current_f := current_f (the (blocks s b)) + pool_round sz\<rparr>)\<rparr>"

definition fits :: "pool_state \<Rightarrow> addr \<Rightarrow> size_t \<Rightarrow> bool" where
  "fits s b sz \<longleftrightarrow> blk_cur s b + unat (pool_round sz) \<le> blk_end s b"

lemma alloc_from_block_ok:
  assumes "block_ok s b"
  shows "mdl_pool_alloc_from_block b sz s =
    Some (if fits s b sz then (current_f (the (blocks s b)), bump b sz s) else (NULL, s))"
proof -
  obtain k where k: "blocks s b = Some k" using assms by (auto simp: block_ok_def)
  have "unat (current_f k) \<le> unat (end_f k)" using assms k by (simp add: block_ok_def blk_cur_def blk_end_def)
  then have "unat (end_f k - current_f k) = unat (end_f k) - unat (current_f k)"
    by (simp add: unat_sub word_le_nat_alt)
  then have "pool_round sz \<le> end_f k - current_f k \<longleftrightarrow> fits s b sz"
    using \<open>unat (current_f k) \<le> unat (end_f k)\<close> k
    by (auto simp: fits_def blk_cur_def blk_end_def word_le_nat_alt)
  then show ?thesis
    using k by (simp add: mdl_pool_alloc_from_block_def Let_def set_block_def bump_def flip: pool_round_def)
qed

lemma block_ok_not_null:
  assumes "block_ok s b"
  shows "current_f (the (blocks s b)) \<noteq> NULL"
proof
  assume "current_f (the (blocks s b)) = NULL"
  then have "blk_cur s b = 0" by (simp add: blk_cur_def)
  with assms show False by (simp add: block_ok_def)
qed

lemma bump_block:
  assumes "block_ok s b" "fits s b sz" "unat sz + 4 < 2 ^ 64"
  shows "blk_cur (bump b sz s) b = blk_cur s b + unat (pool_round sz)"
    and "blk_end (bump b sz s) x = blk_end s x" "x \<noteq> b \<Longrightarrow> blocks (bump b sz s) x = blocks s x"
    and "block_ok (bump b sz s) b" "x \<noteq> b \<Longrightarrow> block_ok (bump b sz s) x = block_ok s x"
    and "end_f (the (blocks (bump b sz s) x)) = end_f (the (blocks s x))"
proof -
  obtain k where k: "blocks s b = Some k" using assms by (auto simp: block_ok_def)
  have "unat (current_f k) + unat (pool_round sz) < 2 ^ 64"
    using assms(2) k unsigned_less[of "end_f k", where ?'a = nat] by (simp add: fits_def blk_cur_def blk_end_def)
  then have "unat (current_f k + pool_round sz) = unat (current_f k) + unat (pool_round sz)"
    by (simp add: unat_word_ariths)
  then show c: "blk_cur (bump b sz s) b = blk_cur s b + unat (pool_round sz)"
    using k by (simp add: blk_cur_def bump_def)
  show e: "blk_end (bump b sz s) x = blk_end s x" for x
    using k by (simp add: blk_end_def bump_def)
  show ox: "x \<noteq> b \<Longrightarrow> blocks (bump b sz s) x = blocks s x"
    by (simp add: bump_def)
  show "end_f (the (blocks (bump b sz s) x)) = end_f (the (blocks s x))"
    using k by (simp add: bump_def)
  have "(blk_cur s b + unat (pool_round sz)) mod 4 = 0"
    using assms(1) pool_round_bounds(3)[OF assms(3)] by (simp add: block_ok_def mod_add_eq[symmetric])
  then show "block_ok (bump b sz s) b"
    using assms(1,2) c e k by (simp add: block_ok_def fits_def in_chunk_def) (simp add: bump_def)
  show "x \<noteq> b \<Longrightarrow> block_ok (bump b sz s) x = block_ok s x"
    using ox by (simp add: block_ok_def blk_cur_def blk_end_def in_chunk_def) (simp add: bump_def)
qed

lemma bump_pool_inv:
  assumes "pool_inv s p bs" "b \<in> set bs" "fits s b sz" "unat sz + 4 < 2 ^ 64"
  shows "pool_inv (bump b sz s) p bs"
proof -
  have ok: "block_ok s b" using assms(1,2) by (simp add: pool_inv_def)
  note B = bump_block[OF ok assms(3,4)]
  have [simp]: "heads (bump b sz s) = heads s" "pools (bump b sz s) = pools s" "live (bump b sz s) = live s"
    by (simp_all add: bump_def)
  have "\<forall>x \<in> set bs. block_ok (bump b sz s) x" using assms(1) B(4,5) unfolding pool_inv_def by metis
  then show ?thesis
    using assms(1) by (simp add: pool_inv_def B(2,6) region_def in_chunk_def)
qed


subsection \<open>Search through the blocks\<close>

lemma find_in_blocks_ok:
  assumes "dlist (heads s) head (pre @ post)" "\<forall>b \<in> set post. block_ok s b"
  shows "find_in_blocks head (hd (post @ [head])) sz s =
    Some (case find (\<lambda>b. fits s b sz) post of None \<Rightarrow> (NULL, s)
          | Some b \<Rightarrow> (current_f (the (blocks s b)), bump b sz s))"
  using assms
proof (induction post arbitrary: pre)
  case Nil
  then show ?case by (simp add: find_in_blocks.simps)
next
  case (Cons b post)
  have "b \<noteq> head" using Cons(2) by (auto simp: dlist_def)
  moreover have "get_next b (heads s) = Some (hd (post @ [head]))"
    using dlist_entry(2)[of "heads s" head pre b post] Cons(2) by simp
  moreover have "find_in_blocks head (hd (post @ [head])) sz s =
    Some (case find (\<lambda>b. fits s b sz) post of None \<Rightarrow> (NULL, s)
          | Some b \<Rightarrow> (current_f (the (blocks s b)), bump b sz s))"
    using Cons(1)[of "pre @ [b]"] Cons(2,3) by simp
  ultimately show ?case
    using Cons(3) block_ok_not_null[of s b]
    by (subst find_in_blocks.simps) (simp add: alloc_from_block_ok)
qed

subsection \<open>A fresh chunk leaves the old ones alone\<close>

lemma in_chunk_mono: "in_chunk s lo hi \<Longrightarrow> lo \<le> lo' \<Longrightarrow> hi' \<le> hi \<Longrightarrow> in_chunk s lo' hi'"
  unfolding in_chunk_def by (meson le_trans)

lemma malloc_ok_disjoint:
  assumes "malloc_ok c sz s" "in_chunk s lo hi" "lo < hi"
  shows "hi \<le> unat c \<or> unat c + unat sz \<le> lo"
proof -
  obtain d n where d: "(d, n) \<in> set (live s)" "unat d \<le> lo" "hi \<le> unat d + unat n"
    using assms(2) by (auto simp: in_chunk_def)
  then have "disjoint_chunks c sz (d, n)" using assms(1) by (auto simp: malloc_ok_def list_all_iff)
  with d assms(3) show ?thesis by (auto simp: disjoint_chunks_def)
qed

lemma map_chunk_old:
  assumes "malloc_ok c sz s" "in_chunk s (unat a) (unat a + 1)"
  shows "heads (map_chunk c sz s) a = heads s a" "blocks (map_chunk c sz s) a = blocks s a"
    "pools (map_chunk c sz s) a = pools s a"
  using malloc_ok_disjoint[OF assms] by (auto simp: map_chunk_def within_def)

lemma map_chunk_in_chunk: "in_chunk s lo hi \<Longrightarrow> in_chunk (map_chunk c sz s) lo hi"
  by (auto simp: in_chunk_def map_chunk_def)

lemma pool_inv_places:
  assumes "pool_inv s p bs"
  shows "in_chunk s (unat p) (unat p + 1)"
    and "unat (block_head_list p) = unat p + 80" "in_chunk s (unat (block_head_list p)) (unat (block_head_list p) + 1)"
    and "b \<in> set bs \<Longrightarrow> in_chunk s (unat b) (unat b + 1)"
proof -
  have p: "unat p + 104 < 2 ^ 64" "in_chunk s (unat p) (unat p + 104)" using assms by (auto simp: pool_inv_def)
  show "in_chunk s (unat p) (unat p + 1)" using p(2) by (rule in_chunk_mono) auto
  show h: "unat (block_head_list p) = unat p + 80"
    using p(1) by (simp add: block_head_list_def unat_word_ariths)
  show "in_chunk s (unat (block_head_list p)) (unat (block_head_list p) + 1)"
    using p(2) by (rule in_chunk_mono) (auto simp: h)
  show "b \<in> set bs \<Longrightarrow> in_chunk s (unat b) (unat b + 1)"
  proof -
    assume "b \<in> set bs"
    then have "block_ok s b" using assms by (simp add: pool_inv_def)
    then have "in_chunk s (unat b) (blk_end s b)" "unat b + 1 \<le> blk_end s b" by (auto simp: block_ok_def)
    then show ?thesis by (rule in_chunk_mono[OF _ order_refl])
  qed
qed

lemma block_ok_cong:
  "blocks t b = blocks s b \<Longrightarrow> set (live s) \<subseteq> set (live t) \<Longrightarrow> block_ok s b \<Longrightarrow> block_ok t b"
  by (auto simp: block_ok_def blk_cur_def blk_end_def in_chunk_def)

text \<open>
  A state that has the same contents at the places of a pool has the same well-formed pool.
\<close>

lemma pool_inv_cong:
  assumes "pool_inv s p bs" "pools t p = pools s p" "\<And>b. b \<in> set bs \<Longrightarrow> blocks t b = blocks s b"
    and "\<And>a. a \<in> set (block_head_list p # bs) \<Longrightarrow> heads t a = heads s a" "set (live s) \<subseteq> set (live t)"
  shows "pool_inv t p bs"
proof -
  have "dlist (heads t) (block_head_list p) bs"
    using assms(1,4) unfolding pool_inv_def by (blast intro: dlist_frame)
  moreover have "\<forall>b \<in> set bs. block_ok t b"
    using assms(1,3,5) unfolding pool_inv_def by (blast intro: block_ok_cong)
  moreover have "in_chunk t (unat p) (unat p + 104)"
    using assms(1,5) unfolding pool_inv_def in_chunk_def by blast
  moreover have "(\<Sum>b\<leftarrow>bs. end_f (the (blocks t b)) - b) = (\<Sum>b\<leftarrow>bs. end_f (the (blocks s b)) - b)"
    using assms(3) by (intro arg_cong[of _ _ sum_list]) simp
  moreover have "\<And>b. b \<in> set bs \<Longrightarrow> region t b = region s b"
    using assms(3) by (simp add: region_def blk_end_def)
  ultimately show ?thesis
    using assms(1,2) by (simp add: pool_inv_def)
qed

lemma map_chunk_pool_inv:
  assumes "malloc_ok c sz s" "pool_inv s p bs"
  shows "pool_inv (map_chunk c sz s) p bs"
proof (rule pool_inv_cong[OF assms(2)])
  note places = pool_inv_places[OF assms(2)] and old = map_chunk_old[OF assms(1)]
  show "pools (map_chunk c sz s) p = pools s p" using places(1) by (rule old(3))
  show "blocks (map_chunk c sz s) b = blocks s b" if "b \<in> set bs" for b
    using places(4)[OF that] by (rule old(2))
  show "heads (map_chunk c sz s) a = heads s a" if "a \<in> set (block_head_list p # bs)" for a
    using that places(3,4) by (auto intro!: old(1) simp del: One_nat_def)
qed (auto simp: map_chunk_def)

subsection \<open>A new block\<close>

text \<open>
  What an operation on the pool \<open>p\<close> with the blocks \<open>bs\<close> may change among the memory that was in
  use: the pool, its list head and its blocks.
\<close>

definition pool_frame :: "pool_state \<Rightarrow> addr \<Rightarrow> addr list \<Rightarrow> pool_state \<Rightarrow> bool" where
  "pool_frame s p bs t \<longleftrightarrow> set (live s) \<subseteq> set (live t) \<and>
     (\<forall>a. in_chunk s (unat a) (unat a + 1) \<longrightarrow>
        (a \<notin> set (block_head_list p # bs) \<longrightarrow> heads t a = heads s a) \<and>
        (a \<notin> set bs \<longrightarrow> blocks t a = blocks s a) \<and> (a \<noteq> p \<longrightarrow> pools t a = pools s a)) \<and>
     map_option increment_size_f (pools t p) = map_option increment_size_f (pools s p)"

lemma add_block_pool_inv:
  assumes inv: "pool_inv s p bs" and c: "malloc_ok c sz s" and sz: "44 \<le> unat sz"
    and P: "pools s p = Some P"
    and t: "heads t = h" "blocks t = (blocks (map_chunk c sz s))(c \<mapsto>
        \<lparr>start_f = c + sizeof_block, current_f = ALIGN_PTR (c + sizeof_block) POOL_ALIGNMENT, end_f = c + sz\<rparr>)"
      "pools t = (pools (map_chunk c sz s))(p \<mapsto> P\<lparr>capacity_f := capacity_f P + sz\<rparr>)"
      "live t = (c, sz) # live s"
    and h: "dlist h (block_head_list p) (c # bs)"
  shows "pool_inv t p (c # bs)" "c \<notin> set bs" "blk_cur t c = unat c + 40" "blk_end t c = unat c + unat sz"
    "\<And>b. b \<in> set bs \<Longrightarrow> blocks t b = blocks s b"
proof -
  have nowrap: "unat c + unat sz < 2 ^ 64" and al: "c AND 15 = 0" using c by (auto simp: malloc_ok_def)
  note far = malloc_ok_disjoint[OF c]
  have new: "c \<noteq> b" if "b \<in> set bs" for b
    using far[OF pool_inv_places(4)[OF inv that]] sz by auto
  then show nin: "c \<notin> set bs" by blast
  have start: "unat (c + sizeof_block) = unat c + 40"
    using nowrap sz by (simp add: unat_word_ariths sizeof_block_def)
  have "unat c mod 16 = 0"
    using al unat_and_mask_pow2[of "16 :: addr" 4 c] by simp
  then have "(unat c + 40) mod 4 = 0" by presburger
  then have cur: "ALIGN_PTR (c + sizeof_block) POOL_ALIGNMENT = c + sizeof_block"
    by (intro ALIGN_PTR_aligned) (simp add: start)
  show bc: "blk_cur t c = unat c + 40" by (simp add: blk_cur_def t cur start)
  show be: "blk_end t c = unat c + unat sz" using nowrap by (simp add: blk_end_def t unat_word_ariths)
  show old: "blocks t b = blocks s b" if "b \<in> set bs" for b
    using new[OF that] map_chunk_old(2)[OF c pool_inv_places(4)[OF inv that]] by (simp add: t)
  have olds: "set (live s) \<subseteq> set (live t)" using t by auto
  have reg: "region t b = region s b" if "b \<in> set bs" for b
    using old[OF that] by (simp add: region_def blk_end_def)
  have cok: "block_ok t c"
    unfolding block_ok_def
    using bc be sz \<open>(unat c + 40) mod 4 = 0\<close> \<open>unat c mod 16 = 0\<close> c
    by (auto simp: t in_chunk_def malloc_ok_def)
  have bok: "\<forall>b \<in> set bs. block_ok t b"
    using inv old olds unfolding pool_inv_def by (blast intro: block_ok_cong)
  have sep: "region t c \<inter> region s b = {}" if "b \<in> set bs" for b
  proof -
    have "block_ok s b" using inv that by (simp add: pool_inv_def)
    then have "in_chunk s (unat b) (blk_end s b)" "unat b < blk_end s b" by (auto simp: block_ok_def)
    from far[OF this] show ?thesis by (auto simp: region_def be)
  qed
  have "in_chunk s (unat p) (unat p + 104)" using inv by (simp add: pool_inv_def)
  from far[OF this] have sepp: "region t c \<inter> {unat p ..< unat p + 104} = {}" by (auto simp: region_def be)
  have cap: "capacity_f P + sz = sizeof_pool + sum_list (map (\<lambda>b. end_f (the (blocks t b)) - b) (c # bs))"
  proof -
    have "(\<Sum>b\<leftarrow>bs. end_f (the (blocks t b)) - b) = (\<Sum>b\<leftarrow>bs. end_f (the (blocks s b)) - b)"
      using old by (intro arg_cong[of _ _ sum_list]) simp
    moreover have "end_f (the (blocks t c)) = c + sz" by (simp add: t(2))
    ultimately show ?thesis using inv P by (simp add: pool_inv_def)
  qed
  have "in_chunk t (unat p) (unat p + 104)" using inv olds unfolding pool_inv_def in_chunk_def by blast
  then show "pool_inv t p (c # bs)"
    using inv P h cok bok reg sep sepp cap unfolding pool_inv_def t(1)
    by (auto simp: t(3) Int_commute)
qed


lemma within_start: "n \<le> unat sz \<Longrightarrow> within c sz n c"
  by (simp add: within_def)

lemma map_chunk_new:
  assumes "n \<le> unat sz"
  shows "16 \<le> n \<Longrightarrow> heads (map_chunk c sz s) c \<noteq> None" "40 \<le> n \<Longrightarrow> blocks (map_chunk c sz s) c \<noteq> None"
    "104 \<le> n \<Longrightarrow> pools (map_chunk c sz s) c \<noteq> None"
  using assms by (auto simp: map_chunk_def within_def)

text \<open>
  What an allocation of \<open>sz\<close> bytes that returned \<open>q\<close> gave away: a piece of one of the blocks,
  above everything handed out before and below the block's new mark.
\<close>

definition granted :: "pool_state \<Rightarrow> addr list \<Rightarrow> size_t \<Rightarrow> addr \<Rightarrow> pool_state \<Rightarrow> addr list \<Rightarrow> bool" where
  "granted s bs sz q t bs' \<longleftrightarrow> unat q mod 4 = 0 \<and> set bs \<subseteq> set bs' \<and>
     (\<exists>b \<in> set bs'. unat b + 40 \<le> unat q \<and> unat q + unat sz \<le> blk_cur t b \<and>
        (b \<in> set bs \<longrightarrow> unat q = blk_cur s b \<and> blk_cur s b \<le> blk_cur t b) \<and>
        (\<forall>x \<in> set bs. x \<noteq> b \<longrightarrow> blocks t x = blocks s x)) \<and>
     (\<forall>x \<in> set bs. blk_end t x = blk_end s x)"

lemma granted_bump:
  assumes "block_ok s b" "b \<in> set bs" "fits s b sz" "unat sz + 4 < 2 ^ 64"
  shows "granted s bs sz (current_f (the (blocks s b))) (bump b sz s) bs"
proof -
  have q: "unat (current_f (the (blocks s b))) = blk_cur s b" by (simp add: blk_cur_def)
  have "unat b + 40 \<le> blk_cur s b" "blk_cur s b mod 4 = 0" using assms(1) by (auto simp: block_ok_def)
  moreover have "blk_cur s b + unat sz \<le> blk_cur (bump b sz s) b"
    using bump_block(1)[OF assms(1,3,4)] pool_round_bounds(1)[OF assms(4)] by simp
  ultimately show ?thesis
    unfolding granted_def q using assms(2) bump_block(2,3)[OF assms(1,3,4)] by auto
qed

lemma pool_frame_bump:
  "b \<in> set bs \<Longrightarrow> pool_frame s p bs (bump b sz s)"
  by (auto simp: pool_frame_def bump_def)

lemma pool_frame_same_memory: "same_memory s t \<Longrightarrow> pool_frame s p bs t"
  by (auto simp: pool_frame_def same_memory_def)

lemma run_callback_ok:
  assumes "pools s p = Some P" "callback_f P \<noteq> NULL"
  shows "\<exists>t. run_callback p sz s = Some t \<and> same_memory s t"
  using assms by (auto simp: run_callback_def same_memory_def)

context block_allocator
begin

lemma create_block_ok:
  assumes inv: "pool_inv s p bs" and sz: "44 \<le> unat sz"
  shows "\<exists>c t. mdl_pool_create_block F p sz s = Some (c, t) \<and>
    (c = NULL \<longrightarrow> same_memory s t) \<and>
    (c \<noteq> NULL \<longrightarrow> pool_inv t p (c # bs) \<and> c \<notin> set bs \<and> blk_cur t c = unat c + 40 \<and>
       blk_end t c = unat c + unat sz \<and> (\<forall>b \<in> set bs. blocks t b = blocks s b) \<and> pool_frame s p bs t \<and>
       malloc_ok c sz s \<and> live t = (c, sz) # live s)"
proof -
  have size_ok: "sizeof_block \<le> sz" using sz by (simp add: word_le_nat_alt sizeof_block_def)
  obtain c s1 where al: "block_alloc_f (policy_f F) (hooks_f F) sz s = Some (c, s1)"
    using alloc_returns by blast
  obtain P where P: "pools s p = Some P" "callback_f P \<noteq> NULL" using inv by (auto simp: pool_inv_def)
  show ?thesis
  proof (cases "c = NULL")
    case True
    then have m: "same_memory s s1" using al alloc_null by simp
    then obtain t where "run_callback p sz s1 = Some t" "same_memory s1 t"
      using run_callback_ok[of s1 p P] P by (auto simp: same_memory_def)
    with True al m size_ok show ?thesis
      by (auto simp: mdl_pool_create_block_def intro: same_memory_trans)
  next
    case False
    then have c: "malloc_ok c sz s" and m: "same_memory (map_chunk c sz s) s1"
      using alloc_chunk[OF al] by auto
    note places = pool_inv_places[OF inv] and old = map_chunk_old[OF c]
    have s1: "heads s1 = heads (map_chunk c sz s)" "blocks s1 = blocks (map_chunk c sz s)"
      "pools s1 = pools (map_chunk c sz s)" "live s1 = (c, sz) # live s"
      using m by (auto simp: same_memory_def map_chunk_def)
    have P1: "pools s1 p = Some P" using old(3)[OF places(1)] P s1 by simp
    have "dlist (heads s1) (block_head_list p) bs"
      using map_chunk_pool_inv[OF c inv] s1 by (simp add: pool_inv_def)
    moreover have "c \<in> dom (heads s1)" using map_chunk_new(1)[of 44 sz c s] sz s1(1) by auto
    moreover have far: "c \<notin> set (block_head_list p # bs)"
      using malloc_ok_disjoint[OF c places(3)] malloc_ok_disjoint[OF c places(4)] sz by fastforce
    ultimately obtain h where h: "list_add c (block_head_list p) (heads s1) = Some h"
      "dlist h (block_head_list p) (c # bs)" "\<forall>a. a \<notin> set (c # block_head_list p # bs) \<longrightarrow> h a = heads s1 a"
      using list_add_dlist[of "heads s1" "block_head_list p" bs c] by auto
    define t where "t = s1\<lparr>pools := (pools s1)(p \<mapsto> P\<lparr>capacity_f := capacity_f P + sz\<rparr>),
      blocks := (blocks s1)(c \<mapsto> \<lparr>start_f = c + sizeof_block,
        current_f = ALIGN_PTR (c + sizeof_block) POOL_ALIGNMENT, end_f = c + sz\<rparr>), heads := h\<rparr>"
    have "blocks s1 c \<noteq> None" using map_chunk_new(2)[of 44 sz c s] sz s1(2) by auto
    then have run: "mdl_pool_create_block F p sz s = Some (c, t)"
      using size_ok al False P1 h(1)
      by (simp add: mdl_pool_create_block_def set_pool_def set_block_def on_heads_def Let_def t_def)
    note new = add_block_pool_inv[OF inv c sz P(1), of t h]
    have inv': "pool_inv t p (c # bs)" "c \<notin> set bs" "blk_cur t c = unat c + 40"
      "blk_end t c = unat c + unat sz" "\<forall>b \<in> set bs. blocks t b = blocks s b"
      using new h(2) by (simp_all add: t_def s1)
    have "pool_frame s p bs t"
      unfolding pool_frame_def
    proof (intro conjI allI impI)
      show "set (live s) \<subseteq> set (live t)" by (auto simp: t_def s1)
      show "map_option increment_size_f (pools t p) = map_option increment_size_f (pools s p)"
        by (simp add: t_def P(1))
      fix a :: addr assume a: "in_chunk s (unat a) (unat a + 1)"
      then have "a \<noteq> c" using malloc_ok_disjoint[OF c a] sz by auto
      then show "heads t a = heads s a" if "a \<notin> set (block_head_list p # bs)"
        using that h(3) old(1)[OF a] by (simp add: t_def s1)
      show "blocks t a = blocks s a" if "a \<notin> set bs"
        using \<open>a \<noteq> c\<close> old(2)[OF a] by (simp add: t_def s1)
      show "pools t a = pools s a" if "a \<noteq> p"
        using that old(3)[OF a] by (simp add: t_def s1)
    qed
    with run inv' False c show ?thesis by (auto simp: t_def s1)
  qed
qed

lemma allocate_find_ok:
  assumes inv: "pool_inv s p bs" and P: "pools s p = Some P"
    and sz: "unat sz + unat (increment_size_f P) + 44 < 2 ^ 64"
  shows "\<exists>q t bs'. mdl_pool_allocate_find F p sz s = Some (q, t) \<and> pool_inv t p bs' \<and> pool_frame s p bs t \<and>
    (if q = NULL then bs' = bs \<and> same_memory s t else granted s bs sz q t bs')"
proof -
  let ?head = "block_head_list p"
  have d: "dlist (heads s) ?head bs" and ok: "\<forall>b \<in> set bs. block_ok s b" using inv by (auto simp: pool_inv_def)
  have nx: "get_next ?head (heads s) = Some (hd (bs @ [?head]))" using dlist_ends(1)[OF d] .
  have fnd: "find_in_blocks ?head (hd (bs @ [?head])) sz s =
    Some (case find (\<lambda>b. fits s b sz) bs of None \<Rightarrow> (NULL, s)
          | Some b \<Rightarrow> (current_f (the (blocks s b)), bump b sz s))"
    using find_in_blocks_ok[of s ?head "[]" bs sz] d ok by simp
  have sz4: "unat sz + 4 < 2 ^ 64" using sz by simp
  show ?thesis
  proof (cases "find (\<lambda>b. fits s b sz) bs")
    case (Some b)
    then have b: "b \<in> set bs" "fits s b sz" by (auto simp: find_Some_iff)
    then have "block_ok s b" using ok by blast
    moreover from this have "current_f (the (blocks s b)) \<noteq> NULL" by (rule block_ok_not_null)
    ultimately show ?thesis
      using Some nx fnd bump_pool_inv[OF inv b sz4] granted_bump[of s b bs sz] b sz4 pool_frame_bump[OF b(1)]
      by (auto simp: mdl_pool_allocate_find_def)
  next
    case None
    note head = nx fnd[unfolded None]
    have cb: "callback_f P \<noteq> NULL" using inv P by (auto simp: pool_inv_def)
    show ?thesis
    proof (cases "increment_size_f P = 0")
      case True
      with run_callback_ok[OF P cb, of sz] inv head P show ?thesis
        by (auto simp: mdl_pool_allocate_find_def pool_inv_same_memory pool_frame_same_memory)
    next
      case False
      let ?g = "grow_size (increment_size_f P) sz"
      have "0 < unat (increment_size_f P)" using False by (simp add: unat_gt_0)
      then have g: "unat sz + 44 \<le> unat ?g" using sz by (rule grow_size_enough)
      then obtain c t where ct: "mdl_pool_create_block F p ?g s = Some (c, t)"
        "c = NULL \<longrightarrow> same_memory s t"
        "c \<noteq> NULL \<longrightarrow> pool_inv t p (c # bs) \<and> c \<notin> set bs \<and> blk_cur t c = unat c + 40 \<and>
           blk_end t c = unat c + unat ?g \<and> (\<forall>b \<in> set bs. blocks t b = blocks s b) \<and> pool_frame s p bs t \<and>
           malloc_ok c ?g s \<and> live t = (c, ?g) # live s"
        using create_block_ok[OF inv, of ?g] by auto
      show ?thesis
      proof (cases "c = NULL")
        case True
        with ct inv head False P show ?thesis
          by (auto simp: mdl_pool_allocate_find_def pool_inv_same_memory pool_frame_same_memory)
      next
        case c: False
        then have t: "pool_inv t p (c # bs)" "c \<notin> set bs" "blk_cur t c = unat c + 40"
          "blk_end t c = unat c + unat ?g" "\<forall>b \<in> set bs. blocks t b = blocks s b" "pool_frame s p bs t"
          using ct(3) by auto
        have okc: "block_ok t c" using t(1) by (simp add: pool_inv_def)
        have fit: "fits t c sz" using pool_round_bounds(2)[OF sz4] g t(3,4) by (simp add: fits_def)
        have run: "mdl_pool_allocate_find F p sz s = Some (current_f (the (blocks t c)), bump c sz t)"
          using head False P ct(1) c fit block_ok_not_null[OF okc]
          by (simp add: mdl_pool_allocate_find_def alloc_from_block_ok[OF okc])
        have gr: "granted t (c # bs) sz (current_f (the (blocks t c))) (bump c sz t) (c # bs)"
          using granted_bump[OF okc _ fit sz4, of "c # bs"] by simp
        have bx: "blocks (bump c sz t) x = blocks s x" if "x \<in> set bs" for x
          using that t(2,5) bump_block(3)[OF okc fit sz4, of x] by auto
        have "granted s bs sz (current_f (the (blocks t c))) (bump c sz t) (c # bs)"
          unfolding granted_def
        proof (intro conjI)
          show "unat (current_f (the (blocks t c))) mod 4 = 0" using gr by (simp add: granted_def)
          show "\<forall>x \<in> set bs. blk_end (bump c sz t) x = blk_end s x" using bx by (simp add: blk_end_def)
          have "unat (current_f (the (blocks t c))) = unat c + 40" using t(3) by (simp add: blk_cur_def)
          moreover have "unat c + 40 + unat sz \<le> blk_cur (bump c sz t) c"
            using bump_block(1)[OF okc fit sz4] pool_round_bounds(1)[OF sz4] t(3) by simp
          ultimately show "\<exists>b \<in> set (c # bs). unat b + 40 \<le> unat (current_f (the (blocks t c))) \<and>
              unat (current_f (the (blocks t c))) + unat sz \<le> blk_cur (bump c sz t) b \<and>
              (b \<in> set bs \<longrightarrow> unat (current_f (the (blocks t c))) = blk_cur s b \<and> blk_cur s b \<le> blk_cur (bump c sz t) b) \<and>
              (\<forall>x \<in> set bs. x \<noteq> b \<longrightarrow> blocks (bump c sz t) x = blocks s x)"
            using t(2) bx by (intro bexI[of _ c]) auto
        qed auto
        moreover have "pool_inv (bump c sz t) p (c # bs)"
          using bump_pool_inv[OF t(1) _ fit sz4] by simp
        moreover have "\<not> in_chunk s (unat c) (unat c + 1)"
          using ct(3) c g malloc_ok_disjoint[of c ?g s "unat c" "unat c + 1"] by auto
        then have "pool_frame s p bs (bump c sz t)"
          using t(6) unfolding pool_frame_def by (auto simp: bump_def)
        ultimately show ?thesis using run block_ok_not_null[OF okc] by auto
      qed
    qed
  qed
qed

lemma alloc_ok:
  assumes inv: "pool_inv s p bs" and P: "pools s p = Some P"
    and sz: "unat sz + unat (increment_size_f P) + 44 < 2 ^ 64"
  shows "\<exists>q t bs'. mdl_pool_alloc F p sz s = Some (q, t) \<and> pool_inv t p bs' \<and> pool_frame s p bs t \<and>
    (if q = NULL then bs' = bs \<and> same_memory s t else granted s bs sz q t bs')"
proof -
  obtain b rest where bs: "bs = b # rest" using inv by (cases bs) (auto simp: pool_inv_def)
  have nx: "get_next (block_head_list p) (heads s) = Some b"
    using dlist_ends(1)[of "heads s" "block_head_list p" bs] inv bs by (simp add: pool_inv_def)
  have ok: "block_ok s b" using inv bs by (simp add: pool_inv_def)
  have sz4: "unat sz + 4 < 2 ^ 64" using sz by simp
  show ?thesis
  proof (cases "fits s b sz")
    case True
    then have "mdl_pool_alloc F p sz s = Some (current_f (the (blocks s b)), bump b sz s)"
      using nx block_ok_not_null[OF ok] by (simp add: mdl_pool_alloc_def alloc_from_block_ok[OF ok])
    with True bump_pool_inv[OF inv _ True sz4] granted_bump[OF ok _ True sz4, of bs]
      pool_frame_bump[of b bs s p sz] block_ok_not_null[OF ok] bs
    show ?thesis by auto
  next
    case False
    then have "mdl_pool_alloc F p sz s = mdl_pool_allocate_find F p sz s"
      using nx by (simp add: mdl_pool_alloc_def alloc_from_block_ok[OF ok])
    with allocate_find_ok[OF inv P sz] show ?thesis by simp
  qed
qed

end

subsection \<open>Creating a pool\<close>

lemma on_heads_Some: "f (heads s) = Some h \<Longrightarrow> on_heads f s = Some (s\<lparr>heads := h\<rparr>)"
  by (simp add: on_heads_def)

lemma set_pool_Some: "pools s p \<noteq> None \<Longrightarrow> set_pool p v s = Some (s\<lparr>pools := (pools s)(p \<mapsto> v)\<rparr>)"
  by (simp add: set_pool_def)

lemma set_block_Some: "blocks s b \<noteq> None \<Longrightarrow> set_block b v s = Some (s\<lparr>blocks := (blocks s)(b \<mapsto> v)\<rparr>)"
  by (simp add: set_block_def)

context block_allocator
begin

lemma create_int_ok:
  assumes sz: "144 \<le> unat sz" and cb: "cb \<noteq> NULL \<or> policy_callback_f (policy_f F) \<noteq> NULL"
  shows "\<exists>p t. mdl_pool_create_int F name sz inc cb s = Some (p, t) \<and> same_scalars s t \<and>
    (p = NULL \<longrightarrow> same_memory s t) \<and>
    (p \<noteq> NULL \<longrightarrow> pool_inv t p [p + sizeof_pool] \<and> malloc_ok p sz s \<and> live t = (p, sz) # live s \<and>
       blk_cur t (p + sizeof_pool) = unat p + 144 \<and> blk_end t (p + sizeof_pool) = unat p + unat sz \<and>
       (\<exists>P. pools t p = Some P \<and> increment_size_f P = inc \<and> capacity_f P = sz) \<and> p \<in> dom (heads t) \<and>
       (\<forall>a. in_chunk s (unat a) (unat a + 1) \<longrightarrow>
          heads t a = heads s a \<and> blocks t a = blocks s a \<and> pools t a = pools s a))"
proof -
  have size_ok: "sizeof_pool + sizeof_block \<le> sz"
    using sz by (simp add: word_le_nat_alt sizeof_block_def sizeof_pool_def)
  obtain p s1 where al: "block_alloc_f (policy_f F) (hooks_f F) sz s = Some (p, s1)"
    using alloc_returns by blast
  show ?thesis
  proof (cases "p = NULL")
    case True
    with al alloc_null alloc_scalars[OF al] size_ok show ?thesis by (auto simp: mdl_pool_create_int_def Let_def)
  next
    case False
    then have c: "malloc_ok p sz s" and m: "same_memory (map_chunk p sz s) s1"
      using alloc_chunk[OF al] by auto
    have nowrap: "unat p + unat sz < 2 ^ 64" and al16: "unat p mod 16 = 0"
      using c unat_and_mask_pow2[of "16 :: addr" 4 p] by (auto simp: malloc_ok_def)
    have s1: "heads s1 = heads (map_chunk p sz s)" "blocks s1 = blocks (map_chunk p sz s)"
      "pools s1 = pools (map_chunk p sz s)" "live s1 = (p, sz) # live s"
      using m by (auto simp: same_memory_def map_chunk_def)
    let ?head = "block_head_list p" and ?b = "p + sizeof_pool"
    have ah: "unat ?head = unat p + 80" using nowrap sz by (simp add: block_head_list_def unat_word_ariths)
    have ab: "unat ?b = unat p + 104" using nowrap sz by (simp add: sizeof_pool_def unat_word_ariths)
    have as: "unat (?b + sizeof_block) = unat p + 144"
      using nowrap sz ab by (simp add: unat_word_ariths(1)[of ?b] sizeof_block_def)
    have hb: "?head \<noteq> ?b" by (simp add: block_head_list_def sizeof_pool_def)
    have dom1: "?head \<in> dom (heads s1)" "?b \<in> dom (heads s1)" "p \<in> dom (heads s1)"
      "blocks s1 ?b \<noteq> None" "pools s1 p \<noteq> None"
      using sz ah ab by (auto simp: s1 map_chunk_def within_def)
    obtain h1 where h1: "INIT_LIST_HEAD ?head (heads s1) = Some h1" "dlist h1 ?head []"
      "dom h1 = dom (heads s1)" "\<forall>a. a \<noteq> ?head \<longrightarrow> h1 a = heads s1 a"
      using INIT_LIST_HEAD_dlist[OF dom1(1)] by auto
    obtain h2 where h2: "list_add ?b ?head h1 = Some h2" "dlist h2 ?head [?b]" "dom h2 = dom h1"
      "\<forall>a. a \<notin> {?b, ?head} \<longrightarrow> h2 a = h1 a"
      using list_add_dlist[OF h1(2), of ?b] dom1(2) h1(3) hb by auto
    have "(unat p + 144) mod 4 = 0" using al16 by presburger
    then have cur: "ALIGN_PTR (?b + sizeof_block) POOL_ALIGNMENT = ?b + sizeof_block"
      by (intro ALIGN_PTR_aligned) (simp add: as)
    define k where "k = \<lparr>start_f = ?b + sizeof_block, current_f = ?b + sizeof_block, end_f = p + sz\<rparr>"
    define cb' where "cb' = (if cb = NULL then policy_callback_f (policy_f F) else cb)"
    define nm where "nm = (case name of Some xs \<Rightarrow> (take 32 (xs @ replicate 32 0))[31 := 0]
      | None \<Rightarrow> (name_f zero_pool)[0 := 0])"
    define P where "P = zero_pool\<lparr>factory_f := factory_addr F, increment_size_f := inc, callback_f := cb',
      name_f := nm, capacity_f := sz\<rparr>"
    define t where "t = s1\<lparr>blocks := (blocks s1)(?b \<mapsto> k), heads := h2, pools := (pools s1)(p \<mapsto> P)\<rparr>"
    have run: "mdl_pool_create_int F name sz inc cb s = Some (p, t)"
      using size_ok al False dom1(4,5) h1(1) h2(1)
      by (cases name) (simp_all add: mdl_pool_create_int_def mdl_pool_init_int_def Let_def set_pool_Some on_heads_Some
          set_block_Some cur t_def P_def k_def cb'_def nm_def zero_pool_def)
    have be: "blk_end t ?b = unat p + unat sz" using nowrap by (simp add: t_def k_def blk_end_def unat_word_ariths)
    have bc: "blk_cur t ?b = unat p + 144" using as by (simp add: t_def k_def blk_cur_def)
    have pin: "in_chunk t lo hi" if "unat p \<le> lo" "hi \<le> unat p + unat sz" for lo hi
      using that s1(4) by (auto simp: in_chunk_def t_def)
    have "?b \<noteq> NULL" using ab by auto
    moreover have "(unat p + 104) mod 4 = 0" using al16 by presburger
    ultimately have "block_ok t ?b"
      unfolding block_ok_def bc be ab
      using \<open>(unat p + 144) mod 4 = 0\<close> sz pin[of "unat p + 104" "unat p + unat sz"] by (simp add: t_def k_def)
    moreover have "cb' \<noteq> NULL" using cb by (auto simp: cb'_def)
    moreover have "in_chunk t (unat p) (unat p + 104)" using pin sz by simp
    moreover have "capacity_f P = sizeof_pool + sum_list (map (\<lambda>b. end_f (the (blocks t b)) - b) [?b])"
      by (simp add: P_def t_def k_def)
    ultimately have inv: "pool_inv t p [?b]"
      using h2(2) nowrap sz be ab False unfolding pool_inv_def by (auto simp: t_def P_def region_def)
    have "heads t a = heads s a \<and> blocks t a = blocks s a \<and> pools t a = pools s a"
      if a: "in_chunk s (unat a) (unat a + 1)" for a
    proof -
      have "unat a + 1 \<le> unat p \<or> unat p + unat sz \<le> unat a" using malloc_ok_disjoint[OF c a] by simp
      then have "a \<noteq> p" "a \<noteq> ?b" "a \<noteq> ?head" using ab ah sz by auto
      then show ?thesis
        using map_chunk_old[OF c a] h1(4) h2(4) by (simp add: t_def s1)
    qed
    moreover have "p \<in> dom (heads t)" using dom1(3) h1(3) h2(3) by (simp add: t_def)
    moreover have "pools t p = Some P" "increment_size_f P = inc" "capacity_f P = sz"
      by (simp_all add: t_def P_def)
    moreover have "same_scalars s t" using alloc_scalars[OF al] by (simp add: same_scalars_def t_def)
    ultimately show ?thesis using run inv bc be c s1(4) False by (auto simp: t_def)
  qed
qed

end

section \<open>The default policy keeps the interface\<close>

lemma cpool_hooks_same_memory:
  "same_memory s (snd (cpool_on_block_alloc sz s))" "fst (cpool_on_block_alloc sz s)"
  "same_memory s (cpool_on_block_free sz s)"
  "callbacks (snd (cpool_on_block_alloc sz s)) = callbacks s" "callbacks (cpool_on_block_free sz s) = callbacks s"
  "same_scalars s (snd (cpool_on_block_alloc sz s))" "same_scalars s (cpool_on_block_free sz s)"
  by (auto simp: cpool_on_block_alloc_def cpool_on_block_free_def same_memory_def same_scalars_def Let_def)

lemma map_chunk_same_memory: "same_memory s t \<Longrightarrow> same_memory (map_chunk c sz s) (map_chunk c sz t)"
  by (auto simp: same_memory_def map_chunk_def)

lemma default_block_alloc_cases:
  assumes "block_alloc_f (policy_f (caching_factory cp cb)) (hooks_f (caching_factory cp cb)) sz s = Some (p, t)"
  shows "callbacks t = callbacks s" "same_scalars s t" "p = NULL \<Longrightarrow> same_memory s t"
    "p \<noteq> NULL \<Longrightarrow> malloc_ok p sz s \<and> same_memory (map_chunk p sz s) t"
proof -
  obtain s1 where s1: "cpool_on_block_alloc sz s = (True, s1)" "same_memory s s1" "callbacks s1 = callbacks s"
    and sc: "same_scalars s s1"
    using cpool_hooks_same_memory[where s = s and sz = sz] by (cases "cpool_on_block_alloc sz s") auto
  have ok: "malloc_ok q sz s1 = malloc_ok q sz s" for q using s1(2) by (simp add: malloc_ok_def same_memory_def)
  have run: "(let (q, s2) = c_malloc sz s1 in
      if q = NULL then Some (NULL, cpool_on_block_free sz s2) else Some (q, s2)) = Some (p, t)"
    using assms s1(1)
    by (cases "c_malloc sz s1") (auto simp: caching_factory_def mdl_pool_factory_default_policy_def default_block_alloc_def SIG_SIZE_def Let_def)
  note free = cpool_hooks_same_memory(3,5,7)
  have sct: "same_scalars s1 t \<Longrightarrow> same_scalars s t" using sc by (simp add: same_scalars_def)
  have trans: "same_memory s1 t \<Longrightarrow> same_memory s t" using s1(2) by (rule same_memory_trans)
  consider "mallocs s1 = []" | q qs where "mallocs s1 = q # qs" by (cases "mallocs s1") auto
  then have "callbacks t = callbacks s \<and> same_scalars s t \<and> (p = NULL \<longrightarrow> same_memory s t) \<and>
    (p \<noteq> NULL \<longrightarrow> malloc_ok p sz s \<and> same_memory (map_chunk p sz s) t)"
  proof cases
    case 1
    with run have "p = NULL" "t = cpool_on_block_free sz s1" by (auto simp: c_malloc_def)
    with free[where s = s1 and sz = sz] s1(3) trans sct show ?thesis by simp
  next
    case 2
    let ?s2 = "s1\<lparr>mallocs := qs\<rparr>"
    have m2: "same_memory s1 ?s2" by (simp add: same_memory_def)
    show ?thesis
    proof (cases "malloc_ok q sz s1")
      case True
      then have "q \<noteq> NULL" by (simp add: malloc_ok_def)
      with run 2 True have "p = q" "t = map_chunk q sz ?s2" by (auto simp: c_malloc_def Let_def)
      moreover have "same_memory (map_chunk q sz s) (map_chunk q sz ?s2)"
        using s1(2) m2 by (blast intro: map_chunk_same_memory same_memory_trans)
      moreover have "same_scalars s1 (map_chunk q sz ?s2)" by (simp add: same_scalars_def map_chunk_def)
      ultimately show ?thesis using True ok s1(3) sct \<open>q \<noteq> NULL\<close> by (simp add: map_chunk_def)
    next
      case False
      with run 2 have "p = NULL" "t = cpool_on_block_free sz ?s2" by (auto simp: c_malloc_def Let_def)
      moreover have "same_scalars s1 ?s2" by (simp add: same_scalars_def)
      ultimately show ?thesis
        using free[where s = ?s2 and sz = sz] m2 s1(3) trans sct
        by (auto intro: same_memory_trans simp: same_scalars_def)
    qed
  qed
  then show "callbacks t = callbacks s" "same_scalars s t" "p = NULL \<Longrightarrow> same_memory s t"
    "p \<noteq> NULL \<Longrightarrow> malloc_ok p sz s \<and> same_memory (map_chunk p sz s) t" by auto
qed

interpretation dp: block_allocator "caching_factory cp cb" for cp cb
proof
  fix sz s
  show "\<exists>p t. block_alloc_f (policy_f (caching_factory cp cb)) (hooks_f (caching_factory cp cb)) sz s = Some (p, t)"
    by (auto simp: caching_factory_def mdl_pool_factory_default_policy_def default_block_alloc_def Let_def
        split: prod.splits)
qed (auto dest: default_block_alloc_cases)


section \<open>Sequences of allocations\<close>

fun pool_allocs :: "pool_factory \<Rightarrow> addr \<Rightarrow> size_t list \<Rightarrow> pool_state \<Rightarrow> (addr list \<times> pool_state) option" where
  "pool_allocs F p [] s = Some ([], s)"
| "pool_allocs F p (sz # szs) s = do {
     (q, s) \<leftarrow> mdl_pool_alloc F p sz s;
     (qs, s) \<leftarrow> pool_allocs F p szs s;
     Some (q # qs, s) }"

text \<open>A piece lies in a block of the final state, above what the block had given away at the start.\<close>

definition placed :: "pool_state \<Rightarrow> addr list \<Rightarrow> pool_state \<Rightarrow> addr list \<Rightarrow> addr \<Rightarrow> size_t \<Rightarrow> bool" where
  "placed s bs t bs' q sz \<longleftrightarrow> unat q mod 4 = 0 \<and>
     (\<exists>b \<in> set bs'. unat b + 40 \<le> unat q \<and> unat q + unat sz \<le> blk_cur t b \<and> (b \<in> set bs \<longrightarrow> blk_cur s b \<le> unat q))"

definition grows :: "pool_state \<Rightarrow> addr list \<Rightarrow> pool_state \<Rightarrow> addr list \<Rightarrow> bool" where
  "grows s bs t bs' \<longleftrightarrow> set bs \<subseteq> set bs' \<and> (\<forall>x \<in> set bs. blk_end t x = blk_end s x \<and> blk_cur s x \<le> blk_cur t x)"

lemma grows_trans: "grows s bs t bs' \<Longrightarrow> grows t bs' u bs'' \<Longrightarrow> grows s bs u bs''"
  unfolding grows_def by (metis order_trans subsetD)

lemma granted_grows: "granted s bs sz q t bs' \<Longrightarrow> grows s bs t bs'"
  unfolding granted_def grows_def blk_cur_def by (metis order_refl)

lemma granted_placed: "granted s bs sz q t bs' \<Longrightarrow> placed s bs t bs' q sz"
  unfolding granted_def placed_def by (metis order_refl)

lemma placed_later:
  assumes "placed s bs t bs' q sz" "grows t bs' u bs''"
  shows "placed s bs u bs'' q sz"
  using assms unfolding placed_def grows_def by (meson order_trans subsetD)

lemma placed_earlier:
  assumes "placed t bs' u bs'' q sz" "grows s bs t bs'"
  shows "placed s bs u bs'' q sz"
  using assms unfolding placed_def grows_def by (meson order_trans subsetD)

lemma grows_refl: "grows s bs s bs"
  by (simp add: grows_def)

lemma grows_same_memory: "same_memory s t \<Longrightarrow> grows s bs t bs"
  by (simp add: grows_def same_memory_def blk_end_def blk_cur_def)

definition piece :: "addr \<Rightarrow> size_t \<Rightarrow> nat set" where
  "piece q sz = {unat q ..< unat q + unat sz}"

lemma pieces_disjoint:
  assumes "placed s bs t bs' q sz" "placed t bs' u bs'' q' sz'" "grows t bs' u bs''" "pool_inv u p bs''"
  shows "piece q sz \<inter> piece q' sz' = {}"
proof -
  obtain b where b: "b \<in> set bs'" "unat b + 40 \<le> unat q" "unat q + unat sz \<le> blk_cur t b"
    using assms(1) by (auto simp: placed_def)
  obtain b' where b': "b' \<in> set bs''" "unat b' + 40 \<le> unat q'" "unat q' + unat sz' \<le> blk_cur u b'"
    "b' \<in> set bs' \<longrightarrow> blk_cur t b' \<le> unat q'"
    using assms(2) by (auto simp: placed_def)
  show ?thesis
  proof (cases "b = b'")
    case True
    with b b' have "unat q + unat sz \<le> unat q'" by simp
    then show ?thesis by (auto simp: piece_def)
  next
    case False
    have bu: "b \<in> set bs''" "blk_cur t b \<le> blk_cur u b" using assms(3) b(1) by (auto simp: grows_def)
    have "region u b \<inter> region u b' = {}" using assms(4) bu(1) b'(1) False by (simp add: pool_inv_def)
    moreover have "blk_cur u x \<le> blk_end u x" if "x \<in> set bs''" for x
      using assms(4) that by (simp add: pool_inv_def block_ok_def)
    then have "piece q sz \<subseteq> region u b" "piece q' sz' \<subseteq> region u b'"
      using b b' bu by (force simp: piece_def region_def)+
    ultimately show ?thesis by blast
  qed
qed

context block_allocator
begin

lemma pool_allocs_ok:
  assumes "pool_inv s p bs" "pools s p = Some P"
    and "\<forall>sz \<in> set szs. unat sz + unat (increment_size_f P) + 44 < 2 ^ 64"
  shows "\<exists>qs t bs'. pool_allocs F p szs s = Some (qs, t) \<and> length qs = length szs \<and> pool_inv t p bs' \<and>
    grows s bs t bs' \<and>
    (\<forall>i<length szs. qs ! i \<noteq> NULL \<longrightarrow> placed s bs t bs' (qs ! i) (szs ! i)) \<and>
    (\<forall>i j. i < j \<and> j < length szs \<and> qs ! i \<noteq> NULL \<and> qs ! j \<noteq> NULL \<longrightarrow>
       piece (qs ! i) (szs ! i) \<inter> piece (qs ! j) (szs ! j) = {})"
  using assms
proof (induction szs arbitrary: s bs P)
  case Nil
  then show ?case by (auto simp: grows_refl)
next
  case (Cons sz szs)
  obtain q t bs' where q: "mdl_pool_alloc F p sz s = Some (q, t)" "pool_inv t p bs'" "pool_frame s p bs t"
    "if q = NULL then bs' = bs \<and> same_memory s t else granted s bs sz q t bs'"
    using alloc_ok[OF Cons(2,3), of sz] Cons(4) by auto
  have g: "grows s bs t bs'" using q(4) by (auto split: if_splits intro: grows_same_memory granted_grows)
  obtain P' where P': "pools t p = Some P'" "increment_size_f P' = increment_size_f P"
    using q(3) Cons(3) by (auto simp: pool_frame_def)
  obtain qs u bs'' where r: "pool_allocs F p szs t = Some (qs, u)" "length qs = length szs" "pool_inv u p bs''"
    "grows t bs' u bs''" "\<forall>i<length szs. qs ! i \<noteq> NULL \<longrightarrow> placed t bs' u bs'' (qs ! i) (szs ! i)"
    "\<forall>i j. i < j \<and> j < length szs \<and> qs ! i \<noteq> NULL \<and> qs ! j \<noteq> NULL \<longrightarrow>
       piece (qs ! i) (szs ! i) \<inter> piece (qs ! j) (szs ! j) = {}"
    using Cons(1)[OF q(2) P'(1)] Cons(4) P'(2) by auto
  have pq: "q \<noteq> NULL \<Longrightarrow> placed s bs t bs' q sz" using q(4) by (simp add: granted_placed)
  have pl: "\<forall>i<length (sz # szs). (q # qs) ! i \<noteq> NULL \<longrightarrow> placed s bs u bs'' ((q # qs) ! i) ((sz # szs) ! i)"
    using pq r(4,5) g by (auto simp: nth_Cons split: nat.splits intro: placed_later placed_earlier)
  have dj: "piece ((q # qs) ! i) ((sz # szs) ! i) \<inter> piece ((q # qs) ! j) ((sz # szs) ! j) = {}"
    if ij: "i < j" "j < length (sz # szs)" "(q # qs) ! i \<noteq> NULL" "(q # qs) ! j \<noteq> NULL" for i j
  proof -
    obtain j' where j: "j = Suc j'" "j' < length szs" using ij(1,2) by (cases j) auto
    then have qj: "placed t bs' u bs'' (qs ! j') (szs ! j')" using r(5) ij(4) by simp
    show ?thesis
    proof (cases i)
      case 0
      then show ?thesis using pieces_disjoint[OF pq qj r(4,3)] ij(3) j by simp
    next
      case (Suc i')
      then show ?thesis using r(6) ij j by simp
    qed
  qed
  have "pool_allocs F p (sz # szs) s = Some (q # qs, u)" using q(1) r(1) by simp
  moreover have "length (q # qs) = length (sz # szs)" using r(2) by simp
  ultimately show ?case
    using r(3) grows_trans[OF g r(4)] pl dj by blast
qed

end

section \<open>Reset\<close>

text \<open>A pool that never grew is reset to its state after creation.\<close>

lemma reset_single:
  assumes "pool_inv s p [b]" "b = p + sizeof_pool"
  shows "\<exists>t. reset_pool F p s = Some t \<and> pool_inv t p [b] \<and> blk_cur t b = unat b + 40 \<and>
    mdl_pool_get_capacity p t = mdl_pool_get_capacity p s \<and> heads t = heads s \<and> live t = live s \<and>
    same_scalars s t \<and> (\<forall>x. x \<noteq> b \<longrightarrow> blocks t x = blocks s x) \<and> (\<forall>x. x \<noteq> p \<longrightarrow> pools t x = pools s x) \<and>
    map_option data_factory_f (pools t p) = map_option data_factory_f (pools s p)"
proof -
  let ?h = "block_head_list p"
  have d: "dlist (heads s) ?h [b]" and ok: "block_ok s b" using assms(1) by (auto simp: pool_inv_def)
  obtain k where k: "blocks s b = Some k" using ok by (auto simp: block_ok_def)
  obtain P where P: "pools s p = Some P" "capacity_f P = sizeof_pool + (end_f k - b)" "callback_f P \<noteq> NULL"
    using assms(1) k by (auto simp: pool_inv_def)
  have hb: "b \<noteq> ?h" using d by (auto simp: dlist_def)
  have loop: "reset_loop F ?h NULL b s = Some (b, s)"
    using dlist_entry(1)[of "heads s" ?h "[]" b "[]"] d hb by (subst reset_loop.simps) simp
  have st: "start_f k = b + sizeof_block" "unat b + 40 \<le> unat (end_f k)"
    using ok k by (auto simp: block_ok_def blk_cur_def blk_end_def)
  then have us: "unat (b + sizeof_block) = unat b + 40"
    using unsigned_less[of "end_f k", where ?'a = nat] by (simp add: unat_word_ariths sizeof_block_def)
  have "unat b mod 4 = 0" using ok by (simp add: block_ok_def)
  then have "(unat b + 40) mod 4 = 0" by presburger
  then have al: "ALIGN_PTR (b + sizeof_block) POOL_ALIGNMENT = b + sizeof_block"
    by (intro ALIGN_PTR_aligned) (simp add: us)
  define t where "t = s\<lparr>blocks := (blocks s)(b \<mapsto> k\<lparr>current_f := b + sizeof_block\<rparr>),
    pools := (pools s)(p \<mapsto> P\<lparr>capacity_f := end_f k - p\<rparr>)\<rparr>"
  have "list_empty ?h (heads s) = Some False" using list_empty_dlist[OF d] by simp
  moreover have "get_prev ?h (heads s) = Some b" using dlist_ends(2)[OF d] by simp
  ultimately have run: "reset_pool F p s = Some t"
    using loop k P by (simp add: reset_pool_def set_block_def set_pool_def st(1) al t_def)
  have cur: "blk_cur t b = unat b + 40" using us by (simp add: blk_cur_def t_def)
  have en: "blk_end t b = blk_end s b" using k by (simp add: blk_end_def t_def)
  have cap: "end_f k - p = capacity_f P" using P(2) assms(2) by simp
  have "block_ok t b"
    using ok st cur en \<open>(unat b + 40) mod 4 = 0\<close> k
    by (auto simp: block_ok_def in_chunk_def t_def blk_end_def)
  moreover have "heads t = heads s" "live t = live s" "end_f (the (blocks t b)) = end_f k"
    "pools t p = Some (P\<lparr>capacity_f := capacity_f P\<rparr>)"
    by (simp_all add: t_def cap)
  ultimately have "pool_inv t p [b]"
    using assms(1) P en k by (auto simp: pool_inv_def in_chunk_def region_def)
  moreover have "same_scalars s t" by (simp add: same_scalars_def t_def)
  ultimately show ?thesis
    using run cur P cap by (auto simp: t_def mdl_pool_get_capacity_def)
qed

text \<open>A pool that grew cannot be reset: the loop frees an entry and then reads its link.\<close>

lemma reset_grown:
  assumes "pool_inv s p bs" "2 \<le> length bs" "\<forall>c \<in> set (live s). 0 < snd c"
  shows "reset_pool (caching_factory cp cb) p s = None"
proof -
  let ?h = "block_head_list p"
  obtain ys l where bs: "bs = ys @ [l]" using assms(2) by (cases bs rule: rev_cases) auto
  then obtain zs m where ys: "ys = zs @ [m]" using assms(2) by (cases ys rule: rev_cases) auto
  have d: "dlist (heads s) ?h (ys @ l # [])" and ok: "block_ok s l" using assms(1) bs by (auto simp: pool_inv_def)
  have l: "l \<noteq> NULL" "l \<noteq> ?h" using ok d by (auto simp: block_ok_def dlist_def)
  obtain k where k: "blocks s l = Some k" using ok by (auto simp: block_ok_def)
  have pv: "get_prev l (heads s) = Some m" using dlist_entry(1)[OF d] ys by simp
  have m: "m \<noteq> ?h" using d ys by (auto simp: dlist_def)
  obtain h' where h': "list_del l (heads s) = Some h'" using list_del_dlist[OF d] by auto
  let ?s = "cpool_on_block_free (end_f k - l) (s\<lparr>heads := h'\<rparr>)"
  have free: "call_block_free (caching_factory cp cb) l (end_f k - l) (s\<lparr>heads := h'\<rparr>) = c_free l ?s"
    by (simp add: call_block_free_def caching_factory_def mdl_pool_factory_default_policy_def default_block_free_def)
  have lv: "live ?s = live s" by (simp add: cpool_on_block_free_def)
  have dead: "c_free l ?s = Some u \<Longrightarrow> get_prev l (heads u) = None" for u
  proof -
    assume u: "c_free l ?s = Some u"
    then obtain sz where sz: "map_of (live s) l = Some sz" "u = unmap_chunk l sz ?s"
      using l(1) lv by (auto simp: c_free_def split: option.splits)
    then have "0 < sz" using assms(3) map_of_SomeD[OF sz(1)] by fastforce
    then have "within l sz 1 l" by (simp add: within_def unat_gt_0 Suc_le_eq word_neq_0_conv)
    with sz(2) show ?thesis by (simp add: unmap_chunk_def get_prev_def)
  qed
  have "reset_loop (caching_factory cp cb) ?h NULL l s = None"
    using l(2) pv m h' k dead
    by (subst reset_loop.simps) (auto simp: on_heads_Some free split: bind_splits)
  moreover have "list_empty ?h (heads s) = Some False" using list_empty_dlist[OF d] by simp
  moreover have "get_prev ?h (heads s) = Some l" using dlist_ends(2)[OF d] by simp
  ultimately show ?thesis by (simp add: reset_pool_def)
qed

lemma destroy_grown:
  assumes "pool_inv s p bs" "2 \<le> length bs" "\<forall>c \<in> set (live s). 0 < snd c"
  shows "mdl_pool_destroy_int (caching_factory cp cb) p s = None"
  using reset_grown[OF assms] by (simp add: mdl_pool_destroy_int_def split: bind_splits)


lemma placed_inside:
  assumes "placed s bs t bs' q sz" "pool_inv t p bs'"
  shows "in_chunk t (unat q) (unat q + unat sz)" "piece q sz \<inter> {unat p ..< unat p + 104} = {}"
proof -
  obtain b where b: "b \<in> set bs'" "unat b + 40 \<le> unat q" "unat q + unat sz \<le> blk_cur t b"
    using assms(1) by (auto simp: placed_def)
  have ok: "block_ok t b" and sep: "region t b \<inter> {unat p ..< unat p + 104} = {}"
    using assms(2) b(1) by (auto simp: pool_inv_def)
  then have cur: "blk_cur t b \<le> blk_end t b" "in_chunk t (unat b) (blk_end t b)" by (auto simp: block_ok_def)
  show "in_chunk t (unat q) (unat q + unat sz)"
    using cur(2) by (rule in_chunk_mono) (use b cur(1) in auto)
  have "piece q sz \<subseteq> region t b" using b cur by (auto simp: piece_def region_def)
  with sep show "piece q sz \<inter> {unat p ..< unat p + 104} = {}" by blast
qed

definition ex_pool_state :: pool_state where
  "ex_pool_state = \<lparr>heads = (\<lambda>_. None), blocks = (\<lambda>_. None), pools = (\<lambda>_. None), live = [],
     mallocs = [4096, 8192], callbacks = [], cp_capacity = 0, cp_max_capacity = 0, cp_used_count = 0,
     cp_used_size = 0, cp_peak_used_size = 0, cp_lock = False\<rparr>"

text \<open>A pool of 256 bytes at 4096, alone and after it grew by a block of 512 bytes at 8192.\<close>

definition ex_pool :: "size_t \<Rightarrow> mdl_pool" where
  "ex_pool cap = \<lparr>name_f = replicate 32 0, capacity_f = cap, increment_size_f = 512, factory_f = 64,
     data_factory_f = 0, callback_f = 128\<rparr>"

definition ex_single :: pool_state where
  "ex_single = ex_pool_state\<lparr>
     heads := [4176 \<mapsto> \<lparr>next_f = 4200, prev_f = 4200\<rparr>, 4200 \<mapsto> \<lparr>next_f = 4176, prev_f = 4176\<rparr>],
     blocks := [4200 \<mapsto> \<lparr>start_f = 4240, current_f = 4300, end_f = 4352\<rparr>],
     pools := [4096 \<mapsto> ex_pool 256], live := [(4096, 256)]\<rparr>"

definition ex_grown :: pool_state where
  "ex_grown = ex_pool_state\<lparr>
     heads := [4176 \<mapsto> \<lparr>next_f = 8192, prev_f = 4200\<rparr>, 8192 \<mapsto> \<lparr>next_f = 4200, prev_f = 4176\<rparr>,
       4200 \<mapsto> \<lparr>next_f = 4176, prev_f = 8192\<rparr>],
     blocks := [8192 \<mapsto> \<lparr>start_f = 8232, current_f = 8532, end_f = 8704\<rparr>,
       4200 \<mapsto> \<lparr>start_f = 4240, current_f = 4300, end_f = 4352\<rparr>],
     pools := [4096 \<mapsto> ex_pool 768], live := [(8192, 512), (4096, 256)]\<rparr>"

lemma in_chunk_ex:
  "in_chunk s lo hi \<longleftrightarrow> (\<exists>c \<in> set (live s). unat (fst c) \<le> lo \<and> hi \<le> unat (fst c) + unat (snd c))"
  by (force simp: in_chunk_def)

lemmas ex_pool_defs = pool_inv_def block_head_list_def dlist_def get_next_def get_prev_def block_ok_def
  blk_cur_def blk_end_def in_chunk_ex region_def sizeof_pool_def sizeof_block_def ex_pool_def ex_pool_state_def

lemma ex_single_inv: "pool_inv ex_single 4096 [4200]"
  by (simp add: ex_pool_defs ex_single_def)

lemma ex_grown_inv: "pool_inv ex_grown 4096 [8192, 4200]"
  by (simp add: ex_pool_defs ex_grown_def)

section \<open>Properties\<close>



text \<open>
  Resetting a pool that never grew succeeds, makes the whole of its block available again and
  keeps the pool well formed with the same capacity.
\<close>
theorem pool_reset_single_block:
  assumes "pool_inv s p [p + sizeof_pool]"
  shows "\<exists>t. mdl_pool_reset F p s = Some t \<and> pool_inv t p [p + sizeof_pool] \<and>
    blk_cur t (p + sizeof_pool) = unat (p + sizeof_pool) + 40 \<and>
    mdl_pool_get_capacity p t = mdl_pool_get_capacity p s \<and> live t = live s"
  using reset_single[OF assms refl, of F] by (auto simp: mdl_pool_reset_def)

text \<open>Witness: the example pool after 60 bytes were taken from it.\<close>
theorem pool_reset_single_block_witness:
  "\<exists>t. mdl_pool_reset (caching_factory 64 128) 4096 ex_single = Some t \<and> blk_cur t 4200 = 4240"
proof -
  have "pool_inv ex_single 4096 [4096 + sizeof_pool]" using ex_single_inv by (simp add: sizeof_pool_def)
  from pool_reset_single_block[OF this, of "caching_factory 64 128"] show ?thesis
    by (auto simp: sizeof_pool_def)
qed

text \<open>
  C40: Resetting or destroying a pool that grew by at least one block faults: \<open>reset_pool\<close> frees the
  last block of the ring, which is the initial block inside the pool and not a pointer \<open>malloc\<close>
  returned, or, if it were one, reads its link after it was freed.
\<close>
theorem pool_reset_grown_faults:
  assumes "pool_inv s p bs" "2 \<le> length bs" "\<forall>c \<in> set (live s). 0 < snd c"
  shows "mdl_pool_reset (caching_factory cp cb) p s = None \<and>
    mdl_pool_destroy_int (caching_factory cp cb) p s = None"
  using reset_grown[OF assms] destroy_grown[OF assms] by (simp add: mdl_pool_reset_def)

text \<open>Witness: the example pool after it grew once.\<close>
theorem pool_reset_grown_faults_witness:
  "pool_inv ex_grown 4096 [8192, 4200] \<and> mdl_pool_reset (caching_factory 64 128) 4096 ex_grown = None \<and>
   mdl_pool_destroy_int (caching_factory 64 128) 4096 ex_grown = None"
proof -
  have "\<forall>c \<in> set (live ex_grown). 0 < snd c" by (simp add: ex_grown_def)
  then show ?thesis
    using pool_reset_grown_faults[OF ex_grown_inv, of 64 128] ex_grown_inv by simp
qed

text \<open>
  Rounding a request of \<open>2\<^sup>6\<^sup>4 - 3\<close> bytes wraps around to zero: every well-formed block, even a
  full one, serves it and returns a pointer without setting any memory aside.
\<close>
theorem pool_alloc_huge_request_succeeds:
  assumes "block_ok s b"
  shows "mdl_pool_alloc_from_block b (- 3) s = Some (current_f (the (blocks s b)), s) \<and>
    current_f (the (blocks s b)) \<noteq> NULL"
proof -
  have z: "pool_round (- 3) = 0" by (simp add: pool_round_def POOL_ALIGNMENT_def)
  then have "fits s b (- 3)" using assms by (simp add: fits_def block_ok_def)
  moreover have "bump b (- 3) s = s" using assms z by (auto simp: bump_def block_ok_def fun_upd_idem)
  ultimately show ?thesis using alloc_from_block_ok[OF assms, of "- 3"] block_ok_not_null[OF assms] by simp
qed

text \<open>Witness: the example block.\<close>
theorem pool_alloc_huge_request_succeeds_witness:
  "mdl_pool_alloc_from_block 4200 (- 3) ex_single = Some (4300, ex_single)"
proof -
  have "block_ok ex_single 4200" using ex_single_inv by (simp add: pool_inv_def)
  from pool_alloc_huge_request_succeeds[OF this] show ?thesis by (simp add: ex_single_def)
qed

end
