(* ===== verification/Caching.thy ===== *)
theory Caching
  imports Pool
begin

text \<open>
  \<open>pool/caching.c\<close>: the caching pool keeps released pools in sixteen free lists by size class and
  hands them out again; pools in use are in a further list. Its scalar fields are part of the
  state of theory Pool, and its list heads are list heads of that state at the offsets the
  structure has in the LP64 ABI.

  The mutex is one flag: locking it while it is held would wait forever, which is the fault.
  Logging is left out, except that the arguments of the log call in \<open>cpool_release_pool\<close> and of
  those in \<open>cpool_dump_status\<close> are evaluated: they walk the blocks of the pool and divide by its
  capacity. \<open>PJ_SAFE_POOL\<close> is not defined.
\<close>

definition pool_sizes :: "size_t list" where
  "pool_sizes = [256, 512, 1024, 2048, 4096, 8192, 12288, 16384,
     20480, 24576, 28672, 32768, 40960, 49152, 57344, 65536]"

definition CACHING_POOL_ARRAY_SIZE :: int where "CACHING_POOL_ARRAY_SIZE = 16"
definition START_SIZE :: int where "START_SIZE = 5"

definition free_list :: "addr \<Rightarrow> nat \<Rightarrow> addr" where
  "free_list cp i = cp + 112 + 16 * of_nat i"

definition used_list :: "addr \<Rightarrow> addr" where
  "used_list cp = cp + 368"

definition lock_cp :: "pool_state \<Rightarrow> pool_state option" where
  "lock_cp s = (if cp_lock s then None else Some (s\<lparr>cp_lock := True\<rparr>))"

definition unlock_cp :: "pool_state \<Rightarrow> pool_state" where
  "unlock_cp s = s\<lparr>cp_lock := False\<rparr>"

section \<open>Size classes\<close>

function idx_down :: "size_t \<Rightarrow> int \<Rightarrow> int" where
  "idx_down isz idx =
     (if idx \<ge> 0 \<and> pool_sizes ! nat idx \<ge> isz then idx_down isz (idx - 1) else idx)"
  by pat_completeness auto
termination
  by (relation "measure (\<lambda>(isz, idx). nat (idx + 1))") auto

function idx_up :: "size_t \<Rightarrow> int \<Rightarrow> int" where
  "idx_up isz idx =
     (if idx < CACHING_POOL_ARRAY_SIZE \<and> pool_sizes ! nat idx < isz then idx_up isz (idx + 1) else idx)"
  by pat_completeness auto
termination
  by (relation "measure (\<lambda>(isz, idx). nat (CACHING_POOL_ARRAY_SIZE - idx))") auto

declare idx_down.simps [simp del] idx_up.simps [simp del]

definition size_class :: "size_t \<Rightarrow> int" where
  "size_class isz =
     (if isz \<le> pool_sizes ! nat START_SIZE then idx_down isz (START_SIZE - 1) + 1
      else idx_up isz (START_SIZE + 1))"

section \<open>Creating and releasing pools\<close>

definition cpool_create_pool ::
  "addr \<Rightarrow> pool_factory \<Rightarrow> byte list option \<Rightarrow> size_t \<Rightarrow> size_t \<Rightarrow> addr \<Rightarrow> pool_state \<Rightarrow> (addr \<times> pool_state) option" where
  "cpool_create_pool cp F name isz inc cb s = do {
     s \<leftarrow> lock_cp s;
     let cb = (if cb = NULL then policy_callback_f (policy_f F) else cb);
     let idx = size_class isz;
     none \<leftarrow> (if idx = CACHING_POOL_ARRAY_SIZE then Some True else list_empty (free_list cp (nat idx)) (heads s));
     (pool, s) \<leftarrow> (if none
       then mdl_pool_create_int F name (if idx < CACHING_POOL_ARRAY_SIZE then pool_sizes ! nat idx else isz) inc cb s
       else do {
         pool \<leftarrow> get_next (free_list cp (nat idx)) (heads s);
         s \<leftarrow> on_heads (list_del pool) s;
         s \<leftarrow> mdl_pool_init_int pool name inc cb s;
         c \<leftarrow> mdl_pool_get_capacity pool s;
         Some (pool, s\<lparr>cp_capacity := (if cp_capacity s > c then cp_capacity s - c else 0)\<rparr>) });
     if pool = NULL then Some (NULL, unlock_cp s)
     else do {
       s \<leftarrow> on_heads (list_add pool (used_list cp)) s;
       P \<leftarrow> pools s pool;
       s \<leftarrow> set_pool pool (P\<lparr>data_factory_f := word_of_int idx\<rparr>) s;
       Some (pool, unlock_cp (s\<lparr>cp_used_count := cp_used_count s + 1\<rparr>)) } }"

definition cpool_release_pool :: "addr \<Rightarrow> pool_factory \<Rightarrow> addr \<Rightarrow> pool_state \<Rightarrow> pool_state option" where
  "cpool_release_pool cp F pool s = do {
     s \<leftarrow> lock_cp s;
     s \<leftarrow> on_heads (list_del pool) s;
     let s = s\<lparr>cp_used_count := cp_used_count s - 1\<rparr>;
     pool_capacity \<leftarrow> mdl_pool_get_capacity pool s;
     if pool_capacity > pool_sizes ! 15 \<or> cp_capacity s + pool_capacity > cp_max_capacity s
     then do {
       s \<leftarrow> mdl_pool_destroy_int F pool s;
       Some (unlock_cp s) }
     else do {
       _ \<leftarrow> mdl_pool_get_used_size pool s;
       _ \<leftarrow> guard_opt (pool_capacity \<noteq> 0);
       s \<leftarrow> mdl_pool_reset F pool s;
       pool_capacity \<leftarrow> mdl_pool_get_capacity pool s;
       P \<leftarrow> pools s pool;
       let i = unat (ucast (data_factory_f P) :: u32);
       _ \<leftarrow> guard_opt (int i < CACHING_POOL_ARRAY_SIZE);
       s \<leftarrow> on_heads (list_add pool (free_list cp i)) s;
       Some (unlock_cp (s\<lparr>cp_capacity := cp_capacity s + pool_capacity\<rparr>)) } }"

text \<open>The totals \<open>cpool_dump_status\<close> prints.\<close>

definition cpool_dump_status :: "addr \<Rightarrow> bool \<Rightarrow> pool_state \<Rightarrow> (size_t \<times> size_t \<times> pool_state) option" where
  "cpool_dump_status cp detail s = do {
     s \<leftarrow> lock_cp s;
     (u, c) \<leftarrow> (if detail
       then do {
         ps \<leftarrow> list_for_each (used_list cp) (heads s);
         foldM (\<lambda>p (total_used, total_capacity). do {
           c \<leftarrow> mdl_pool_get_capacity p s;
           u \<leftarrow> mdl_pool_get_used_size p s;
           _ \<leftarrow> guard_opt (c \<noteq> 0);
           Some (total_used + u, total_capacity + c) }) ps (0, 0) }
       else Some (0, 0));
     Some (u, c, unlock_cp s) }"

section \<open>The caching pool as a whole\<close>

definition mdl_caching_pool_init :: "addr \<Rightarrow> size_t \<Rightarrow> pool_state \<Rightarrow> pool_state option" where
  "mdl_caching_pool_init cp max_capacity s = do {
     let s = s\<lparr>cp_capacity := 0, cp_max_capacity := max_capacity, cp_used_count := 0, cp_used_size := 0,
               cp_peak_used_size := 0\<rparr>;
     s \<leftarrow> on_heads (INIT_LIST_HEAD (used_list cp)) s;
     s \<leftarrow> foldM (\<lambda>i. on_heads (INIT_LIST_HEAD (free_list cp i))) [0..<16] s;
     Some (s\<lparr>cp_lock := False\<rparr>) }"

text \<open>
  The factory \<open>mdl_caching_pool_init\<close> sets up: the policy it was given, or the default one for a
  null pointer, and the hooks of the caching pool.
\<close>

definition caching_pool_factory :: "addr \<Rightarrow> addr \<Rightarrow> factory_policy option \<Rightarrow> pool_factory" where
  "caching_pool_factory cp dcb policy =
     (caching_factory cp dcb)\<lparr>policy_f := (case policy of None \<Rightarrow> mdl_pool_factory_default_policy dcb | Some pol \<Rightarrow> pol)\<rparr>"

text \<open>The loops of \<open>mdl_caching_pool_destroy\<close>: the step reads the node after its pool was destroyed.\<close>

partial_function (option) destroy_pools :: "pool_factory \<Rightarrow> addr \<Rightarrow> addr \<Rightarrow> pool_state \<Rightarrow> pool_state option" where
  "destroy_pools F head node s =
     (if node = head then Some s
      else Option.bind (on_heads (list_del node) s) (\<lambda>s.
        Option.bind (mdl_pool_destroy_int F node s) (\<lambda>s.
          Option.bind (get_next node (heads s)) (\<lambda>n. destroy_pools F head n s))))"

definition destroy_list :: "pool_factory \<Rightarrow> addr \<Rightarrow> pool_state \<Rightarrow> pool_state option" where
  "destroy_list F head s = do { n \<leftarrow> get_next head (heads s); destroy_pools F head n s }"

definition mdl_caching_pool_destroy :: "addr \<Rightarrow> pool_factory \<Rightarrow> pool_state \<Rightarrow> pool_state option" where
  "mdl_caching_pool_destroy cp F s = do {
     s \<leftarrow> foldM (\<lambda>i. destroy_list F (free_list cp i)) [0..<16] s;
     destroy_list F (used_list cp) s }"


section \<open>Size classes are minimal\<close>

lemma pool_sizes_sorted: "sorted pool_sizes" "length pool_sizes = 16"
  by (simp_all add: pool_sizes_def)

lemma largest_size: "pool_sizes ! 15 = 65536"
  by (simp add: pool_sizes_def)

lemma idx_down_spec:
  "idx_down isz idx \<le> idx \<and> (-1 \<le> idx \<longrightarrow> -1 \<le> idx_down isz idx) \<and>
   (\<forall>j. idx_down isz idx < j \<and> j \<le> idx \<longrightarrow> isz \<le> pool_sizes ! nat j) \<and>
   (0 \<le> idx_down isz idx \<longrightarrow> pool_sizes ! nat (idx_down isz idx) < isz)"
proof (induction isz idx rule: idx_down.induct)
  case (1 isz idx)
  show ?case
  proof (cases "idx \<ge> 0 \<and> pool_sizes ! nat idx \<ge> isz")
    case True
    then have eq: "idx_down isz idx = idx_down isz (idx - 1)" by (simp add: idx_down.simps[of isz idx])
    from True have "isz \<le> pool_sizes ! nat j" if "idx - 1 < j" "j \<le> idx" for j
      using that by (cases "j = idx") auto
    note step = this
    have "isz \<le> pool_sizes ! nat j" if "idx_down isz (idx - 1) < j" "j \<le> idx" for j
      using 1[OF True] step[of j] that by (cases "j \<le> idx - 1") auto
    with 1[OF True] True show ?thesis unfolding eq by auto
  next
    case False
    then have "idx_down isz idx = idx" by (auto simp: idx_down.simps[of isz idx])
    with False show ?thesis by auto
  qed
qed

lemma idx_up_spec:
  "idx \<le> idx_up isz idx \<and> (idx \<le> 16 \<longrightarrow> idx_up isz idx \<le> 16) \<and>
   (\<forall>j. idx \<le> j \<and> j < idx_up isz idx \<longrightarrow> pool_sizes ! nat j < isz) \<and>
   (idx_up isz idx < 16 \<longrightarrow> isz \<le> pool_sizes ! nat (idx_up isz idx))"
proof (induction isz idx rule: idx_up.induct)
  case (1 isz idx)
  show ?case
  proof (cases "idx < CACHING_POOL_ARRAY_SIZE \<and> pool_sizes ! nat idx < isz")
    case True
    then have eq: "idx_up isz idx = idx_up isz (idx + 1)" by (simp add: idx_up.simps[of isz idx])
    from True have "pool_sizes ! nat j < isz" if "idx \<le> j" "j < idx + 1" for j
      using that by (cases "j = idx") auto
    note step = this
    have "pool_sizes ! nat j < isz" if "idx \<le> j" "j < idx_up isz (idx + 1)" for j
      using 1[OF True] step[of j] that by (cases "idx + 1 \<le> j") auto
    with 1[OF True] True show ?thesis unfolding eq by (auto simp: CACHING_POOL_ARRAY_SIZE_def)
  next
    case False
    then have "idx_up isz idx = idx" by (auto simp: idx_up.simps[of isz idx])
    with False show ?thesis by (auto simp: CACHING_POOL_ARRAY_SIZE_def)
  qed
qed

lemma size_class_spec:
  "0 \<le> size_class isz \<and> size_class isz \<le> 16 \<and>
   (\<forall>j. 0 \<le> j \<and> j < size_class isz \<longrightarrow> pool_sizes ! nat j < isz) \<and>
   (size_class isz < 16 \<longrightarrow> isz \<le> pool_sizes ! nat (size_class isz))"
proof -
  have mono: "pool_sizes ! nat i \<le> pool_sizes ! nat j" if "i \<le> j" "j < 16" for i j :: int
    using that pool_sizes_sorted by (auto intro!: sorted_nth_mono simp: nat_mono)
  show ?thesis
  proof (cases "isz \<le> pool_sizes ! nat START_SIZE")
    case True
    let ?r = "idx_down isz 4"
    have r: "?r \<le> 4" "-1 \<le> ?r" "\<And>j. ?r < j \<Longrightarrow> j \<le> 4 \<Longrightarrow> isz \<le> pool_sizes ! nat j"
      "0 \<le> ?r \<Longrightarrow> pool_sizes ! nat ?r < isz"
      using idx_down_spec[of isz 4] by auto
    have c: "size_class isz = ?r + 1" using True by (simp add: size_class_def START_SIZE_def)
    have "pool_sizes ! nat j < isz" if "0 \<le> j" "j < ?r + 1" for j
      using mono[of j ?r] r(1,4) that by simp
    moreover have "isz \<le> pool_sizes ! nat (?r + 1)"
      using r(1) r(3)[of "?r + 1"] True by (cases "?r = 4") (auto simp: START_SIZE_def)
    ultimately show ?thesis using r(1,2) unfolding c by auto
  next
    case False
    let ?r = "idx_up isz 6"
    have r: "6 \<le> ?r" "?r \<le> 16" "\<And>j. 6 \<le> j \<Longrightarrow> j < ?r \<Longrightarrow> pool_sizes ! nat j < isz"
      "?r < 16 \<Longrightarrow> isz \<le> pool_sizes ! nat ?r"
      using idx_up_spec[of 6 isz] by auto
    have c: "size_class isz = ?r" using False by (simp add: size_class_def START_SIZE_def)
    have "pool_sizes ! nat j < isz" if "0 \<le> j" "j < ?r" for j
      using mono[of j 5] False r(3)[of j] that by (cases "j \<le> 5") (auto simp: START_SIZE_def)
    then show ?thesis using r unfolding c by auto
  qed
qed


section \<open>Well-formed caching pools\<close>

text \<open>
  \<open>R\<close> gives the entries of the sixteen free lists and the used list, \<open>B\<close> the blocks of each pool.
  A pool in a free list has its initial block only and remembers the index of the list. The list
  heads of the caching pool lie in an object of their own.
\<close>

definition cp_heads :: "addr \<Rightarrow> addr set" where
  "cp_heads cp = insert (used_list cp) (free_list cp ` {..<16})"

definition pool_addrs :: "(addr \<Rightarrow> addr list) \<Rightarrow> addr \<Rightarrow> addr set" where
  "pool_addrs B p = set (block_head_list p # B p)"

definition all_pools :: "addr \<Rightarrow> (addr \<Rightarrow> addr list) \<Rightarrow> addr set" where
  "all_pools cp R = (\<Union>a \<in> cp_heads cp. set (R a))"

definition cp_inv :: "addr \<Rightarrow> pool_state \<Rightarrow> (addr \<Rightarrow> addr list) \<Rightarrow> (addr \<Rightarrow> addr list) \<Rightarrow> bool" where
  "cp_inv cp s R B \<longleftrightarrow> rings (heads s) (cp_heads cp) R \<and>
     (\<forall>a \<in> cp_heads cp. in_chunk s (unat a) (unat a + 1)) \<and>
     (\<forall>p \<in> all_pools cp R. pool_inv s p (B p) \<and> pool_addrs B p \<inter> ring_nodes (cp_heads cp) R = {}) \<and>
     (\<forall>p \<in> all_pools cp R. \<forall>q \<in> all_pools cp R. p \<noteq> q \<longrightarrow> pool_addrs B p \<inter> pool_addrs B q = {}) \<and>
     (\<forall>i<16. \<forall>p \<in> set (R (free_list cp i)). B p = [p + sizeof_pool] \<and>
        map_option data_factory_f (pools s p) = Some (of_nat i)) \<and>
     cp_used_count s = of_nat (length (R (used_list cp))) \<and> \<not> cp_lock s"

lemma free_list_inj: "i < 16 \<Longrightarrow> j < 16 \<Longrightarrow> free_list cp i = free_list cp j \<longleftrightarrow> i = j"
proof -
  assume ij: "i < 16" "j < 16"
  have "unat (16 * of_nat k :: addr) = 16 * k" if "k < 16" for k
    using that by (simp add: unat_word_ariths unat_of_nat)
  from this[OF ij(1)] this[OF ij(2)] have "i = j" if "(16 * of_nat i :: addr) = 16 * of_nat j"
    unfolding that by simp
  then show ?thesis unfolding free_list_def by auto
qed

lemma used_not_free: "i < 16 \<Longrightarrow> free_list cp i \<noteq> used_list cp"
proof
  assume i: "i < 16" and "free_list cp i = used_list cp"
  then have "(16 * of_nat i :: addr) = 256" by (simp add: free_list_def used_list_def algebra_simps)
  moreover have "unat (16 * of_nat i :: addr) = 16 * i" using i by (simp add: unat_word_ariths unat_of_nat)
  ultimately show False using i by simp
qed

lemma cp_heads_mem [simp]: "used_list cp \<in> cp_heads cp" "i < 16 \<Longrightarrow> free_list cp i \<in> cp_heads cp"
  by (auto simp: cp_heads_def)

lemma all_pools_mem: "a \<in> cp_heads cp \<Longrightarrow> set (R a) \<subseteq> all_pools cp R"
  by (auto simp: all_pools_def)

lemma all_pools_update:
  "set xs \<subseteq> A \<Longrightarrow> all_pools cp R \<subseteq> A \<Longrightarrow> all_pools cp (R(a := xs)) \<subseteq> A"
  unfolding all_pools_def by (rule UN_least) (metis UN_subset_iff fun_upd_apply)

lemma all_pools_nodes: "all_pools cp R \<subseteq> ring_nodes (cp_heads cp) R"
  by (auto simp: all_pools_def ring_nodes_def)

text \<open>
  An operation that moves the pool \<open>p\<close> between lists, or adds it, and leaves the memory of all
  other pools alone keeps the caching pool well formed.
\<close>

lemma cp_inv_moved:
  assumes inv: "cp_inv cp s R B"
    and "rings (heads t) (cp_heads cp) R'"
    and nodes: "ring_nodes (cp_heads cp) R' = insert p (ring_nodes (cp_heads cp) R)"
    and pools: "all_pools cp R' \<subseteq> insert p (all_pools cp R)"
    and p: "pool_inv t p bs" "set (block_head_list p # bs) \<inter> insert p (ring_nodes (cp_heads cp) R) = {}"
    and other: "\<And>q. q \<in> all_pools cp R \<Longrightarrow> q \<noteq> p \<Longrightarrow> pools t q = pools s q \<and>
      insert p (set (block_head_list p # bs)) \<inter> pool_addrs B q = {} \<and>
      (\<forall>a \<in> pool_addrs B q. heads t a = heads s a \<and> blocks t a = blocks s a)"
    and lv: "set (live s) \<subseteq> set (live t)"
    and fp: "\<And>j. j < 16 \<Longrightarrow> p \<in> set (R' (free_list cp j)) \<Longrightarrow>
      bs = [p + sizeof_pool] \<and> map_option data_factory_f (pools t p) = Some (of_nat j)"
    and fo: "\<And>j q. j < 16 \<Longrightarrow> q \<noteq> p \<Longrightarrow> q \<in> set (R' (free_list cp j)) \<Longrightarrow> q \<in> set (R (free_list cp j))"
    and "cp_used_count t = of_nat (length (R' (used_list cp)))" "\<not> cp_lock t"
  shows "cp_inv cp t R' (B(p := bs))"
proof -
  let ?B = "B(p := bs)" and ?N = "ring_nodes (cp_heads cp) R"
  have pa: "pool_addrs ?B p = set (block_head_list p # bs)" by (simp add: pool_addrs_def)
  have qa: "pool_addrs ?B q = pool_addrs B q" if "q \<noteq> p" for q using that by (simp add: pool_addrs_def)
  have old: "q \<in> all_pools cp R" if "q \<in> all_pools cp R'" "q \<noteq> p" for q using that pools by blast
  have q_inv: "pool_inv t q (?B q)" if q: "q \<in> all_pools cp R'" "q \<noteq> p" for q
  proof -
    note o = other[OF old[OF q] q(2)]
    have "pool_inv s q (B q)" using inv old[OF q] by (simp add: cp_inv_def)
    then have "pool_inv t q (B q)"
      by (rule pool_inv_cong) (use o lv in \<open>auto simp: pool_addrs_def\<close>)
    then show ?thesis using q(2) by simp
  qed
  have q_apart: "pool_addrs ?B q \<inter> insert p ?N = {}" if q: "q \<in> all_pools cp R'" "q \<noteq> p" for q
  proof -
    have "pool_addrs B q \<inter> ?N = {}" using inv old[OF q] by (simp add: cp_inv_def)
    moreover have "p \<notin> pool_addrs B q" using other[OF old[OF q] q(2)] by auto
    ultimately show ?thesis unfolding qa[OF q(2)] by blast
  qed
  have pq: "pool_addrs ?B p \<inter> pool_addrs ?B q = {}" if q: "q \<in> all_pools cp R'" "q \<noteq> p" for q
    using other[OF old[OF q] q(2)] unfolding qa[OF q(2)] pa by blast
  have qr: "pool_addrs ?B q \<inter> pool_addrs ?B r = {}"
    if q: "q \<in> all_pools cp R'" "q \<noteq> p" and r: "r \<in> all_pools cp R'" "r \<noteq> p" "q \<noteq> r" for q r
    using inv old[OF q] old[OF r(1,2)] r(3) unfolding qa[OF q(2)] qa[OF r(2)] cp_inv_def by blast
  have "\<forall>a \<in> cp_heads cp. in_chunk t (unat a) (unat a + 1)"
    using inv lv unfolding cp_inv_def in_chunk_def by blast
  moreover have "\<forall>q \<in> all_pools cp R'. pool_inv t q (?B q) \<and> pool_addrs ?B q \<inter> ring_nodes (cp_heads cp) R' = {}"
    unfolding nodes using q_inv q_apart p pa by (metis fun_upd_same)
  moreover have "\<forall>q \<in> all_pools cp R'. \<forall>r \<in> all_pools cp R'. q \<noteq> r \<longrightarrow> pool_addrs ?B q \<inter> pool_addrs ?B r = {}"
    using pq qr by (metis Int_commute)
  moreover have "B q = [q + sizeof_pool] \<and> map_option data_factory_f (pools t q) = Some (of_nat j)"
    if j: "j < 16" and q: "q \<in> set (R' (free_list cp j))" "q \<noteq> p" for j q
  proof -
    have "q \<in> set (R (free_list cp j))" using fo[OF j q(2,1)] .
    moreover from this have "q \<in> all_pools cp R" using all_pools_mem[OF cp_heads_mem(2)[OF j], of R cp] by blast
    ultimately show ?thesis using inv j other[of q] q(2) by (simp add: cp_inv_def)
  qed
  then have "\<forall>j<16. \<forall>q \<in> set (R' (free_list cp j)). ?B q = [q + sizeof_pool] \<and>
      map_option data_factory_f (pools t q) = Some (of_nat j)"
    using fp by (metis fun_upd_apply)
  ultimately show ?thesis using assms(2,11,12) by (simp add: cp_inv_def)
qed

lemma get_used_size_returns:
  assumes "pool_inv s p bs"
  shows "\<exists>n. mdl_pool_get_used_size p s = Some n"
proof -
  have d: "dlist (heads s) (block_head_list p) bs" and ok: "\<forall>b \<in> set bs. blocks s b \<noteq> None"
    using assms by (auto simp: pool_inv_def block_ok_def)
  have "\<forall>b \<in> set xs. blocks s b \<noteq> None \<Longrightarrow> \<exists>n. foldM (\<lambda>b used. do {
       k \<leftarrow> blocks s b; Some (used + ((current_f k - start_f k) + sizeof_block)) }) xs u = Some n" for xs u
    by (induction xs arbitrary: u) auto
  from this[OF ok] show ?thesis using d by (simp add: mdl_pool_get_used_size_def)
qed

lemma capacity_nonzero:
  assumes "pool_inv s p [p + sizeof_pool]" "pools s p = Some P"
  shows "capacity_f P \<noteq> 0"
proof -
  let ?b = "p + sizeof_pool"
  have p: "unat p + 104 < 2 ^ 64" and ok: "block_ok s ?b"
    and cap: "capacity_f P = sizeof_pool + (end_f (the (blocks s ?b)) - ?b)"
    using assms by (auto simp: pool_inv_def)
  have "unat ?b = unat p + 104" using p by (simp add: sizeof_pool_def unat_word_ariths)
  then have "unat p < blk_end s ?b" using ok by (simp add: block_ok_def)
  then have "end_f (the (blocks s ?b)) \<noteq> p" by (auto simp: blk_end_def)
  then show ?thesis unfolding cap by simp
qed

text \<open>Release of a pool that never grew and fits the capacity: it becomes the front of its free list.\<close>

lemma release_recycles:
  assumes inv: "cp_inv cp s R B" and p: "R (used_list cp) = ys @ p # zs" and one: "B p = [p + sizeof_pool]"
    and P: "pools s p = Some P" "data_factory_f P = of_nat i" and i: "i < 16"
    and cap: "capacity_f P \<le> 65536" "cp_capacity s + capacity_f P \<le> cp_max_capacity s"
  shows "\<exists>t. cpool_release_pool cp F p s = Some t \<and>
    cp_inv cp t (R(used_list cp := ys @ zs, free_list cp i := p # R (free_list cp i))) B \<and>
    cp_capacity t = cp_capacity s + capacity_f P \<and> cp_max_capacity t = cp_max_capacity s \<and>
    (\<exists>P'. pools t p = Some P' \<and> capacity_f P' = capacity_f P) \<and> (\<forall>q. q \<noteq> p \<longrightarrow> pools t q = pools s q) \<and>
    blk_cur t (p + sizeof_pool) = unat (p + sizeof_pool) + 40"
proof -
  let ?H = "cp_heads cp" and ?N = "ring_nodes (cp_heads cp) R" and ?u = "used_list cp" and ?f = "free_list cp i"
  let ?R1 = "R(?u := ys @ zs)" and ?R2 = "R(?u := ys @ zs, ?f := p # R ?f)"
  have pp: "p \<in> all_pools cp R"
    unfolding all_pools_def using p by (intro UN_I[of ?u]) simp_all
  have rg: "rings (heads s) ?H R" and pinv: "pool_inv s p (B p)" and papart: "pool_addrs B p \<inter> ?N = {}"
    and unlocked: "\<not> cp_lock s" and cnt: "cp_used_count s = of_nat (length (R ?u))"
    using inv pp by (auto simp: cp_inv_def)
  have dp: "dlist (heads s) ?u (ys @ p # zs)" using rg p unfolding rings_def by (metis cp_heads_mem(1))
  obtain h1 where h1: "list_del p (heads s) = Some h1" "rings h1 ?H ?R1" "dom h1 = dom (heads s)"
    "\<forall>q. q \<notin> ?N \<longrightarrow> h1 q = heads s q"
    using rings_del[OF rg _ p] by auto
  define s1 where "s1 = s\<lparr>cp_lock := True, heads := h1, cp_used_count := cp_used_count s - 1\<rparr>"
  have pinv1: "pool_inv s1 p [p + sizeof_pool]"
    unfolding one[symmetric] using pinv
    by (rule pool_inv_cong) (use papart h1(4) in \<open>auto simp: s1_def pool_addrs_def\<close>)
  obtain n where n: "mdl_pool_get_used_size p s1 = Some n" using get_used_size_returns[OF pinv1] by blast
  obtain s2 where s2: "reset_pool F p s1 = Some s2" "pool_inv s2 p [p + sizeof_pool]"
    "blk_cur s2 (p + sizeof_pool) = unat (p + sizeof_pool) + 40"
    "mdl_pool_get_capacity p s2 = mdl_pool_get_capacity p s1" "heads s2 = heads s1" "live s2 = live s1"
    "same_scalars s1 s2"
    "\<forall>x. x \<noteq> p + sizeof_pool \<longrightarrow> blocks s2 x = blocks s1 x" "\<forall>x. x \<noteq> p \<longrightarrow> pools s2 x = pools s1 x"
    "map_option data_factory_f (pools s2 p) = map_option data_factory_f (pools s1 p)"
    using reset_single[OF pinv1 refl, of F] by blast
  obtain P2 where P2: "pools s2 p = Some P2" "capacity_f P2 = capacity_f P" "data_factory_f P2 = of_nat i"
    using s2(4,10) P by (auto simp: s1_def mdl_pool_get_capacity_def)
  have nodes1: "ring_nodes ?H ?R1 = ?N - {p}" using ring_nodes_del[OF rg _ p] by simp
  have pN: "p \<in> ?N" using pp all_pools_nodes by blast
  have uf: "?u \<noteq> ?f" using used_not_free[OF i, of cp] by simp
  have nodes2: "ring_nodes ?H ?R2 = ?N"
    using ring_nodes_add[of ?f ?H ?R1 p] nodes1 i uf pN by auto
  have pdom: "p \<in> dom (heads s2)" using dlist_dom[OF dp] h1(3) s2(5) by (auto simp: s1_def)
  obtain h3 where h3: "list_add p ?f (heads s2) = Some h3" "rings h3 ?H ?R2"
    "\<forall>q. q \<notin> insert p (ring_nodes ?H ?R1) \<longrightarrow> h3 q = heads s2 q"
    using rings_add[of "heads s2" ?H ?R1 ?f p] h1(2) s2(5) i pdom nodes1 used_not_free[OF i, of cp]
    by (auto simp: s1_def)
  define t where "t = s2\<lparr>heads := h3, cp_capacity := cp_capacity s2 + capacity_f P, cp_lock := False\<rparr>"
  have "unat (ucast (of_nat i :: 64 word) :: u32) = i" using i by (simp add: unsigned_ucast_eq unat_of_nat take_bit_nat_eq_self)
  then have run: "cpool_release_pool cp F p s = Some t"
    using unlocked h1(1) P cap[unfolded not_less[symmetric]] capacity_nonzero[OF pinv1] n s2(1,4) P2 i h3(1)
    by (simp add: cpool_release_pool_def lock_cp_def unlock_cp_def on_heads_Some s1_def t_def Let_def
        mdl_pool_get_capacity_def mdl_pool_reset_def largest_size CACHING_POOL_ARRAY_SIZE_def)
  have sub: "all_pools cp ?R2 \<subseteq> insert p (all_pools cp R)"
  proof -
    have "set (ys @ zs) \<subseteq> all_pools cp R" using all_pools_mem[OF cp_heads_mem(1), of R cp] p by auto
    moreover have "set (p # R ?f) \<subseteq> all_pools cp R" using pp all_pools_mem[OF cp_heads_mem(2)[OF i], of R cp] by auto
    ultimately show ?thesis by (intro all_pools_update) auto
  qed
  have hds: "heads t a = heads s a \<and> heads t a = heads s2 a" if "a \<notin> ?N" for a
    using that h1(4) h3(3) nodes1 s2(5) pN by (auto simp: t_def s1_def)
  have "pool_inv t p [p + sizeof_pool]"
    using s2(2) by (rule pool_inv_cong)
      (use hds papart one in \<open>auto simp: t_def pool_addrs_def\<close>)
  moreover have "set (block_head_list p # [p + sizeof_pool]) \<inter> insert p ?N = {}"
    using papart one pN by (auto simp: pool_addrs_def)
  moreover have "pools t q = pools s q \<and> insert p (set (block_head_list p # [p + sizeof_pool])) \<inter> pool_addrs B q = {} \<and>
      (\<forall>a \<in> pool_addrs B q. heads t a = heads s a \<and> blocks t a = blocks s a)"
    if q: "q \<in> all_pools cp R" "q \<noteq> p" for q
  proof -
    have dj: "pool_addrs B p \<inter> pool_addrs B q = {}" and qN: "pool_addrs B q \<inter> ?N = {}"
      using inv q pp by (auto simp: cp_inv_def)
    have "p + sizeof_pool \<in> pool_addrs B p" using one by (simp add: pool_addrs_def)
    then have "blocks t a = blocks s a" if "a \<in> pool_addrs B q" for a
    proof -
      have "a \<noteq> p + sizeof_pool" using that dj \<open>p + sizeof_pool \<in> pool_addrs B p\<close> by blast
      then show ?thesis using s2(8) by (simp add: t_def s1_def)
    qed
    moreover have "heads t a = heads s a" if "a \<in> pool_addrs B q" for a
      using that qN hds by blast
    ultimately show ?thesis
      using dj qN pN s2(9) q(2) one by (auto simp: t_def s1_def pool_addrs_def)
  qed
  moreover have "map_option data_factory_f (pools t p) = Some (of_nat j)"
    if j: "j < 16" "p \<in> set (?R2 (free_list cp j))" for j
  proof -
    have "p \<notin> set (R (free_list cp j))"
      using rings_apart[OF rg cp_heads_mem(1) cp_heads_mem(2)[OF j(1)]] used_not_free[OF j(1), of cp] p by force
    then have "j = i" using j i used_not_free[OF j(1), of cp] by (auto simp: free_list_inj split: if_splits)
    then show ?thesis using P2 by (simp add: t_def)
  qed
  moreover have "q \<in> set (R (free_list cp j))" if "j < 16" "q \<noteq> p" "q \<in> set (?R2 (free_list cp j))" for j q
    using that i used_not_free[OF that(1), of cp] by (auto simp: free_list_inj split: if_splits)
  moreover have "cp_used_count t = of_nat (length (?R2 ?u))"
    using s2(7) cnt p uf by (simp add: t_def s1_def same_scalars_def)
  moreover have "B(p := [p + sizeof_pool]) = B" using one by (simp add: fun_upd_idem)
  ultimately have "cp_inv cp t ?R2 B"
    using cp_inv_moved[OF inv, of t ?R2 p "[p + sizeof_pool]"] h3(2) nodes2 pN sub s2(6)
    by (simp add: t_def s1_def insert_absorb)
  then show ?thesis
    using run s2(3,7,9) P2 by (auto simp: t_def s1_def same_scalars_def blk_cur_def)
qed


lemma pool_inv_set_fields:
  assumes "pool_inv s p bs" "pools s p = Some P" "capacity_f P' = capacity_f P" "callback_f P' \<noteq> NULL"
  shows "pool_inv (s\<lparr>pools := (pools s)(p \<mapsto> P')\<rparr>) p bs"
  using assms by (auto simp: pool_inv_def block_ok_def blk_cur_def blk_end_def in_chunk_def region_def)

lemma init_int_ok:
  assumes "pools s p = Some P"
  shows "\<exists>P'. mdl_pool_init_int p name inc cb s = Some (s\<lparr>pools := (pools s)(p \<mapsto> P')\<rparr>) \<and>
    capacity_f P' = capacity_f P \<and> callback_f P' = cb \<and> increment_size_f P' = inc \<and>
    data_factory_f P' = data_factory_f P"
  using assms
  by (cases name) (auto simp: mdl_pool_init_int_def set_pool_Some Let_def
      intro!: exI[of _ "P\<lparr>increment_size_f := inc, callback_f := cb, name_f := _\<rparr>"])

text \<open>Creation from a free list that is not empty: its front pool is taken.\<close>

lemma create_reuses:
  assumes inv: "cp_inv cp s R B" and i: "size_class isz = int i" "i < 16"
    and p: "R (free_list cp i) = p # fs" and P: "pools s p = Some P"
    and cb: "cb \<noteq> NULL \<or> policy_callback_f (policy_f F) \<noteq> NULL"
  shows "\<exists>t. cpool_create_pool cp F name isz inc cb s = Some (p, t) \<and>
    cp_inv cp t (R(free_list cp i := fs, used_list cp := p # R (used_list cp))) B \<and>
    cp_capacity t = (if cp_capacity s > capacity_f P then cp_capacity s - capacity_f P else 0) \<and>
    cp_max_capacity t = cp_max_capacity s \<and> (\<forall>q. q \<noteq> p \<longrightarrow> pools t q = pools s q) \<and>
    (\<exists>P'. pools t p = Some P' \<and> increment_size_f P' = inc \<and> capacity_f P' = capacity_f P \<and>
       data_factory_f P' = of_nat i)"
proof -
  let ?H = "cp_heads cp" and ?N = "ring_nodes (cp_heads cp) R" and ?u = "used_list cp" and ?f = "free_list cp i"
  let ?R1 = "R(?f := fs)" and ?R2 = "R(?f := fs, ?u := p # R ?u)"
  let ?cb = "if cb = NULL then policy_callback_f (policy_f F) else cb"
  have pp: "p \<in> all_pools cp R" unfolding all_pools_def using p i by (intro UN_I[of ?f]) simp_all
  have pN: "p \<in> ?N" using pp all_pools_nodes by blast
  have uf: "?f \<noteq> ?u" using used_not_free[OF i(2), of cp] .
  have rg: "rings (heads s) ?H R" and pinv: "pool_inv s p (B p)" and papart: "pool_addrs B p \<inter> ?N = {}"
    and unlocked: "\<not> cp_lock s" and cnt: "cp_used_count s = of_nat (length (R ?u))"
    using inv pp by (auto simp: cp_inv_def)
  have one: "B p = [p + sizeof_pool]" using inv i(2) p by (auto simp: cp_inv_def)
  have d: "dlist (heads s) ?f (p # fs)" using rg p i(2) unfolding rings_def by (metis cp_heads_mem(2))
  have p0: "p \<noteq> NULL" using pinv by (simp add: pool_inv_def)
  obtain h1 where h1: "list_del p (heads s) = Some h1" "rings h1 ?H ?R1" "dom h1 = dom (heads s)"
    "\<forall>q. q \<notin> ?N \<longrightarrow> h1 q = heads s q"
    using rings_del[OF rg cp_heads_mem(2)[OF i(2)], of "[]" p fs] p by auto
  have nodes1: "ring_nodes ?H ?R1 = ?N - {p}"
    using ring_nodes_del[OF rg cp_heads_mem(2)[OF i(2)], of "[]" p fs] p by simp
  have nodes2: "ring_nodes ?H ?R2 = ?N"
    using ring_nodes_add[of ?u ?H ?R1 p] nodes1 uf pN by auto
  obtain h2 where h2: "list_add p ?u h1 = Some h2" "rings h2 ?H ?R2"
    "\<forall>q. q \<notin> insert p (ring_nodes ?H ?R1) \<longrightarrow> h2 q = h1 q"
    using rings_add[of h1 ?H ?R1 ?u p] h1(2,3) dlist_dom[OF d] nodes1 uf by auto
  define s1 where "s1 = s\<lparr>cp_lock := True, heads := h1\<rparr>"
  have "pools s1 p = Some P" using P by (simp add: s1_def)
  from init_int_ok[OF this, of name inc ?cb] obtain P1 where
    P1: "mdl_pool_init_int p name inc ?cb s1 = Some (s1\<lparr>pools := (pools s1)(p \<mapsto> P1)\<rparr>)"
      "capacity_f P1 = capacity_f P" "callback_f P1 = ?cb" "increment_size_f P1 = inc" by auto
  let ?P2 = "P1\<lparr>data_factory_f := of_nat i\<rparr>"
  define t where "t = s\<lparr>cp_lock := False, heads := h2, pools := (pools s)(p \<mapsto> ?P2),
    cp_capacity := (if cp_capacity s > capacity_f P then cp_capacity s - capacity_f P else 0),
    cp_used_count := cp_used_count s + 1\<rparr>"
  have "list_empty ?f (heads s) = Some False" using list_empty_dlist[OF d] by simp
  moreover have "get_next ?f (heads s) = Some p" using dlist_ends(1)[OF d] by simp
  ultimately have run: "cpool_create_pool cp F name isz inc cb s = Some (p, t)"
    using unlocked i p0 h1(1) h2(1) P1(1,2)
    by (simp add: cpool_create_pool_def lock_cp_def unlock_cp_def Let_def CACHING_POOL_ARRAY_SIZE_def
        on_heads_Some s1_def mdl_pool_get_capacity_def set_pool_Some t_def)
  have hds: "heads t a = heads s a" if "a \<notin> ?N" for a
    using that h1(4) h2(3) nodes1 pN by (auto simp: t_def)
  have "pool_inv (s\<lparr>pools := (pools s)(p \<mapsto> ?P2)\<rparr>) p (B p)"
    using pool_inv_set_fields[OF pinv P, of ?P2] P1(2,3) cb by auto
  then have "pool_inv t p [p + sizeof_pool]"
    unfolding one by (rule pool_inv_cong) (use hds papart one in \<open>auto simp: t_def pool_addrs_def\<close>)
  moreover have "set (block_head_list p # [p + sizeof_pool]) \<inter> insert p ?N = {}"
    using papart one pN by (auto simp: pool_addrs_def)
  moreover have "pools t q = pools s q \<and> insert p (set (block_head_list p # [p + sizeof_pool])) \<inter> pool_addrs B q = {} \<and>
      (\<forall>a \<in> pool_addrs B q. heads t a = heads s a \<and> blocks t a = blocks s a)"
    if q: "q \<in> all_pools cp R" "q \<noteq> p" for q
  proof -
    have dj: "pool_addrs B p \<inter> pool_addrs B q = {}" and qN: "pool_addrs B q \<inter> ?N = {}"
      using inv q pp by (auto simp: cp_inv_def)
    then have "heads t a = heads s a" if "a \<in> pool_addrs B q" for a using that hds by blast
    then show ?thesis using dj qN pN q(2) one by (auto simp: t_def pool_addrs_def)
  qed
  moreover have "p \<notin> set (?R2 (free_list cp j))" if j: "j < 16" for j
  proof (cases "j = i")
    case True
    then show ?thesis using d uf by (auto simp: dlist_def)
  next
    case False
    then have "p \<notin> set (R (free_list cp j))"
      using rings_apart[OF rg cp_heads_mem(2)[OF i(2)] cp_heads_mem(2)[OF j], of p] p i(2) j by (auto simp: free_list_inj)
    then show ?thesis using False i(2) j used_not_free[OF j, of cp] by (simp add: free_list_inj)
  qed
  moreover have "q \<in> set (R (free_list cp j))" if "j < 16" "q \<noteq> p" "q \<in> set (?R2 (free_list cp j))" for j q
    using that i(2) p used_not_free[OF that(1), of cp] by (auto simp: free_list_inj split: if_splits)
  moreover have "all_pools cp ?R2 \<subseteq> insert p (all_pools cp R)"
    using all_pools_mem[OF cp_heads_mem(1), of R cp] all_pools_mem[OF cp_heads_mem(2)[OF i(2)], of R cp] p
    by (intro all_pools_update) auto
  moreover have "B(p := [p + sizeof_pool]) = B" using one by (simp add: fun_upd_idem)
  ultimately have "cp_inv cp t ?R2 B"
    using cp_inv_moved[OF inv, of t ?R2 p "[p + sizeof_pool]"] h2(2) nodes2 pN cnt uf
    by (simp add: t_def insert_absorb)
  then show ?thesis using run P1 by (auto simp: t_def)
qed

lemma cp_inv_same:
  assumes "cp_inv cp s R B" "same_memory s t" "cp_used_count t = cp_used_count s" "\<not> cp_lock t"
  shows "cp_inv cp t R B"
proof -
  have "pool_inv t p bs = pool_inv s p bs" for p bs using pool_inv_same_memory[OF assms(2)] .
  moreover have "in_chunk t lo hi = in_chunk s lo hi" for lo hi using assms(2) by (simp add: same_memory_def in_chunk_def)
  ultimately show ?thesis using assms by (simp add: cp_inv_def same_memory_def)
qed

lemma cp_inv_places:
  assumes "cp_inv cp s R B"
  shows "a \<in> ring_nodes (cp_heads cp) R \<Longrightarrow> in_chunk s (unat a) (unat a + 1)"
    and "q \<in> all_pools cp R \<Longrightarrow> a \<in> pool_addrs B q \<Longrightarrow> in_chunk s (unat a) (unat a + 1)"
proof -
  have inv: "pool_inv s q (B q)" if "q \<in> all_pools cp R" for q using assms that by (simp add: cp_inv_def)
  show "in_chunk s (unat a) (unat a + 1)" if "a \<in> ring_nodes (cp_heads cp) R"
  proof (cases "a \<in> all_pools cp R")
    case True
    then show ?thesis by (rule pool_inv_places(1)[OF inv])
  next
    case False
    then have "a \<in> cp_heads cp" using that by (auto simp: ring_nodes_def all_pools_def)
    then show ?thesis using assms by (simp add: cp_inv_def)
  qed
  show "in_chunk s (unat a) (unat a + 1)" if q: "q \<in> all_pools cp R" "a \<in> pool_addrs B q"
    using pool_inv_places(3,4)[OF inv[OF q(1)]] q(2) unfolding pool_addrs_def by auto
qed

lemma class_size_enough:
  assumes "size_class isz = int i"
  shows "i \<le> 16" "144 \<le> unat (if i < 16 then pool_sizes ! i else isz)"
proof -
  note spec = size_class_spec[of isz, unfolded assms]
  then show "i \<le> 16" by simp
  show "144 \<le> unat (if i < 16 then pool_sizes ! i else isz)"
  proof (cases "i < 16")
    case True
    then have "pool_sizes ! 0 \<le> pool_sizes ! i" using pool_sizes_sorted by (intro sorted_nth_mono) auto
    then show ?thesis using True by (simp add: word_le_nat_alt pool_sizes_def)
  next
    case False
    then have "pool_sizes ! nat 15 < isz"
      using spec[THEN conjunct2, THEN conjunct2, THEN conjunct1, rule_format, of 15] by simp
    then show ?thesis using False by (simp add: largest_size word_less_nat_alt)
  qed
qed

text \<open>Creation when the free list is empty, or the size exceeds all classes.\<close>

lemma create_fresh:
  assumes inv: "cp_inv cp s R B" and none: "size_class isz = int i" "i < 16 \<longrightarrow> R (free_list cp i) = []"
    and cb: "cb \<noteq> NULL \<or> dcb \<noteq> NULL"
  defines "F \<equiv> caching_factory cp dcb"
  shows "\<exists>p t. cpool_create_pool cp F name isz inc cb s = Some (p, t) \<and>
    (p = NULL \<longrightarrow> cp_inv cp t R B \<and> pools t = pools s) \<and>
    (p \<noteq> NULL \<longrightarrow> p \<notin> all_pools cp R \<and> (\<forall>q \<in> all_pools cp R. pools t q = pools s q) \<and>
      cp_inv cp t (R(used_list cp := p # R (used_list cp))) (B(p := [p + sizeof_pool])) \<and>
      (\<exists>P. pools t p = Some P \<and> increment_size_f P = inc \<and> data_factory_f P = of_nat i \<and>
         capacity_f P = (if i < 16 then pool_sizes ! i else isz))) \<and>
    cp_capacity t = cp_capacity s \<and> cp_max_capacity t = cp_max_capacity s"
proof -
  let ?H = "cp_heads cp" and ?N = "ring_nodes (cp_heads cp) R" and ?u = "used_list cp"
  let ?cb = "if cb = NULL then dcb else cb" and ?sz = "if i < 16 then pool_sizes ! i else isz"
  let ?s = "s\<lparr>cp_lock := True\<rparr>"
  have i16: "i \<le> 16" and sz: "144 \<le> unat ?sz" using class_size_enough[OF none(1)] by auto
  have pcb: "policy_callback_f (policy_f F) = dcb"
    by (simp add: F_def caching_factory_def mdl_pool_factory_default_policy_def)
  have rg: "rings (heads s) ?H R" and unlocked: "\<not> cp_lock s" and cnt: "cp_used_count s = of_nat (length (R ?u))"
    using inv by (auto simp: cp_inv_def)
  have empty: "(if int i = CACHING_POOL_ARRAY_SIZE then Some True else list_empty (free_list cp i) (heads s)) = Some True"
  proof (cases "i < 16")
    case True
    then have "dlist (heads s) (free_list cp i) []" using rg none(2) cp_heads_mem(2)[OF True] unfolding rings_def by metis
    then show ?thesis by simp
  next
    case False
    then show ?thesis using i16 by (simp add: CACHING_POOL_ARRAY_SIZE_def)
  qed
  have ncb: "?cb \<noteq> NULL \<or> policy_callback_f (policy_f (caching_factory cp dcb)) \<noteq> NULL" using cb by simp
  obtain p t1 where c: "mdl_pool_create_int F name ?sz inc ?cb ?s = Some (p, t1)" "same_scalars ?s t1"
    "p = NULL \<longrightarrow> same_memory ?s t1"
    "p \<noteq> NULL \<longrightarrow> pool_inv t1 p [p + sizeof_pool] \<and> malloc_ok p ?sz ?s \<and> live t1 = (p, ?sz) # live ?s \<and>
       (\<exists>P. pools t1 p = Some P \<and> increment_size_f P = inc \<and> capacity_f P = ?sz) \<and> p \<in> dom (heads t1) \<and>
       (\<forall>a. in_chunk ?s (unat a) (unat a + 1) \<longrightarrow>
          heads t1 a = heads ?s a \<and> blocks t1 a = blocks ?s a \<and> pools t1 a = pools ?s a)"
    using dp.create_int_ok[OF sz ncb, of name inc ?s] unfolding F_def by blast
  have start: "cpool_create_pool cp F name isz inc cb s = (if p = NULL then Some (NULL, unlock_cp t1)
     else do {
       s \<leftarrow> on_heads (list_add p (used_list cp)) t1;
       P \<leftarrow> pools s p;
       s \<leftarrow> set_pool p (P\<lparr>data_factory_f := of_nat i\<rparr>) s;
       Some (p, unlock_cp (s\<lparr>cp_used_count := cp_used_count s + 1\<rparr>)) })"
    using unlocked empty c(1) none(1) i16 pcb
    by (cases "i = 16"; cases "cb = NULL")
      (simp_all add: cpool_create_pool_def lock_cp_def Let_def CACHING_POOL_ARRAY_SIZE_def)
  show ?thesis
  proof (cases "p = NULL")
    case True
    then have "cp_inv cp (unlock_cp t1) R B"
      using c(2,3) by (intro cp_inv_same[OF inv]) (auto simp: same_memory_def same_scalars_def unlock_cp_def)
    with True start c(2,3) show ?thesis by (auto simp: same_scalars_def same_memory_def unlock_cp_def)
  next
    case False
    with c(4) obtain P where P: "pools t1 p = Some P" "increment_size_f P = inc" "capacity_f P = ?sz"
      and pinv: "pool_inv t1 p [p + sizeof_pool]" and m: "malloc_ok p ?sz s" and lv: "live t1 = (p, ?sz) # live s"
      and pdom: "p \<in> dom (heads t1)"
      and old: "\<And>a. in_chunk s (unat a) (unat a + 1) \<Longrightarrow> heads t1 a = heads s a \<and> blocks t1 a = blocks s a \<and> pools t1 a = pools s a"
      by (auto simp: in_chunk_def malloc_ok_def)
    have new: "\<not> in_chunk s (unat a) (unat a + 1)" if "unat p \<le> unat a" "unat a < unat p + unat ?sz" for a :: addr
      using malloc_ok_disjoint[OF m, of "unat a" "unat a + 1"] that by auto
    have ub: "unat (p + sizeof_pool) = unat p + 104"
      using m sz by (simp add: malloc_ok_def sizeof_pool_def unat_word_ariths split: if_splits)
    have addrs: "unat p \<le> unat a \<and> unat a < unat p + unat ?sz" if "a \<in> insert p (set (block_head_list p # [p + sizeof_pool]))" for a
      using that sz pool_inv_places(2)[OF pinv] ub by auto
    have apart: "insert p (set (block_head_list p # [p + sizeof_pool])) \<inter> ?N = {}"
      using addrs new cp_inv_places(1)[OF inv] by blast
    have pnew: "p \<notin> all_pools cp R" using apart all_pools_nodes by blast
    have "rings (heads t1) ?H R" using rg by (rule rings_frame) (use old cp_inv_places(1)[OF inv] in blast)
    then obtain h2 where h2: "list_add p ?u (heads t1) = Some h2" "rings h2 ?H (R(?u := p # R ?u))"
      "\<forall>q. q \<notin> insert p ?N \<longrightarrow> h2 q = heads t1 q"
      using rings_add[of "heads t1" ?H R ?u p] pdom apart by auto
    let ?P = "P\<lparr>data_factory_f := of_nat i\<rparr>"
    define t where "t = t1\<lparr>heads := h2, pools := (pools t1)(p \<mapsto> ?P), cp_used_count := cp_used_count t1 + 1, cp_lock := False\<rparr>"
    have run: "cpool_create_pool cp F name isz inc cb s = Some (p, t)"
      using start False h2(1) P(1) by (simp add: on_heads_Some set_pool_Some unlock_cp_def t_def)
    have p2: "p \<notin> set (block_head_list p # [p + sizeof_pool])"
      using pool_inv_places(2)[OF pinv] ub by auto
    have "callback_f P \<noteq> NULL" using pinv P(1) by (auto simp: pool_inv_def)
    then have "pool_inv (t1\<lparr>pools := (pools t1)(p \<mapsto> ?P)\<rparr>) p [p + sizeof_pool]"
      by (intro pool_inv_set_fields[OF pinv P(1)]) simp_all
    then have "pool_inv t p [p + sizeof_pool]"
      by (rule pool_inv_cong) (use h2(3) apart p2 in \<open>auto simp: t_def\<close>)
    moreover have "pools t q = pools s q \<and> insert p (set (block_head_list p # [p + sizeof_pool])) \<inter> pool_addrs B q = {} \<and>
        (\<forall>a \<in> pool_addrs B q. heads t a = heads s a \<and> blocks t a = blocks s a)"
      if q: "q \<in> all_pools cp R" "q \<noteq> p" for q
    proof -
      have dj: "insert p (set (block_head_list p # [p + sizeof_pool])) \<inter> pool_addrs B q = {}"
        using addrs new cp_inv_places(2)[OF inv q(1)] by blast
      have "pool_addrs B q \<inter> ?N = {}" using inv q(1) by (simp add: cp_inv_def)
      then have "heads t a = heads t1 a" if "a \<in> pool_addrs B q" for a
        using that h2(3) dj by (auto simp: t_def)
      moreover have "q \<in> ?N" using q(1) all_pools_nodes by blast
      ultimately show ?thesis
        using dj old cp_inv_places[OF inv] q by (simp add: t_def)
    qed
    moreover have "p \<notin> set ((R(?u := p # R ?u)) (free_list cp j))" if "j < 16" for j
      using pnew all_pools_mem[OF cp_heads_mem(2)[OF that], of R cp] used_not_free[OF that, of cp] by auto
    moreover have "q \<in> set (R (free_list cp j))" if "j < 16" "q \<in> set ((R(?u := p # R ?u)) (free_list cp j))" for j q
      using that used_not_free[OF that(1), of cp] by simp
    moreover have "all_pools cp (R(?u := p # R ?u)) \<subseteq> insert p (all_pools cp R)"
      using all_pools_mem[OF cp_heads_mem(1), of R cp] by (intro all_pools_update) auto
    moreover have same: "\<forall>q \<in> all_pools cp R. pools t q = pools s q" using calculation(2) pnew by blast
    ultimately have "cp_inv cp t (R(?u := p # R ?u)) (B(p := [p + sizeof_pool]))"
      using h2(2) ring_nodes_add[of ?u ?H R p] apart p2 lv cnt c(2)
      by (intro cp_inv_moved[OF inv]) (auto simp: t_def same_scalars_def)
    with run False pnew P c(2) same show ?thesis by (auto simp: t_def same_scalars_def)
  qed
qed


section \<open>Reachable states\<close>

text \<open>
  Every pool in use remembers its size class; without a class it is too large to be recycled.
\<close>

definition classes_ok :: "addr \<Rightarrow> pool_state \<Rightarrow> (addr \<Rightarrow> addr list) \<Rightarrow> bool" where
  "classes_ok cp s R \<longleftrightarrow> (\<forall>p \<in> set (R (used_list cp)). \<exists>P i. pools s p = Some P \<and>
     data_factory_f P = of_nat i \<and> i \<le> 16 \<and> (i = 16 \<longrightarrow> 65536 < capacity_f P))"

lemma on_heads_foldM: "foldM (\<lambda>a. on_heads (f a)) as s = on_heads (foldM f as) s"
  by (induction as arbitrary: s) (auto simp: on_heads_def split: option.splits bind_splits)

lemma foldM_map: "foldM f (map g xs) s = foldM (\<lambda>x. f (g x)) xs s"
  by (induction xs arbitrary: s) (auto split: bind_splits)

lemma caching_init_ok:
  assumes "cp_heads cp \<subseteq> dom (heads s)" "\<forall>a \<in> cp_heads cp. in_chunk s (unat a) (unat a + 1)"
  shows "\<exists>t. mdl_caching_pool_init cp m s = Some t \<and> cp_inv cp t (\<lambda>_. []) B \<and> classes_ok cp t (\<lambda>_. []) \<and>
    cp_capacity t = 0 \<and> cp_max_capacity t = m"
proof -
  let ?as = "used_list cp # map (free_list cp) [0..<16]"
  have H: "set ?as = cp_heads cp" by (auto simp: cp_heads_def)
  obtain h where h: "foldM INIT_LIST_HEAD ?as (heads s) = Some h" "\<forall>a \<in> cp_heads cp. dlist h a []"
    using init_all[of ?as "heads s"] assms(1) unfolding H by auto
  let ?s0 = "s\<lparr>cp_capacity := 0, cp_max_capacity := m, cp_used_count := 0, cp_used_size := 0, cp_peak_used_size := 0\<rparr>"
  have "foldM (\<lambda>a. on_heads (INIT_LIST_HEAD a)) ?as ?s0 = Some (?s0\<lparr>heads := h\<rparr>)"
    unfolding on_heads_foldM using h(1) by (simp add: on_heads_Some)
  then have "mdl_caching_pool_init cp m s = Some (?s0\<lparr>heads := h, cp_lock := False\<rparr>)"
    by (auto simp: mdl_caching_pool_init_def Let_def foldM_map)
  moreover have "rings h (cp_heads cp) (\<lambda>_. [])" using h(2) by (auto simp: rings_def)
  ultimately show ?thesis
    using assms(2) by (simp add: cp_inv_def all_pools_def classes_ok_def in_chunk_def)
qed

inductive cp_reach :: "addr \<Rightarrow> addr \<Rightarrow> pool_state \<Rightarrow> bool" for cp dcb where
  init: "cp_heads cp \<subseteq> dom (heads s0) \<Longrightarrow> \<forall>a \<in> cp_heads cp. in_chunk s0 (unat a) (unat a + 1) \<Longrightarrow>
    mdl_caching_pool_init cp m s0 = Some s \<Longrightarrow> cp_reach cp dcb s"
| create: "cp_reach cp dcb s \<Longrightarrow>
    mdl_pool_create (cpool_create_pool cp) (caching_factory cp dcb) name isz inc cb s = Some (p, t) \<Longrightarrow> cp_reach cp dcb t"
| release: "cp_reach cp dcb s \<Longrightarrow> list_for_each (used_list cp) (heads s) = Some us \<Longrightarrow> p \<in> set us \<Longrightarrow>
    pool_inv s p [p + sizeof_pool] \<Longrightarrow> mdl_pool_get_capacity p s = Some c \<Longrightarrow> c \<le> 65536 \<Longrightarrow>
    cp_capacity s + c \<le> cp_max_capacity s \<Longrightarrow>
    mdl_pool_release (Some (cpool_release_pool cp)) (caching_factory cp dcb) p s = Some t \<Longrightarrow> cp_reach cp dcb t"

inductive_cases cp_reach_cases: "cp_reach cp dcb s"

lemma create_step:
  assumes inv: "cp_inv cp s R B" and cls: "classes_ok cp s R" and cb: "dcb \<noteq> NULL"
  shows "\<exists>p t R' B'. cpool_create_pool cp (caching_factory cp dcb) name isz inc cb s = Some (p, t) \<and>
    cp_inv cp t R' B' \<and> classes_ok cp t R' \<and> (p \<noteq> NULL \<longrightarrow> R' (used_list cp) = p # R (used_list cp))"
proof -
  define i where "i = nat (size_class isz)"
  have i: "size_class isz = int i" using size_class_spec[of isz] by (simp add: i_def)
  have i16: "i \<le> 16" using class_size_enough(1)[OF i] .
  show ?thesis
  proof (cases "i < 16 \<and> R (free_list cp i) \<noteq> []")
    case True
    then obtain p fs where p: "R (free_list cp i) = p # fs" by (auto simp: neq_Nil_conv)
    have "p \<in> all_pools cp R" using all_pools_mem[of "free_list cp i" cp R] True p by auto
    then obtain P where "pools s p = Some P" using inv by (auto simp: cp_inv_def pool_inv_def)
    from create_reuses[OF inv i _ p this, of cb "caching_factory cp dcb" name inc] True cb obtain t P' where
      t: "cpool_create_pool cp (caching_factory cp dcb) name isz inc cb s = Some (p, t)"
        "cp_inv cp t (R(free_list cp i := fs, used_list cp := p # R (used_list cp))) B"
        "pools t p = Some P'" "data_factory_f P' = of_nat i" "\<forall>q. q \<noteq> p \<longrightarrow> pools t q = pools s q"
      by (auto simp: caching_factory_def mdl_pool_factory_default_policy_def)
    have "\<exists>P i. pools t q = Some P \<and> data_factory_f P = of_nat i \<and> i \<le> 16 \<and> (i = 16 \<longrightarrow> 65536 < capacity_f P)"
      if "q \<in> set (p # R (used_list cp))" for q
      using that cls t(3-5) True unfolding classes_ok_def by (cases "q = p") (auto intro!: exI[of _ i])
    then have "classes_ok cp t (R(free_list cp i := fs, used_list cp := p # R (used_list cp)))"
      by (simp add: classes_ok_def)
    then show ?thesis using t by auto
  next
    case False
    then obtain p t where t: "cpool_create_pool cp (caching_factory cp dcb) name isz inc cb s = Some (p, t)"
      "p = NULL \<longrightarrow> cp_inv cp t R B \<and> pools t = pools s"
      "p \<noteq> NULL \<longrightarrow> (\<forall>q \<in> all_pools cp R. pools t q = pools s q) \<and> p \<notin> all_pools cp R \<and>
        cp_inv cp t (R(used_list cp := p # R (used_list cp))) (B(p := [p + sizeof_pool])) \<and>
        (\<exists>P. pools t p = Some P \<and> data_factory_f P = of_nat i \<and> capacity_f P = (if i < 16 then pool_sizes ! i else isz))"
      using create_fresh[OF inv i, of cb dcb name inc] cb by blast
    show ?thesis
    proof (cases "p = NULL")
      case True
      then show ?thesis using t cls by (auto simp: classes_ok_def)
    next
      case p: False
      then obtain P where P: "pools t p = Some P" "data_factory_f P = of_nat i"
        "capacity_f P = (if i < 16 then pool_sizes ! i else isz)" and same: "\<forall>q \<in> all_pools cp R. pools t q = pools s q"
        and pn: "p \<notin> all_pools cp R" using t(3) by blast
      have big: "i = 16 \<Longrightarrow> 65536 < capacity_f P"
        using size_class_spec[of isz, THEN conjunct2, THEN conjunct2, THEN conjunct1, rule_format, of 15] i P(3)
        by (simp add: largest_size)
      have "\<exists>P i. pools t q = Some P \<and> data_factory_f P = of_nat i \<and> i \<le> 16 \<and> (i = 16 \<longrightarrow> 65536 < capacity_f P)"
        if q: "q \<in> set (p # R (used_list cp))" for q
      proof (cases "q = p")
        case True
        then show ?thesis using P(1,2) big i16 by (intro exI[of _ P] exI[of _ i]) simp
      next
        case False
        then have "q \<in> set (R (used_list cp))" using q by simp
        moreover from this have "q \<in> all_pools cp R" using all_pools_mem[OF cp_heads_mem(1), of R cp] by blast
        ultimately show ?thesis using cls same by (simp add: classes_ok_def)
      qed
      then have "classes_ok cp t (R(used_list cp := p # R (used_list cp)))" by (simp add: classes_ok_def)
      then show ?thesis using t p by auto
    qed
  qed
qed

lemma release_step:
  assumes inv: "cp_inv cp s R B" and cls: "classes_ok cp s R" and p: "p \<in> set (R (used_list cp))"
    and one: "pool_inv s p [p + sizeof_pool]" and P: "pools s p = Some P"
    and cap: "capacity_f P \<le> 65536" "cp_capacity s + capacity_f P \<le> cp_max_capacity s"
  shows "\<exists>t R' i. cpool_release_pool cp F p s = Some t \<and> cp_inv cp t R' B \<and> classes_ok cp t R' \<and> i < 16 \<and>
    data_factory_f P = of_nat i \<and> R' (free_list cp i) = p # R (free_list cp i) \<and>
    R' (used_list cp) = remove1 p (R (used_list cp)) \<and> cp_capacity t = cp_capacity s + capacity_f P \<and>
    (\<exists>P'. pools t p = Some P' \<and> capacity_f P' = capacity_f P)"
proof -
  obtain ys zs where sp: "R (used_list cp) = ys @ p # zs" using p by (auto simp: in_set_conv_decomp)
  obtain i where i: "data_factory_f P = of_nat i" "i \<le> 16" "i = 16 \<longrightarrow> 65536 < capacity_f P"
    using cls p P by (auto simp: classes_ok_def)
  then have i16: "i < 16" using cap(1) by (cases "i = 16") auto
  have "p \<in> all_pools cp R" using p all_pools_mem[OF cp_heads_mem(1), of R cp] by blast
  then have "dlist (heads s) (block_head_list p) (B p)" using inv by (simp add: cp_inv_def pool_inv_def)
  then have B: "B p = [p + sizeof_pool]" using one dlist_unique unfolding pool_inv_def by blast
  have "distinct (ys @ p # zs)" using inv sp cp_heads_mem(1)[of cp] unfolding cp_inv_def rings_def dlist_def
    by (metis distinct.simps(2))
  then have rem: "remove1 p (ys @ p # zs) = ys @ zs" by (simp add: remove1_append)
  obtain t where t: "cpool_release_pool cp F p s = Some t"
    "cp_inv cp t (R(used_list cp := ys @ zs, free_list cp i := p # R (free_list cp i))) B"
    "cp_capacity t = cp_capacity s + capacity_f P" "\<exists>P'. pools t p = Some P' \<and> capacity_f P' = capacity_f P"
    "\<forall>q. q \<noteq> p \<longrightarrow> pools t q = pools s q"
    using release_recycles[OF inv sp B P i(1) i16 cap, of F] by blast
  have "classes_ok cp t (R(used_list cp := ys @ zs, free_list cp i := p # R (free_list cp i)))"
    using cls sp \<open>distinct (ys @ p # zs)\<close> t(5) used_not_free[OF i16, of cp]
    by (auto simp: classes_ok_def)
  then show ?thesis
    using t i16 i(1) used_not_free[OF i16, of cp] rem sp
    by (intro exI[of _ t] exI[of _ "R(used_list cp := ys @ zs, free_list cp i := p # R (free_list cp i))"] exI[of _ i]) auto
qed

lemma reach_inv:
  assumes "cp_reach cp dcb s" "dcb \<noteq> NULL"
  shows "\<exists>R B. cp_inv cp s R B \<and> classes_ok cp s R"
  using assms
proof (induction rule: cp_reach.induct)
  case (init s0 m s)
  then show ?case using caching_init_ok[of cp s0 m] by fastforce
next
  case (create s name isz inc cb p t)
  then obtain R B where "cp_inv cp s R B" "classes_ok cp s R" by blast
  from create_step[OF this create(4), of name isz inc cb] create(2) show ?case
    by (auto simp: mdl_pool_create_def)
next
  case (release s us p c t)
  then obtain R B where inv: "cp_inv cp s R B" "classes_ok cp s R" by blast
  then have "dlist (heads s) (used_list cp) (R (used_list cp))"
    using cp_heads_mem(1)[of cp] unfolding cp_inv_def rings_def by blast
  then have us: "p \<in> set (R (used_list cp))" using release(2,3) by simp
  obtain P where P: "pools s p = Some P" "capacity_f P = c" using release(5) by (auto simp: mdl_pool_get_capacity_def)
  from release_step[OF inv us release(4) P(1), of "caching_factory cp dcb"] release(6,7,8) P(2) show ?case
    by (auto simp: mdl_pool_release_def)
qed


section \<open>Destruction\<close>

lemma destroy_int_dead:
  assumes "pool_inv s p [p + sizeof_pool]" "\<forall>c \<in> set (live s). 0 < snd c"
    and "mdl_pool_destroy_int (caching_factory cp dcb) p s = Some t"
  shows "heads t p = None"
proof -
  obtain s1 where s1: "reset_pool (caching_factory cp dcb) p s = Some s1" "live s1 = live s"
    using reset_single[OF assms(1) refl] by blast
  have p: "p \<noteq> NULL" using assms(1) by (simp add: pool_inv_def)
  obtain n where n: "c_free p (cpool_on_block_free n s1) = Some t"
    using assms(3) s1(1)
    by (auto simp: mdl_pool_destroy_int_def caching_factory_def mdl_pool_factory_default_policy_def
        default_block_free_def Let_def)
  then obtain sz where sz: "map_of (live s) p = Some sz" "t = unmap_chunk p sz (cpool_on_block_free n s1)"
    using p s1(2) by (auto simp: c_free_def cpool_on_block_free_def split: option.splits)
  have "0 < sz" using assms(2) map_of_SomeD[OF sz(1)] by fastforce
  then have "within p sz 1 p" by (simp add: within_def unat_gt_0 Suc_le_eq word_neq_0_conv)
  then show ?thesis using sz(2) by (simp add: unmap_chunk_def)
qed

lemma destroy_list_empty: "dlist (heads s) a [] \<Longrightarrow> destroy_list F a s = Some s"
  using dlist_ends(1)[of "heads s" a "[]"] by (simp add: destroy_list_def destroy_pools.simps)

lemma destroy_list_nonempty:
  assumes inv: "cp_inv cp s R B" and i: "i < 16" "R (free_list cp i) = p # fs"
    and pos: "\<forall>c \<in> set (live s). 0 < snd c"
  shows "destroy_list (caching_factory cp dcb) (free_list cp i) s = None"
proof -
  let ?f = "free_list cp i"
  have pp: "p \<in> all_pools cp R" using all_pools_mem[of ?f cp R] i by auto
  have pinv: "pool_inv s p [p + sizeof_pool]" and apart: "pool_addrs B p \<inter> ring_nodes (cp_heads cp) R = {}"
    and one: "B p = [p + sizeof_pool]" and rg: "rings (heads s) (cp_heads cp) R"
    using inv pp i by (auto simp: cp_inv_def)
  have d: "dlist (heads s) ?f (p # fs)" using rg i unfolding rings_def by (metis cp_heads_mem(2))
  obtain h1 where h1: "list_del p (heads s) = Some h1" "\<forall>q. q \<notin> ring_nodes (cp_heads cp) R \<longrightarrow> h1 q = heads s q"
    using rings_del[OF rg cp_heads_mem(2)[OF i(1)], of "[]" p fs] i(2) by auto
  have "pool_inv (s\<lparr>heads := h1\<rparr>) p [p + sizeof_pool]"
    using pinv by (rule pool_inv_cong) (use apart one h1(2) in \<open>auto simp: pool_addrs_def\<close>)
  note dead = destroy_int_dead[OF this, of cp dcb]
  have "p \<noteq> ?f" using d by (auto simp: dlist_def)
  then have "destroy_pools (caching_factory cp dcb) ?f p s = None"
    using h1(1) dead pos
    by (subst destroy_pools.simps) (auto simp: on_heads_Some get_next_def split: bind_splits)
  then show ?thesis using dlist_ends(1)[OF d] by (simp add: destroy_list_def)
qed

lemma destroy_lists_empty:
  "\<forall>a \<in> set as. dlist (heads s) a [] \<Longrightarrow> foldM (\<lambda>a. destroy_list F a) as s = Some s"
  by (induction as) (auto simp: destroy_list_empty)

section \<open>An example\<close>

text \<open>
  The caching pool at 1024 with the pool at 4096 of theory Pool as the only entry of the list
  with the head \<open>a0\<close>.
\<close>

definition ex_cp :: "addr \<Rightarrow> size_t \<Rightarrow> pool_state" where
  "ex_cp a0 n = ex_single\<lparr>
     heads := (\<lambda>a. if a = a0 then Some \<lparr>next_f = 4096, prev_f = 4096\<rparr>
       else if a = 4096 then Some \<lparr>next_f = a0, prev_f = a0\<rparr>
       else if a \<in> cp_heads 1024 then Some \<lparr>next_f = a, prev_f = a\<rparr>
       else heads ex_single a),
     live := [(1024, 1024), (4096, 256)], cp_max_capacity := 100000, cp_used_count := n\<rparr>"

definition ex_R :: "addr \<Rightarrow> addr \<Rightarrow> addr list" where
  "ex_R a0 = (\<lambda>a. if a = a0 then [4096] else [])"

lemma ex_cp_heads: "a \<in> cp_heads 1024 \<Longrightarrow> 1136 \<le> unat a \<and> unat a \<le> 1392"
proof -
  assume "a \<in> cp_heads 1024"
  then consider "a = used_list 1024" | i where "i < 16" "a = free_list 1024 i" by (auto simp: cp_heads_def)
  then show ?thesis
  proof cases
    case 2
    then have "unat a = 1136 + 16 * i" by (simp add: free_list_def unat_word_ariths unat_of_nat)
    then show ?thesis using 2 by simp
  qed (simp add: used_list_def)
qed

lemma ex_cp_inv:
  assumes a0: "a0 \<in> cp_heads 1024" "a0 = used_list 1024 \<and> n = 1 \<or> a0 = free_list 1024 0 \<and> n = 0"
  shows "cp_inv 1024 (ex_cp a0 n) (ex_R a0) (\<lambda>_. [4200])"
proof -
  let ?s = "ex_cp a0 n" and ?R = "ex_R a0" and ?H = "cp_heads 1024"
  have nh: "4096 \<notin> ?H" "4176 \<notin> ?H" "4200 \<notin> ?H"
    using ex_cp_heads[of 4096] ex_cp_heads[of 4176] ex_cp_heads[of 4200] by auto
  have na: "a0 \<noteq> 4096" "a0 \<noteq> 4176" "a0 \<noteq> 4200" using a0(1) nh by auto
  have nodes: "ring_nodes ?H ?R = insert 4096 ?H" using a0(1) by (auto simp: ring_nodes_def ex_R_def)
  have all: "all_pools 1024 ?R = {4096}" using a0(1) by (auto simp: all_pools_def ex_R_def)
  have "dlist (heads ?s) a (?R a)" if "a \<in> ?H" for a
    using that nh na a0(1) by (cases "a = a0") (auto simp: dlist_def get_next_def get_prev_def ex_cp_def ex_R_def)
  moreover have "set (a # ?R a) \<inter> set (b # ?R b) = {}" if "a \<in> ?H" "b \<in> ?H" "a \<noteq> b" for a b
    using that nh by (auto simp: ex_R_def)
  ultimately have rg: "rings (heads ?s) ?H ?R" by (simp add: rings_def)
  have pinv: "pool_inv ?s 4096 [4200]"
    using ex_single_inv
    by (rule pool_inv_cong) (use na nh in \<open>auto simp: ex_cp_def ex_single_def block_head_list_def\<close>)
  have ch: "in_chunk ?s (unat a) (unat a + 1)" if "a \<in> ?H" for a
    using ex_cp_heads[OF that] by (auto simp: in_chunk_ex ex_cp_def)
  have fl: "i = 0" if "i < 16" "4096 \<in> set (?R (free_list 1024 i))" for i
    using that a0(2) used_not_free[of i 1024] free_list_inj[of i 0 1024] by (auto simp: ex_R_def split: if_splits)
  have "cp_used_count ?s = of_nat (length (?R (used_list 1024)))"
    using a0(2) used_not_free[of 0 1024] by (auto simp: ex_cp_def ex_R_def)
  moreover have "\<not> cp_lock ?s" by (simp add: ex_cp_def ex_single_def ex_pool_state_def)
  moreover have "pool_addrs (\<lambda>_. [4200]) 4096 \<inter> ring_nodes ?H ?R = {}"
    using nh unfolding nodes by (auto simp: pool_addrs_def block_head_list_def)
  moreover have df: "map_option data_factory_f (pools ?s 4096) = Some 0"
    by (simp add: ex_cp_def ex_single_def ex_pool_def)
  have "[4200] = [q + sizeof_pool] \<and> map_option data_factory_f (pools ?s q) = Some (of_nat i)"
    if i: "i < 16" "q \<in> set (?R (free_list 1024 i))" for i q
  proof -
    have "q = 4096" using i(2) by (auto simp: ex_R_def split: if_splits)
    moreover from this i have "i = 0" using fl by blast
    ultimately show ?thesis using df by (simp add: sizeof_pool_def)
  qed
  ultimately show ?thesis
    using rg pinv ch unfolding cp_inv_def all by blast
qed


section \<open>Properties\<close>

text \<open>
  \<open>cpool_create_pool\<close> computes the least size class that holds the requested size: every smaller
  class is too small, and the index is 16 exactly when the size exceeds all classes.
\<close>
theorem size_class_least:
  "0 \<le> size_class isz \<and> size_class isz \<le> 16 \<and>
   (\<forall>j. 0 \<le> j \<and> j < size_class isz \<longrightarrow> pool_sizes ! nat j < isz) \<and>
   (size_class isz < 16 \<longrightarrow> isz \<le> pool_sizes ! nat (size_class isz))"
  by (rule size_class_spec)

text \<open>Witness: the sizes 1000, 8193 and 65537.\<close>
theorem size_class_least_witness:
  "pool_sizes ! 1 < 1000 \<and> (1000::size_t) \<le> pool_sizes ! 2 \<and> size_class 1000 = 2 \<and>
   pool_sizes ! nat 0 < 1000"
  using size_class_least[of 1000]
  by (auto simp add: size_class_def START_SIZE_def idx_down.simps pool_sizes_def)



text \<open>
  A pool in use that never grew and fits the capacity limit is recycled: its release succeeds,
  the assertion on the class index holds, and the next creation of a size of its class returns
  the same pool and restores the capacity of the caching pool.
\<close>
theorem release_create_roundtrip:
  assumes "cp_inv cp s R B" "classes_ok cp s R" "p \<in> set (R (used_list cp))"
    and "pool_inv s p [p + sizeof_pool]" "pools s p = Some P"
    and "capacity_f P \<le> 65536" "cp_capacity s + capacity_f P \<le> cp_max_capacity s"
    and "size_class isz = uint (data_factory_f P)" "dcb \<noteq> NULL"
    and "unat (cp_capacity s) + unat (capacity_f P) < 2 ^ 64"
  shows "\<exists>t u. cpool_release_pool cp (caching_factory cp dcb) p s = Some t \<and>
    cpool_create_pool cp (caching_factory cp dcb) name isz inc cb t = Some (p, u) \<and>
    list_for_each (used_list cp) (heads u) = Some (p # remove1 p (R (used_list cp))) \<and>
    cp_capacity u = cp_capacity s"
proof -
  obtain t R' i P' where t: "cpool_release_pool cp (caching_factory cp dcb) p s = Some t" "cp_inv cp t R' B"
    "classes_ok cp t R'" "i < 16" "data_factory_f P = of_nat i" "R' (free_list cp i) = p # R (free_list cp i)"
    "R' (used_list cp) = remove1 p (R (used_list cp))" "cp_capacity t = cp_capacity s + capacity_f P"
    "pools t p = Some P'" "capacity_f P' = capacity_f P"
    using release_step[OF assms(1-7), of "caching_factory cp dcb"] by blast
  have cls: "size_class isz = int i" using assms(8) t(4,5) by (simp add: uint_nat unat_of_nat)
  have "cb \<noteq> NULL \<or> policy_callback_f (policy_f (caching_factory cp dcb)) \<noteq> NULL"
    using assms(9) by (simp add: caching_factory_def mdl_pool_factory_default_policy_def)
  from create_reuses[OF t(2) cls t(4,6,9) this, of name inc] obtain u where
    u: "cpool_create_pool cp (caching_factory cp dcb) name isz inc cb t = Some (p, u)"
      "cp_inv cp u (R'(free_list cp i := R (free_list cp i), used_list cp := p # R' (used_list cp))) B"
      "cp_capacity u = (if cp_capacity t > capacity_f P' then cp_capacity t - capacity_f P' else 0)"
    by blast
  have "list_for_each (used_list cp) (heads u) = Some (p # R' (used_list cp))"
    using u(2) cp_heads_mem(1)[of cp] unfolding cp_inv_def rings_def by fastforce
  moreover have "cp_capacity u = cp_capacity s"
    using u(3) t(8,10) assms(10) by (cases "cp_capacity s = 0") (auto simp: word_less_nat_alt unat_word_ariths unat_gt_0)
  ultimately show ?thesis using t(1,7) u(1) by auto
qed

text \<open>Witness: the example pool in the used list, and a request of 100 bytes.\<close>
theorem release_create_roundtrip_witness:
  "\<exists>t u. cpool_release_pool 1024 (caching_factory 1024 128) 4096 (ex_cp (used_list 1024) 1) = Some t \<and>
    cpool_create_pool 1024 (caching_factory 1024 128) None 100 0 0 t = Some (4096, u)"
proof -
  let ?s = "ex_cp (used_list 1024) 1" and ?R = "ex_R (used_list 1024)"
  have inv: "cp_inv 1024 ?s ?R (\<lambda>_. [4200])" by (rule ex_cp_inv) auto
  have P: "pools ?s 4096 = Some (ex_pool 256)" by (simp add: ex_cp_def ex_single_def)
  have cls: "classes_ok 1024 ?s ?R" using P by (auto simp: classes_ok_def ex_R_def ex_pool_def intro!: exI[of _ 0])
  have mem: "4096 \<in> set (?R (used_list 1024))" by (simp add: ex_R_def)
  have one: "pool_inv ?s 4096 [4096 + sizeof_pool]"
    using inv by (simp add: cp_inv_def all_pools_def cp_heads_def ex_R_def sizeof_pool_def)
  have sc: "size_class 100 = uint (data_factory_f (ex_pool 256))"
    by (simp add: size_class_def START_SIZE_def idx_down.simps pool_sizes_def ex_pool_def)
  have "cp_capacity ?s = 0" "cp_max_capacity ?s = 100000" "capacity_f (ex_pool 256) = 256"
    by (simp_all add: ex_cp_def ex_single_def ex_pool_state_def ex_pool_def)
  with release_create_roundtrip[OF inv cls mem one P _ _ sc, of 128 None 0 0] show ?thesis by auto
qed

text \<open>
  Destroying a caching pool that holds a recycled pool faults: \<open>mdl_caching_pool_destroy\<close> walks
  the free list while it unlinks and frees its entries.
\<close>
theorem caching_destroy_faults:
  assumes "cp_inv cp s R B" "i < 16" "R (free_list cp i) \<noteq> []" "\<forall>c \<in> set (live s). 0 < snd c"
  shows "mdl_caching_pool_destroy cp (caching_factory cp dcb) s = None"
proof -
  define k where "k = (LEAST k. R (free_list cp k) \<noteq> [])"
  have k: "R (free_list cp k) \<noteq> []" "k \<le> i" "\<And>j. j < k \<Longrightarrow> R (free_list cp j) = []"
    unfolding k_def using LeastI[of "\<lambda>k. R (free_list cp k) \<noteq> []" i] assms(3) by (auto simp: Least_le dest: not_less_Least)
  have "\<forall>a \<in> set (map (free_list cp) [0..<k]). dlist (heads s) a []"
  proof
    fix a assume "a \<in> set (map (free_list cp) [0..<k])"
    then obtain j where j: "j < k" "a = free_list cp j" by auto
    then have "a \<in> cp_heads cp" using k(2) assms(2) by simp
    then have "dlist (heads s) a (R a)" using assms(1) by (simp add: cp_inv_def rings_def)
    then show "dlist (heads s) a []" using k(3)[OF j(1)] j(2) by simp
  qed
  then have pre: "foldM (\<lambda>j. destroy_list (caching_factory cp dcb) (free_list cp j)) [0..<k] s = Some s"
    using destroy_lists_empty[of "map (free_list cp) [0..<k]" s "caching_factory cp dcb"] by (simp add: foldM_map)
  obtain p fs where p: "R (free_list cp k) = p # fs" using k(1) by (auto simp: neq_Nil_conv)
  have "k < 16" using k(2) assms(2) by simp
  then have "destroy_list (caching_factory cp dcb) (free_list cp k) s = None"
    using destroy_list_nonempty[OF assms(1) _ p assms(4)] by blast
  moreover have "[0..<16] = [0..<k] @ k # [Suc k..<16]"
    using \<open>k < 16\<close> upt_add_eq_append[of 0 k "16 - k"] by (simp add: upt_conv_Cons)
  ultimately show ?thesis using pre by (simp only: mdl_caching_pool_destroy_def foldM_append) simp
qed

text \<open>Witness: the example with its pool in the first free list.\<close>
theorem caching_destroy_faults_witness:
  "mdl_caching_pool_destroy 1024 (caching_factory 1024 128) (ex_cp (free_list 1024 0) 0) = None"
proof -
  have "cp_inv 1024 (ex_cp (free_list 1024 0) 0) (ex_R (free_list 1024 0)) (\<lambda>_. [4200])"
    by (rule ex_cp_inv) auto
  from caching_destroy_faults[OF this, of 0 128] show ?thesis by (simp add: ex_R_def ex_cp_def)
qed

end
