(* ===== verification/Thread.thy ===== *)
theory Thread
  imports Pool
begin

text \<open>
  \<open>thread/thread.c\<close>: threads with thread-local storage, mutexes, atomic counters built on mutexes,
  and semaphores, on top of POSIX threads.

  A C function is a program (type \<open>prog\<close>): a tree of atomic actions, each of which a scheduler
  runs for some thread. An action may block (it is then not enabled), have undefined behaviour
  (the program faults), or yield a value and a new state. Every call of a pthread function is one
  action, as is every group of accesses to one structure between two such calls. A program run by
  one thread alone is \<open>run\<close>; the interleavings of several threads are the step relation
  \<open>sched\<close>.

  The pthread functions behave as POSIX specifies them, and as glibc where POSIX leaves the
  behaviour open and \<open>thread.c\<close> relies on it (\<open>EBUSY\<close> from \<open>pthread_mutex_destroy\<close>, the lowest free
  key, \<open>NULL\<close> for an unknown key). The header defines \<open>MUTEX_DEBUG\<close> and \<open>CHECK_STACK\<close>. Of the log
  macro the evaluation of its arguments is modelled, since it dereferences the record of the
  calling thread; its output is not.
\<close>

section \<open>Structures\<close>

type_synonym tid = "64 word"

text \<open>\<open>struct mdl_thread_s\<close> without its list node, the list head at its address.\<close>

record mdl_thread =
  obj_name_t :: "byte list"
  thread_t :: tid
  tid_t :: "64 word"
  proc_t :: addr
  arg_t :: addr
  suspended_mutex_t :: addr
  stk_size_t :: u32
  stk_max_usage_t :: u32
  stk_start_t :: addr

datatype mutex_type = MUTEX_DEFAULT | MUTEX_SIMPLE | MUTEX_RECURSE

datatype mutex_kind = PTHREAD_MUTEX_NORMAL | PTHREAD_MUTEX_RECURSIVE

text \<open>The state of an initialised \<open>pthread_mutex_t\<close>: its type, its owner and how often it is locked.\<close>

record pmutex =
  kind_p :: mutex_kind
  owner_p :: "tid option"
  depth_p :: u32

record mdl_mutex =
  mutex_m :: "pmutex option"
  obj_name_m :: "byte list"
  nesting_level_m :: u32
  owner_m :: addr
  owner_name_m :: "byte list"

record mdl_atomic =
  mutex_a :: addr
  value_a :: "64 word"

record mdl_sem =
  sem_s :: addr
  obj_name_s :: "byte list"

text \<open>
  The state of the process: the pools, the structures by address, the values of the \<open>sem_t\<close> objects,
  the thread-specific data (allocated keys, and a value per key and thread), the static variables
  \<open>thread_tls_id\<close> and \<open>log_max_level\<close>, and what the system provides: the identifiers future
  threads get, the threads created and not yet scheduled (with the argument of \<open>thread_main\<close>), those
  that ended, and the kernel's thread number of each thread.
\<close>

record sys =
  pst :: pool_state
  threads :: "addr \<Rightarrow> mdl_thread option"
  mutexes :: "addr \<Rightarrow> mdl_mutex option"
  atomics :: "addr \<Rightarrow> mdl_atomic option"
  sems :: "addr \<Rightarrow> mdl_sem option"
  psems :: "addr \<Rightarrow> nat option"
  keys :: "nat list"
  tls :: "nat \<Rightarrow> tid \<Rightarrow> addr"
  thread_tls_id :: nat
  log_max_level :: int
  new_tids :: "tid list"
  spawned :: "(tid \<times> addr) list"
  ended :: "tid list"
  gettid :: "tid \<Rightarrow> 64 word"

definition SUCCESS :: int where "SUCCESS = 0"
definition FAILURE :: int where "FAILURE = -1"
definition MAX_OBJ_NAME :: nat where "MAX_OBJ_NAME = 32"
definition EPERM :: int where "EPERM = 1"
definition ESRCH :: int where "ESRCH = 3"
definition EAGAIN :: int where "EAGAIN = 11"
definition EBUSY :: int where "EBUSY = 16"
definition EINVAL :: int where "EINVAL = 22"
definition THREAD_SUSPENDED :: u32 where "THREAD_SUSPENDED = 1"
definition sizeof_thread :: size_t where "sizeof_thread = 104"
definition sizeof_mutex :: size_t where "sizeof_mutex = 120"
definition sizeof_atomic :: size_t where "sizeof_atomic = 16"
definition sizeof_sem :: size_t where "sizeof_sem = 40"
definition sizeof_sem_t :: size_t where "sizeof_sem_t = 32"

lemmas thread_consts = SUCCESS_def FAILURE_def EPERM_def ESRCH_def EAGAIN_def EBUSY_def EINVAL_def

section \<open>Programs\<close>

datatype 'a prog = Ret 'a | Fault | Act "tid \<Rightarrow> sys \<Rightarrow> (sys \<times> 'a prog) option"

primrec bindp :: "'a prog \<Rightarrow> ('a \<Rightarrow> 'b prog) \<Rightarrow> 'b prog" where
  "bindp (Ret a) f = f a"
| "bindp Fault f = Fault"
| "bindp (Act k) f = Act (\<lambda>t s. map_option (map_prod id (\<lambda>p. bindp p f)) (k t s))"

datatype 'a result = Blocks | Undefined | Result 'a sys

definition prim :: "(tid \<Rightarrow> sys \<Rightarrow> 'a result) \<Rightarrow> 'a prog" where
  "prim f = Act (\<lambda>t s. case f t s of Blocks \<Rightarrow> None | Undefined \<Rightarrow> Some (s, Fault) | Result a s' \<Rightarrow> Some (s', Ret a))"

text \<open>A program run by one thread without interruption.\<close>

datatype 'a outcome = Done 'a sys | Stuck sys | Crashed

primrec run :: "tid \<Rightarrow> 'a prog \<Rightarrow> sys \<Rightarrow> 'a outcome" where
  "run t (Ret a) = (\<lambda>s. Done a s)"
| "run t Fault = (\<lambda>s. Crashed)"
| "run t (Act k) = (\<lambda>s. case map_option (map_prod id (run t)) (k t s) of None \<Rightarrow> Stuck s | Some (s', r) \<Rightarrow> r s')"

text \<open>
  The interleavings: a configuration is the state and the program each thread still has to run.
  A thread runs its next action, starts, or ends. The function that a created thread runs, given
  its record, is an argument. A fault ends the process: no step leaves such a configuration.
\<close>

type_synonym config = "sys \<times> (tid \<Rightarrow> addr prog option)"

definition crashed :: "config \<Rightarrow> bool" where
  "crashed c \<longleftrightarrow> (\<exists>t. snd c t = Some Fault)"

inductive sched :: "(addr \<Rightarrow> addr prog) \<Rightarrow> config \<Rightarrow> config \<Rightarrow> bool" for body where
  act: "\<not> crashed (s, P) \<Longrightarrow> P t = Some (Act k) \<Longrightarrow> k t s = Some (s', p) \<Longrightarrow> sched body (s, P) (s', P(t \<mapsto> p))"
| spawn: "\<not> crashed (s, P) \<Longrightarrow> spawned s = (t, rec) # r \<Longrightarrow> P t = None \<Longrightarrow>
    sched body (s, P) (s\<lparr>spawned := r\<rparr>, P(t \<mapsto> body rec))"
| stop: "\<not> crashed (s, P) \<Longrightarrow> P t = Some (Ret a) \<Longrightarrow>
    sched body (s, P) (s\<lparr>ended := t # ended s\<rparr>, P(t := None))"

inductive_cases sched_cases: "sched body c c'"

section \<open>POSIX threads\<close>

definition set_pmutex :: "addr \<Rightarrow> pmutex option \<Rightarrow> sys \<Rightarrow> sys" where
  "set_pmutex m k s = (case mutexes s m of None \<Rightarrow> s | Some M \<Rightarrow> s\<lparr>mutexes := (mutexes s)(m \<mapsto> M\<lparr>mutex_m := k\<rparr>)\<rparr>)"

definition pmutex_at :: "sys \<Rightarrow> addr \<Rightarrow> pmutex option" where
  "pmutex_at s m = Option.bind (mutexes s m) mutex_m"

definition pthread_mutex_lock :: "addr \<Rightarrow> tid \<Rightarrow> sys \<Rightarrow> int result" where
  "pthread_mutex_lock m t s = (case pmutex_at s m of
     None \<Rightarrow> Undefined
   | Some k \<Rightarrow> (case owner_p k of
       None \<Rightarrow> Result 0 (set_pmutex m (Some (k\<lparr>owner_p := Some t, depth_p := 1\<rparr>)) s)
     | Some u \<Rightarrow>
         if kind_p k = PTHREAD_MUTEX_RECURSIVE \<and> u = t
         then (if depth_p k + 1 = 0 then Result EAGAIN s
               else Result 0 (set_pmutex m (Some (k\<lparr>depth_p := depth_p k + 1\<rparr>)) s))
         else Blocks))"

definition pthread_mutex_trylock :: "addr \<Rightarrow> tid \<Rightarrow> sys \<Rightarrow> int result" where
  "pthread_mutex_trylock m t s = (case pthread_mutex_lock m t s of Blocks \<Rightarrow> Result EBUSY s | r \<Rightarrow> r)"

definition pthread_mutex_unlock :: "addr \<Rightarrow> tid \<Rightarrow> sys \<Rightarrow> int result" where
  "pthread_mutex_unlock m t s = (case pmutex_at s m of
     None \<Rightarrow> Undefined
   | Some k \<Rightarrow>
       if owner_p k = Some t
       then Result 0 (set_pmutex m (Some (if depth_p k = 1 then k\<lparr>owner_p := None, depth_p := 0\<rparr>
                                          else k\<lparr>depth_p := depth_p k - 1\<rparr>)) s)
       else if kind_p k = PTHREAD_MUTEX_RECURSIVE then Result EPERM s
       else Undefined)"

definition pthread_mutex_destroy :: "addr \<Rightarrow> tid \<Rightarrow> sys \<Rightarrow> int result" where
  "pthread_mutex_destroy m t s = (case pmutex_at s m of
     None \<Rightarrow> Undefined
   | Some k \<Rightarrow> if owner_p k = None then Result 0 (set_pmutex m None s) else Result EBUSY s)"

definition pthread_mutex_init :: "addr \<Rightarrow> mutex_kind \<Rightarrow> tid \<Rightarrow> sys \<Rightarrow> int result" where
  "pthread_mutex_init m k t s =
     Result 0 (set_pmutex m (Some \<lparr>kind_p = k, owner_p = None, depth_p = 0\<rparr>) s)"

definition PTHREAD_KEYS_MAX :: nat where "PTHREAD_KEYS_MAX = 1024"

text \<open>The result and the key.\<close>

definition pthread_key_create :: "tid \<Rightarrow> sys \<Rightarrow> (int \<times> nat) result" where
  "pthread_key_create t s = (case List.find (\<lambda>k. k \<notin> set (keys s)) [0..<PTHREAD_KEYS_MAX] of
     None \<Rightarrow> Result (EAGAIN, 0) s
   | Some k \<Rightarrow> Result (0, k) (s\<lparr>keys := k # keys s, tls := (tls s)(k := \<lambda>_. NULL)\<rparr>))"

definition pthread_key_delete :: "nat \<Rightarrow> tid \<Rightarrow> sys \<Rightarrow> unit result" where
  "pthread_key_delete k t s = Result () (s\<lparr>keys := removeAll k (keys s)\<rparr>)"

definition pthread_setspecific :: "nat \<Rightarrow> addr \<Rightarrow> tid \<Rightarrow> sys \<Rightarrow> int result" where
  "pthread_setspecific k v t s =
     (if k \<in> set (keys s) then Result 0 (s\<lparr>tls := (tls s)(k := (tls s k)(t := v))\<rparr>) else Result EINVAL s)"

definition pthread_getspecific :: "nat \<Rightarrow> tid \<Rightarrow> sys \<Rightarrow> addr" where
  "pthread_getspecific k t s = (if k \<in> set (keys s) then tls s k t else NULL)"

text \<open>The result and the identifier of the new thread.\<close>

definition pthread_create :: "addr \<Rightarrow> tid \<Rightarrow> sys \<Rightarrow> (int \<times> tid) result" where
  "pthread_create rec t s = (case new_tids s of
     [] \<Rightarrow> Result (EAGAIN, 0) s
   | u # us \<Rightarrow> Result (0, u) (s\<lparr>new_tids := us, spawned := spawned s @ [(u, rec)]\<rparr>))"

definition pthread_join :: "tid \<Rightarrow> tid \<Rightarrow> sys \<Rightarrow> int result" where
  "pthread_join u t s = (if u \<in> set (ended s) then Result 0 (s\<lparr>ended := removeAll u (ended s)\<rparr>) else Blocks)"

definition SEM_VALUE_MAX :: nat where "SEM_VALUE_MAX = 2147483647"

definition sem_init :: "addr \<Rightarrow> u32 \<Rightarrow> tid \<Rightarrow> sys \<Rightarrow> int result" where
  "sem_init p v t s =
     (if p = NULL then Undefined
      else if unat v > SEM_VALUE_MAX then Result (-1) s
      else Result 0 (s\<lparr>psems := (psems s)(p \<mapsto> unat v)\<rparr>))"

definition sem_wait :: "addr \<Rightarrow> tid \<Rightarrow> sys \<Rightarrow> int result" where
  "sem_wait p t s = (case psems s p of
     None \<Rightarrow> Undefined
   | Some n \<Rightarrow> if n = 0 then Blocks else Result 0 (s\<lparr>psems := (psems s)(p \<mapsto> n - 1)\<rparr>))"

definition sem_trywait :: "addr \<Rightarrow> tid \<Rightarrow> sys \<Rightarrow> int result" where
  "sem_trywait p t s = (case sem_wait p t s of Blocks \<Rightarrow> Result (-1) s | r \<Rightarrow> r)"

definition sem_post :: "addr \<Rightarrow> tid \<Rightarrow> sys \<Rightarrow> int result" where
  "sem_post p t s = (case psems s p of
     None \<Rightarrow> Undefined
   | Some n \<Rightarrow> if n < SEM_VALUE_MAX then Result 0 (s\<lparr>psems := (psems s)(p \<mapsto> n + 1)\<rparr>) else Result (-1) s)"

definition sem_destroy :: "addr \<Rightarrow> tid \<Rightarrow> sys \<Rightarrow> int result" where
  "sem_destroy p t s = (case psems s p of None \<Rightarrow> Undefined | Some n \<Rightarrow> Result 0 (s\<lparr>psems := (psems s)(p := None)\<rparr>))"

section \<open>Thread-local storage\<close>

definition mdl_thread_local_alloc :: "bool \<Rightarrow> (int \<times> nat option) prog" where
  "mdl_thread_local_alloc p_index =
     (if \<not> p_index then Ret (FAILURE, None)
      else bindp (prim pthread_key_create) (\<lambda>(rc, key).
        if rc \<noteq> 0 then Ret (FAILURE, None) else Ret (SUCCESS, Some key)))"

definition mdl_thread_local_free :: "nat \<Rightarrow> unit prog" where
  "mdl_thread_local_free index = prim (pthread_key_delete index)"

definition mdl_thread_local_set :: "nat \<Rightarrow> addr \<Rightarrow> int prog" where
  "mdl_thread_local_set index value =
     bindp (prim (pthread_setspecific index value)) (\<lambda>rc. Ret (if rc = 0 then SUCCESS else FAILURE))"

definition mdl_thread_local_get :: "nat \<Rightarrow> addr prog" where
  "mdl_thread_local_get index = prim (\<lambda>t s. Result (pthread_getspecific index t s) s)"

definition thread_this :: "tid \<Rightarrow> sys \<Rightarrow> addr" where
  "thread_this t s = pthread_getspecific (thread_tls_id s) t s"

definition mdl_thread_this :: "addr prog" where
  "mdl_thread_this = prim (\<lambda>t s. Result (thread_this t s) s)"

definition mdl_thread_is_register :: "bool prog" where
  "mdl_thread_is_register = bindp mdl_thread_this (\<lambda>p. Ret (p \<noteq> NULL))"

section \<open>Names\<close>

text \<open>\<open>%p\<close> of glibc: lower-case hexadecimal after \<open>0x\<close>, or \<open>(nil)\<close>.\<close>

definition ascii :: "string \<Rightarrow> byte list" where
  "ascii cs = map (\<lambda>c. of_nat (of_char c)) cs"

definition hex_digit :: "nat \<Rightarrow> byte" where
  "hex_digit n = of_nat (if n < 10 then 48 + n else 87 + n)"

fun hex_digits :: "nat \<Rightarrow> byte list" where
  "hex_digits n = (if n < 16 then [hex_digit n] else hex_digits (n div 16) @ [hex_digit (n mod 16)])"

definition show_ptr :: "addr \<Rightarrow> byte list" where
  "show_ptr p = (if p = NULL then ascii ''(nil)'' else ascii ''0x'' @ hex_digits (unat p))"

text \<open>
  Expansion of a format with one pointer argument. A format with another directive, or with more
  than one \<open>%p\<close>, reads arguments that were not passed: undefined.
\<close>

fun expand :: "byte list \<Rightarrow> byte list option \<Rightarrow> byte list option" where
  "expand [] arg = Some []"
| "expand (c # cs) arg =
     (if c \<noteq> 37 then map_option ((#) c) (expand cs arg)
      else case cs of
        [] \<Rightarrow> None
      | d # ds \<Rightarrow>
          if d = 37 then map_option ((#) 37) (expand ds arg)
          else if d = 112 then (case arg of None \<Rightarrow> None | Some a \<Rightarrow> map_option ((@) a) (expand ds None))
          else None)"

text \<open>
  The contents of a \<open>char[MAX_OBJ_NAME]\<close> after \<open>snprintf\<close> of a string into it, and after \<open>strncpy\<close>
  followed by the store of a 0 in its last byte.
\<close>

definition snprintf_name :: "byte list \<Rightarrow> byte list \<Rightarrow> byte list" where
  "snprintf_name str old = (let w = take (MAX_OBJ_NAME - 1) str @ [0] in w @ drop (length w) old)"

definition strncpy_name :: "byte list \<Rightarrow> byte list" where
  "strncpy_name str = (take MAX_OBJ_NAME (str @ replicate MAX_OBJ_NAME 0))[MAX_OBJ_NAME - 1 := 0]"

definition zero_name :: "byte list" where
  "zero_name = replicate MAX_OBJ_NAME 0"

definition c_string :: "byte list \<Rightarrow> byte list" where
  "c_string bs = takeWhile (\<lambda>b. b \<noteq> 0) bs"

text \<open>The naming code shared by threads, mutexes and semaphores; the default depends on the caller.\<close>

definition set_obj_name :: "byte list \<Rightarrow> byte list option \<Rightarrow> addr \<Rightarrow> byte list \<Rightarrow> byte list option" where
  "set_obj_name deflt name obj old =
     (let name = (case name of None \<Rightarrow> deflt | Some n \<Rightarrow> n) in
      if 37 \<in> set name then map_option (\<lambda>str. snprintf_name str old) (expand name (Some (show_ptr obj)))
      else Some (strncpy_name name))"

section \<open>Access to structures\<close>

definition of_opt :: "('a \<times> sys) option \<Rightarrow> 'a result" where
  "of_opt r = (case r of None \<Rightarrow> Undefined | Some (a, s) \<Rightarrow> Result a s)"

definition upd_thread :: "addr \<Rightarrow> (mdl_thread \<Rightarrow> mdl_thread) \<Rightarrow> unit prog" where
  "upd_thread p f = prim (\<lambda>t s. of_opt (map_option (\<lambda>T. ((), s\<lparr>threads := (threads s)(p \<mapsto> f T)\<rparr>)) (threads s p)))"

definition get_thread :: "addr \<Rightarrow> mdl_thread prog" where
  "get_thread p = prim (\<lambda>t s. of_opt (map_option (\<lambda>T. (T, s)) (threads s p)))"

definition get_mutex :: "addr \<Rightarrow> mdl_mutex prog" where
  "get_mutex m = prim (\<lambda>t s. of_opt (map_option (\<lambda>M. (M, s)) (mutexes s m)))"

definition upd_mutex :: "addr \<Rightarrow> (mdl_mutex \<Rightarrow> mdl_mutex) \<Rightarrow> unit prog" where
  "upd_mutex m f = prim (\<lambda>t s. of_opt (map_option (\<lambda>M. ((), s\<lparr>mutexes := (mutexes s)(m \<mapsto> f M)\<rparr>)) (mutexes s m)))"

definition get_atomic :: "addr \<Rightarrow> mdl_atomic prog" where
  "get_atomic a = prim (\<lambda>t s. of_opt (map_option (\<lambda>A. (A, s)) (atomics s a)))"

definition upd_atomic :: "addr \<Rightarrow> (mdl_atomic \<Rightarrow> mdl_atomic) \<Rightarrow> unit prog" where
  "upd_atomic a f = prim (\<lambda>t s. of_opt (map_option (\<lambda>A. ((), s\<lparr>atomics := (atomics s)(a \<mapsto> f A)\<rparr>)) (atomics s a)))"

definition get_sem :: "addr \<Rightarrow> mdl_sem prog" where
  "get_sem p = prim (\<lambda>t s. of_opt (map_option (\<lambda>S. (S, s)) (sems s p)))"

definition call_pool :: "(pool_state \<Rightarrow> (addr \<times> pool_state) option) \<Rightarrow> addr prog" where
  "call_pool f = prim (\<lambda>t s. of_opt (map_option (\<lambda>(p, ps). (p, s\<lparr>pst := ps\<rparr>)) (f (pst s))))"

text \<open>
  \<open>log(level, ..., mdl_thread_this()->obj_name)\<close>: when the level is enabled the record of the calling
  thread is read.
\<close>

definition log_this :: "int \<Rightarrow> unit prog" where
  "log_this level = prim (\<lambda>t s. if level \<le> log_max_level s \<and> threads s (thread_this t s) = None then Undefined else Result () s)"

section \<open>Mutexes\<close>

text \<open>A structure in memory just obtained from a pool; bytes never written are taken to be 0.\<close>

definition raw_mutex :: mdl_mutex where
  "raw_mutex = \<lparr>mutex_m = None, obj_name_m = zero_name, nesting_level_m = 0, owner_m = NULL, owner_name_m = zero_name\<rparr>"

definition new_mutex :: "addr \<Rightarrow> unit prog" where
  "new_mutex m = prim (\<lambda>t s. Result () (s\<lparr>mutexes := (mutexes s)(m \<mapsto> raw_mutex)\<rparr>))"

definition init_mutex :: "addr \<Rightarrow> byte list option \<Rightarrow> mutex_type \<Rightarrow> int prog" where
  "init_mutex m name type =
     bindp (prim (pthread_mutex_init m (if type = MUTEX_SIMPLE then PTHREAD_MUTEX_NORMAL else PTHREAD_MUTEX_RECURSIVE))) (\<lambda>rc.
     if rc \<noteq> 0 then Ret FAILURE
     else bindp (upd_mutex m (\<lambda>M. M\<lparr>owner_m := NULL, owner_name_m := (owner_name_m M)[0 := 0], nesting_level_m := 0\<rparr>)) (\<lambda>_.
     bindp (get_mutex m) (\<lambda>M.
     case set_obj_name (ascii ''mtx%p'') name m (obj_name_m M) of
       None \<Rightarrow> Fault
     | Some nm \<Rightarrow> bindp (upd_mutex m (\<lambda>M. M\<lparr>obj_name_m := nm\<rparr>)) (\<lambda>_. Ret SUCCESS))))"

text \<open>The out parameter is part of the result; the last argument says whether it is not null.\<close>

definition mdl_mutex_create ::
  "pool_factory \<Rightarrow> addr \<Rightarrow> byte list option \<Rightarrow> mutex_type \<Rightarrow> bool \<Rightarrow> (int \<times> addr option) prog" where
  "mdl_mutex_create F pool name type ptr_mutex =
     (if \<not> (pool \<noteq> NULL \<and> ptr_mutex) then Ret (FAILURE, None)
      else bindp (call_pool (mdl_pool_alloc F pool sizeof_mutex)) (\<lambda>m.
        if m = NULL then Ret (FAILURE, None)
        else bindp (new_mutex m) (\<lambda>_. bindp (init_mutex m name type) (\<lambda>rc.
          if rc \<noteq> SUCCESS then Ret (rc, None) else Ret (SUCCESS, Some m)))))"

definition mdl_mutex_create_simple :: "pool_factory \<Rightarrow> addr \<Rightarrow> byte list option \<Rightarrow> bool \<Rightarrow> (int \<times> addr option) prog" where
  "mdl_mutex_create_simple F pool name ptr = mdl_mutex_create F pool name MUTEX_SIMPLE ptr"

definition mdl_mutex_create_recursive :: "pool_factory \<Rightarrow> addr \<Rightarrow> byte list option \<Rightarrow> bool \<Rightarrow> (int \<times> addr option) prog" where
  "mdl_mutex_create_recursive F pool name ptr = mdl_mutex_create F pool name MUTEX_RECURSE ptr"

text \<open>The update of the debugging fields once the mutex is locked.\<close>

definition note_owner :: "addr \<Rightarrow> unit prog" where
  "note_owner m =
     bindp mdl_thread_this (\<lambda>this.
     bindp (upd_mutex m (\<lambda>M. M\<lparr>nesting_level_m := nesting_level_m M + 1, owner_m := this\<rparr>)) (\<lambda>_.
     bindp (get_thread this) (\<lambda>T.
     upd_mutex m (\<lambda>M. M\<lparr>owner_name_m := snprintf_name (c_string (obj_name_t T)) (owner_name_m M)\<rparr>))))"

definition status_rc :: "int \<Rightarrow> int" where
  "status_rc status = (if status = 0 then SUCCESS else FAILURE)"

definition mdl_mutex_lock :: "addr \<Rightarrow> int prog" where
  "mdl_mutex_lock m =
     (if m = NULL then Ret FAILURE
      else bindp (get_mutex m) (\<lambda>_. bindp (log_this 6) (\<lambda>_.
        bindp (prim (pthread_mutex_lock m)) (\<lambda>status.
        bindp (if status = 0 then note_owner m else Ret ()) (\<lambda>_.
        bindp (log_this 6) (\<lambda>_. Ret (status_rc status)))))))"

definition mdl_mutex_unlock :: "addr \<Rightarrow> int prog" where
  "mdl_mutex_unlock m =
     (if m = NULL then Ret FAILURE
      else bindp (get_mutex m) (\<lambda>M. bindp mdl_thread_this (\<lambda>this.
        if owner_m M \<noteq> this then Ret FAILURE
        else bindp (upd_mutex m (\<lambda>M.
            let M = M\<lparr>nesting_level_m := nesting_level_m M - 1\<rparr> in
            if nesting_level_m M = 0 then M\<lparr>owner_name_m := (owner_name_m M)[0 := 0], owner_m := NULL\<rparr> else M)) (\<lambda>_.
          bindp (log_this 6) (\<lambda>_.
          bindp (prim (pthread_mutex_lock m)) (\<lambda>status. Ret (status_rc status)))))))"

definition mdl_mutex_trylock :: "addr \<Rightarrow> int prog" where
  "mdl_mutex_trylock m =
     (if m = NULL then Ret FAILURE
      else bindp (get_mutex m) (\<lambda>_. bindp (log_this 6) (\<lambda>_.
        bindp (prim (pthread_mutex_trylock m)) (\<lambda>status.
        bindp (if status = 0 then note_owner m else Ret ()) (\<lambda>_.
        bindp (log_this 6) (\<lambda>_. Ret (status_rc status)))))))"

text \<open>The loop of \<open>mdl_mutex_destroy\<close>, with the last status.\<close>

definition RETRY :: nat where "RETRY = 4"

function destroy_loop :: "addr \<Rightarrow> nat \<Rightarrow> int \<Rightarrow> int prog" where
  "destroy_loop m retry status =
     (if retry < RETRY
      then bindp (prim (pthread_mutex_destroy m)) (\<lambda>status.
        if status = 0 then Ret status
        else if retry < RETRY - 1 \<and> status = EBUSY
        then bindp (prim (pthread_mutex_unlock m)) (\<lambda>_. destroy_loop m (retry + 1) status)
        else destroy_loop m (retry + 1) status)
      else Ret status)"
  by pat_completeness auto
termination by (relation "measure (\<lambda>(m, retry, st). RETRY - retry)") auto

declare destroy_loop.simps [simp del]

definition mdl_mutex_destroy :: "addr \<Rightarrow> int prog" where
  "mdl_mutex_destroy m =
     (if m = NULL then Ret FAILURE
      else bindp (get_mutex m) (\<lambda>_. bindp (log_this 6) (\<lambda>_.
        bindp (destroy_loop m 0 0) (\<lambda>status. Ret (status_rc status)))))"

definition mdl_mutex_islocked :: "addr \<Rightarrow> bool prog" where
  "mdl_mutex_islocked m =
     (if m = NULL then Ret False
      else bindp (get_mutex m) (\<lambda>M. bindp mdl_thread_this (\<lambda>this. Ret (owner_m M = this))))"

section \<open>Atomic counters\<close>

definition new_atomic :: "addr \<Rightarrow> unit prog" where
  "new_atomic a = prim (\<lambda>t s. Result () (s\<lparr>atomics := (atomics s)(a \<mapsto> \<lparr>mutex_a = NULL, value_a = 0\<rparr>)\<rparr>))"

definition mdl_atomic_create :: "pool_factory \<Rightarrow> addr \<Rightarrow> 64 word \<Rightarrow> (int \<times> addr option) prog" where
  "mdl_atomic_create F pool initial =
     bindp (call_pool (mdl_pool_alloc F pool sizeof_atomic)) (\<lambda>a.
       if a = NULL then Ret (FAILURE, None)
       else bindp (new_atomic a) (\<lambda>_.
         bindp (mdl_mutex_create F pool (Some (ascii ''atm%p'')) MUTEX_SIMPLE True) (\<lambda>(rc, m).
           bindp (case m of None \<Rightarrow> Ret () | Some m \<Rightarrow> upd_atomic a (\<lambda>A. A\<lparr>mutex_a := m\<rparr>)) (\<lambda>_.
             if rc \<noteq> SUCCESS then Ret (rc, None)
             else bindp (upd_atomic a (\<lambda>A. A\<lparr>value_a := initial\<rparr>)) (\<lambda>_. Ret (SUCCESS, Some a))))))"

definition mdl_atomic_destroy :: "addr \<Rightarrow> int prog" where
  "mdl_atomic_destroy a =
     (if a = NULL then Ret FAILURE else bindp (get_atomic a) (\<lambda>A. mdl_mutex_destroy (mutex_a A)))"

text \<open>An update of the value between a lock and an unlock of the mutex, whose results are ignored.\<close>

definition locked :: "addr \<Rightarrow> 'v prog \<Rightarrow> 'v prog" where
  "locked a body =
     bindp (get_atomic a) (\<lambda>A. bindp (mdl_mutex_lock (mutex_a A)) (\<lambda>_.
     bindp body (\<lambda>r.
     bindp (get_atomic a) (\<lambda>A. bindp (mdl_mutex_unlock (mutex_a A)) (\<lambda>_. Ret r)))))"

text \<open>Addition to the value, a \<open>long\<close>: an overflow is undefined.\<close>

definition add_long :: "64 word \<Rightarrow> 64 word \<Rightarrow> 64 word option" where
  "add_long v d = (if sint v + sint d < - (2 ^ 63) \<or> sint v + sint d \<ge> 2 ^ 63 then None else Some (v + d))"

definition add_value :: "addr \<Rightarrow> 64 word \<Rightarrow> 64 word prog" where
  "add_value a d = prim (\<lambda>t s. of_opt (Option.bind (atomics s a) (\<lambda>A. Option.bind (add_long (value_a A) d) (\<lambda>v.
     Some (v, s\<lparr>atomics := (atomics s)(a \<mapsto> A\<lparr>value_a := v\<rparr>)\<rparr>)))))"

definition mdl_atomic_set :: "addr \<Rightarrow> 64 word \<Rightarrow> unit prog" where
  "mdl_atomic_set a v = locked a (upd_atomic a (\<lambda>A. A\<lparr>value_a := v\<rparr>))"

definition mdl_atomic_get :: "addr \<Rightarrow> 64 word prog" where
  "mdl_atomic_get a = locked a (bindp (get_atomic a) (\<lambda>A. Ret (value_a A)))"

definition mdl_atomic_inc_and_get :: "addr \<Rightarrow> 64 word prog" where
  "mdl_atomic_inc_and_get a = locked a (add_value a 1)"

definition mdl_atomic_inc :: "addr \<Rightarrow> unit prog" where
  "mdl_atomic_inc a = bindp (mdl_atomic_inc_and_get a) (\<lambda>_. Ret ())"

definition mdl_atomic_dec_and_get :: "addr \<Rightarrow> 64 word prog" where
  "mdl_atomic_dec_and_get a = locked a (add_value a (-1))"

definition mdl_atomic_dec :: "addr \<Rightarrow> unit prog" where
  "mdl_atomic_dec a = bindp (mdl_atomic_dec_and_get a) (\<lambda>_. Ret ())"

definition mdl_atomic_add_and_get :: "addr \<Rightarrow> 64 word \<Rightarrow> 64 word prog" where
  "mdl_atomic_add_and_get a v = locked a (add_value a v)"

definition mdl_atomic_add :: "addr \<Rightarrow> 64 word \<Rightarrow> unit prog" where
  "mdl_atomic_add a v = bindp (mdl_atomic_add_and_get a v) (\<lambda>_. Ret ())"

section \<open>Semaphores\<close>

definition set_sem :: "addr \<Rightarrow> mdl_sem \<Rightarrow> unit prog" where
  "set_sem p v = prim (\<lambda>t s. Result () (s\<lparr>sems := (sems s)(p \<mapsto> v)\<rparr>))"

definition mdl_sem_create ::
  "pool_factory \<Rightarrow> addr \<Rightarrow> byte list option \<Rightarrow> u32 \<Rightarrow> u32 \<Rightarrow> bool \<Rightarrow> (int \<times> addr option) prog" where
  "mdl_sem_create F pool name initial mx ptr_sem =
     (if \<not> (pool \<noteq> NULL \<and> ptr_sem) then Ret (FAILURE, None)
      else bindp (call_pool (mdl_pool_alloc F pool sizeof_sem)) (\<lambda>p.
        if p = NULL then Ret (FAILURE, None)
        else bindp (call_pool (mdl_pool_alloc F pool sizeof_sem_t)) (\<lambda>q.
          bindp (set_sem p \<lparr>sem_s = q, obj_name_s = zero_name\<rparr>) (\<lambda>_.
          bindp (prim (sem_init q initial)) (\<lambda>rc.
          if rc \<noteq> 0 then Ret (FAILURE, None)
          else (case set_obj_name (ascii ''sem%p'') name p zero_name of
              None \<Rightarrow> Fault
            | Some nm \<Rightarrow> bindp (set_sem p \<lparr>sem_s = q, obj_name_s = nm\<rparr>) (\<lambda>_. Ret (SUCCESS, Some p))))))))"

definition mdl_sem_destroy :: "addr \<Rightarrow> int prog" where
  "mdl_sem_destroy p =
     (if p = NULL then Ret FAILURE
      else bindp (get_sem p) (\<lambda>S. bindp (log_this 6) (\<lambda>_.
        bindp (prim (sem_destroy (sem_s S))) (\<lambda>rc. Ret (status_rc rc)))))"

definition mdl_sem_wait :: "addr \<Rightarrow> int prog" where
  "mdl_sem_wait p =
     (if p = NULL then Ret FAILURE
      else bindp (get_sem p) (\<lambda>S. bindp (log_this 6) (\<lambda>_.
        bindp (prim (sem_wait (sem_s S))) (\<lambda>rc.
        bindp (log_this 6) (\<lambda>_. Ret (status_rc rc))))))"

definition mdl_sem_trywait :: "addr \<Rightarrow> int prog" where
  "mdl_sem_trywait p =
     (if p = NULL then Ret FAILURE
      else bindp (get_sem p) (\<lambda>S.
        bindp (prim (sem_trywait (sem_s S))) (\<lambda>rc.
        bindp (if rc = 0 then log_this 6 else Ret ()) (\<lambda>_. Ret (status_rc rc)))))"

definition mdl_sem_post :: "addr \<Rightarrow> int prog" where
  "mdl_sem_post p =
     bindp (get_sem p) (\<lambda>S. bindp (log_this 6) (\<lambda>_.
       bindp (prim (sem_post (sem_s S))) (\<lambda>rc. Ret (status_rc rc))))"

section \<open>Threads\<close>

definition zero_thread :: mdl_thread where
  "zero_thread = \<lparr>obj_name_t = zero_name, thread_t = 0, tid_t = 0, proc_t = NULL, arg_t = NULL,
     suspended_mutex_t = NULL, stk_size_t = 0, stk_max_usage_t = 0, stk_start_t = NULL\<rparr>"

text \<open>\<open>bzero\<close> of a record, its list node included, and operations on the nodes.\<close>

definition bzero_thread :: "addr \<Rightarrow> tid \<Rightarrow> sys \<Rightarrow> unit result" where
  "bzero_thread p t s = of_opt (map_option (\<lambda>h. ((), s\<lparr>pst := (pst s)\<lparr>heads := h\<rparr>,
     threads := (threads s)(p \<mapsto> zero_thread)\<rparr>)) (Option.bind (threads s p) (\<lambda>_. Option.bind (set_next p NULL (heads (pst s))) (set_prev p NULL))))"

definition on_nodes :: "(lheap \<Rightarrow> lheap option) \<Rightarrow> unit prog" where
  "on_nodes f = prim (\<lambda>t s. of_opt (map_option (\<lambda>h. ((), s\<lparr>pst := (pst s)\<lparr>heads := h\<rparr>\<rparr>)) (f (heads (pst s)))))"

text \<open>
  The address of the static \<open>main_thread\<close> and that of the local variable \<open>stack_ptr\<close> are arguments;
  the result has the out parameter.
\<close>

definition mdl_thread_register ::
  "addr \<Rightarrow> addr \<Rightarrow> byte list option \<Rightarrow> addr \<Rightarrow> (int \<times> addr option) prog" where
  "mdl_thread_register main_thread stack_ptr name desc =
     bindp (prim (bzero_thread desc)) (\<lambda>_.
     bindp (prim (\<lambda>t s. Result (t, gettid s t) s)) (\<lambda>(self, ktid).
     bindp (upd_thread desc (\<lambda>T. T\<lparr>thread_t := self, tid_t := ktid\<rparr>)) (\<lambda>_.
     case (case name of
         Some n \<Rightarrow> if length n < MAX_OBJ_NAME - 1 then expand n (Some (show_ptr self))
                   else expand (ascii ''thread_%p'') (Some (show_ptr self))
       | None \<Rightarrow> expand (ascii ''thread_%p'') (Some (show_ptr self))) of
       None \<Rightarrow> Fault
     | Some str \<Rightarrow>
         bindp (upd_thread desc (\<lambda>T. T\<lparr>obj_name_t := snprintf_name str (obj_name_t T)\<rparr>)) (\<lambda>_.
         bindp (prim (\<lambda>t s. Result (thread_tls_id s) s)) (\<lambda>key.
         bindp (mdl_thread_local_set key desc) (\<lambda>rc.
         if rc \<noteq> SUCCESS then bindp (prim (bzero_thread desc)) (\<lambda>_. Ret (rc, None))
         else bindp (on_nodes (INIT_LIST_HEAD main_thread)) (\<lambda>_.
           bindp (upd_thread desc (\<lambda>T. T\<lparr>stk_start_t := stack_ptr, stk_size_t := 0xFFFFFFFF, stk_max_usage_t := 0\<rparr>)) (\<lambda>_.
           Ret (SUCCESS, Some desc)))))))))"

definition mdl_thread_init :: "addr \<Rightarrow> addr \<Rightarrow> int prog" where
  "mdl_thread_init main_thread stack_ptr =
     bindp (mdl_thread_local_alloc True) (\<lambda>(rc, key).
     bindp (case key of None \<Rightarrow> Ret () | Some k \<Rightarrow> prim (\<lambda>t s. Result () (s\<lparr>thread_tls_id := k\<rparr>))) (\<lambda>_.
       if rc \<noteq> SUCCESS then Ret rc
       else bindp (mdl_thread_register main_thread stack_ptr (Some (ascii ''thread_%p'')) main_thread) (\<lambda>(rc, _). Ret rc)))"

text \<open>
  The start routine. The functions of the user are an argument: the program of a function pointer
  on an argument; so is the address of its parameter on the stack of the thread.
\<close>

definition thread_main :: "addr \<Rightarrow> addr \<Rightarrow> (addr \<Rightarrow> addr \<Rightarrow> addr prog) \<Rightarrow> addr \<Rightarrow> addr prog" where
  "thread_main main_thread stack_ptr user rec =
     bindp (upd_thread rec (\<lambda>T. T\<lparr>stk_start_t := stack_ptr\<rparr>)) (\<lambda>_.
     bindp (prim (\<lambda>t s. Result (thread_tls_id s) s)) (\<lambda>key.
     bindp (mdl_thread_local_set key rec) (\<lambda>rc.
     if rc \<noteq> SUCCESS then Ret NULL
     else bindp (prim (\<lambda>t s. Result (gettid s t) s)) (\<lambda>ktid.
       bindp (upd_thread rec (\<lambda>T. T\<lparr>tid_t := ktid\<rparr>)) (\<lambda>_.
       bindp (on_nodes (list_add rec main_thread)) (\<lambda>_.
       bindp (get_thread rec) (\<lambda>T.
       bindp (if suspended_mutex_t T \<noteq> NULL
              then bindp (mdl_mutex_lock (suspended_mutex_t T)) (\<lambda>_.
                   bindp (get_thread rec) (\<lambda>T. bindp (mdl_mutex_unlock (suspended_mutex_t T)) (\<lambda>_. Ret ())))
              else Ret ()) (\<lambda>_.
       bindp (get_thread rec) (\<lambda>T. user (proc_t T) (arg_t T))))))))))"

definition new_thread :: "addr \<Rightarrow> unit prog" where
  "new_thread p = prim (\<lambda>t s. bzero_thread p t (s\<lparr>threads := (threads s)(p \<mapsto> zero_thread)\<rparr>))"

definition mdl_thread_create ::
  "pool_factory \<Rightarrow> addr \<Rightarrow> byte list option \<Rightarrow> addr \<Rightarrow> addr \<Rightarrow> size_t \<Rightarrow> u32 \<Rightarrow> bool \<Rightarrow> (int \<times> addr option) prog" where
  "mdl_thread_create F pool name proc arg stack_size flags ptr_thread =
     (if \<not> (pool \<noteq> NULL \<and> proc \<noteq> NULL \<and> ptr_thread) then Ret (FAILURE, None)
      else bindp (call_pool (mdl_pool_zalloc F pool sizeof_thread)) (\<lambda>rec.
      if rec = NULL then Ret (FAILURE, None)
      else bindp (new_thread rec) (\<lambda>_.
      case set_obj_name (ascii ''thread_%p'') name rec zero_name of
        None \<Rightarrow> Fault
      | Some nm \<Rightarrow>
      bindp (upd_thread rec (\<lambda>T. T\<lparr>obj_name_t := nm, stk_size_t := ucast stack_size, stk_max_usage_t := 0\<rparr>)) (\<lambda>_.
      bindp (if flags AND THREAD_SUSPENDED \<noteq> 0
             then bindp (mdl_mutex_create_simple F pool None True) (\<lambda>(rc, m).
                  bindp (case m of None \<Rightarrow> Ret () | Some m \<Rightarrow> upd_thread rec (\<lambda>T. T\<lparr>suspended_mutex_t := m\<rparr>)) (\<lambda>_.
                  if rc \<noteq> SUCCESS then Ret rc
                  else bindp (get_thread rec) (\<lambda>T. bindp (mdl_mutex_lock (suspended_mutex_t T)) (\<lambda>_. Ret SUCCESS))))
             else bindp (get_thread rec) (\<lambda>T. Ret (if suspended_mutex_t T = NULL then SUCCESS else FAILURE))) (\<lambda>rc.
      if rc \<noteq> SUCCESS then Ret (rc, None)
      else bindp (upd_thread rec (\<lambda>T. T\<lparr>proc_t := proc, arg_t := arg\<rparr>)) (\<lambda>_.
        bindp (prim (pthread_create rec)) (\<lambda>(rc, u).
        if rc \<noteq> 0 then Ret (FAILURE, None)
        else bindp (upd_thread rec (\<lambda>T. T\<lparr>thread_t := u\<rparr>)) (\<lambda>_. Ret (SUCCESS, Some rec)))))))))"

text \<open>The records \<open>mdl_thread_dump\<close> prints, in the order of the list.\<close>

definition mdl_thread_dump :: "addr \<Rightarrow> (64 word \<times> byte list) list prog" where
  "mdl_thread_dump main_thread = prim (\<lambda>t s. of_opt (Option.bind (threads s main_thread) (\<lambda>M.
     Option.bind (list_for_each main_thread (heads (pst s))) (\<lambda>ns.
     Option.bind (those (map (threads s) ns)) (\<lambda>Ts.
       Some (map (\<lambda>T. (tid_t T, c_string (obj_name_t T))) (M # Ts), s))))))"

definition mdl_thread_getname :: "addr \<Rightarrow> byte list prog" where
  "mdl_thread_getname p = (if p = NULL then Ret [] else bindp (get_thread p) (\<lambda>T. Ret (c_string (obj_name_t T))))"

definition mdl_thread_resume :: "addr \<Rightarrow> int prog" where
  "mdl_thread_resume p =
     (if p = NULL then Ret FAILURE else bindp (get_thread p) (\<lambda>T. mdl_mutex_lock (suspended_mutex_t T)))"

definition mdl_thread_join :: "addr \<Rightarrow> int prog" where
  "mdl_thread_join p =
     bindp mdl_thread_this (\<lambda>this.
       if p = this then Ret FAILURE
       else bindp (get_thread p) (\<lambda>T. bindp (log_this 6) (\<lambda>_.
         bindp (prim (pthread_join (thread_t T))) (\<lambda>rc. Ret (status_rc rc)))))"

definition mdl_thread_destroy :: "addr \<Rightarrow> int prog" where
  "mdl_thread_destroy p =
     bindp (get_thread p) (\<lambda>T.
       if suspended_mutex_t T \<noteq> NULL
       then bindp (mdl_mutex_destroy (suspended_mutex_t T)) (\<lambda>_.
         bindp (upd_thread p (\<lambda>T. T\<lparr>suspended_mutex_t := NULL\<rparr>)) (\<lambda>_. Ret SUCCESS))
       else Ret SUCCESS)"

text \<open>The argument of \<open>nanosleep\<close>, whose result is an argument.\<close>

definition sleep_request :: "u32 \<Rightarrow> 64 word \<times> 64 word" where
  "sleep_request msec = (ucast (msec div 1000), ucast ((msec mod 1000) * 1000000 :: u32))"

definition mdl_thread_sleep :: "(64 word \<times> 64 word \<Rightarrow> int) \<Rightarrow> u32 \<Rightarrow> int prog" where
  "mdl_thread_sleep nanosleep msec = Ret (if nanosleep (sleep_request msec) = 0 then SUCCESS else FAILURE)"

section \<open>Running programs\<close>

lemma run_bindp [simp]:
  "run t (bindp p f) s = (case run t p s of Done a s' \<Rightarrow> run t (f a) s' | Stuck s' \<Rightarrow> Stuck s' | Crashed \<Rightarrow> Crashed)"
proof (induction p arbitrary: s)
  case (Act k)
  show ?case
  proof (cases "k t s")
    case (Some r)
    obtain s' p where r: "r = (s', p)" by (cases r)
    have "run t (bindp p f) s' = (case run t p s' of Done a s' \<Rightarrow> run t (f a) s' | Stuck s' \<Rightarrow> Stuck s' | Crashed \<Rightarrow> Crashed)"
      using Act[of "k t" "Some r" "(s', p)" p] r Some rangeI[of "k t" s] by (auto simp: Basic_BNFs.snds.simps)
    then show ?thesis using Some r by simp
  qed simp
qed auto

lemma run_prim [simp]:
  "run t (prim f) s = (case f t s of Blocks \<Rightarrow> Stuck s | Undefined \<Rightarrow> Crashed | Result a s' \<Rightarrow> Done a s')"
  by (simp add: prim_def split: result.split)

lemma bindp_prim_acts: "bindp (prim g) f = Act (\<lambda>t s. case g t s of Blocks \<Rightarrow> None | Undefined \<Rightarrow> Some (s, Fault) | Result a s' \<Rightarrow> Some (s', f a))"
  by (auto simp: prim_def fun_eq_iff split: result.split)

lemma of_opt_simps [simp]: "of_opt None = Undefined" "of_opt (Some (a, s)) = Result a s"
  by (simp_all add: of_opt_def)

lemma of_opt_Result: "of_opt r = Result a s \<longleftrightarrow> r = Some (a, s)"
  by (auto simp: of_opt_def split: option.splits)

lemmas access_defs = upd_thread_def get_thread_def get_mutex_def upd_mutex_def get_atomic_def upd_atomic_def
  get_sem_def log_this_def mdl_thread_this_def call_pool_def on_nodes_def

section \<open>Invariants of all interleavings\<close>

text \<open>Every action of a program satisfies a relation between the states around it.\<close>

inductive acts :: "(sys \<Rightarrow> sys \<Rightarrow> bool) \<Rightarrow> 'a prog \<Rightarrow> bool" for R where
  ret: "acts R (Ret a)"
| fault: "acts R Fault"
| act: "(\<And>t s s' p. k t s = Some (s', p) \<Longrightarrow> R s s' \<and> acts R p) \<Longrightarrow> acts R (Act k)"

inductive_simps acts_Act: "acts R (Act k)"

lemma acts_simps [simp]: "acts R (Ret a)" "acts R Fault"
  by (simp_all add: acts.ret acts.fault)

lemma acts_bindp: "acts R p \<Longrightarrow> (\<And>a. acts R (f a)) \<Longrightarrow> acts R (bindp p f)"
  by (induction rule: acts.induct) (auto intro!: acts.act simp: map_prod_def split: prod.splits)

lemma acts_prim:
  assumes "\<And>t s. R s s" "\<And>t s a s'. g t s = Result a s' \<Longrightarrow> R s s'"
  shows "acts R (prim g)"
  unfolding prim_def using assms by (intro acts.act) (auto split: result.splits)

locale sched_invariant =
  fixes R :: "sys \<Rightarrow> sys \<Rightarrow> bool" and I :: "sys \<Rightarrow> bool"
  assumes step: "R s s' \<Longrightarrow> I s \<Longrightarrow> I s'"
    and env: "I s \<Longrightarrow> I (s\<lparr>spawned := r\<rparr>)" "I s \<Longrightarrow> I (s\<lparr>ended := e\<rparr>)"
begin

definition good :: "config \<Rightarrow> bool" where
  "good c \<longleftrightarrow> I (fst c) \<and> (\<forall>t p. snd c t = Some p \<longrightarrow> acts R p)"

lemma good_step:
  assumes "sched body c c'" "good c" "\<And>rec. acts R (body rec)"
  shows "good c'"
  using assms
proof (cases rule: sched.cases)
  case (act s P t k s' p)
  then have "acts R (Act k)" "I s" using assms(2) by (auto simp: good_def)
  then have "R s s' \<and> acts R p" using act by (simp add: acts_Act)
  then show ?thesis using act assms(2) step[of s s'] by (auto simp: good_def)
qed (auto simp: good_def intro: env)

lemma good_steps:
  "(sched body)\<^sup>*\<^sup>* c c' \<Longrightarrow> good c \<Longrightarrow> (\<And>rec. acts R (body rec)) \<Longrightarrow> good c'"
  by (induction rule: rtranclp_induct) (auto intro: good_step)

lemma reached:
  assumes "(sched body)\<^sup>*\<^sup>* (s, P) (s', P')" "I s" "\<And>t p. P t = Some p \<Longrightarrow> acts R p" "\<And>rec. acts R (body rec)"
  shows "I s'"
  using good_steps[OF assms(1)] assms(2-) by (auto simp: good_def)

end

section \<open>No call but the destruction releases a mutex\<close>

definition held_by :: "sys \<Rightarrow> addr \<Rightarrow> mutex_kind \<Rightarrow> tid \<Rightarrow> bool" where
  "held_by s m k u \<longleftrightarrow> (\<exists>K. pmutex_at s m = Some K \<and> kind_p K = k \<and> owner_p K = Some u)"

definition keeps_locks :: "sys \<Rightarrow> sys \<Rightarrow> bool" where
  "keeps_locks s s' \<longleftrightarrow> (\<forall>m k u. held_by s m k u \<longrightarrow> held_by s' m k u)"

interpretation held: sched_invariant keeps_locks "\<lambda>s. held_by s m k u" for m k u
  by unfold_locales (auto simp: keeps_locks_def held_by_def pmutex_at_def)

lemma keeps_refl [simp]: "keeps_locks s s"
  by (simp add: keeps_locks_def)

lemma keeps_same: "mutexes s' = mutexes s \<Longrightarrow> keeps_locks s s'"
  by (simp add: keeps_locks_def held_by_def pmutex_at_def)

lemma keeps_upd: "mutexes s m = Some M \<Longrightarrow> mutex_m M' = mutex_m M \<Longrightarrow> keeps_locks s (s\<lparr>mutexes := (mutexes s)(m \<mapsto> M')\<rparr>)"
  by (auto simp: keeps_locks_def held_by_def pmutex_at_def)

lemma pmutex_at_set:
  "pmutex_at s m = Some k \<Longrightarrow> pmutex_at (set_pmutex m k' s) n = (if n = m then k' else pmutex_at s n)"
  by (auto simp: pmutex_at_def set_pmutex_def split: option.splits)

lemma keeps_lock: "pthread_mutex_lock m t s = Result r s' \<Longrightarrow> keeps_locks s s'"
  by (auto simp: pthread_mutex_lock_def keeps_locks_def held_by_def pmutex_at_set split: option.splits if_splits)

lemma keeps_trylock: "pthread_mutex_trylock m t s = Result r s' \<Longrightarrow> keeps_locks s s'"
  by (auto simp: pthread_mutex_trylock_def intro: keeps_lock split: result.splits)

named_theorems acts_intro \<open>calls that release no mutex\<close>

lemma acts_access [acts_intro]:
  "acts keeps_locks (get_thread p)" "acts keeps_locks (upd_thread p f)" "acts keeps_locks (get_mutex m)"
  "acts keeps_locks (get_atomic a)" "acts keeps_locks (upd_atomic a g)" "acts keeps_locks (get_sem q)"
  "acts keeps_locks (log_this n)" "acts keeps_locks mdl_thread_this" "acts keeps_locks (on_nodes h)"
  "acts keeps_locks (add_value a d)"
  by (auto simp: access_defs add_value_def of_opt_Result intro!: acts_prim keeps_same split: if_splits)

lemma acts_lock [acts_intro]:
  "acts keeps_locks (prim (pthread_mutex_lock m))" "acts keeps_locks (prim (pthread_mutex_trylock m))"
  by (auto intro!: acts_prim intro: keeps_lock keeps_trylock)

lemma acts_pthread [acts_intro]:
  "acts keeps_locks (prim (sem_wait p))" "acts keeps_locks (prim (sem_trywait p))" "acts keeps_locks (prim (sem_post p))"
  "acts keeps_locks (prim (pthread_join u))" "acts keeps_locks (prim (pthread_setspecific i v))"
  "acts keeps_locks (prim (\<lambda>t s. Result (g t s) s))"
  by (auto intro!: acts_prim keeps_same
      simp: sem_wait_def sem_trywait_def sem_post_def pthread_join_def pthread_setspecific_def
      split: option.splits if_splits result.splits)

lemma acts_upd_mutex: "(\<And>M. mutex_m (f M) = mutex_m M) \<Longrightarrow> acts keeps_locks (upd_mutex m f)"
  by (auto simp: upd_mutex_def of_opt_Result intro!: acts_prim keeps_upd)

lemma acts_note_owner [acts_intro]: "acts keeps_locks (note_owner m)"
  unfolding note_owner_def by (intro acts_bindp acts_intro acts_upd_mutex) simp_all

lemma acts_mutex [acts_intro]:
  "acts keeps_locks (mdl_mutex_lock m)" "acts keeps_locks (mdl_mutex_trylock m)" "acts keeps_locks (mdl_mutex_unlock m)"
  "acts keeps_locks (mdl_mutex_islocked m)"
  unfolding mdl_mutex_lock_def mdl_mutex_trylock_def mdl_mutex_unlock_def mdl_mutex_islocked_def
  by (auto intro!: acts_bindp acts_intro acts_upd_mutex simp: Let_def)

lemma acts_locked [acts_intro]: "acts keeps_locks p \<Longrightarrow> acts keeps_locks (locked a p)"
  unfolding locked_def by (auto intro!: acts_bindp acts_intro)

lemma acts_calls [acts_intro]:
  "acts keeps_locks (mdl_atomic_set a v)" "acts keeps_locks (mdl_atomic_get a)"
  "acts keeps_locks (mdl_atomic_inc_and_get a)" "acts keeps_locks (mdl_atomic_dec_and_get a)"
  "acts keeps_locks (mdl_atomic_add_and_get a v)" "acts keeps_locks (mdl_atomic_inc a)"
  "acts keeps_locks (mdl_atomic_dec a)" "acts keeps_locks (mdl_atomic_add a v)"
  unfolding mdl_atomic_set_def mdl_atomic_get_def mdl_atomic_inc_and_get_def mdl_atomic_dec_and_get_def
    mdl_atomic_add_and_get_def mdl_atomic_inc_def mdl_atomic_dec_def mdl_atomic_add_def
  by (intro acts_intro acts_bindp acts_simps)+

lemma acts_sem [acts_intro]:
  "acts keeps_locks (mdl_sem_wait p)" "acts keeps_locks (mdl_sem_trywait p)" "acts keeps_locks (mdl_sem_post p)"
  "acts keeps_locks (mdl_thread_resume p)" "acts keeps_locks (mdl_thread_join p)" "acts keeps_locks (mdl_thread_getname p)"
  unfolding mdl_sem_wait_def mdl_sem_trywait_def mdl_sem_post_def mdl_thread_resume_def mdl_thread_join_def mdl_thread_getname_def
  by (auto intro!: acts_intro acts_bindp)

text \<open>
  Client programs: any calls of the functions that neither create nor destroy a mutex, each
  depending on the results of those before it.
\<close>

inductive client :: "'a prog \<Rightarrow> bool" where
  ret: "client (Ret a)"
| lock: "(\<And>r. client (f r)) \<Longrightarrow> client (bindp (mdl_mutex_lock m) f)"
| unlock: "(\<And>r. client (f r)) \<Longrightarrow> client (bindp (mdl_mutex_unlock m) f)"
| trylock: "(\<And>r. client (f r)) \<Longrightarrow> client (bindp (mdl_mutex_trylock m) f)"
| islocked: "(\<And>r. client (g r)) \<Longrightarrow> client (bindp (mdl_mutex_islocked m) g)"
| atomic_set: "(\<And>r. client (h r)) \<Longrightarrow> client (bindp (mdl_atomic_set a v) h)"
| atomic_get: "(\<And>r. client (k r)) \<Longrightarrow> client (bindp (mdl_atomic_get a) k)"
| atomic_inc: "(\<And>r. client (k r)) \<Longrightarrow> client (bindp (mdl_atomic_inc_and_get a) k)"
| atomic_dec: "(\<And>r. client (k r)) \<Longrightarrow> client (bindp (mdl_atomic_dec_and_get a) k)"
| atomic_add: "(\<And>r. client (k r)) \<Longrightarrow> client (bindp (mdl_atomic_add_and_get a v) k)"
| sem_wait: "(\<And>r. client (f r)) \<Longrightarrow> client (bindp (mdl_sem_wait p) f)"
| sem_trywait: "(\<And>r. client (f r)) \<Longrightarrow> client (bindp (mdl_sem_trywait p) f)"
| sem_post: "(\<And>r. client (f r)) \<Longrightarrow> client (bindp (mdl_sem_post p) f)"
| resume: "(\<And>r. client (f r)) \<Longrightarrow> client (bindp (mdl_thread_resume p) f)"
| join: "(\<And>r. client (f r)) \<Longrightarrow> client (bindp (mdl_thread_join p) f)"

lemma client_acts: "client p \<Longrightarrow> acts keeps_locks p"
  by (induction rule: client.induct) (auto intro!: acts_bindp acts_intro)

lemma acts_thread_main:
  assumes "\<And>f a. acts keeps_locks (user f a)"
  shows "acts keeps_locks (thread_main main_thread stack_ptr user rec)"
  unfolding thread_main_def mdl_thread_local_set_def
  by (auto intro!: acts_bindp acts_intro assms)

lemma held_blocks: "held_by s m PTHREAD_MUTEX_NORMAL u \<Longrightarrow> pthread_mutex_lock m t s = Blocks"
  by (auto simp: held_by_def pthread_mutex_lock_def)

section \<open>Runs\<close>

text \<open>A thread is registered when its thread-specific value is a record.\<close>

definition registered :: "sys \<Rightarrow> tid \<Rightarrow> bool" where
  "registered s t \<longleftrightarrow> (\<exists>T. threads s (thread_this t s) = Some T)"

lemma this_mutexes [simp]:
  "thread_this t (s\<lparr>mutexes := X\<rparr>) = thread_this t s" "thread_this t (set_pmutex m k s) = thread_this t s"
  "thread_this t (s\<lparr>atomics := Y\<rparr>) = thread_this t s" "thread_this t (s\<lparr>psems := Z\<rparr>) = thread_this t s"
  by (simp_all add: thread_this_def pthread_getspecific_def set_pmutex_def split: option.split)

lemma threads_set_pmutex [simp]: "threads (set_pmutex m k s) = threads s" "atomics (set_pmutex m k s) = atomics s"
  "psems (set_pmutex m k s) = psems s" "log_max_level (set_pmutex m k s) = log_max_level s"
  by (simp_all add: set_pmutex_def split: option.split)

text \<open>The state after the lock of a free mutex.\<close>

lemma run_lock_free:
  assumes "m \<noteq> NULL" "registered s t" "pmutex_at s m = Some k" "owner_p k = None"
  shows "\<exists>s' M. run t (mdl_mutex_lock m) s = Done SUCCESS s' \<and> mutexes s' m = Some M \<and>
    mutex_m M = Some (k\<lparr>owner_p := Some t, depth_p := 1\<rparr>) \<and> owner_m M = thread_this t s \<and>
    nesting_level_m M = nesting_level_m (the (mutexes s m)) + 1 \<and>
    thread_this t s' = thread_this t s \<and> threads s' = threads s \<and> atomics s' = atomics s \<and>
    registered s' t"
proof -
  obtain M where M: "mutexes s m = Some M" "mutex_m M = Some k" using assms(3) by (auto simp: pmutex_at_def)
  obtain T where T: "threads s (thread_this t s) = Some T" using assms(2) by (auto simp: registered_def)
  show ?thesis
    using assms M T
    by (auto simp: mdl_mutex_lock_def access_defs note_owner_def pthread_mutex_lock_def set_pmutex_def registered_def
        status_rc_def)
qed

lemma run_lock_held:
  assumes "m \<noteq> NULL" "registered s t" "held_by s m PTHREAD_MUTEX_NORMAL u"
  shows "run t (mdl_mutex_lock m) s = Stuck s"
  using assms held_blocks[OF assms(3), of t]
  by (auto simp: mdl_mutex_lock_def access_defs held_by_def pmutex_at_def registered_def)

lemma run_unlock_held:
  assumes "m \<noteq> NULL" "registered s t" "pmutex_at s m = Some k" "owner_p k = Some t" "kind_p k = PTHREAD_MUTEX_NORMAL"
    and "owner_m (the (mutexes s m)) = thread_this t s"
  shows "\<exists>s'. run t (mdl_mutex_unlock m) s = Stuck s' \<and> pmutex_at s' m = Some k \<and> atomics s' = atomics s"
proof -
  obtain M where M: "mutexes s m = Some M" "mutex_m M = Some k" using assms(3) by (auto simp: pmutex_at_def)
  obtain T where T: "threads s (thread_this t s) = Some T" using assms(2) by (auto simp: registered_def)
  show ?thesis
    using assms M T
    by (auto simp: mdl_mutex_unlock_def access_defs pthread_mutex_lock_def pmutex_at_def Let_def)
qed

text \<open>The pattern of the atomic operations: the body takes effect, then the unlock blocks.\<close>

lemma run_locked:
  assumes "atomics s a = Some A" "mutex_a A \<noteq> NULL" "registered s t"
    and "pmutex_at s (mutex_a A) = Some k" "owner_p k = None" "kind_p k = PTHREAD_MUTEX_NORMAL"
    and body: "\<And>s1. atomics s1 = atomics s \<Longrightarrow> run t body s1 = Done r (s1\<lparr>atomics := (atomics s)(a \<mapsto> B)\<rparr>)"
    and "mutex_a B = mutex_a A"
  shows "\<exists>s'. run t (locked a body) s = Stuck s' \<and> atomics s' = (atomics s)(a \<mapsto> B) \<and>
    held_by s' (mutex_a A) PTHREAD_MUTEX_NORMAL t"
proof -
  let ?m = "mutex_a A"
  obtain s1 M where s1: "run t (mdl_mutex_lock ?m) s = Done SUCCESS s1" "mutexes s1 ?m = Some M"
      "mutex_m M = Some (k\<lparr>owner_p := Some t, depth_p := 1\<rparr>)" "owner_m M = thread_this t s"
      "thread_this t s1 = thread_this t s" "threads s1 = threads s" "atomics s1 = atomics s" "registered s1 t"
    using run_lock_free[OF assms(2-5)] by blast
  let ?s2 = "s1\<lparr>atomics := (atomics s)(a \<mapsto> B)\<rparr>"
  have p2: "pmutex_at ?s2 ?m = Some (k\<lparr>owner_p := Some t, depth_p := 1\<rparr>)" using s1 by (simp add: pmutex_at_def)
  have "registered ?s2 t" "owner_m (the (mutexes ?s2 ?m)) = thread_this t ?s2" using s1 by (auto simp: registered_def)
  from run_unlock_held[OF assms(2) this(1) p2 _ _ this(2)] assms(6) obtain s3 where
    s3: "run t (mdl_mutex_unlock ?m) ?s2 = Stuck s3" "pmutex_at s3 ?m = Some (k\<lparr>owner_p := Some t, depth_p := 1\<rparr>)"
      "atomics s3 = (atomics s)(a \<mapsto> B)"
    by auto
  have "held_by s3 ?m PTHREAD_MUTEX_NORMAL t" using s3 assms(6) by (simp add: held_by_def)
  then show ?thesis using s1 s3 assms body[OF s1(7)] by (simp add: locked_def get_atomic_def)
qed

lemma run_atomic_bodies:
  "atomics s a = Some A \<Longrightarrow> run t (upd_atomic a f) s = Done () (s\<lparr>atomics := (atomics s)(a \<mapsto> f A)\<rparr>)"
  "atomics s a = Some A \<Longrightarrow> run t (bindp (get_atomic a) (\<lambda>A. Ret (value_a A))) s = Done (value_a A) s"
  "atomics s a = Some A \<Longrightarrow> add_long (value_a A) d = Some v \<Longrightarrow>
    run t (add_value a d) s = Done v (s\<lparr>atomics := (atomics s)(a \<mapsto> A\<lparr>value_a := v\<rparr>)\<rparr>)"
  by (simp_all add: access_defs add_value_def)

subsection \<open>Destroying a mutex\<close>

lemma set_pmutex_twice [simp]:
  "pmutex_at s m = Some k \<Longrightarrow> set_pmutex m x (set_pmutex m y s) = set_pmutex m x s"
  by (auto simp: set_pmutex_def pmutex_at_def split: option.split)

lemma set_pmutex_same: "pmutex_at s m = Some k \<Longrightarrow> set_pmutex m (Some k) s = s"
  by (auto simp: set_pmutex_def pmutex_at_def map_upd_triv split: option.split)

lemma destroy_free:
  assumes "pmutex_at s m = Some k" "owner_p k = None" "r < RETRY"
  shows "run t (destroy_loop m r st) s = Done 0 (set_pmutex m None s)"
  using assms by (subst destroy_loop.simps) (simp add: pthread_mutex_destroy_def)

text \<open>One round on a mutex the thread owns releases one level of it.\<close>

lemma destroy_round:
  assumes "pmutex_at s m = Some k" "owner_p k = Some t" "r < 3"
  shows "run t (destroy_loop m r st) s = run t (destroy_loop m (r + 1) EBUSY)
    (set_pmutex m (Some (if depth_p k = 1 then k\<lparr>owner_p := None, depth_p := 0\<rparr> else k\<lparr>depth_p := depth_p k - 1\<rparr>)) s)"
  using assms by (subst destroy_loop.simps) (simp add: pthread_mutex_destroy_def pthread_mutex_unlock_def RETRY_def EBUSY_def)

lemma destroy_last:
  assumes "pmutex_at s m = Some k" "owner_p k = Some t"
  shows "run t (destroy_loop m 3 st) s = Done EBUSY s"
  using assms by (subst destroy_loop.simps) (simp add: pthread_mutex_destroy_def RETRY_def EBUSY_def destroy_loop.simps[of m 4])

lemma destroy_owned:
  assumes "pmutex_at s m = Some k" "owner_p k = Some t" "r \<le> 3" "0 < unat (depth_p k)"
  shows "run t (destroy_loop m r st) s =
    (if unat (depth_p k) \<le> 3 - r then Done 0 (set_pmutex m None s)
     else Done EBUSY (set_pmutex m (Some (k\<lparr>depth_p := depth_p k - of_nat (3 - r)\<rparr>)) s))"
  using assms
proof (induction "3 - r" arbitrary: r st k s)
  case 0
  then have "r = 3" by simp
  then show ?case using 0 destroy_last[of s m k t st] by (simp add: set_pmutex_same)
next
  case (Suc n)
  then have r: "r < 3" "n = 3 - (r + 1)" by auto
  show ?case
  proof (cases "depth_p k = 1")
    case True
    let ?s = "set_pmutex m (Some (k\<lparr>owner_p := None, depth_p := 0\<rparr>)) s"
    have "run t (destroy_loop m (r + 1) EBUSY) ?s = Done 0 (set_pmutex m None ?s)"
      using Suc.prems r by (intro destroy_free[where k = "k\<lparr>owner_p := None, depth_p := 0\<rparr>"]) (auto simp: pmutex_at_set RETRY_def)
    then show ?thesis using destroy_round[OF Suc.prems(1,2) r(1), of st] True Suc.prems r by simp arith
  next
    case False
    let ?k = "k\<lparr>depth_p := depth_p k - 1\<rparr>"
    have d: "unat (depth_p k - 1) = unat (depth_p k) - 1" using Suc.prems(4) by (simp add: unat_minus_one unat_gt_0)
    then have pos: "0 < unat (depth_p ?k)" using False Suc.prems(4) word_unat_eq_iff[of "depth_p k" 1] by simp
    have "run t (destroy_loop m (r + 1) EBUSY) (set_pmutex m (Some ?k) s) =
      (if unat (depth_p ?k) \<le> 3 - (r + 1) then Done 0 (set_pmutex m None (set_pmutex m (Some ?k) s))
       else Done EBUSY (set_pmutex m (Some (?k\<lparr>depth_p := depth_p ?k - of_nat (3 - (r + 1))\<rparr>)) (set_pmutex m (Some ?k) s)))"
      using Suc.prems pos r by (intro Suc.hyps(1)) (auto simp: pmutex_at_set)
    moreover have "unat (depth_p ?k) \<le> 3 - (r + 1) \<longleftrightarrow> unat (depth_p k) \<le> 3 - r" using d Suc.prems(4) r by auto
    moreover have "3 - r = Suc (3 - (r + 1))" using r by simp
    then have "?k\<lparr>depth_p := depth_p ?k - of_nat (3 - (r + 1))\<rparr> = k\<lparr>depth_p := depth_p k - of_nat (3 - r)\<rparr>"
      by (simp only: of_nat_Suc) simp
    ultimately show ?thesis
      using destroy_round[OF Suc.prems(1,2) r(1), of st] False set_pmutex_twice[OF Suc.prems(1)] by simp
  qed
qed

lemma destroy_foreign:
  assumes "pmutex_at s m = Some k" "owner_p k = Some u" "u \<noteq> t"
  shows "run t (destroy_loop m 0 st) s = (if kind_p k = PTHREAD_MUTEX_RECURSIVE then Done EBUSY s else Crashed)"
  using assms by (simp add: destroy_loop.simps pthread_mutex_destroy_def pthread_mutex_unlock_def RETRY_def EBUSY_def)

subsection \<open>Suspended threads\<close>

lemma acts_run:
  assumes "acts keeps_locks p" "run t p s = Done a s'"
  shows "keeps_locks s s'"
  using assms
proof (induction arbitrary: s rule: acts.induct)
  case (act k)
  then obtain s1 q where k: "k t s = Some (s1, q)" "run t q s1 = Done a s'" by (auto split: option.splits)
  then have "keeps_locks s s1" "keeps_locks s1 s'" using act.IH[OF k(1)] by auto
  then show ?case by (simp add: keeps_locks_def)
qed auto

text \<open>Creating a simple mutex yields a mutex no one holds.\<close>

lemma run_mutex_create:
  assumes "run t (mdl_mutex_create_simple F pool name True) s = Done (SUCCESS, Some m) s'"
  shows "m \<noteq> NULL \<and> pmutex_at s' m = Some \<lparr>kind_p = PTHREAD_MUTEX_NORMAL, owner_p = None, depth_p = 0\<rparr> \<and>
    threads s' = threads s \<and> keys s' = keys s \<and> tls s' = tls s \<and> thread_tls_id s' = thread_tls_id s"
  using assms
  by (auto simp: mdl_mutex_create_simple_def mdl_mutex_create_def access_defs new_mutex_def init_mutex_def
      pthread_mutex_init_def set_pmutex_def pmutex_at_def of_opt_def SUCCESS_def FAILURE_def
      split: outcome.splits option.splits prod.splits if_splits result.splits)

text \<open>
  A thread that resumes one whose suspension mutex is held waits for ever: \<open>mdl_thread_resume\<close> locks
  that mutex a second time instead of releasing it.
\<close>

lemma resume_blocks:
  assumes "threads s p = Some T" "p \<noteq> NULL" "suspended_mutex_t T \<noteq> NULL" "registered s t"
    and "held_by s (suspended_mutex_t T) PTHREAD_MUTEX_NORMAL u"
  shows "run t (mdl_thread_resume p) s = Stuck s"
  using run_lock_held[OF assms(3-5)] assms(1,2) by (simp add: mdl_thread_resume_def get_thread_def)

text \<open>Registering a thread empties the list of threads, whatever it held.\<close>

lemma run_Done:
  "run t (bindp p f) s = Done b s'' \<longleftrightarrow> (\<exists>a s'. run t p s = Done a s' \<and> run t (f a) s' = Done b s'')"
  "run t (prim g) s = Done b s'' \<longleftrightarrow> g t s = Result b s''"
  by (auto split: outcome.splits result.splits)

lemma register_empties_list:
  assumes "run t (mdl_thread_register main sp name desc) s = Done (SUCCESS, r) s'"
  shows "dlist (heads (pst s')) main [] \<and> r = Some desc"
proof -
  have "\<exists>h h'. INIT_LIST_HEAD main h = Some h' \<and> heads (pst s') = h' \<and> r = Some desc"
    using assms
    by (auto simp: mdl_thread_register_def access_defs mdl_thread_local_set_def pthread_setspecific_def
        run_Done of_opt_Result SUCCESS_def FAILURE_def EINVAL_def simp del: run_bindp run_prim
        split: option.splits if_splits)
  then obtain h h' where h: "INIT_LIST_HEAD main h = Some h'" "heads (pst s') = h'" "r = Some desc" by blast
  then have "main \<in> dom h" by (auto simp: INIT_LIST_HEAD_def set_next_def split: option.splits)
  from INIT_LIST_HEAD_dlist[OF this] h show ?thesis by auto
qed

subsection \<open>Sequences of semaphore calls\<close>

datatype sem_op = Wait | Trywait | Post

fun sem_call :: "addr \<Rightarrow> sem_op \<Rightarrow> int prog" where
  "sem_call p Wait = mdl_sem_wait p"
| "sem_call p Trywait = mdl_sem_trywait p"
| "sem_call p Post = mdl_sem_post p"

text \<open>
  Calls by several threads in the order in which they take effect; the result is the list of
  return values, or the outcome of the call that does not return.
\<close>

fun sem_calls :: "addr \<Rightarrow> (tid \<times> sem_op) list \<Rightarrow> sys \<Rightarrow> int list outcome" where
  "sem_calls p [] s = Done [] s"
| "sem_calls p ((t, c) # cs) s = (case run t (sem_call p c) s of
     Done r s' \<Rightarrow> (case sem_calls p cs s' of Done rs s'' \<Rightarrow> Done (r # rs) s'' | Stuck s'' \<Rightarrow> Stuck s'' | Crashed \<Rightarrow> Crashed)
   | Stuck s' \<Rightarrow> Stuck s' | Crashed \<Rightarrow> Crashed)"

fun acquired :: "(tid \<times> sem_op) list \<Rightarrow> int list \<Rightarrow> nat" where
  "acquired ((t, c) # cs) (r # rs) = (if c \<noteq> Post \<and> r = SUCCESS then 1 else 0) + acquired cs rs"
| "acquired cs rs = 0"

fun posted :: "(tid \<times> sem_op) list \<Rightarrow> int list \<Rightarrow> nat" where
  "posted ((t, c) # cs) (r # rs) = (if c = Post \<and> r = SUCCESS then 1 else 0) + posted cs rs"
| "posted cs rs = 0"

definition sem_ready :: "sys \<Rightarrow> addr \<Rightarrow> addr \<Rightarrow> nat \<Rightarrow> tid set \<Rightarrow> bool" where
  "sem_ready s p q n ts \<longleftrightarrow> p \<noteq> NULL \<and> (\<exists>S. sems s p = Some S \<and> sem_s S = q) \<and> psems s q = Some n \<and>
     (\<forall>t \<in> ts. registered s t)"

text \<open>What one call does to the value, the specification of a counting semaphore.\<close>

fun sem_spec :: "sem_op \<Rightarrow> nat \<Rightarrow> (int \<times> nat) option" where
  "sem_spec Wait n = (if n = 0 then None else Some (SUCCESS, n - 1))"
| "sem_spec Trywait n = Some (if n = 0 then (FAILURE, n) else (SUCCESS, n - 1))"
| "sem_spec Post n = Some (if n < SEM_VALUE_MAX then (SUCCESS, n + 1) else (FAILURE, n))"

lemma sem_call_refines:
  assumes "sem_ready s p q n ts" "t \<in> ts"
  shows "case sem_spec c n of
      None \<Rightarrow> run t (sem_call p c) s = Stuck s
    | Some (r, n') \<Rightarrow> \<exists>s'. run t (sem_call p c) s = Done r s' \<and> sem_ready s' p q n' ts"
proof -
  obtain S T where S: "sems s p = Some S" "sem_s S = q" "psems s q = Some n" "p \<noteq> NULL"
    and T: "threads s (thread_this t s) = Some T"
    using assms by (auto simp: sem_ready_def registered_def)
  have k: "sem_ready (s\<lparr>psems := (psems s)(q \<mapsto> n')\<rparr>) p q n' ts" for n'
    using assms by (auto simp: sem_ready_def registered_def)
  show ?thesis
    using S T k assms(1)
    by (cases c) (auto simp: mdl_sem_wait_def mdl_sem_trywait_def mdl_sem_post_def sem_wait_def sem_trywait_def
        sem_post_def access_defs status_rc_def FAILURE_def SUCCESS_def)
qed

lemma sem_calls_conserve:
  assumes "sem_ready s p q n ts" "fst ` set cs \<subseteq> ts" "sem_calls p cs s = Done rs s'"
  shows "\<exists>n'. sem_ready s' p q n' ts \<and> n' + acquired cs rs = n + posted cs rs"
  using assms
proof (induction cs arbitrary: s n rs)
  case (Cons tc cs)
  obtain t c where tc: "tc = (t, c)" by (cases tc)
  obtain r s1 rs1 where r: "run t (sem_call p c) s = Done r s1" "sem_calls p cs s1 = Done rs1 s'" "rs = r # rs1"
    using Cons.prems(3) tc by (auto split: outcome.splits)
  then obtain n1 where n1: "sem_spec c n = Some (r, n1)" "sem_ready s1 p q n1 ts"
    using sem_call_refines[OF Cons.prems(1), of t c] Cons.prems(2) tc by (auto split: option.splits)
  from Cons.IH[OF n1(2) _ r(2)] Cons.prems(2) obtain n' where
    "sem_ready s' p q n' ts" "n' + acquired cs rs1 = n1 + posted cs rs1" by auto
  then show ?case using n1(1) tc r(3) by (cases c) (auto simp: SUCCESS_def FAILURE_def split: if_splits)
qed auto

section \<open>Properties\<close>

text \<open>A registered thread, its mutex at 100, a counter at 200 and a semaphore at 300.\<close>

definition ex_sys :: sys where
  "ex_sys = \<lparr>pst = ex_pool_state, threads = [64 \<mapsto> zero_thread], mutexes = [100 \<mapsto> raw_mutex\<lparr>mutex_m :=
       Some \<lparr>kind_p = PTHREAD_MUTEX_NORMAL, owner_p = None, depth_p = 0\<rparr>\<rparr>],
     atomics = [200 \<mapsto> \<lparr>mutex_a = 100, value_a = 7\<rparr>], sems = [300 \<mapsto> \<lparr>sem_s = 400, obj_name_s = zero_name\<rparr>],
     psems = [400 \<mapsto> 1], keys = [0], tls = (\<lambda>_ _. 64), thread_tls_id = 0, log_max_level = 6, new_tids = [],
     spawned = [], ended = [], gettid = (\<lambda>_. 0)\<rparr>"

lemma ex_sys_facts:
  "registered ex_sys t" "pmutex_at ex_sys 100 = Some \<lparr>kind_p = PTHREAD_MUTEX_NORMAL, owner_p = None, depth_p = 0\<rparr>"
  by (simp_all add: ex_sys_def registered_def thread_this_def pthread_getspecific_def pmutex_at_def)

text \<open>
  C12: A mutex of type \<open>MUTEX_SIMPLE\<close> that some thread holds is held by that thread in every later
  state of every interleaving of any number of threads that make any calls but creations and
  destructions, the threads started by \<open>thread_main\<close> included; every attempt to lock it blocks.
  In particular \<open>mdl_mutex_unlock\<close> never releases it: it calls \<open>pthread_mutex_lock\<close>.
\<close>
theorem mutex_never_released:
  assumes "(sched (thread_main main_thread stack_ptr user))\<^sup>*\<^sup>* (s, P) (s', P')"
    and "\<forall>t p. P t = Some p \<longrightarrow> client p" "\<forall>f a. client (user f a)"
    and "held_by s m PTHREAD_MUTEX_NORMAL u"
  shows "held_by s' m PTHREAD_MUTEX_NORMAL u \<and> (\<forall>t. pthread_mutex_lock m t s' = Blocks)"
proof -
  have "held_by s' m PTHREAD_MUTEX_NORMAL u"
    by (rule held.reached[OF assms(1,4)]) (use assms(2,3) in \<open>auto intro!: acts_thread_main intro: client_acts\<close>)
  then show ?thesis using held_blocks by blast
qed

text \<open>Witness: the thread 1 holds the mutex at 100 and ends without releasing it; the thread 2 waits.\<close>
theorem mutex_never_released_witness:
  "let s = set_pmutex 100 (Some \<lparr>kind_p = PTHREAD_MUTEX_NORMAL, owner_p = Some 1, depth_p = 1\<rparr>) ex_sys;
       P = [1 \<mapsto> Ret NULL, 2 \<mapsto> bindp (mdl_mutex_lock 100) (\<lambda>_. Ret NULL)]
   in sched (thread_main 64 0 (\<lambda>_ _. Ret NULL)) (s, P) (s\<lparr>ended := 1 # ended s\<rparr>, P(1 := None)) \<and>
     (\<forall>t. pthread_mutex_lock 100 t (s\<lparr>ended := 1 # ended s\<rparr>) = Blocks)"
proof -
  define s where "s = set_pmutex 100 (Some \<lparr>kind_p = PTHREAD_MUTEX_NORMAL, owner_p = Some 1, depth_p = 1\<rparr>) ex_sys"
  define P where "P = [1 :: tid \<mapsto> Ret NULL, 2 \<mapsto> bindp (mdl_mutex_lock 100) (\<lambda>_. Ret NULL)]"
  have h: "held_by s 100 PTHREAD_MUTEX_NORMAL 1"
    using pmutex_at_set[OF ex_sys_facts(2)] by (simp add: s_def held_by_def)
  have "\<not> crashed (s, P)"
    by (auto simp: crashed_def P_def mdl_mutex_lock_def access_defs bindp_prim_acts split: if_splits)
  then have st: "sched (thread_main 64 0 (\<lambda>_ _. Ret NULL)) (s, P) (s\<lparr>ended := 1 # ended s\<rparr>, P(1 := None))"
    by (rule sched.stop) (simp add: P_def)
  have "\<forall>t p. P t = Some p \<longrightarrow> client p"
    by (auto simp: P_def intro: client.ret client.lock split: if_splits)
  note cl = this
  have "(sched (thread_main 64 0 (\<lambda>_ _. Ret NULL)))\<^sup>*\<^sup>* (s, P) (s\<lparr>ended := 1 # ended s\<rparr>, P(1 := None))"
    using st by (rule r_into_rtranclp)
  from mutex_never_released[OF this cl _ h] have "\<forall>t. pthread_mutex_lock 100 t (s\<lparr>ended := 1 # ended s\<rparr>) = Blocks"
    by (simp add: client.ret)
  then show ?thesis using st unfolding s_def P_def Let_def by blast
qed

text \<open>
  None of the atomic operations returns. Run by a registered thread on a counter whose mutex is
  free, an operation stores its result in the counter and then blocks in the unlock, holding the
  mutex; on a counter whose mutex is held it blocks at once.
\<close>
theorem atomic_ops_block:
  assumes "atomics s a = Some A" "mutex_a A \<noteq> NULL" "registered s t"
    and "pmutex_at s (mutex_a A) = Some k" "kind_p k = PTHREAD_MUTEX_NORMAL" "add_long (value_a A) d = Some w"
  shows "\<exists>s1 s2 s3. run t (mdl_atomic_set a v) s = Stuck s1 \<and> run t (mdl_atomic_get a) s = Stuck s2 \<and>
    run t (mdl_atomic_add_and_get a d) s = Stuck s3 \<and>
    (if owner_p k = None
     then atomics s1 a = Some (A\<lparr>value_a := v\<rparr>) \<and> atomics s2 a = Some A \<and> atomics s3 a = Some (A\<lparr>value_a := w\<rparr>) \<and>
       (\<forall>s' \<in> {s1, s2, s3}. held_by s' (mutex_a A) PTHREAD_MUTEX_NORMAL t)
     else s1 = s \<and> s2 = s \<and> s3 = s)"
proof (cases "owner_p k")
  case None
  note L = run_locked[OF assms(1-4) None assms(5)]
  note B = run_atomic_bodies
  have "(atomics s)(a \<mapsto> A) = atomics s" using assms(1) by (simp add: map_upd_triv)
  then have g: "run t (bindp (get_atomic a) (\<lambda>A. Ret (value_a A))) s1 = Done (value_a A) (s1\<lparr>atomics := (atomics s)(a \<mapsto> A)\<rparr>)"
    if "atomics s1 = atomics s" for s1 using B(2)[of s1 a A t] assms(1) that by simp
  have u: "run t (upd_atomic a (\<lambda>A. A\<lparr>value_a := v\<rparr>)) s1 = Done () (s1\<lparr>atomics := (atomics s)(a \<mapsto> A\<lparr>value_a := v\<rparr>)\<rparr>)"
    if "atomics s1 = atomics s" for s1 using B(1)[of s1 a A t] assms(1) that by simp
  have d: "run t (add_value a d) s1 = Done w (s1\<lparr>atomics := (atomics s)(a \<mapsto> A\<lparr>value_a := w\<rparr>)\<rparr>)"
    if "atomics s1 = atomics s" for s1 using B(3)[OF _ assms(6), of s1 a t] assms(1) that by simp
  from L[OF u] L[OF g] L[OF d] show ?thesis
    using None by (auto simp: mdl_atomic_set_def mdl_atomic_get_def mdl_atomic_add_and_get_def)
next
  case (Some u)
  then have "held_by s (mutex_a A) PTHREAD_MUTEX_NORMAL u" using assms(4,5) by (simp add: held_by_def)
  from run_lock_held[OF assms(2,3) this] show ?thesis
    using assms(1) Some by (simp add: mdl_atomic_set_def mdl_atomic_get_def mdl_atomic_add_and_get_def locked_def get_atomic_def)
qed

text \<open>Witness: the counter of the example, incremented from 7.\<close>
theorem atomic_ops_block_witness:
  "\<exists>s3. run 1 (mdl_atomic_add_and_get 200 1) ex_sys = Stuck s3 \<and> atomics s3 200 = Some \<lparr>mutex_a = 100, value_a = 8\<rparr>"
proof -
  have A: "atomics ex_sys 200 = Some \<lparr>mutex_a = 100, value_a = 7\<rparr>" by (simp add: ex_sys_def)
  have l: "add_long 7 1 = Some 8" by (simp add: add_long_def)
  from atomic_ops_block[OF A _ ex_sys_facts(1)] ex_sys_facts(2) l show ?thesis by fastforce
qed

text \<open>
  \<open>mdl_mutex_destroy\<close> on every branch. A free mutex is destroyed; one the caller holds up to three
  levels deep is released and destroyed; deeper ones lose three levels and the call fails. On a
  mutex another thread holds it fails if the mutex is recursive, and is undefined otherwise.
\<close>
theorem mutex_destroy_outcome:
  assumes "m \<noteq> NULL" "registered s t" "pmutex_at s m = Some k" "owner_p k \<noteq> None \<longrightarrow> 0 < unat (depth_p k)"
  shows "run t (mdl_mutex_destroy m) s = (case owner_p k of
     None \<Rightarrow> Done SUCCESS (set_pmutex m None s)
   | Some u \<Rightarrow>
       if u = t then (if unat (depth_p k) \<le> 3 then Done SUCCESS (set_pmutex m None s)
                      else Done FAILURE (set_pmutex m (Some (k\<lparr>depth_p := depth_p k - 3\<rparr>)) s))
       else if kind_p k = PTHREAD_MUTEX_RECURSIVE then Done FAILURE s else Crashed)"
proof -
  obtain M where M: "mutexes s m = Some M" using assms(3) by (auto simp: pmutex_at_def)
  have "run t (mdl_mutex_destroy m) s = (case run t (destroy_loop m 0 0) s of
      Done st s' \<Rightarrow> Done (status_rc st) s' | Stuck s' \<Rightarrow> Stuck s' | Crashed \<Rightarrow> Crashed)"
    using assms(1,2) M by (auto simp: mdl_mutex_destroy_def access_defs registered_def split: outcome.split)
  then show ?thesis
    using destroy_free[OF assms(3), of 0 t 0] destroy_owned[OF assms(3), of t 0 0] destroy_foreign[OF assms(3), of _ t 0] assms(4)
    by (cases "owner_p k") (auto simp: RETRY_def status_rc_def EBUSY_def)
qed

text \<open>Witness: the free mutex of the example, and the same mutex held twice by the caller.\<close>
theorem mutex_destroy_outcome_witness:
  "run 1 (mdl_mutex_destroy 100) ex_sys = Done SUCCESS (set_pmutex 100 None ex_sys) \<and>
   run 1 (mdl_mutex_destroy 100) (set_pmutex 100 (Some \<lparr>kind_p = PTHREAD_MUTEX_RECURSIVE, owner_p = Some 2, depth_p = 1\<rparr>) ex_sys) =
     Done FAILURE (set_pmutex 100 (Some \<lparr>kind_p = PTHREAD_MUTEX_RECURSIVE, owner_p = Some 2, depth_p = 1\<rparr>) ex_sys)"
proof -
  let ?k = "\<lparr>kind_p = PTHREAD_MUTEX_RECURSIVE, owner_p = Some (2::tid), depth_p = 1\<rparr>"
  have "registered (set_pmutex 100 (Some ?k) ex_sys) 1" "pmutex_at (set_pmutex 100 (Some ?k) ex_sys) 100 = Some ?k"
    using ex_sys_facts pmutex_at_set[OF ex_sys_facts(2)] by (auto simp: registered_def)
  from mutex_destroy_outcome[OF _ this] mutex_destroy_outcome[OF _ ex_sys_facts] show ?thesis by simp
qed

text \<open>
  C13: The semaphore calls of any threads, in the order in which they take effect, keep the account
  of a counting semaphore: the value at the end and the successful acquisitions add up to the
  initial value and the successful posts. So no more acquisitions succeed than units were there.
\<close>
theorem sem_account:
  assumes "sem_ready s p q n ts" "fst ` set cs \<subseteq> ts" "sem_calls p cs s = Done rs s'"
  shows "\<exists>n'. psems s' q = Some n' \<and> n' + acquired cs rs = n + posted cs rs \<and> acquired cs rs \<le> n + posted cs rs"
  using sem_calls_conserve[OF assms] by (auto simp: sem_ready_def)

text \<open>Witness: two threads, a value of 1.\<close>
theorem sem_account_witness:
  "\<exists>s' n'. sem_calls 300 [(1, Wait), (2, Trywait), (1, Post), (2, Wait)] ex_sys = Done [SUCCESS, FAILURE, SUCCESS, SUCCESS] s' \<and>
     psems s' 400 = Some n' \<and> n' + acquired [(1, Wait), (2, Trywait), (1, Post), (2, Wait)] [SUCCESS, FAILURE, SUCCESS, SUCCESS] =
       1 + posted [(1, Wait), (2, Trywait), (1, Post), (2, Wait)] [SUCCESS, FAILURE, SUCCESS, SUCCESS]"
proof -
  have r: "sem_ready ex_sys 300 400 1 {1, 2}" using ex_sys_facts(1) by (auto simp: sem_ready_def ex_sys_def)
  have "\<exists>s'. sem_calls 300 [(1, Wait), (2, Trywait), (1, Post), (2, Wait)] ex_sys = Done [SUCCESS, FAILURE, SUCCESS, SUCCESS] s'"
    by (simp add: mdl_sem_wait_def mdl_sem_trywait_def mdl_sem_post_def sem_wait_def sem_trywait_def sem_post_def
        access_defs status_rc_def ex_sys_def thread_this_def pthread_getspecific_def SEM_VALUE_MAX_def)
  then obtain s' where s': "sem_calls 300 [(1, Wait), (2, Trywait), (1, Post), (2, Wait)] ex_sys = Done [SUCCESS, FAILURE, SUCCESS, SUCCESS] s'" ..
  from sem_account[OF r _ this] show ?thesis using s' by auto
qed

end
