(* ===== verification/Rbtree.thy ===== *)
theory Rbtree
  imports Prelude
begin

text \<open>
  The red-black tree of \<open>datastruct/rbtree.c\<close>: intrusive nodes with pointers to the parent and to
  both children, rotations, the rebalancing loops of insertion and removal, and the traversal in
  order.

  The memory maps addresses to nodes; \<open>rb_root_f\<close> is the pointer in the \<open>struct rb_root\<close>. Reads and
  writes happen in the order of the C code, and an access through a pointer to no node is the
  fault \<^const>\<open>None\<close>. A loop is a \<open>partial_function\<close>: a run that does not end is \<^const>\<open>None\<close> too, so
  that the theorems that an operation yields \<^const>\<open>Some\<close> state include its termination.
\<close>

section \<open>Nodes\<close>

record rb_node =
  rb_parent :: addr
  rb_color :: int
  rb_right :: addr
  rb_left :: addr

definition RB_RED :: int where "RB_RED = 0"
definition RB_BLACK :: int where "RB_BLACK = 1"

record rb_state =
  nodes :: "addr \<Rightarrow> rb_node option"
  rb_root_f :: addr

definition upd :: "addr \<Rightarrow> (rb_node \<Rightarrow> rb_node) \<Rightarrow> rb_state \<Rightarrow> rb_state option" where
  "upd p f s = (case nodes s p of None \<Rightarrow> None | Some n \<Rightarrow> Some (s\<lparr>nodes := (nodes s)(p \<mapsto> f n)\<rparr>))"

definition set_parent :: "addr \<Rightarrow> addr \<Rightarrow> rb_state \<Rightarrow> rb_state option" where
  "set_parent p v = upd p (\<lambda>n. n\<lparr>rb_parent := v\<rparr>)"

definition set_left :: "addr \<Rightarrow> addr \<Rightarrow> rb_state \<Rightarrow> rb_state option" where
  "set_left p v = upd p (\<lambda>n. n\<lparr>rb_left := v\<rparr>)"

definition set_right :: "addr \<Rightarrow> addr \<Rightarrow> rb_state \<Rightarrow> rb_state option" where
  "set_right p v = upd p (\<lambda>n. n\<lparr>rb_right := v\<rparr>)"

definition set_color :: "addr \<Rightarrow> int \<Rightarrow> rb_state \<Rightarrow> rb_state option" where
  "set_color p v = upd p (\<lambda>n. n\<lparr>rb_color := v\<rparr>)"

definition skip_null :: "addr \<Rightarrow> (rb_state \<Rightarrow> rb_state option) \<Rightarrow> rb_state \<Rightarrow> rb_state option" where
  "skip_null p f s = (if p \<noteq> NULL then f s else Some s)"

lemmas set_defs = set_parent_def set_left_def set_right_def set_color_def upd_def skip_null_def

section \<open>rbtree.c\<close>

definition raw_rb_rotate_left :: "addr \<Rightarrow> rb_state \<Rightarrow> rb_state option" where
  "raw_rb_rotate_left node s = do {
     n \<leftarrow> nodes s node;
     let right = rb_right n;
     r \<leftarrow> nodes s right;
     s \<leftarrow> set_right node (rb_left r) s;
     s \<leftarrow> skip_null (rb_left r) (\<lambda>s. do { r \<leftarrow> nodes s right; set_parent (rb_left r) node s }) s;
     s \<leftarrow> set_left right node s;
     n \<leftarrow> nodes s node;
     s \<leftarrow> set_parent right (rb_parent n) s;
     s \<leftarrow> (if rb_parent n \<noteq> NULL
          then do {
            n \<leftarrow> nodes s node;
            p \<leftarrow> nodes s (rb_parent n);
            if node = rb_left p then set_left (rb_parent n) right s else set_right (rb_parent n) right s }
          else Some (s\<lparr>rb_root_f := right\<rparr>));
     set_parent node right s }"

definition raw_rb_rotate_right :: "addr \<Rightarrow> rb_state \<Rightarrow> rb_state option" where
  "raw_rb_rotate_right node s = do {
     n \<leftarrow> nodes s node;
     let left = rb_left n;
     l \<leftarrow> nodes s left;
     s \<leftarrow> set_left node (rb_right l) s;
     s \<leftarrow> skip_null (rb_right l) (\<lambda>s. do { l \<leftarrow> nodes s left; set_parent (rb_right l) node s }) s;
     s \<leftarrow> set_right left node s;
     n \<leftarrow> nodes s node;
     s \<leftarrow> set_parent left (rb_parent n) s;
     s \<leftarrow> (if rb_parent n \<noteq> NULL
          then do {
            n \<leftarrow> nodes s node;
            p \<leftarrow> nodes s (rb_parent n);
            if node = rb_right p then set_right (rb_parent n) left s else set_left (rb_parent n) left s }
          else Some (s\<lparr>rb_root_f := left\<rparr>));
     set_parent node left s }"

text \<open>The loop of \<open>rb_insert_color\<close>.\<close>

partial_function (option) insert_loop :: "addr \<Rightarrow> rb_state \<Rightarrow> rb_state option" where
  "insert_loop node s = do {
     n \<leftarrow> nodes s node;
     let parent = rb_parent n;
     if parent = NULL then Some s
     else do {
       p \<leftarrow> nodes s parent;
       if rb_color p \<noteq> RB_RED then Some s
       else do {
         let gparent = rb_parent p;
         g \<leftarrow> nodes s gparent;
         if parent = rb_left g
         then do {
           let uncle = rb_right g;
           red \<leftarrow> (if uncle = NULL then Some False else map_option (\<lambda>u. rb_color u = RB_RED) (nodes s uncle));
           if red
           then do {
             s \<leftarrow> set_color uncle RB_BLACK s;
             s \<leftarrow> set_color parent RB_BLACK s;
             s \<leftarrow> set_color gparent RB_RED s;
             insert_loop gparent s }
           else do {
             p \<leftarrow> nodes s parent;
             (node, parent, s) \<leftarrow> (if rb_right p = node
               then do { s \<leftarrow> raw_rb_rotate_left parent s; Some (parent, node, s) }
               else Some (node, parent, s));
             s \<leftarrow> set_color parent RB_BLACK s;
             s \<leftarrow> set_color gparent RB_RED s;
             s \<leftarrow> raw_rb_rotate_right gparent s;
             insert_loop node s } }
         else do {
           let uncle = rb_left g;
           red \<leftarrow> (if uncle = NULL then Some False else map_option (\<lambda>u. rb_color u = RB_RED) (nodes s uncle));
           if red
           then do {
             s \<leftarrow> set_color uncle RB_BLACK s;
             s \<leftarrow> set_color parent RB_BLACK s;
             s \<leftarrow> set_color gparent RB_RED s;
             insert_loop gparent s }
           else do {
             p \<leftarrow> nodes s parent;
             (node, parent, s) \<leftarrow> (if rb_left p = node
               then do { s \<leftarrow> raw_rb_rotate_right parent s; Some (parent, node, s) }
               else Some (node, parent, s));
             s \<leftarrow> set_color parent RB_BLACK s;
             s \<leftarrow> set_color gparent RB_RED s;
             s \<leftarrow> raw_rb_rotate_left gparent s;
             insert_loop node s } } } } }"

definition rb_insert_color :: "addr \<Rightarrow> rb_state \<Rightarrow> rb_state option" where
  "rb_insert_color node s = do {
     s \<leftarrow> insert_loop node s;
     set_color (rb_root_f s) RB_BLACK s }"

text \<open>A null pointer counts as black.\<close>

definition is_black :: "addr \<Rightarrow> rb_state \<Rightarrow> bool option" where
  "is_black p s = (if p = NULL then Some True else map_option (\<lambda>n. rb_color n = RB_BLACK) (nodes s p))"

text \<open>Whether both children of a node count as black, the second read only if the first is.\<close>

definition both_black :: "addr \<Rightarrow> rb_state \<Rightarrow> bool option" where
  "both_black other s = do {
     ot \<leftarrow> nodes s other;
     b \<leftarrow> is_black (rb_left ot) s;
     if b then is_black (rb_right ot) s else Some False }"

text \<open>
  The parts of the loop of \<open>__rb_erase_color\<close> when the node is the left child: the sibling is red
  (the result is the new sibling), and the last rotations, after which the loop ends.
\<close>

definition red_sibling_left :: "addr \<Rightarrow> rb_state \<Rightarrow> (addr \<times> rb_state) option" where
  "red_sibling_left parent s = do {
     p \<leftarrow> nodes s parent;
     let other = rb_right p;
     ot \<leftarrow> nodes s other;
     if rb_color ot = RB_RED
     then do {
       s \<leftarrow> set_color other RB_BLACK s;
       s \<leftarrow> set_color parent RB_RED s;
       s \<leftarrow> raw_rb_rotate_left parent s;
       p \<leftarrow> nodes s parent;
       Some (rb_right p, s) }
     else Some (other, s) }"

definition last_rotation_left :: "addr \<Rightarrow> addr \<Rightarrow> rb_state \<Rightarrow> rb_state option" where
  "last_rotation_left parent other s = do {
     ot \<leftarrow> nodes s other;
     b \<leftarrow> is_black (rb_right ot) s;
     (other, s) \<leftarrow> (if b
       then do {
         s \<leftarrow> skip_null (rb_left ot) (set_color (rb_left ot) RB_BLACK) s;
         s \<leftarrow> set_color other RB_RED s;
         s \<leftarrow> raw_rb_rotate_right other s;
         p \<leftarrow> nodes s parent;
         Some (rb_right p, s) }
       else Some (other, s));
     p \<leftarrow> nodes s parent;
     s \<leftarrow> set_color other (rb_color p) s;
     s \<leftarrow> set_color parent RB_BLACK s;
     ot \<leftarrow> nodes s other;
     s \<leftarrow> skip_null (rb_right ot) (set_color (rb_right ot) RB_BLACK) s;
     raw_rb_rotate_left parent s }"

text \<open>The same when the node is the right child.\<close>

definition red_sibling_right :: "addr \<Rightarrow> rb_state \<Rightarrow> (addr \<times> rb_state) option" where
  "red_sibling_right parent s = do {
     p \<leftarrow> nodes s parent;
     let other = rb_left p;
     ot \<leftarrow> nodes s other;
     if rb_color ot = RB_RED
     then do {
       s \<leftarrow> set_color other RB_BLACK s;
       s \<leftarrow> set_color parent RB_RED s;
       s \<leftarrow> raw_rb_rotate_right parent s;
       p \<leftarrow> nodes s parent;
       Some (rb_left p, s) }
     else Some (other, s) }"

definition last_rotation_right :: "addr \<Rightarrow> addr \<Rightarrow> rb_state \<Rightarrow> rb_state option" where
  "last_rotation_right parent other s = do {
     ot \<leftarrow> nodes s other;
     b \<leftarrow> is_black (rb_left ot) s;
     (other, s) \<leftarrow> (if b
       then do {
         s \<leftarrow> skip_null (rb_right ot) (set_color (rb_right ot) RB_BLACK) s;
         s \<leftarrow> set_color other RB_RED s;
         s \<leftarrow> raw_rb_rotate_left other s;
         p \<leftarrow> nodes s parent;
         Some (rb_left p, s) }
       else Some (other, s));
     p \<leftarrow> nodes s parent;
     s \<leftarrow> set_color other (rb_color p) s;
     s \<leftarrow> set_color parent RB_BLACK s;
     ot \<leftarrow> nodes s other;
     s \<leftarrow> skip_null (rb_left ot) (set_color (rb_left ot) RB_BLACK) s;
     raw_rb_rotate_right parent s }"

text \<open>The loop; the result has the final value of \<open>node\<close>.\<close>

partial_function (option) erase_loop :: "addr \<Rightarrow> addr \<Rightarrow> rb_state \<Rightarrow> (addr \<times> rb_state) option" where
  "erase_loop node parent s = do {
     b \<leftarrow> is_black node s;
     if \<not> (b \<and> node \<noteq> rb_root_f s) then Some (node, s)
     else do {
       p \<leftarrow> nodes s parent;
       if rb_left p = node
       then do {
         (other, s) \<leftarrow> red_sibling_left parent s;
         b \<leftarrow> both_black other s;
         if b
         then do {
           s \<leftarrow> set_color other RB_RED s;
           n \<leftarrow> nodes s parent;
           erase_loop parent (rb_parent n) s }
         else do {
           s \<leftarrow> last_rotation_left parent other s;
           Some (rb_root_f s, s) } }
       else do {
         (other, s) \<leftarrow> red_sibling_right parent s;
         b \<leftarrow> both_black other s;
         if b
         then do {
           s \<leftarrow> set_color other RB_RED s;
           n \<leftarrow> nodes s parent;
           erase_loop parent (rb_parent n) s }
         else do {
           s \<leftarrow> last_rotation_right parent other s;
           Some (rb_root_f s, s) } } } }"

definition raw_rb_erase_color :: "addr \<Rightarrow> addr \<Rightarrow> rb_state \<Rightarrow> rb_state option" where
  "raw_rb_erase_color node parent s = do {
     (node, s) \<leftarrow> erase_loop node parent s;
     skip_null node (set_color node RB_BLACK) s }"

text \<open>Descending along one kind of child as far as possible.\<close>

partial_function (option) leftmost :: "addr \<Rightarrow> rb_state \<Rightarrow> addr option" where
  "leftmost node s = do {
     n \<leftarrow> nodes s node;
     if rb_left n = NULL then Some node else leftmost (rb_left n) s }"

partial_function (option) rightmost :: "addr \<Rightarrow> rb_state \<Rightarrow> addr option" where
  "rightmost node s = do {
     n \<leftarrow> nodes s node;
     if rb_right n = NULL then Some node else rightmost (rb_right n) s }"

text \<open>Unlinking a node with at most one child: the child takes its place below the parent.\<close>

definition splice_out :: "addr \<Rightarrow> addr \<Rightarrow> addr \<Rightarrow> rb_state \<Rightarrow> rb_state option" where
  "splice_out node child parent s = do {
     s \<leftarrow> skip_null child (set_parent child parent) s;
     if parent \<noteq> NULL
     then do {
       p \<leftarrow> nodes s parent;
       if rb_left p = node then set_left parent child s else set_right parent child s }
     else Some (s\<lparr>rb_root_f := child\<rparr>) }"

text \<open>The successor takes over the fields of the node to be removed and its place in the tree.\<close>

definition take_over :: "addr \<Rightarrow> addr \<Rightarrow> rb_state \<Rightarrow> rb_state option" where
  "take_over node old s = do {
     od \<leftarrow> nodes s old;
     s \<leftarrow> set_parent node (rb_parent od) s;
     od \<leftarrow> nodes s old;
     s \<leftarrow> set_color node (rb_color od) s;
     od \<leftarrow> nodes s old;
     s \<leftarrow> set_right node (rb_right od) s;
     od \<leftarrow> nodes s old;
     s \<leftarrow> set_left node (rb_left od) s;
     od \<leftarrow> nodes s old;
     s \<leftarrow> (if rb_parent od \<noteq> NULL
       then do {
         op \<leftarrow> nodes s (rb_parent od);
         if rb_left op = old then set_left (rb_parent od) node s else set_right (rb_parent od) node s }
       else Some (s\<lparr>rb_root_f := node\<rparr>));
     od \<leftarrow> nodes s old;
     s \<leftarrow> set_parent (rb_left od) node s;
     od \<leftarrow> nodes s old;
     skip_null (rb_right od) (set_parent (rb_right od) node) s }"

definition rb_erase :: "addr \<Rightarrow> rb_state \<Rightarrow> rb_state option" where
  "rb_erase node s = do {
     n \<leftarrow> nodes s node;
     (child, parent, color, s) \<leftarrow>
       (if rb_left n = NULL \<or> rb_right n = NULL
        then do {
          let child = (if rb_left n = NULL then rb_right n else rb_left n);
          let parent = rb_parent n;
          let color = rb_color n;
          s \<leftarrow> splice_out node child parent s;
          Some (child, parent, color, s) }
        else do {
          let old = node;
          node \<leftarrow> leftmost (rb_right n) s;
          m \<leftarrow> nodes s node;
          let child = rb_right m;
          let parent = rb_parent m;
          let color = rb_color m;
          s \<leftarrow> splice_out node child parent s;
          m \<leftarrow> nodes s node;
          let parent = (if rb_parent m = old then node else parent);
          s \<leftarrow> take_over node old s;
          Some (child, parent, color, s) });
     if color = RB_BLACK then raw_rb_erase_color child parent s else Some s }"

definition rb_first :: "rb_state \<Rightarrow> addr option" where
  "rb_first s = (if rb_root_f s = NULL then Some NULL else leftmost (rb_root_f s) s)"

definition rb_last :: "rb_state \<Rightarrow> addr option" where
  "rb_last s = (if rb_root_f s = NULL then Some NULL else rightmost (rb_root_f s) s)"

partial_function (option) climb_right :: "addr \<Rightarrow> rb_state \<Rightarrow> addr option" where
  "climb_right node s = do {
     n \<leftarrow> nodes s node;
     if rb_parent n = NULL then Some NULL
     else do {
       p \<leftarrow> nodes s (rb_parent n);
       if node = rb_right p then climb_right (rb_parent n) s else Some (rb_parent n) } }"

partial_function (option) climb_left :: "addr \<Rightarrow> rb_state \<Rightarrow> addr option" where
  "climb_left node s = do {
     n \<leftarrow> nodes s node;
     if rb_parent n = NULL then Some NULL
     else do {
       p \<leftarrow> nodes s (rb_parent n);
       if node = rb_left p then climb_left (rb_parent n) s else Some (rb_parent n) } }"

definition rb_next :: "addr \<Rightarrow> rb_state \<Rightarrow> addr option" where
  "rb_next node s = do {
     n \<leftarrow> nodes s node;
     if rb_right n \<noteq> NULL then leftmost (rb_right n) s else climb_right node s }"

definition rb_prev :: "addr \<Rightarrow> rb_state \<Rightarrow> addr option" where
  "rb_prev node s = do {
     n \<leftarrow> nodes s node;
     if rb_left n \<noteq> NULL then rightmost (rb_left n) s else climb_left node s }"

definition rb_replace_node :: "addr \<Rightarrow> addr \<Rightarrow> rb_state \<Rightarrow> rb_state option" where
  "rb_replace_node victim new s = do {
     v \<leftarrow> nodes s victim;
     let parent = rb_parent v;
     s \<leftarrow> (if parent \<noteq> NULL
       then do {
         p \<leftarrow> nodes s parent;
         if victim = rb_left p then set_left parent new s else set_right parent new s }
       else Some (s\<lparr>rb_root_f := new\<rparr>));
     v \<leftarrow> nodes s victim;
     s \<leftarrow> skip_null (rb_left v) (set_parent (rb_left v) new) s;
     v \<leftarrow> nodes s victim;
     s \<leftarrow> skip_null (rb_right v) (set_parent (rb_right v) new) s;
     v \<leftarrow> nodes s victim;
     upd new (\<lambda>_. v) s }"

text \<open>The place \<open>rb_link\<close> points to: the root pointer, or a child pointer of a node.\<close>

datatype rb_link = Link_root | Link_left addr | Link_right addr

fun set_link :: "rb_link \<Rightarrow> addr \<Rightarrow> rb_state \<Rightarrow> rb_state option" where
  "set_link Link_root v s = Some (s\<lparr>rb_root_f := v\<rparr>)"
| "set_link (Link_left p) v s = set_left p v s"
| "set_link (Link_right p) v s = set_right p v s"

definition rb_link_node :: "addr \<Rightarrow> addr \<Rightarrow> rb_link \<Rightarrow> rb_state \<Rightarrow> rb_state option" where
  "rb_link_node node parent rb_link s = do {
     s \<leftarrow> set_parent node parent s;
     s \<leftarrow> set_color node RB_RED s;
     s \<leftarrow> set_right node NULL s;
     s \<leftarrow> set_left node NULL s;
     set_link rb_link node s }"

declare bind_Some_iff [simp del]

section \<open>Trees in memory\<close>

text \<open>The tree a memory represents: addresses and colours, without the redundant parent pointers.\<close>

datatype rtree = Lf | Nd rtree addr int rtree

fun ptr :: "rtree \<Rightarrow> addr" where
  "ptr Lf = NULL"
| "ptr (Nd l a c r) = a"

fun inorder :: "rtree \<Rightarrow> addr list" where
  "inorder Lf = []"
| "inorder (Nd l a c r) = inorder l @ a # inorder r"

fun cells :: "addr \<Rightarrow> rtree \<Rightarrow> (addr \<times> rb_node) set" where
  "cells par Lf = {}"
| "cells par (Nd l a c r) =
     insert (a, \<lparr>rb_parent = par, rb_color = c, rb_right = ptr r, rb_left = ptr l\<rparr>) (cells a l \<union> cells a r)"

text \<open>
  A position in a tree: the way up from the subtree to the root. In \<open>FL a c r\<close> the subtree is the left
  child of \<open>a\<close>, in \<open>FR l a c\<close> the right one.
\<close>

datatype frame = FL addr int rtree | FR rtree addr int

fun faddr :: "frame \<Rightarrow> addr" where
  "faddr (FL a c r) = a"
| "faddr (FR l a c) = a"

fun fcolor :: "frame \<Rightarrow> int" where
  "fcolor (FL a c r) = c"
| "fcolor (FR l a c) = c"

fun up :: "frame list \<Rightarrow> addr" where
  "up [] = NULL"
| "up (f # fs) = faddr f"

fun fill :: "frame \<Rightarrow> rtree \<Rightarrow> rtree" where
  "fill (FL a c r) t = Nd t a c r"
| "fill (FR l a c) t = Nd l a c t"

fun plug :: "frame list \<Rightarrow> rtree \<Rightarrow> rtree" where
  "plug [] t = t"
| "plug (f # fs) t = plug fs (fill f t)"

text \<open>The nodes of the frames, given the pointer of the subtree.\<close>

fun fcells :: "addr \<Rightarrow> frame list \<Rightarrow> (addr \<times> rb_node) set" where
  "fcells p [] = {}"
| "fcells p (FL a c r # fs) =
     insert (a, \<lparr>rb_parent = up fs, rb_color = c, rb_right = ptr r, rb_left = p\<rparr>) (cells a r \<union> fcells a fs)"
| "fcells p (FR l a c # fs) =
     insert (a, \<lparr>rb_parent = up fs, rb_color = c, rb_right = p, rb_left = ptr l\<rparr>) (cells a l \<union> fcells a fs)"

fun faddrs :: "frame list \<Rightarrow> addr list" where
  "faddrs [] = []"
| "faddrs (FL a c r # fs) = a # inorder r @ faddrs fs"
| "faddrs (FR l a c # fs) = a # inorder l @ faddrs fs"

fun topmost :: "addr \<Rightarrow> frame list \<Rightarrow> addr" where
  "topmost p [] = p"
| "topmost p (f # fs) = topmost (faddr f) fs"

definition holds :: "(addr \<Rightarrow> rb_node option) \<Rightarrow> (addr \<times> rb_node) set \<Rightarrow> bool" where
  "holds h C \<longleftrightarrow> (\<forall>(a, n) \<in> C. h a = Some n)"

text \<open>A subtree at a position.\<close>

definition at :: "rb_state \<Rightarrow> frame list \<Rightarrow> rtree \<Rightarrow> bool" where
  "at s fs t \<longleftrightarrow> rb_root_f s = topmost (ptr t) fs \<and> distinct (inorder t @ faddrs fs) \<and> NULL \<notin> set (inorder t @ faddrs fs) \<and>
     holds (nodes s) (cells (up fs) t) \<and> holds (nodes s) (fcells (ptr t) fs)"

definition tree_at :: "rb_state \<Rightarrow> rtree \<Rightarrow> bool" where
  "tree_at s t \<longleftrightarrow> at s [] t"

lemma holds_simps [simp]:
  "holds h {}" "holds h (insert (a, n) C) \<longleftrightarrow> h a = Some n \<and> holds h C" "holds h (A \<union> B) \<longleftrightarrow> holds h A \<and> holds h B"
  by (auto simp: holds_def)

lemma cells_fst: "fst ` cells par t = set (inorder t)"
  by (induction t arbitrary: par) (auto simp: image_Un)

lemma fcells_fst: "fst ` fcells p fs = set (faddrs fs)"
proof (induction fs arbitrary: p)
  case (Cons f fs)
  then show ?case by (cases f) (auto simp: image_Un cells_fst)
qed simp

lemma holds_upd [simp]: "a \<notin> fst ` C \<Longrightarrow> holds (h(a := n)) C = holds h C"
proof -
  assume "a \<notin> fst ` C"
  then have "b \<noteq> a" if "(b, m) \<in> C" for b m using that by force
  then show ?thesis by (auto simp: holds_def)
qed

lemma holds_cells_upd [simp]:
  "a \<notin> set (inorder t) \<Longrightarrow> holds (h(a := n)) (cells par t) = holds h (cells par t)"
  "a \<notin> set (faddrs fs) \<Longrightarrow> holds (h(a := n)) (fcells p fs) = holds h (fcells p fs)"
  by (simp_all add: cells_fst fcells_fst)

lemma ptr_NULL: "NULL \<notin> set (inorder t) \<Longrightarrow> ptr t = NULL \<longleftrightarrow> t = Lf"
  by (cases t) auto

lemma ptr_mem: "t \<noteq> Lf \<Longrightarrow> ptr t \<in> set (inorder t)"
  by (cases t) auto

lemma up_mem: "fs \<noteq> [] \<Longrightarrow> up fs \<in> set (faddrs fs)"
  by (cases fs rule: faddrs.cases) auto

lemma plug_append: "plug (fs @ gs) t = plug gs (plug fs t)"
  by (induction fs arbitrary: t) auto

lemma at_fill: "at s (f # fs) t \<longleftrightarrow> at s fs (fill f t)"
  by (cases f) (auto simp: at_def)

lemma at_plug: "at s (fs @ gs) t \<longleftrightarrow> at s gs (plug fs t)"
  by (induction fs arbitrary: t) (auto simp: at_fill)

lemma at_tree: "at s fs t \<longleftrightarrow> tree_at s (plug fs t)"
  using at_plug[of s fs "[]" t] by (simp add: tree_at_def)

text \<open>Two memories represent at most one tree below a pointer, so the tree of a memory is unique.\<close>

lemma cells_unique:
  "holds h (cells par t) \<Longrightarrow> holds h (cells par' u) \<Longrightarrow> ptr t = ptr u \<Longrightarrow>
   NULL \<notin> set (inorder t) \<Longrightarrow> NULL \<notin> set (inorder u) \<Longrightarrow> t = u"
proof (induction t arbitrary: u par par')
  case Lf
  then show ?case using ptr_NULL[of u] by simp
next
  case (Nd l a c r)
  then obtain l' c' r' where u: "u = Nd l' a c' r'" by (cases u) auto
  show ?case using Nd.IH(1)[where u = l'] Nd.IH(2)[where u = r'] Nd.prems u by fastforce
qed

lemma tree_at_unique: "tree_at s t \<Longrightarrow> tree_at s u \<Longrightarrow> t = u"
  unfolding tree_at_def at_def by (auto intro: cells_unique)

section \<open>Rotations\<close>

definition outside_same :: "rb_state \<Rightarrow> rb_state \<Rightarrow> addr set \<Rightarrow> bool" where
  "outside_same s s' A \<longleftrightarrow> (\<forall>a. a \<notin> A \<longrightarrow> nodes s' a = nodes s a)"

lemma outside_same_refl [simp]: "outside_same s s A"
  by (simp add: outside_same_def)

lemma outside_same_trans: "outside_same s s' A \<Longrightarrow> outside_same s' s'' A \<Longrightarrow> outside_same s s'' A"
  by (simp add: outside_same_def)

abbreviation tree_addrs :: "frame list \<Rightarrow> rtree \<Rightarrow> addr set" where
  "tree_addrs fs t \<equiv> set (inorder t) \<union> set (faddrs fs)"

text \<open>
  The effect of the writes on the memory: a new parent for a node, and the replacement of one
  child of a node by another. A null pointer is left alone.
\<close>

definition rp :: "addr \<Rightarrow> addr \<Rightarrow> (addr \<Rightarrow> rb_node option) \<Rightarrow> addr \<Rightarrow> rb_node option" where
  "rp p q h = (if p = NULL then h else h(p := map_option (\<lambda>n. n\<lparr>rb_parent := q\<rparr>) (h p)))"

definition rc :: "addr \<Rightarrow> addr \<Rightarrow> addr \<Rightarrow> (addr \<Rightarrow> rb_node option) \<Rightarrow> addr \<Rightarrow> rb_node option" where
  "rc p old new h = (if p = NULL then h else h(p := map_option (\<lambda>n.
     if rb_left n = old then n\<lparr>rb_left := new\<rparr> else n\<lparr>rb_right := new\<rparr>) (h p)))"

lemma rp_rc_other [simp]:
  "a \<noteq> p \<Longrightarrow> rp p q h a = h a" "a \<noteq> p \<Longrightarrow> rc p x y h a = h a" "rp NULL q h = h" "rc NULL x y h = h"
  by (simp_all add: rp_def rc_def)

lemma holds_rp_rc [simp]:
  "p \<notin> set (inorder t) \<Longrightarrow> holds (rp p q h) (cells par t) = holds h (cells par t)"
  "p \<notin> set (faddrs fs) \<Longrightarrow> holds (rp p q h) (fcells a fs) = holds h (fcells a fs)"
  "p \<notin> set (inorder t) \<Longrightarrow> holds (rc p x y h) (cells par t) = holds h (cells par t)"
  "p \<notin> set (faddrs fs) \<Longrightarrow> holds (rc p x y h) (fcells a fs) = holds h (fcells a fs)"
  by (simp_all add: rp_def rc_def)

lemma rp_cells:
  assumes "holds h (cells par t)" "distinct (inorder t)" "NULL \<notin> set (inorder t)"
  shows "holds (rp (ptr t) q h) (cells q t)"
  using assms by (cases t) (auto simp: rp_def)

text \<open>Redirecting the pointer from above to another subtree.\<close>

lemma rc_fcells:
  assumes "holds h (fcells p fs)" "p \<noteq> NULL" "p \<notin> set (faddrs fs)" "distinct (faddrs fs)" "NULL \<notin> set (faddrs fs)"
  shows "holds (rc (up fs) p p' h) (fcells p' fs)"
proof (cases fs rule: faddrs.cases)
  case (3 l a c gs)
  then have "ptr l \<noteq> p" using assms ptr_mem[of l] by (cases "l = Lf") auto
  then show ?thesis using assms 3 by (auto simp: rc_def)
qed (use assms in \<open>auto simp: rc_def\<close>)

lemma up_facts:
  "NULL \<notin> set (faddrs fs) \<Longrightarrow> up fs = NULL \<longleftrightarrow> fs = []"
  "a \<notin> set (faddrs fs) \<Longrightarrow> a \<noteq> NULL \<Longrightarrow> up fs \<noteq> a"
  "a \<notin> set (inorder t) \<Longrightarrow> a \<noteq> NULL \<Longrightarrow> ptr t \<noteq> a"
  "set (inorder t) \<inter> set (faddrs fs) = {} \<Longrightarrow> fs \<noteq> [] \<Longrightarrow> up fs \<notin> set (inorder t)"
  "set (inorder t) \<inter> set (faddrs fs) = {} \<Longrightarrow> t \<noteq> Lf \<Longrightarrow> ptr t \<notin> set (faddrs fs)"
  using up_mem[of fs] ptr_mem[of t] by (auto simp: ptr_NULL) (cases fs; cases t; auto)+

lemma ptr_up_notin:
  "NULL \<notin> set (inorder u) \<Longrightarrow> set (inorder t) \<inter> set (inorder u) = {} \<Longrightarrow> ptr t \<notin> set (inorder u)"
  "NULL \<notin> set (faddrs fs) \<Longrightarrow> set (inorder t) \<inter> set (faddrs fs) = {} \<Longrightarrow> ptr t \<notin> set (faddrs fs)"
  "NULL \<notin> set (inorder t) \<Longrightarrow> set (inorder t) \<inter> set (faddrs fs) = {} \<Longrightarrow> up fs \<notin> set (inorder t)"
  using up_mem[of fs] ptr_mem[of t] by (cases t; cases fs; auto)+

lemma set_run [simp]:
  "nodes s p = Some n \<Longrightarrow> set_left p v s = Some (s\<lparr>nodes := (nodes s)(p \<mapsto> n\<lparr>rb_left := v\<rparr>)\<rparr>)"
  "nodes s p = Some n \<Longrightarrow> set_right p v s = Some (s\<lparr>nodes := (nodes s)(p \<mapsto> n\<lparr>rb_right := v\<rparr>)\<rparr>)"
  "nodes s p = Some n \<Longrightarrow> set_parent p v s = Some (s\<lparr>nodes := (nodes s)(p \<mapsto> n\<lparr>rb_parent := v\<rparr>)\<rparr>)"
  "nodes s p = Some n \<Longrightarrow> set_color p c s = Some (s\<lparr>nodes := (nodes s)(p \<mapsto> n\<lparr>rb_color := c\<rparr>)\<rparr>)"
  by (simp_all add: set_defs)

text \<open>The cells a rotation looks at: the node, the child that comes up, its inner child, the parent.\<close>

definition rot_cells :: "rb_state \<Rightarrow> addr \<Rightarrow> addr \<Rightarrow> addr \<Rightarrow> addr \<Rightarrow> bool" where
  "rot_cells s a b y q \<longleftrightarrow> a \<noteq> b \<and> b \<noteq> a \<and>
     (y \<noteq> NULL \<longrightarrow> nodes s y \<noteq> None \<and> y \<noteq> a \<and> y \<noteq> b \<and> a \<noteq> y \<and> b \<noteq> y) \<and>
     (q \<noteq> NULL \<longrightarrow> (\<exists>n. nodes s q = Some n \<and> (rb_right n = a \<longleftrightarrow> rb_left n \<noteq> a)) \<and>
        q \<noteq> a \<and> q \<noteq> b \<and> a \<noteq> q \<and> b \<noteq> q \<and> q \<noteq> y \<and> y \<noteq> q)"

lemma rot_parent [consumes 1, case_names root left right]:
  assumes "rot_cells s a b y q"
  obtains "q = NULL"
  | n where "q \<noteq> NULL" "nodes s q = Some n" "rb_left n = a" "rb_right n \<noteq> a" "a \<noteq> rb_right n" "q \<noteq> a" "q \<noteq> b" "a \<noteq> q" "b \<noteq> q" "q \<noteq> y" "y \<noteq> q"
  | n where "q \<noteq> NULL" "nodes s q = Some n" "rb_right n = a" "rb_left n \<noteq> a" "a \<noteq> rb_left n" "q \<noteq> a" "q \<noteq> b" "a \<noteq> q" "b \<noteq> q" "q \<noteq> y" "y \<noteq> q"
  using assms unfolding rot_cells_def by (metis (no_types))

lemma rotate_left_run:
  assumes "nodes s a = Some na" "rb_right na = b" "nodes s b = Some nb" "rb_left nb = y" "rb_parent na = q" "rot_cells s a b y q"
  shows "\<exists>s'. raw_rb_rotate_left a s = Some s' \<and> rb_root_f s' = (if q = NULL then b else rb_root_f s) \<and>
    nodes s' = rc q a b (rp y a ((nodes s)(a \<mapsto> na\<lparr>rb_right := y, rb_parent := b\<rparr>, b \<mapsto> nb\<lparr>rb_left := a, rb_parent := q\<rparr>)))"
proof -
  have ne: "a \<noteq> b" "b \<noteq> a" using assms(6) by (auto simp: rot_cells_def)
  note defs = raw_rb_rotate_left_def Let_def rp_def rc_def skip_null_def fun_eq_iff
  consider "y = NULL" | ny where "y \<noteq> NULL" "nodes s y = Some ny" "y \<noteq> a" "y \<noteq> b" "a \<noteq> y" "b \<noteq> y"
    using assms(6) by (auto simp: rot_cells_def)
  then show ?thesis
  proof cases
    case y: 1
    from rot_parent[OF assms(6)] show ?thesis
      by cases (use assms(1-5) ne y in \<open>simp add: defs\<close>)+
  next
    case y: (2 ny)
    from rot_parent[OF assms(6)] show ?thesis
      by cases (use assms(1-5) ne y in \<open>simp add: defs\<close>)+
  qed
qed

lemma rotate_right_run:
  assumes "nodes s a = Some na" "rb_left na = b" "nodes s b = Some nb" "rb_right nb = y" "rb_parent na = q" "rot_cells s a b y q"
  shows "\<exists>s'. raw_rb_rotate_right a s = Some s' \<and> rb_root_f s' = (if q = NULL then b else rb_root_f s) \<and>
    nodes s' = rc q a b (rp y a ((nodes s)(a \<mapsto> na\<lparr>rb_left := y, rb_parent := b\<rparr>, b \<mapsto> nb\<lparr>rb_right := a, rb_parent := q\<rparr>)))"
proof -
  have ne: "a \<noteq> b" "b \<noteq> a" using assms(6) by (auto simp: rot_cells_def)
  note defs = raw_rb_rotate_right_def Let_def rp_def rc_def skip_null_def fun_eq_iff
  consider "y = NULL" | ny where "y \<noteq> NULL" "nodes s y = Some ny" "y \<noteq> a" "y \<noteq> b" "a \<noteq> y" "b \<noteq> y"
    using assms(6) by (auto simp: rot_cells_def)
  then show ?thesis
  proof cases
    case y: 1
    from rot_parent[OF assms(6)] show ?thesis
      by cases (use assms(1-5) ne y in \<open>simp add: defs\<close>)+
  next
    case y: (2 ny)
    from rot_parent[OF assms(6)] show ?thesis
      by cases (use assms(1-5) ne y in \<open>simp add: defs\<close>)+
  qed
qed

lemma frame_cell:
  assumes "holds h (fcells p fs)" "fs \<noteq> []" "p \<noteq> NULL" "p \<notin> set (faddrs fs)"
  shows "\<exists>n. h (up fs) = Some n \<and> (rb_right n = p \<longleftrightarrow> rb_left n \<noteq> p)"
proof (cases fs rule: faddrs.cases)
  case (2 a c r gs)
  then have "ptr r \<noteq> p" using assms ptr_mem[of r] by (cases "r = Lf") auto
  then show ?thesis using assms 2 by auto
next
  case (3 l a c gs)
  then have "ptr l \<noteq> p" using assms ptr_mem[of l] by (cases "l = Lf") auto
  then show ?thesis using assms 3 by auto
qed (use assms in auto)

lemma root_cell: "holds h (cells par t) \<Longrightarrow> t \<noteq> Lf \<Longrightarrow> h (ptr t) \<noteq> None"
  by (cases t) auto

text \<open>What the representation says of a node with two children positions.\<close>

lemma rot_cells_at:
  assumes "holds (nodes s) (cells b t)" "holds (nodes s) (fcells a fs)" "a \<noteq> NULL" "b \<noteq> NULL" "a \<noteq> b"
    and "NULL \<notin> set (inorder t)" "NULL \<notin> set (faddrs fs)" "a \<notin> set (inorder t)" "b \<notin> set (inorder t)"
    and "a \<notin> set (faddrs fs)" "b \<notin> set (faddrs fs)" "set (inorder t) \<inter> set (faddrs fs) = {}"
  shows "rot_cells s a b (ptr t) (up fs)"
proof -
  have t: "ptr t \<noteq> NULL \<longrightarrow> nodes s (ptr t) \<noteq> None \<and> ptr t \<in> set (inorder t)"
    using root_cell[OF assms(1)] ptr_mem[of t] by (cases t) auto
  have f: "up fs \<noteq> NULL \<longrightarrow> (\<exists>n. nodes s (up fs) = Some n \<and> (rb_right n = a \<longleftrightarrow> rb_left n \<noteq> a)) \<and> up fs \<in> set (faddrs fs)"
    using frame_cell[OF assms(2) _ assms(3,10)] up_mem[of fs] by (cases fs) auto
  show ?thesis unfolding rot_cells_def
  proof (intro conjI impI)
    assume "up fs \<noteq> NULL"
    then have q: "up fs \<in> set (faddrs fs)" using f by simp
    then show "up fs \<noteq> ptr t" "ptr t \<noteq> up fs" using t assms(7,12) by auto
    show "up fs \<noteq> a" "up fs \<noteq> b" "a \<noteq> up fs" "b \<noteq> up fs" using q assms(10,11) by auto
  qed (use t f assms in auto)
qed

text \<open>
  The memory after a rotation, in terms of the three subtrees: \<open>t1\<close> stays below \<open>a\<close>, \<open>t2\<close> moves from
  \<open>b\<close> to \<open>a\<close>, and \<open>t3\<close> stays below \<open>b\<close>.
\<close>

lemma rotation_heap:
  fixes a b :: addr and na nb :: rb_node
  assumes "holds h (cells a t1)" "holds h (cells b t2)" "holds h (cells b t3)" "holds h (fcells a fs)"
    and d: "distinct (a # b # inorder t1 @ inorder t2 @ inorder t3 @ faddrs fs)"
      "NULL \<notin> set (a # b # inorder t1 @ inorder t2 @ inorder t3 @ faddrs fs)"
    and h'_def: "h' = rc (up fs) a b (rp (ptr t2) a (h(a \<mapsto> na, b \<mapsto> nb)))"
  shows "holds h' (cells a t1)" "holds h' (cells a t2)" "holds h' (cells b t3)" "holds h' (fcells b fs)"
    "h' a = Some na" "h' b = Some nb"
    "\<And>x. x \<notin> set (a # b # inorder t1 @ inorder t2 @ inorder t3 @ faddrs fs) \<Longrightarrow> h' x = h x"
proof -
  have nu: "up fs \<notin> set (inorder t1)" "up fs \<notin> set (inorder t2)" "up fs \<notin> set (inorder t3)" "up fs \<noteq> a" "up fs \<noteq> b"
    using d up_facts(2)[of a fs] up_facts(2)[of b fs] ptr_up_notin(3)[of t1 fs] ptr_up_notin(3)[of t2 fs] ptr_up_notin(3)[of t3 fs]
    by (auto simp: Int_Un_distrib)
  have ny: "ptr t2 \<notin> set (inorder t1)" "ptr t2 \<notin> set (inorder t3)" "ptr t2 \<notin> set (faddrs fs)" "ptr t2 \<noteq> a" "ptr t2 \<noteq> b"
    using d up_facts(3)[of a t2] up_facts(3)[of b t2] ptr_up_notin(1)[of t1 t2] ptr_up_notin(1)[of t3 t2] ptr_up_notin(2)[of fs t2]
    by (auto simp: Int_Un_distrib)
  have "holds (rp (ptr t2) a (h(a \<mapsto> na, b \<mapsto> nb))) (cells a t2)"
    by (rule rp_cells[of _ b]) (use d assms(2) in auto)
  then show "holds h' (cells a t2)" using nu by (simp add: h'_def)
  show "holds h' (fcells b fs)" unfolding h'_def by (rule rc_fcells) (use d assms(4) ny in auto)
  show "holds h' (cells a t1)" "holds h' (cells b t3)" using d assms(1,3) nu ny by (auto simp: h'_def)
  show "h' a = Some na" "h' b = Some nb" using d nu ny by (auto simp: h'_def)
  show "h' x = h x" if "x \<notin> set (a # b # inorder t1 @ inorder t2 @ inorder t3 @ faddrs fs)" for x
    using that up_mem[of fs] ptr_mem[of t2] by (cases fs; cases t2) (auto simp: h'_def rp_def rc_def)
qed

lemma rotate_left_at:
  assumes "at s fs (Nd l a c (Nd rl b d rr))"
  shows "\<exists>s'. raw_rb_rotate_left a s = Some s' \<and> at s' fs (Nd (Nd l a c rl) b d rr) \<and>
    outside_same s s' (tree_addrs fs (Nd l a c (Nd rl b d rr)))"
proof -
  have h: "holds (nodes s) (cells a l)" "holds (nodes s) (cells b rl)" "holds (nodes s) (cells b rr)" "holds (nodes s) (fcells a fs)"
    "nodes s a = Some \<lparr>rb_parent = up fs, rb_color = c, rb_right = b, rb_left = ptr l\<rparr>"
    "nodes s b = Some \<lparr>rb_parent = a, rb_color = d, rb_right = ptr rr, rb_left = ptr rl\<rparr>" "rb_root_f s = topmost a fs"
    using assms by (auto simp: at_def)
  have d: "distinct (a # b # inorder l @ inorder rl @ inorder rr @ faddrs fs)"
    "NULL \<notin> set (a # b # inorder l @ inorder rl @ inorder rr @ faddrs fs)" using assms by (auto simp: at_def)
  have "rot_cells s a b (ptr rl) (up fs)" using h d by (intro rot_cells_at) auto
  from rotate_left_run[OF h(5) _ h(6) _ _ this] obtain s' where
    s': "raw_rb_rotate_left a s = Some s'" "rb_root_f s' = (if up fs = NULL then b else rb_root_f s)"
      "nodes s' = rc (up fs) a b (rp (ptr rl) a ((nodes s)
         (a \<mapsto> \<lparr>rb_parent = b, rb_color = c, rb_right = ptr rl, rb_left = ptr l\<rparr>,
          b \<mapsto> \<lparr>rb_parent = up fs, rb_color = d, rb_right = ptr rr, rb_left = a\<rparr>)))"
    by auto
  note R = rotation_heap[OF h(1-4) d s'(3)]
  have "rb_root_f s' = topmost b fs" using s'(2) h(7) d up_facts(1)[of fs] by (cases fs) auto
  then show ?thesis using R d s'(1) by (auto simp: at_def outside_same_def)
qed

lemma rotate_right_at:
  assumes "at s fs (Nd (Nd ll b d lr) a c r)"
  shows "\<exists>s'. raw_rb_rotate_right a s = Some s' \<and> at s' fs (Nd ll b d (Nd lr a c r)) \<and>
    outside_same s s' (tree_addrs fs (Nd (Nd ll b d lr) a c r))"
proof -
  have h: "holds (nodes s) (cells a r)" "holds (nodes s) (cells b lr)" "holds (nodes s) (cells b ll)" "holds (nodes s) (fcells a fs)"
    "nodes s a = Some \<lparr>rb_parent = up fs, rb_color = c, rb_right = ptr r, rb_left = b\<rparr>"
    "nodes s b = Some \<lparr>rb_parent = a, rb_color = d, rb_right = ptr lr, rb_left = ptr ll\<rparr>" "rb_root_f s = topmost a fs"
    using assms by (auto simp: at_def)
  have d: "distinct (a # b # inorder r @ inorder lr @ inorder ll @ faddrs fs)"
    "NULL \<notin> set (a # b # inorder r @ inorder lr @ inorder ll @ faddrs fs)" using assms by (auto simp: at_def)
  have "rot_cells s a b (ptr lr) (up fs)" using h d by (intro rot_cells_at) auto
  from rotate_right_run[OF h(5) _ h(6) _ _ this] obtain s' where
    s': "raw_rb_rotate_right a s = Some s'" "rb_root_f s' = (if up fs = NULL then b else rb_root_f s)"
      "nodes s' = rc (up fs) a b (rp (ptr lr) a ((nodes s)
         (a \<mapsto> \<lparr>rb_parent = b, rb_color = c, rb_right = ptr r, rb_left = ptr lr\<rparr>,
          b \<mapsto> \<lparr>rb_parent = up fs, rb_color = d, rb_right = a, rb_left = ptr ll\<rparr>)))"
    by auto
  note R = rotation_heap[OF h(1-4) d s'(3)]
  have "rb_root_f s' = topmost b fs" using s'(2) h(7) d up_facts(1)[of fs] by (cases fs) auto
  then show ?thesis using R d s'(1) by (auto simp: at_def outside_same_def)
qed

section \<open>Colours\<close>

lemma color_at:
  assumes "at s fs (Nd l a c r)"
  shows "\<exists>s'. set_color a c' s = Some s' \<and> at s' fs (Nd l a c' r) \<and> outside_same s s' (tree_addrs fs (Nd l a c r))"
  using assms by (auto simp: at_def outside_same_def)

lemma read_at: "at s fs (Nd l a c r) \<Longrightarrow> nodes s a = Some \<lparr>rb_parent = up fs, rb_color = c, rb_right = ptr r, rb_left = ptr l\<rparr>"
  by (simp add: at_def)

lemma at_fills [simp]: "at s (FL a c r # fs) t = at s fs (Nd t a c r)" "at s (FR l a c # fs) t = at s fs (Nd l a c t)"
  by (simp_all add: at_fill)

lemma at_NULL: "at s fs (Nd l a c r) \<Longrightarrow> a \<noteq> NULL \<and> ptr l \<noteq> a \<and> ptr r \<noteq> a \<and> (ptr l \<noteq> ptr r \<or> l = Lf \<and> r = Lf)"
  by (cases l; cases r) (auto simp: at_def)

text \<open>The colour of a subtree as the code sees it, and the red-black conditions.\<close>

fun col :: "rtree \<Rightarrow> int" where
  "col Lf = RB_BLACK"
| "col (Nd l a c r) = c"

fun paint :: "int \<Rightarrow> rtree \<Rightarrow> rtree" where
  "paint c Lf = Lf"
| "paint c (Nd l a d r) = Nd l a c r"

fun bheight :: "rtree \<Rightarrow> nat" where
  "bheight Lf = 0"
| "bheight (Nd l a c r) = bheight l + (if c = RB_BLACK then 1 else 0)"

fun valid :: "rtree \<Rightarrow> bool" where
  "valid Lf = True"
| "valid (Nd l a c r) \<longleftrightarrow> valid l \<and> valid r \<and> bheight l = bheight r \<and>
     (c = RB_BLACK \<or> c = RB_RED \<and> col l = RB_BLACK \<and> col r = RB_BLACK)"

definition rbt :: "rtree \<Rightarrow> bool" where
  "rbt t \<longleftrightarrow> valid t \<and> col t = RB_BLACK"

fun fc :: "frame list \<Rightarrow> int" where
  "fc [] = RB_BLACK"
| "fc (f # fs) = fcolor f"

text \<open>A position in which any subtree of black height \<open>n\<close> fits, a red one only below a black node.\<close>

fun fits :: "frame list \<Rightarrow> nat \<Rightarrow> bool" where
  "fits [] n = True"
| "fits (FL a c r # fs) n \<longleftrightarrow> valid r \<and> bheight r = n \<and>
     (c = RB_BLACK \<and> fits fs (n + 1) \<or> c = RB_RED \<and> col r = RB_BLACK \<and> fs \<noteq> [] \<and> fc fs = RB_BLACK \<and> fits fs n)"
| "fits (FR l a c # fs) n \<longleftrightarrow> valid l \<and> bheight l = n \<and>
     (c = RB_BLACK \<and> fits fs (n + 1) \<or> c = RB_RED \<and> col l = RB_BLACK \<and> fs \<noteq> [] \<and> fc fs = RB_BLACK \<and> fits fs n)"

lemma rb_colors [simp]: "RB_BLACK \<noteq> RB_RED" "RB_RED \<noteq> RB_BLACK"
  by (simp_all add: RB_BLACK_def RB_RED_def)

lemma valid_col: "valid t \<Longrightarrow> col t = RB_BLACK \<or> col t = RB_RED"
  by (cases t) auto

lemma plug_valid:
  "fits fs (bheight t) \<Longrightarrow> valid t \<Longrightarrow> col t = RB_RED \<longrightarrow> fs \<noteq> [] \<and> fc fs = RB_BLACK \<Longrightarrow> rbt (plug fs t)"
proof (induction fs arbitrary: t)
  case Nil
  then show ?case using valid_col[of t] by (auto simp: rbt_def)
next
  case (Cons f fs)
  have "rbt (plug fs (fill f t))"
    by (rule Cons.IH) (use Cons.prems valid_col[of t] in \<open>cases f; auto\<close>)+
  then show ?case by simp
qed

lemma plug_valid_conv: "rbt (plug fs t) \<Longrightarrow> valid t \<and> fits fs (bheight t) \<and> (col t = RB_RED \<longrightarrow> fs \<noteq> [] \<and> fc fs = RB_BLACK)"
proof (induction fs arbitrary: t)
  case (Cons f fs)
  then have "valid (fill f t)" "fits fs (bheight (fill f t))" "col (fill f t) = RB_RED \<longrightarrow> fs \<noteq> [] \<and> fc fs = RB_BLACK" by auto
  then show ?case by (cases f) auto
qed (auto simp: rbt_def)

fun before :: "frame list \<Rightarrow> addr list" where
  "before [] = []"
| "before (FL a c r # fs) = before fs"
| "before (FR l a c # fs) = before fs @ inorder l @ [a]"

fun behind :: "frame list \<Rightarrow> addr list" where
  "behind [] = []"
| "behind (FL a c r # fs) = a # inorder r @ behind fs"
| "behind (FR l a c # fs) = behind fs"

lemma inorder_plug: "inorder (plug fs t) = before fs @ inorder t @ behind fs"
proof (induction fs arbitrary: t)
  case (Cons f fs)
  then show ?case by (cases f) auto
qed simp

lemma tree_addrs_plug: "tree_addrs fs t = set (inorder (plug fs t))"
proof (induction fs arbitrary: t)
  case (Cons f fs)
  from Cons[of "fill f t"] show ?case by (cases f) auto
qed simp

section \<open>Insertion\<close>

text \<open>The colouring that moves the conflict two levels up, for either side.\<close>

lemma recolor_at:
  assumes "at s fs (Nd (Nd l1 p c1 r1) g c (Nd l2 u c2 r2))"
  shows "\<exists>s1 s2 s3. set_color u x s = Some s1 \<and> set_color p y s1 = Some s2 \<and> set_color g z s2 = Some s3 \<and>
    at s3 fs (Nd (Nd l1 p y r1) g z (Nd l2 u x r2)) \<and> outside_same s s3 (tree_addrs fs (Nd (Nd l1 p c1 r1) g c (Nd l2 u c2 r2)))"
  using assms by (auto simp: at_def outside_same_def)

lemma recolor2_at:
  assumes "at s fs t" "t = Nd (Nd l1 p c1 r1) g c u \<and> t' = Nd (Nd l1 p y r1) g z u \<or> t = Nd u g c (Nd l1 p c1 r1) \<and> t' = Nd u g z (Nd l1 p y r1)"
  shows "\<exists>s1 s2. set_color p y s = Some s1 \<and> set_color g z s1 = Some s2 \<and> at s2 fs t' \<and> outside_same s s2 (tree_addrs fs t)"
  using assms by (auto simp: at_def outside_same_def)

lemma insert_loop_black:
  assumes "at s fs (Nd l a c r)" "fs = [] \<or> fc fs \<noteq> RB_RED"
  shows "insert_loop a s = Some s"
proof (cases fs)
  case Nil
  then show ?thesis using read_at[OF assms(1)] by (subst insert_loop.simps) (simp add: Let_def)
next
  case (Cons f gs)
  obtain l' r' where f: "at s gs (Nd l' (faddr f) (fcolor f) r')" using assms(1) Cons by (cases f) auto
  then have "faddr f \<noteq> NULL" by (auto dest: at_NULL)
  then show ?thesis using read_at[OF assms(1)] read_at[OF f] Cons assms(2) by (subst insert_loop.simps) (simp add: Let_def)
qed

text \<open>Reading the colour of a child that may be missing.\<close>

lemma red_child:
  assumes "holds (nodes s) (cells g u)" "NULL \<notin> set (inorder u)"
  shows "(if ptr u = NULL then Some False else map_option (\<lambda>n. rb_color n = RB_RED) (nodes s (ptr u))) = Some (col u = RB_RED)"
  using assms by (cases u) auto

lemma children_at:
  "at s fs (Nd l a c r) \<Longrightarrow> holds (nodes s) (cells a l) \<and> NULL \<notin> set (inorder l) \<and> holds (nodes s) (cells a r) \<and> NULL \<notin> set (inorder r)"
  by (simp add: at_def)

lemma insert_recolor:
  assumes "at s fs T" "T = Nd (Nd l1 p RB_RED r1) g c (Nd l2 u RB_RED r2) \<or> T = Nd (Nd l2 u RB_RED r2) g c (Nd l1 p RB_RED r1)"
    and "nodes s n = Some N" "rb_parent N = p"
  shows "\<exists>s'. insert_loop n s = insert_loop g s' \<and> outside_same s s' (tree_addrs fs T) \<and>
    at s' fs (case T of Nd l x y r \<Rightarrow> Nd (paint RB_BLACK l) g RB_RED (paint RB_BLACK r) | Lf \<Rightarrow> Lf)"
  using assms(2)
proof
  assume T: "T = Nd (Nd l1 p RB_RED r1) g c (Nd l2 u RB_RED r2)"
  from recolor_at[OF assms(1)[unfolded T], of RB_BLACK RB_BLACK RB_RED] obtain s1 s2 s3 where
    s: "set_color u RB_BLACK s = Some s1" "set_color p RB_BLACK s1 = Some s2" "set_color g RB_RED s2 = Some s3"
      "at s3 fs (Nd (Nd l1 p RB_BLACK r1) g RB_RED (Nd l2 u RB_BLACK r2))" "outside_same s s3 (tree_addrs fs T)" using T by blast
  have g: "nodes s g = Some \<lparr>rb_parent = up fs, rb_color = c, rb_right = u, rb_left = p\<rparr>" "p \<noteq> NULL" "u \<noteq> NULL"
    "nodes s p = Some \<lparr>rb_parent = g, rb_color = RB_RED, rb_right = ptr r1, rb_left = ptr l1\<rparr>"
    "nodes s u = Some \<lparr>rb_parent = g, rb_color = RB_RED, rb_right = ptr r2, rb_left = ptr l2\<rparr>"
    using assms(1) T by (auto simp: at_def)
  show ?thesis using s T assms(3,4) g by (subst insert_loop.simps) (auto simp: Let_def)
next
  assume T: "T = Nd (Nd l2 u RB_RED r2) g c (Nd l1 p RB_RED r1)"
  have "\<exists>s1 s2 s3. set_color u RB_BLACK s = Some s1 \<and> set_color p RB_BLACK s1 = Some s2 \<and> set_color g RB_RED s2 = Some s3 \<and>
    at s3 fs (Nd (Nd l2 u RB_BLACK r2) g RB_RED (Nd l1 p RB_BLACK r1)) \<and> outside_same s s3 (tree_addrs fs T)"
    using assms(1) T by (auto simp: at_def outside_same_def)
  then obtain s1 s2 s3 where
    s: "set_color u RB_BLACK s = Some s1" "set_color p RB_BLACK s1 = Some s2" "set_color g RB_RED s2 = Some s3"
      "at s3 fs (Nd (Nd l2 u RB_BLACK r2) g RB_RED (Nd l1 p RB_BLACK r1))" "outside_same s s3 (tree_addrs fs T)" by blast
  have g: "nodes s g = Some \<lparr>rb_parent = up fs, rb_color = c, rb_right = p, rb_left = u\<rparr>" "p \<noteq> NULL" "u \<noteq> NULL" "p \<noteq> u"
    "nodes s p = Some \<lparr>rb_parent = g, rb_color = RB_RED, rb_right = ptr r1, rb_left = ptr l1\<rparr>"
    "nodes s u = Some \<lparr>rb_parent = g, rb_color = RB_RED, rb_right = ptr r2, rb_left = ptr l2\<rparr>"
    using assms(1) T by (auto simp: at_def)
  show ?thesis using s T assms(3,4) g by (subst insert_loop.simps) (auto simp: Let_def)
qed

lemma insert_LL:
  assumes "at s fs (Nd (Nd (Nd x1 n nc x2) p RB_RED w) g c u)" "col u \<noteq> RB_RED"
  shows "\<exists>s'. insert_loop n s = Some s' \<and> at s' fs (Nd (Nd x1 n nc x2) p RB_BLACK (Nd w g RB_RED u)) \<and>
    outside_same s s' (tree_addrs fs (Nd (Nd (Nd x1 n nc x2) p RB_RED w) g c u))" (is "\<exists>s'. _ \<and> _ \<and> outside_same s s' ?A")
proof -
  obtain s1 s2 where s: "set_color p RB_BLACK s = Some s1" "set_color g RB_RED s1 = Some s2"
    "at s2 fs (Nd (Nd (Nd x1 n nc x2) p RB_BLACK w) g RB_RED u)" "outside_same s s2 ?A"
    using recolor2_at[OF assms(1), of "Nd x1 n nc x2" p RB_RED w g c u _ RB_BLACK RB_RED] by blast
  from rotate_right_at[OF s(3)] obtain s3 where s3: "raw_rb_rotate_right g s2 = Some s3"
    "at s3 fs (Nd (Nd x1 n nc x2) p RB_BLACK (Nd w g RB_RED u))" "outside_same s2 s3 ?A" by auto
  have "at s3 (FL p RB_BLACK (Nd w g RB_RED u) # fs) (Nd x1 n nc x2)" using s3(2) by simp
  then have e: "insert_loop n s3 = Some s3" by (rule insert_loop_black) simp
  have g: "nodes s n = Some \<lparr>rb_parent = p, rb_color = nc, rb_right = ptr x2, rb_left = ptr x1\<rparr>" "p \<noteq> NULL"
    "nodes s p = Some \<lparr>rb_parent = g, rb_color = RB_RED, rb_right = ptr w, rb_left = n\<rparr>"
    "nodes s g = Some \<lparr>rb_parent = up fs, rb_color = c, rb_right = ptr u, rb_left = p\<rparr>" "ptr w \<noteq> n"
    using assms(1) ptr_mem[of w] by (auto simp: at_def) (cases w; auto)+
  show ?thesis
    using s s3 e g assms(2) red_child[of s g u] children_at[OF assms(1)] outside_same_trans[OF s(4) s3(3)]
    by (subst insert_loop.simps) (auto simp: Let_def)
qed

lemma insert_RR:
  assumes "at s fs (Nd u g c (Nd w p RB_RED (Nd x1 n nc x2)))" "col u \<noteq> RB_RED"
  shows "\<exists>s'. insert_loop n s = Some s' \<and> at s' fs (Nd (Nd u g RB_RED w) p RB_BLACK (Nd x1 n nc x2)) \<and>
    outside_same s s' (tree_addrs fs (Nd u g c (Nd w p RB_RED (Nd x1 n nc x2))))" (is "\<exists>s'. _ \<and> _ \<and> outside_same s s' ?A")
proof -
  obtain s1 s2 where s: "set_color p RB_BLACK s = Some s1" "set_color g RB_RED s1 = Some s2"
    "at s2 fs (Nd u g RB_RED (Nd w p RB_BLACK (Nd x1 n nc x2)))" "outside_same s s2 ?A"
    using recolor2_at[OF assms(1), of w p RB_RED "Nd x1 n nc x2" g c u _ RB_BLACK RB_RED] by blast
  from rotate_left_at[OF s(3)] obtain s3 where s3: "raw_rb_rotate_left g s2 = Some s3"
    "at s3 fs (Nd (Nd u g RB_RED w) p RB_BLACK (Nd x1 n nc x2))" "outside_same s2 s3 ?A" by auto
  have "at s3 (FR (Nd u g RB_RED w) p RB_BLACK # fs) (Nd x1 n nc x2)" using s3(2) by simp
  then have e: "insert_loop n s3 = Some s3" by (rule insert_loop_black) simp
  have g: "nodes s n = Some \<lparr>rb_parent = p, rb_color = nc, rb_right = ptr x2, rb_left = ptr x1\<rparr>" "p \<noteq> NULL"
    "nodes s p = Some \<lparr>rb_parent = g, rb_color = RB_RED, rb_right = n, rb_left = ptr w\<rparr>"
    "nodes s g = Some \<lparr>rb_parent = up fs, rb_color = c, rb_right = p, rb_left = ptr u\<rparr>" "ptr w \<noteq> n" "p \<noteq> ptr u"
    using assms(1) by (auto simp: at_def) (cases w; cases u; auto)+
  show ?thesis
    using s s3 e g assms(2) red_child[of s g u] children_at[OF assms(1)] outside_same_trans[OF s(4) s3(3)]
    by (subst insert_loop.simps) (auto simp: Let_def)
qed

lemma insert_LR:
  assumes "at s fs (Nd (Nd w p RB_RED (Nd x1 n nc x2)) g c u)" "col u \<noteq> RB_RED"
  shows "\<exists>s'. insert_loop n s = Some s' \<and> at s' fs (Nd (Nd w p RB_RED x1) n RB_BLACK (Nd x2 g RB_RED u)) \<and>
    outside_same s s' (tree_addrs fs (Nd (Nd w p RB_RED (Nd x1 n nc x2)) g c u))" (is "\<exists>s'. _ \<and> _ \<and> outside_same s s' ?A")
proof -
  have "at s (FL g c u # fs) (Nd w p RB_RED (Nd x1 n nc x2))" using assms(1) by simp
  from rotate_left_at[OF this] obtain s0 where s0: "raw_rb_rotate_left p s = Some s0"
    "at s0 fs (Nd (Nd (Nd w p RB_RED x1) n nc x2) g c u)" "outside_same s s0 ?A" by (auto simp: Un_ac insert_commute)
  obtain s1 s2 where s: "set_color n RB_BLACK s0 = Some s1" "set_color g RB_RED s1 = Some s2"
    "at s2 fs (Nd (Nd (Nd w p RB_RED x1) n RB_BLACK x2) g RB_RED u)" "outside_same s0 s2 ?A"
    using recolor2_at[OF s0(2) disjI1[OF conjI[OF refl refl]], of RB_BLACK RB_RED] by auto
  from rotate_right_at[OF s(3)] obtain s3 where s3: "raw_rb_rotate_right g s2 = Some s3"
    "at s3 fs (Nd (Nd w p RB_RED x1) n RB_BLACK (Nd x2 g RB_RED u))" "outside_same s2 s3 ?A" by auto
  have "at s3 (FL n RB_BLACK (Nd x2 g RB_RED u) # fs) (Nd w p RB_RED x1)" using s3(2) by simp
  then have e: "insert_loop p s3 = Some s3" by (rule insert_loop_black) simp
  have g: "nodes s n = Some \<lparr>rb_parent = p, rb_color = nc, rb_right = ptr x2, rb_left = ptr x1\<rparr>" "p \<noteq> NULL"
    "nodes s p = Some \<lparr>rb_parent = g, rb_color = RB_RED, rb_right = n, rb_left = ptr w\<rparr>"
    "nodes s g = Some \<lparr>rb_parent = up fs, rb_color = c, rb_right = ptr u, rb_left = p\<rparr>"
    using assms(1) by (auto simp: at_def)
  show ?thesis
    using s0 s s3 e g assms(2) red_child[of s g u] children_at[OF assms(1)]
      outside_same_trans[OF s0(3) outside_same_trans[OF s(4) s3(3)]]
    by (subst insert_loop.simps) (auto simp: Let_def)
qed

lemma insert_RL:
  assumes "at s fs (Nd u g c (Nd (Nd x1 n nc x2) p RB_RED w))" "col u \<noteq> RB_RED"
  shows "\<exists>s'. insert_loop n s = Some s' \<and> at s' fs (Nd (Nd u g RB_RED x1) n RB_BLACK (Nd x2 p RB_RED w)) \<and>
    outside_same s s' (tree_addrs fs (Nd u g c (Nd (Nd x1 n nc x2) p RB_RED w)))" (is "\<exists>s'. _ \<and> _ \<and> outside_same s s' ?A")
proof -
  have "at s (FR u g c # fs) (Nd (Nd x1 n nc x2) p RB_RED w)" using assms(1) by simp
  from rotate_right_at[OF this] obtain s0 where s0: "raw_rb_rotate_right p s = Some s0"
    "at s0 fs (Nd u g c (Nd x1 n nc (Nd x2 p RB_RED w)))" "outside_same s s0 ?A" by (auto simp: Un_ac insert_commute)
  obtain s1 s2 where s: "set_color n RB_BLACK s0 = Some s1" "set_color g RB_RED s1 = Some s2"
    "at s2 fs (Nd u g RB_RED (Nd x1 n RB_BLACK (Nd x2 p RB_RED w)))" "outside_same s0 s2 ?A"
    using recolor2_at[OF s0(2) disjI2[OF conjI[OF refl refl]], of RB_BLACK RB_RED] by auto
  from rotate_left_at[OF s(3)] obtain s3 where s3: "raw_rb_rotate_left g s2 = Some s3"
    "at s3 fs (Nd (Nd u g RB_RED x1) n RB_BLACK (Nd x2 p RB_RED w))" "outside_same s2 s3 ?A" by auto
  have "at s3 (FR (Nd u g RB_RED x1) n RB_BLACK # fs) (Nd x2 p RB_RED w)" using s3(2) by simp
  then have e: "insert_loop p s3 = Some s3" by (rule insert_loop_black) simp
  have g: "nodes s n = Some \<lparr>rb_parent = p, rb_color = nc, rb_right = ptr x2, rb_left = ptr x1\<rparr>" "p \<noteq> NULL"
    "nodes s p = Some \<lparr>rb_parent = g, rb_color = RB_RED, rb_right = ptr w, rb_left = n\<rparr>"
    "nodes s g = Some \<lparr>rb_parent = up fs, rb_color = c, rb_right = p, rb_left = ptr u\<rparr>" "p \<noteq> ptr u"
    using assms(1) by (auto simp: at_def) (cases u; auto)+
  show ?thesis
    using s0 s s3 e g assms(2) red_child[of s g u] children_at[OF assms(1)]
      outside_same_trans[OF s0(3) outside_same_trans[OF s(4) s3(3)]]
    by (subst insert_loop.simps) (auto simp: Let_def)
qed

text \<open>What the loop achieves from a position; the root of the result may be red.\<close>

definition fixed :: "rb_state \<Rightarrow> frame list \<Rightarrow> rtree \<Rightarrow> rb_state option \<Rightarrow> bool" where
  "fixed s fs t r \<longleftrightarrow> (\<exists>s' t'. r = Some s' \<and> tree_at s' t' \<and> valid t' \<and> t' \<noteq> Lf \<and> inorder t' = before fs @ inorder t @ behind fs \<and>
     outside_same s s' (set (before fs @ inorder t @ behind fs)))"

lemma tree_addrs_alt: "tree_addrs fs t = set (before fs @ inorder t @ behind fs)"
  using tree_addrs_plug[where fs = fs and t = t] by (simp add: inorder_plug)

lemma faddrs_set: "set (faddrs fs) = set (before fs) \<union> set (behind fs)"
  by (induction fs rule: faddrs.induct) auto

lemma plug_Nd: "plug fs (Nd l a c r) \<noteq> Lf"
  using inorder_plug[where fs = fs and t = "Nd l a c r"] by (cases "plug fs (Nd l a c r)") auto

lemma fixedI:
  assumes "r = Some s'" "at s' gs t'" "outside_same s s' (set (before fs @ inorder t @ behind fs))"
    and "before gs @ inorder t' @ behind gs = before fs @ inorder t @ behind fs"
    and "fits gs (bheight t')" "valid t'" "col t' = RB_RED \<longrightarrow> gs \<noteq> [] \<and> fc gs = RB_BLACK" "t' \<noteq> Lf"
  shows "fixed s fs t r"
  using assms plug_valid[OF assms(5-7)] plug_Nd[of gs]
  unfolding fixed_def by (cases t') (auto simp: at_tree inorder_plug rbt_def)

lemma fixed_trans:
  assumes "fixed s1 gs t1 r" "outside_same s s1 (set (before fs @ inorder t @ behind fs))"
    and "before gs @ inorder t1 @ behind gs = before fs @ inorder t @ behind fs"
  shows "fixed s fs t r"
  using assms unfolding fixed_def by (metis outside_same_trans)

lemma insert_red_uncle:
  assumes "at s gs T" "T = Nd (Nd la p RB_RED ra) g RB_BLACK (Nd lb u RB_RED rb) \<or> T = Nd (Nd lb u RB_RED rb) g RB_BLACK (Nd la p RB_RED ra)"
    and "nodes s n = Some N" "rb_parent N = p"
    and IH: "\<And>s1 N1 N2. at s1 gs (Nd N1 g RB_RED N2) \<Longrightarrow> fits gs (bheight (Nd N1 g RB_RED N2)) \<Longrightarrow>
      valid (Nd N1 g RB_RED N2) \<Longrightarrow> fixed s1 gs (Nd N1 g RB_RED N2) (insert_loop g s1)"
    and "fits gs (bheight la + 1)" "valid la" "valid ra" "bheight la = bheight ra" "valid (Nd lb u RB_RED rb)" "bheight lb = bheight la"
    and "before gs @ inorder T @ behind gs = before fs @ inorder t @ behind fs"
  shows "fixed s fs t (insert_loop n s)"
proof -
  from insert_recolor[OF assms(1-4)] obtain s' where s': "insert_loop n s = insert_loop g s'" "outside_same s s' (tree_addrs gs T)"
    "at s' gs (case T of Nd l x y r \<Rightarrow> Nd (paint RB_BLACK l) g RB_RED (paint RB_BLACK r) | Lf \<Rightarrow> Lf)" by auto
  obtain N1 N2 where N: "(case T of Nd l x y r \<Rightarrow> Nd (paint RB_BLACK l) g RB_RED (paint RB_BLACK r) | Lf \<Rightarrow> Lf) = Nd N1 g RB_RED N2"
    "valid (Nd N1 g RB_RED N2)" "bheight (Nd N1 g RB_RED N2) = bheight la + 1" "inorder (Nd N1 g RB_RED N2) = inorder T"
    using assms(2,7-11) by auto
  have "fixed s' gs (Nd N1 g RB_RED N2) (insert_loop g s')" by (rule IH) (use N s'(3) assms(6) in auto)
  then show ?thesis unfolding s'(1)
    by (rule fixed_trans) (use s'(2)[unfolded tree_addrs_alt assms(12)] N(4) assms(12) in auto)
qed

lemma insert_black_uncle:
  assumes "at s gs (fill g (fill f (Nd l a RB_RED r)))" "f = FL p RB_RED w \<or> f = FR w p RB_RED" "g = FL x RB_BLACK u \<or> g = FR u x RB_BLACK"
    and "col u \<noteq> RB_RED" "valid (Nd l a RB_RED r)" "valid w" "valid u" "col w = RB_BLACK" "bheight w = bheight l" "bheight u = bheight l"
  shows "\<exists>s' t'. insert_loop a s = Some s' \<and> at s' gs t' \<and> outside_same s s' (tree_addrs gs (fill g (fill f (Nd l a RB_RED r)))) \<and>
    inorder t' = inorder (fill g (fill f (Nd l a RB_RED r))) \<and> valid t' \<and> col t' = RB_BLACK \<and> bheight t' = bheight l + 1 \<and> t' \<noteq> Lf"
proof -
  have u: "col u = RB_BLACK" using assms(4,7) valid_col by blast
  consider "f = FL p RB_RED w" "g = FL x RB_BLACK u" | "f = FR w p RB_RED" "g = FL x RB_BLACK u"
    | "f = FL p RB_RED w" "g = FR u x RB_BLACK" | "f = FR w p RB_RED" "g = FR u x RB_BLACK"
    using assms(2,3) by blast
  then show ?thesis
  proof cases
    case 1
    then have "at s gs (Nd (Nd (Nd l a RB_RED r) p RB_RED w) x RB_BLACK u)" using assms(1) by simp
    from insert_LL[OF this assms(4)] show ?thesis using assms(5-) u 1 by fastforce
  next
    case 2
    then have "at s gs (Nd (Nd w p RB_RED (Nd l a RB_RED r)) x RB_BLACK u)" using assms(1) by simp
    from insert_LR[OF this assms(4)] show ?thesis using assms(5-) u 2 by fastforce
  next
    case 3
    then have "at s gs (Nd u x RB_BLACK (Nd (Nd l a RB_RED r) p RB_RED w))" using assms(1) by simp
    from insert_RL[OF this assms(4)] show ?thesis using assms(5-) u 3 by fastforce
  next
    case 4
    then have "at s gs (Nd u x RB_BLACK (Nd w p RB_RED (Nd l a RB_RED r)))" using assms(1) by simp
    from insert_RR[OF this assms(4)] show ?thesis using assms(5-) u 4 by fastforce
  qed
qed

lemma insert_loop_fixed:
  assumes "at s fs (Nd l a RB_RED r)" "fits fs (bheight (Nd l a RB_RED r))" "valid (Nd l a RB_RED r)"
  shows "fixed s fs (Nd l a RB_RED r) (insert_loop a s)"
  using assms
proof (induction "length fs" arbitrary: fs s l a r rule: less_induct)
  case less
  let ?t = "Nd l a RB_RED r"
  consider (nil) "fs = []" | (black) "fs \<noteq> []" "fc fs = RB_BLACK" | (red) f g gs where "fs = f # g # gs" "fcolor f = RB_RED" "fcolor g = RB_BLACK"
    using less.prems(2) by (cases fs rule: faddrs.cases; cases "tl fs") auto
  then show ?case
  proof cases
    case nil
    then show ?thesis using less.prems insert_loop_black[OF less.prems(1)]
      by (auto simp: fixed_def tree_at_def)
  next
    case black
    have "insert_loop a s = Some s" using insert_loop_black[OF less.prems(1)] black by simp
    then show ?thesis by (rule fixedI[OF _ less.prems(1)]) (use less.prems black in auto)
  next
    case red
    have T: "at s gs (fill g (fill f ?t))" using less.prems(1) red(1) by (simp add: at_fill)
    have IH: "fixed s1 gs (Nd N1 x RB_RED N2) (insert_loop x s1)"
      if "at s1 gs (Nd N1 x RB_RED N2)" "fits gs (bheight (Nd N1 x RB_RED N2))" "valid (Nd N1 x RB_RED N2)" for s1 N1 N2 x
      using less.hyps[of gs] that red(1) by simp
    obtain p w where f: "f = FL p RB_RED w \<or> f = FR w p RB_RED" using red(2) by (cases f) auto
    have a: "nodes s a = Some \<lparr>rb_parent = p, rb_color = RB_RED, rb_right = ptr r, rb_left = ptr l\<rparr>"
      using read_at[OF less.prems(1)] red(1) f by auto
    obtain x u where g: "g = FL x RB_BLACK u \<or> g = FR u x RB_BLACK" using red(3) by (cases g) auto
    have w: "valid w" "valid u" "col w = RB_BLACK" "bheight w = bheight l" "bheight u = bheight l" "fits gs (bheight l + 1)"
      using less.prems(2,3) f g red(1) by auto
    have io: "before gs @ inorder (fill g (fill f ?t)) @ behind gs = before fs @ inorder ?t @ behind fs"
      using f g red(1) by auto
    show ?thesis
    proof (cases "col u = RB_RED")
      case True
      then obtain lb y rb where u: "u = Nd lb y RB_RED rb" by (cases u) auto
      obtain la ra where lr: "fill f ?t = Nd la p RB_RED ra" "valid la" "valid ra" "bheight la = bheight l" "bheight ra = bheight l"
        using f w less.prems(3) by auto
      show ?thesis
        by (rule insert_red_uncle[where p = p and g = x and u = y and la = la and ra = ra and lb = lb and rb = rb, OF T _ a _ IH])
          (use lr g u w f io in auto)
    next
      case False
      from insert_black_uncle[OF T f g False less.prems(3) w(1-5)] obtain s' t' where
        s': "insert_loop a s = Some s'" "at s' gs t'" "outside_same s s' (tree_addrs gs (fill g (fill f ?t)))"
          "inorder t' = inorder (fill g (fill f ?t))" "valid t'" "col t' = RB_BLACK" "bheight t' = bheight l + 1" "t' \<noteq> Lf" by blast
      show ?thesis
        by (rule fixedI[OF s'(1,2)]) (use s' w io in \<open>simp_all add: tree_addrs_alt\<close>)
    qed
  qed
qed

text \<open>Linking a new node at an empty position.\<close>

fun link :: "frame list \<Rightarrow> rb_link" where
  "link [] = Link_root"
| "link (FL a c r # fs) = Link_left a"
| "link (FR l a c # fs) = Link_right a"

lemma link_node_at:
  assumes "at s fs Lf" "z \<notin> set (faddrs fs)" "z \<noteq> NULL" "nodes s z \<noteq> None"
  shows "\<exists>s'. rb_link_node z (up fs) (link fs) s = Some s' \<and> at s' fs (Nd Lf z RB_RED Lf) \<and> outside_same s s' (insert z (set (faddrs fs)))"
  using assms
  by (cases fs rule: faddrs.cases) (auto simp: rb_link_node_def at_def outside_same_def simp del: at_fills)

lemma insert_color_at:
  assumes "at s fs (Nd Lf z RB_RED Lf)" "fits fs 0"
  shows "\<exists>s' t'. rb_insert_color z s = Some s' \<and> tree_at s' t' \<and> rbt t' \<and> inorder t' = before fs @ z # behind fs \<and>
    outside_same s s' (set (before fs @ z # behind fs))"
proof -
  obtain s1 t1 where s1: "insert_loop z s = Some s1" "tree_at s1 t1" "valid t1" "t1 \<noteq> Lf" "inorder t1 = before fs @ z # behind fs"
    "outside_same s s1 (set (before fs @ z # behind fs))"
    using insert_loop_fixed[OF assms(1)] assms(2) by (auto simp: fixed_def)
  then obtain l a c r where t1: "t1 = Nd l a c r" by (cases t1) auto
  from color_at[of s1 "[]" l a c r RB_BLACK] s1(2) t1 obtain s2 where
    s2: "set_color a RB_BLACK s1 = Some s2" "tree_at s2 (Nd l a RB_BLACK r)" "outside_same s1 s2 (set (inorder t1))"
    by (auto simp: tree_at_def)
  have "rb_root_f s1 = a" using s1(2) t1 by (simp add: tree_at_def at_def)
  then have "rb_insert_color z s = Some s2" using s1 s2 by (simp add: rb_insert_color_def)
  moreover have "rbt (Nd l a RB_BLACK r)" using s1(3) t1 by (auto simp: rbt_def)
  moreover have "outside_same s s2 (set (before fs @ z # behind fs))" using s2(3) s1(5) outside_same_trans[OF s1(6)] by simp
  ultimately show ?thesis using s2(2) s1(5) t1 by (intro exI[of _ s2] exI[of _ "Nd l a RB_BLACK r"]) simp
qed

section \<open>Traversal\<close>

lemma leftmost_cells:
  "holds (nodes s) (cells par t) \<Longrightarrow> t \<noteq> Lf \<Longrightarrow> NULL \<notin> set (inorder t) \<Longrightarrow> leftmost (ptr t) s = Some (hd (inorder t))"
proof (induction t arbitrary: par)
  case (Nd l a c r)
  then show ?case using ptr_mem[of l] by (cases "l = Lf"; subst leftmost.simps) (auto simp: ptr_NULL hd_append)
qed simp

lemma rightmost_cells:
  "holds (nodes s) (cells par t) \<Longrightarrow> t \<noteq> Lf \<Longrightarrow> NULL \<notin> set (inorder t) \<Longrightarrow> rightmost (ptr t) s = Some (last (inorder t))"
proof (induction t arbitrary: par)
  case (Nd l a c r)
  then show ?case using ptr_mem[of r] by (cases "r = Lf"; subst rightmost.simps) (auto simp: ptr_NULL)
qed simp

lemma inorder_Nil [simp]: "inorder t = [] \<longleftrightarrow> t = Lf"
  by (cases t) auto

fun head0 :: "addr list \<Rightarrow> addr" where
  "head0 [] = NULL"
| "head0 (x # xs) = x"

lemma head0_hd: "xs \<noteq> [] \<Longrightarrow> head0 (xs @ ys) = hd xs"
  by (cases xs) auto

lemma climb_right_at: "at s fs (Nd l a c r) \<Longrightarrow> climb_right a s = Some (head0 (behind fs))"
proof (induction fs arbitrary: l a c r rule: behind.induct)
  case 1
  then show ?case using read_at[OF 1] by (subst climb_right.simps) simp
next
  case (2 b d w gs)
  then have g: "at s gs (Nd (Nd l a c r) b d w)" by simp
  have "a \<noteq> ptr w" using at_NULL[OF g] by auto
  then show ?case using read_at[OF 2(2)] read_at[OF g] at_NULL[OF g] by (subst climb_right.simps) auto
next
  case (3 w b d gs)
  then have g: "at s gs (Nd w b d (Nd l a c r))" by simp
  show ?case using 3(1)[OF g] read_at[OF 3(2)] read_at[OF g] at_NULL[OF g] by (subst climb_right.simps) auto
qed

lemma climb_left_at: "at s fs (Nd l a c r) \<Longrightarrow> climb_left a s = Some (head0 (rev (before fs)))"
proof (induction fs arbitrary: l a c r rule: before.induct)
  case 1
  then show ?case using read_at[OF 1] by (subst climb_left.simps) simp
next
  case (2 b d w gs)
  then have g: "at s gs (Nd (Nd l a c r) b d w)" by simp
  show ?case using 2(1)[OF g] read_at[OF 2(2)] read_at[OF g] at_NULL[OF g] by (subst climb_left.simps) auto
next
  case (3 w b d gs)
  then have g: "at s gs (Nd w b d (Nd l a c r))" by simp
  have "a \<noteq> ptr w" using at_NULL[OF g] by auto
  then show ?case using read_at[OF 3(2)] read_at[OF g] at_NULL[OF g] by (subst climb_left.simps) auto
qed

lemma rb_next_at: "at s fs (Nd l a c r) \<Longrightarrow> rb_next a s = Some (head0 (inorder r @ behind fs))"
  using climb_right_at[of s fs l a c r] leftmost_cells[of s a r] read_at[of s fs l a c r] children_at[of s fs l a c r] ptr_mem[of r]
  by (cases "r = Lf") (auto simp: rb_next_def head0_hd ptr_NULL)

lemma rb_prev_at: "at s fs (Nd l a c r) \<Longrightarrow> rb_prev a s = Some (head0 (rev (before fs @ inorder l)))"
  using climb_left_at[of s fs l a c r] rightmost_cells[of s a l] read_at[of s fs l a c r] children_at[of s fs l a c r] ptr_mem[of l]
  by (cases "l = Lf") (auto simp: rb_prev_def head0_hd hd_rev ptr_NULL)

text \<open>Every node of a tree has a position.\<close>

lemma position: "a \<in> set (inorder t) \<Longrightarrow> \<exists>fs l c r. t = plug fs (Nd l a c r)"
proof (induction t)
  case (Nd l b c r)
  then consider "a = b" | "a \<in> set (inorder l)" | "a \<in> set (inorder r)" by auto
  then show ?case
  proof cases
    case 1
    then show ?thesis by (intro exI[of _ "[]"]) auto
  next
    case 2
    then obtain fs l' c' r' where "l = plug fs (Nd l' a c' r')" using Nd.IH(1) by blast
    then have "Nd l b c r = plug (fs @ [FL b c r]) (Nd l' a c' r')" by (simp add: plug_append)
    then show ?thesis by blast
  next
    case 3
    then obtain fs l' c' r' where "r = plug fs (Nd l' a c' r')" using Nd.IH(2) by blast
    then have "Nd l b c r = plug (fs @ [FR l b c]) (Nd l' a c' r')" by (simp add: plug_append)
    then show ?thesis by blast
  qed
qed simp

lemma distinct_split: "distinct (xs @ a # ys) \<Longrightarrow> xs @ a # ys = us @ a # vs \<Longrightarrow> xs = us \<and> ys = vs"
  by (auto simp: append_eq_append_conv2 append_eq_Cons_conv Cons_eq_append_conv)

lemma rb_first_last:
  assumes "tree_at s t"
  shows "rb_first s = Some (head0 (inorder t))" "rb_last s = Some (head0 (rev (inorder t)))"
proof -
  have t: "rb_root_f s = ptr t" "holds (nodes s) (cells NULL t)" "NULL \<notin> set (inorder t)" using assms by (auto simp: tree_at_def at_def)
  have "head0 (inorder t) = hd (inorder t)" "head0 (rev (inorder t)) = last (inorder t)" if "t \<noteq> Lf"
    using that head0_hd[of "inorder t" "[]"] head0_hd[of "rev (inorder t)" "[]"] by (simp_all add: hd_rev)
  then show "rb_first s = Some (head0 (inorder t))" "rb_last s = Some (head0 (rev (inorder t)))"
    using t leftmost_cells[OF t(2)] rightmost_cells[OF t(2)] by (cases "t = Lf"; simp add: rb_first_def rb_last_def ptr_NULL)+
qed

text \<open>A node given by its place in the order, as a position.\<close>

lemma position_split:
  assumes "tree_at s t" "inorder t = xs @ a # ys"
  obtains fs l c r where "t = plug fs (Nd l a c r)" "at s fs (Nd l a c r)" "xs = before fs @ inorder l" "ys = inorder r @ behind fs"
proof -
  have "a \<in> set (inorder t)" using assms(2) by simp
  then obtain fs l c r where t: "t = plug fs (Nd l a c r)" using position by blast
  have at: "at s fs (Nd l a c r)" using assms(1) by (simp add: at_tree t)
  have e: "xs @ a # ys = (before fs @ inorder l) @ a # (inorder r @ behind fs)" using assms(2) by (simp add: t inorder_plug)
  have "distinct (xs @ a # ys)" using assms by (simp add: tree_at_def at_def)
  from distinct_split[OF this e] show ?thesis using that[OF t at] by simp
qed

lemma neighbours:
  assumes "tree_at s t" "inorder t = xs @ a # ys"
  shows "rb_next a s = Some (head0 ys)" "rb_prev a s = Some (head0 (rev xs))"
proof -
  obtain fs l c r where "at s fs (Nd l a c r)" "xs = before fs @ inorder l" "ys = inorder r @ behind fs" by (rule position_split[OF assms])
  then show "rb_next a s = Some (head0 ys)" "rb_prev a s = Some (head0 (rev xs))" using rb_next_at rb_prev_at by auto
qed

text \<open>The loop \<open>for (n = rb_first(root); n; n = rb_next(n))\<close> and the nodes it visits.\<close>

partial_function (option) visit :: "addr \<Rightarrow> rb_state \<Rightarrow> addr list option" where
  "visit p s = (if p = NULL then Some [] else do { q \<leftarrow> rb_next p s; ps \<leftarrow> visit q s; Some (p # ps) })"

lemma visit_from:
  assumes "tree_at s t"
  shows "inorder t = xs @ ys \<Longrightarrow> visit (head0 ys) s = Some ys"
proof (induction ys arbitrary: xs)
  case Nil
  show ?case by (subst visit.simps) simp
next
  case (Cons y ys)
  have "y \<in> set (inorder t)" using Cons.prems by simp
  then have "y \<noteq> NULL" using assms by (auto simp: tree_at_def at_def)
  then show ?case using Cons.IH[of "xs @ [y]"] Cons.prems neighbours(1)[OF assms Cons.prems] by (subst visit.simps) simp
qed

end
