(* ===== verification/Rbtree_Erase.thy ===== *)
theory Rbtree_Erase
  imports Rbtree
begin

text \<open>
  Correctness of \<open>rb_erase\<close> and \<open>rb_replace_node\<close> of \<open>datastruct/rbtree.c\<close>: unlinking and replacing
  nodes, the rebalancing loop of the removal, and the properties of the red-black tree.
\<close>

section \<open>Unlinking\<close>

lemma splice_run:
  assumes "child \<noteq> NULL \<longrightarrow> nodes s child \<noteq> None" "parent \<noteq> NULL \<longrightarrow> nodes s parent \<noteq> None" "parent \<noteq> child \<or> parent = NULL"
  shows "\<exists>s'. splice_out z child parent s = Some s' \<and> rb_root_f s' = (if parent = NULL then child else rb_root_f s) \<and>
    nodes s' = rc parent z child (rp child parent (nodes s))"
  using assms
  by (cases "child = NULL"; cases "parent = NULL"; cases "nodes s child"; cases "nodes s parent")
    (auto simp: splice_out_def skip_null_def rp_def rc_def)

text \<open>A subtree moves up into the place of its parent.\<close>

lemma splice_heap:
  assumes "holds h (cells z t)" "holds h (fcells z fs)" "z \<noteq> NULL" "z \<notin> set (faddrs fs)"
    and d: "distinct (inorder t @ faddrs fs)" "NULL \<notin> set (inorder t @ faddrs fs)"
    and h': "h' = rc (up fs) z (ptr t) (rp (ptr t) (up fs) h)"
  shows "holds h' (cells (up fs) t)" "holds h' (fcells (ptr t) fs)" "\<And>x. x \<notin> set (inorder t @ faddrs fs) \<Longrightarrow> h' x = h x"
proof -
  have n: "up fs \<notin> set (inorder t)" "ptr t \<notin> set (faddrs fs)" using d ptr_up_notin(3)[of t fs] ptr_up_notin(2)[of fs t] by auto
  have "holds (rp (ptr t) (up fs) h) (cells (up fs) t)" by (rule rp_cells[OF assms(1)]) (use d in auto)
  then show "holds h' (cells (up fs) t)" using n h' by simp
  show "holds h' (fcells (ptr t) fs)" unfolding h' by (rule rc_fcells) (use assms n d in auto)
  show "h' x = h x" if "x \<notin> set (inorder t @ faddrs fs)" for x
    using that up_mem[of fs] ptr_mem[of t] h' by (cases fs; cases t) (auto simp: rp_def rc_def)
qed

lemma splice_at:
  assumes "at s fs (Nd l z c r)" "l = Lf \<and> t = r \<or> r = Lf \<and> t = l"
  shows "\<exists>s'. splice_out z (ptr t) (up fs) s = Some s' \<and> at s' fs t \<and> outside_same s s' (set (inorder t) \<union> set (faddrs fs))"
proof -
  have h: "holds (nodes s) (cells z t)" "holds (nodes s) (fcells z fs)" "z \<noteq> NULL" "z \<notin> set (faddrs fs)" "rb_root_f s = topmost z fs"
    and d: "distinct (inorder t @ faddrs fs)" "NULL \<notin> set (inorder t @ faddrs fs)"
    using assms by (auto simp: at_def)
  have "ptr t \<noteq> NULL \<longrightarrow> nodes s (ptr t) \<noteq> None" using root_cell[OF h(1)] by (cases t) auto
  moreover have "up fs \<noteq> NULL \<longrightarrow> nodes s (up fs) \<noteq> None" using frame_cell[OF h(2) _ h(3,4)] by (cases fs) auto
  moreover have "up fs \<noteq> ptr t \<or> up fs = NULL" using d up_mem[of fs] ptr_mem[of t] by (cases fs; cases t) auto
  ultimately obtain s' where s': "splice_out z (ptr t) (up fs) s = Some s'" "rb_root_f s' = (if up fs = NULL then ptr t else rb_root_f s)"
    "nodes s' = rc (up fs) z (ptr t) (rp (ptr t) (up fs) (nodes s))" using splice_run by blast
  note R = splice_heap[OF h(1-4) d s'(3)]
  have "rb_root_f s' = topmost (ptr t) fs" using s'(2) h(5) d up_facts(1)[of fs] by (cases fs) auto
  then show ?thesis using R d s'(1) by (auto simp: at_def outside_same_def)
qed

section \<open>Replacing a node\<close>

text \<open>The memory in which another node has taken over the fields and the neighbours of \<open>z\<close>.\<close>

lemma subst_heap:
  assumes "at s fs (Nd l z c r)" "y \<noteq> NULL" "y \<notin> tree_addrs fs (Nd l z c r)"
    and h': "\<And>x. h' x = (rc (up fs) z y (rp (ptr r) y (rp (ptr l) y ((nodes s)(y \<mapsto> \<lparr>rb_parent = up fs, rb_color = c, rb_right = ptr r, rb_left = ptr l\<rparr>))))) x"
    and "nodes s' = h'" "rb_root_f s' = (if up fs = NULL then y else rb_root_f s)"
  shows "at s' fs (Nd l y c r)" "\<And>x. x \<notin> insert y (tree_addrs fs (Nd l z c r)) \<Longrightarrow> h' x = nodes s x"
proof -
  have h: "holds (nodes s) (cells z l)" "holds (nodes s) (cells z r)" "holds (nodes s) (fcells z fs)" "z \<noteq> NULL" "rb_root_f s = topmost z fs"
    using assms(1) by (auto simp: at_def)
  have d: "distinct (z # y # inorder l @ inorder r @ faddrs fs)" "NULL \<notin> set (z # y # inorder l @ inorder r @ faddrs fs)"
    using assms(1-3) by (auto simp: at_def)
  have e: "h' = rc (up fs) z y (rp (ptr r) y (rp (ptr l) y ((nodes s)(y \<mapsto> \<lparr>rb_parent = up fs, rb_color = c, rb_right = ptr r, rb_left = ptr l\<rparr>))))"
    using h' by blast
  have n: "up fs \<notin> set (inorder l)" "up fs \<notin> set (inorder r)" "up fs \<noteq> y" "ptr l \<notin> set (inorder r)" "ptr l \<notin> set (faddrs fs)" "ptr l \<noteq> y"
    "ptr r \<notin> set (inorder l)" "ptr r \<notin> set (faddrs fs)" "ptr r \<noteq> y"
    using d ptr_up_notin(3)[of l fs] ptr_up_notin(3)[of r fs] ptr_up_notin(1)[of r l] ptr_up_notin(1)[of l r] ptr_up_notin(2)[of fs l]
      ptr_up_notin(2)[of fs r] up_facts(2)[of y fs] up_facts(3)[of y l] up_facts(3)[of y r] by (auto simp: Int_Un_distrib)
  let ?g = "(nodes s)(y \<mapsto> \<lparr>rb_parent = up fs, rb_color = c, rb_right = ptr r, rb_left = ptr l\<rparr>)"
  have L: "holds (rp (ptr l) y ?g) (cells y l)" by (rule rp_cells[of _ z]) (use h d in auto)
  have "holds (rp (ptr r) y (rp (ptr l) y ?g)) (cells y r)" by (rule rp_cells[of _ z]) (use h d n in auto)
  then have "holds h' (cells y r)" "holds h' (cells y l)" using L n e by auto
  moreover have "holds h' (fcells y fs)" unfolding e by (rule rc_fcells) (use h d n in auto)
  moreover have "h' y = Some \<lparr>rb_parent = up fs, rb_color = c, rb_right = ptr r, rb_left = ptr l\<rparr>" using n e by auto
  moreover have "rb_root_f s' = topmost y fs" using assms(6) h(5) d up_facts(1)[of fs] by (cases fs) auto
  ultimately show "at s' fs (Nd l y c r)" using assms(5) d by (auto simp: at_def)
  show "h' x = nodes s x" if "x \<notin> insert y (tree_addrs fs (Nd l z c r))" for x
    using that up_mem[of fs] ptr_mem[of l] ptr_mem[of r] e by (cases fs; cases l; cases r) (auto simp: rp_def rc_def)
qed

text \<open>The pointers in and around a node, apart from each other where they are not null.\<close>

definition around :: "rb_state \<Rightarrow> addr \<Rightarrow> addr \<Rightarrow> addr \<Rightarrow> addr \<Rightarrow> addr \<Rightarrow> int \<Rightarrow> bool" where
  "around s z y q ll rr c \<longleftrightarrow> nodes s z = Some \<lparr>rb_parent = q, rb_color = c, rb_right = rr, rb_left = ll\<rparr> \<and> nodes s y \<noteq> None \<and>
     z \<noteq> y \<and> y \<noteq> z \<and> (\<forall>p \<in> {q, ll, rr}. p \<noteq> NULL \<longrightarrow> nodes s p \<noteq> None \<and> p \<noteq> z \<and> p \<noteq> y \<and> z \<noteq> p \<and> y \<noteq> p) \<and>
     (q \<noteq> NULL \<longrightarrow> q \<noteq> ll \<and> q \<noteq> rr \<and> ll \<noteq> q \<and> rr \<noteq> q) \<and> (ll \<noteq> NULL \<longrightarrow> ll \<noteq> rr \<and> rr \<noteq> ll)"

lemma around_at:
  assumes "at s fs (Nd l z c r)" "y \<noteq> NULL" "y \<notin> tree_addrs fs (Nd l z c r)" "nodes s y \<noteq> None"
  shows "around s z y (up fs) (ptr l) (ptr r) c"
proof -
  have h: "holds (nodes s) (cells z l)" "holds (nodes s) (cells z r)" "holds (nodes s) (fcells z fs)" "z \<noteq> NULL" "z \<notin> set (faddrs fs)"
    using assms(1) by (auto simp: at_def)
  have p: "ptr l \<noteq> NULL \<longrightarrow> nodes s (ptr l) \<noteq> None \<and> ptr l \<in> set (inorder l)" "ptr r \<noteq> NULL \<longrightarrow> nodes s (ptr r) \<noteq> None \<and> ptr r \<in> set (inorder r)"
    using root_cell[OF h(1)] root_cell[OF h(2)] ptr_mem by (cases l; cases r; auto)+
  have q: "up fs \<noteq> NULL \<longrightarrow> nodes s (up fs) \<noteq> None \<and> up fs \<in> set (faddrs fs)"
    using frame_cell[OF h(3) _ h(4,5)] up_mem[of fs] by (cases fs) auto
  have d: "distinct (inorder l @ z # inorder r @ faddrs fs)" "NULL \<notin> set (inorder l @ z # inorder r @ faddrs fs)"
    using assms(1) by (auto simp: at_def)
  show ?thesis unfolding around_def using p q d assms(3,4) read_at[OF assms(1)] by fastforce
qed

lemma take_over_run:
  assumes "around s z y q ll rr c" "ll \<noteq> NULL"
  shows "\<exists>s'. take_over y z s = Some s' \<and> rb_root_f s' = (if q = NULL then y else rb_root_f s) \<and>
    (\<forall>x. nodes s' x = (rc q z y (rp rr y (rp ll y ((nodes s)(y \<mapsto> \<lparr>rb_parent = q, rb_color = c, rb_right = rr, rb_left = ll\<rparr>))))) x)"
proof -
  obtain m lm where m: "nodes s y = Some m" "nodes s ll = Some lm" using assms by (auto simp: around_def)
  note defs = take_over_def skip_null_def rp_def rc_def
  show ?thesis
  proof (cases "rr = NULL"; cases "q = NULL")
    assume n: "rr \<noteq> NULL" "q \<noteq> NULL"
    then obtain rm qm where "nodes s rr = Some rm" "nodes s q = Some qm" using assms by (auto simp: around_def)
    then show ?thesis using n m assms by (simp add: around_def defs)
  next
    assume n: "rr \<noteq> NULL" "q = NULL"
    then obtain rm where "nodes s rr = Some rm" using assms by (auto simp: around_def)
    then show ?thesis using n m assms by (simp add: around_def defs)
  next
    assume n: "rr = NULL" "q \<noteq> NULL"
    then obtain qm where "nodes s q = Some qm" using assms by (auto simp: around_def)
    then show ?thesis using n m assms by (simp add: around_def defs)
  qed (use m assms in \<open>simp add: around_def defs\<close>)
qed

lemma replace_run:
  assumes "around s z y q ll rr c"
  shows "\<exists>s'. rb_replace_node z y s = Some s' \<and> rb_root_f s' = (if q = NULL then y else rb_root_f s) \<and>
    (\<forall>x. nodes s' x = (rc q z y (rp rr y (rp ll y ((nodes s)(y \<mapsto> \<lparr>rb_parent = q, rb_color = c, rb_right = rr, rb_left = ll\<rparr>))))) x)"
proof -
  note defs = rb_replace_node_def skip_null_def rp_def rc_def upd_def Let_def
  obtain m where m: "nodes s y = Some m" using assms by (auto simp: around_def)
  have o: "ll = NULL \<or> (\<exists>n. nodes s ll = Some n)" "rr = NULL \<or> (\<exists>n. nodes s rr = Some n)"
    "q = NULL \<or> (\<exists>n. nodes s q = Some n \<and> z = rb_left n) \<or> (\<exists>n. nodes s q = Some n \<and> z \<noteq> rb_left n)"
    using assms by (auto simp: around_def)
  from o assms m show ?thesis unfolding around_def
    by (elim disjE exE conjE; simp add: defs)
qed

lemma replace_at:
  assumes "at s fs (Nd l z c r)" "y \<noteq> NULL" "y \<notin> tree_addrs fs (Nd l z c r)" "nodes s y \<noteq> None"
  shows "\<exists>s'. rb_replace_node z y s = Some s' \<and> at s' fs (Nd l y c r) \<and> outside_same s s' (insert y (tree_addrs fs (Nd l z c r)))"
proof -
  from replace_run[OF around_at[OF assms]] obtain s' where s': "rb_replace_node z y s = Some s'"
    "rb_root_f s' = (if up fs = NULL then y else rb_root_f s)"
    "\<And>x. nodes s' x = (rc (up fs) z y (rp (ptr r) y (rp (ptr l) y ((nodes s)(y \<mapsto> \<lparr>rb_parent = up fs, rb_color = c, rb_right = ptr r, rb_left = ptr l\<rparr>))))) x"
    by blast
  show ?thesis using subst_heap[OF assms(1-3) s'(3) refl s'(2)] s'(1) unfolding outside_same_def by blast
qed

lemma take_over_at:
  assumes "at s fs (Nd l z c r)" "l \<noteq> Lf" "y \<noteq> NULL" "y \<notin> tree_addrs fs (Nd l z c r)" "nodes s y \<noteq> None"
  shows "\<exists>s'. take_over y z s = Some s' \<and> at s' fs (Nd l y c r) \<and> outside_same s s' (insert y (tree_addrs fs (Nd l z c r)))"
proof -
  have "ptr l \<noteq> NULL" using assms(2) children_at[OF assms(1)] by (simp add: ptr_NULL)
  from take_over_run[OF around_at[OF assms(1,3-5)] this] obtain s' where s': "take_over y z s = Some s'"
    "rb_root_f s' = (if up fs = NULL then y else rb_root_f s)"
    "\<And>x. nodes s' x = (rc (up fs) z y (rp (ptr r) y (rp (ptr l) y ((nodes s)(y \<mapsto> \<lparr>rb_parent = up fs, rb_color = c, rb_right = ptr r, rb_left = ptr l\<rparr>))))) x"
    by blast
  show ?thesis using subst_heap[OF assms(1,3,4) s'(3) refl s'(2)] s'(1) unfolding outside_same_def by blast
qed

section \<open>The rebalancing loop of the removal\<close>

lemma is_black_cells:
  "holds (nodes s) (cells g u) \<Longrightarrow> NULL \<notin> set (inorder u) \<Longrightarrow> is_black (ptr u) s = Some (col u = RB_BLACK)"
  by (cases u) (auto simp: is_black_def)

lemma both_black_at: "at s fs (Nd l a c r) \<Longrightarrow> both_black a s = Some (col l = RB_BLACK \<and> col r = RB_BLACK)"
  using is_black_cells[of s a l] is_black_cells[of s a r] children_at[of s fs l a c r] read_at[of s fs l a c r]
  by (auto simp: both_black_def)

lemma red_sibling_left_at:
  assumes "at s gs (Nd t p c (Nd ol o1 RB_RED or1))"
  shows "\<exists>s'. red_sibling_left p s = Some (ptr ol, s') \<and> at s' gs (Nd (Nd t p RB_RED ol) o1 RB_BLACK or1) \<and>
    outside_same s s' (tree_addrs gs (Nd t p c (Nd ol o1 RB_RED or1)))" (is "\<exists>s'. _ \<and> _ \<and> outside_same s s' ?A")
proof -
  obtain s1 s2 where s: "set_color o1 RB_BLACK s = Some s1" "set_color p RB_RED s1 = Some s2"
    "at s2 gs (Nd t p RB_RED (Nd ol o1 RB_BLACK or1))" "outside_same s s2 ?A"
    using recolor2_at[OF assms disjI2[OF conjI[OF refl refl]], of RB_BLACK RB_RED] by auto
  from rotate_left_at[OF s(3)] obtain s3 where s3: "raw_rb_rotate_left p s2 = Some s3"
    "at s3 gs (Nd (Nd t p RB_RED ol) o1 RB_BLACK or1)" "outside_same s2 s3 ?A" by auto
  have "at s3 (FL o1 RB_BLACK or1 # gs) (Nd t p RB_RED ol)" using s3(2) by simp
  note r = read_at[OF this]
  have o: "at s (FR t p c # gs) (Nd ol o1 RB_RED or1)" using assms by simp
  show ?thesis using s s3 r read_at[OF assms] read_at[OF o] outside_same_trans[OF s(4) s3(3)]
    by (simp add: red_sibling_left_def Let_def)
qed

lemma red_sibling_right_at:
  assumes "at s gs (Nd (Nd ol o1 RB_RED or1) p c t)"
  shows "\<exists>s'. red_sibling_right p s = Some (ptr or1, s') \<and> at s' gs (Nd ol o1 RB_BLACK (Nd or1 p RB_RED t)) \<and>
    outside_same s s' (tree_addrs gs (Nd (Nd ol o1 RB_RED or1) p c t))" (is "\<exists>s'. _ \<and> _ \<and> outside_same s s' ?A")
proof -
  obtain s1 s2 where s: "set_color o1 RB_BLACK s = Some s1" "set_color p RB_RED s1 = Some s2"
    "at s2 gs (Nd (Nd ol o1 RB_BLACK or1) p RB_RED t)" "outside_same s s2 ?A"
    using recolor2_at[OF assms disjI1[OF conjI[OF refl refl]], of RB_BLACK RB_RED] by auto
  from rotate_right_at[OF s(3)] obtain s3 where s3: "raw_rb_rotate_right p s2 = Some s3"
    "at s3 gs (Nd ol o1 RB_BLACK (Nd or1 p RB_RED t))" "outside_same s2 s3 ?A" by auto
  have "at s3 (FR ol o1 RB_BLACK # gs) (Nd or1 p RB_RED t)" using s3(2) by simp
  note r = read_at[OF this]
  have o: "at s (FL p c t # gs) (Nd ol o1 RB_RED or1)" using assms by simp
  show ?thesis using s s3 r read_at[OF assms] read_at[OF o] outside_same_trans[OF s(4) s3(3)]
    by (simp add: red_sibling_right_def Let_def)
qed

text \<open>The end of the last step: colours from the parent, then the rotation at the parent.\<close>

lemma last_colors_left:
  assumes "at s gs (Nd t p c (Nd ol q d (Nd a1 x e a2)))"
  shows "\<exists>s1 s2 s3 s4. set_color q c s = Some s1 \<and> set_color p RB_BLACK s1 = Some s2 \<and>
    nodes s2 q = Some \<lparr>rb_parent = p, rb_color = c, rb_right = x, rb_left = ptr ol\<rparr> \<and> x \<noteq> NULL \<and>
    set_color x RB_BLACK s2 = Some s3 \<and> raw_rb_rotate_left p s3 = Some s4 \<and>
    at s4 gs (Nd (Nd t p RB_BLACK ol) q c (Nd a1 x RB_BLACK a2)) \<and>
    outside_same s s4 (tree_addrs gs (Nd t p c (Nd ol q d (Nd a1 x e a2))))" (is "\<exists>s1 s2 s3 s4. _ \<and> _ \<and> _ \<and> _ \<and> _ \<and> _ \<and> _ \<and> outside_same s s4 ?A")
proof -
  obtain s1 s2 where s: "set_color q c s = Some s1" "set_color p RB_BLACK s1 = Some s2"
    "at s2 gs (Nd t p RB_BLACK (Nd ol q c (Nd a1 x e a2)))" "outside_same s s2 ?A"
    using recolor2_at[OF assms disjI2[OF conjI[OF refl refl]], of c RB_BLACK] by auto
  have q: "at s2 (FR t p RB_BLACK # gs) (Nd ol q c (Nd a1 x e a2))" and
    x: "at s2 (FR ol q c # FR t p RB_BLACK # gs) (Nd a1 x e a2)" using s(3) by simp_all
  from color_at[OF x, of RB_BLACK] obtain s3 where s3: "set_color x RB_BLACK s2 = Some s3"
    "at s3 gs (Nd t p RB_BLACK (Nd ol q c (Nd a1 x RB_BLACK a2)))" "outside_same s2 s3 ?A" by (auto simp: Un_ac insert_commute)
  from rotate_left_at[OF s3(2)] obtain s4 where s4: "raw_rb_rotate_left p s3 = Some s4"
    "at s4 gs (Nd (Nd t p RB_BLACK ol) q c (Nd a1 x RB_BLACK a2))" "outside_same s3 s4 ?A" by auto
  show ?thesis using s s3 s4 read_at[OF q] at_NULL[OF x] outside_same_trans[OF s(4) outside_same_trans[OF s3(3) s4(3)]] by simp
qed

lemma last_colors_right:
  assumes "at s gs (Nd (Nd (Nd a1 x e a2) q d or1) p c t)"
  shows "\<exists>s1 s2 s3 s4. set_color q c s = Some s1 \<and> set_color p RB_BLACK s1 = Some s2 \<and>
    nodes s2 q = Some \<lparr>rb_parent = p, rb_color = c, rb_right = ptr or1, rb_left = x\<rparr> \<and> x \<noteq> NULL \<and>
    set_color x RB_BLACK s2 = Some s3 \<and> raw_rb_rotate_right p s3 = Some s4 \<and>
    at s4 gs (Nd (Nd a1 x RB_BLACK a2) q c (Nd or1 p RB_BLACK t)) \<and>
    outside_same s s4 (tree_addrs gs (Nd (Nd (Nd a1 x e a2) q d or1) p c t))" (is "\<exists>s1 s2 s3 s4. _ \<and> _ \<and> _ \<and> _ \<and> _ \<and> _ \<and> _ \<and> outside_same s s4 ?A")
proof -
  obtain s1 s2 where s: "set_color q c s = Some s1" "set_color p RB_BLACK s1 = Some s2"
    "at s2 gs (Nd (Nd (Nd a1 x e a2) q c or1) p RB_BLACK t)" "outside_same s s2 ?A"
    using recolor2_at[OF assms disjI1[OF conjI[OF refl refl]], of c RB_BLACK] by auto
  have q: "at s2 (FL p RB_BLACK t # gs) (Nd (Nd a1 x e a2) q c or1)" and
    x: "at s2 (FL q c or1 # FL p RB_BLACK t # gs) (Nd a1 x e a2)" using s(3) by simp_all
  from color_at[OF x, of RB_BLACK] obtain s3 where s3: "set_color x RB_BLACK s2 = Some s3"
    "at s3 gs (Nd (Nd (Nd a1 x RB_BLACK a2) q c or1) p RB_BLACK t)" "outside_same s2 s3 ?A" by (auto simp: Un_ac insert_commute)
  from rotate_right_at[OF s3(2)] obtain s4 where s4: "raw_rb_rotate_right p s3 = Some s4"
    "at s4 gs (Nd (Nd a1 x RB_BLACK a2) q c (Nd or1 p RB_BLACK t))" "outside_same s3 s4 ?A" by auto
  show ?thesis using s s3 s4 read_at[OF q] at_NULL[OF x] outside_same_trans[OF s(4) outside_same_trans[OF s3(3) s4(3)]] by simp
qed

lemma last_rotation_left_outer:
  assumes "at s gs (Nd t p c (Nd ol o1 d (Nd a1 x e a2)))" "e \<noteq> RB_BLACK"
  shows "\<exists>s'. last_rotation_left p o1 s = Some s' \<and> at s' gs (Nd (Nd t p RB_BLACK ol) o1 c (Nd a1 x RB_BLACK a2)) \<and>
    outside_same s s' (tree_addrs gs (Nd t p c (Nd ol o1 d (Nd a1 x e a2))))"
proof -
  have o: "at s (FR t p c # gs) (Nd ol o1 d (Nd a1 x e a2))" and x: "at s (FR ol o1 d # FR t p c # gs) (Nd a1 x e a2)" using assms by simp_all
  have "is_black x s = Some False" using read_at[OF x] at_NULL[OF x] assms(2) by (simp add: is_black_def)
  then show ?thesis using last_colors_left[OF assms(1)] read_at[OF o] read_at[OF assms(1)] by (auto simp: last_rotation_left_def skip_null_def)
qed

lemma last_rotation_right_outer:
  assumes "at s gs (Nd (Nd (Nd a1 x e a2) o1 d or1) p c t)" "e \<noteq> RB_BLACK"
  shows "\<exists>s'. last_rotation_right p o1 s = Some s' \<and> at s' gs (Nd (Nd a1 x RB_BLACK a2) o1 c (Nd or1 p RB_BLACK t)) \<and>
    outside_same s s' (tree_addrs gs (Nd (Nd (Nd a1 x e a2) o1 d or1) p c t))"
proof -
  have o: "at s (FL p c t # gs) (Nd (Nd a1 x e a2) o1 d or1)" and x: "at s (FL o1 d or1 # FL p c t # gs) (Nd a1 x e a2)" using assms by simp_all
  have "is_black x s = Some False" using read_at[OF x] at_NULL[OF x] assms(2) by (simp add: is_black_def)
  then show ?thesis using last_colors_right[OF assms(1)] read_at[OF o] read_at[OF assms(1)] by (auto simp: last_rotation_right_def skip_null_def)
qed

lemma last_rotation_left_inner:
  assumes "at s gs (Nd t p c (Nd (Nd a1 x e a2) o1 d or1))" "col or1 = RB_BLACK"
  shows "\<exists>s'. last_rotation_left p o1 s = Some s' \<and> at s' gs (Nd (Nd t p RB_BLACK a1) x c (Nd a2 o1 RB_BLACK or1)) \<and>
    outside_same s s' (tree_addrs gs (Nd t p c (Nd (Nd a1 x e a2) o1 d or1)))" (is "\<exists>s'. _ \<and> _ \<and> outside_same s s' ?A")
proof -
  have o: "at s (FR t p c # gs) (Nd (Nd a1 x e a2) o1 d or1)" using assms by simp
  from recolor2_at[OF o disjI1[OF conjI[OF refl refl]], of RB_BLACK RB_RED] obtain s1 s2 where
    s: "set_color x RB_BLACK s = Some s1" "set_color o1 RB_RED s1 = Some s2"
      "at s2 (FR t p c # gs) (Nd (Nd a1 x RB_BLACK a2) o1 RB_RED or1)" "outside_same s s2 ?A" by (auto simp: Un_ac insert_commute)
  from rotate_right_at[OF s(3)] obtain s3 where s3: "raw_rb_rotate_right o1 s2 = Some s3"
    "at s3 gs (Nd t p c (Nd a1 x RB_BLACK (Nd a2 o1 RB_RED or1)))" "outside_same s2 s3 ?A" by (auto simp: Un_ac insert_commute)
  from last_colors_left[OF s3(2)] obtain s4 s5 s6 s7 where s4: "set_color x c s3 = Some s4" "set_color p RB_BLACK s4 = Some s5"
    "nodes s5 x = Some \<lparr>rb_parent = p, rb_color = c, rb_right = o1, rb_left = ptr a1\<rparr>" "o1 \<noteq> NULL" "set_color o1 RB_BLACK s5 = Some s6"
    "raw_rb_rotate_left p s6 = Some s7" "at s7 gs (Nd (Nd t p RB_BLACK a1) x c (Nd a2 o1 RB_BLACK or1))" "outside_same s3 s7 ?A"
    by (auto simp: Un_ac insert_commute)
  have "is_black (ptr or1) s = Some True" "x \<noteq> NULL" using is_black_cells[of s o1 or1] children_at[OF o] assms(2) by auto
  then show ?thesis using s s3 s4 read_at[OF o] read_at[OF s3(2)] outside_same_trans[OF s(4) outside_same_trans[OF s3(3) s4(8)]]
    by (simp add: last_rotation_left_def skip_null_def)
qed

lemma last_rotation_right_inner:
  assumes "at s gs (Nd (Nd ol o1 d (Nd a1 x e a2)) p c t)" "col ol = RB_BLACK"
  shows "\<exists>s'. last_rotation_right p o1 s = Some s' \<and> at s' gs (Nd (Nd ol o1 RB_BLACK a1) x c (Nd a2 p RB_BLACK t)) \<and>
    outside_same s s' (tree_addrs gs (Nd (Nd ol o1 d (Nd a1 x e a2)) p c t))" (is "\<exists>s'. _ \<and> _ \<and> outside_same s s' ?A")
proof -
  have o: "at s (FL p c t # gs) (Nd ol o1 d (Nd a1 x e a2))" using assms by simp
  from recolor2_at[OF o disjI2[OF conjI[OF refl refl]], of RB_BLACK RB_RED] obtain s1 s2 where
    s: "set_color x RB_BLACK s = Some s1" "set_color o1 RB_RED s1 = Some s2"
      "at s2 (FL p c t # gs) (Nd ol o1 RB_RED (Nd a1 x RB_BLACK a2))" "outside_same s s2 ?A" by (auto simp: Un_ac insert_commute)
  from rotate_left_at[OF s(3)] obtain s3 where s3: "raw_rb_rotate_left o1 s2 = Some s3"
    "at s3 gs (Nd (Nd (Nd ol o1 RB_RED a1) x RB_BLACK a2) p c t)" "outside_same s2 s3 ?A" by (auto simp: Un_ac insert_commute)
  from last_colors_right[OF s3(2)] obtain s4 s5 s6 s7 where s4: "set_color x c s3 = Some s4" "set_color p RB_BLACK s4 = Some s5"
    "nodes s5 x = Some \<lparr>rb_parent = p, rb_color = c, rb_right = ptr a2, rb_left = o1\<rparr>" "o1 \<noteq> NULL" "set_color o1 RB_BLACK s5 = Some s6"
    "raw_rb_rotate_right p s6 = Some s7" "at s7 gs (Nd (Nd ol o1 RB_BLACK a1) x c (Nd a2 p RB_BLACK t))" "outside_same s3 s7 ?A"
    by (auto simp: Un_ac insert_commute)
  have "is_black (ptr ol) s = Some True" "x \<noteq> NULL" using is_black_cells[of s o1 ol] children_at[OF o] assms(2) by auto
  then show ?thesis using s s3 s4 read_at[OF o] read_at[OF s3(2)] outside_same_trans[OF s(4) outside_same_trans[OF s3(3) s4(8)]]
    by (simp add: last_rotation_right_def skip_null_def)
qed

text \<open>
  The loop ends at a node such that the whole tree is a red-black tree once the node is black, and
  no node has moved in the order.
\<close>

definition rebalanced :: "rb_state \<Rightarrow> frame list \<Rightarrow> rtree \<Rightarrow> (addr \<times> rb_state) option \<Rightarrow> bool" where
  "rebalanced s fs t r \<longleftrightarrow> (\<exists>s' gs u. r = Some (ptr u, s') \<and> at s' gs u \<and> rbt (plug gs (paint RB_BLACK u)) \<and>
     before gs @ inorder u @ behind gs = before fs @ inorder t @ behind fs \<and>
     outside_same s s' (set (before fs @ inorder t @ behind fs)))"

lemma rebalanced_trans:
  assumes "rebalanced s1 gs t1 r" "outside_same s s1 (set (before fs @ inorder t @ behind fs))"
    and "before gs @ inorder t1 @ behind gs = before fs @ inorder t @ behind fs"
  shows "rebalanced s fs t r"
proof -
  from assms(1) obtain s' hs u where "r = Some (ptr u, s')" "at s' hs u" "rbt (plug hs (paint RB_BLACK u))"
    "before hs @ inorder u @ behind hs = before fs @ inorder t @ behind fs" "outside_same s1 s' (set (before fs @ inorder t @ behind fs))"
    unfolding rebalanced_def assms(3) by blast
  then show ?thesis unfolding rebalanced_def using outside_same_trans[OF assms(2)] by blast
qed

lemma inorder_paint [simp]: "inorder (paint c t) = inorder t"
  by (cases t) auto

lemma paint_black: "col t = RB_BLACK \<Longrightarrow> paint RB_BLACK t = t"
  by (cases t) auto

lemma is_black_at: "at s fs t \<Longrightarrow> is_black (ptr t) s = Some (col t = RB_BLACK)"
  using is_black_cells[of s "up fs" t] by (simp add: at_def)

lemma erase_exit:
  assumes "at s fs t" "valid (paint RB_BLACK t)" "fits fs (bheight t + 1)" "col t = RB_RED \<or> col t = RB_BLACK \<and> fs = []"
  shows "rebalanced s fs t (erase_loop (ptr t) (up fs) s)"
proof -
  have "erase_loop (ptr t) (up fs) s = Some (ptr t, s)"
    using is_black_at[OF assms(1)] assms(1,4) by (subst erase_loop.simps) (auto simp: at_def)
  moreover have "rbt (plug fs (paint RB_BLACK t))"
    using assms(2-4) plug_valid[of fs "paint RB_BLACK t"] by (cases t) (auto simp: rbt_def)
  ultimately show ?thesis using assms(1) outside_same_refl unfolding rebalanced_def by blast
qed

text \<open>Ending at the root of a tree that is already in order.\<close>

lemma rebalanced_root:
  assumes "at s' gs u" "fits gs (bheight u)" "valid u" "col u = RB_RED \<longrightarrow> gs \<noteq> [] \<and> fc gs = RB_BLACK"
    and "before gs @ inorder u @ behind gs = before fs @ inorder t @ behind fs" "outside_same s s' (set (before fs @ inorder t @ behind fs))"
  shows "rebalanced s fs t (Some (rb_root_f s', s'))"
proof -
  have "tree_at s' (plug gs u)" "rbt (plug gs u)" using assms(1) plug_valid[OF assms(2-4)] by (simp_all add: at_tree)
  moreover have "rb_root_f s' = ptr (plug gs u)" using calculation(1) by (simp add: tree_at_def at_def)
  moreover have "paint RB_BLACK (plug gs u) = plug gs u" using calculation(2) by (simp add: rbt_def paint_black)
  ultimately show ?thesis unfolding rebalanced_def using assms(5,6)
    by (intro exI[of _ s'] exI[of _ "[]"] exI[of _ "plug gs u"]) (simp add: tree_at_def inorder_plug)
qed

text \<open>The position of the parent, when the node is one black level short.\<close>

definition short_below :: "frame list \<Rightarrow> int \<Rightarrow> nat \<Rightarrow> bool" where
  "short_below gs c n \<longleftrightarrow> c = RB_BLACK \<and> fits gs (n + 2) \<or> c = RB_RED \<and> gs \<noteq> [] \<and> fc gs = RB_BLACK \<and> fits gs (n + 1)"

lemma tail_left:
  assumes "at s gs (Nd t p c (Nd ol o1 RB_BLACK or1))" "valid t" "col t = RB_BLACK" "valid (Nd ol o1 RB_BLACK or1)"
    and "bheight (Nd ol o1 RB_BLACK or1) = bheight t + 1" "short_below gs c (bheight t)"
    and IH: "\<And>s'. at s' gs (Nd t p c (Nd ol o1 RB_RED or1)) \<Longrightarrow> col ol = RB_BLACK \<Longrightarrow> col or1 = RB_BLACK \<Longrightarrow>
      rebalanced s' gs (Nd t p c (Nd ol o1 RB_RED or1)) (erase_loop p (up gs) s')"
  shows "rebalanced s (FL p c (Nd ol o1 RB_BLACK or1) # gs) t (do {
      b \<leftarrow> both_black o1 s;
      if b then do { s \<leftarrow> set_color o1 RB_RED s; n \<leftarrow> nodes s p; erase_loop p (rb_parent n) s }
      else do { s \<leftarrow> last_rotation_left p o1 s; Some (rb_root_f s, s) } })" (is "rebalanced s ?fs t ?r")
proof -
  have o: "at s (FR t p c # gs) (Nd ol o1 RB_BLACK or1)" using assms(1) by simp
  note b = both_black_at[OF o]
  have A: "tree_addrs gs (Nd t p c (Nd ol o1 RB_BLACK or1)) = set (before ?fs @ inorder t @ behind ?fs)" by (auto simp: faddrs_set)
  consider (both) "col ol = RB_BLACK" "col or1 = RB_BLACK" | (outer) a1 x a2 where "or1 = Nd a1 x RB_RED a2"
    | (inner) a1 x a2 where "ol = Nd a1 x RB_RED a2" "col or1 = RB_BLACK"
    using assms(4) valid_col[of ol] valid_col[of or1] by (cases ol; cases or1) auto
  then show ?thesis
  proof cases
    case both
    from color_at[OF o, of RB_RED] obtain s1 where s1: "set_color o1 RB_RED s = Some s1" "at s1 gs (Nd t p c (Nd ol o1 RB_RED or1))"
      "outside_same s s1 (tree_addrs gs (Nd t p c (Nd ol o1 RB_BLACK or1)))" by (auto simp: Un_ac insert_commute)
    then have r: "?r = erase_loop p (up gs) s1" using b both read_at[OF s1(2)] by simp
    show ?thesis unfolding r
      by (rule rebalanced_trans[OF IH[OF s1(2) both]]) (use s1(3) A in auto)
  next
    case outer
    from last_rotation_left_outer[of s gs t p c ol o1 RB_BLACK] assms(1) outer obtain s' where
      s': "last_rotation_left p o1 s = Some s'" "at s' gs (Nd (Nd t p RB_BLACK ol) o1 c (Nd a1 x RB_BLACK a2))"
        "outside_same s s' (tree_addrs gs (Nd t p c (Nd ol o1 RB_BLACK or1)))" by fastforce
    then have r: "?r = Some (rb_root_f s', s')" using b outer by simp
    show ?thesis unfolding r
      by (rule rebalanced_root[OF s'(2)]) (use s'(3)[unfolded A] assms(2-6) outer valid_col[of ol] in \<open>auto simp: short_below_def\<close>)
  next
    case inner
    from last_rotation_left_inner[of s gs t p c _ _ _ _ o1 RB_BLACK or1] assms(1) inner obtain s' where
      s': "last_rotation_left p o1 s = Some s'" "at s' gs (Nd (Nd t p RB_BLACK a1) x c (Nd a2 o1 RB_BLACK or1))"
        "outside_same s s' (tree_addrs gs (Nd t p c (Nd ol o1 RB_BLACK or1)))" by fastforce
    then have r: "?r = Some (rb_root_f s', s')" using b inner by simp
    show ?thesis unfolding r
      by (rule rebalanced_root[OF s'(2)]) (use s'(3)[unfolded A] assms(2-6) inner in \<open>auto simp: short_below_def\<close>)
  qed
qed

lemma tail_right:
  assumes "at s gs (Nd (Nd ol o1 RB_BLACK or1) p c t)" "valid t" "col t = RB_BLACK" "valid (Nd ol o1 RB_BLACK or1)"
    and "bheight (Nd ol o1 RB_BLACK or1) = bheight t + 1" "short_below gs c (bheight t)"
    and IH: "\<And>s'. at s' gs (Nd (Nd ol o1 RB_RED or1) p c t) \<Longrightarrow> col ol = RB_BLACK \<Longrightarrow> col or1 = RB_BLACK \<Longrightarrow>
      rebalanced s' gs (Nd (Nd ol o1 RB_RED or1) p c t) (erase_loop p (up gs) s')"
  shows "rebalanced s (FR (Nd ol o1 RB_BLACK or1) p c # gs) t (do {
      b \<leftarrow> both_black o1 s;
      if b then do { s \<leftarrow> set_color o1 RB_RED s; n \<leftarrow> nodes s p; erase_loop p (rb_parent n) s }
      else do { s \<leftarrow> last_rotation_right p o1 s; Some (rb_root_f s, s) } })" (is "rebalanced s ?fs t ?r")
proof -
  have o: "at s (FL p c t # gs) (Nd ol o1 RB_BLACK or1)" using assms(1) by simp
  note b = both_black_at[OF o]
  have A: "tree_addrs gs (Nd (Nd ol o1 RB_BLACK or1) p c t) = set (before ?fs @ inorder t @ behind ?fs)" by (auto simp: faddrs_set)
  consider (both) "col ol = RB_BLACK" "col or1 = RB_BLACK" | (outer) a1 x a2 where "ol = Nd a1 x RB_RED a2"
    | (inner) a1 x a2 where "or1 = Nd a1 x RB_RED a2" "col ol = RB_BLACK"
    using assms(4) valid_col[of ol] valid_col[of or1] by (cases ol; cases or1) auto
  then show ?thesis
  proof cases
    case both
    from color_at[OF o, of RB_RED] obtain s1 where s1: "set_color o1 RB_RED s = Some s1" "at s1 gs (Nd (Nd ol o1 RB_RED or1) p c t)"
      "outside_same s s1 (tree_addrs gs (Nd (Nd ol o1 RB_BLACK or1) p c t))" by (auto simp: Un_ac insert_commute)
    then have r: "?r = erase_loop p (up gs) s1" using b both read_at[OF s1(2)] by simp
    show ?thesis unfolding r
      by (rule rebalanced_trans[OF IH[OF s1(2) both]]) (use s1(3) A in auto)
  next
    case outer
    from last_rotation_right_outer[of s gs _ _ _ _ o1 RB_BLACK or1 p c t] assms(1) outer obtain s' where
      s': "last_rotation_right p o1 s = Some s'" "at s' gs (Nd (Nd a1 x RB_BLACK a2) o1 c (Nd or1 p RB_BLACK t))"
        "outside_same s s' (tree_addrs gs (Nd (Nd ol o1 RB_BLACK or1) p c t))" by fastforce
    then have r: "?r = Some (rb_root_f s', s')" using b outer by simp
    show ?thesis unfolding r
      by (rule rebalanced_root[OF s'(2)]) (use s'(3)[unfolded A] assms(2-6) outer valid_col[of or1] in \<open>auto simp: short_below_def\<close>)
  next
    case inner
    from last_rotation_right_inner[of s gs ol o1 RB_BLACK _ _ _ _ p c t] assms(1) inner obtain s' where
      s': "last_rotation_right p o1 s = Some s'" "at s' gs (Nd (Nd ol o1 RB_BLACK a1) x c (Nd a2 p RB_BLACK t))"
        "outside_same s s' (tree_addrs gs (Nd (Nd ol o1 RB_BLACK or1) p c t))" by fastforce
    then have r: "?r = Some (rb_root_f s', s')" using b inner by simp
    show ?thesis unfolding r
      by (rule rebalanced_root[OF s'(2)]) (use s'(3)[unfolded A] assms(2-6) inner in \<open>auto simp: short_below_def\<close>)
  qed
qed

lemma topmost_mem: "topmost q fs \<in> set (q # faddrs fs)"
  by (induction fs arbitrary: q rule: faddrs.induct) auto

text \<open>One round of the loop, given that it is right from the position of the parent on.\<close>

lemma round_left:
  assumes "at s (FL p c w # gs) t" "valid t" "col t = RB_BLACK" "fits (FL p c w # gs) (bheight t + 1)"
    and IH: "\<And>s' t'. at s' gs t' \<Longrightarrow> valid (paint RB_BLACK t') \<Longrightarrow> col t' = RB_BLACK \<or> col t' = RB_RED \<Longrightarrow>
      fits gs (bheight t' + 1) \<Longrightarrow> rebalanced s' gs t' (erase_loop (ptr t') (up gs) s')"
  shows "rebalanced s (FL p c w # gs) t (erase_loop (ptr t) p s)"
proof -
  have P: "at s gs (Nd t p c w)" using assms(1) by simp
  have pos: "0 < bheight w" "valid w" "bheight w = bheight t + 1" using assms(4) by auto
  obtain ol o1 d or1 where w: "w = Nd ol o1 d or1" using pos by (cases w) auto
  have o: "at s (FR t p c # gs) (Nd ol o1 d or1)" using P w by simp
  have "ptr t \<noteq> rb_root_f s" using P topmost_mem[of p gs] by (cases t) (auto simp: at_def)
  then have r: "erase_loop (ptr t) p s = do {
      (other, s) \<leftarrow> red_sibling_left p s;
      b \<leftarrow> both_black other s;
      if b then do { s \<leftarrow> set_color other RB_RED s; n \<leftarrow> nodes s p; erase_loop p (rb_parent n) s }
      else do { s \<leftarrow> last_rotation_left p other s; Some (rb_root_f s, s) } }"
    using is_black_at[OF assms(1)] assms(3) read_at[OF P] by (subst erase_loop.simps) simp
  show ?thesis
  proof (cases "d = RB_RED")
    case False
    then have d: "d = RB_BLACK" using pos w by auto
    have "red_sibling_left p s = Some (o1, s)" using read_at[OF P] read_at[OF o] w False by (simp add: red_sibling_left_def Let_def)
    moreover have "short_below gs c (bheight t)" using assms(4) by (auto simp: short_below_def)
    ultimately show ?thesis unfolding r w d
      using tail_left[OF P[unfolded w d] assms(2,3)] pos assms(4) IH[of _ "Nd t p c (Nd ol o1 RB_RED or1)"] assms(2,3) w d
      by (auto simp: short_below_def)
  next
    case True
    from red_sibling_left_at[OF P[unfolded w True]] obtain s1 where s1: "red_sibling_left p s = Some (ptr ol, s1)"
      "at s1 gs (Nd (Nd t p RB_RED ol) o1 RB_BLACK or1)" "outside_same s s1 (tree_addrs gs (Nd t p c w))" using w True by auto
    obtain a1 x a2 where ol: "ol = Nd a1 x RB_BLACK a2" "valid ol" "bheight ol = bheight t + 1" "valid or1" "bheight or1 = bheight t + 1" "col or1 = RB_BLACK"
      using pos w True by (cases ol) auto
    have c: "c = RB_BLACK" "fits gs (bheight t + 2)" using assms(4) w True by auto
    let ?gs = "FL o1 RB_BLACK or1 # gs"
    have at1: "at s1 ?gs (Nd t p RB_RED (Nd a1 x RB_BLACK a2))" using s1(2) ol by simp
    have "rebalanced s1 (FL p RB_RED (Nd a1 x RB_BLACK a2) # ?gs) t (erase_loop (ptr t) p s)"
      unfolding r s1(1) using ol
    proof (simp, intro tail_left[OF at1 assms(2,3), simplified])
      fix s' assume a: "at s' gs (Nd (Nd t p RB_RED (Nd a1 x RB_RED a2)) o1 RB_BLACK or1)" "col a1 = RB_BLACK" "col a2 = RB_BLACK"
      then have "at s' ?gs (Nd t p RB_RED (Nd a1 x RB_RED a2))" by simp
      from erase_exit[OF this] a show "rebalanced s' ?gs (Nd t p RB_RED (Nd a1 x RB_RED a2)) (erase_loop p o1 s')"
        using ol assms(2,3) c by simp
    qed (use ol c in \<open>auto simp: short_below_def\<close>)
    then show ?thesis by (rule rebalanced_trans) (use s1(3) ol w in \<open>auto simp: faddrs_set Un_ac insert_commute\<close>)
  qed
qed

lemma round_right:
  assumes "at s (FR w p c # gs) t" "valid t" "col t = RB_BLACK" "fits (FR w p c # gs) (bheight t + 1)"
    and IH: "\<And>s' t'. at s' gs t' \<Longrightarrow> valid (paint RB_BLACK t') \<Longrightarrow> col t' = RB_BLACK \<or> col t' = RB_RED \<Longrightarrow>
      fits gs (bheight t' + 1) \<Longrightarrow> rebalanced s' gs t' (erase_loop (ptr t') (up gs) s')"
  shows "rebalanced s (FR w p c # gs) t (erase_loop (ptr t) p s)"
proof -
  have P: "at s gs (Nd w p c t)" using assms(1) by simp
  have pos: "0 < bheight w" "valid w" "bheight w = bheight t + 1" using assms(4) by auto
  obtain ol o1 d or1 where w: "w = Nd ol o1 d or1" using pos by (cases w) auto
  have o: "at s (FL p c t # gs) (Nd ol o1 d or1)" using P w by simp
  have "ptr t \<noteq> rb_root_f s" using P topmost_mem[of p gs] by (cases t) (auto simp: at_def)
  moreover have "ptr w \<noteq> ptr t" using at_NULL[OF P] w by auto
  ultimately have r: "erase_loop (ptr t) p s = do {
      (other, s) \<leftarrow> red_sibling_right p s;
      b \<leftarrow> both_black other s;
      if b then do { s \<leftarrow> set_color other RB_RED s; n \<leftarrow> nodes s p; erase_loop p (rb_parent n) s }
      else do { s \<leftarrow> last_rotation_right p other s; Some (rb_root_f s, s) } }"
    using is_black_at[OF assms(1)] assms(3) read_at[OF P] by (subst erase_loop.simps) simp
  show ?thesis
  proof (cases "d = RB_RED")
    case False
    then have d: "d = RB_BLACK" using pos w by auto
    have "red_sibling_right p s = Some (o1, s)" using read_at[OF P] read_at[OF o] w False by (simp add: red_sibling_right_def Let_def)
    moreover have "short_below gs c (bheight t)" using assms(4) by (auto simp: short_below_def)
    ultimately show ?thesis unfolding r w d
      using tail_right[OF P[unfolded w d] assms(2,3)] pos assms(4) IH[of _ "Nd (Nd ol o1 RB_RED or1) p c t"] assms(2,3) w d
      by (auto simp: short_below_def)
  next
    case True
    from red_sibling_right_at[OF P[unfolded w True]] obtain s1 where s1: "red_sibling_right p s = Some (ptr or1, s1)"
      "at s1 gs (Nd ol o1 RB_BLACK (Nd or1 p RB_RED t))" "outside_same s s1 (tree_addrs gs (Nd w p c t))" using w True by auto
    obtain a1 x a2 where or1: "or1 = Nd a1 x RB_BLACK a2" "valid or1" "bheight or1 = bheight t + 1" "valid ol" "bheight ol = bheight t + 1" "col ol = RB_BLACK"
      using pos w True by (cases or1) auto
    have c: "c = RB_BLACK" "fits gs (bheight t + 2)" using assms(4) w True by auto
    let ?gs = "FR ol o1 RB_BLACK # gs"
    have at1: "at s1 ?gs (Nd (Nd a1 x RB_BLACK a2) p RB_RED t)" using s1(2) or1 by simp
    have "rebalanced s1 (FR (Nd a1 x RB_BLACK a2) p RB_RED # ?gs) t (erase_loop (ptr t) p s)"
      unfolding r s1(1) using or1
    proof (simp, intro tail_right[OF at1 assms(2,3), simplified])
      fix s' assume a: "at s' gs (Nd ol o1 RB_BLACK (Nd (Nd a1 x RB_RED a2) p RB_RED t))" "col a1 = RB_BLACK" "col a2 = RB_BLACK"
      then have "at s' ?gs (Nd (Nd a1 x RB_RED a2) p RB_RED t)" by simp
      from erase_exit[OF this] a show "rebalanced s' ?gs (Nd (Nd a1 x RB_RED a2) p RB_RED t) (erase_loop p o1 s')"
        using or1 assms(2,3) c by simp
    qed (use or1 c in \<open>auto simp: short_below_def\<close>)
    then show ?thesis by (rule rebalanced_trans) (use s1(3) or1 w in \<open>auto simp: faddrs_set Un_ac insert_commute\<close>)
  qed
qed

lemma erase_loop_rebalances:
  assumes "at s fs t" "valid (paint RB_BLACK t)" "col t = RB_BLACK \<or> col t = RB_RED" "fits fs (bheight t + 1)"
  shows "rebalanced s fs t (erase_loop (ptr t) (up fs) s)"
  using assms
proof (induction fs arbitrary: s t)
  case Nil
  then show ?case using erase_exit[of s "[]" t] by auto
next
  case (Cons f fs)
  show ?case
  proof (cases "col t = RB_RED")
    case True
    then show ?thesis using Cons.prems by (intro erase_exit) auto
  next
    case False
    then have t: "col t = RB_BLACK" "valid t" using Cons.prems paint_black[of t] by auto
    show ?thesis
    proof (cases f)
      case (FL p c w)
      show ?thesis using round_left[of s p c w fs t] Cons t FL by simp
    next
      case (FR w p c)
      show ?thesis using round_right[of s w p c fs t] Cons t FR by simp
    qed
  qed
qed

lemma erase_color_at:
  assumes "at s fs t" "valid t" "fits fs (bheight t + 1)"
  shows "\<exists>s' t'. raw_rb_erase_color (ptr t) (up fs) s = Some s' \<and> tree_at s' t' \<and> rbt t' \<and>
    inorder t' = before fs @ inorder t @ behind fs \<and> outside_same s s' (set (before fs @ inorder t @ behind fs))"
proof -
  have "valid (paint RB_BLACK t)" using assms(2) by (cases t) auto
  from erase_loop_rebalances[OF assms(1) this valid_col[OF assms(2)] assms(3)] obtain s1 gs u where
    u: "erase_loop (ptr t) (up fs) s = Some (ptr u, s1)" "at s1 gs u" "rbt (plug gs (paint RB_BLACK u))"
      "before gs @ inorder u @ behind gs = before fs @ inorder t @ behind fs"
      "outside_same s s1 (set (before fs @ inorder t @ behind fs))" unfolding rebalanced_def by blast
  show ?thesis
  proof (cases u)
    case Lf
    then show ?thesis using u by (auto simp: raw_rb_erase_color_def skip_null_def at_tree inorder_plug)
  next
    case (Nd l a c r)
    from color_at[OF u(2)[unfolded Nd], of RB_BLACK] obtain s2 where s2: "set_color a RB_BLACK s1 = Some s2"
      "at s2 gs (paint RB_BLACK u)" "outside_same s1 s2 (tree_addrs gs u)" using Nd by auto
    have "outside_same s s2 (set (before fs @ inorder t @ behind fs))"
      using outside_same_trans[OF u(5)] s2(3) u(4) by (simp only: tree_addrs_alt)
    then show ?thesis using u s2 Nd at_NULL[OF u(2)[unfolded Nd]]
      by (intro exI[of _ s2] exI[of _ "plug gs (paint RB_BLACK u)"]) (auto simp: raw_rb_erase_color_def skip_null_def at_tree inorder_plug)
  qed
qed

section \<open>Removal\<close>

text \<open>The rebalancing after a node of colour \<open>d\<close> has left the position of \<open>t\<close>.\<close>

lemma erase_finish:
  assumes "at s fs t" "valid t" "fits fs (bheight t + (if d = RB_BLACK then 1 else 0))" "d = RB_BLACK \<or> col t = RB_BLACK"
  shows "\<exists>s' t'. (if d = RB_BLACK then raw_rb_erase_color (ptr t) (up fs) s else Some s) = Some s' \<and> tree_at s' t' \<and> rbt t' \<and>
    inorder t' = before fs @ inorder t @ behind fs \<and> outside_same s s' (set (before fs @ inorder t @ behind fs))"
proof (cases "d = RB_BLACK")
  case True
  then show ?thesis using erase_color_at[OF assms(1,2)] assms(3) by simp
next
  case False
  then have "rbt (plug fs t)" using assms(2-4) by (intro plug_valid) auto
  then show ?thesis using assms(1) False by (auto simp: at_tree inorder_plug)
qed

lemma fits_addr: "fits (gs @ FR l z c # fs) n = fits (gs @ FR l y c # fs) n" "gs @ FR l z c # fs \<noteq> []"
  "fc (gs @ FR l z c # fs) = fc (gs @ FR l y c # fs)"
proof -
  show fc: "fc (gs @ FR l z c # fs) = fc (gs @ FR l y c # fs)" for gs by (cases gs) auto
  show "fits (gs @ FR l z c # fs) n = fits (gs @ FR l y c # fs) n"
  proof (induction gs arbitrary: n)
    case (Cons f gs)
    then show ?case by (cases f) (simp_all add: fc)
  qed simp
qed simp

lemma leftmost_position: "t \<noteq> Lf \<Longrightarrow> \<exists>gs y d w. t = plug gs (Nd Lf y d w) \<and> before gs = [] \<and> y = hd (inorder t)"
proof (induction t)
  case (Nd l a c r)
  show ?case
  proof (cases "l = Lf")
    case True
    then show ?thesis by (intro exI[of _ "[]"] exI[of _ a] exI[of _ c] exI[of _ r]) simp
  next
    case False
    then obtain gs y d w where l: "l = plug gs (Nd Lf y d w)" "before gs = []" "y = hd (inorder l)" using Nd.IH(1) by blast
    have "before (gs @ [FL a c r]) = []" using l(2) by (induction gs rule: before.induct) auto
    then show ?thesis using l False
      by (intro exI[of _ "gs @ [FL a c r]"] exI[of _ y] exI[of _ d] exI[of _ w]) (simp add: plug_append)
  qed
qed simp

lemma up_append: "up (gs @ FR l z c # fs) = (if gs = [] then z else up gs)"
  by (cases gs) auto

text \<open>A node with at most one child.\<close>

lemma erase_one:
  assumes "at s fs (Nd l z c r)" "rbt (plug fs (Nd l z c r))" "l = Lf \<and> t = r \<or> r = Lf \<and> t = l"
  shows "\<exists>s' t'. rb_erase z s = Some s' \<and> tree_at s' t' \<and> rbt t' \<and> inorder t' = before fs @ inorder l @ inorder r @ behind fs \<and>
    outside_same s s' (tree_addrs fs (Nd l z c r))"
proof -
  from splice_at[OF assms(1,3)] obtain s1 where s1: "splice_out z (ptr t) (up fs) s = Some s1" "at s1 fs t"
    "outside_same s s1 (set (inorder t) \<union> set (faddrs fs))" by blast
  have f: "valid (Nd l z c r)" "fits fs (bheight (Nd l z c r))" using plug_valid_conv[OF assms(2)] by auto
  then obtain s' t' where s': "(if c = RB_BLACK then raw_rb_erase_color (ptr t) (up fs) s1 else Some s1) = Some s'" "tree_at s' t'" "rbt t'"
    "inorder t' = before fs @ inorder t @ behind fs" "outside_same s1 s' (set (before fs @ inorder t @ behind fs))"
    using erase_finish[OF s1(2), of c] assms(3) by auto
  have "outside_same s s' (tree_addrs fs (Nd l z c r))" using s1(3) s'(5) assms(3) by (auto simp: outside_same_def faddrs_set)
  moreover have "rb_erase z s = Some s'"
    using s1(1) s'(1) assms(3) read_at[OF assms(1)] children_at[OF assms(1)] by (auto simp: rb_erase_def Let_def ptr_NULL)
  ultimately show ?thesis using s' assms(3) by auto
qed

lemma erase_two:
  assumes "at s fs (Nd l z c r)" "rbt (plug fs (Nd l z c r))" "l \<noteq> Lf" "r \<noteq> Lf"
  shows "\<exists>s' t'. rb_erase z s = Some s' \<and> tree_at s' t' \<and> rbt t' \<and> inorder t' = before fs @ inorder l @ inorder r @ behind fs \<and>
    outside_same s s' (tree_addrs fs (Nd l z c r))"
proof -
  obtain gs y d w where r: "r = plug gs (Nd Lf y d w)" "before gs = []" "y = hd (inorder r)" using leftmost_position[OF assms(4)] by blast
  let ?fs = "gs @ FR l z c # fs" and ?gs = "gs @ FR l y c # fs"
  have at: "at s ?fs (Nd Lf y d w)" using assms(1) r(1) by (simp add: at_plug)
  have io: "inorder r = y # inorder w @ behind gs" using r(1,2) by (simp add: inorder_plug)
  have d: "distinct (inorder l @ z # inorder r @ faddrs fs)" "NULL \<notin> set (inorder l @ z # inorder r @ faddrs fs)"
    using assms(1) by (auto simp: at_def)
  have lm: "leftmost (ptr r) s = Some y" using leftmost_cells[of s z r] children_at[OF assms(1)] assms(4) r(3) by simp
  from splice_at[OF at, of w] obtain s1 where s1: "splice_out y (ptr w) (up ?fs) s = Some s1" "at s1 ?fs w"
    "outside_same s s1 (set (inorder w) \<union> set (faddrs ?fs))" by auto
  have T: "set (inorder w) \<union> set (faddrs ?fs) \<subseteq> tree_addrs fs (Nd l z c r)" "y \<notin> set (inorder w) \<union> set (faddrs ?fs)"
    using tree_addrs_plug[where fs = ?fs and t = "Nd Lf y d w"] tree_addrs_plug[where fs = fs and t = "Nd l z c r"] r(1) at
    by (auto simp: plug_append at_def)
  then have y1: "nodes s1 y = nodes s y" using s1(3) by (simp add: outside_same_def)
  have z1: "at s1 fs (Nd l z c (plug gs w))" using s1(2) by (simp add: at_plug)
  have ny: "y \<noteq> NULL" "y \<notin> tree_addrs fs (Nd l z c (plug gs w))"
    using T(2) at tree_addrs_plug[where fs = ?fs and t = w] tree_addrs_plug[where fs = fs and t = "Nd l z c (plug gs w)"]
    by (auto simp: plug_append at_def)
  from take_over_at[OF z1 assms(3) ny] y1 read_at[OF at] obtain s2 where s2: "take_over y z s1 = Some s2" "at s2 fs (Nd l y c (plug gs w))"
    "outside_same s1 s2 (insert y (tree_addrs fs (Nd l z c (plug gs w))))" by auto
  then have at2: "at s2 ?gs w" by (simp add: at_plug)
  have "rbt (plug ?fs (Nd Lf y d w))" using assms(2) r(1) by (simp add: plug_append)
  from plug_valid_conv[OF this] have f: "valid (Nd Lf y d w)" "fits ?gs (bheight (Nd Lf y d w))" using fits_addr(1)[of gs l z c fs _ y] by auto
  then obtain s' t' where s': "(if d = RB_BLACK then raw_rb_erase_color (ptr w) (up ?gs) s2 else Some s2) = Some s'" "tree_at s' t'" "rbt t'"
    "inorder t' = before ?gs @ inorder w @ behind ?gs" "outside_same s2 s' (set (before ?gs @ inorder w @ behind ?gs))"
    using erase_finish[OF at2, of d] by auto
  have ba: "before ?gs = before fs @ inorder l @ [y]" "behind ?gs = behind gs @ behind fs"
    using r(2) by (induction gs rule: before.induct) auto
  have "gs \<noteq> [] \<Longrightarrow> up gs \<noteq> z" using up_mem[of gs] d io by (auto simp: faddrs_set r(2))
  then have "rb_erase z s = Some s'"
    using read_at[OF assms(1)] children_at[OF assms(1)] assms(3,4) lm read_at[OF at] y1 s1(1) s2(1) s'(1)[unfolded up_append]
    by (cases "gs = []") (auto simp: rb_erase_def Let_def ptr_NULL up_append)
  moreover have "outside_same s s' (tree_addrs fs (Nd l z c r))"
  proof -
    have "insert y (tree_addrs fs (Nd l z c (plug gs w))) \<subseteq> tree_addrs fs (Nd l z c r)" "set (before ?gs @ inorder w @ behind ?gs) \<subseteq> tree_addrs fs (Nd l z c r)"
      using ba io r(2) by (auto simp: inorder_plug faddrs_set)
    note sub = this T(1)
    show ?thesis unfolding outside_same_def
    proof (intro allI impI)
      fix a assume a: "a \<notin> tree_addrs fs (Nd l z c r)"
      have "nodes s1 a = nodes s a" using s1(3) sub(3) a unfolding outside_same_def by blast
      moreover have "nodes s2 a = nodes s1 a" using s2(3) sub(1) a unfolding outside_same_def by blast
      moreover have "nodes s' a = nodes s2 a" using s'(5) sub(2) a unfolding outside_same_def by blast
      ultimately show "nodes s' a = nodes s a" by simp
    qed
  qed
  ultimately show ?thesis using s'(2-4) ba io by auto
qed

section \<open>Properties\<close>

text \<open>A root at 16 with a right child at 32, and two free nodes at 48 and 64.\<close>

definition ex_node :: "addr \<Rightarrow> int \<Rightarrow> addr \<Rightarrow> addr \<Rightarrow> rb_node" where
  "ex_node p c r l = \<lparr>rb_parent = p, rb_color = c, rb_right = r, rb_left = l\<rparr>"

definition ex_rb :: rb_state where
  "ex_rb = \<lparr>nodes = [16 \<mapsto> ex_node 0 1 32 0, 32 \<mapsto> ex_node 16 0 0 0, 48 \<mapsto> ex_node 0 0 0 0, 64 \<mapsto> ex_node 0 0 0 0], rb_root_f = 16\<rparr>"

definition ex_tree :: rtree where
  "ex_tree = Nd Lf 16 RB_BLACK (Nd Lf 32 RB_RED Lf)"

lemma ex_rb_ok: "tree_at ex_rb ex_tree" "rbt ex_tree" "inorder ex_tree = [16, 32]"
  by (simp_all add: tree_at_def at_def ex_rb_def ex_tree_def ex_node_def rbt_def RB_BLACK_def RB_RED_def)



text \<open>
  C4: Removal. \<open>rb_erase\<close> of any node of a red-black tree in memory returns without an access outside
  the nodes, and the memory represents a red-black tree with the remaining nodes in the same
  order. Nodes outside the tree are not written.
\<close>
theorem rb_erase_correct:
  assumes "tree_at s t" "rbt t" "inorder t = xs @ z # ys"
  shows "\<exists>s' t'. rb_erase z s = Some s' \<and> tree_at s' t' \<and> rbt t' \<and> inorder t' = xs @ ys \<and>
    (\<forall>a. a \<notin> set (inorder t) \<longrightarrow> nodes s' a = nodes s a)"
proof -
  obtain fs l c r where t: "t = plug fs (Nd l z c r)" and at: "at s fs (Nd l z c r)" and
    xy: "xs = before fs @ inorder l" "ys = inorder r @ behind fs" by (rule position_split[OF assms(1,3)])
  have rb: "rbt (plug fs (Nd l z c r))" using assms(2) t by simp
  have "\<exists>s' t'. rb_erase z s = Some s' \<and> tree_at s' t' \<and> rbt t' \<and> inorder t' = before fs @ inorder l @ inorder r @ behind fs \<and>
    outside_same s s' (tree_addrs fs (Nd l z c r))"
    using erase_one[OF at rb, of r] erase_one[OF at rb, of l] erase_two[OF at rb] by (cases "l = Lf"; cases "r = Lf") simp_all
  then show ?thesis unfolding t tree_addrs_plug outside_same_def using xy by auto
qed

text \<open>Witness: the root, whose successor takes its place.\<close>
theorem rb_erase_correct_witness:
  "\<exists>s' t'. rb_erase 16 ex_rb = Some s' \<and> tree_at s' t' \<and> rbt t' \<and> inorder t' = [32]"
  using rb_erase_correct[OF ex_rb_ok(1,2), of "[]" 16 "[32]"] ex_rb_ok(3) by auto

text \<open>
  C5: Traversal. The loop from \<open>rb_first\<close> along \<open>rb_next\<close> visits exactly the nodes of the tree in their
  order and ends; \<open>rb_last\<close> is the last of them, and \<open>rb_prev\<close> inverts \<open>rb_next\<close>.
\<close>
theorem rb_traversal:
  assumes "tree_at s t"
  shows "Option.bind (rb_first s) (\<lambda>p. visit p s) = Some (inorder t) \<and>
    rb_last s = Some (if t = Lf then NULL else last (inorder t)) \<and>
    (\<forall>xs a b ys. inorder t = xs @ a # b # ys \<longrightarrow> rb_next a s = Some b \<and> rb_prev b s = Some a)"
proof (intro conjI allI impI)
  show "Option.bind (rb_first s) (\<lambda>p. visit p s) = Some (inorder t)"
    using rb_first_last(1)[OF assms] visit_from[OF assms, of "[]" "inorder t"] by simp
  show "rb_last s = Some (if t = Lf then NULL else last (inorder t))"
    using rb_first_last(2)[OF assms] head0_hd[of "rev (inorder t)" "[]"] by (simp add: hd_rev)
  fix xs a b ys assume e: "inorder t = xs @ a # b # ys"
  show "rb_next a s = Some b" using neighbours(1)[OF assms e] by simp
  show "rb_prev b s = Some a" using neighbours(2)[OF assms, of "xs @ [a]" b ys] e by simp
qed

text \<open>Witness: the two nodes of the example.\<close>
theorem rb_traversal_witness:
  "Option.bind (rb_first ex_rb) (\<lambda>p. visit p ex_rb) = Some [16, 32] \<and> rb_last ex_rb = Some 32 \<and> rb_next 16 ex_rb = Some 32 \<and> rb_prev 32 ex_rb = Some 16"
proof -
  note T = rb_traversal[OF ex_rb_ok(1), unfolded ex_rb_ok(3)]
  have "[16, 32] = [] @ 16 # 32 # [] \<longrightarrow> rb_next 16 ex_rb = Some 32 \<and> rb_prev 32 ex_rb = Some 16" using T by blast
  then show ?thesis using T by (simp add: ex_tree_def)
qed

text \<open>
  Replacement. \<open>rb_replace_node\<close> puts a new node into the place of another: the tree keeps its
  shape and its colours, so the order is the same with the one node exchanged.
\<close>
theorem rb_replace_correct:
  assumes "tree_at s t" "rbt t" "inorder t = xs @ v # ys" "n \<noteq> NULL" "nodes s n \<noteq> None" "n \<notin> set (inorder t)"
  shows "\<exists>s' t'. rb_replace_node v n s = Some s' \<and> tree_at s' t' \<and> rbt t' \<and> inorder t' = xs @ n # ys \<and>
    (\<forall>a. a \<notin> insert n (set (inorder t)) \<longrightarrow> nodes s' a = nodes s a)"
proof -
  obtain fs l c r where t: "t = plug fs (Nd l v c r)" and at: "at s fs (Nd l v c r)" and
    xy: "xs = before fs @ inorder l" "ys = inorder r @ behind fs" by (rule position_split[OF assms(1,3)])
  have n: "n \<notin> tree_addrs fs (Nd l v c r)" unfolding tree_addrs_plug using assms(6) t by simp
  from replace_at[OF at assms(4) n assms(5)] obtain s' where s': "rb_replace_node v n s = Some s'" "at s' fs (Nd l n c r)"
    "outside_same s s' (insert n (tree_addrs fs (Nd l v c r)))" by blast
  have "rbt (plug fs (Nd l n c r))" using plug_valid_conv[OF assms(2)[unfolded t]] by (intro plug_valid) auto
  then show ?thesis using s' xy unfolding t tree_addrs_plug outside_same_def by (auto simp: at_tree inorder_plug)
qed

text \<open>Witness: the node at 64 replaces the root.\<close>
theorem rb_replace_correct_witness:
  "\<exists>s' t'. rb_replace_node 16 64 ex_rb = Some s' \<and> tree_at s' t' \<and> rbt t' \<and> inorder t' = [64, 32]"
  using rb_replace_correct[OF ex_rb_ok(1,2), of "[]" 16 "[32]" 64] ex_rb_ok(3) by (auto simp: ex_rb_def)

end
