(* ===== verification/Clist.thy ===== *)
theory Clist
  imports Klist
begin

text \<open>
  The timer and the UDP modules are written over the list operations of a header
  \<^verbatim>\<open>clist.h\<close> that is not part of the repository. The operations are therefore a
  parameter of the models: a record \<open>clist_ops\<close> over an abstract memory of list nodes. The locale
  \<open>clist_laws\<close> states what the modules rely on: the lists are circular, the head is the end
  marker (the modules initialise a head with its own address and stop a walk at
  \<open>list_end\<close>), a new node goes to the front, to the back or in front of a given position, and
  operations on one list leave the others alone. The locale is interpreted on the operations of
  \<^verbatim>\<open>datastruct/list.h\<close>, the list of the same shape the repository does contain.
\<close>

section \<open>The operations and their contract\<close>

record 'h clist_ops =
  cl_init :: "addr \<Rightarrow> 'h \<Rightarrow> 'h option"
  cl_begin :: "addr \<Rightarrow> 'h \<Rightarrow> addr option"
  cl_end :: "addr \<Rightarrow> 'h \<Rightarrow> addr option"
  cl_next :: "addr \<Rightarrow> 'h \<Rightarrow> addr option"
  cl_empty :: "addr \<Rightarrow> 'h \<Rightarrow> bool option"
  cl_push_front :: "addr \<Rightarrow> addr \<Rightarrow> 'h \<Rightarrow> 'h option"
  cl_push_back :: "addr \<Rightarrow> addr \<Rightarrow> 'h \<Rightarrow> 'h option"
  cl_pop_front :: "addr \<Rightarrow> 'h \<Rightarrow> 'h option"
  cl_insert :: "addr \<Rightarrow> addr \<Rightarrow> 'h \<Rightarrow> 'h option"
  cl_erase :: "addr \<Rightarrow> 'h \<Rightarrow> 'h option"

definition occupied :: "(addr \<rightharpoonup> addr list) \<Rightarrow> addr set" where
  "occupied R = {a. \<exists>c xs. R c = Some xs \<and> a \<in> set (c # xs)}"

locale clist_laws =
  fixes C :: "'h clist_ops"
    and rep :: "'h \<Rightarrow> (addr \<rightharpoonup> addr list) \<Rightarrow> bool"
    and node :: "'h \<Rightarrow> addr \<Rightarrow> bool"
  assumes rep_empty: "rep h Map.empty"
    and rep_distinct: "rep h R \<Longrightarrow> R c = Some xs \<Longrightarrow> distinct (c # xs)"
    and rep_apart: "rep h R \<Longrightarrow> R c = Some xs \<Longrightarrow> R d = Some ys \<Longrightarrow> c \<noteq> d \<Longrightarrow>
      set (c # xs) \<inter> set (d # ys) = {}"
    and init_rep: "rep h R \<Longrightarrow> node h c \<Longrightarrow> c \<notin> occupied R \<Longrightarrow>
      \<exists>h'. cl_init C c h = Some h' \<and> rep h' (R(c \<mapsto> [])) \<and> node h' = node h"
    and begin_rep: "rep h R \<Longrightarrow> R c = Some xs \<Longrightarrow> cl_begin C c h = Some (hd (xs @ [c]))"
    and end_rep: "rep h R \<Longrightarrow> R c = Some xs \<Longrightarrow> cl_end C c h = Some c"
    and next_rep: "rep h R \<Longrightarrow> R c = Some (ys @ a # zs) \<Longrightarrow> cl_next C a h = Some (hd (zs @ [c]))"
    and empty_rep: "rep h R \<Longrightarrow> R c = Some xs \<Longrightarrow> cl_empty C c h = Some (xs = [])"
    and push_front_rep: "rep h R \<Longrightarrow> R c = Some xs \<Longrightarrow> node h a \<Longrightarrow> a \<notin> occupied R \<Longrightarrow>
      \<exists>h'. cl_push_front C c a h = Some h' \<and> rep h' (R(c \<mapsto> a # xs)) \<and> node h' = node h"
    and push_back_rep: "rep h R \<Longrightarrow> R c = Some xs \<Longrightarrow> node h a \<Longrightarrow> a \<notin> occupied R \<Longrightarrow>
      \<exists>h'. cl_push_back C c a h = Some h' \<and> rep h' (R(c \<mapsto> xs @ [a])) \<and> node h' = node h"
    and pop_front_rep: "rep h R \<Longrightarrow> R c = Some (a # xs) \<Longrightarrow>
      \<exists>h'. cl_pop_front C c h = Some h' \<and> rep h' (R(c \<mapsto> xs)) \<and> node h' = node h"
    and insert_rep: "rep h R \<Longrightarrow> R c = Some (ys @ p # zs) \<Longrightarrow> node h a \<Longrightarrow> a \<notin> occupied R \<Longrightarrow>
      \<exists>h'. cl_insert C p a h = Some h' \<and> rep h' (R(c \<mapsto> ys @ a # p # zs)) \<and> node h' = node h"
    and erase_rep: "rep h R \<Longrightarrow> R c = Some (ys @ a # zs) \<Longrightarrow>
      \<exists>h'. cl_erase C a h = Some h' \<and> rep h' (R(c \<mapsto> ys @ zs)) \<and> node h' = node h"
begin

lemma push_back_all:
  "rep h R \<Longrightarrow> R c = Some xs \<Longrightarrow> (\<forall>a\<in>set as. node h a) \<Longrightarrow> distinct as \<Longrightarrow>
   set as \<inter> occupied R = {} \<Longrightarrow>
   \<exists>h'. foldM (cl_push_back C c) as h = Some h' \<and> rep h' (R(c \<mapsto> xs @ as)) \<and> node h' = node h"
proof (induction as arbitrary: h R xs)
  case Nil
  then show ?case by (auto simp: fun_upd_idem)
next
  case (Cons a as)
  obtain h1 where h1: "cl_push_back C c a h = Some h1" "rep h1 (R(c \<mapsto> xs @ [a]))" "node h1 = node h"
    using push_back_rep[of h R c xs a] Cons.prems by auto
  have occ: "occupied (R(c \<mapsto> xs @ [a])) \<subseteq> insert a (occupied R)"
    using Cons.prems(2) by (auto simp: occupied_def split: if_splits)
  have "\<exists>h'. foldM (cl_push_back C c) as h1 = Some h' \<and>
    rep h' ((R(c \<mapsto> xs @ [a]))(c \<mapsto> (xs @ [a]) @ as)) \<and> node h' = node h1"
    by (rule Cons.IH[of h1 "R(c \<mapsto> xs @ [a])" "xs @ [a]"]) (use Cons.prems h1 occ in \<open>auto simp del: fun_upd_apply\<close>, simp)
  then show ?case using h1 by (auto simp del: fun_upd_apply)
qed

end

section \<open>The list of list.h provides the contract\<close>

definition ring_ops :: "lheap clist_ops" where
  "ring_ops = \<lparr>
     cl_init = INIT_LIST_HEAD,
     cl_begin = get_next,
     cl_end = (\<lambda>c h. Some c),
     cl_next = get_next,
     cl_empty = list_empty,
     cl_push_front = (\<lambda>c a. list_add a c),
     cl_push_back = (\<lambda>c a. list_add_tail a c),
     cl_pop_front = (\<lambda>c h. do { a \<leftarrow> get_next c h; list_del a h }),
     cl_insert = (\<lambda>p a. list_add_tail a p),
     cl_erase = list_del\<rparr>"

definition ring_rep :: "lheap \<Rightarrow> (addr \<rightharpoonup> addr list) \<Rightarrow> bool" where
  "ring_rep h R \<longleftrightarrow> rings h (dom R) (\<lambda>a. the (R a))"

text \<open>\<open>list_add_tail\<close> at an entry of a ring inserts in front of that entry: the ring can be read
  from any of its members.\<close>

lemma dlist_rotate:
  assumes "dlist h head (ys @ p # zs)"
  shows "dlist h p (zs @ head # ys)"
proof -
  have "chain h ((head # ys) @ [p])" "chain h (p # zs @ [head])"
    using assms chain_append[of h "head # ys" p "zs @ [head]"] by (simp_all add: dlist_def)
  then have "chain h ((p # zs) @ head # ys @ [p])"
    using chain_append[of h "p # zs" head "ys @ [p]"] by simp
  then show ?thesis using assms by (auto simp: dlist_def)
qed

lemma list_add_tail_before:
  assumes "dlist h head (ys @ p # zs)" "new \<in> dom h" "new \<notin> set (head # ys @ p # zs)"
  shows "\<exists>h'. list_add_tail new p h = Some h' \<and> dlist h' head (ys @ new # p # zs) \<and> dom h' = dom h \<and>
    (\<forall>q. q \<notin> set (new # head # ys @ p # zs) \<longrightarrow> h' q = h q)"
proof -
  obtain h' where h': "list_add_tail new p h = Some h'" "dlist h' p ((zs @ head # ys) @ [new])"
    "dom h' = dom h" "\<forall>q. q \<notin> set (new # p # zs @ head # ys) \<longrightarrow> h' q = h q"
    using list_add_tail_dlist[OF dlist_rotate[OF assms(1)] assms(2)] assms(3) by auto
  have "dlist h' head ((ys @ [new]) @ p # zs)"
    using dlist_rotate[of h' p zs head "ys @ [new]"] h'(2) by simp
  then show ?thesis using h' by auto
qed

lemma ring_nodes_occupied: "ring_nodes (dom R) (\<lambda>a. the (R a)) = occupied R"
  by (auto simp: ring_nodes_def occupied_def) force+

lemma ring_rep_update:
  assumes "ring_rep h R" "R c = Some xs" "dlist h' c ys" "set ys \<subseteq> N \<union> set xs"
    "N \<inter> occupied R = {}" "\<forall>q. q \<notin> N \<union> set (c # xs) \<longrightarrow> h' q = h q"
  shows "ring_rep h' (R(c \<mapsto> ys))"
proof -
  have "rings h' (dom R) ((\<lambda>a. the (R a))(c := ys))"
  proof (rule rings_update)
    show "set ys \<inter> (ring_nodes (dom R) (\<lambda>a. the (R a)) - set (c # the (R c))) = {}"
      using assms(2,4,5) by (auto simp: ring_nodes_occupied)
    fix q assume "q \<in> ring_nodes (dom R) (\<lambda>a. the (R a)) - set (c # the (R c))"
    then show "h' q = h q" using assms(2,5,6) by (auto simp: ring_nodes_occupied)
  qed (use assms in \<open>auto simp: ring_rep_def\<close>)
  moreover have "(\<lambda>a. the ((R(c \<mapsto> ys)) a)) = (\<lambda>a. the (R a))(c := ys)" by auto
  moreover have "dom (R(c \<mapsto> ys)) = dom R" using assms(2) by auto
  ultimately show ?thesis by (simp add: ring_rep_def)
qed

lemma ring_rep_op:
  assumes "ring_rep h R" "R c = Some xs" "N \<inter> occupied R = {}" "set ys \<subseteq> N \<union> set xs"
    and "\<exists>h'. f h = Some h' \<and> dlist h' c ys \<and> dom h' = dom h \<and> (\<forall>q. q \<notin> N \<union> set (c # xs) \<longrightarrow> h' q = h q)"
  shows "\<exists>h'. f h = Some h' \<and> ring_rep h' (R(c \<mapsto> ys)) \<and> (\<lambda>a. a \<in> dom h') = (\<lambda>a. a \<in> dom h)"
proof -
  obtain h' where h': "f h = Some h'" "dlist h' c ys" "dom h' = dom h"
    "\<forall>q. q \<notin> N \<union> set (c # xs) \<longrightarrow> h' q = h q" using assms(5) by blast
  have "ring_rep h' (R(c \<mapsto> ys))" by (rule ring_rep_update[OF assms(1,2) h'(2) assms(4,3) h'(4)])
  then show ?thesis using h' by simp
qed

lemma ring_rep_dlist: "ring_rep h R \<Longrightarrow> R c = Some xs \<Longrightarrow> dlist h c xs"
  unfolding ring_rep_def rings_def by (metis domI option.sel)

lemma ring_rep_init:
  assumes "ring_rep h R" "c \<in> dom h" "c \<notin> occupied R"
  shows "\<exists>h'. INIT_LIST_HEAD c h = Some h' \<and> ring_rep h' (R(c \<mapsto> [])) \<and> dom h' = dom h"
proof -
  obtain h' where h': "INIT_LIST_HEAD c h = Some h'" "dlist h' c []" "dom h' = dom h"
    "\<forall>q. q \<noteq> c \<longrightarrow> h' q = h q" using INIT_LIST_HEAD_dlist[OF assms(2)] by blast
  have fresh: "c \<notin> set (a # the (R a))" if "a \<in> dom R" for a
    using assms(3) that by (force simp: occupied_def)
  have dl: "dlist h' a (the (R a))" if a: "a \<in> dom R" for a
  proof (rule dlist_frame)
    show "dlist h a (the (R a))" using assms(1) a unfolding ring_rep_def rings_def by blast
    show "h' q = h q" if "q \<in> set (a # the (R a))" for q using fresh[OF a] that h'(4) by metis
  qed
  have apart: "set (a # the (R a)) \<inter> set (b # the (R b)) = {}" if "a \<in> dom R" "b \<in> dom R" "a \<noteq> b" for a b
    using assms(1) that unfolding ring_rep_def rings_def by blast
  have "ring_rep h' (R(c \<mapsto> []))"
    unfolding ring_rep_def rings_def
  proof (intro conjI ballI impI)
    fix a b assume a: "a \<in> dom (R(c \<mapsto> []))"
    show "dlist h' a (the ((R(c \<mapsto> [])) a))" using a dl[of a] h'(2) by (cases "a = c") auto
    assume b: "b \<in> dom (R(c \<mapsto> []))" "a \<noteq> b"
    show "set (a # the ((R(c \<mapsto> [])) a)) \<inter> set (b # the ((R(c \<mapsto> [])) b)) = {}"
      using a b apart[of a b] fresh[of a] fresh[of b] by (cases "a = c"; cases "b = c") auto
  qed
  then show ?thesis using h' by blast
qed

interpretation ring: clist_laws ring_ops ring_rep "\<lambda>h a. a \<in> dom h"
proof unfold_locales
  fix h :: lheap and R :: "addr \<rightharpoonup> addr list" and c d a p :: addr and xs ys zs :: "addr list"
  have fresh: "x \<notin> set (c # xs)" if "R c = Some xs" "x \<notin> occupied R" for x xs
    using that by (auto simp: occupied_def)
  show "ring_rep h Map.empty" by (simp add: ring_rep_def rings_def)
  assume rep: "ring_rep h R"
  show "R c = Some xs \<Longrightarrow> distinct (c # xs)"
    using ring_rep_dlist[OF rep] by (simp add: dlist_def)
  show "R c = Some xs \<Longrightarrow> R d = Some ys \<Longrightarrow> c \<noteq> d \<Longrightarrow> set (c # xs) \<inter> set (d # ys) = {}"
    using rep unfolding ring_rep_def rings_def by (metis domI option.sel)
  show "c \<in> dom h \<Longrightarrow> c \<notin> occupied R \<Longrightarrow>
      \<exists>h'. cl_init ring_ops c h = Some h' \<and> ring_rep h' (R(c \<mapsto> [])) \<and> (\<lambda>a. a \<in> dom h') = (\<lambda>a. a \<in> dom h)"
    using ring_rep_init[OF rep, of c] by (auto simp: ring_ops_def)
  show "R c = Some xs \<Longrightarrow> cl_begin ring_ops c h = Some (hd (xs @ [c]))"
    using dlist_ends[OF ring_rep_dlist[OF rep, of c xs]] by (simp add: ring_ops_def)
  show "R c = Some xs \<Longrightarrow> cl_end ring_ops c h = Some c" by (simp add: ring_ops_def)
  show "R c = Some (ys @ a # zs) \<Longrightarrow> cl_next ring_ops a h = Some (hd (zs @ [c]))"
    using dlist_entry[OF ring_rep_dlist[OF rep, of c]] by (simp add: ring_ops_def)
  show "R c = Some xs \<Longrightarrow> cl_empty ring_ops c h = Some (xs = [])"
    using ring_rep_dlist[OF rep] by (simp add: ring_ops_def)
  show "\<exists>h'. cl_push_front ring_ops c a h = Some h' \<and> ring_rep h' (R(c \<mapsto> a # xs)) \<and>
        (\<lambda>a. a \<in> dom h') = (\<lambda>a. a \<in> dom h)"
    if "R c = Some xs" "a \<in> dom h" "a \<notin> occupied R"
    using list_add_dlist[OF ring_rep_dlist[OF rep that(1)] that(2) fresh[OF that(1,3)]] that
    by (intro ring_rep_op[OF rep that(1), of "{a}"]) (auto simp: ring_ops_def)
  show "\<exists>h'. cl_push_back ring_ops c a h = Some h' \<and> ring_rep h' (R(c \<mapsto> xs @ [a])) \<and>
        (\<lambda>a. a \<in> dom h') = (\<lambda>a. a \<in> dom h)"
    if "R c = Some xs" "a \<in> dom h" "a \<notin> occupied R"
    using list_add_tail_dlist[OF ring_rep_dlist[OF rep that(1)] that(2) fresh[OF that(1,3)]] that
    by (intro ring_rep_op[OF rep that(1), of "{a}"]) (auto simp: ring_ops_def)
  show "\<exists>h'. cl_pop_front ring_ops c h = Some h' \<and> ring_rep h' (R(c \<mapsto> xs)) \<and>
        (\<lambda>a. a \<in> dom h') = (\<lambda>a. a \<in> dom h)"
    if "R c = Some (a # xs)"
    using list_del_dlist[of h c "[]" a xs] ring_rep_dlist[OF rep that]
      dlist_ends(1)[OF ring_rep_dlist[OF rep that]]
    by (intro ring_rep_op[OF rep that, of "{}"]) (auto simp: ring_ops_def)
  show "\<exists>h'. cl_insert ring_ops p a h = Some h' \<and> ring_rep h' (R(c \<mapsto> ys @ a # p # zs)) \<and>
        (\<lambda>a. a \<in> dom h') = (\<lambda>a. a \<in> dom h)"
    if "R c = Some (ys @ p # zs)" "a \<in> dom h" "a \<notin> occupied R"
    using list_add_tail_before[OF ring_rep_dlist[OF rep that(1)] that(2) fresh[OF that(1,3)]] that
    by (intro ring_rep_op[OF rep that(1), of "{a}"]) (auto simp: ring_ops_def)
  show "\<exists>h'. cl_erase ring_ops a h = Some h' \<and> ring_rep h' (R(c \<mapsto> ys @ zs)) \<and>
        (\<lambda>a. a \<in> dom h') = (\<lambda>a. a \<in> dom h)"
    if "R c = Some (ys @ a # zs)"
    using list_del_dlist[OF ring_rep_dlist[OF rep that]]
    by (intro ring_rep_op[OF rep that, of "{}"]) (auto simp: ring_ops_def)
qed

end
