(* ===== verification/Timer.thy ===== *)
theory Timer
  imports Clist "HOL-Library.Signed_Division"
begin

text \<open>
  The timer module, \<^verbatim>\<open>timer/module_timer.c\<close> and \<^verbatim>\<open>timer/module_timer.h\<close>: an array of
  4095 timers, each linked into the list of working timers, sorted by the time of the next
  expiry, or into the list of free ones, and a thread that fires the timers at the head of the
  working list. The list operations are those of \<^verbatim>\<open>clist.h\<close>, a parameter (theory Clist).

  A call that does not return (it faults, blocks for ever on a semaphore, or exits the process)
  is \<^const>\<open>None\<close>. Times are unbounded integers: \<open>long\<close> seconds do not overflow. The code a
  thread runs between \<open>sem_wait (&g_sem)\<close> and \<open>sem_post (&g_sem)\<close> is one step; what the timer
  thread does after it has posted (it still reads the timer) is a step of its own, in which the
  other threads' calls may have come between. \<open>msgsnd\<close> is taken to return (with its flags it
  waits while the queue is full, and holds the semaphore all the time). Log output is not modelled.
\<close>

section \<open>Data\<close>

record st_timer =
  state_t :: int
  times_t :: int
  msgid_t :: int
  id_t :: "16 word"
  tv_t :: timeval
  interval_t :: timeval
  func_t :: addr
  parameter_t :: addr

definition MAX_TIMER_NUMBER :: nat where "MAX_TIMER_NUMBER = 0xFFF"

definition TIMER_ERROR :: int where "TIMER_ERROR = -1"

definition TIMER_OK :: int where "TIMER_OK = 1"

definition MSG_TYPE_FOR_TIMER :: int where "MSG_TYPE_FOR_TIMER = 888"

text \<open>
  The static objects at fixed addresses; a timer occupies 80 bytes and its list node is its first
  member, so a pointer to the node, cast to \<open>st_timer *\<close>, is a pointer to the timer.
\<close>

definition g_listTimerWork :: addr where "g_listTimerWork = 0x1000"

definition g_listTimerFree :: addr where "g_listTimerFree = 0x1010"

definition g_timerArray :: addr where "g_timerArray = 0x1020"

definition sizeof_st_timer :: nat where "sizeof_st_timer = 80"

definition timer_addr :: "nat \<Rightarrow> addr" where
  "timer_addr i = g_timerArray + of_nat (i * sizeof_st_timer)"

definition timer_of :: "addr \<Rightarrow> nat option" where
  "timer_of a = (let d = unat (a - g_timerArray) in
     if d mod sizeof_st_timer = 0 \<and> d div sizeof_st_timer < MAX_TIMER_NUMBER
     then Some (d div sizeof_st_timer) else None)"

text \<open>
  The state: the memory of list nodes, the array, the two semaphores, the static \<open>b\<close> of
  \<open>timerInit\<close>, the number of timer threads started, and what left the module: the messages given
  to \<open>msgsnd\<close> (queue, type, timer) and the functions called (function, argument).
\<close>

record 'h timer_state =
  clists :: 'h
  timers :: "nat \<Rightarrow> st_timer"
  g_sem :: nat
  g_sem_new :: nat
  init_b :: int
  started :: nat
  sent :: "(int \<times> int \<times> 16 word) list"
  called :: "(addr \<times> addr) list"

definition on_clists :: "('h \<Rightarrow> 'h option) \<Rightarrow> 'h timer_state \<Rightarrow> 'h timer_state option" where
  "on_clists f s = map_option (\<lambda>h. s\<lparr>clists := h\<rparr>) (f (clists s))"

definition timer_at :: "addr \<Rightarrow> 'h timer_state \<Rightarrow> st_timer option" where
  "timer_at a s = map_option (timers s) (timer_of a)"

definition upd_timer :: "nat \<Rightarrow> (st_timer \<Rightarrow> st_timer) \<Rightarrow> 'h timer_state \<Rightarrow> 'h timer_state option" where
  "upd_timer i f s = (if i < MAX_TIMER_NUMBER then Some (s\<lparr>timers := (timers s)(i := f (timers s i))\<rparr>) else None)"

definition sem_wait_g :: "'h timer_state \<Rightarrow> 'h timer_state option" where
  "sem_wait_g s = (if g_sem s = 0 then None else Some (s\<lparr>g_sem := g_sem s - 1\<rparr>))"

definition sem_post_g :: "'h timer_state \<Rightarrow> 'h timer_state" where
  "sem_post_g s = s\<lparr>g_sem := g_sem s + 1\<rparr>"

section \<open>Inserting by time\<close>

definition cmptime :: "timeval \<Rightarrow> timeval \<Rightarrow> bool" where
  "cmptime srctv dsttv \<longleftrightarrow> tv_sec srctv > tv_sec dsttv \<or>
     (tv_sec srctv = tv_sec dsttv \<and> tv_usec srctv \<ge> tv_usec dsttv)"

partial_function (option) insert_loop ::
  "'h clist_ops \<Rightarrow> nat \<Rightarrow> addr \<Rightarrow> 'h timer_state \<Rightarrow> (int \<times> 'h timer_state) option" where
  "insert_loop C i list_t s = do {
     e \<leftarrow> cl_end C g_listTimerWork (clists s);
     if e \<noteq> list_t
     then do {
       t \<leftarrow> timer_at list_t s;
       if cmptime (tv_t t) (tv_t (timers s i))
       then do { s \<leftarrow> on_clists (cl_insert C list_t (timer_addr i)) s; Some (2, s) }
       else do { n \<leftarrow> cl_next C list_t (clists s); insert_loop C i n s } }
     else do { s \<leftarrow> on_clists (cl_push_back C g_listTimerWork (timer_addr i)) s; Some (3, s) } }"

definition insertTimer :: "'h clist_ops \<Rightarrow> nat \<Rightarrow> 'h timer_state \<Rightarrow> (int \<times> 'h timer_state) option" where
  "insertTimer C i s = do {
     guard_opt (i < MAX_TIMER_NUMBER);
     list_t \<leftarrow> cl_begin C g_listTimerWork (clists s);
     e \<leftarrow> cl_empty C g_listTimerWork (clists s);
     if e then do { s \<leftarrow> on_clists (cl_push_front C g_listTimerWork (timer_addr i)) s; Some (1, s) }
     else insert_loop C i list_t s }"

section \<open>The timer thread\<close>

text \<open>
  Where the thread is between two steps: at the head of its loop; waiting for \<open>g_sem_new\<close>
  because there is no timer; about to call the function of a timer with the parameter it still has
  to read; about to read when a timer expires, to sleep until then; asleep.
\<close>

datatype thread_pc =
    At_loop
  | Wait_new
  | Call_func addr addr
  | Read_time addr
  | Sleep_until timeval

definition advance_tv :: "st_timer \<Rightarrow> st_timer" where
  "advance_tv t =
     (let u = tv_usec (tv_t t) + tv_usec (interval_t t);
          sec = (tv_sec (tv_t t) + tv_sec (interval_t t)) + u sdiv 1000000
      in t\<lparr>tv_t := \<lparr>tv_sec = sec, tv_usec = u smod 1000000\<rparr>\<rparr>)"

definition fire_timer :: "'h clist_ops \<Rightarrow> addr \<Rightarrow> 'h timer_state \<Rightarrow> (thread_pc \<times> 'h timer_state) option" where
  "fire_timer C a s = do {
     i \<leftarrow> timer_of a;
     s \<leftarrow> upd_timer i advance_tv s;
     s \<leftarrow> on_clists (cl_pop_front C g_listTimerWork) s;
     t \<leftarrow> timer_at a s;
     if func_t t \<noteq> NULL
     then do {
       (r, s) \<leftarrow> insertTimer C (unat (id_t t)) s;
       Some (Call_func a (func_t t), sem_post_g s) }
     else if msgid_t t \<ge> 0
     then do {
       let s = s\<lparr>sent := sent s @ [(msgid_t t, MSG_TYPE_FOR_TIMER, id_t t)]\<rparr>;
       s \<leftarrow> (if times_t t > 0 then upd_timer i (\<lambda>t. t\<lparr>times_t := times_t t - 1\<rparr>) s else Some s);
       if times_t t > 0 \<and> times_t t - 1 \<le> 0
       then do {
         s \<leftarrow> upd_timer i (\<lambda>t. t\<lparr>state_t := 0\<rparr>) s;
         s \<leftarrow> on_clists (cl_push_back C g_listTimerFree a) s;
         Some (At_loop, sem_post_g s) }
       else do {
         (r, s) \<leftarrow> insertTimer C (unat (id_t t)) s;
         Some (At_loop, sem_post_g s) } }
     else do {
       s \<leftarrow> upd_timer i (\<lambda>t. t\<lparr>state_t := 0\<rparr>) s;
       s \<leftarrow> on_clists (cl_push_back C g_listTimerFree a) s;
       Some (At_loop, sem_post_g s) } }"

definition thread_loop :: "'h clist_ops \<Rightarrow> timeval \<Rightarrow> 'h timer_state \<Rightarrow> (thread_pc \<times> 'h timer_state) option" where
  "thread_loop C now s = do {
     s \<leftarrow> sem_wait_g s;
     e \<leftarrow> cl_end C g_listTimerWork (clists s);
     a \<leftarrow> cl_begin C g_listTimerWork (clists s);
     if e = a then Some (Wait_new, sem_post_g s)
     else do {
       t \<leftarrow> timer_at a s;
       if state_t t = 0
       then do {
         s \<leftarrow> on_clists (cl_pop_front C g_listTimerWork) s;
         s \<leftarrow> on_clists (cl_push_back C g_listTimerFree a) s;
         Some (At_loop, sem_post_g s) }
       else if cmptime now (tv_t t) then fire_timer C a s
       else Some (Read_time a, sem_post_g s) } }"

text \<open>
  \<open>thread_timer\<close>, one step of it; \<open>now\<close> is what \<open>gettimeofday\<close>, or the clock behind
  \<open>sem_timedwait\<close>, says. A thread whose semaphore is not available and whose time has not come
  stays where it is.
\<close>

fun thread_timer :: "'h clist_ops \<Rightarrow> timeval \<Rightarrow> thread_pc \<Rightarrow> 'h timer_state \<Rightarrow> (thread_pc \<times> 'h timer_state) option" where
  "thread_timer C now At_loop s = thread_loop C now s"
| "thread_timer C now Wait_new s =
     (if g_sem_new s = 0 then Some (Wait_new, s) else Some (At_loop, s\<lparr>g_sem_new := g_sem_new s - 1\<rparr>))"
| "thread_timer C now (Call_func a f) s =
     do { t \<leftarrow> timer_at a s; Some (At_loop, s\<lparr>called := called s @ [(f, parameter_t t)]\<rparr>) }"
| "thread_timer C now (Read_time a) s = do { t \<leftarrow> timer_at a s; Some (Sleep_until (tv_t t), s) }"
| "thread_timer C now (Sleep_until tn) s =
     (if g_sem_new s > 0 then Some (At_loop, s\<lparr>g_sem_new := g_sem_new s - 1\<rparr>)
      else if cmptime now tn then Some (At_loop, s) else Some (Sleep_until tn, s))"

section \<open>The interface of the module\<close>

text \<open>
  \<open>timerInit\<close>: the arguments say whether \<open>sem_init\<close> (twice) and \<open>pthread_create\<close> succeed; if
  one does not, the process exits. The zeroing of the array leaves its list nodes, which are still
  zero at the only call that gets here, as they are.
\<close>

definition zero_timer :: st_timer where
  "zero_timer = \<lparr>state_t = 0, times_t = 0, msgid_t = 0, id_t = 0, tv_t = \<lparr>tv_sec = 0, tv_usec = 0\<rparr>,
     interval_t = \<lparr>tv_sec = 0, tv_usec = 0\<rparr>, func_t = NULL, parameter_t = NULL\<rparr>"

definition init_one :: "'h clist_ops \<Rightarrow> nat \<Rightarrow> 'h timer_state \<Rightarrow> 'h timer_state option" where
  "init_one C b s = do {
     s \<leftarrow> upd_timer b (\<lambda>t. t\<lparr>id_t := of_nat b\<rparr>) s;
     on_clists (cl_push_back C g_listTimerFree (timer_addr b)) s }"

definition timerInit :: "'h clist_ops \<Rightarrow> bool \<times> bool \<times> bool \<Rightarrow> 'h timer_state \<Rightarrow> 'h timer_state option" where
  "timerInit C os s =
     (if init_b s = -1 then do {
        let s = s\<lparr>init_b := 0, timers := (\<lambda>i. zero_timer)\<rparr>;
        s \<leftarrow> on_clists (cl_init C g_listTimerWork) s;
        s \<leftarrow> on_clists (cl_init C g_listTimerFree) s;
        s \<leftarrow> foldM (init_one C) [0..<MAX_TIMER_NUMBER] s;
        guard_opt (fst os);
        let s = s\<lparr>g_sem := 1\<rparr>;
        guard_opt (fst (snd os));
        let s = s\<lparr>g_sem_new := 0\<rparr>;
        guard_opt (snd (snd os));
        Some (s\<lparr>started := started s + 1\<rparr>) }
      else Some s)"

definition GetTimerID :: "'h clist_ops \<Rightarrow> 'h timer_state \<Rightarrow> (int \<times> 'h timer_state) option" where
  "GetTimerID C s = do {
     a \<leftarrow> cl_begin C g_listTimerFree (clists s);
     e \<leftarrow> cl_empty C g_listTimerFree (clists s);
     if e then Some (TIMER_ERROR, s)
     else do {
       s \<leftarrow> on_clists (cl_pop_front C g_listTimerFree) s;
       t \<leftarrow> timer_at a s;
       Some (uint (id_t t), s) } }"

definition start_tv :: "timeval \<Rightarrow> int \<Rightarrow> st_timer \<Rightarrow> st_timer" where
  "start_tv tv timeInterval t =
     (let i = \<lparr>tv_sec = timeInterval sdiv 1000, tv_usec = timeInterval smod 1000 * 1000\<rparr>
      in t\<lparr>interval_t := i,
           tv_t := \<lparr>tv_sec = (tv_sec tv + tv_sec i) + (tv_usec tv + tv_usec i) sdiv 1000000,
                    tv_usec = (tv_usec tv + tv_usec i) smod 1000000\<rparr>\<rparr>)"

definition SetTimer ::
  "'h clist_ops \<Rightarrow> bool \<times> bool \<times> bool \<Rightarrow> timeval \<Rightarrow> int \<Rightarrow> addr \<Rightarrow> addr \<Rightarrow> 'h timer_state \<Rightarrow>
   (int \<times> 'h timer_state) option" where
  "SetTimer C os now timeInterval pFunc parameter s =
     (if 0 \<ge> timeInterval \<or> pFunc = NULL then Some (TIMER_ERROR, s)
      else do {
        s \<leftarrow> timerInit C os s;
        s \<leftarrow> sem_wait_g s;
        (tid, s) \<leftarrow> GetTimerID C s;
        if tid = TIMER_ERROR then Some (TIMER_ERROR, sem_post_g s)
        else do {
          s \<leftarrow> upd_timer (nat tid) (\<lambda>t. (start_tv now timeInterval (t\<lparr>state_t := 1, id_t := of_int tid\<rparr>))
                 \<lparr>func_t := pFunc, parameter_t := parameter, msgid_t := -1\<rparr>) s;
          (r, s) \<leftarrow> insertTimer C (nat tid) s;
          Some (tid, sem_post_g (s\<lparr>g_sem_new := g_sem_new s + 1\<rparr>)) } })"

definition KillTimer :: "'h clist_ops \<Rightarrow> 16 word \<Rightarrow> 'h timer_state \<Rightarrow> 'h timer_state option" where
  "KillTimer C tid s =
     (if unat tid \<ge> MAX_TIMER_NUMBER then Some s
      else do {
        s \<leftarrow> sem_wait_g s;
        if state_t (timers s (unat tid)) = 0 then Some (sem_post_g s)
        else do {
          s \<leftarrow> on_clists (cl_erase C (timer_addr (unat tid))) s;
          s \<leftarrow> upd_timer (unat tid) (\<lambda>t. t\<lparr>state_t := 0\<rparr>) s;
          s \<leftarrow> on_clists (cl_push_back C g_listTimerFree (timer_addr (unat tid))) s;
          Some (sem_post_g s) } })"

definition SetMsgTimer ::
  "'h clist_ops \<Rightarrow> bool \<times> bool \<times> bool \<Rightarrow> timeval \<Rightarrow> int \<Rightarrow> int \<Rightarrow> int \<Rightarrow> 'h timer_state \<Rightarrow>
   (int \<times> 'h timer_state) option" where
  "SetMsgTimer C os now timeInterval msgid n s =
     (if 0 \<ge> timeInterval \<or> 0 > msgid then Some (TIMER_ERROR, s)
      else do {
        s \<leftarrow> timerInit C os s;
        s \<leftarrow> sem_wait_g s;
        (tid, s) \<leftarrow> GetTimerID C s;
        if tid = TIMER_ERROR then Some (TIMER_ERROR, sem_post_g s)
        else do {
          s \<leftarrow> upd_timer (nat tid) (\<lambda>t. (start_tv now timeInterval (t\<lparr>state_t := 1, id_t := of_int tid\<rparr>))
                 \<lparr>msgid_t := msgid, times_t := n\<rparr>) s;
          (r, s) \<leftarrow> insertTimer C (nat tid) s;
          Some (tid, sem_post_g (s\<lparr>g_sem_new := g_sem_new s + 1\<rparr>)) } })"

definition ChangeTimerTime ::
  "'h clist_ops \<Rightarrow> timeval \<Rightarrow> 16 word \<Rightarrow> int \<Rightarrow> 'h timer_state \<Rightarrow> (int \<times> 'h timer_state) option" where
  "ChangeTimerTime C now tid timeInterval s =
     (if unat tid \<ge> MAX_TIMER_NUMBER \<or> timeInterval \<le> 0 then Some (TIMER_ERROR, s)
      else do {
        s \<leftarrow> sem_wait_g s;
        if state_t (timers s (unat tid)) = 0 then Some (TIMER_ERROR, sem_post_g s)
        else do {
          s \<leftarrow> upd_timer (unat tid) (start_tv now timeInterval) s;
          s \<leftarrow> on_clists (cl_erase C (timer_addr (unat tid))) s;
          (r, s) \<leftarrow> insertTimer C (unat tid) s;
          Some (TIMER_OK, sem_post_g s) } })"

definition GetTimerTime :: "16 word \<Rightarrow> 'h timer_state \<Rightarrow> int" where
  "GetTimerTime tid s =
     (if unat tid \<ge> MAX_TIMER_NUMBER then 0
      else if state_t (timers s (unat tid)) = 0 then 0
      else tv_sec (interval_t (timers s (unat tid))) * 1000 + tv_usec (interval_t (timers s (unat tid))) sdiv 1000)"


section \<open>The representation\<close>

lemma timer_of_addr [simp]: "i < MAX_TIMER_NUMBER \<Longrightarrow> timer_of (timer_addr i) = Some i"
proof -
  assume i: "i < MAX_TIMER_NUMBER"
  then have "unat (of_nat (i * sizeof_st_timer) :: addr) = i * sizeof_st_timer"
    by (simp add: unat_of_nat MAX_TIMER_NUMBER_def sizeof_st_timer_def del: of_nat_mult)
  then show ?thesis using i by (simp add: timer_of_def timer_addr_def sizeof_st_timer_def Let_def)
qed

lemma timer_at_addr: "i < MAX_TIMER_NUMBER \<Longrightarrow> timer_at (timer_addr i) s = Some (timers s i)"
  by (simp add: timer_at_def)

lemma timer_addr_inj: "i < MAX_TIMER_NUMBER \<Longrightarrow> j < MAX_TIMER_NUMBER \<Longrightarrow> timer_addr i = timer_addr j \<longleftrightarrow> i = j"
  by (metis option.inject timer_of_addr)

lemma heads_no_timer [simp]: "timer_of g_listTimerWork = None" "timer_of g_listTimerFree = None"
  by (simp_all add: timer_of_def g_listTimerWork_def g_listTimerFree_def g_timerArray_def sizeof_st_timer_def
      MAX_TIMER_NUMBER_def Let_def)

lemma head_not_timer [simp]:
  assumes "i < MAX_TIMER_NUMBER"
  shows "timer_addr i \<noteq> g_listTimerWork" "timer_addr i \<noteq> g_listTimerFree"
    "g_listTimerWork \<noteq> timer_addr i" "g_listTimerFree \<noteq> timer_addr i"
  using timer_of_addr[OF assms] by auto

lemma heads_differ [simp]: "g_listTimerWork \<noteq> g_listTimerFree" "g_listTimerFree \<noteq> g_listTimerWork"
  by (simp_all add: g_listTimerWork_def g_listTimerFree_def)

definition timer_map :: "nat list \<Rightarrow> nat list \<Rightarrow> addr \<rightharpoonup> addr list" where
  "timer_map w f = [g_listTimerWork \<mapsto> map timer_addr w, g_listTimerFree \<mapsto> map timer_addr f]"

lemma timer_map_simps [simp]:
  "timer_map w f g_listTimerWork = Some (map timer_addr w)"
  "timer_map w f g_listTimerFree = Some (map timer_addr f)"
  "(timer_map w f)(g_listTimerWork \<mapsto> map timer_addr w') = timer_map w' f"
  "(timer_map w f)(g_listTimerFree \<mapsto> map timer_addr f') = timer_map w f'"
  by (auto simp: timer_map_def)

definition timer_lists ::
  "('h \<Rightarrow> (addr \<rightharpoonup> addr list) \<Rightarrow> bool) \<Rightarrow> ('h \<Rightarrow> addr \<Rightarrow> bool) \<Rightarrow> 'h \<Rightarrow> nat list \<Rightarrow> nat list \<Rightarrow> bool" where
  "timer_lists rep node h w f \<longleftrightarrow> rep h (timer_map w f) \<and>
     (\<forall>i<MAX_TIMER_NUMBER. node h (timer_addr i)) \<and>
     distinct (w @ f) \<and> (\<forall>i \<in> set (w @ f). i < MAX_TIMER_NUMBER)"

lemma timer_fresh:
  assumes "i < MAX_TIMER_NUMBER" "i \<notin> set (w @ f)" "\<forall>i \<in> set (w @ f). i < MAX_TIMER_NUMBER"
  shows "timer_addr i \<notin> occupied (timer_map w f)"
  using assms by (auto simp: occupied_def timer_map_def timer_addr_inj split: if_splits)

text \<open>Where a timer goes: in front of the first one that does not expire earlier.\<close>

definition before_timer :: "(nat \<Rightarrow> st_timer) \<Rightarrow> nat \<Rightarrow> nat \<Rightarrow> bool" where
  "before_timer T i j \<longleftrightarrow> \<not> cmptime (tv_t (T j)) (tv_t (T i))"

definition place_timer :: "(nat \<Rightarrow> st_timer) \<Rightarrow> nat \<Rightarrow> nat list \<Rightarrow> nat list" where
  "place_timer T i w = takeWhile (before_timer T i) w @ i # dropWhile (before_timer T i) w"

abbreviation sorted_timers :: "(nat \<Rightarrow> st_timer) \<Rightarrow> nat list \<Rightarrow> bool" where
  "sorted_timers T \<equiv> sorted_wrt (\<lambda>i j. cmptime (tv_t (T j)) (tv_t (T i)))"

lemma cmptime_refl [simp]: "cmptime t t"
  and cmptime_trans: "cmptime a b \<Longrightarrow> cmptime b c \<Longrightarrow> cmptime a c"
  and cmptime_total: "\<not> cmptime a b \<Longrightarrow> cmptime b a"
  by (auto simp: cmptime_def)

lemma place_timer_set [simp]: "set (place_timer T i w) = insert i (set w)"
  unfolding place_timer_def by (metis Un_insert_right list.simps(15) set_append takeWhile_dropWhile_id)

lemma place_timer_sorted:
  assumes "sorted_timers T w"
  shows "sorted_timers T (place_timer T i w)"
proof -
  let ?a = "takeWhile (before_timer T i) w" and ?b = "dropWhile (before_timer T i) w"
  have s: "sorted_timers T (?a @ ?b)" using assms by simp
  have lo: "cmptime (tv_t (T i)) (tv_t (T j))" if "j \<in> set ?a" for j
    using set_takeWhileD[OF that] by (auto simp: before_timer_def intro: cmptime_total)
  have "cmptime (tv_t (T j)) (tv_t (T i))" if j: "j \<in> set ?b" for j
  proof -
    obtain k ks where b: "?b = k # ks" using j by (cases ?b) auto
    then have "cmptime (tv_t (T k)) (tv_t (T i))" using hd_dropWhile[of "before_timer T i" w] by (auto simp: before_timer_def)
    moreover have "cmptime (tv_t (T j)) (tv_t (T k))" using s j by (auto simp: b sorted_wrt_append)
    ultimately show ?thesis by (rule cmptime_trans[rotated])
  qed
  then show ?thesis using s lo unfolding place_timer_def by (auto simp: sorted_wrt_append intro: cmptime_trans)
qed

lemma sorted_timers_cong:
  "(\<And>i. i \<in> set w \<Longrightarrow> tv_t (T i) = tv_t (T' i)) \<Longrightarrow> sorted_timers T w = sorted_timers T' w"
  by (rule iffI; erule sorted_wrt_mono_rel[rotated]) auto

lemma place_timer_distinct: "distinct w \<Longrightarrow> i \<notin> set w \<Longrightarrow> distinct (place_timer T i w)"
  unfolding place_timer_def
  by (metis distinct.simps(2) distinct_append distinct_takeWhile distinct_dropWhile disjoint_insert(1)
      list.simps(15) set_takeWhileD set_dropWhileD takeWhile_dropWhile_id)

context clist_laws
begin

abbreviation lists_ok :: "'h \<Rightarrow> nat list \<Rightarrow> nat list \<Rightarrow> bool" where
  "lists_ok \<equiv> timer_lists rep node"

lemma lists_reads:
  assumes "lists_ok h w f"
  shows "cl_end C g_listTimerWork h = Some g_listTimerWork"
    "cl_begin C g_listTimerWork h = Some (hd (map timer_addr w @ [g_listTimerWork]))"
    "cl_begin C g_listTimerFree h = Some (hd (map timer_addr f @ [g_listTimerFree]))"
    "cl_empty C g_listTimerWork h = Some (w = [])"
    "cl_empty C g_listTimerFree h = Some (f = [])"
proof -
  have r: "rep h (timer_map w f)" using assms by (simp add: timer_lists_def)
  show "cl_end C g_listTimerWork h = Some g_listTimerWork" by (rule end_rep[OF r]) simp
  show "cl_begin C g_listTimerWork h = Some (hd (map timer_addr w @ [g_listTimerWork]))" by (rule begin_rep[OF r]) simp
  show "cl_begin C g_listTimerFree h = Some (hd (map timer_addr f @ [g_listTimerFree]))" by (rule begin_rep[OF r]) simp
  show "cl_empty C g_listTimerWork h = Some (w = [])"
    using empty_rep[OF r, of g_listTimerWork "map timer_addr w"] by simp
  show "cl_empty C g_listTimerFree h = Some (f = [])"
    using empty_rep[OF r, of g_listTimerFree "map timer_addr f"] by simp
qed

lemma lists_next:
  assumes "lists_ok h (ys @ i # zs) f"
  shows "cl_next C (timer_addr i) h = Some (hd (map timer_addr zs @ [g_listTimerWork]))"
  using assms by (intro next_rep[of h "timer_map (ys @ i # zs) f" g_listTimerWork "map timer_addr ys"])
    (auto simp: timer_lists_def)

lemma lists_step:
  assumes "lists_ok h w f" "\<exists>h'. g h = Some h' \<and> rep h' (timer_map w' f') \<and> node h' = node h"
    "distinct (w' @ f')" "\<forall>i \<in> set (w' @ f'). i < MAX_TIMER_NUMBER"
  shows "\<exists>h'. g h = Some h' \<and> lists_ok h' w' f'"
  using assms unfolding timer_lists_def by auto

lemma lists_fresh:
  assumes "lists_ok h w f" "i < MAX_TIMER_NUMBER" "i \<notin> set (w @ f)"
  shows "rep h (timer_map w f)" "node h (timer_addr i)" "timer_addr i \<notin> occupied (timer_map w f)"
    "distinct (w @ f)" "\<forall>j \<in> set (w @ f). j < MAX_TIMER_NUMBER"
  using assms timer_fresh[OF assms(2,3)] by (auto simp: timer_lists_def)

lemma work_insert:
  assumes "lists_ok h (ys @ p # zs) f" "i < MAX_TIMER_NUMBER" "i \<notin> set ((ys @ p # zs) @ f)"
  shows "\<exists>h'. cl_insert C (timer_addr p) (timer_addr i) h = Some h' \<and> lists_ok h' (ys @ i # p # zs) f"
proof (rule lists_step[OF assms(1)])
  note fr = lists_fresh[OF assms]
  show "\<exists>h'. cl_insert C (timer_addr p) (timer_addr i) h = Some h' \<and>
      rep h' (timer_map (ys @ i # p # zs) f) \<and> node h' = node h"
    using insert_rep[OF fr(1) _ fr(2,3), of g_listTimerWork "map timer_addr ys" "timer_addr p" "map timer_addr zs"]
      timer_map_simps(3)[of "ys @ p # zs" f "ys @ i # p # zs"] by simp
  show "distinct ((ys @ i # p # zs) @ f)" "\<forall>i\<in>set ((ys @ i # p # zs) @ f). i < MAX_TIMER_NUMBER"
    using fr(4,5) assms(2,3) by auto
qed

lemma work_push:
  assumes "lists_ok h w f" "i < MAX_TIMER_NUMBER" "i \<notin> set (w @ f)"
  shows "\<exists>h'. cl_push_back C g_listTimerWork (timer_addr i) h = Some h' \<and> lists_ok h' (w @ [i]) f"
    and "\<exists>h'. cl_push_front C g_listTimerWork (timer_addr i) h = Some h' \<and> lists_ok h' (i # w) f"
proof -
  note fr = lists_fresh[OF assms]
  show "\<exists>h'. cl_push_back C g_listTimerWork (timer_addr i) h = Some h' \<and> lists_ok h' (w @ [i]) f"
    using push_back_rep[OF fr(1) _ fr(2,3), of g_listTimerWork "map timer_addr w"]
      timer_map_simps(3)[of w f "w @ [i]"] fr(4,5) assms(2,3)
    by (intro lists_step[OF assms(1)]) auto
  show "\<exists>h'. cl_push_front C g_listTimerWork (timer_addr i) h = Some h' \<and> lists_ok h' (i # w) f"
    using push_front_rep[OF fr(1) _ fr(2,3), of g_listTimerWork "map timer_addr w"]
      timer_map_simps(3)[of w f "i # w"] fr(4,5) assms(2,3)
    by (intro lists_step[OF assms(1)]) auto
qed

lemma work_pop:
  assumes "lists_ok h (i # w) f"
  shows "\<exists>h'. cl_pop_front C g_listTimerWork h = Some h' \<and> lists_ok h' w f"
  using assms pop_front_rep[of h "timer_map (i # w) f" g_listTimerWork "timer_addr i" "map timer_addr w"]
  by (intro lists_step[OF assms]) (auto simp: timer_lists_def)

lemma work_erase:
  assumes "lists_ok h (ys @ i # zs) f"
  shows "\<exists>h'. cl_erase C (timer_addr i) h = Some h' \<and> lists_ok h' (ys @ zs) f"
  using assms timer_map_simps(3)[of "ys @ i # zs" f "ys @ zs"]
    erase_rep[of h "timer_map (ys @ i # zs) f" g_listTimerWork "map timer_addr ys" "timer_addr i" "map timer_addr zs"]
  by (intro lists_step[OF assms]) (auto simp: timer_lists_def)

lemma free_pop:
  assumes "lists_ok h w (i # f)"
  shows "\<exists>h'. cl_pop_front C g_listTimerFree h = Some h' \<and> lists_ok h' w f"
  using assms pop_front_rep[of h "timer_map w (i # f)" g_listTimerFree "timer_addr i" "map timer_addr f"]
  by (intro lists_step[OF assms]) (auto simp: timer_lists_def)

lemma free_push:
  assumes "lists_ok h w f" "i < MAX_TIMER_NUMBER" "i \<notin> set (w @ f)"
  shows "\<exists>h'. cl_push_back C g_listTimerFree (timer_addr i) h = Some h' \<and> lists_ok h' w (f @ [i])"
proof -
  note fr = lists_fresh[OF assms]
  show ?thesis
    using push_back_rep[OF fr(1) _ fr(2,3), of g_listTimerFree "map timer_addr f"]
      timer_map_simps(4)[of w f "f @ [i]"] fr(4,5) assms(2,3)
    by (intro lists_step[OF assms(1)]) auto
qed


text \<open>The insertion loop, from the position behind \<open>ys\<close> on, which all expire earlier.\<close>

lemma insert_loop_place:
  assumes "lists_ok (clists s) (ys @ zs) f" "i < MAX_TIMER_NUMBER" "i \<notin> set ((ys @ zs) @ f)"
    "\<forall>j \<in> set ys. before_timer (timers s) i j"
  shows "\<exists>r h'. insert_loop C i (hd (map timer_addr zs @ [g_listTimerWork])) s = Some (r, s\<lparr>clists := h'\<rparr>) \<and>
    lists_ok h' (place_timer (timers s) i (ys @ zs)) f"
  using assms
proof (induction zs arbitrary: ys)
  case Nil
  have "place_timer (timers s) i ys = ys @ [i]"
    using Nil(4) by (simp add: place_timer_def)
  then show ?case using work_push(1)[of "clists s" ys f i] lists_reads(1)[OF Nil(1)] Nil
    by (subst insert_loop.simps) (auto simp: on_clists_def)
next
  case (Cons p zs)
  have p: "p < MAX_TIMER_NUMBER" using Cons.prems(1) by (simp add: timer_lists_def)
  show ?case
  proof (cases "before_timer (timers s) i p")
    case True
    then have "\<exists>r h'. insert_loop C i (hd (map timer_addr zs @ [g_listTimerWork])) s = Some (r, s\<lparr>clists := h'\<rparr>) \<and>
      lists_ok h' (place_timer (timers s) i (ys @ p # zs)) f"
      using Cons.IH[of "ys @ [p]"] Cons.prems by simp
    then show ?thesis
      using True lists_reads(1)[OF Cons.prems(1)] lists_next[OF Cons.prems(1)] p
      by (subst insert_loop.simps) (simp add: timer_at_addr before_timer_def)
  next
    case False
    then have "place_timer (timers s) i (ys @ p # zs) = ys @ i # p # zs"
      using Cons.prems(4) by (simp add: place_timer_def)
    then show ?thesis
      using False work_insert[OF Cons.prems(1-3)] lists_reads(1)[OF Cons.prems(1)] p
      by (subst insert_loop.simps) (auto simp: timer_at_addr before_timer_def on_clists_def)
  qed
qed

lemma insertTimer_place:
  assumes "lists_ok (clists s) w f" "i < MAX_TIMER_NUMBER" "i \<notin> set (w @ f)"
  shows "\<exists>r h'. insertTimer C i s = Some (r, s\<lparr>clists := h'\<rparr>) \<and>
    lists_ok h' (place_timer (timers s) i w) f"
proof (cases "w = []")
  case True
  then show ?thesis using assms lists_reads[OF assms(1)] work_push(2)[OF assms]
    by (auto simp: insertTimer_def on_clists_def place_timer_def)
next
  case False
  then show ?thesis using insert_loop_place[of s "[]" w f i] assms lists_reads[OF assms(1)]
    by (simp add: insertTimer_def)
qed

end

section \<open>The invariant\<close>

definition tv_ok :: "timeval \<Rightarrow> bool" where
  "tv_ok t \<longleftrightarrow> 0 \<le> tv_sec t \<and> 0 \<le> tv_usec t \<and> tv_usec t < 1000000"

definition us :: "timeval \<Rightarrow> int" where
  "us t = tv_sec t * 1000000 + tv_usec t"

definition armed :: "st_timer \<Rightarrow> bool" where
  "armed t \<longleftrightarrow> state_t t = 1 \<and> (func_t t \<noteq> NULL \<or> msgid_t t \<ge> 0) \<and> tv_ok (tv_t t) \<and> tv_ok (interval_t t) \<and>
     us (interval_t t) > 0"

definition timer_inv ::
  "('h \<Rightarrow> (addr \<rightharpoonup> addr list) \<Rightarrow> bool) \<Rightarrow> ('h \<Rightarrow> addr \<Rightarrow> bool) \<Rightarrow> 'h timer_state \<Rightarrow> nat list \<Rightarrow> nat list \<Rightarrow> bool" where
  "timer_inv rep node s w f \<longleftrightarrow> timer_lists rep node (clists s) w f \<and>
     set (w @ f) = {..<MAX_TIMER_NUMBER} \<and>
     (\<forall>i \<in> set w. armed (timers s i)) \<and> (\<forall>i \<in> set f. state_t (timers s i) = 0) \<and>
     (\<forall>i<MAX_TIMER_NUMBER. id_t (timers s i) = of_nat i) \<and>
     sorted_timers (timers s) w \<and> g_sem s = 1 \<and> init_b s = 0 \<and> started s = 1"

lemma cmptime_us: "tv_ok a \<Longrightarrow> tv_ok b \<Longrightarrow> cmptime a b \<longleftrightarrow> us b \<le> us a"
  unfolding cmptime_def us_def tv_ok_def by arith

lemma norm_us:
  assumes "tv_ok a" "tv_ok b" "u = tv_usec a + tv_usec b"
    "t = \<lparr>tv_sec = (tv_sec a + tv_sec b) + u sdiv 1000000, tv_usec = u smod 1000000\<rparr>"
  shows "tv_ok t" "us t = us a + us b"
proof -
  have u: "0 \<le> u" using assms by (simp add: tv_ok_def)
  then have "u sdiv 1000000 = u div 1000000" "u smod 1000000 = u mod 1000000"
    by (auto simp: signed_divide_int_def signed_modulo_int_def sgn_if)
  then have t: "tv_sec t = tv_sec a + tv_sec b + u div 1000000" "tv_usec t = u mod 1000000"
    using assms(4) by simp_all
  show "tv_ok t" using assms(1,2) u by (simp add: tv_ok_def t pos_imp_zdiv_nonneg_iff)
  have "u div 1000000 * 1000000 + u mod 1000000 = u" by simp
  then show "us t = us a + us b" using assms(3) unfolding us_def t by (simp add: algebra_simps)
qed

lemma advance_tv_us:
  assumes "armed t"
  shows "armed (advance_tv t)" "us (tv_t (advance_tv t)) = us (tv_t t) + us (interval_t t)"
    "id_t (advance_tv t) = id_t t" "func_t (advance_tv t) = func_t t" "msgid_t (advance_tv t) = msgid_t t"
    "times_t (advance_tv t) = times_t t" "parameter_t (advance_tv t) = parameter_t t"
    "interval_t (advance_tv t) = interval_t t" "state_t (advance_tv t) = state_t t"
  using assms norm_us[of "tv_t t" "interval_t t" _ "tv_t (advance_tv t)"]
  by (simp_all add: armed_def advance_tv_def Let_def)

lemma interval_of_ms:
  assumes "0 < n" "i = \<lparr>tv_sec = n sdiv 1000, tv_usec = n smod 1000 * 1000\<rparr>"
  shows "tv_ok i" "us i = n * 1000" "tv_sec i * 1000 + tv_usec i sdiv 1000 = n"
proof -
  have d: "n sdiv 1000 = n div 1000" "n smod 1000 = n mod 1000" "(n mod 1000 * 1000) sdiv 1000 = n mod 1000"
    using assms(1) by (auto simp: signed_divide_int_def signed_modulo_int_def sgn_if)
  have m: "n mod 1000 * 1000 < 1000000" using pos_mod_bound[of 1000 n] by linarith
  have e: "n div 1000 * 1000 + n mod 1000 = n" by simp
  show "tv_ok i" using assms m by (simp add: tv_ok_def d pos_imp_zdiv_nonneg_iff)
  have "n div 1000 * 1000000 + n mod 1000 * 1000 = n * 1000" using e by linarith
  then show "us i = n * 1000" by (simp add: us_def assms(2) d)
  show "tv_sec i * 1000 + tv_usec i sdiv 1000 = n" using e by (simp add: assms(2) d)
qed

lemma start_tv_us:
  assumes "0 < n" "tv_ok now"
  shows "tv_ok (tv_t (start_tv now n t))" "us (tv_t (start_tv now n t)) = us now + n * 1000"
    "tv_ok (interval_t (start_tv now n t))" "us (interval_t (start_tv now n t)) = n * 1000"
    "tv_sec (interval_t (start_tv now n t)) * 1000 + tv_usec (interval_t (start_tv now n t)) sdiv 1000 = n"
proof -
  let ?i = "interval_t (start_tv now n t)"
  have i: "?i = \<lparr>tv_sec = n sdiv 1000, tv_usec = n smod 1000 * 1000\<rparr>" by (simp add: start_tv_def Let_def)
  note ii = interval_of_ms[OF assms(1) i]
  show "tv_ok ?i" "us ?i = n * 1000" "tv_sec ?i * 1000 + tv_usec ?i sdiv 1000 = n" by (fact ii)+
  have "tv_t (start_tv now n t) = \<lparr>tv_sec = (tv_sec now + tv_sec ?i) + (tv_usec now + tv_usec ?i) sdiv 1000000,
      tv_usec = (tv_usec now + tv_usec ?i) smod 1000000\<rparr>" by (simp add: start_tv_def Let_def)
  from norm_us[OF assms(2) ii(1) refl this]
  show "tv_ok (tv_t (start_tv now n t))" "us (tv_t (start_tv now n t)) = us now + n * 1000" by (simp_all add: ii(2))
qed

lemma start_tv_fields [simp]:
  "id_t (start_tv now n t) = id_t t" "func_t (start_tv now n t) = func_t t" "msgid_t (start_tv now n t) = msgid_t t"
  "times_t (start_tv now n t) = times_t t" "parameter_t (start_tv now n t) = parameter_t t"
  "state_t (start_tv now n t) = state_t t"
  by (simp_all add: start_tv_def Let_def)

lemma id_word [simp]:
  assumes "i < MAX_TIMER_NUMBER"
  shows "unat (of_nat i :: 16 word) = i" "uint (of_nat i :: 16 word) = int i"
proof -
  show "unat (of_nat i :: 16 word) = i" using assms by (simp add: unat_of_nat MAX_TIMER_NUMBER_def)
  then show "uint (of_nat i :: 16 word) = int i" by (metis uint_nat)
qed

lemma id_inj: "i < MAX_TIMER_NUMBER \<Longrightarrow> j < MAX_TIMER_NUMBER \<Longrightarrow> (of_nat i :: 16 word) = of_nat j \<longleftrightarrow> i = j"
  by (metis id_word(1))

subsection \<open>Facts the invariant gives\<close>

lemma timer_inv_mem:
  assumes "timer_inv rep node s w f"
  shows "i \<in> set w \<Longrightarrow> i < MAX_TIMER_NUMBER" "i \<in> set f \<Longrightarrow> i < MAX_TIMER_NUMBER" "i \<in> set w \<Longrightarrow> i \<notin> set f"
    "i < MAX_TIMER_NUMBER \<Longrightarrow> i \<in> set w \<longleftrightarrow> state_t (timers s i) = 1"
    "i < MAX_TIMER_NUMBER \<Longrightarrow> i \<in> set f \<longleftrightarrow> state_t (timers s i) = 0"
    "i < MAX_TIMER_NUMBER \<Longrightarrow> id_t (timers s i) = of_nat i"
proof -
  have mem: "i \<in> set (w @ f) \<longleftrightarrow> i < MAX_TIMER_NUMBER" using assms unfolding timer_inv_def by blast
  have st: "i \<in> set w \<Longrightarrow> state_t (timers s i) = 1" "i \<in> set f \<Longrightarrow> state_t (timers s i) = 0"
    using assms by (auto simp: timer_inv_def armed_def)
  show "i \<in> set w \<Longrightarrow> i < MAX_TIMER_NUMBER" "i \<in> set f \<Longrightarrow> i < MAX_TIMER_NUMBER" "i \<in> set w \<Longrightarrow> i \<notin> set f"
    "i < MAX_TIMER_NUMBER \<Longrightarrow> i \<in> set w \<longleftrightarrow> state_t (timers s i) = 1"
    "i < MAX_TIMER_NUMBER \<Longrightarrow> i \<in> set f \<longleftrightarrow> state_t (timers s i) = 0"
    using mem st by auto
  show "i < MAX_TIMER_NUMBER \<Longrightarrow> id_t (timers s i) = of_nat i" using assms by (simp add: timer_inv_def)
qed

lemma timer_inv_globals: "timer_inv rep node s w f \<Longrightarrow> g_sem s = 1 \<and> init_b s = 0"
  by (simp add: timer_inv_def)

text \<open>Changing one timer and the lists at once.\<close>

lemma timer_inv_put:
  assumes "timer_inv rep node s w f" "timer_lists rep node h w' f'" "set (w' @ f') = {..<MAX_TIMER_NUMBER}"
    "id_t t = of_nat i" "\<forall>j \<in> set w'. if j = i then armed t else j \<in> set w"
    "\<forall>j \<in> set f'. if j = i then state_t t = 0 else j \<in> set f"
    "sorted_timers ((timers s)(i := t)) w'"
  shows "timer_inv rep node (s\<lparr>clists := h, timers := (timers s)(i := t)\<rparr>) w' f'"
  using assms by (auto simp: timer_inv_def)

lemma timer_inv_cong:
  assumes "timer_inv rep node s w f" "clists s' = clists s" "timers s' = timers s" "g_sem s' = 1"
    "init_b s' = init_b s" "started s' = started s"
  shows "timer_inv rep node s' w f"
  using assms by (simp add: timer_inv_def)

lemma sorted_timers_upd:
  "i \<notin> set w \<Longrightarrow> sorted_timers T w \<Longrightarrow> sorted_timers (T(i := t)) w"
  by (subst sorted_timers_cong[of w "T(i := t)" T]) auto

context clist_laws
begin

abbreviation inv :: "'h timer_state \<Rightarrow> nat list \<Rightarrow> nat list \<Rightarrow> bool" where
  "inv \<equiv> timer_inv rep node"

text \<open>A timer that is in neither list, changed and put back among the working ones.\<close>

lemma arm_timer:
  assumes "inv s w f" "lists_ok h v g" "insert i (set v) \<union> set g = {..<MAX_TIMER_NUMBER}" "i \<notin> set (v @ g)"
    "set v \<subseteq> set w" "set g \<subseteq> set f" "sorted_timers (timers s) v" "armed t" "id_t t = of_nat i"
    "clists s' = h" "timers s' = (timers s)(i := t)"
  shows "\<exists>r h'. insertTimer C i s' = Some (r, s'\<lparr>clists := h'\<rparr>) \<and>
    inv (s\<lparr>clists := h', timers := (timers s)(i := t)\<rparr>) (place_timer (timers s') i v) g"
proof -
  have i: "i < MAX_TIMER_NUMBER" using assms(3) by auto
  obtain r h' where h': "insertTimer C i s' = Some (r, s'\<lparr>clists := h'\<rparr>)" "lists_ok h' (place_timer (timers s') i v) g"
    using insertTimer_place[of s' v g i] assms(2,4,10) i by auto
  have "sorted_timers (timers s') v" using assms(4,7) unfolding assms(11) by (intro sorted_timers_upd) auto
  then have "sorted_timers (timers s') (place_timer (timers s') i v)" by (rule place_timer_sorted)
  then have "inv (s\<lparr>clists := h', timers := (timers s)(i := t)\<rparr>) (place_timer (timers s') i v) g"
    using assms by (intro timer_inv_put[OF assms(1) h'(2) _ assms(9)]) auto
  then show ?thesis using h'(1) by blast
qed

text \<open>A timer that is in neither list, switched off and put among the free ones.\<close>

lemma free_timer:
  assumes "inv s w f" "lists_ok h v f" "insert i (set v) \<union> set f = {..<MAX_TIMER_NUMBER}" "i \<notin> set (v @ f)"
    "set v \<subseteq> set w" "sorted_timers (timers s) v" "state_t t = 0" "id_t t = of_nat i"
  shows "\<exists>h'. cl_push_back C g_listTimerFree (timer_addr i) h = Some h' \<and>
    inv (s\<lparr>clists := h', timers := (timers s)(i := t)\<rparr>) v (f @ [i])"
proof -
  have i: "i < MAX_TIMER_NUMBER" using assms(3) by auto
  obtain h' where h': "cl_push_back C g_listTimerFree (timer_addr i) h = Some h'" "lists_ok h' v (f @ [i])"
    using free_push[OF assms(2) i assms(4)] by auto
  have "sorted_timers ((timers s)(i := t)) v" using assms(4,6) by (intro sorted_timers_upd) auto
  then have "inv (s\<lparr>clists := h', timers := (timers s)(i := t)\<rparr>) v (f @ [i])"
    using assms by (intro timer_inv_put[OF assms(1) h'(2) _ assms(8)]) auto
  then show ?thesis using h'(1) by blast
qed

lemma inv_parts:
  assumes "inv s w f"
  shows "lists_ok (clists s) w f" "set w \<union> set f = {..<MAX_TIMER_NUMBER}" "sorted_timers (timers s) w" "distinct (w @ f)"
    "i \<in> set w \<Longrightarrow> armed (timers s i)"
  using assms by (auto simp: timer_inv_def timer_lists_def)

subsection \<open>Setting a timer\<close>

lemma GetTimerID_free:
  assumes "inv s w (i # f)"
  shows "\<exists>h. GetTimerID C (s\<lparr>g_sem := 0\<rparr>) = Some (int i, s\<lparr>g_sem := 0, clists := h\<rparr>) \<and> lists_ok h w f"
  using free_pop[OF inv_parts(1)[OF assms]] lists_reads[OF inv_parts(1)[OF assms]] timer_inv_mem(2,6)[OF assms, of i]
  by (auto simp: GetTimerID_def on_clists_def timer_at_addr)

lemma GetTimerID_none:
  assumes "inv s w []"
  shows "GetTimerID C (s\<lparr>g_sem := 0\<rparr>) = Some (TIMER_ERROR, s\<lparr>g_sem := 0\<rparr>)"
  using lists_reads[OF inv_parts(1)[OF assms]] by (simp add: GetTimerID_def)

lemma timerInit_again: "inv s w f \<Longrightarrow> timerInit C os s = Some s"
  by (simp add: timer_inv_def timerInit_def)

lemma sem_section [simp]:
  "g_sem s = 1 \<Longrightarrow> sem_wait_g s = Some (s\<lparr>g_sem := 0\<rparr>)"
  "g_sem s = 0 \<Longrightarrow> sem_post_g s = s\<lparr>g_sem := 1\<rparr>"
  by (simp_all add: sem_wait_g_def sem_post_g_def)

lemma start_timer:
  assumes "inv s w (i # f)" "armed t" "id_t t = of_nat i"
  shows "\<exists>h r h'. GetTimerID C (s\<lparr>g_sem := 0\<rparr>) = Some (int i, s\<lparr>g_sem := 0, clists := h\<rparr>) \<and>
    insertTimer C i (s\<lparr>g_sem := 0, clists := h, timers := (timers s)(i := t)\<rparr>) =
      Some (r, s\<lparr>g_sem := 0, timers := (timers s)(i := t), clists := h'\<rparr>) \<and>
    inv (s\<lparr>clists := h', timers := (timers s)(i := t)\<rparr>) (place_timer ((timers s)(i := t)) i w) f"
proof -
  obtain h where h: "GetTimerID C (s\<lparr>g_sem := 0\<rparr>) = Some (int i, s\<lparr>g_sem := 0, clists := h\<rparr>)" "lists_ok h w f"
    using GetTimerID_free[OF assms(1)] by blast
  have "i \<notin> set (w @ f)" "insert i (set w) \<union> set f = {..<MAX_TIMER_NUMBER}"
    using inv_parts(2,4)[OF assms(1)] by auto
  from arm_timer[OF assms(1) h(2) this(2,1) _ _ inv_parts(3)[OF assms(1)] assms(2,3),
      of "s\<lparr>g_sem := 0, clists := h, timers := (timers s)(i := t)\<rparr>"]
  show ?thesis using h(1) by (force simp: subset_insertI)
qed

end

text \<open>What \<open>SetTimer\<close> and \<open>SetMsgTimer\<close> make of the timer they take.\<close>

definition timer_call :: "timeval \<Rightarrow> int \<Rightarrow> addr \<Rightarrow> addr \<Rightarrow> st_timer \<Rightarrow> st_timer" where
  "timer_call now ms pFunc param t =
     (start_tv now ms (t\<lparr>state_t := 1\<rparr>))\<lparr>func_t := pFunc, parameter_t := param, msgid_t := -1\<rparr>"

definition timer_msg :: "timeval \<Rightarrow> int \<Rightarrow> int \<Rightarrow> int \<Rightarrow> st_timer \<Rightarrow> st_timer" where
  "timer_msg now ms msgid n t = (start_tv now ms (t\<lparr>state_t := 1\<rparr>))\<lparr>msgid_t := msgid, times_t := n\<rparr>"

lemma start_armed:
  assumes "0 < ms" "tv_ok now"
  shows "pFunc \<noteq> NULL \<Longrightarrow> armed (timer_call now ms pFunc param t)"
    "0 \<le> msgid \<Longrightarrow> armed (timer_msg now ms msgid n t)"
    "id_t (timer_call now ms pFunc param t) = id_t t" "id_t (timer_msg now ms msgid n t) = id_t t"
    "armed u \<Longrightarrow> armed (start_tv now ms u)"
  using start_tv_us[OF assms] assms(1) by (simp_all add: armed_def timer_call_def timer_msg_def)

lemma id_same: "id_t t = w \<Longrightarrow> t\<lparr>state_t := 1, id_t := w\<rparr> = t\<lparr>state_t := 1\<rparr>"
  by (metis st_timer.surjective st_timer.update_convs(1,4) st_timer.select_convs(4))

context clist_laws
begin

lemma SetTimer_ok:
  assumes "inv s w (i # f)" "0 < ms" "pFunc \<noteq> NULL" "tv_ok now"
  shows "\<exists>h'. let T = (timers s)(i := timer_call now ms pFunc param (timers s i));
      s' = s\<lparr>timers := T, clists := h', g_sem_new := g_sem_new s + 1\<rparr> in
    SetTimer C os now ms pFunc param s = Some (int i, s') \<and> inv s' (place_timer T i w) f"
proof -
  let ?t = "timer_call now ms pFunc param (timers s i)" and ?T = "(timers s)(i := timer_call now ms pFunc param (timers s i))"
  have i: "i < MAX_TIMER_NUMBER" "id_t (timers s i) = of_nat i" "g_sem s = 1"
    using timer_inv_mem[OF assms(1), of i] timer_inv_globals[OF assms(1)] by auto
  obtain h r h' where h: "GetTimerID C (s\<lparr>g_sem := 0\<rparr>) = Some (int i, s\<lparr>g_sem := 0, clists := h\<rparr>)"
    "insertTimer C i (s\<lparr>g_sem := 0, clists := h, timers := ?T\<rparr>) = Some (r, s\<lparr>g_sem := 0, timers := ?T, clists := h'\<rparr>)"
    "inv (s\<lparr>clists := h', timers := ?T\<rparr>) (place_timer ?T i w) f"
    using start_timer[OF assms(1) start_armed(1)[OF assms(2,4,3)]] start_armed(3)[OF assms(2,4)] i(2) by metis
  have "SetTimer C os now ms pFunc param s = Some (int i, s\<lparr>timers := ?T, clists := h', g_sem_new := g_sem_new s + 1\<rparr>)"
    using assms(2,3) timerInit_again[OF assms(1)] h(1,2) i
    by (simp add: SetTimer_def TIMER_ERROR_def upd_timer_def id_same timer_call_def)
  moreover have "inv (s\<lparr>timers := ?T, clists := h', g_sem_new := g_sem_new s + 1\<rparr>) (place_timer ?T i w) f"
    by (rule timer_inv_cong[OF h(3)]) (simp_all add: i)
  ultimately show ?thesis by (auto simp: Let_def)
qed

lemma SetMsgTimer_ok:
  assumes "inv s w (i # f)" "0 < ms" "0 \<le> msgid" "tv_ok now"
  shows "\<exists>h'. let T = (timers s)(i := timer_msg now ms msgid n (timers s i));
      s' = s\<lparr>timers := T, clists := h', g_sem_new := g_sem_new s + 1\<rparr> in
    SetMsgTimer C os now ms msgid n s = Some (int i, s') \<and> inv s' (place_timer T i w) f"
proof -
  let ?t = "timer_msg now ms msgid n (timers s i)" and ?T = "(timers s)(i := timer_msg now ms msgid n (timers s i))"
  have i: "i < MAX_TIMER_NUMBER" "id_t (timers s i) = of_nat i" "g_sem s = 1"
    using timer_inv_mem[OF assms(1), of i] timer_inv_globals[OF assms(1)] by auto
  obtain h r h' where h: "GetTimerID C (s\<lparr>g_sem := 0\<rparr>) = Some (int i, s\<lparr>g_sem := 0, clists := h\<rparr>)"
    "insertTimer C i (s\<lparr>g_sem := 0, clists := h, timers := ?T\<rparr>) = Some (r, s\<lparr>g_sem := 0, timers := ?T, clists := h'\<rparr>)"
    "inv (s\<lparr>clists := h', timers := ?T\<rparr>) (place_timer ?T i w) f"
    using start_timer[OF assms(1) start_armed(2)[OF assms(2,4,3)]] start_armed(4)[OF assms(2,4)] i(2) by metis
  have "SetMsgTimer C os now ms msgid n s = Some (int i, s\<lparr>timers := ?T, clists := h', g_sem_new := g_sem_new s + 1\<rparr>)"
    using assms(2,3) timerInit_again[OF assms(1)] h(1,2) i
    by (simp add: SetMsgTimer_def TIMER_ERROR_def upd_timer_def id_same timer_msg_def)
  moreover have "inv (s\<lparr>timers := ?T, clists := h', g_sem_new := g_sem_new s + 1\<rparr>) (place_timer ?T i w) f"
    by (rule timer_inv_cong[OF h(3)]) (simp_all add: i)
  ultimately show ?thesis by (auto simp: Let_def)
qed

lemma Set_exhausted:
  assumes "inv s w []" "0 < ms"
  shows "pFunc \<noteq> NULL \<Longrightarrow> SetTimer C os now ms pFunc param s = Some (TIMER_ERROR, s)"
    "0 \<le> msgid \<Longrightarrow> SetMsgTimer C os now ms msgid n s = Some (TIMER_ERROR, s)"
  using assms(2) timerInit_again[OF assms(1)] GetTimerID_none[OF assms(1)] timer_inv_globals[OF assms(1)]
  by (simp_all add: SetTimer_def SetMsgTimer_def)

lemma KillTimer_working:
  assumes "inv s (ys @ i # zs) f"
  shows "\<exists>h'. KillTimer C (of_nat i) s = Some (s\<lparr>clists := h', timers := (timers s)(i := (timers s i)\<lparr>state_t := 0\<rparr>)\<rparr>) \<and>
    inv (s\<lparr>clists := h', timers := (timers s)(i := (timers s i)\<lparr>state_t := 0\<rparr>)\<rparr>) (ys @ zs) (f @ [i])"
proof -
  have i: "i < MAX_TIMER_NUMBER" "state_t (timers s i) = 1" "id_t (timers s i) = of_nat i" "g_sem s = 1"
    using timer_inv_mem[OF assms, of i] timer_inv_globals[OF assms] by auto
  obtain h where h: "cl_erase C (timer_addr i) (clists s) = Some h" "lists_ok h (ys @ zs) f"
    using work_erase[OF inv_parts(1)[OF assms]] by blast
  obtain h' where h': "cl_push_back C g_listTimerFree (timer_addr i) h = Some h'"
    "inv (s\<lparr>clists := h', timers := (timers s)(i := (timers s i)\<lparr>state_t := 0\<rparr>)\<rparr>) (ys @ zs) (f @ [i])"
    using free_timer[OF assms h(2), of i "(timers s i)\<lparr>state_t := 0\<rparr>"] inv_parts(2-4)[OF assms] i
    by (auto simp: sorted_wrt_append)
  have "KillTimer C (of_nat i) s = Some (s\<lparr>clists := h', timers := (timers s)(i := (timers s i)\<lparr>state_t := 0\<rparr>)\<rparr>)"
    using h(1) h'(1) i by (simp add: KillTimer_def on_clists_def upd_timer_def)
  then show ?thesis using h'(2) by blast
qed

lemma KillTimer_idle:
  assumes "inv s w f" "MAX_TIMER_NUMBER \<le> unat k \<or> unat k \<in> set f"
  shows "KillTimer C k s = Some s"
  using assms timer_inv_globals[OF assms(1)] timer_inv_mem(5)[OF assms(1), of "unat k"] timer_inv_mem(2)[OF assms(1), of "unat k"]
  by (auto simp: KillTimer_def)

lemma ChangeTimerTime_working:
  assumes "inv s (ys @ i # zs) f" "0 < ms" "tv_ok now"
  shows "\<exists>h'. let T = (timers s)(i := start_tv now ms (timers s i)) in
    ChangeTimerTime C now (of_nat i) ms s = Some (TIMER_OK, s\<lparr>timers := T, clists := h'\<rparr>) \<and>
    inv (s\<lparr>timers := T, clists := h'\<rparr>) (place_timer T i (ys @ zs)) f"
proof -
  let ?t = "start_tv now ms (timers s i)" and ?T = "(timers s)(i := start_tv now ms (timers s i))"
  have i: "i < MAX_TIMER_NUMBER" "state_t (timers s i) = 1" "id_t (timers s i) = of_nat i" "g_sem s = 1"
    using timer_inv_mem[OF assms(1), of i] timer_inv_globals[OF assms(1)] by auto
  obtain h where h: "cl_erase C (timer_addr i) (clists s) = Some h" "lists_ok h (ys @ zs) f"
    using work_erase[OF inv_parts(1)[OF assms(1)]] by blast
  have "armed ?t" using inv_parts(5)[OF assms(1), of i] start_armed(5)[OF assms(2,3)] by simp
  then obtain r h' where h': "insertTimer C i (s\<lparr>g_sem := 0, timers := ?T, clists := h\<rparr>) =
      Some (r, s\<lparr>g_sem := 0, timers := ?T, clists := h'\<rparr>)"
    "inv (s\<lparr>clists := h', timers := ?T\<rparr>) (place_timer ?T i (ys @ zs)) f"
    using arm_timer[OF assms(1) h(2), of i ?t "s\<lparr>g_sem := 0, timers := ?T, clists := h\<rparr>"] inv_parts(2-4)[OF assms(1)] i
    by (auto simp: sorted_wrt_append)
  have "ChangeTimerTime C now (of_nat i) ms s = Some (TIMER_OK, s\<lparr>timers := ?T, clists := h'\<rparr>)"
    using h(1) h'(1) i assms(2) by (simp add: ChangeTimerTime_def on_clists_def upd_timer_def)
  moreover have "inv (s\<lparr>timers := ?T, clists := h'\<rparr>) (place_timer ?T i (ys @ zs)) f"
    by (rule timer_inv_cong[OF h'(2)]) (simp_all add: i)
  ultimately show ?thesis by (auto simp: Let_def)
qed

end

section \<open>The timer thread\<close>

text \<open>What an expiry makes of a timer and what it sends.\<close>

definition fired :: "st_timer \<Rightarrow> st_timer" where
  "fired t = (if func_t t \<noteq> NULL \<or> times_t t \<le> 0 then advance_tv t
     else if times_t t = 1 then (advance_tv t)\<lparr>times_t := 0, state_t := 0\<rparr>
     else (advance_tv t)\<lparr>times_t := times_t t - 1\<rparr>)"

definition messages :: "st_timer \<Rightarrow> (int \<times> int \<times> 16 word) list" where
  "messages t = (if func_t t \<noteq> NULL then [] else [(msgid_t t, MSG_TYPE_FOR_TIMER, id_t t)])"

definition after_fire :: "nat \<Rightarrow> st_timer \<Rightarrow> thread_pc" where
  "after_fire i t = (if func_t t \<noteq> NULL then Call_func (timer_addr i) (func_t t) else At_loop)"

lemma fired_state:
  "armed t \<Longrightarrow> state_t (fired t) = (if func_t t = NULL \<and> times_t t = 1 then 0 else 1)"
  "armed t \<Longrightarrow> state_t (fired t) \<noteq> 0 \<Longrightarrow> armed (fired t)"
  "armed t \<Longrightarrow> id_t (fired t) = id_t t"
  "armed t \<Longrightarrow> us (tv_t (fired t)) = us (tv_t t) + us (interval_t t)"
  using advance_tv_us[of t] by (auto simp: fired_def armed_def)

text \<open>Updates of different fields commute; this is the order the proofs bring them to.\<close>

lemma upd_order:
  "s\<lparr>clists := h, sent := m\<rparr> = s\<lparr>sent := m, clists := h\<rparr>"
  "s\<lparr>clists := h, timers := T\<rparr> = s\<lparr>timers := T, clists := h\<rparr>"
  "s\<lparr>sent := m, timers := T\<rparr> = s\<lparr>timers := T, sent := m\<rparr>"
  by simp_all

context clist_laws
begin

lemma loop_idle:
  assumes "inv s [] f"
  shows "thread_loop C now s = Some (Wait_new, s)"
  using lists_reads[OF inv_parts(1)[OF assms]] timer_inv_globals[OF assms] by (simp add: thread_loop_def)

lemma loop_head:
  assumes "inv s (i # w) f"
  shows "thread_loop C now s = (if cmptime now (tv_t (timers s i)) then fire_timer C (timer_addr i) (s\<lparr>g_sem := 0\<rparr>)
    else Some (Read_time (timer_addr i), s))"
  using lists_reads[OF inv_parts(1)[OF assms]] timer_inv_globals[OF assms] timer_inv_mem[OF assms, of i]
  by (simp add: thread_loop_def timer_at_addr)

lemma fire_head:
  assumes "inv s (i # w) f"
  shows "\<exists>h'. let T = (timers s)(i := fired (timers s i));
      s' = s\<lparr>timers := T, sent := sent s @ messages (timers s i), clists := h'\<rparr> in
    fire_timer C (timer_addr i) (s\<lparr>g_sem := 0\<rparr>) = Some (after_fire i (timers s i), s') \<and>
    (if state_t (fired (timers s i)) = 0 then inv s' w (f @ [i]) else inv s' (place_timer T i w) f)"
proof -
  let ?t = "timers s i" let ?u = "fired ?t" let ?T = "(timers s)(i := ?u)" let ?m = "sent s @ messages ?t"
  have i: "i < MAX_TIMER_NUMBER" "id_t ?t = of_nat i" "g_sem s = 1" "armed ?t"
    using timer_inv_mem[OF assms, of i] timer_inv_globals[OF assms] inv_parts(5)[OF assms, of i] by auto
  obtain h where h: "cl_pop_front C g_listTimerWork (clists s) = Some h" "lists_ok h w f"
    using work_pop[OF inv_parts(1)[OF assms]] by blast
  note parts = inv_parts(2-4)[OF assms] and u = fired_state[OF i(4)] and adv = advance_tv_us[OF i(4)]
  have w: "insert i (set w) \<union> set f = {..<MAX_TIMER_NUMBER}" "i \<notin> set (w @ f)" "set w \<subseteq> set (i # w)" "sorted_timers (timers s) w"
    using parts by auto
  show ?thesis
  proof (cases "state_t ?u = 0")
    case True
    then have c: "func_t ?t = NULL" "times_t ?t = 1" "msgid_t ?t \<ge> 0" using u(1) i(4) by (auto simp: armed_def split: if_splits)
    obtain h' where h': "cl_push_back C g_listTimerFree (timer_addr i) h = Some h'" "inv (s\<lparr>clists := h', timers := ?T\<rparr>) w (f @ [i])"
      using free_timer[OF assms h(2) w True] u(3) i(2) by auto
    have "fire_timer C (timer_addr i) (s\<lparr>g_sem := 0\<rparr>) = Some (At_loop, s\<lparr>timers := ?T, sent := ?m, clists := h'\<rparr>)"
      using h(1) h'(1) c i adv
      by (simp add: fire_timer_def upd_timer_def on_clists_def timer_at_addr fired_def messages_def)
    moreover have "inv (s\<lparr>timers := ?T, sent := ?m, clists := h'\<rparr>) w (f @ [i])"
      by (rule timer_inv_cong[OF h'(2)]) (simp_all add: i)
    ultimately show ?thesis using True c by (auto simp: Let_def after_fire_def)
  next
    case False
    let ?s = "s\<lparr>g_sem := 0, timers := ?T, sent := ?m, clists := h\<rparr>"
    obtain r h' where h': "insertTimer C i ?s = Some (r, ?s\<lparr>clists := h'\<rparr>)"
      "inv (s\<lparr>clists := h', timers := ?T\<rparr>) (place_timer ?T i w) f"
      using arm_timer[OF assms h(2) w(1,2,3) order_refl w(4) u(2)[OF False], of ?s] u(3) i(2) by auto
    have c: "func_t ?t \<noteq> NULL \<or> func_t ?t = NULL \<and> times_t ?t \<noteq> 1 \<and> msgid_t ?t \<ge> 0"
      using False u(1) i(4) by (auto simp: armed_def split: if_splits)
    have "fire_timer C (timer_addr i) (s\<lparr>g_sem := 0\<rparr>) = Some (after_fire i ?t, s\<lparr>timers := ?T, sent := ?m, clists := h'\<rparr>)"
      using h(1) h'(1) c i adv
      by (auto simp: fire_timer_def upd_timer_def on_clists_def timer_at_addr fired_def messages_def after_fire_def upd_order)
    moreover have "inv (s\<lparr>timers := ?T, sent := ?m, clists := h'\<rparr>) (place_timer ?T i w) f"
      by (rule timer_inv_cong[OF h'(2)]) (simp_all add: i)
    ultimately show ?thesis using False by (auto simp: Let_def)
  qed
qed

end

section \<open>Initialisation\<close>

definition timer_start :: "'h \<Rightarrow> 'h timer_state" where
  "timer_start h = \<lparr>clists = h, timers = (\<lambda>i. zero_timer), g_sem = 0, g_sem_new = 0, init_b = -1, started = 0,
     sent = [], called = []\<rparr>"

definition static_nodes :: "('h \<Rightarrow> addr \<Rightarrow> bool) \<Rightarrow> 'h \<Rightarrow> bool" where
  "static_nodes node h \<longleftrightarrow> node h g_listTimerWork \<and> node h g_listTimerFree \<and>
     (\<forall>i<MAX_TIMER_NUMBER. node h (timer_addr i))"

context clist_laws
begin

lemma init_lists:
  assumes "static_nodes node h"
  shows "\<exists>h1 h2. cl_init C g_listTimerWork h = Some h1 \<and> cl_init C g_listTimerFree h1 = Some h2 \<and> lists_ok h2 [] []"
proof -
  have n: "node h g_listTimerWork" "node h g_listTimerFree" using assms by (simp_all add: static_nodes_def)
  obtain h1 where h1: "cl_init C g_listTimerWork h = Some h1" "rep h1 [g_listTimerWork \<mapsto> []]" "node h1 = node h"
    using init_rep[OF rep_empty n(1)] by (auto simp: occupied_def)
  have free: "g_listTimerFree \<notin> occupied [g_listTimerWork \<mapsto> []]" by (auto simp: occupied_def split: if_splits)
  obtain h2 where h2: "cl_init C g_listTimerFree h1 = Some h2" "rep h2 ([g_listTimerWork \<mapsto> []](g_listTimerFree \<mapsto> []))" "node h2 = node h1"
    using init_rep[OF h1(2), of g_listTimerFree] n(2) h1(3) free by auto
  have "lists_ok h2 [] []" using assms h2 h1(3) by (simp add: timer_lists_def timer_map_def static_nodes_def)
  then show ?thesis using h1 h2 by blast
qed

lemma init_loop:
  assumes "lists_ok (clists s) [] []" "timers s = (\<lambda>i. zero_timer)" "k \<le> MAX_TIMER_NUMBER"
  shows "\<exists>h'. foldM (init_one C) [0..<k] s =
      Some (s\<lparr>timers := (\<lambda>i. if i < k then zero_timer\<lparr>id_t := of_nat i\<rparr> else zero_timer), clists := h'\<rparr>) \<and>
    lists_ok h' [] [0..<k]"
  using assms(3)
proof (induction k)
  case 0
  then show ?case using assms(1,2) by (intro exI[of _ "clists s"]) simp
next
  case (Suc k)
  let ?T = "\<lambda>k i. if i < k then zero_timer\<lparr>id_t := of_nat i\<rparr> else zero_timer"
  obtain h where h: "foldM (init_one C) [0..<k] s = Some (s\<lparr>timers := ?T k, clists := h\<rparr>)"
    "lists_ok h [] [0..<k]" using Suc by auto
  obtain h' where h': "cl_push_back C g_listTimerFree (timer_addr k) h = Some h'" "lists_ok h' [] ([0..<k] @ [k])"
    using free_push[OF h(2), of k] Suc.prems by auto
  have "(?T k)(k := zero_timer\<lparr>id_t := of_nat k\<rparr>) = ?T (Suc k)" by auto
  then have "init_one C k (s\<lparr>timers := ?T k, clists := h\<rparr>) = Some (s\<lparr>timers := ?T (Suc k), clists := h'\<rparr>)"
    using h'(1) Suc.prems by (simp add: init_one_def upd_timer_def on_clists_def upd_order)
  then show ?case using h(1) h'(2) by (auto simp: foldM_append)
qed

lemma timerInit_start:
  assumes "static_nodes node h"
  shows "\<exists>h'. timerInit C (True, True, True) (timer_start h) =
      Some (timer_start h\<lparr>clists := h', timers := (\<lambda>i. if i < MAX_TIMER_NUMBER then zero_timer\<lparr>id_t := of_nat i\<rparr> else zero_timer),
        init_b := 0, g_sem := 1, started := 1\<rparr>) \<and>
    inv (timer_start h\<lparr>clists := h', timers := (\<lambda>i. if i < MAX_TIMER_NUMBER then zero_timer\<lparr>id_t := of_nat i\<rparr> else zero_timer),
        init_b := 0, g_sem := 1, started := 1\<rparr>) [] [0..<MAX_TIMER_NUMBER]"
proof -
  obtain h1 h2 where h: "cl_init C g_listTimerWork h = Some h1" "cl_init C g_listTimerFree h1 = Some h2" "lists_ok h2 [] []"
    using init_lists[OF assms] by blast
  let ?s = "timer_start h\<lparr>init_b := 0, timers := \<lambda>i. zero_timer, clists := h2\<rparr>"
  obtain h' where h': "foldM (init_one C) [0..<MAX_TIMER_NUMBER] ?s =
      Some (?s\<lparr>timers := (\<lambda>i. if i < MAX_TIMER_NUMBER then zero_timer\<lparr>id_t := of_nat i\<rparr> else zero_timer), clists := h'\<rparr>)"
    "lists_ok h' [] [0..<MAX_TIMER_NUMBER]" using init_loop[of ?s MAX_TIMER_NUMBER] h(3) by auto
  show ?thesis using h h'
    by (intro exI[of _ h']) (auto simp: timerInit_def timer_start_def on_clists_def timer_inv_def zero_timer_def Let_def)
qed

lemma timerInit_fails: "timerInit C os (timer_start h) = Some s \<Longrightarrow> os = (True, True, True)"
  by (cases os) (auto simp: timerInit_def timer_start_def Let_def)

end

section \<open>Reachable states\<close>

text \<open>
  The states of the program: any calls of the interface, from any thread, and the steps of the
  timer thread, which runs once \<open>timerInit\<close> has created it. The times a call reads are given by
  the environment and need not even grow.
\<close>

inductive timer_reach ::
  "'h clist_ops \<Rightarrow> 'h \<Rightarrow> thread_pc \<Rightarrow> 'h timer_state \<Rightarrow> bool" for C h where
  start: "timer_reach C h At_loop (timer_start h)"
| thread: "timer_reach C h pc s \<Longrightarrow> started s > 0 \<Longrightarrow> tv_ok now \<Longrightarrow> thread_timer C now pc s = Some (pc', s') \<Longrightarrow>
    timer_reach C h pc' s'"
| set_timer: "timer_reach C h pc s \<Longrightarrow> tv_ok now \<Longrightarrow> SetTimer C os now ms pFunc param s = Some (r, s') \<Longrightarrow>
    timer_reach C h pc s'"
| set_msg: "timer_reach C h pc s \<Longrightarrow> tv_ok now \<Longrightarrow> SetMsgTimer C os now ms msgid n s = Some (r, s') \<Longrightarrow>
    timer_reach C h pc s'"
| kill: "timer_reach C h pc s \<Longrightarrow> KillTimer C k s = Some s' \<Longrightarrow> timer_reach C h pc s'"
| change: "timer_reach C h pc s \<Longrightarrow> tv_ok now \<Longrightarrow> ChangeTimerTime C now k ms s = Some (r, s') \<Longrightarrow>
    timer_reach C h pc s'"

fun pc_ok :: "thread_pc \<Rightarrow> bool" where
  "pc_ok (Call_func a f) = (timer_of a \<noteq> None)"
| "pc_ok (Read_time a) = (timer_of a \<noteq> None)"
| "pc_ok _ = True"

context clist_laws
begin

lemma thread_step:
  assumes "inv s w f" "pc_ok pc"
  shows "\<exists>pc' s' w' f'. thread_timer C now pc s = Some (pc', s') \<and> inv s' w' f' \<and> pc_ok pc'"
proof (cases pc)
  case At_loop
  show ?thesis
  proof (cases w)
    case Nil
    then show ?thesis using loop_idle[of s f now] assms(1) At_loop by auto
  next
    case (Cons i v)
    have i: "i < MAX_TIMER_NUMBER" using timer_inv_mem(1)[OF assms(1), of i] Cons by simp
    then have "pc_ok (after_fire i t)" "pc_ok (Read_time (timer_addr i))" for t by (simp_all add: after_fire_def)
    then show ?thesis
      using At_loop assms(1) fire_head[of s i v f] loop_head[of s i v f now] unfolding Cons
      by (cases "cmptime now (tv_t (timers s i))") (auto simp: Let_def split: if_splits)
  qed
next
  case (Call_func a g)
  then obtain i where "timer_of a = Some i" using assms(2) by auto
  moreover have "inv (s\<lparr>called := c\<rparr>) w f" for c
    by (rule timer_inv_cong[OF assms(1)]) (simp_all add: timer_inv_globals[OF assms(1)])
  ultimately show ?thesis using Call_func by (auto simp: timer_at_def)
next
  case (Read_time a)
  then obtain i where "timer_of a = Some i" using assms(2) by auto
  then show ?thesis using Read_time assms(1) by (auto simp: timer_at_def)
next
  case Wait_new
  have "inv (s\<lparr>g_sem_new := c\<rparr>) w f" for c
    by (rule timer_inv_cong[OF assms(1)]) (simp_all add: timer_inv_globals[OF assms(1)])
  then show ?thesis using Wait_new assms(1) by auto
next
  case (Sleep_until t)
  have "inv (s\<lparr>g_sem_new := c\<rparr>) w f" for c
    by (rule timer_inv_cong[OF assms(1)]) (simp_all add: timer_inv_globals[OF assms(1)])
  then show ?thesis using Sleep_until assms(1) by auto
qed

lemma Set_inv:
  assumes "inv s w f" "tv_ok now"
  shows "SetTimer C os now ms pFunc param s = Some (r, s') \<Longrightarrow> \<exists>w f. inv s' w f"
    "SetMsgTimer C os now ms msgid n s = Some (r, s') \<Longrightarrow> \<exists>w f. inv s' w f"
proof -
  assume r: "SetTimer C os now ms pFunc param s = Some (r, s')"
  consider "\<not> (0 < ms \<and> pFunc \<noteq> NULL)" | "0 < ms" "pFunc \<noteq> NULL" "f = []" | i g where "0 < ms" "pFunc \<noteq> NULL" "f = i # g"
    by (cases f) auto
  then show "\<exists>w f. inv s' w f"
  proof cases
    case 1
    then have "s' = s" using r by (auto simp: SetTimer_def)
    then show ?thesis using assms(1) by blast
  next
    case 2
    then have "s' = s" using r assms(1) Set_exhausted(1)[of s w ms pFunc os now param] by simp
    then show ?thesis using assms(1) by blast
  next
    case 3
    then show ?thesis using r assms SetTimer_ok[of s w i g ms pFunc now param os] by (auto simp: Let_def)
  qed
next
  assume r: "SetMsgTimer C os now ms msgid n s = Some (r, s')"
  consider "\<not> (0 < ms \<and> 0 \<le> msgid)" | "0 < ms" "0 \<le> msgid" "f = []" | i g where "0 < ms" "0 \<le> msgid" "f = i # g"
    by (cases f) auto
  then show "\<exists>w f. inv s' w f"
  proof cases
    case 1
    then have "s' = s" using r by (auto simp: SetMsgTimer_def)
    then show ?thesis using assms(1) by blast
  next
    case 2
    then have "s' = s" using r assms(1) Set_exhausted(2)[of s w ms msgid os now n] by simp
    then show ?thesis using assms(1) by blast
  next
    case 3
    then show ?thesis using r assms SetMsgTimer_ok[of s w i g ms msgid now n os] by (auto simp: Let_def)
  qed
qed

lemma Set_first:
  assumes "static_nodes node h" "tv_ok now"
  shows "SetTimer C os now ms pFunc param (timer_start h) = Some (r, s') \<Longrightarrow> s' = timer_start h \<or> (\<exists>w f. inv s' w f)"
    "SetMsgTimer C os now ms msgid n (timer_start h) = Some (r, s') \<Longrightarrow> s' = timer_start h \<or> (\<exists>w f. inv s' w f)"
proof -
  obtain s1 where s1: "timerInit C (True, True, True) (timer_start h) = Some s1" "inv s1 [] [0..<MAX_TIMER_NUMBER]"
    using timerInit_start[OF assms(1)] by blast
  note again = timerInit_again[OF s1(2)]
  {
    assume r: "SetTimer C os now ms pFunc param (timer_start h) = Some (r, s')"
    show "s' = timer_start h \<or> (\<exists>w f. inv s' w f)"
    proof (cases "0 < ms \<and> pFunc \<noteq> NULL")
      case True
      then have "os = (True, True, True)" using r timerInit_fails[of os h] by (auto simp: SetTimer_def)
      then have "SetTimer C os now ms pFunc param s1 = Some (r, s')"
        using True r s1(1) again by (simp add: SetTimer_def)
      then show ?thesis using Set_inv(1)[OF s1(2) assms(2)] by blast
    qed (use r in \<open>auto simp: SetTimer_def\<close>)
  next
    assume r: "SetMsgTimer C os now ms msgid n (timer_start h) = Some (r, s')"
    show "s' = timer_start h \<or> (\<exists>w f. inv s' w f)"
    proof (cases "0 < ms \<and> 0 \<le> msgid")
      case True
      then have "os = (True, True, True)" using r timerInit_fails[of os h] by (auto simp: SetMsgTimer_def)
      then have "SetMsgTimer C os now ms msgid n s1 = Some (r, s')"
        using True r s1(1) again by (simp add: SetMsgTimer_def)
      then show ?thesis using Set_inv(2)[OF s1(2) assms(2)] by blast
    qed (use r in \<open>auto simp: SetMsgTimer_def\<close>)
  }
qed

lemma Kill_inv:
  assumes "inv s w f" "KillTimer C k s = Some s'"
  shows "\<exists>w f. inv s' w f"
proof (cases "unat k \<in> set w")
  case True
  then obtain ys zs where w: "w = ys @ unat k # zs" by (meson split_list)
  show ?thesis using KillTimer_working[of s ys "unat k" zs f] assms unfolding w by auto
next
  case False
  have "unat k \<in> set w \<union> set f \<longleftrightarrow> unat k < MAX_TIMER_NUMBER" unfolding inv_parts(2)[OF assms(1)] by simp
  then have "MAX_TIMER_NUMBER \<le> unat k \<or> unat k \<in> set f" using False by auto
  then have "s' = s" using KillTimer_idle[OF assms(1)] assms(2) by simp
  then show ?thesis using assms(1) by blast
qed

lemma Change_inv:
  assumes "inv s w f" "tv_ok now" "ChangeTimerTime C now k ms s = Some (r, s')"
  shows "\<exists>w f. inv s' w f"
proof (cases "unat k \<in> set w \<and> 0 < ms")
  case True
  then obtain ys zs where w: "w = ys @ unat k # zs" by (meson split_list)
  show ?thesis using ChangeTimerTime_working[of s ys "unat k" zs f ms now] assms True unfolding w by (auto simp: Let_def)
next
  case False
  have "s' = s"
  proof (cases "unat k < MAX_TIMER_NUMBER \<and> 0 < ms")
    case True
    then have "state_t (timers s (unat k)) = 0"
      using False inv_parts(2)[OF assms(1)] timer_inv_mem(5)[OF assms(1), of "unat k"] by blast
    then show ?thesis using assms(3) True timer_inv_globals[OF assms(1)] by (auto simp: ChangeTimerTime_def)
  next
    case False
    then show ?thesis using assms(3) by (simp add: ChangeTimerTime_def not_less)
  qed
  then show ?thesis using assms(1) by blast
qed

text \<open>Before the first timer is set the semaphore is not initialised: a call that waits for it
  does not return.\<close>

lemma Kill_start: "KillTimer C k (timer_start h) = Some s' \<Longrightarrow> s' = timer_start h"
  by (auto simp: KillTimer_def sem_wait_g_def timer_start_def split: if_splits)

lemma Change_start: "ChangeTimerTime C now k ms (timer_start h) = Some (r, s') \<Longrightarrow> s' = timer_start h"
  by (auto simp: ChangeTimerTime_def sem_wait_g_def timer_start_def split: if_splits)

lemma timer_reach_inv:
  assumes "static_nodes node h" "timer_reach C h pc s"
  shows "pc_ok pc \<and> (s = timer_start h \<or> (\<exists>w f. inv s w f))"
  using assms(2)
proof (induction rule: timer_reach.induct)
  case start
  then show ?case by simp
next
  case (thread pc s now pc' s')
  then have "s \<noteq> timer_start h" by (auto simp: timer_start_def)
  then obtain w f where "inv s w f" using thread by blast
  then show ?case using thread_step[of s w f pc now] thread by auto
next
  case (set_timer pc s now os ms pFunc param r s')
  then show ?case using Set_first(1)[OF assms(1) set_timer(2)] Set_inv(1)[OF _ set_timer(2)] by metis
next
  case (set_msg pc s now os ms msgid n r s')
  then show ?case using Set_first(2)[OF assms(1) set_msg(2)] Set_inv(2)[OF _ set_msg(2)] by metis
next
  case (kill pc s k s')
  then show ?case using Kill_inv[of s _ _ k s'] Kill_start[of k h s'] by metis
next
  case (change pc s now k ms r s')
  then show ?case using Change_inv[OF _ change(2), of s _ _ k ms r s'] Change_start[of now k ms h r s'] by metis
qed

end

section \<open>Counting the messages of a timer\<close>

inductive thread_run ::
  "'h clist_ops \<Rightarrow> thread_pc \<Rightarrow> 'h timer_state \<Rightarrow> thread_pc \<Rightarrow> 'h timer_state \<Rightarrow> bool" for C pc s where
  stop: "thread_run C pc s pc s"
| step: "thread_run C pc s pc' s' \<Longrightarrow> thread_timer C now pc' s' = Some (pc'', s'') \<Longrightarrow> thread_run C pc s pc'' s''"

definition msgs_of :: "nat \<Rightarrow> (int \<times> int \<times> 16 word) list \<Rightarrow> nat" where
  "msgs_of i ms = length (filter (\<lambda>m. snd (snd m) = of_nat i) ms)"

text \<open>A message timer that was set for \<open>n\<close> expiries: what it has sent and what it will still send.\<close>

definition counts :: "nat \<Rightarrow> nat \<Rightarrow> 'h timer_state \<Rightarrow> bool" where
  "counts i N s \<longleftrightarrow> func_t (timers s i) = NULL \<and> 0 \<le> times_t (timers s i) \<and>
     int (msgs_of i (sent s)) + times_t (timers s i) = int N \<and>
     (state_t (timers s i) = 1 \<longleftrightarrow> 0 < times_t (timers s i))"

lemma msgs_of_fired:
  assumes "i < MAX_TIMER_NUMBER" "j < MAX_TIMER_NUMBER" "id_t t = of_nat j"
  shows "msgs_of i (messages t) = (if i = j \<and> func_t t = NULL then 1 else 0)"
  using id_inj[OF assms(2,1)] assms(3) by (auto simp: msgs_of_def messages_def)

lemma counts_fire:
  assumes "counts i N s" "armed (timers s j)" "id_t (timers s j) = of_nat j" "i < MAX_TIMER_NUMBER" "j < MAX_TIMER_NUMBER"
  shows "counts i N (s\<lparr>timers := (timers s)(j := fired (timers s j)), sent := sent s @ messages (timers s j), clists := h\<rparr>)"
proof (cases "i = j")
  case True
  have "state_t (timers s j) = 1" using assms(2) by (simp add: armed_def)
  then have t: "0 < times_t (timers s j)" "func_t (timers s j) = NULL" using assms(1) True by (auto simp: counts_def)
  have m: "msgs_of i (sent s @ messages (timers s j)) = msgs_of i (sent s) + 1"
    using msgs_of_fired[OF assms(4,5,3)] True t by (simp add: msgs_of_def)
  have "times_t (fired (timers s j)) = times_t (timers s j) - 1" "func_t (fired (timers s j)) = NULL"
    using t advance_tv_us[OF assms(2)] by (auto simp: fired_def)
  then show ?thesis using assms(1) m t fired_state(1)[OF assms(2)] True by (auto simp: counts_def)
next
  case False
  have "msgs_of i (sent s @ messages (timers s j)) = msgs_of i (sent s)"
    using msgs_of_fired[OF assms(4,5,3)] False by (simp add: msgs_of_def)
  then show ?thesis using assms(1) False by (simp add: counts_def)
qed

context clist_laws
begin

lemma counts_step:
  assumes "inv s w f" "counts i N s" "i < MAX_TIMER_NUMBER" "thread_timer C now pc s = Some (pc', s')"
  shows "counts i N s'"
proof (cases pc)
  case At_loop
  show ?thesis
  proof (cases w)
    case Nil
    then show ?thesis using loop_idle[of s f now] assms At_loop by simp
  next
    case (Cons j v)
    have j: "armed (timers s j)" "id_t (timers s j) = of_nat j" "j < MAX_TIMER_NUMBER"
      using timer_inv_mem[OF assms(1), of j] inv_parts(5)[OF assms(1), of j] Cons by auto
    show ?thesis
    proof (cases "cmptime now (tv_t (timers s j))")
      case True
      then obtain h where "s' = s\<lparr>timers := (timers s)(j := fired (timers s j)), sent := sent s @ messages (timers s j), clists := h\<rparr>"
        using assms(1,4) At_loop fire_head[of s j v f] loop_head[of s j v f now] unfolding Cons by (auto simp: Let_def)
      then show ?thesis using counts_fire[OF assms(2) j(1,2) assms(3) j(3)] by simp
    next
      case False
      then show ?thesis using assms At_loop loop_head[of s j v f now] unfolding Cons by simp
    qed
  qed
qed (use assms(2,4) in \<open>auto simp: counts_def split: if_splits\<close>)

lemma counts_run:
  assumes "thread_run C pc s pc' s'" "inv s w f" "pc_ok pc" "counts i N s" "i < MAX_TIMER_NUMBER"
  shows "counts i N s' \<and> pc_ok pc' \<and> (\<exists>w f. inv s' w f)"
  using assms(1)
proof (induction rule: thread_run.induct)
  case stop
  then show ?case using assms by blast
next
  case (step pc' s' now pc'' s'')
  then obtain w f where inv: "inv s' w f" by blast
  then show ?case using counts_step[OF inv _ assms(5) step(2)] thread_step[OF inv, of pc' now] step by auto
qed

lemma lists_exist:
  assumes "static_nodes node h" "distinct (w @ f)" "\<forall>i\<in>set (w @ f). i < MAX_TIMER_NUMBER"
  shows "\<exists>h'. lists_ok h' w f"
  using assms(2,3)
proof (induction f rule: rev_induct)
  case Nil
  then show ?case
  proof (induction w rule: rev_induct)
    case Nil
    then show ?case using init_lists[OF assms(1)] by blast
  next
    case (snoc i w)
    then obtain h where "lists_ok h w []" by auto
    then show ?case using work_push(1)[of h w "[]" i] snoc.prems by auto
  qed
next
  case (snoc i f)
  then obtain h where "lists_ok h w f" by auto
  then show ?case using free_push[of h w f i] snoc.prems by auto
qed

end

section \<open>Properties\<close>

text \<open>
  States for the witnesses, over the list of list.h in a memory where every address holds a list
  head: all timers free, and all timers working, due at second 10, each calling the function at 7.
\<close>

definition ex_nodes :: lheap where
  "ex_nodes = (\<lambda>a. Some \<lparr>next_f = 0, prev_f = 0\<rparr>)"

definition ex_timer :: "int \<Rightarrow> nat \<Rightarrow> st_timer" where
  "ex_timer st i = \<lparr>state_t = st, times_t = 0, msgid_t = -1, id_t = of_nat i, tv_t = \<lparr>tv_sec = 10, tv_usec = 0\<rparr>,
     interval_t = \<lparr>tv_sec = 1, tv_usec = 500000\<rparr>, func_t = 7, parameter_t = 9\<rparr>"

definition ex_state :: "lheap \<Rightarrow> int \<Rightarrow> lheap timer_state" where
  "ex_state h st = (timer_start h)\<lparr>timers := ex_timer st, g_sem := 1, init_b := 0, started := 1\<rparr>"

lemma ex_static: "static_nodes (\<lambda>h a. a \<in> dom h) ex_nodes"
  by (simp add: static_nodes_def ex_nodes_def)

lemma ex_armed: "armed (ex_timer 1 i)"
  by (simp add: armed_def ex_timer_def tv_ok_def us_def)

lemma ex_lists:
  "\<exists>h. timer_lists ring_rep (\<lambda>h a. a \<in> dom h) h [0..<MAX_TIMER_NUMBER] []"
  "\<exists>h. timer_lists ring_rep (\<lambda>h a. a \<in> dom h) h [] [0..<MAX_TIMER_NUMBER]"
  by (rule ring.lists_exist[OF ex_static]; simp)+

lemma ex_inv:
  "timer_lists ring_rep node h [0..<MAX_TIMER_NUMBER] [] \<Longrightarrow>
    timer_inv ring_rep node (ex_state h 1) [0..<MAX_TIMER_NUMBER] []"
  "timer_lists ring_rep node h [] [0..<MAX_TIMER_NUMBER] \<Longrightarrow>
    timer_inv ring_rep node (ex_state h 0) [] [0..<MAX_TIMER_NUMBER]"
proof -
  have "sorted_timers (ex_timer 1) w" for w by (induction w) (simp_all add: ex_timer_def)
  then show "timer_lists ring_rep node h [0..<MAX_TIMER_NUMBER] [] \<Longrightarrow>
    timer_inv ring_rep node (ex_state h 1) [0..<MAX_TIMER_NUMBER] []"
    using ex_armed by (auto simp: timer_inv_def ex_state_def timer_start_def, simp add: ex_timer_def)
  show "timer_lists ring_rep node h [] [0..<MAX_TIMER_NUMBER] \<Longrightarrow>
    timer_inv ring_rep node (ex_state h 0) [] [0..<MAX_TIMER_NUMBER]"
    by (auto simp: timer_inv_def ex_state_def timer_start_def ex_timer_def)
qed

lemma all_timers: "[0..<MAX_TIMER_NUMBER] = 0 # [1..<MAX_TIMER_NUMBER]"
proof -
  have "0 < MAX_TIMER_NUMBER" by (simp add: MAX_TIMER_NUMBER_def)
  then show ?thesis by (simp add: upt_conv_Cons)
qed



text \<open>
  C15: The timer thread looks at the timer at the head of the working list, which expires no later
  than any other. Before its time nothing changes and the thread goes to sleep until exactly
  that time. At or after its time the timer fires: the function is called or one message with the
  timer's id is sent, and the next expiry is the last one plus the interval, so a late wake-up does
  not shift the period.
\<close>
theorem timer_fires_in_order:
  assumes "clist_laws C rep node" "timer_inv rep node s (i # w) f" "tv_ok now"
  shows "(\<forall>j \<in> set w. us (tv_t (timers s i)) \<le> us (tv_t (timers s j))) \<and>
    (if us now < us (tv_t (timers s i))
     then thread_timer C now At_loop s = Some (Read_time (timer_addr i), s) \<and>
       thread_timer C now (Read_time (timer_addr i)) s = Some (Sleep_until (tv_t (timers s i)), s)
     else \<exists>s'. thread_timer C now At_loop s = Some (after_fire i (timers s i), s') \<and>
       sent s' = sent s @ messages (timers s i) \<and> called s' = called s \<and>
       us (tv_t (timers s' i)) = us (tv_t (timers s i)) + us (interval_t (timers s i)) \<and>
       (\<forall>j. j \<noteq> i \<longrightarrow> timers s' j = timers s j))"
proof -
  have ok: "armed (timers s j)" "tv_ok (tv_t (timers s j))" if "j \<in> set (i # w)" for j
    using assms(2) that by (auto simp: timer_inv_def armed_def)
  have i: "i < MAX_TIMER_NUMBER" using timer_inv_mem(1)[OF assms(2), of i] by simp
  have c: "cmptime now (tv_t (timers s i)) \<longleftrightarrow> \<not> us now < us (tv_t (timers s i))"
    using cmptime_us[OF assms(3), of "tv_t (timers s i)"] ok by auto
  have "us (tv_t (timers s i)) \<le> us (tv_t (timers s j))" if "j \<in> set w" for j
    using assms(2) that cmptime_us[of "tv_t (timers s j)" "tv_t (timers s i)"] ok by (auto simp: timer_inv_def)
  moreover note clist_laws.loop_head[OF assms(1,2), of now] clist_laws.fire_head[OF assms(1,2)]
    fired_state(4)[OF ok(1), of i]
  ultimately show ?thesis using i c
    by (auto simp: timer_at_addr Let_def)
qed

theorem timer_fires_in_order_witness:
  "\<exists>h s'. thread_timer ring_ops \<lparr>tv_sec = 12, tv_usec = 0\<rparr> At_loop (ex_state h 1) = Some (Call_func (timer_addr 0) 7, s') \<and>
    us (tv_t (timers s' 0)) = 11500000"
proof -
  obtain h where "timer_inv ring_rep (\<lambda>h a. a \<in> dom h) (ex_state h 1) (0 # [1..<MAX_TIMER_NUMBER]) []"
    using ex_lists(1) ex_inv(1) unfolding all_timers by blast
  from timer_fires_in_order[OF ring.clist_laws_axioms this, of "\<lparr>tv_sec = 12, tv_usec = 0\<rparr>"]
  show ?thesis by (intro exI[of _ h]) (auto simp: us_def tv_ok_def ex_state_def ex_timer_def after_fire_def timer_start_def)
qed

text \<open>
  C16: A message timer set for \<open>n > 0\<close> expiries, on a timer that holds no function, sends at most
  \<open>n\<close> messages however the timer thread runs, and it is switched off exactly when the last
  one has been sent.
\<close>
theorem msg_timer_limited:
  assumes "clist_laws C rep node" "timer_inv rep node s w (i # f)" "func_t (timers s i) = NULL"
    "0 < ms" "0 \<le> msgid" "0 < n" "tv_ok now" "pc_ok pc"
    "SetMsgTimer C os now ms msgid n s = Some (r, s1)" "thread_run C pc s1 pc' s2"
  shows "msgs_of i (sent s2) \<le> msgs_of i (sent s) + nat n \<and>
    (state_t (timers s2 i) = 1 \<longleftrightarrow> msgs_of i (sent s2) < msgs_of i (sent s) + nat n)"
proof -
  have i: "i < MAX_TIMER_NUMBER" using timer_inv_mem(2)[OF assms(2), of i] by simp
  obtain v where s1: "timers s1 = (timers s)(i := timer_msg now ms msgid n (timers s i))" "sent s1 = sent s"
    "timer_inv rep node s1 v f"
    using clist_laws.SetMsgTimer_ok[OF assms(1,2,4,5,7), of n os] assms(9) by (auto simp: Let_def)
  have "counts i (msgs_of i (sent s) + nat n) s1"
    using assms(3,6) by (simp add: counts_def s1 timer_msg_def)
  from clist_laws.counts_run[OF assms(1,10) s1(3) assms(8) this i]
  show ?thesis using assms(6) unfolding counts_def by auto
qed

text \<open>The witness sets a timer on a state whose timers were never used and lets the thread run once.\<close>

theorem msg_timer_limited_witness:
  "\<exists>s s1. SetMsgTimer ring_ops (True, True, True) \<lparr>tv_sec = 5, tv_usec = 0\<rparr> 1500 3 2 s = Some (0, s1) \<and>
    msgs_of 0 (sent s1) \<le> msgs_of 0 (sent s) + 2 \<and> state_t (timers s1 0) = 1"
proof -
  obtain h where inv: "timer_inv ring_rep (\<lambda>h a. a \<in> dom h) ((timer_start ex_nodes)\<lparr>clists := h, timers := (\<lambda>i. if i < MAX_TIMER_NUMBER then zero_timer\<lparr>id_t := of_nat i\<rparr> else zero_timer),
        init_b := 0, g_sem := 1, started := 1\<rparr>) [] (0 # [1..<MAX_TIMER_NUMBER])" (is "timer_inv _ _ ?s _ _")
    using ring.timerInit_start[OF ex_static] unfolding all_timers by blast
  obtain s1 where s1: "SetMsgTimer ring_ops (True, True, True) \<lparr>tv_sec = 5, tv_usec = 0\<rparr> 1500 3 2 ?s = Some (0, s1)"
    "sent s1 = sent ?s"
    using ring.SetMsgTimer_ok[OF inv, of 1500 3 "\<lparr>tv_sec = 5, tv_usec = 0\<rparr>" 2 "(True, True, True)"]
    by (auto simp: tv_ok_def Let_def)
  from msg_timer_limited[OF ring.clist_laws_axioms inv _ _ _ _ _ _ s1(1), of At_loop, OF _ _ _ _ _ _ thread_run.stop]
  have "msgs_of 0 (sent s1) \<le> msgs_of 0 (sent ?s) + 2 \<and> state_t (timers s1 0) = 1"
    using s1(2) by (simp add: zero_timer_def tv_ok_def)
  then show ?thesis using s1(1) by blast
qed

text \<open>
  C17: \<open>SetMsgTimer\<close> does not clear the function of the timer it takes. When that timer was used by
  \<open>SetTimer\<close> before, its expiry calls the function of the earlier, cancelled timer and sends no
  message.
\<close>
theorem msg_timer_calls_old_function:
  assumes "clist_laws C rep node" "timer_inv rep node s [] (i # f)" "func_t (timers s i) = F" "F \<noteq> NULL"
    "0 < ms" "0 \<le> msgid" "tv_ok now" "tv_ok later" "us now + ms * 1000 \<le> us later"
  shows "\<exists>s1 s2 s3. SetMsgTimer C os now ms msgid n s = Some (int i, s1) \<and>
    thread_timer C later At_loop s1 = Some (Call_func (timer_addr i) F, s2) \<and>
    thread_timer C later (Call_func (timer_addr i) F) s2 = Some (At_loop, s3) \<and>
    sent s3 = sent s \<and> called s3 = called s @ [(F, parameter_t (timers s i))]"
proof -
  let ?t = "timer_msg now ms msgid n (timers s i)"
  have i: "i < MAX_TIMER_NUMBER" using timer_inv_mem(2)[OF assms(2), of i] by simp
  obtain s1 where s1: "SetMsgTimer C os now ms msgid n s = Some (int i, s1)" "timer_inv rep node s1 [i] f"
    "timers s1 i = ?t" "sent s1 = sent s" "called s1 = called s"
    using clist_laws.SetMsgTimer_ok[OF assms(1,2,5,6,7), of n os] by (auto simp: Let_def place_timer_def)
  have t: "func_t ?t = F" "parameter_t ?t = parameter_t (timers s i)" "us (tv_t ?t) = us now + ms * 1000" "tv_ok (tv_t ?t)" "armed ?t"
    using start_tv_us[OF assms(5,7)] start_armed(2)[OF assms(5,7,6)] assms(3) by (simp_all add: timer_msg_def)
  have "cmptime later (tv_t ?t)" using cmptime_us[OF assms(8) t(4)] t(3) assms(9) by simp
  then obtain s2 where s2: "thread_timer C later At_loop s1 = Some (Call_func (timer_addr i) F, s2)"
    "sent s2 = sent s" "called s2 = called s" "timers s2 i = fired ?t"
    using clist_laws.loop_head[OF assms(1) s1(2), of later] clist_laws.fire_head[OF assms(1) s1(2)] s1 t(1) assms(4)
    by (auto simp: Let_def after_fire_def messages_def)
  have "parameter_t (fired ?t) = parameter_t (timers s i)"
    using t assms(4) advance_tv_us(7)[OF t(5)] by (simp add: fired_def)
  then show ?thesis using s1(1) s2 i by (auto simp: timer_at_addr)
qed

theorem msg_timer_calls_old_function_witness:
  "\<exists>h s1 s2 s3. SetMsgTimer ring_ops (True, True, True) \<lparr>tv_sec = 5, tv_usec = 0\<rparr> 1500 3 1 (ex_state h 0) = Some (0, s1) \<and>
    thread_timer ring_ops \<lparr>tv_sec = 7, tv_usec = 0\<rparr> At_loop s1 = Some (Call_func (timer_addr 0) 7, s2) \<and>
    thread_timer ring_ops \<lparr>tv_sec = 7, tv_usec = 0\<rparr> (Call_func (timer_addr 0) 7) s2 = Some (At_loop, s3) \<and>
    sent s3 = [] \<and> called s3 = [(7, 9)]"
proof -
  obtain h where inv: "timer_inv ring_rep (\<lambda>h a. a \<in> dom h) (ex_state h 0) [] (0 # [1..<MAX_TIMER_NUMBER])"
    using ex_lists(2) ex_inv(2) unfolding all_timers by blast
  from msg_timer_calls_old_function[OF ring.clist_laws_axioms inv, of 7 1500 3 "\<lparr>tv_sec = 5, tv_usec = 0\<rparr>"
      "\<lparr>tv_sec = 7, tv_usec = 0\<rparr>" "(True, True, True)" 1]
  show ?thesis by (intro exI[of _ h]) (simp add: us_def tv_ok_def ex_state_def ex_timer_def timer_start_def)
qed

text \<open>
  The thread reads the parameter of an expired timer after it has released the semaphore. When
  the timer is killed and taken again in between, the old function is called with the
  new owner's parameter, a pair nobody registered.
\<close>
theorem expired_function_gets_new_parameter:
  assumes "clist_laws C rep node" "timer_inv rep node s (i # w) []" "func_t (timers s i) = F" "F \<noteq> NULL"
    "tv_ok now" "us (tv_t (timers s i)) \<le> us now" "0 < ms" "G \<noteq> NULL"
  shows "\<exists>s1 s2 s3 s4. thread_timer C now At_loop s = Some (Call_func (timer_addr i) F, s1) \<and>
    KillTimer C (of_nat i) s1 = Some s2 \<and> SetTimer C os now ms G P s2 = Some (int i, s3) \<and>
    thread_timer C now (Call_func (timer_addr i) F) s3 = Some (At_loop, s4) \<and> called s4 = called s @ [(F, P)]"
proof -
  have i: "i < MAX_TIMER_NUMBER" using timer_inv_mem(1)[OF assms(2), of i] by simp
  have a: "armed (timers s i)" using assms(2) by (simp add: timer_inv_def)
  have "cmptime now (tv_t (timers s i))" using cmptime_us[OF assms(5)] a assms(6) by (simp add: armed_def)
  moreover have "state_t (fired (timers s i)) = 1" using fired_state(1)[OF a] assms(3,4) by simp
  ultimately obtain s1 v where s1: "thread_timer C now At_loop s = Some (Call_func (timer_addr i) F, s1)"
    "timer_inv rep node s1 v []" "called s1 = called s" "i \<in> set v"
    using clist_laws.loop_head[OF assms(1,2), of now] clist_laws.fire_head[OF assms(1,2)] assms(3,4)
    by (auto simp: Let_def after_fire_def)
  obtain ys zs where v: "v = ys @ i # zs" using s1(4) by (meson split_list)
  obtain s2 where s2: "KillTimer C (of_nat i) s1 = Some s2" "timer_inv rep node s2 (ys @ zs) [i]" "called s2 = called s"
    using clist_laws.KillTimer_working[OF assms(1) s1(2)[unfolded v]] s1(3) by auto
  obtain s3 where "SetTimer C os now ms G P s2 = Some (int i, s3)" "called s3 = called s" "parameter_t (timers s3 i) = P"
    using clist_laws.SetTimer_ok[OF assms(1) s2(2) assms(7,8,5), of P os] s2(3) by (auto simp: Let_def timer_call_def)
  then show ?thesis using s1(1) s2(1) i by (auto simp: timer_at_addr)
qed

theorem expired_function_gets_new_parameter_witness:
  "\<exists>h s1 s2 s3 s4. thread_timer ring_ops \<lparr>tv_sec = 12, tv_usec = 0\<rparr> At_loop (ex_state h 1) = Some (Call_func (timer_addr 0) 7, s1) \<and>
    KillTimer ring_ops 0 s1 = Some s2 \<and>
    SetTimer ring_ops (True, True, True) \<lparr>tv_sec = 12, tv_usec = 0\<rparr> 1000 11 13 s2 = Some (0, s3) \<and>
    thread_timer ring_ops \<lparr>tv_sec = 12, tv_usec = 0\<rparr> (Call_func (timer_addr 0) 7) s3 = Some (At_loop, s4) \<and> called s4 = [(7, 13)]"
proof -
  obtain h where inv: "timer_inv ring_rep (\<lambda>h a. a \<in> dom h) (ex_state h 1) (0 # [1..<MAX_TIMER_NUMBER]) []"
    using ex_lists(1) ex_inv(1) unfolding all_timers by blast
  from expired_function_gets_new_parameter[OF ring.clist_laws_axioms inv, of 7 "\<lparr>tv_sec = 12, tv_usec = 0\<rparr>" 1000 11
      "(True, True, True)" 13]
  show ?thesis by (intro exI[of _ h]) (simp add: us_def tv_ok_def ex_state_def ex_timer_def timer_start_def)
qed

text \<open>
  C18: On an initialised module \<open>SetTimer\<close> always returns. It returns \<open>TIMER_ERROR\<close>, and changes
  nothing, exactly when the interval is not positive, the function is NULL or all timers are in
  use; otherwise it returns the id of a timer that was not in use, and \<open>GetTimerTime\<close> of that id
  gives the interval back, as it does after \<open>ChangeTimerTime\<close>.
\<close>
theorem set_timer_outcome:
  assumes "clist_laws C rep node" "timer_inv rep node s w f" "tv_ok now"
  shows "\<exists>r s'. SetTimer C os now ms pFunc param s = Some (r, s') \<and>
    (if 0 < ms \<and> pFunc \<noteq> NULL \<and> f \<noteq> []
     then r = int (hd f) \<and> state_t (timers s (hd f)) = 0 \<and> GetTimerTime (of_int r) s' = ms \<and>
       (\<forall>n now'. 0 < n \<and> tv_ok now' \<longrightarrow> (\<exists>s''. ChangeTimerTime C now' (of_int r) n s' = Some (TIMER_OK, s'') \<and> GetTimerTime (of_int r) s'' = n))
     else r = TIMER_ERROR \<and> s' = s)"
proof (cases "0 < ms \<and> pFunc \<noteq> NULL \<and> f \<noteq> []")
  case True
  then obtain i g where f: "f = i # g" by (cases f) auto
  have i: "i < MAX_TIMER_NUMBER" "state_t (timers s i) = 0" using timer_inv_mem[OF assms(2), of i] f by auto
  obtain s' v where s': "SetTimer C os now ms pFunc param s = Some (int i, s')"
    "timers s' i = timer_call now ms pFunc param (timers s i)" "timer_inv rep node s' v g" "i \<in> set v"
    using clist_laws.SetTimer_ok[OF assms(1) assms(2)[unfolded f] _ _ assms(3), of ms pFunc param os] True
    by (auto simp: Let_def)
  have t: "GetTimerTime (of_nat i) u = n" if "timers u i = v" "state_t v = 1" "interval_t v = interval_t (start_tv now' n x)" "0 < n" "tv_ok now'" for u v n now' x
    using that i(1) start_tv_us(5)[of n now' x] by (simp add: GetTimerTime_def)
  have "GetTimerTime (of_nat i) s' = ms"
    by (rule t[OF s'(2)]) (use True assms(3) in \<open>auto simp: timer_call_def\<close>)
  moreover have "\<exists>s''. ChangeTimerTime C now' (of_nat i) n s' = Some (TIMER_OK, s'') \<and> GetTimerTime (of_nat i) s'' = n"
    if n: "0 < n" "tv_ok now'" for n now'
  proof -
    obtain ys zs where "timer_inv rep node s' (ys @ i # zs) g" using s'(3,4) by (metis split_list)
    then obtain s'' where s'': "ChangeTimerTime C now' (of_nat i) n s' = Some (TIMER_OK, s'')"
      "timers s'' i = start_tv now' n (timers s' i)"
      using clist_laws.ChangeTimerTime_working[OF assms(1) _ n] by (fastforce simp: Let_def)
    have "GetTimerTime (of_nat i) s'' = n"
      by (rule t[OF s''(2) _ refl n]) (simp add: s'(2) timer_call_def)
    then show ?thesis using s''(1) by blast
  qed
  ultimately show ?thesis using True s'(1) i f by auto
next
  case False
  then show ?thesis using clist_laws.Set_exhausted(1)[OF assms(1), of s w ms pFunc os now param] assms(2)
    by (cases "f = []") (auto simp: SetTimer_def)
qed

theorem set_timer_outcome_witness:
  "\<exists>h s'. SetTimer ring_ops (True, True, True) \<lparr>tv_sec = 5, tv_usec = 0\<rparr> 1500 7 9 (ex_state h 0) = Some (0, s') \<and>
    GetTimerTime 0 s' = 1500"
proof -
  obtain h where inv: "timer_inv ring_rep (\<lambda>h a. a \<in> dom h) (ex_state h 0) [] (0 # [1..<MAX_TIMER_NUMBER])"
    using ex_lists(2) ex_inv(2) unfolding all_timers by blast
  from set_timer_outcome[OF ring.clist_laws_axioms inv, of "\<lparr>tv_sec = 5, tv_usec = 0\<rparr>" "(True, True, True)" 1500 7 9]
  show ?thesis by (intro exI[of _ h]) (auto simp: tv_ok_def)
qed

end
