(* ===== verification/Udp.thy ===== *)
theory Udp
  imports Clist "HOL-Library.Signed_Division"
begin

text \<open>
  The reliable datagram module, \<^verbatim>\<open>udp/ex_udp.c\<close> and \<^verbatim>\<open>udp/ex_udp.h\<close>: packets, the two
  circular packet arrays of a link and the handlers that send, accept, acknowledge and repeat
  packets. Every handler is the code of one function on the link (and the socket) it is given; a
  datagram it passes to \<open>sendto\<close> is an element of the list it returns. \<^const>\<open>None\<close> is a fault
  or \<open>exit\<close>.

  Unsigned short values are natural numbers: what is stored into such a field is a remainder modulo
  \<open>MAX_PACKET_SEQ\<close>, a length of at most \<open>MAX_PACKET_SIZE\<close>, or a value that came in such a field
  of a datagram. A handler is one step; the semaphores it posts are counters of the state. Log
  output and the code for Windows are not modelled.
\<close>

section \<open>Constants and macros\<close>

definition MAX_LINK_COUNT :: nat where "MAX_LINK_COUNT = 0xFFF"

definition MAX_PACKET_NUMBER :: nat where "MAX_PACKET_NUMBER = 0x1FF"

definition MAX_PACKET_SEQ :: nat where "MAX_PACKET_SEQ = push_bit 2 MAX_PACKET_NUMBER"

definition MAX_PACKET_SIZE :: nat where "MAX_PACKET_SIZE = 1472"

definition LEN_PACKET_HEAD :: nat where "LEN_PACKET_HEAD = 8"

definition MAX_PACKET_DATA_SIZE :: nat where "MAX_PACKET_DATA_SIZE = 1464"

definition LISTEN_INTERVAL :: int where "LISTEN_INTERVAL = 10000"

definition CHECK_INTERVAL_INIT :: int where "CHECK_INTERVAL_INIT = 20000"

definition EX_UDP_VER :: nat where "EX_UDP_VER = 18"

definition EX_UDP_OK :: int where "EX_UDP_OK = 1"

definition EX_UDP_ERROR :: int where "EX_UDP_ERROR = -1"

text \<open>The packet types, in the order of the enumeration.\<close>

definition LINK_SYN :: nat where "LINK_SYN = 1"
definition LINK_SYN_ACK :: nat where "LINK_SYN_ACK = 2"
definition LINK_ACK :: nat where "LINK_ACK = 3"
definition USER_DATA :: nat where "USER_DATA = 4"
definition SEQ_CHECK :: nat where "SEQ_CHECK = 5"
definition SEQ_REPORT :: nat where "SEQ_REPORT = 6"
definition SEQ_LACK :: nat where "SEQ_LACK = 7"
definition LINK_FIN :: nat where "LINK_FIN = 8"

definition CMP_SEQ :: "nat \<Rightarrow> nat \<Rightarrow> bool" where
  "CMP_SEQ head tail \<longleftrightarrow> (head > tail \<and> head < tail + MAX_PACKET_NUMBER) \<or>
     (head < tail \<and> head + MAX_PACKET_SEQ - MAX_PACKET_NUMBER < tail)"

definition CMP_SEQ_ORDER :: "nat \<Rightarrow> nat \<Rightarrow> nat \<Rightarrow> bool" where
  "CMP_SEQ_ORDER head mid tail \<longleftrightarrow>
     (head \<le> mid \<and> mid < tail \<and> head + MAX_PACKET_NUMBER > tail) \<or>
     (head \<le> mid \<and> head > tail \<and> head > tail + MAX_PACKET_SEQ - MAX_PACKET_NUMBER) \<or>
     (head > tail \<and> mid < tail \<and> head > tail + MAX_PACKET_SEQ - MAX_PACKET_NUMBER)"

definition GET_MS_DIFF :: "timeval \<Rightarrow> timeval \<Rightarrow> int" where
  "GET_MS_DIFF tv1 tv2 = ((tv_sec tv1 - tv_sec tv2) AND 0x1FFFFF) * 1000 + (tv_usec tv1 - tv_usec tv2) sdiv 1000"

section \<open>Data\<close>

record s_packet_head =
  type_h :: nat
  state_h :: nat
  seq_h :: nat
  seqCheck_h :: nat
  checksum_h :: nat

record s_packet_all =
  head :: s_packet_head
  buf :: "byte list"
  len_p :: nat

definition zero_packet :: s_packet_all where
  "zero_packet = \<lparr>head = \<lparr>type_h = 0, state_h = 0, seq_h = 0, seqCheck_h = 0, checksum_h = 0\<rparr>,
     buf = replicate MAX_PACKET_DATA_SIZE 0, len_p = 0\<rparr>"

text \<open>A datagram: the header and the bytes behind it.\<close>

type_synonym dgram = "s_packet_head \<times> byte list"

record s_link =
  linkState :: int
  timeoutFree :: timeval
  id_l :: nat
  socket_l :: int
  port_l :: nat
  ip_l :: u32
  PrioritySendLack :: int
  accept_l :: int
  timeout_times :: nat
  timeout_l :: timeval
  timeoutSend :: timeval
  timeoutCheckLack :: timeval
  timeoutReportLack :: timeval
  tsWaitTime :: int
  semRecvList :: nat
  semSendList :: nat
  semRecvListMutex :: nat
  semSendListMutex :: nat
  SeqRead :: nat
  SeqReadMax :: nat
  SeqMaxSend :: nat
  SeqCheckSend :: nat
  paArrayRecv :: "s_packet_all list"
  paArraySend :: "s_packet_all list"
  same_port_next :: addr

text \<open>
  The socket: its list heads and the nodes of the two id lists live at fixed offsets of the socket's
  address, in the memory of list nodes; \<open>links\<close> holds the allocated links by their addresses,
  \<open>ids_s\<close> the member \<open>id\<close> behind a node of the id lists, and \<open>msgq\<close> is the message queue of the
  system that the socket writes to (type, id and data of each message).
\<close>

record 'h st_sock =
  addr_s :: addr
  clists_s :: 'h
  linkState_s :: int
  threadState :: int
  semAccept :: nat
  semListen :: nat
  semRecvToMsg :: nat
  semListRead :: nat
  semLink :: nat
  time_send :: timeval
  time_listen :: timeval
  socket_s :: int
  msgid_s :: int
  tsWaitTime_s :: int
  connectPriority :: bool
  nextListenLink :: addr
  pLinkPortArray :: "addr list"
  pLinkIDArray :: "addr list"
  links :: "addr \<rightharpoonup> s_link"
  ids_s :: "addr \<rightharpoonup> nat"
  msgq :: "(nat \<times> int \<times> byte list) list"

text \<open>The global variables \<open>LISTEN_LINK_INTERVAL\<close> and \<open>LISTEN_LINK_TIMES\<close>.\<close>

record udp_conf =
  LISTEN_LINK_INTERVAL :: int
  LISTEN_LINK_TIMES :: int

definition listIDMsgReadHead :: "'h st_sock \<Rightarrow> addr" where
  "listIDMsgReadHead sts = addr_s sts + 24"

definition stIDListMsgRead :: "'h st_sock \<Rightarrow> nat \<Rightarrow> addr" where
  "stIDListMsgRead sts i = addr_s sts + 557344 + of_nat (24 * i)"

text \<open>Access to the circular arrays; an index outside is a fault.\<close>

definition slot :: "s_packet_all list \<Rightarrow> nat \<Rightarrow> s_packet_all option" where
  "slot ps i = (if i < length ps then Some (ps ! i) else None)"

section \<open>Timing of the listening thread, checksum\<close>

definition ctlIntervalTime :: "udp_conf \<Rightarrow> timeval \<Rightarrow> 'h st_sock \<Rightarrow> 'h st_sock" where
  "ctlIntervalTime cf now sts =
     (if linkState_s sts \<noteq> 1 then sts
      else (let sts = (if GET_MS_DIFF (time_listen sts) (time_send sts) \<ge> LISTEN_LINK_INTERVAL cf
                       then sts\<lparr>semListen := semListen sts + 1\<rparr> else sts)
            in sts\<lparr>time_send := now\<rparr>))"

text \<open>
  \<open>checksummat\<close> reads the packet as an array of 16-bit words in the byte order of the machine (least
  significant byte first), with the checksum field zero; it returns the sum and the packet, whose
  byte behind an odd length it clears.
\<close>

definition packet_words :: "s_packet_all \<Rightarrow> nat \<Rightarrow> nat" where
  "packet_words pa i =
     (if i = 0 then type_h (head pa) + 256 * state_h (head pa)
      else if i = 1 then seq_h (head pa)
      else if i = 2 then seqCheck_h (head pa)
      else if i = 3 then checksum_h (head pa)
      else unat (buf pa ! (2 * (i - 4))) + 256 * unat (buf pa ! (2 * (i - 4) + 1)))"

fun xor_words :: "(nat \<Rightarrow> nat) \<Rightarrow> nat \<Rightarrow> nat \<Rightarrow> nat \<Rightarrow> nat" where
  "xor_words f i 0 acc = acc"
| "xor_words f i (Suc n) acc = xor_words f (Suc i) n (acc XOR f i)"

definition checksummat :: "s_packet_all \<Rightarrow> nat \<times> s_packet_all" where
  "checksummat pa =
     (if len_p pa < LEN_PACKET_HEAD \<or> len_p pa > MAX_PACKET_SIZE then (65535, pa)
      else (let checksum_t = checksum_h (head pa);
                pa = pa\<lparr>head := (head pa)\<lparr>checksum_h := 0\<rparr>\<rparr>;
                pa = (if odd (len_p pa) \<and> len_p pa \<noteq> MAX_PACKET_SIZE
                      then pa\<lparr>buf := (buf pa)[len_p pa - LEN_PACKET_HEAD := 0]\<rparr> else pa);
                checksum = xor_words (packet_words pa) 0 ((len_p pa + 1) mod 2) 0
            in (checksum, pa\<lparr>head := (head pa)\<lparr>checksum_h := checksum_t\<rparr>\<rparr>)))"

section \<open>Sending\<close>

text \<open>
  \<open>SendMsg\<close> stamps the packet and passes it to \<open>sendto\<close>; \<open>ok\<close> is whether that call succeeds.
  The result is the return value, the packet as it is left in memory and the datagram sent.
\<close>

definition stamp_packet :: "s_link \<Rightarrow> s_packet_all \<Rightarrow> s_packet_all" where
  "stamp_packet L pa = pa\<lparr>head := (head pa)\<lparr>state_h := nat (linkState L mod 256),
     seqCheck_h := (SeqCheckSend L + 1) mod MAX_PACKET_SEQ\<rparr>\<rparr>"

definition SendMsg :: "bool \<Rightarrow> s_link \<Rightarrow> s_packet_all \<Rightarrow> nat \<Rightarrow> (int \<times> s_packet_all \<times> dgram list) option" where
  "SendMsg ok L pa len =
     (if len \<ge> LEN_PACKET_HEAD \<and> len \<le> LEN_PACKET_HEAD + length (buf pa)
      then (let pa = stamp_packet L pa in
        if ok then Some (int len, pa, [(head pa, take (len - LEN_PACKET_HEAD) (buf pa))])
        else Some (-1, pa, []))
      else None)"

section \<open>The list of links with data for the message queue\<close>

definition add_listRead :: "'h clist_ops \<Rightarrow> 'h st_sock \<Rightarrow> s_link \<Rightarrow> 'h st_sock option" where
  "add_listRead C sts L = do {
     guard_opt (semListRead sts > 0 \<and> id_l L \<le> MAX_LINK_COUNT);
     e \<leftarrow> cl_empty C (stIDListMsgRead sts (id_l L)) (clists_s sts);
     if e then do {
       h \<leftarrow> cl_push_back C (listIDMsgReadHead sts) (stIDListMsgRead sts (id_l L)) (clists_s sts);
       Some (sts\<lparr>clists_s := h, semRecvToMsg := semRecvToMsg sts + 1\<rparr>) }
     else Some sts }"

definition del_listRead :: "'h clist_ops \<Rightarrow> 'h st_sock \<Rightarrow> s_link \<Rightarrow> 'h st_sock option" where
  "del_listRead C sts L = do {
     guard_opt (semListRead sts > 0 \<and> id_l L \<le> MAX_LINK_COUNT);
     e \<leftarrow> cl_empty C (stIDListMsgRead sts (id_l L)) (clists_s sts);
     if \<not> e then do {
       h \<leftarrow> cl_erase C (stIDListMsgRead sts (id_l L)) (clists_s sts);
       Some (sts\<lparr>clists_s := h\<rparr>) }
     else Some sts }"

section \<open>Acknowledging and asking for what is missing\<close>

text \<open>16-bit values in a buffer, least significant byte first.\<close>

definition put_ushort :: "byte list \<Rightarrow> nat \<Rightarrow> nat \<Rightarrow> byte list option" where
  "put_ushort b off v = (if off + 1 < length b
     then Some (b[off := of_nat (v mod 256), off + 1 := of_nat (v div 256)]) else None)"

definition get_ushort :: "byte list \<Rightarrow> nat \<Rightarrow> nat option" where
  "get_ushort b off = (if off + 1 < length b then Some (unat (b ! off) + 256 * unat (b ! (off + 1))) else None)"

definition lacking :: "s_link \<Rightarrow> nat \<Rightarrow> bool option" where
  "lacking L q = do {
     p \<leftarrow> slot (paArrayRecv L) (q mod MAX_PACKET_NUMBER);
     Some (seq_h (head p) \<noteq> q \<or> len_p p = 0) }"

text \<open>
  The loop of \<open>SeqLack\<close>: \<open>n\<close> is \<open>iLackCount\<close>, \<open>off\<close> the distance of \<open>usp\<close> from the start of the
  buffer; it returns the packet under construction, the count and what was sent.
\<close>

partial_function (option) lack_loop ::
  "s_link \<Rightarrow> nat \<Rightarrow> s_packet_all \<Rightarrow> nat \<Rightarrow> nat \<Rightarrow> dgram list \<Rightarrow> (s_packet_all \<times> nat \<times> dgram list) option" where
  "lack_loop L q pa n off out = do {
     miss \<leftarrow> lacking L q;
     (pa, n, off, out) \<leftarrow>
       (if miss
        then do {
          b \<leftarrow> put_ushort (buf pa) off q;
          let pa = pa\<lparr>buf := b\<rparr>;
          let n = n + 1;
          let off = off + 2;
          if n * 2 mod MAX_PACKET_DATA_SIZE = 0
          then do {
            let pa = pa\<lparr>len_p := MAX_PACKET_SIZE\<rparr>;
            (r, pa, d) \<leftarrow> SendMsg True L pa (len_p pa);
            Some (pa, n, 0, out @ d) }
          else Some (pa, n, off, out) }
        else Some (pa, n, off, out));
     let q = (q + 1) mod MAX_PACKET_SEQ;
     if q \<noteq> SeqReadMax L then lack_loop L q pa n off out else Some (pa, n, out) }"

definition SeqLack :: "timeval \<Rightarrow> s_link \<Rightarrow> (int \<times> s_link \<times> dgram list) option" where
  "SeqLack tvCur L =
     (if GET_MS_DIFF tvCur (timeoutReportLack L) < tv_usec (timeoutCheckLack L) sdiv 1000
      then Some (EX_UDP_ERROR, L, [])
      else if CMP_SEQ (SeqReadMax L) (SeqRead L)
      then do {
        let pa = zero_packet\<lparr>head := (head zero_packet)\<lparr>type_h := SEQ_LACK\<rparr>\<rparr>;
        let L = L\<lparr>timeoutReportLack := tvCur\<rparr>;
        (pa, n, out) \<leftarrow> lack_loop L (SeqRead L) pa 0 0 [];
        let n = n * 2 mod MAX_PACKET_DATA_SIZE;
        if n \<noteq> 0 then do {
          let pa = pa\<lparr>len_p := LEN_PACKET_HEAD + n\<rparr>;
          (r, pa, d) \<leftarrow> SendMsg True L pa (len_p pa);
          Some (EX_UDP_OK, L, out @ d) }
        else Some (EX_UDP_OK, L, out) }
      else Some (EX_UDP_OK, L, []))"

definition last_seq :: "nat \<Rightarrow> nat" where
  "last_seq q = (if q = 0 then MAX_PACKET_SEQ - 1 else q - 1)"

definition SeqReport :: "timeval \<Rightarrow> s_link \<Rightarrow> (s_link \<times> dgram list) option" where
  "SeqReport now L =
     (if linkState L = 2 then do {
        let pa = zero_packet\<lparr>head := (head zero_packet)\<lparr>type_h := SEQ_REPORT,
          seq_h := last_seq (SeqRead L)\<rparr>, len_p := LEN_PACKET_HEAD\<rparr>;
        (r, pa, d) \<leftarrow> SendMsg True L pa (len_p pa);
        (r, L, d') \<leftarrow> SeqLack now L;
        Some (L, d @ d') }
      else Some (L, []))"

text \<open>The time a check packet carries: seconds and microseconds as \<open>long\<close> values, least
  significant byte first.\<close>

fun le_bytes :: "nat \<Rightarrow> int \<Rightarrow> byte list" where
  "le_bytes 0 v = []"
| "le_bytes (Suc n) v = of_int v # le_bytes n (v div 256)"

fun le_value :: "byte list \<Rightarrow> int" where
  "le_value [] = 0"
| "le_value (b # bs) = uint b + 256 * le_value bs"

definition packet_time :: "s_packet_all \<Rightarrow> timeval" where
  "packet_time pa = \<lparr>tv_sec = signed_take_bit 63 (le_value (take 8 (buf pa))),
     tv_usec = signed_take_bit 63 (le_value (take 8 (drop 8 (buf pa))))\<rparr>"

definition time_bytes :: "timeval \<Rightarrow> byte list" where
  "time_bytes t = le_bytes 8 (tv_sec t) @ le_bytes 8 (tv_usec t)"

definition SeqReportAck :: "timeval \<Rightarrow> s_link \<Rightarrow> s_packet_all \<Rightarrow> int \<times> s_link" where
  "SeqReportAck timeCur L pa =
     (if linkState L < 2 then (EX_UDP_ERROR, L)
      else if CMP_SEQ_ORDER (SeqCheckSend L) (seq_h (head pa)) (SeqMaxSend L)
      then (let L = L\<lparr>SeqCheckSend := seq_h (head pa), semSendList := semSendList L + 1\<rparr> in
        if len_p pa > LEN_PACKET_HEAD
        then (let usec = (GET_MS_DIFF timeCur (packet_time pa) AND 0x1FFFFF) * 1000;
                  u = tv_usec (timeoutCheckLack L)
              in if usec > u
                 then (EX_UDP_OK, L\<lparr>timeoutCheckLack := \<lparr>tv_sec = 0, tv_usec = push_bit 1 u\<rparr>\<rparr>)
                 else if push_bit 1 usec < u
                 then (EX_UDP_OK, L\<lparr>timeoutCheckLack :=
                   \<lparr>tv_sec = 0, tv_usec = (if u > LISTEN_INTERVAL then drop_bit 1 u else u)\<rparr>\<rparr>)
                 else (EX_UDP_OK, L))
        else (EX_UDP_OK, L))
      else (EX_UDP_OK, L))"

section \<open>Repeating\<close>

fun lack_ack_loop :: "s_link \<Rightarrow> nat \<Rightarrow> byte list \<Rightarrow> nat \<Rightarrow> nat \<Rightarrow> dgram list \<Rightarrow> (s_link \<times> dgram list) option" where
  "lack_ack_loop L chk b off 0 out = Some (L, out)"
| "lack_ack_loop L chk b off (Suc n) out = do {
     q \<leftarrow> get_ushort b off;
     if MAX_PACKET_SEQ > q
     then if CMP_SEQ_ORDER chk q (SeqMaxSend L)
       then do {
         p \<leftarrow> slot (paArraySend L) (q mod MAX_PACKET_NUMBER);
         (r, p, d) \<leftarrow> SendMsg True L p (len_p p);
         lack_ack_loop (L\<lparr>paArraySend := (paArraySend L)[q mod MAX_PACKET_NUMBER := p]\<rparr>) chk b (off + 2) n (out @ d) }
       else Some (L, out)
     else Some (L, out) }"

definition SeqLackAck :: "s_link \<Rightarrow> s_packet_all \<Rightarrow> (int \<times> s_link \<times> dgram list) option" where
  "SeqLackAck L pa =
     (if linkState L < 2 then Some (EX_UDP_ERROR, L, [])
      else do {
        let chk = (SeqCheckSend L + 1) mod MAX_PACKET_SEQ;
        (L, out) \<leftarrow> lack_ack_loop (L\<lparr>PrioritySendLack := 1\<rparr>) chk (buf pa) 0 ((len_p pa - LEN_PACKET_HEAD) div 2) [];
        Some (EX_UDP_OK, L\<lparr>PrioritySendLack := 0, semSendList := semSendList L + 1\<rparr>, out) })"

section \<open>Checking what the other side has\<close>

definition SeqCheck ::
  "udp_conf \<Rightarrow> timeval \<Rightarrow> 'h st_sock \<Rightarrow> s_link \<Rightarrow> (int \<times> 'h st_sock \<times> s_link \<times> dgram list) option" where
  "SeqCheck cf now sts L =
     (if linkState L = 2 \<and> GET_MS_DIFF (time_listen sts) (timeout_l L) < LISTEN_LINK_INTERVAL cf
      then if SeqMaxSend L \<noteq> (SeqCheckSend L + 1) mod MAX_PACKET_SEQ
        then if GET_MS_DIFF now (timeoutSend L) < tv_usec (timeoutCheckLack L) sdiv 1000
          then Some (EX_UDP_ERROR, sts, L, [])
          else do {
            let L = L\<lparr>timeoutSend := now\<rparr>;
            let pa = zero_packet\<lparr>head := (head zero_packet)\<lparr>type_h := SEQ_CHECK, seq_h := SeqMaxSend L,
                seqCheck_h := (SeqCheckSend L + 1) mod MAX_PACKET_SEQ\<rparr>,
              buf := time_bytes now @ drop 16 (buf zero_packet), len_p := LEN_PACKET_HEAD + 16\<rparr>;
            (r, pa, d) \<leftarrow> SendMsg True L pa (len_p pa);
            Some (EX_UDP_OK, ctlIntervalTime cf now sts, L, d) }
        else Some (EX_UDP_OK, sts, L, [])
      else Some (EX_UDP_OK, sts, L, []))"

definition SeqCheckAck ::
  "'h clist_ops \<Rightarrow> 'h st_sock \<Rightarrow> s_link \<Rightarrow> s_packet_all \<Rightarrow> (int \<times> 'h st_sock \<times> s_link \<times> dgram list) option" where
  "SeqCheckAck C sts L pa =
     (if linkState L < 2 then Some (EX_UDP_ERROR, sts, L, [])
      else if SeqRead L = seq_h (head pa) \<or> CMP_SEQ_ORDER (seqCheck_h (head pa)) (SeqRead L) (seq_h (head pa))
      then do {
        let L = L\<lparr>SeqReadMax := seq_h (head pa)\<rparr>;
        d \<leftarrow> (if seqCheck_h (head pa) \<noteq> SeqRead L
          then do {
            let pa = pa\<lparr>head := (head pa)\<lparr>type_h := SEQ_REPORT,
              seq_h := last_seq (SeqRead L)\<rparr>\<rparr>;
            (r, pa, d) \<leftarrow> SendMsg True L pa (len_p pa);
            Some d }
          else Some []);
        sts \<leftarrow> (if msgid_s sts \<noteq> -1 then add_listRead C sts L else Some sts);
        Some (EX_UDP_OK, sts, L\<lparr>semRecvList := semRecvList L + 1\<rparr>, d) }
      else Some (EX_UDP_ERROR, sts, L, []))"

section \<open>Data packets\<close>

definition UserDataRecv ::
  "'h clist_ops \<Rightarrow> 'h st_sock \<Rightarrow> s_link \<Rightarrow> s_packet_all \<Rightarrow> (int \<times> 'h st_sock \<times> s_link) option" where
  "UserDataRecv C sts L pa =
     (if linkState L < 2 then Some (EX_UDP_ERROR, sts, L)
      else if CMP_SEQ (seq_h (head pa)) (SeqRead L) \<or> seq_h (head pa) = SeqRead L
      then do {
        miss \<leftarrow> lacking L (seq_h (head pa));
        if miss then do {
          let L = L\<lparr>paArrayRecv := (paArrayRecv L)[seq_h (head pa) mod MAX_PACKET_NUMBER := pa]\<rparr>;
          if seq_h (head pa) = SeqRead L
          then do {
            sts \<leftarrow> (if msgid_s sts \<noteq> -1 then add_listRead C sts L else Some sts);
            Some (EX_UDP_OK, sts, L\<lparr>semRecvList := semRecvList L + 1\<rparr>) }
          else Some (EX_UDP_OK, sts, L) }
        else Some (EX_UDP_OK, sts, L) }
      else Some (EX_UDP_ERROR, sts, L))"

section \<open>The calls of the user\<close>

text \<open>
  \<open>exRecv\<close> and \<open>exSend\<close> take a mutex, then try and wait by turns: \<open>_enter\<close> takes the mutex (\<^const>\<open>None\<close>
  while another call holds it), \<open>_try\<close> is a round of the loop up to its wait, \<open>wait_on\<close> what happens after
  the wait. \<open>Again\<close> means that the call goes on: after a try it waits for the semaphore, after a wait it
  tries again. A wait ends because the semaphore was obtained, the time ran out, or the link is gone;
  a wait without limit has no second end.
\<close>

datatype wait_end = Got | Timeout | Gone

datatype 'a round = Returns 'a | Again

definition exRecv_enter :: "s_link \<Rightarrow> s_link option" where
  "exRecv_enter L = (if semRecvListMutex L > 0 then Some (L\<lparr>semRecvListMutex := semRecvListMutex L - 1\<rparr>) else None)"

definition exSend_enter :: "s_link \<Rightarrow> s_link option" where
  "exSend_enter L = (if semSendListMutex L > 0 then Some (L\<lparr>semSendListMutex := semSendListMutex L - 1\<rparr>) else None)"

definition wait_on :: "int \<Rightarrow> nat \<Rightarrow> wait_end \<Rightarrow> (int round \<times> nat) option" where
  "wait_on ts sem w =
     (case w of
        Got \<Rightarrow> if sem > 0 then Some (Again, sem - 1) else None
      | Timeout \<Rightarrow> if ts > 0 then Some (Returns 0, sem) else None
      | Gone \<Rightarrow> Some (Returns EX_UDP_ERROR, sem))"

definition exRecv_try :: "timeval \<Rightarrow> s_link \<Rightarrow> ((int \<times> byte list) round \<times> s_link \<times> dgram list) option" where
  "exRecv_try now L = do {
     miss \<leftarrow> lacking L (SeqRead L);
     if miss
     then do {
       (L, d) \<leftarrow> SeqReport now L;
       if tsWaitTime L = 0
       then Some (Returns (0, []), L\<lparr>semRecvListMutex := semRecvListMutex L + 1\<rparr>, d)
       else Some (Again, L, d) }
     else do {
       p \<leftarrow> slot (paArrayRecv L) (SeqRead L mod MAX_PACKET_NUMBER);
       let len = len_p p - LEN_PACKET_HEAD;
       guard_opt (LEN_PACKET_HEAD \<le> len_p p \<and> len \<le> MAX_PACKET_DATA_SIZE);
       let L = L\<lparr>paArrayRecv := (paArrayRecv L)[SeqRead L mod MAX_PACKET_NUMBER := p\<lparr>len_p := 0\<rparr>],
         SeqRead := (SeqRead L + 1) mod MAX_PACKET_SEQ, semRecvListMutex := semRecvListMutex L + 1\<rparr>;
       Some (Returns (int len, take len (buf p)), L, []) } }"

definition exRecv_wake :: "wait_end \<Rightarrow> s_link \<Rightarrow> (int round \<times> s_link) option" where
  "exRecv_wake w L = do {
     (r, n) \<leftarrow> wait_on (tsWaitTime L) (semRecvList L) w;
     let L = L\<lparr>semRecvList := n\<rparr>;
     Some (r, if r = Again then L else L\<lparr>semRecvListMutex := semRecvListMutex L + 1\<rparr>) }"

definition exSend_try ::
  "udp_conf \<Rightarrow> timeval \<Rightarrow> bool \<Rightarrow> 'h st_sock \<Rightarrow> s_link \<Rightarrow> byte list \<Rightarrow>
   (int round \<times> 'h st_sock \<times> s_link \<times> dgram list) option" where
  "exSend_try cf now ok sts L data =
     (if PrioritySendLack L = 0 \<and> (SeqMaxSend L + 1) mod MAX_PACKET_NUMBER \<noteq> SeqCheckSend L mod MAX_PACKET_NUMBER
      then do {
        pa \<leftarrow> slot (paArraySend L) (SeqMaxSend L mod MAX_PACKET_NUMBER);
        b \<leftarrow> blit (buf pa) 0 data 0 (length data);
        let pa = pa\<lparr>head := (head pa)\<lparr>seq_h := SeqMaxSend L,
            seqCheck_h := (SeqCheckSend L + 1) mod MAX_PACKET_SEQ, type_h := USER_DATA\<rparr>,
          len_p := LEN_PACKET_HEAD + length data, buf := b\<rparr>;
        (r, pa, d) \<leftarrow> SendMsg ok L pa (len_p pa);
        let L = L\<lparr>paArraySend := (paArraySend L)[SeqMaxSend L mod MAX_PACKET_NUMBER := pa]\<rparr>;
        if r = EX_UDP_ERROR
        then Some (Returns 0, sts, L\<lparr>semSendListMutex := semSendListMutex L + 1\<rparr>, d)
        else Some (Returns (int (length data)), ctlIntervalTime cf now sts,
          L\<lparr>SeqMaxSend := (SeqMaxSend L + 1) mod MAX_PACKET_SEQ, semSendListMutex := semSendListMutex L + 1\<rparr>, d) }
      else if tsWaitTime L = 0 then Some (Returns 0, sts, L\<lparr>semSendListMutex := semSendListMutex L + 1\<rparr>, [])
      else Some (Again, sts, L, []))"

definition exSend_wake :: "wait_end \<Rightarrow> s_link \<Rightarrow> (int round \<times> s_link) option" where
  "exSend_wake w L = do {
     (r, n) \<leftarrow> wait_on (tsWaitTime L) (semSendList L) w;
     let L = L\<lparr>semSendList := n\<rparr>;
     Some (r, if r = Again then L else L\<lparr>semSendListMutex := semSendListMutex L + 1\<rparr>) }"

section \<open>The start of a socket and of a link, and one datagram for a link\<close>

text \<open>What \<open>exSocket\<close> puts into a new socket before it fills the lists.\<close>

definition new_sock :: "addr \<Rightarrow> 'h \<Rightarrow> int \<Rightarrow> int \<Rightarrow> 'h st_sock" where
  "new_sock a h sock g_tsWaitTime = \<lparr>addr_s = a, clists_s = h, linkState_s = 1, threadState = 0, semAccept = 0, semListen = 0,
     semRecvToMsg = 0, semListRead = 0, semLink = 1, time_send = \<lparr>tv_sec = 0, tv_usec = 0\<rparr>,
     time_listen = \<lparr>tv_sec = 0, tv_usec = 0\<rparr>, socket_s = sock, msgid_s = -1, tsWaitTime_s = g_tsWaitTime,
     connectPriority = False, nextListenLink = a, pLinkPortArray = replicate 0xFFFF NULL,
     pLinkIDArray = replicate (Suc MAX_LINK_COUNT) NULL, links = Map.empty, ids_s = Map.empty, msgq = []\<rparr>"

text \<open>
  \<open>CREATE_LINK\<close> clears a new link and sets its address; \<open>add_list\<close> then sets the sequence numbers, the
  times and the semaphores.
\<close>

definition zero_link :: s_link where
  "zero_link = \<lparr>linkState = 0, timeoutFree = \<lparr>tv_sec = 0, tv_usec = 0\<rparr>, id_l = 0, socket_l = 0, port_l = 0, ip_l = 0,
     PrioritySendLack = 0, accept_l = 0, timeout_times = 0, timeout_l = \<lparr>tv_sec = 0, tv_usec = 0\<rparr>,
     timeoutSend = \<lparr>tv_sec = 0, tv_usec = 0\<rparr>, timeoutCheckLack = \<lparr>tv_sec = 0, tv_usec = 0\<rparr>,
     timeoutReportLack = \<lparr>tv_sec = 0, tv_usec = 0\<rparr>, tsWaitTime = 0, semRecvList = 0, semSendList = 0,
     semRecvListMutex = 0, semSendListMutex = 0, SeqRead = 0, SeqReadMax = 0, SeqMaxSend = 0, SeqCheckSend = 0,
     paArrayRecv = replicate MAX_PACKET_NUMBER zero_packet, paArraySend = replicate MAX_PACKET_NUMBER zero_packet,
     same_port_next = NULL\<rparr>"

definition CREATE_LINK :: "u32 \<Rightarrow> nat \<Rightarrow> 'h st_sock \<Rightarrow> s_link" where
  "CREATE_LINK ip port sts = zero_link\<lparr>ip_l := ip, port_l := port, socket_l := socket_s sts\<rparr>"

definition first_seq :: "s_packet_all list \<Rightarrow> s_packet_all list option" where
  "first_seq ps = do {
     p \<leftarrow> slot ps 0;
     Some (ps[0 := p\<lparr>head := (head p)\<lparr>seq_h := 1\<rparr>\<rparr>]) }"

definition init_link :: "timeval \<Rightarrow> 'h st_sock \<Rightarrow> nat \<Rightarrow> s_link \<Rightarrow> s_link option" where
  "init_link now sts i L = do {
     ra \<leftarrow> first_seq (paArrayRecv L);
     sa \<leftarrow> first_seq (paArraySend L);
     Some (L\<lparr>SeqRead := 1, SeqMaxSend := 1, SeqCheckSend := 0,
       timeoutCheckLack := \<lparr>tv_sec = 0, tv_usec = CHECK_INTERVAL_INIT\<rparr>, paArrayRecv := ra, paArraySend := sa,
       timeout_times := 1, timeout_l := (timeout_l L)\<lparr>tv_sec := 0\<rparr>, tsWaitTime := tsWaitTime_s sts,
       timeoutSend := now, linkState := 0, semRecvList := 1, semSendList := 1, semRecvListMutex := 1,
       semSendListMutex := 1, id_l := i\<rparr>) }"

text \<open>The checks of \<open>thread_recv\<close> on a datagram before it looks for the link.\<close>

definition packet_ok :: "s_packet_all \<Rightarrow> bool" where
  "packet_ok pa \<longleftrightarrow> \<not> (len_p pa < LEN_PACKET_HEAD \<or> len_p pa > MAX_PACKET_SIZE \<or> type_h (head pa) < LINK_SYN \<or>
     type_h (head pa) > LINK_FIN \<or> seq_h (head pa) \<ge> MAX_PACKET_SEQ) \<and>
     \<not> (type_h (head pa) = LINK_SYN \<and> checksum_h (head pa) \<noteq> EX_UDP_VER)"

text \<open>The other side starts anew: forget what was received, read from the number it names.\<close>

definition fresh_recv :: "nat \<Rightarrow> s_link \<Rightarrow> s_link option" where
  "fresh_recv chk L = do {
     p \<leftarrow> slot (paArrayRecv L) 1;
     ra \<leftarrow> first_seq (if seq_h (head p) = 1 then replicate MAX_PACKET_NUMBER zero_packet else paArrayRecv L);
     Some (L\<lparr>paArrayRecv := ra, SeqRead := chk\<rparr>) }"

definition recv_syn :: "s_link \<Rightarrow> s_packet_all \<Rightarrow> (s_link \<times> dgram list) option" where
  "recv_syn L pa = do {
     L \<leftarrow> (if state_h (head pa) < 2 then fresh_recv (seqCheck_h (head pa)) L else Some L);
     let L = (if linkState L < 2
              then L\<lparr>linkState := (if state_h (head pa) = 2 then 0 else 1), SeqRead := seqCheck_h (head pa)\<rparr> else L);
     let pa = pa\<lparr>head := (head pa)\<lparr>type_h := LINK_SYN_ACK, seqCheck_h := (SeqCheckSend L + 1) mod MAX_PACKET_SEQ\<rparr>\<rparr>;
     (r, pa, d) \<leftarrow> SendMsg True L pa LEN_PACKET_HEAD;
     Some (L, d) }"

definition recv_syn_ack ::
  "udp_conf \<Rightarrow> 'h st_sock \<Rightarrow> s_link \<Rightarrow> s_packet_all \<Rightarrow> ('h st_sock \<times> s_link \<times> dgram list) option" where
  "recv_syn_ack cf sts L pa = do {
     (L, pa, d) \<leftarrow> (if state_h (head pa) < 2
       then do {
         L \<leftarrow> fresh_recv (seqCheck_h (head pa)) L;
         let pa = pa\<lparr>head := (head pa)\<lparr>type_h := LINK_ACK, seqCheck_h := (SeqCheckSend L + 1) mod MAX_PACKET_SEQ\<rparr>\<rparr>;
         (r, pa, d) \<leftarrow> SendMsg True L pa LEN_PACKET_HEAD;
         Some (L, pa, d) }
       else Some (L, pa, []));
     let L = (if linkState L < 2 then L\<lparr>linkState := 2, SeqRead := seqCheck_h (head pa)\<rparr> else L);
     let sts = (if GET_MS_DIFF (time_listen sts) (timeout_l L) \<ge> LISTEN_LINK_INTERVAL cf
                then sts\<lparr>semListen := semListen sts + 1\<rparr> else sts);
     Some (sts, L\<lparr>semSendList := semSendList L + 1\<rparr>, d) }"

text \<open>
  What \<open>thread_recv\<close> does with a datagram once it has the link. For \<open>LINK_FIN\<close> the link is deleted,
  which is done on the tables of the socket (theory Udp-Sock); here it is left as it is.
\<close>

definition recv_switch ::
  "'h clist_ops \<Rightarrow> udp_conf \<Rightarrow> timeval \<Rightarrow> 'h st_sock \<Rightarrow> s_link \<Rightarrow> s_packet_all \<Rightarrow> ('h st_sock \<times> s_link \<times> dgram list) option" where
  "recv_switch C cf now sts L pa =
     (let ty = type_h (head pa) in
      if ty = LINK_SYN then do { (L, d) \<leftarrow> recv_syn L pa; Some (sts, L, d) }
      else if ty = LINK_SYN_ACK then recv_syn_ack cf sts L pa
      else if ty = LINK_ACK then Some (sts, if linkState L < 2 then L\<lparr>linkState := 2\<rparr> else L, [])
      else if ty = USER_DATA then do { (r, sts, L) \<leftarrow> UserDataRecv C sts L pa; Some (sts, L, []) }
      else if ty = SEQ_CHECK then do { (r, sts, L, d) \<leftarrow> SeqCheckAck C sts L pa; Some (sts, L, d) }
      else if ty = SEQ_REPORT then (case SeqReportAck now L pa of (r, L) \<Rightarrow> Some (sts, L, []))
      else if ty = SEQ_LACK then do { (r, L, d) \<leftarrow> SeqLackAck L pa; Some (sts, L, d) }
      else Some (sts, L, []))"

definition recv_packet ::
  "'h clist_ops \<Rightarrow> udp_conf \<Rightarrow> timeval \<Rightarrow> 'h st_sock \<Rightarrow> s_link \<Rightarrow> s_packet_all \<Rightarrow> ('h st_sock \<times> s_link \<times> dgram list) option" where
  "recv_packet C cf now sts L pa = do {
     L \<leftarrow> (if linkState L = 1 \<and> state_h (head pa) = 2
          then do { L \<leftarrow> fresh_recv (seqCheck_h (head pa)) L; Some (L\<lparr>linkState := 2\<rparr>) }
          else Some L);
     let L = L\<lparr>timeout_l := (timeout_l L)\<lparr>tv_sec := 0\<rparr>\<rparr>;
     recv_switch C cf now sts L pa }"

text \<open>
  What \<open>thread_listen\<close> does with one link: it notes the time of the last datagram, asks a silent
  other side for a sign of life, gives up after too many times (\<open>Expired\<close>), and checks what has
  arrived.
\<close>

datatype 'a listened = Expired | Listened 'a

definition listen_link ::
  "udp_conf \<Rightarrow> timeval \<Rightarrow> timeval \<Rightarrow> 'h st_sock \<Rightarrow> s_link \<Rightarrow> ('h st_sock \<times> s_link \<times> dgram list) listened option" where
  "listen_link cf now now' sts L =
     (if tv_sec (timeout_l L) = 0
      then do {
        (r, sts, L, d) \<leftarrow> SeqCheck cf now' sts (L\<lparr>timeout_l := now, timeout_times := 1\<rparr>);
        Some (Listened (sts, L, d)) }
      else if GET_MS_DIFF (time_listen sts) (timeout_l L) \<ge> LISTEN_LINK_INTERVAL cf * int (timeout_times L)
      then if int (timeout_times L) > LISTEN_LINK_TIMES cf then Some Expired
        else do {
          d \<leftarrow> (if linkState L = 2
            then do {
              let pa = zero_packet\<lparr>head := (head zero_packet)\<lparr>type_h := LINK_SYN, checksum_h := EX_UDP_VER,
                seqCheck_h := (SeqCheckSend L + 1) mod MAX_PACKET_SEQ, seq_h := SeqMaxSend L\<rparr>\<rparr>;
              (r, pa, d) \<leftarrow> SendMsg True L pa LEN_PACKET_HEAD;
              Some d }
            else Some []);
          (r, sts, L, d') \<leftarrow> SeqCheck cf now' sts (L\<lparr>timeout_times := (timeout_times L + 1) mod 256\<rparr>);
          Some (Listened (sts, L, d @ d')) }
      else do {
        (r, sts, L, d) \<leftarrow> SeqCheck cf now' sts L;
        Some (Listened (sts, L, d)) })"

text \<open>The request for a connection that \<open>exConnect\<close> sends; it does not belong to a link.\<close>

definition syn_packet :: s_packet_all where
  "syn_packet = zero_packet\<lparr>head := \<lparr>type_h = LINK_SYN, state_h = 0, seq_h = 1, seqCheck_h = 1, checksum_h = EX_UDP_VER\<rparr>,
     len_p := LEN_PACKET_HEAD\<rparr>"

end
