(* ===== verification/Udp_Reliable.thy ===== *)
theory Udp_Reliable
  imports Udp
begin

text \<open>
  What the datagram module promises, ``no packet is lost, none out of order'': two established links
  over a network that loses, repeats and reorders datagrams. Theory Udp has the handlers; here the
  sequence numbers modulo 2044 and the windows of 511 packets are related to the positions of
  the packets in the stream, the invariant of a connection is stated and every handler is shown to
  keep it.
\<close>

section \<open>Sequence numbers and positions\<close>

lemma seq_consts: "MAX_PACKET_SEQ = 2044" "MAX_PACKET_NUMBER = 511"
  by (simp_all add: MAX_PACKET_SEQ_def MAX_PACKET_NUMBER_def push_bit_eq_mult)

lemmas size_consts = MAX_PACKET_DATA_SIZE_def MAX_PACKET_SIZE_def LEN_PACKET_HEAD_def

text \<open>The sequence number of the packet at position \<open>n\<close> of the stream; the first one is 1.\<close>

definition seqn :: "nat \<Rightarrow> nat" where
  "seqn n = Suc n mod MAX_PACKET_SEQ"

lemma seqn_less [simp]: "seqn n < MAX_PACKET_SEQ" "x mod MAX_PACKET_SEQ < MAX_PACKET_SEQ"
  by (simp_all add: seqn_def seq_consts)

lemma seqn_Suc: "(seqn n + 1) mod MAX_PACKET_SEQ = seqn (Suc n)" "Suc (seqn n) mod MAX_PACKET_SEQ = seqn (Suc n)"
  by (simp_all add: seqn_def mod_Suc_eq)

lemma seqn_slot: "seqn n mod MAX_PACKET_NUMBER = Suc n mod MAX_PACKET_NUMBER"
  by (simp add: seqn_def seq_consts mod_mod_cancel)

lemma mod_shift:
  fixes b k m :: nat
  assumes "k < m"
  shows "(b + k) mod m = b mod m + k \<and> b mod m + k < m \<or> (b + k) mod m + m = b mod m + k"
proof -
  have e: "(b + k) mod m = (b mod m + k) mod m" by (simp add: mod_add_left_eq)
  have l: "b mod m < m" using assms by simp
  show ?thesis
  proof (cases "b mod m + k < m")
    case False
    moreover have "b mod m + k - m < m" using l assms by linarith
    ultimately have "(b mod m + k) mod m = b mod m + k - m" by (simp add: le_mod_geq)
    then show ?thesis using e False by simp
  qed (simp add: e)
qed

lemma mod_moves:
  fixes b k m :: nat
  assumes "0 < k" "k < m"
  shows "(b + k) mod m \<noteq> b mod m"
proof -
  have "(x::nat) \<noteq> y" if "x = y + k \<or> x + m = y + k" for x y using that assms by auto
  then show ?thesis using mod_shift[OF assms(2), of b] by blast
qed

lemma cmp_seq_pos:
  assumes "b \<le> a + 1533" "a \<le> b + 510"
  shows "CMP_SEQ (a mod MAX_PACKET_SEQ) (b mod MAX_PACKET_SEQ) \<longleftrightarrow> b < a"
proof -
  let ?x = "a mod 2044" and ?y = "b mod 2044"
  have l: "?x < 2044" "?y < 2044" by simp_all
  have "CMP_SEQ ?x ?y \<longleftrightarrow> b < a"
  proof (cases "b \<le> a")
    case True
    then obtain k where a: "a = b + k" "k \<le> 510" using assms le_Suc_ex by force
    from mod_shift[of k 2044 b] have "?x = ?y + k \<and> ?y + k < 2044 \<or> ?x + 2044 = ?y + k" using a by simp
    moreover have "b < a \<longleftrightarrow> 0 < k" using a by simp
    ultimately show ?thesis unfolding CMP_SEQ_def seq_consts using l a(2) by arith
  next
    case False
    then obtain k where b: "b = a + k" "k \<le> 1533" "0 < k" using assms by (intro that[of "b - a"]) auto
    from mod_shift[of k 2044 a] have "?y = ?x + k \<and> ?x + k < 2044 \<or> ?y + 2044 = ?x + k" using b by simp
    moreover have "\<not> b < a" using b by simp
    ultimately show ?thesis unfolding CMP_SEQ_def seq_consts using l b(2,3) by arith
  qed
  then show ?thesis by (simp add: seq_consts)
qed

text \<open>\<open>CMP_SEQ_ORDER\<close> says how far the middle and the last number are ahead of the first.\<close>

definition ahead :: "nat \<Rightarrow> nat \<Rightarrow> nat" where
  "ahead x h = (if h \<le> x then x - h else x + MAX_PACKET_SEQ - h)"

lemma cmp_order_ahead:
  assumes "h < MAX_PACKET_SEQ" "m < MAX_PACKET_SEQ" "t < MAX_PACKET_SEQ"
  shows "CMP_SEQ_ORDER h m t \<longleftrightarrow> ahead m h < ahead t h \<and> ahead t h < MAX_PACKET_NUMBER"
  using assms by (auto simp: CMP_SEQ_ORDER_def ahead_def seq_consts)

lemma ahead_eq:
  "x < 2044 \<Longrightarrow> j < 2044 \<Longrightarrow> y = x + j \<and> x + j < 2044 \<or> y + 2044 = x + j \<Longrightarrow> ahead y x = j"
  by (auto simp: ahead_def seq_consts)

lemma ahead_mod:
  assumes "c \<le> k" "k < c + MAX_PACKET_SEQ"
  shows "ahead (k mod MAX_PACKET_SEQ) (c mod MAX_PACKET_SEQ) = k - c"
proof -
  obtain j where k: "k = c + j" "j < 2044" using assms seq_consts le_Suc_ex by force
  have "ahead (k mod 2044) (c mod 2044) = j"
    by (rule ahead_eq) (use k mod_shift[of j 2044 c] in simp_all)
  then show ?thesis using k by (simp add: seq_consts)
qed

lemma cmp_order_pos:
  assumes "c \<le> k + 1533" "k \<le> s" "c \<le> s" "s \<le> c + 509"
  shows "CMP_SEQ_ORDER (c mod MAX_PACKET_SEQ) (k mod MAX_PACKET_SEQ) (Suc s mod MAX_PACKET_SEQ) \<longleftrightarrow> c \<le> k"
proof -
  have t: "ahead (Suc s mod MAX_PACKET_SEQ) (c mod MAX_PACKET_SEQ) = Suc s - c"
    using assms by (intro ahead_mod) (auto simp: seq_consts)
  show ?thesis
  proof (cases "c \<le> k")
    case True
    have "ahead (k mod MAX_PACKET_SEQ) (c mod MAX_PACKET_SEQ) = k - c"
      using assms True by (intro ahead_mod) (auto simp: seq_consts)
    then show ?thesis using t True assms by (simp add: cmp_order_ahead) (auto simp: seq_consts)
  next
    case False
    have "ahead ((k + MAX_PACKET_SEQ) mod MAX_PACKET_SEQ) (c mod MAX_PACKET_SEQ) = k + MAX_PACKET_SEQ - c"
      using assms False by (intro ahead_mod) (auto simp: seq_consts)
    then show ?thesis using t False assms by (simp add: cmp_order_ahead) (auto simp: seq_consts)
  qed
qed

text \<open>A number in the window of the sender stands for a position that is not acknowledged.\<close>

lemma cmp_order_position:
  assumes "CMP_SEQ_ORDER (Suc c mod MAX_PACKET_SEQ) q (Suc s mod MAX_PACKET_SEQ)" "q < MAX_PACKET_SEQ" "c \<le> s" "s \<le> c + 509"
  obtains n where "c \<le> n" "n < s" "q = seqn n"
proof -
  let ?h = "Suc c mod MAX_PACKET_SEQ"
  have t: "ahead (Suc s mod MAX_PACKET_SEQ) ?h = s - c"
    using assms by (subst ahead_mod) (auto simp: seq_consts)
  have j: "ahead q ?h < s - c" using assms(1,2) t by (simp add: cmp_order_ahead)
  have "q = (Suc c + ahead q ?h) mod MAX_PACKET_SEQ"
  proof -
    have "ahead q ?h < 2044" using j assms(4) by simp
    from mod_shift[OF this, of "Suc c"] show ?thesis
      using assms(2) j assms(4) mod_less_divisor[of 2044 "Suc c"] unfolding ahead_def seq_consts by auto
  qed
  then show thesis using that[of "c + ahead q ?h"] j by (simp add: seqn_def)
qed

section \<open>A connection\<close>

text \<open>
  One direction of a connection: the link that sends, the link that reads, what the user gave to
  \<open>exSend\<close> and what \<open>exRecv\<close> returned, and the datagrams on the way in both directions. A datagram
  carries, for the model only, the number of packets that had been sent when it left. The
  network delivers a datagram any number of times, in any order, or never, but not later than after
  1023 further packets: sequence numbers are reused after 2044 packets.
\<close>

definition LIFETIME :: nat where "LIFETIME = 1023"

datatype phase = Idle | Trying | Waiting

record 'h conn =
  sndr :: s_link
  rcvr :: s_link
  ssock :: "'h st_sock"
  rsock :: "'h st_sock"
  written :: "byte list list"
  delivered :: "byte list list"
  toB :: "(nat \<times> dgram) set"
  toA :: "(nat \<times> dgram) set"
  scall :: phase
  rcall :: phase

definition received :: "dgram \<Rightarrow> s_packet_all" where
  "received d = \<lparr>head = fst d, buf = snd d @ drop (length (snd d)) (buf zero_packet), len_p = LEN_PACKET_HEAD + length (snd d)\<rparr>"

abbreviation post :: "nat \<Rightarrow> dgram list \<Rightarrow> (nat \<times> dgram) set" where
  "post t ds \<equiv> Pair t ` set ds"

definition arrives :: "'h conn \<Rightarrow> (nat \<times> dgram) set \<Rightarrow> dgram \<Rightarrow> bool" where
  "arrives s net d \<longleftrightarrow> (\<exists>t. (t, d) \<in> net \<and> length (written s) \<le> t + LIFETIME)"

inductive conn_step :: "'h clist_ops \<Rightarrow> udp_conf \<Rightarrow> 'h conn \<Rightarrow> 'h conn \<Rightarrow> bool" for C cf where
  send_enter: "scall s = Idle \<Longrightarrow> exSend_enter (sndr s) = Some L \<Longrightarrow>
    conn_step C cf s (s\<lparr>sndr := L, scall := Trying\<rparr>)"
| send_try: "scall s = Trying \<Longrightarrow> 1 \<le> length data \<Longrightarrow> length data \<le> MAX_PACKET_DATA_SIZE \<Longrightarrow>
    exSend_try cf now ok (ssock s) (sndr s) data = Some (r, sts, L, ds) \<Longrightarrow>
    conn_step C cf s (s\<lparr>ssock := sts, sndr := L, toB := toB s \<union> post (length (written s)) ds,
      written := (if r = Returns (int (length data)) then written s @ [data] else written s),
      scall := (if r = Again then Waiting else Idle)\<rparr>)"
| send_wake: "scall s = Waiting \<Longrightarrow> exSend_wake w (sndr s) = Some (r, L) \<Longrightarrow>
    conn_step C cf s (s\<lparr>sndr := L, scall := (if r = Again then Trying else Idle)\<rparr>)"
| recv_enter: "rcall s = Idle \<Longrightarrow> exRecv_enter (rcvr s) = Some L \<Longrightarrow>
    conn_step C cf s (s\<lparr>rcvr := L, rcall := Trying\<rparr>)"
| recv_try: "rcall s = Trying \<Longrightarrow> exRecv_try now (rcvr s) = Some (r, L, ds) \<Longrightarrow>
    conn_step C cf s (s\<lparr>rcvr := L, toA := toA s \<union> post (length (written s)) ds,
      delivered := (case r of Returns (n, d) \<Rightarrow> if n > 0 then delivered s @ [d] else delivered s | Again \<Rightarrow> delivered s),
      rcall := (if r = Again then Waiting else Idle)\<rparr>)"
| recv_wake: "rcall s = Waiting \<Longrightarrow> exRecv_wake w (rcvr s) = Some (r, L) \<Longrightarrow>
    conn_step C cf s (s\<lparr>rcvr := L, rcall := (if r = Again then Trying else Idle)\<rparr>)"
| listen: "listen_link cf now now' ((ssock s)\<lparr>time_listen := tm\<rparr>) (sndr s) = Some (Listened (sts, L, ds)) \<Longrightarrow>
    conn_step C cf s (s\<lparr>ssock := sts, sndr := L, toB := toB s \<union> post (length (written s)) ds\<rparr>)"
| arrive_B: "arrives s (toB s) d \<Longrightarrow> packet_ok (received d) \<Longrightarrow>
    recv_packet C cf now (rsock s) (rcvr s) (received d) = Some (sts, L, ds) \<Longrightarrow>
    conn_step C cf s (s\<lparr>rsock := sts, rcvr := L, toA := toA s \<union> post (length (written s)) ds\<rparr>)"
| arrive_A: "arrives s (toA s) d \<Longrightarrow> packet_ok (received d) \<Longrightarrow>
    recv_packet C cf now (ssock s) (sndr s) (received d) = Some (sts, L, ds) \<Longrightarrow>
    conn_step C cf s (s\<lparr>ssock := sts, sndr := L, toB := toB s \<union> post (length (written s)) ds\<rparr>)"

section \<open>The invariant\<close>

definition holds_packet :: "byte list list \<Rightarrow> nat \<Rightarrow> s_packet_all \<Rightarrow> bool" where
  "holds_packet W n p \<longleftrightarrow> n < length W \<and> seq_h (head p) = seqn n \<and>
     len_p p = LEN_PACKET_HEAD + length (W ! n) \<and> take (length (W ! n)) (buf p) = W ! n"

definition sender_inv :: "byte list list \<Rightarrow> nat \<Rightarrow> s_link \<Rightarrow> bool" where
  "sender_inv W c L \<longleftrightarrow> linkState L = 2 \<and> length (paArraySend L) = MAX_PACKET_NUMBER \<and>
     SeqMaxSend L = seqn (length W) \<and> SeqCheckSend L = c mod MAX_PACKET_SEQ \<and>
     c \<le> length W \<and> length W \<le> c + 509 \<and>
     (\<forall>p \<in> set (paArraySend L). length (buf p) = MAX_PACKET_DATA_SIZE) \<and>
     (\<forall>n. c \<le> n \<and> n < length W \<longrightarrow>
        holds_packet W n (paArraySend L ! (seqn n mod MAX_PACKET_NUMBER)) \<and>
        type_h (head (paArraySend L ! (seqn n mod MAX_PACKET_NUMBER))) = USER_DATA)"

definition receiver_inv :: "byte list list \<Rightarrow> nat \<Rightarrow> s_link \<Rightarrow> bool" where
  "receiver_inv W r L \<longleftrightarrow> linkState L = 2 \<and> length (paArrayRecv L) = MAX_PACKET_NUMBER \<and>
     SeqRead L = seqn r \<and> SeqReadMax L < MAX_PACKET_SEQ \<and>
     (\<forall>i < MAX_PACKET_NUMBER. len_p (paArrayRecv L ! i) \<noteq> 0 \<longrightarrow>
        (\<exists>n. r \<le> n \<and> seqn n mod MAX_PACKET_NUMBER = i \<and> holds_packet W n (paArrayRecv L ! i)))"

text \<open>Datagrams on the way; \<open>t\<close> is the number of packets that had been sent when they left.\<close>

definition toB_inv :: "byte list list \<Rightarrow> nat \<times> dgram \<Rightarrow> bool" where
  "toB_inv W td \<longleftrightarrow> fst td \<le> length W \<and> type_h (fst (snd td)) \<in> {USER_DATA, SEQ_CHECK, LINK_SYN} \<and>
     (type_h (fst (snd td)) = USER_DATA \<longrightarrow>
       (\<exists>n < length W. seq_h (fst (snd td)) = seqn n \<and> snd (snd td) = W ! n \<and> fst td \<le> n + 510)) \<and>
     (type_h (fst (snd td)) = SEQ_CHECK \<longrightarrow> seq_h (fst (snd td)) < MAX_PACKET_SEQ \<and> length (snd (snd td)) = 16) \<and>
     (type_h (fst (snd td)) = LINK_SYN \<longrightarrow> state_h (fst (snd td)) = 2)"

definition toA_inv :: "byte list list \<Rightarrow> nat \<Rightarrow> nat \<times> dgram \<Rightarrow> bool" where
  "toA_inv W r td \<longleftrightarrow> fst td \<le> length W \<and> length (snd (snd td)) \<le> MAX_PACKET_DATA_SIZE \<and>
     type_h (fst (snd td)) \<in> {SEQ_REPORT, SEQ_LACK, LINK_SYN_ACK} \<and>
     (type_h (fst (snd td)) = SEQ_REPORT \<longrightarrow>
       (\<exists>k \<le> r. seq_h (fst (snd td)) = k mod MAX_PACKET_SEQ \<and> fst td \<le> k + 510)) \<and>
     (type_h (fst (snd td)) = LINK_SYN_ACK \<longrightarrow> state_h (fst (snd td)) = 2)"

definition conn_inv :: "'h conn \<Rightarrow> bool" where
  "conn_inv s \<longleftrightarrow> (\<exists>c. sender_inv (written s) c (sndr s) \<and> c \<le> length (delivered s)) \<and>
     receiver_inv (written s) (length (delivered s)) (rcvr s) \<and> msgid_s (rsock s) = -1 \<and>
     length (delivered s) \<le> length (written s) \<and>
     delivered s = take (length (delivered s)) (written s) \<and>
     (\<forall>d \<in> set (written s). 1 \<le> length d \<and> length d \<le> MAX_PACKET_DATA_SIZE) \<and>
     (\<forall>x \<in> toB s. toB_inv (written s) x) \<and> (\<forall>x \<in> toA s. toA_inv (written s) (length (delivered s)) x)"

subsection \<open>Longer streams\<close>

lemma holds_packet_append: "holds_packet W n p \<Longrightarrow> holds_packet (W @ V) n p"
  by (simp add: holds_packet_def nth_append)

lemma inv_append:
  "receiver_inv W r L \<Longrightarrow> receiver_inv (W @ V) r L"
  "toB_inv W x \<Longrightarrow> toB_inv (W @ V) x"
  "toA_inv W r y \<Longrightarrow> toA_inv (W @ V) r y"
proof -
  show "receiver_inv W r L \<Longrightarrow> receiver_inv (W @ V) r L"
    unfolding receiver_inv_def by (meson holds_packet_append)
  show "toB_inv W x \<Longrightarrow> toB_inv (W @ V) x"
    unfolding toB_inv_def by (auto simp: nth_append intro: trans_less_add1)
  show "toA_inv W r y \<Longrightarrow> toA_inv (W @ V) r y"
    by (auto simp: toA_inv_def)
qed

lemma toA_inv_mono: "toA_inv W r y \<Longrightarrow> r \<le> r' \<Longrightarrow> toA_inv W r' y"
  unfolding toA_inv_def by (meson order_trans)

lemma slot_inj:
  assumes "m \<le> n" "n < m + MAX_PACKET_NUMBER" "seqn m mod MAX_PACKET_NUMBER = seqn n mod MAX_PACKET_NUMBER"
  shows "m = n"
proof -
  obtain k where k: "n = m + k" "k < 511" using assms(1,2) seq_consts le_Suc_ex by force
  have e: "Suc m mod 511 = (Suc m + k) mod 511" using assms(3) unfolding seqn_slot by (simp add: seq_consts k(1))
  then have "k = 0" using mod_moves[of k 511 "Suc m"] k(2) by auto
  then show ?thesis using k(1) by simp
qed

lemma seqn_inj: "m \<le> n \<Longrightarrow> n < m + MAX_PACKET_NUMBER \<Longrightarrow> seqn m = seqn n \<Longrightarrow> m = n"
  by (rule slot_inj) simp_all

subsection \<open>Sending\<close>

lemma SendMsg_ok:
  assumes "len_p pa = LEN_PACKET_HEAD + n" "n \<le> length (buf pa)"
  shows "SendMsg True L pa (len_p pa) = Some (int (len_p pa), stamp_packet L pa, [(head (stamp_packet L pa), take n (buf pa))])"
  using assms by (simp add: SendMsg_def stamp_packet_def Let_def)

lemma stamp_fields [simp]:
  "seq_h (head (stamp_packet L p)) = seq_h (head p)" "type_h (head (stamp_packet L p)) = type_h (head p)"
  "buf (stamp_packet L p) = buf p" "len_p (stamp_packet L p) = len_p p"
  "holds_packet W n (stamp_packet L p) = holds_packet W n p"
  by (simp_all add: stamp_packet_def holds_packet_def)

lemma mod_mod_511: "x mod 2044 mod 511 = (x::nat) mod 511"
  by (simp add: mod_mod_cancel)

lemma window_open:
  assumes "sender_inv W c L" "(SeqMaxSend L + 1) mod MAX_PACKET_NUMBER \<noteq> SeqCheckSend L mod MAX_PACKET_NUMBER"
  shows "length W \<le> c + 508"
proof (rule ccontr)
  assume "\<not> ?thesis"
  then have w: "length W = c + 509" using assms(1) by (simp add: sender_inv_def)
  have a: "(SeqMaxSend L + 1) mod 511 = c mod 511"
  proof -
    have "(SeqMaxSend L + 1) mod 511 = (Suc (length W) mod 2044 + 1) mod 511"
      using assms(1) by (simp add: sender_inv_def seqn_def seq_consts)
    also have "\<dots> = (Suc (length W) mod 511 + 1) mod 511"
      by (metis mod_mod_511 mod_add_left_eq)
    also have "\<dots> = (Suc (length W) + 1) mod 511" by (simp only: mod_add_left_eq)
    finally show ?thesis using w by (simp add: add.commute)
  qed
  have "SeqCheckSend L mod 511 = c mod 511"
    using assms(1) by (simp add: sender_inv_def seq_consts mod_mod_cancel)
  then show False using assms(2) a by (simp add: seq_consts)
qed

lemma sender_send:
  assumes "sender_inv W c L" "length W \<le> c + 508" "length (buf p) = MAX_PACKET_DATA_SIZE"
    "holds_packet (W @ [data]) (length W) p" "type_h (head p) = USER_DATA"
  shows "sender_inv (W @ [data]) c (L\<lparr>paArraySend := (paArraySend L)[SeqMaxSend L mod MAX_PACKET_NUMBER := p],
      SeqMaxSend := (SeqMaxSend L + 1) mod MAX_PACKET_SEQ\<rparr>)" (is "sender_inv _ _ ?L")
proof -
  let ?i = "seqn (length W) mod MAX_PACKET_NUMBER"
  have S: "SeqMaxSend L = seqn (length W)" and len: "length (paArraySend L) = MAX_PACKET_NUMBER" and i: "?i < MAX_PACKET_NUMBER"
    using assms(1) by (auto simp: sender_inv_def seq_consts)
  have "holds_packet (W @ [data]) n (paArraySend ?L ! (seqn n mod MAX_PACKET_NUMBER)) \<and>
      type_h (head (paArraySend ?L ! (seqn n mod MAX_PACKET_NUMBER))) = USER_DATA"
    if n: "c \<le> n" "n < length (W @ [data])" for n
  proof (cases "n = length W")
    case True
    then show ?thesis using assms(4,5) S len i by simp
  next
    case False
    then have "n < length W" using n by simp
    then have "seqn n mod MAX_PACKET_NUMBER \<noteq> ?i"
      using slot_inj[of n "length W"] n assms(2) by (auto simp: seq_consts)
    then show ?thesis using assms(1) S n \<open>n < length W\<close> by (auto simp: sender_inv_def intro: holds_packet_append)
  qed
  moreover have "length (buf q) = MAX_PACKET_DATA_SIZE" if "q \<in> set (paArraySend ?L)" for q
    using that assms(1,3) by (auto simp: sender_inv_def dest!: set_update_subset_insert[THEN subsetD])
  ultimately show ?thesis using assms(1,2) by (simp add: sender_inv_def seqn_Suc)
qed

lemma sender_retry:
  assumes "sender_inv W c L" "length W \<le> c + 508" "length (buf p) = MAX_PACKET_DATA_SIZE"
  shows "sender_inv W c (L\<lparr>paArraySend := (paArraySend L)[SeqMaxSend L mod MAX_PACKET_NUMBER := p]\<rparr>)"
proof -
  have "seqn (length W) mod MAX_PACKET_NUMBER \<noteq> seqn n mod MAX_PACKET_NUMBER" if "c \<le> n" "n < length W" for n
    using slot_inj[of n "length W"] that assms(2) by (auto simp: seq_consts)
  moreover have "length (buf q) = MAX_PACKET_DATA_SIZE" if "q \<in> set ((paArraySend L)[SeqMaxSend L mod MAX_PACKET_NUMBER := p])" for q
    using that assms(1,3) by (auto simp: sender_inv_def dest!: set_update_subset_insert[THEN subsetD])
  ultimately show ?thesis using assms(1) by (auto simp: sender_inv_def)
qed

text \<open>A try of \<open>exSend\<close>: the packet goes out and joins the stream, or the stream is unchanged.\<close>

definition sent_from :: "byte list list \<Rightarrow> nat \<Rightarrow> dgram \<Rightarrow> bool" where
  "sent_from W c d \<longleftrightarrow> type_h (fst d) = USER_DATA \<and> (\<exists>n. c \<le> n \<and> n < length W \<and> seq_h (fst d) = seqn n \<and> snd d = W ! n)"

lemma sender_inv_sems:
  "sender_inv W c (L\<lparr>semSendList := x\<rparr>) = sender_inv W c L"
  "sender_inv W c (L\<lparr>semSendListMutex := x\<rparr>) = sender_inv W c L"
  "sender_inv W c (L\<lparr>PrioritySendLack := y\<rparr>) = sender_inv W c L"
  "sender_inv W c (L\<lparr>timeoutSend := t\<rparr>) = sender_inv W c L"
  "sender_inv W c (L\<lparr>timeoutCheckLack := t\<rparr>) = sender_inv W c L"
  "sender_inv W c (L\<lparr>timeout_l := t\<rparr>) = sender_inv W c L"
  "sender_inv W c (L\<lparr>timeout_times := x\<rparr>) = sender_inv W c L"
  by (simp_all add: sender_inv_def)

lemma exSend_try_inv:
  assumes "sender_inv W c L" "1 \<le> length data" "length data \<le> MAX_PACKET_DATA_SIZE"
    "exSend_try cf now ok sts L data = Some (r, sts', L', ds)"
  shows "r = Returns (int (length data)) \<and> sender_inv (W @ [data]) c L' \<and> (\<forall>d \<in> set ds. sent_from (W @ [data]) c d) \<or>
    r \<noteq> Returns (int (length data)) \<and> sender_inv W c L' \<and> ds = []"
proof (cases "PrioritySendLack L = 0 \<and> (SeqMaxSend L + 1) mod MAX_PACKET_NUMBER \<noteq> SeqCheckSend L mod MAX_PACKET_NUMBER")
  case True
  have w: "length W \<le> c + 508" using window_open[OF assms(1)] True by blast
  let ?i = "SeqMaxSend L mod MAX_PACKET_NUMBER"
  have i: "?i < length (paArraySend L)" and S: "SeqMaxSend L = seqn (length W)" and c: "c \<le> length W"
    using assms(1) by (auto simp: sender_inv_def seq_consts)
  let ?p = "paArraySend L ! ?i"
  have lb: "length (buf ?p) = MAX_PACKET_DATA_SIZE" using assms(1) i by (simp add: sender_inv_def)
  obtain b where b: "blit (buf ?p) 0 data 0 (length data) = Some b" "length b = MAX_PACKET_DATA_SIZE" "take (length data) b = data"
    using assms(3) lb by (auto simp: blit_def)
  let ?q = "?p\<lparr>head := (head ?p)\<lparr>seq_h := SeqMaxSend L, seqCheck_h := (SeqCheckSend L + 1) mod MAX_PACKET_SEQ, type_h := USER_DATA\<rparr>,
      len_p := LEN_PACKET_HEAD + length data, buf := b\<rparr>"
  have q: "holds_packet (W @ [data]) (length W) (stamp_packet L ?q)" "length (buf (stamp_packet L ?q)) = MAX_PACKET_DATA_SIZE"
    "type_h (head (stamp_packet L ?q)) = USER_DATA"
    using b S by (simp_all add: holds_packet_def)
  show ?thesis
  proof (cases ok)
    case True
    then have "r = Returns (int (length data)) \<and> ds = [(head (stamp_packet L ?q), data)] \<and>
        L' = L\<lparr>paArraySend := (paArraySend L)[?i := stamp_packet L ?q], SeqMaxSend := (SeqMaxSend L + 1) mod MAX_PACKET_SEQ,
          semSendListMutex := semSendListMutex L + 1\<rparr>"
      using assms(4) \<open>PrioritySendLack L = 0 \<and> _\<close> i b assms(3)
      by (auto simp: exSend_try_def slot_def SendMsg_def EX_UDP_ERROR_def Let_def size_consts)
    then show ?thesis using sender_send[OF assms(1) w q(2,1,3)] S c q(3)
      by (auto simp: sender_inv_sems sent_from_def simp del: stamp_fields(1))
        (auto simp: stamp_packet_def)
  next
    case False
    then have "r = Returns 0 \<and> ds = [] \<and>
        L' = L\<lparr>paArraySend := (paArraySend L)[?i := stamp_packet L ?q], semSendListMutex := semSendListMutex L + 1\<rparr>"
      using assms(4) \<open>PrioritySendLack L = 0 \<and> _\<close> i b assms(3)
      by (auto simp: exSend_try_def slot_def SendMsg_def EX_UDP_ERROR_def Let_def size_consts)
    then show ?thesis using sender_retry[OF assms(1) w q(2)] assms(2) by (auto simp: sender_inv_sems)
  qed
next
  case False
  then show ?thesis using assms
    by (auto simp: exSend_try_def Let_def sender_inv_sems split: if_splits)
qed

subsection \<open>Receiving\<close>

lemma receiver_inv_sems:
  "receiver_inv W r (L\<lparr>semRecvList := x\<rparr>) = receiver_inv W r L"
  "receiver_inv W r (L\<lparr>semRecvListMutex := x\<rparr>) = receiver_inv W r L"
  "receiver_inv W r (L\<lparr>timeoutReportLack := t\<rparr>) = receiver_inv W r L"
  "receiver_inv W r (L\<lparr>timeout_l := t\<rparr>) = receiver_inv W r L"
  by (simp_all add: receiver_inv_def)

lemma receiver_slot:
  assumes "receiver_inv W r L"
  shows "slot (paArrayRecv L) (q mod MAX_PACKET_NUMBER) = Some (paArrayRecv L ! (q mod MAX_PACKET_NUMBER))"
    "lacking L q = Some (seq_h (head (paArrayRecv L ! (q mod MAX_PACKET_NUMBER))) \<noteq> q \<or>
      len_p (paArrayRecv L ! (q mod MAX_PACKET_NUMBER)) = 0)"
  using assms by (auto simp: slot_def lacking_def receiver_inv_def seq_consts)

lemma receiver_read_pos:
  assumes "receiver_inv W r L" "lacking L (SeqRead L) = Some False"
  shows "r < length W"
proof -
  let ?i = "seqn r mod MAX_PACKET_NUMBER"
  have "SeqRead L = seqn r" using assms(1) by (simp add: receiver_inv_def)
  then have "len_p (paArrayRecv L ! ?i) \<noteq> 0" "?i < MAX_PACKET_NUMBER"
    using assms(2) receiver_slot(2)[OF assms(1), of "seqn r"] by (auto simp: seq_consts)
  then obtain n where "r \<le> n" "holds_packet W n (paArrayRecv L ! ?i)"
    using assms(1) by (auto simp: receiver_inv_def)
  then show ?thesis by (simp add: holds_packet_def)
qed

lemma receiver_put:
  assumes "receiver_inv W r L" "holds_packet W n p" "r \<le> n"
  shows "receiver_inv W r (L\<lparr>paArrayRecv := (paArrayRecv L)[seqn n mod MAX_PACKET_NUMBER := p]\<rparr>)"
  using assms by (auto simp: receiver_inv_def nth_list_update)

lemma UserDataRecv_inv:
  assumes "receiver_inv W r L" "holds_packet W n pa" "r \<le> n + 1533" "n \<le> r + 509" "msgid_s sts = -1"
  shows "\<exists>v L'. UserDataRecv C sts L pa = Some (v, sts, L') \<and> receiver_inv W r L' \<and>
    (r \<le> n \<longrightarrow> lacking L' (seqn n) = Some False)"
proof -
  have q: "seq_h (head pa) = seqn n" "linkState L = 2" "SeqRead L = seqn r" "len_p pa \<noteq> 0"
    using assms(1,2) by (auto simp: holds_packet_def receiver_inv_def size_consts)
  have win: "CMP_SEQ (seqn n) (SeqRead L) \<longleftrightarrow> r < n"
    using cmp_seq_pos[of "Suc r" "Suc n"] assms(3,4) by (simp add: q(3) seqn_def)
  show ?thesis
  proof (cases "r \<le> n")
    case True
    then have acc: "CMP_SEQ (seqn n) (SeqRead L) \<or> seqn n = SeqRead L" using win q(3) by (cases "r = n") auto
    let ?L = "L\<lparr>paArrayRecv := (paArrayRecv L)[seqn n mod MAX_PACKET_NUMBER := pa]\<rparr>"
    have put: "receiver_inv W r ?L" by (rule receiver_put[OF assms(1,2) True])
    have "lacking ?L (seqn n) = Some False"
      using receiver_slot(2)[OF put, of "seqn n"] q assms(1) by (simp add: receiver_inv_def seq_consts)
    then have "lacking (?L\<lparr>semRecvList := x\<rparr>) (seqn n) = Some False" for x by (simp add: lacking_def)
    then show ?thesis using \<open>lacking ?L (seqn n) = Some False\<close> acc q assms(5) put receiver_slot(2)[OF assms(1), of "seqn n"] assms(1)
      by (auto simp: UserDataRecv_def receiver_inv_sems Let_def)
  next
    case False
    show ?thesis
    proof (cases "seqn n = SeqRead L")
      case True
      have "n < r" using False by simp
      moreover have "\<not> r < n + MAX_PACKET_SEQ" if "seqn n = seqn r"
      proof -
        obtain k where k: "r = n + k" "0 < k" "k < 2044" using assms(3) \<open>n < r\<close> by (intro that[of "r - n"]) auto
        have "(Suc n + k) mod 2044 = Suc n mod 2044" using that k(1) by (simp add: seqn_def seq_consts)
        then show ?thesis using mod_moves[OF k(2,3), of "Suc n"] by blast
      qed
      ultimately show ?thesis using True q(3) assms(3) by (simp add: seq_consts)
    next
      case False
      then show ?thesis using win q assms(1) \<open>\<not> r \<le> n\<close> by (simp add: UserDataRecv_def)
    qed
  qed
qed

lemma exRecv_reads:
  assumes "receiver_inv W r L" "lacking L (SeqRead L) = Some False" "length W \<le> r + 509"
    "1 \<le> length (W ! r)" "length (W ! r) \<le> MAX_PACKET_DATA_SIZE"
  shows "r < length W \<and> (\<exists>L'. exRecv_try now L = Some (Returns (int (length (W ! r)), W ! r), L', []) \<and>
    receiver_inv W (Suc r) L')"
proof -
  let ?i = "seqn r mod MAX_PACKET_NUMBER" let ?p = "paArrayRecv L ! ?i"
  have S: "SeqRead L = seqn r" and i: "?i < MAX_PACKET_NUMBER" and len: "length (paArrayRecv L) = MAX_PACKET_NUMBER"
    using assms(1) by (auto simp: receiver_inv_def seq_consts)
  have p: "seq_h (head ?p) = seqn r" "len_p ?p \<noteq> 0"
    using assms(2) receiver_slot(2)[OF assms(1), of "seqn r"] S by auto
  then obtain n where n: "r \<le> n" "holds_packet W n ?p" using assms(1) i by (auto simp: receiver_inv_def)
  have "n < length W" "seqn r = seqn n" using n(2) p(1) by (simp_all add: holds_packet_def)
  then have "n = r" using seqn_inj[OF n(1)] assms(3) by (simp add: seq_consts)
  then have h: "holds_packet W r ?p" using n by simp
  let ?L = "L\<lparr>paArrayRecv := (paArrayRecv L)[?i := ?p\<lparr>len_p := 0\<rparr>], SeqRead := (SeqRead L + 1) mod MAX_PACKET_SEQ,
    semRecvListMutex := semRecvListMutex L + 1\<rparr>"
  have "exRecv_try now L = Some (Returns (int (length (W ! r)), W ! r), ?L, [])"
    using assms(2,5) S receiver_slot(1)[OF assms(1), of "seqn r"] h
    by (simp add: exRecv_try_def holds_packet_def Let_def)
  moreover have "receiver_inv W (Suc r) ?L"
  proof -
    have "\<exists>n. Suc r \<le> n \<and> seqn n mod MAX_PACKET_NUMBER = j \<and> holds_packet W n (paArrayRecv L ! j)"
      if j: "j < MAX_PACKET_NUMBER" "j \<noteq> ?i" "len_p (paArrayRecv L ! j) \<noteq> 0" for j
    proof -
      obtain n where "r \<le> n" "seqn n mod MAX_PACKET_NUMBER = j" "holds_packet W n (paArrayRecv L ! j)"
        using assms(1) j by (auto simp: receiver_inv_def)
      moreover then have "n \<noteq> r" using j(2) by auto
      ultimately show ?thesis by (intro exI[of _ n]) simp
    qed
    then show ?thesis using assms(1) by (auto simp: receiver_inv_def S seqn_Suc nth_list_update)
  qed
  ultimately show ?thesis using h by (auto simp: holds_packet_def)
qed

subsection \<open>Asking for missing packets\<close>

definition ushorts :: "byte list \<Rightarrow> nat \<Rightarrow> nat list" where
  "ushorts b n = map (\<lambda>j. unat (b ! (2 * j)) + 256 * unat (b ! (2 * j + 1))) [0..<n]"

lemma get_ushorts:
  "j < n \<Longrightarrow> 2 * n \<le> length b \<Longrightarrow> get_ushort b (2 * j) = Some (ushorts b n ! j)"
  by (simp add: get_ushort_def ushorts_def)

lemma put_ushorts:
  assumes "put_ushort b (2 * n) v = Some b'" "v < 65536"
  shows "length b' = length b \<and> ushorts b' (Suc n) = ushorts b n @ [v]"
proof -
  have b': "b' = b[2 * n := of_nat (v mod 256), 2 * n + 1 := of_nat (v div 256)]" "2 * n + 1 < length b"
    using assms(1) by (auto simp: put_ushort_def split: if_splits)
  have "v div 256 < 256" using assms(2) by (simp add: less_mult_imp_div_less)
  then have "unat (of_nat (v mod 256) :: byte) = v mod 256" "unat (of_nat (v div 256) :: byte) = v div 256"
    by (simp_all add: unat_of_nat)
  then have "unat (b' ! (2 * n)) + 256 * unat (b' ! (2 * n + 1)) = v" using b' by simp
  moreover have "ushorts b' n = ushorts b n" by (auto simp: ushorts_def b')
  ultimately show ?thesis by (simp add: ushorts_def b')
qed

text \<open>The sequence numbers from \<open>q\<close> on that a link has no packet for, among the next \<open>k\<close>.\<close>

definition missing_from :: "s_link \<Rightarrow> nat \<Rightarrow> nat \<Rightarrow> nat list" where
  "missing_from L q k = filter (\<lambda>x. lacking L x = Some True) (map (\<lambda>i. (q + i) mod MAX_PACKET_SEQ) [0..<k])"

lemma missing_from_Suc:
  "missing_from L q (Suc k) = (if lacking L (q mod MAX_PACKET_SEQ) = Some True then [q mod MAX_PACKET_SEQ] else []) @
     missing_from L ((q + 1) mod MAX_PACKET_SEQ) k"
proof -
  have "map (\<lambda>i. (q + i) mod MAX_PACKET_SEQ) [0..<Suc k] =
      q mod MAX_PACKET_SEQ # map (\<lambda>i. ((q + 1) mod MAX_PACKET_SEQ + i) mod MAX_PACKET_SEQ) [0..<k]"
    by (rule nth_equalityI) (auto simp: nth_Cons' mod_simps simp del: upt_Suc)
  then show ?thesis by (simp add: missing_from_def del: upt_Suc)
qed

lemma missing_from_length: "length (missing_from L q k) \<le> k"
  unfolding missing_from_def by (metis length_filter_le length_map length_upt minus_nat.diff_0)

lemma lack_loop_spec:
  assumes "receiver_inv W r L" "length (buf pa) = MAX_PACKET_DATA_SIZE" "n + Suc k \<le> 510" "q < MAX_PACKET_SEQ"
    "SeqReadMax L = (q + Suc k) mod MAX_PACKET_SEQ"
  shows "\<exists>pa' m. lack_loop L q pa n (2 * n) out = Some (pa', m, out) \<and> head pa' = head pa \<and>
    length (buf pa') = MAX_PACKET_DATA_SIZE \<and> m = n + length (missing_from L q (Suc k)) \<and>
    ushorts (buf pa') m = ushorts (buf pa) n @ missing_from L q (Suc k)"
  using assms(2-)
proof (induction k arbitrary: q pa n)
  case (0 q pa n)
  note slot = receiver_slot(2)[OF assms(1), of q]
  show ?case
  proof (cases "lacking L q = Some True")
    case True
    then obtain b where b: "put_ushort (buf pa) (2 * n) q = Some b" "length b = MAX_PACKET_DATA_SIZE"
      "ushorts b (Suc n) = ushorts (buf pa) n @ [q]"
      using put_ushorts[of "buf pa" n q] 0 by (auto simp: put_ushort_def size_consts seq_consts)
    have "\<not> Suc n * 2 mod 1464 = 0" using 0(2) by simp
    then show ?thesis using True 0 b
      by (subst lack_loop.simps) (simp add: missing_from_Suc missing_from_def size_consts)
  next
    case False
    then have "lacking L q = Some False" using slot by auto
    then show ?thesis using 0 by (subst lack_loop.simps) (simp add: missing_from_Suc missing_from_def)
  qed
next
  case (Suc k q pa n)
  let ?q = "(q + 1) mod MAX_PACKET_SEQ"
  have q: "SeqReadMax L = (?q + Suc k) mod MAX_PACKET_SEQ" using Suc.prems(4) by (simp add: mod_simps mod_add_left_eq[of "Suc q" MAX_PACKET_SEQ "Suc k", simplified])
  have ne: "?q \<noteq> SeqReadMax L"
    using mod_moves[of "Suc k" 2044 "q + 1"] Suc.prems(2,4) by (simp add: seq_consts)
  note slot = receiver_slot(2)[OF assms(1), of q]
  show ?case
  proof (cases "lacking L q = Some True")
    case True
    then obtain b where b: "put_ushort (buf pa) (2 * n) q = Some b" "length b = MAX_PACKET_DATA_SIZE"
      "ushorts b (Suc n) = ushorts (buf pa) n @ [q]"
      using put_ushorts[of "buf pa" n q] Suc.prems by (auto simp: put_ushort_def size_consts seq_consts)
    have "\<not> Suc n * 2 mod 1464 = 0" using Suc.prems(2) by simp
    moreover obtain pa' m where "lack_loop L ?q (pa\<lparr>buf := b\<rparr>) (Suc n) (2 * Suc n) out = Some (pa', m, out)" "head pa' = head pa"
      "length (buf pa') = MAX_PACKET_DATA_SIZE" "m = Suc n + length (missing_from L ?q (Suc k))"
      "ushorts (buf pa') m = ushorts b (Suc n) @ missing_from L ?q (Suc k)"
      using Suc.IH[of "pa\<lparr>buf := b\<rparr>" "Suc n" ?q] b(2) q Suc.prems(2) by auto
    ultimately show ?thesis using True ne b Suc.prems(3)
      by (subst lack_loop.simps) (simp add: missing_from_Suc[of L q] size_consts)
  next
    case False
    then have "lacking L q = Some False" using slot by auto
    moreover obtain pa' m where "lack_loop L ?q pa n (2 * n) out = Some (pa', m, out)" "head pa' = head pa"
      "length (buf pa') = MAX_PACKET_DATA_SIZE" "m = n + length (missing_from L ?q (Suc k))"
      "ushorts (buf pa') m = ushorts (buf pa) n @ missing_from L ?q (Suc k)"
      using Suc.IH[of pa n ?q] q Suc.prems(1,2) by auto
    ultimately show ?thesis using ne Suc.prems(3)
      by (subst lack_loop.simps) (simp add: missing_from_Suc[of L q])
  qed
qed

lemma cmp_seq_distance:
  assumes "CMP_SEQ x y" "x < MAX_PACKET_SEQ" "y < MAX_PACKET_SEQ"
  obtains k where "Suc k \<le> 510" "x = (y + Suc k) mod MAX_PACKET_SEQ"
proof (cases "y < x")
  case True
  then show thesis using assms that[of "x - y - 1"] by (auto simp: CMP_SEQ_def seq_consts)
next
  case False
  then have "x + 2044 - y \<le> 510" "0 < x + 2044 - y" "(y + (x + 2044 - y)) mod 2044 = x"
    using assms by (auto simp: CMP_SEQ_def seq_consts)
  then show thesis using that[of "x + 2044 - y - 1"] by (simp add: seq_consts)
qed

lemma missing_from_time [simp]: "missing_from (L\<lparr>timeoutReportLack := t\<rparr>) q k = missing_from L q k"
  by (simp add: missing_from_def lacking_def)

lemma ushorts_take: "2 * n \<le> k \<Longrightarrow> k \<le> length b \<Longrightarrow> ushorts (take k b) n = ushorts b n"
  by (auto simp: ushorts_def)

lemma SeqLack_spec:
  assumes "receiver_inv W r L" "SeqReadMax L = (SeqRead L + Suc k) mod MAX_PACKET_SEQ" "Suc k \<le> 510"
    "\<not> GET_MS_DIFF now (timeoutReportLack L) < tv_usec (timeoutCheckLack L) sdiv 1000" "CMP_SEQ (SeqReadMax L) (SeqRead L)"
  shows "\<exists>ds. SeqLack now L = Some (EX_UDP_OK, L\<lparr>timeoutReportLack := now\<rparr>, ds) \<and>
    (let ms = missing_from L (SeqRead L) (Suc k) in if ms = [] then ds = []
     else \<exists>hd b. ds = [(hd, b)] \<and> type_h hd = SEQ_LACK \<and> seq_h hd = 0 \<and> length b = 2 * length ms \<and> ushorts b (length ms) = ms)"
proof -
  let ?L = "L\<lparr>timeoutReportLack := now\<rparr>" and ?pa = "zero_packet\<lparr>head := (head zero_packet)\<lparr>type_h := SEQ_LACK\<rparr>\<rparr>"
  let ?ms = "missing_from L (SeqRead L) (Suc k)"
  have L: "receiver_inv W r ?L" using assms(1) by (simp add: receiver_inv_sems)
  have q: "SeqRead L < MAX_PACKET_SEQ" using assms(1) by (simp add: receiver_inv_def)
  obtain pa where pa: "lack_loop ?L (SeqRead L) ?pa 0 0 [] = Some (pa, length ?ms, [])" "head pa = head ?pa"
    "length (buf pa) = MAX_PACKET_DATA_SIZE" "ushorts (buf pa) (length ?ms) = ?ms"
    using lack_loop_spec[OF L, of ?pa 0 k "SeqRead L" "[]"] assms(2,3) q by (auto simp: zero_packet_def ushorts_def)
  have m: "length ?ms \<le> 510" using missing_from_length[of L "SeqRead L" "Suc k"] assms(3) by simp
  then have md: "length ?ms * 2 mod MAX_PACKET_DATA_SIZE = 2 * length ?ms" by (simp add: size_consts)
  show ?thesis
  proof (cases "?ms = []")
    case True
    then show ?thesis using assms(4,5) pa(1) by (simp add: SeqLack_def)
  next
    case False
    let ?p = "pa\<lparr>len_p := LEN_PACKET_HEAD + 2 * length ?ms\<rparr>"
    have "SendMsg True ?L ?p (len_p ?p) = Some (int (len_p ?p), stamp_packet ?L ?p, [(head (stamp_packet ?L ?p), take (2 * length ?ms) (buf ?p))])"
      using SendMsg_ok[of ?p "2 * length ?ms" ?L] m pa(3) by (simp add: size_consts)
    then have "SeqLack now L = Some (EX_UDP_OK, ?L, [(head (stamp_packet ?L ?p), take (2 * length ?ms) (buf pa))])"
      using False assms(4,5) pa(1) md by (simp add: SeqLack_def Let_def)
    then show ?thesis using False pa m ushorts_take[of "length ?ms" "2 * length ?ms" "buf pa"] by (simp add: size_consts zero_packet_def)
  qed
qed

lemma SeqLack_inv:
  assumes "receiver_inv W r L"
  shows "\<exists>v L' ds. SeqLack now L = Some (v, L', ds) \<and> receiver_inv W r L' \<and> (L' = L \<or> L' = L\<lparr>timeoutReportLack := now\<rparr>) \<and>
    (\<forall>d \<in> set ds. type_h (fst d) = SEQ_LACK \<and> length (snd d) \<le> MAX_PACKET_DATA_SIZE)"
proof (cases "GET_MS_DIFF now (timeoutReportLack L) < tv_usec (timeoutCheckLack L) sdiv 1000 \<or> \<not> CMP_SEQ (SeqReadMax L) (SeqRead L)")
  case True
  then show ?thesis using assms by (auto simp: SeqLack_def)
next
  case False
  moreover have "SeqReadMax L < MAX_PACKET_SEQ" "SeqRead L < MAX_PACKET_SEQ" using assms by (simp_all add: receiver_inv_def)
  ultimately obtain k where k: "Suc k \<le> 510" "SeqReadMax L = (SeqRead L + Suc k) mod MAX_PACKET_SEQ"
    using cmp_seq_distance by metis
  have "length (missing_from L (SeqRead L) (Suc k)) \<le> 510" using missing_from_length[of L "SeqRead L" "Suc k"] k(1) by simp
  then show ?thesis using SeqLack_spec[OF assms k(2,1), of now] False assms
    by (auto simp: Let_def receiver_inv_sems size_consts split: if_splits)
qed

lemma last_read: "last_seq (seqn r) = r mod MAX_PACKET_SEQ"
  by (auto simp: last_seq_def seqn_def seq_consts mod_Suc)

definition reports :: "nat \<Rightarrow> dgram \<Rightarrow> bool" where
  "reports r d \<longleftrightarrow> length (snd d) \<le> MAX_PACKET_DATA_SIZE \<and>
     (type_h (fst d) \<in> {SEQ_REPORT, SEQ_LACK} \<or> type_h (fst d) = LINK_SYN_ACK \<and> state_h (fst d) = 2) \<and>
     (type_h (fst d) = SEQ_REPORT \<longrightarrow> seq_h (fst d) = r mod MAX_PACKET_SEQ)"

lemma SeqReport_inv:
  assumes "receiver_inv W r L"
  shows "\<exists>L' ds. SeqReport now L = Some (L', ds) \<and> receiver_inv W r L' \<and> (L' = L \<or> L' = L\<lparr>timeoutReportLack := now\<rparr>) \<and>
    (\<forall>d \<in> set ds. reports r d)"
proof -
  let ?pa = "zero_packet\<lparr>head := (head zero_packet)\<lparr>type_h := SEQ_REPORT, seq_h := r mod MAX_PACKET_SEQ\<rparr>, len_p := LEN_PACKET_HEAD\<rparr>"
  have L: "linkState L = 2" "SeqRead L = seqn r" using assms by (simp_all add: receiver_inv_def)
  obtain v L' ds where l: "SeqLack now L = Some (v, L', ds)" "receiver_inv W r L'" "L' = L \<or> L' = L\<lparr>timeoutReportLack := now\<rparr>"
    "\<forall>d \<in> set ds. type_h (fst d) = SEQ_LACK \<and> length (snd d) \<le> MAX_PACKET_DATA_SIZE" using SeqLack_inv[OF assms] by blast
  have "SendMsg True L ?pa LEN_PACKET_HEAD = Some (int LEN_PACKET_HEAD, stamp_packet L ?pa, [(head (stamp_packet L ?pa), [])])"
    using SendMsg_ok[of ?pa 0 L] by simp
  then have "SeqReport now L = Some (L', (head (stamp_packet L ?pa), []) # ds)"
    using l(1) unfolding SeqReport_def L last_read by (simp add: L Let_def)
  then show ?thesis using l by (auto simp: reports_def SEQ_LACK_def SEQ_REPORT_def LINK_SYN_ACK_def)
qed

lemma SeqCheckAck_inv:
  assumes "receiver_inv W r L" "msgid_s sts = -1" "seq_h (head pa) < MAX_PACKET_SEQ"
    "len_p pa = LEN_PACKET_HEAD + k" "k \<le> length (buf pa)" "k \<le> MAX_PACKET_DATA_SIZE"
  shows "\<exists>v L' ds. SeqCheckAck C sts L pa = Some (v, sts, L', ds) \<and> receiver_inv W r L' \<and> (\<forall>d \<in> set ds. reports r d)"
proof -
  let ?L = "L\<lparr>SeqReadMax := seq_h (head pa)\<rparr>"
  let ?p = "pa\<lparr>head := (head pa)\<lparr>type_h := SEQ_REPORT, seq_h := r mod MAX_PACKET_SEQ\<rparr>\<rparr>"
  have L: "linkState L = 2" "SeqRead L = seqn r" using assms(1) by (simp_all add: receiver_inv_def)
  have inv: "receiver_inv W r (?L\<lparr>semRecvList := x\<rparr>)" for x using assms(1,3) by (simp add: receiver_inv_def)
  have send: "SendMsg True ?L ?p (len_p pa) = Some (int (len_p pa), stamp_packet ?L ?p, [(head (stamp_packet ?L ?p), take k (buf pa))])"
    using SendMsg_ok[of ?p k ?L] assms(4,5) by simp
  have rep: "reports r (head (stamp_packet ?L ?p), take k (buf pa))" using assms(6) by (simp add: reports_def LINK_SYN_ACK_def SEQ_REPORT_def)
  show ?thesis
    using inv assms(1,2) send rep unfolding SeqCheckAck_def L last_read
    by (cases "seqn r = seq_h (head pa) \<or> CMP_SEQ_ORDER (seqCheck_h (head pa)) (seqn r) (seq_h (head pa))";
        cases "seqCheck_h (head pa) = seqn r") (auto simp: L Let_def last_read)
qed

lemma SeqReportAck_inv:
  assumes "sender_inv W c L" "seq_h (head pa) = k mod MAX_PACKET_SEQ" "c \<le> k + 1533" "k \<le> length W"
  shows "\<exists>v L'. SeqReportAck now L pa = (v, L') \<and> sender_inv W (max c k) L'"
proof -
  have L: "linkState L = 2" "SeqMaxSend L = Suc (length W) mod MAX_PACKET_SEQ" "SeqCheckSend L = c mod MAX_PACKET_SEQ"
    using assms(1) by (simp_all add: sender_inv_def seqn_def)
  have ord: "CMP_SEQ_ORDER (SeqCheckSend L) (seq_h (head pa)) (SeqMaxSend L) \<longleftrightarrow> c \<le> k"
    using cmp_order_pos[of c k "length W"] assms L by (simp add: sender_inv_def)
  show ?thesis
  proof (cases "c \<le> k")
    case True
    have "sender_inv W k (L\<lparr>SeqCheckSend := k mod MAX_PACKET_SEQ\<rparr>)"
      using assms(1,4) True by (auto simp: sender_inv_def)
    then show ?thesis using True ord L(1) assms(2) by (auto simp: SeqReportAck_def Let_def sender_inv_sems max_def)
  next
    case False
    then show ?thesis using ord L(1) assms(1) by (simp add: SeqReportAck_def max_def)
  qed
qed

subsection \<open>Repeating packets\<close>

lemma resend_one:
  assumes "sender_inv W c L" "c \<le> n" "n < length W"
  shows "\<exists>p p' hd v. slot (paArraySend L) (seqn n mod MAX_PACKET_NUMBER) = Some p \<and>
    SendMsg True L p (len_p p) = Some (v, p', [(hd, W ! n)]) \<and> type_h hd = USER_DATA \<and> seq_h hd = seqn n \<and>
    sender_inv W c (L\<lparr>paArraySend := (paArraySend L)[seqn n mod MAX_PACKET_NUMBER := p']\<rparr>)"
proof -
  let ?i = "seqn n mod MAX_PACKET_NUMBER" let ?p = "paArraySend L ! ?i"
  have i: "?i < length (paArraySend L)" using assms(1) by (simp add: sender_inv_def seq_consts)
  have h: "holds_packet W n ?p" "type_h (head ?p) = USER_DATA" "length (buf ?p) = MAX_PACKET_DATA_SIZE"
    using assms i by (auto simp: sender_inv_def)
  then have len: "length (W ! n) \<le> length (buf ?p)" by (metis holds_packet_def length_take min.cobounded1)
  have "holds_packet W m ((paArraySend L)[?i := stamp_packet L ?p] ! (seqn m mod MAX_PACKET_NUMBER)) \<and>
      type_h (head ((paArraySend L)[?i := stamp_packet L ?p] ! (seqn m mod MAX_PACKET_NUMBER))) = USER_DATA"
    if "c \<le> m" "m < length W" for m
    using assms(1) that i by (cases "seqn m mod MAX_PACKET_NUMBER = ?i") (auto simp: sender_inv_def)
  moreover have "length (buf q) = MAX_PACKET_DATA_SIZE" if "q \<in> set ((paArraySend L)[?i := stamp_packet L ?p])" for q
    using that assms(1) h(3) by (auto simp: sender_inv_def dest!: set_update_subset_insert[THEN subsetD])
  ultimately have "sender_inv W c (L\<lparr>paArraySend := (paArraySend L)[?i := stamp_packet L ?p]\<rparr>)"
    using assms(1) by (simp add: sender_inv_def)
  moreover have "SendMsg True L ?p (len_p ?p) = Some (int (len_p ?p), stamp_packet L ?p, [(head (stamp_packet L ?p), W ! n)])"
    using SendMsg_ok[of ?p "length (W ! n)" L] h(1) len by (simp add: holds_packet_def)
  ultimately show ?thesis using i h by (auto simp: slot_def holds_packet_def)
qed

lemma lack_ack_loop_inv:
  assumes "sender_inv W c L" "off + 2 * n \<le> length b"
  shows "\<exists>L' ds. lack_ack_loop L (Suc c mod MAX_PACKET_SEQ) b off n out = Some (L', out @ ds) \<and>
    sender_inv W c L' \<and> (\<forall>d \<in> set ds. sent_from W c d)"
  using assms
proof (induction n arbitrary: L off out)
  case 0
  then show ?case by simp
next
  case (Suc n)
  obtain q where q: "get_ushort b off = Some q" using Suc.prems(2) by (simp add: get_ushort_def)
  show ?case
  proof (cases "q < MAX_PACKET_SEQ \<and> CMP_SEQ_ORDER (Suc c mod MAX_PACKET_SEQ) q (SeqMaxSend L)")
    case True
    then obtain m where m: "c \<le> m" "m < length W" "q = seqn m"
      using cmp_order_position[of c q "length W"] Suc.prems(1) by (auto simp: sender_inv_def seqn_def)
    obtain p p' hd v where p: "slot (paArraySend L) (seqn m mod MAX_PACKET_NUMBER) = Some p"
      "SendMsg True L p (len_p p) = Some (v, p', [(hd, W ! m)])" "type_h hd = USER_DATA" "seq_h hd = seqn m"
      "sender_inv W c (L\<lparr>paArraySend := (paArraySend L)[seqn m mod MAX_PACKET_NUMBER := p']\<rparr>)"
      using resend_one[OF Suc.prems(1) m(1,2)] by blast
    have d: "sent_from W c (hd, W ! m)" using m p(3,4) by (auto simp: sent_from_def)
    show ?thesis using Suc.IH[OF p(5), of "off + 2" "out @ [(hd, W ! m)]"] Suc.prems(2) q True m(3) p(1,2) d by auto
  next
    case False
    then show ?thesis using q Suc.prems(1) by auto
  qed
qed

lemma SeqLackAck_inv:
  assumes "sender_inv W c L" "len_p pa = LEN_PACKET_HEAD + k" "k \<le> length (buf pa)"
  shows "\<exists>v L' ds. SeqLackAck L pa = Some (v, L', ds) \<and> sender_inv W c L' \<and> (\<forall>d \<in> set ds. sent_from W c d)"
proof -
  have chk: "(SeqCheckSend L + 1) mod MAX_PACKET_SEQ = Suc c mod MAX_PACKET_SEQ" and st: "linkState L = 2"
    using assms(1) by (simp_all add: sender_inv_def mod_simps)
  have "2 * (k div 2) \<le> length (buf pa)" using assms(3) by linarith
  then show ?thesis
    using lack_ack_loop_inv[of W c "L\<lparr>PrioritySendLack := 1\<rparr>" 0 "k div 2" "buf pa" "[]"] assms(1,2) st chk
    by (auto simp: SeqLackAck_def sender_inv_sems)
qed

lemma SeqCheck_inv:
  assumes "sender_inv W c L" "SeqCheck cf now sts L = Some (v, sts', L', ds)"
  shows "sender_inv W c L' \<and> (\<forall>d \<in> set ds. type_h (fst d) = SEQ_CHECK \<and> seq_h (fst d) = SeqMaxSend L \<and> length (snd d) = 16)"
proof -
  have "length (time_bytes now) = 16" by (simp add: time_bytes_def numeral_eq_Suc)
  then show ?thesis using assms
    by (auto simp: SeqCheck_def SendMsg_def Let_def sender_inv_sems size_consts zero_packet_def stamp_packet_def split: if_splits)
qed

lemma listen_link_inv:
  assumes "sender_inv W c L" "listen_link cf now now' sts L = Some (Listened (sts', L', ds))"
  shows "sender_inv W c L' \<and> (\<forall>d \<in> set ds. toB_inv W (length W, d))"
proof -
  have L: "linkState L = 2" "SeqMaxSend L < MAX_PACKET_SEQ" using assms(1) by (simp_all add: sender_inv_def)
  have chk: "sender_inv W c L1 \<and> (\<forall>d \<in> set es. toB_inv W (length W, d))"
    if "SeqCheck cf now' sts L0 = Some (v, s1, L1, es)" "sender_inv W c L0" "SeqMaxSend L0 = SeqMaxSend L" for L0 v s1 L1 es
    using SeqCheck_inv[OF that(2,1)] that(3) L(2)
    by (auto simp: toB_inv_def USER_DATA_def SEQ_CHECK_def LINK_SYN_def)
  let ?pa = "zero_packet\<lparr>head := (head zero_packet)\<lparr>type_h := LINK_SYN, checksum_h := EX_UDP_VER,
      seqCheck_h := (SeqCheckSend L + 1) mod MAX_PACKET_SEQ, seq_h := SeqMaxSend L\<rparr>\<rparr>"
  have syn: "SendMsg True L ?pa LEN_PACKET_HEAD = Some (int LEN_PACKET_HEAD, stamp_packet L ?pa, [(head (stamp_packet L ?pa), [])])"
    by (simp add: SendMsg_def Let_def)
  have "toB_inv W (length W, head (stamp_packet L ?pa), [])"
    using L(1) by (simp add: toB_inv_def stamp_packet_def USER_DATA_def SEQ_CHECK_def LINK_SYN_def)
  moreover have "\<exists>L0 v s1 es. SeqCheck cf now' sts L0 = Some (v, s1, L', es) \<and> sender_inv W c L0 \<and> SeqMaxSend L0 = SeqMaxSend L \<and>
      set ds \<subseteq> insert (head (stamp_packet L ?pa), []) (set es)"
    using assms(2) assms(1) L(1) syn unfolding listen_link_def Let_def
    by (simp add: sender_inv_sems split: if_splits) (force simp: sender_inv_sems)+
  ultimately show ?thesis using chk by blast
qed

section \<open>Datagrams that arrive\<close>

lemmas packet_types = LINK_SYN_def LINK_SYN_ACK_def LINK_ACK_def USER_DATA_def SEQ_CHECK_def SEQ_REPORT_def SEQ_LACK_def LINK_FIN_def

lemma recv_packet_types:
  fixes L :: s_link and t :: timeval
  assumes "linkState L = 2"
  defines "L0 \<equiv> L\<lparr>timeout_l := (timeout_l L)\<lparr>tv_sec := 0\<rparr>\<rparr>"
  shows "type_h (head pa) = USER_DATA \<Longrightarrow>
      recv_packet C cf now sts L pa = do { (r, sts, L) \<leftarrow> UserDataRecv C sts L0 pa; Some (sts, L, []) }"
    "type_h (head pa) = SEQ_CHECK \<Longrightarrow>
      recv_packet C cf now sts L pa = do { (r, sts, L, d) \<leftarrow> SeqCheckAck C sts L0 pa; Some (sts, L, d) }"
    "type_h (head pa) = SEQ_REPORT \<Longrightarrow>
      recv_packet C cf now sts L pa = (case SeqReportAck now L0 pa of (r, L) \<Rightarrow> Some (sts, L, []))"
    "type_h (head pa) = SEQ_LACK \<Longrightarrow>
      recv_packet C cf now sts L pa = do { (r, L, d) \<leftarrow> SeqLackAck L0 pa; Some (sts, L, d) }"
    "type_h (head pa) = LINK_SYN \<Longrightarrow> recv_packet C cf now sts L pa = do { (L, d) \<leftarrow> recv_syn L0 pa; Some (sts, L, d) }"
    "type_h (head pa) = LINK_SYN_ACK \<Longrightarrow> recv_packet C cf now sts L pa = recv_syn_ack cf sts L0 pa"
  using assms by (simp_all add: recv_packet_def recv_switch_def Let_def packet_types)

lemma recv_syn_alive:
  assumes "linkState L = 2" "state_h (head pa) = 2"
  shows "\<exists>hd. recv_syn L pa = Some (L, [(hd, [])]) \<and> type_h hd = LINK_SYN_ACK \<and> state_h hd = 2"
  using assms by (simp add: recv_syn_def SendMsg_def Let_def stamp_packet_def)

lemma recv_syn_ack_alive:
  assumes "linkState L = 2" "state_h (head pa) = 2"
  shows "\<exists>sts'. recv_syn_ack cf sts L pa = Some (sts', L\<lparr>semSendList := semSendList L + 1\<rparr>, [])"
  using assms by (simp add: recv_syn_ack_def Let_def)

lemma received_fields [simp]: "head (received d) = fst d" "len_p (received d) = LEN_PACKET_HEAD + length (snd d)"
  by (simp_all add: received_def)

lemma received_buf:
  assumes "length (snd d) \<le> MAX_PACKET_DATA_SIZE"
  shows "length (buf (received d)) = MAX_PACKET_DATA_SIZE" "take (length (snd d)) (buf (received d)) = snd d"
  using assms by (simp_all add: received_def zero_packet_def)

section \<open>Every step keeps the invariant\<close>

lemma net_data:
  assumes "\<forall>d \<in> set ds. sent_from W c d" "t \<le> length W" "length W \<le> c + 509" "x \<in> post t ds"
  shows "toB_inv W x"
  using assms by (fastforce simp: toB_inv_def sent_from_def USER_DATA_def SEQ_CHECK_def LINK_SYN_def)

lemma net_reports:
  assumes "\<forall>d \<in> set ds. reports r d" "c \<le> r" "length W \<le> c + 509" "x \<in> post (length W) ds"
  shows "toA_inv W r x"
  using assms by (auto 0 3 simp: toA_inv_def reports_def packet_types intro!: exI[of _ r])

lemma conn_invI:
  assumes "sender_inv W c (sndr s)" "c \<le> length (delivered s)" "receiver_inv W (length (delivered s)) (rcvr s)"
    "msgid_s (rsock s) = -1" "length (delivered s) \<le> length W" "delivered s = take (length (delivered s)) W"
    "\<forall>d \<in> set W. 1 \<le> length d \<and> length d \<le> MAX_PACKET_DATA_SIZE"
    "\<forall>x \<in> toB s. toB_inv W x" "\<forall>x \<in> toA s. toA_inv W (length (delivered s)) x" "W = written s"
  shows "conn_inv s"
  using assms unfolding conn_inv_def by blast

lemma conn_invE:
  assumes "conn_inv s"
  obtains c where "sender_inv (written s) c (sndr s)" "c \<le> length (delivered s)" "length (written s) \<le> c + 509"
    "receiver_inv (written s) (length (delivered s)) (rcvr s)"
    "msgid_s (rsock s) = -1" "length (delivered s) \<le> length (written s)" "delivered s = take (length (delivered s)) (written s)"
    "\<forall>d \<in> set (written s). 1 \<le> length d \<and> length d \<le> MAX_PACKET_DATA_SIZE"
    "\<forall>x \<in> toB s. toB_inv (written s) x" "\<forall>x \<in> toA s. toA_inv (written s) (length (delivered s)) x"
  using assms unfolding conn_inv_def sender_inv_def by blast

lemma step_recv:
  assumes "conn_inv s" "exRecv_try now (rcvr s) = Some (r, L, ds)"
  shows "conn_inv (s\<lparr>rcvr := L, toA := toA s \<union> post (length (written s)) ds,
      delivered := (case r of Returns (n, d) \<Rightarrow> if n > 0 then delivered s @ [d] else delivered s | Again \<Rightarrow> delivered s),
      rcall := x\<rparr>)"
    (is "conn_inv ?s")
proof -
  let ?r = "length (delivered s)"
  from assms(1) obtain c where inv: "sender_inv (written s) c (sndr s)" "c \<le> ?r" "length (written s) \<le> c + 509"
    "receiver_inv (written s) ?r (rcvr s)" "msgid_s (rsock s) = -1" "?r \<le> length (written s)" "delivered s = take ?r (written s)"
    "\<forall>d \<in> set (written s). 1 \<le> length d \<and> length d \<le> MAX_PACKET_DATA_SIZE"
    "\<forall>x \<in> toB s. toB_inv (written s) x" "\<forall>x \<in> toA s. toA_inv (written s) ?r x" by (rule conn_invE)
  show ?thesis
  proof (cases "lacking (rcvr s) (SeqRead (rcvr s)) = Some False")
    case True
    let ?i = "seqn ?r mod MAX_PACKET_NUMBER"
    have "?r < length (written s)" using receiver_read_pos[OF inv(4) True] .
    then have len: "1 \<le> length (written s ! ?r)" "length (written s ! ?r) \<le> MAX_PACKET_DATA_SIZE" using inv(8) by simp_all
    then have "r = Returns (int (length (written s ! ?r)), written s ! ?r)" "ds = []" "receiver_inv (written s) (Suc ?r) L"
      using exRecv_reads[OF inv(4) True _ len, of now] inv(2,3) assms(2) by auto
    moreover have "delivered s @ [written s ! ?r] = take (Suc ?r) (written s)"
      using inv(7) \<open>?r < length (written s)\<close> by (metis take_Suc_conv_app_nth)
    moreover have "written s ! ?r \<noteq> []" using len(1) by auto
    ultimately show ?thesis using inv \<open>?r < length (written s)\<close>
      by (intro conn_invI[of "written s" c ?s]) (auto intro: toA_inv_mono)
  next
    case False
    then have m: "lacking (rcvr s) (SeqRead (rcvr s)) = Some True" using receiver_slot(2)[OF inv(4)] by auto
    obtain L1 es where L1: "SeqReport now (rcvr s) = Some (L1, es)" "receiver_inv (written s) ?r L1" "\<forall>d \<in> set es. reports ?r d"
      using SeqReport_inv[OF inv(4), of now] by blast
    then have "receiver_inv (written s) ?r L" "\<And>n d. r = Returns (n, d) \<Longrightarrow> \<not> n > 0" "es = ds"
      using assms(2) m by (auto simp: exRecv_try_def receiver_inv_sems Let_def split: if_splits)
    then show ?thesis using inv net_reports[OF L1(3) inv(2,3)]
      by (intro conn_invI[of "written s" c ?s]) (auto split: round.splits prod.splits)
  qed
qed

lemma arrives_toB:
  assumes "conn_inv s" "arrives s (toB s) d"
  shows "type_h (fst d) \<in> {USER_DATA, SEQ_CHECK, LINK_SYN}"
    "type_h (fst d) = USER_DATA \<Longrightarrow> \<exists>n. holds_packet (written s) n (received d) \<and>
      length (delivered s) \<le> n + 1533 \<and> n \<le> length (delivered s) + 509"
    "type_h (fst d) = SEQ_CHECK \<Longrightarrow> seq_h (fst d) < MAX_PACKET_SEQ \<and> length (snd d) = 16"
    "type_h (fst d) = LINK_SYN \<Longrightarrow> state_h (fst d) = 2"
proof -
  from assms(1) obtain c where inv: "c \<le> length (delivered s)" "length (written s) \<le> c + 509" "length (delivered s) \<le> length (written s)"
    "\<forall>d \<in> set (written s). 1 \<le> length d \<and> length d \<le> MAX_PACKET_DATA_SIZE" "\<forall>x \<in> toB s. toB_inv (written s) x"
    by (rule conn_invE)
  obtain t where t: "(t, d) \<in> toB s" "length (written s) \<le> t + LIFETIME" using assms(2) by (auto simp: arrives_def)
  then have net: "toB_inv (written s) (t, d)" using inv(5) by blast
  show "\<exists>n. holds_packet (written s) n (received d) \<and> length (delivered s) \<le> n + 1533 \<and> n \<le> length (delivered s) + 509"
    if u: "type_h (fst d) = USER_DATA"
  proof -
    obtain n where n: "n < length (written s)" "seq_h (fst d) = seqn n" "snd d = written s ! n" "t \<le> n + 510"
      using net u by (auto simp: toB_inv_def)
    have "length (snd d) \<le> MAX_PACKET_DATA_SIZE" using n inv(4) by simp
    then have "holds_packet (written s) n (received d)"
      using n received_buf(2)[of d] by (simp add: holds_packet_def)
    then show ?thesis using n t(2) inv by (intro exI[of _ n]) (auto simp: LIFETIME_def)
  qed
qed (use assms in \<open>auto simp: conn_inv_def arrives_def toB_inv_def\<close>)

lemma arrives_toA:
  assumes "conn_inv s" "arrives s (toA s) d"
  shows "type_h (fst d) \<in> {SEQ_REPORT, SEQ_LACK, LINK_SYN_ACK}" "length (snd d) \<le> MAX_PACKET_DATA_SIZE"
    "type_h (fst d) = SEQ_REPORT \<Longrightarrow>
      \<exists>k \<le> length (delivered s). seq_h (fst d) = k mod MAX_PACKET_SEQ \<and> length (written s) \<le> k + 1533"
    "type_h (fst d) = LINK_SYN_ACK \<Longrightarrow> state_h (fst d) = 2"
proof -
  have "\<forall>x \<in> toA s. toA_inv (written s) (length (delivered s)) x" using assms(1) by (rule conn_invE)
  moreover obtain t where t: "(t, d) \<in> toA s" "length (written s) \<le> t + LIFETIME" using assms(2) by (auto simp: arrives_def)
  ultimately have net: "toA_inv (written s) (length (delivered s)) (t, d)" by blast
  show "\<exists>k \<le> length (delivered s). seq_h (fst d) = k mod MAX_PACKET_SEQ \<and> length (written s) \<le> k + 1533"
    if "type_h (fst d) = SEQ_REPORT"
    using net that t(2) by (fastforce simp: toA_inv_def LIFETIME_def)
qed (use assms in \<open>auto simp: conn_inv_def arrives_def toA_inv_def\<close>)

lemma arrive_B_inv:
  assumes "conn_inv s" "arrives s (toB s) d"
  shows "\<exists>L ds. recv_packet C cf now (rsock s) (rcvr s) (received d) = Some (rsock s, L, ds) \<and>
    receiver_inv (written s) (length (delivered s)) L \<and> (\<forall>x \<in> set ds. reports (length (delivered s)) x)"
proof -
  let ?L = "(rcvr s)\<lparr>timeout_l := (timeout_l (rcvr s))\<lparr>tv_sec := 0\<rparr>\<rparr>" and ?W = "written s" and ?r = "length (delivered s)"
  have "receiver_inv ?W ?r (rcvr s)" and m: "msgid_s (rsock s) = -1" using assms(1) by (simp_all add: conn_inv_def)
  then have R: "receiver_inv ?W ?r ?L" and st: "linkState (rcvr s) = 2" by (simp_all add: receiver_inv_sems) (simp add: receiver_inv_def)
  note types = recv_packet_types[OF st, of "received d" C cf now "rsock s"]
  consider "type_h (fst d) = USER_DATA" | "type_h (fst d) = SEQ_CHECK" | "type_h (fst d) = LINK_SYN"
    using arrives_toB(1)[OF assms] by blast
  then show ?thesis
  proof cases
    case 1
    then obtain n where "holds_packet ?W n (received d)" "?r \<le> n + 1533" "n \<le> ?r + 509" using arrives_toB(2)[OF assms] by blast
    from UserDataRecv_inv[OF R this m, of C] show ?thesis using types(1) 1 by auto
  next
    case 2
    then have d: "seq_h (fst d) < MAX_PACKET_SEQ" "length (snd d) = 16" using arrives_toB(3)[OF assms] by auto
    have "\<exists>v L' ds. SeqCheckAck C (rsock s) ?L (received d) = Some (v, rsock s, L', ds) \<and>
        receiver_inv ?W ?r L' \<and> (\<forall>d \<in> set ds. reports ?r d)"
      by (rule SeqCheckAck_inv[OF R m, of _ 16]) (use d received_buf(1)[of d] in \<open>auto simp: size_consts\<close>)
    then show ?thesis using types(2) 2 by auto
  next
    case 3
    obtain hd where "recv_syn ?L (received d) = Some (?L, [(hd, [])])" "type_h hd = LINK_SYN_ACK" "state_h hd = 2"
      using recv_syn_alive[of ?L "received d"] st arrives_toB(4)[OF assms 3] by auto
    then show ?thesis using types(5) 3 R by (auto simp: reports_def packet_types)
  qed
qed

lemma arrive_A_inv:
  assumes "conn_inv s" "arrives s (toA s) d" "sender_inv (written s) c (sndr s)" "c \<le> length (delivered s)"
  shows "\<exists>sts L ds c'. recv_packet C cf now (ssock s) (sndr s) (received d) = Some (sts, L, ds) \<and>
    sender_inv (written s) c' L \<and> c' \<le> length (delivered s) \<and> (\<forall>x \<in> set ds. sent_from (written s) c x)"
proof -
  let ?L = "(sndr s)\<lparr>timeout_l := (timeout_l (sndr s))\<lparr>tv_sec := 0\<rparr>\<rparr>" and ?W = "written s" and ?r = "length (delivered s)"
  have S: "sender_inv ?W c ?L" and st: "linkState (sndr s) = 2" and c: "c \<le> length ?W"
    using assms(3) by (simp_all add: sender_inv_sems) (simp_all add: sender_inv_def)
  note types = recv_packet_types[OF st, of "received d" C cf now "ssock s"]
  have len: "length (snd d) \<le> MAX_PACKET_DATA_SIZE" by (rule arrives_toA(2)[OF assms(1,2)])
  consider "type_h (fst d) = SEQ_REPORT" | "type_h (fst d) = SEQ_LACK" | "type_h (fst d) = LINK_SYN_ACK"
    using arrives_toA(1)[OF assms(1,2)] by blast
  then show ?thesis
  proof cases
    case 1
    then obtain k where k: "k \<le> ?r" "seq_h (fst d) = k mod MAX_PACKET_SEQ" "length ?W \<le> k + 1533"
      using arrives_toA(3)[OF assms(1,2)] by blast
    have "?r \<le> length ?W" using assms(1) by (simp add: conn_inv_def)
    then obtain v L' where "SeqReportAck now ?L (received d) = (v, L')" "sender_inv ?W (max c k) L'"
      using SeqReportAck_inv[OF S, of "received d" k now] k c by auto
    then show ?thesis using types(3) 1 k(1) assms(4) by (intro exI[of _ "ssock s"] exI[of _ L'] exI[of _ "[]"] exI[of _ "max c k"]) simp
  next
    case 2
    have "\<exists>v L' ds. SeqLackAck ?L (received d) = Some (v, L', ds) \<and> sender_inv ?W c L' \<and> (\<forall>d \<in> set ds. sent_from ?W c d)"
      by (rule SeqLackAck_inv[OF S, of _ "length (snd d)"]) (use received_buf(1)[OF len] len in auto)
    then obtain v L' ds where "SeqLackAck ?L (received d) = Some (v, L', ds)" "sender_inv ?W c L'" "\<forall>d \<in> set ds. sent_from ?W c d"
      by blast
    then show ?thesis using types(4) 2 assms(4) by (intro exI[of _ "ssock s"] exI[of _ L'] exI[of _ ds] exI[of _ c]) simp
  next
    case 3
    obtain sts where "recv_syn_ack cf (ssock s) ?L (received d) = Some (sts, ?L\<lparr>semSendList := semSendList ?L + 1\<rparr>, [])"
      using recv_syn_ack_alive[of ?L "received d" cf "ssock s"] st arrives_toA(4)[OF assms(1,2) 3] by auto
    then show ?thesis using types(6) 3 S assms(4)
      by (intro exI[of _ sts] exI[of _ "?L\<lparr>semSendList := semSendList ?L + 1\<rparr>"] exI[of _ "[]"] exI[of _ c]) (simp add: sender_inv_sems)
  qed
qed

lemma conn_step_inv:
  assumes "conn_inv s" "conn_step C cf s s'"
  shows "conn_inv s'"
proof -
  let ?W = "written s" and ?r = "length (delivered s)"
  from assms(1) obtain c where inv: "sender_inv ?W c (sndr s)" "c \<le> ?r" "length ?W \<le> c + 509"
    "receiver_inv ?W ?r (rcvr s)" "msgid_s (rsock s) = -1" "?r \<le> length ?W" "delivered s = take ?r ?W"
    "\<forall>d \<in> set ?W. 1 \<le> length d \<and> length d \<le> MAX_PACKET_DATA_SIZE"
    "\<forall>x \<in> toB s. toB_inv ?W x" "\<forall>x \<in> toA s. toA_inv ?W ?r x" by (rule conn_invE)
  from assms(2) show ?thesis
  proof cases
    case (send_enter L)
    then show ?thesis using inv
      by (intro conn_invI[of ?W c]) (auto simp: exSend_enter_def sender_inv_sems split: if_splits)
  next
    case (send_try data now ok r sts L ds)
    note round = exSend_try_inv[OF inv(1) send_try(3,4,5)]
    show ?thesis
    proof (cases "r = Returns (int (length data))")
      case True
      then have L: "sender_inv (?W @ [data]) c L" "\<forall>d \<in> set ds. sent_from (?W @ [data]) c d" using round by auto
      have "length (?W @ [data]) \<le> c + 509" using L(1) by (simp add: sender_inv_def)
      note net = net_data[OF L(2) _ this, of "length ?W"]
      show ?thesis unfolding send_try(1) using True inv L net send_try(3,4)
        by (intro conn_invI[of "?W @ [data]" c]) (auto intro: inv_append)
    next
      case False
      then show ?thesis unfolding send_try(1) using round inv by (intro conn_invI[of ?W c]) auto
    qed
  next
    case (send_wake w r L)
    then show ?thesis using inv
      by (intro conn_invI[of ?W c]) (auto simp: exSend_wake_def sender_inv_sems Let_def)
  next
    case (recv_enter L)
    then show ?thesis using inv
      by (intro conn_invI[of ?W c]) (auto simp: exRecv_enter_def receiver_inv_sems split: if_splits)
  next
    case (recv_try now r L ds)
    show ?thesis unfolding recv_try(1) by (rule step_recv[OF assms(1) recv_try(3)])
  next
    case (recv_wake w r L)
    then show ?thesis using inv
      by (intro conn_invI[of ?W c]) (auto simp: exRecv_wake_def receiver_inv_sems Let_def)
  next
    case (listen now now' tm sts L ds)
    then show ?thesis using inv listen_link_inv[OF inv(1) listen(2)] by (intro conn_invI[of ?W c]) auto
  next
    case (arrive_B d now sts L ds)
    then have L: "receiver_inv ?W ?r L" "\<forall>d \<in> set ds. reports ?r d" "sts = rsock s"
      using arrive_B_inv[OF assms(1) arrive_B(2), of C cf now] by auto
    show ?thesis unfolding arrive_B(1) using inv L net_reports[OF L(2) inv(2,3)] by (intro conn_invI[of ?W c]) auto
  next
    case (arrive_A d now sts L ds)
    then obtain c' where L: "sender_inv ?W c' L" "c' \<le> ?r" "\<forall>d \<in> set ds. sent_from ?W c d"
      using arrive_A_inv[OF assms(1) arrive_A(2) inv(1,2), of C cf now] by auto
    show ?thesis unfolding arrive_A(1) using inv L net_data[OF L(3) order_refl inv(3)] by (intro conn_invI[of ?W c']) auto
  qed
qed

end
