(* ===== verification/Udp_Live.thy ===== *)
theory Udp_Live
  imports Udp_Reliable
begin

text \<open>
  The promises of the datagram module, on the connection of theory Udp-Reliable: the handshake
  leads to its start, what is read is what was written, a packet that is missing is asked for
  and repeated, and from every state the connection can go on until the reader has everything.
\<close>

section \<open>Opening a connection\<close>

text \<open>
  The three datagrams of the handshake. The side that accepts makes its link when the request of
  \<open>exConnect\<close> arrives, the side that connects makes its own when the answer arrives.
\<close>

definition only :: "'a list \<Rightarrow> 'a option" where
  "only xs = (case xs of [x] \<Rightarrow> Some x | _ \<Rightarrow> None)"

definition handshake ::
  "'h clist_ops \<Rightarrow> udp_conf \<Rightarrow> timeval \<Rightarrow> u32 \<Rightarrow> nat \<Rightarrow> u32 \<Rightarrow> nat \<Rightarrow> nat \<Rightarrow> nat \<Rightarrow> 'h st_sock \<Rightarrow> 'h st_sock \<Rightarrow>
   ('h st_sock \<times> s_link \<times> 'h st_sock \<times> s_link) option" where
  "handshake C cf now ipA portA ipB portB ia ib sA sB = do {
     LB \<leftarrow> init_link now sB ib (CREATE_LINK ipA portA sB);
     (sB, LB, ds) \<leftarrow> recv_packet C cf now sB LB (received (head syn_packet, []));
     d \<leftarrow> only ds;
     LA \<leftarrow> init_link now sA ia (CREATE_LINK ipB portB sA);
     (sA, LA, ds) \<leftarrow> recv_packet C cf now sA LA (received d);
     d \<leftarrow> only ds;
     (sB, LB, ds) \<leftarrow> recv_packet C cf now sB LB (received d);
     Some (sA, LA, sB, LB) }"

definition conn_start :: "'h st_sock \<times> s_link \<times> 'h st_sock \<times> s_link \<Rightarrow> 'h conn" where
  "conn_start h = (case h of (sA, LA, sB, LB) \<Rightarrow>
     \<lparr>sndr = LA, rcvr = LB, ssock = sA, rsock = sB, written = [], delivered = [], toB = {}, toA = {}, scall = Idle, rcall = Idle\<rparr>)"

definition start_array :: "s_packet_all list" where
  "start_array = (replicate MAX_PACKET_NUMBER zero_packet)[0 := zero_packet\<lparr>head := (head zero_packet)\<lparr>seq_h := 1\<rparr>\<rparr>]"

lemma first_seq_start:
  "first_seq (replicate MAX_PACKET_NUMBER zero_packet) = Some start_array" "first_seq start_array = Some start_array"
  by (simp_all add: first_seq_def slot_def start_array_def seq_consts)

lemma fresh_recv_start: "paArrayRecv L = start_array \<Longrightarrow> fresh_recv q L = Some (L\<lparr>SeqRead := q\<rparr>)"
  by (simp add: fresh_recv_def slot_def first_seq_start) (simp add: start_array_def seq_consts zero_packet_def)

definition at_start :: "int \<Rightarrow> s_link \<Rightarrow> bool" where
  "at_start st L \<longleftrightarrow> linkState L = st \<and> SeqRead L = 1 \<and> SeqReadMax L = 0 \<and> SeqMaxSend L = 1 \<and> SeqCheckSend L = 0 \<and>
     paArrayRecv L = start_array \<and> paArraySend L = start_array \<and> PrioritySendLack L = 0 \<and>
     tv_usec (timeoutCheckLack L) = CHECK_INTERVAL_INIT \<and> semRecvListMutex L = 1 \<and> semSendListMutex L = 1 \<and>
     tv_sec (timeout_l L) = 0"

definition link_key :: "s_link \<Rightarrow> nat \<times> u32 \<times> nat" where
  "link_key L = (id_l L, ip_l L, port_l L)"

lemma new_link_start:
  "\<exists>L. init_link now sts i (CREATE_LINK ip port sts) = Some L \<and> at_start 0 L \<and> link_key L = (i, ip, port)"
  by (simp add: init_link_def CREATE_LINK_def zero_link_def first_seq_start at_start_def link_key_def)

lemma at_start_time: "at_start st L \<Longrightarrow> L\<lparr>timeout_l := (timeout_l L)\<lparr>tv_sec := 0\<rparr>\<rparr> = L"
  by (cases L; cases "timeout_l L") (simp add: at_start_def)

lemma fresh_recv_at_start:
  assumes "at_start st L"
  shows "fresh_recv (Suc 0) L = Some L"
proof -
  have "L\<lparr>SeqRead := Suc 0\<rparr> = L" using assms by (cases L) (simp add: at_start_def)
  then show ?thesis using fresh_recv_start[of L "Suc 0"] assms by (simp add: at_start_def)
qed

lemma SendMsg_head:
  "SendMsg True L pa LEN_PACKET_HEAD = Some (int LEN_PACKET_HEAD, stamp_packet L pa, [(head (stamp_packet L pa), [])])"
  by (simp add: SendMsg_def Let_def)

lemma syn_arrives:
  assumes "at_start 0 L"
  shows "\<exists>L' ph. recv_packet C cf now sts L (received (head syn_packet, [])) = Some (sts, L', [(ph, [])]) \<and>
    at_start 1 L' \<and> link_key L' = link_key L \<and> type_h ph = LINK_SYN_ACK \<and> state_h ph = 1 \<and> seqCheck_h ph = 1"
  using assms at_start_time[OF assms] fresh_recv_at_start[OF assms]
  by (simp add: recv_packet_def recv_switch_def recv_syn_def syn_packet_def SendMsg_head packet_types Let_def)
    (simp add: at_start_def link_key_def stamp_packet_def seq_consts)

lemma syn_ack_arrives:
  assumes "at_start 0 L" "type_h ph = LINK_SYN_ACK" "state_h ph = 1" "seqCheck_h ph = 1"
  shows "\<exists>sts' L' ph'. recv_packet C cf now sts L (received (ph, [])) = Some (sts', L', [(ph', [])]) \<and>
    at_start 2 L' \<and> link_key L' = link_key L \<and> type_h ph' = LINK_ACK \<and> state_h ph' = 0 \<and> msgid_s sts' = msgid_s sts"
  using assms at_start_time[OF assms(1)] fresh_recv_at_start[OF assms(1)]
  by (simp add: recv_packet_def recv_switch_def recv_syn_ack_def SendMsg_head packet_types Let_def)
    (simp add: at_start_def link_key_def stamp_packet_def seq_consts)

lemma ack_arrives:
  assumes "at_start 1 L" "type_h ph = LINK_ACK" "state_h ph = 0"
  shows "\<exists>L'. recv_packet C cf now sts L (received (ph, [])) = Some (sts, L', []) \<and> at_start 2 L' \<and> link_key L' = link_key L"
  using assms at_start_time[OF assms(1)]
  by (simp add: recv_packet_def recv_switch_def packet_types Let_def) (simp add: at_start_def link_key_def)

lemma handshake_links:
  "\<exists>sA' LA LB. handshake C cf now ipA portA ipB portB ia ib sA sB = Some (sA', LA, sB, LB) \<and> at_start 2 LA \<and> at_start 2 LB \<and>
     link_key LA = (ia, ipB, portB) \<and> link_key LB = (ib, ipA, portA) \<and> msgid_s sA' = msgid_s sA"
proof -
  obtain LB0 where b0: "init_link now sB ib (CREATE_LINK ipA portA sB) = Some LB0" "at_start 0 LB0" "link_key LB0 = (ib, ipA, portA)"
    using new_link_start by blast
  obtain LB1 h1 where b1: "recv_packet C cf now sB LB0 (received (head syn_packet, [])) = Some (sB, LB1, [(h1, [])])"
    "at_start 1 LB1" "link_key LB1 = link_key LB0" "type_h h1 = LINK_SYN_ACK" "state_h h1 = 1" "seqCheck_h h1 = 1"
    using syn_arrives[OF b0(2)] by blast
  obtain LA0 where a0: "init_link now sA ia (CREATE_LINK ipB portB sA) = Some LA0" "at_start 0 LA0" "link_key LA0 = (ia, ipB, portB)"
    using new_link_start by blast
  obtain sA1 LA1 h2 where a1: "recv_packet C cf now sA LA0 (received (h1, [])) = Some (sA1, LA1, [(h2, [])])"
    "at_start 2 LA1" "link_key LA1 = link_key LA0" "type_h h2 = LINK_ACK" "state_h h2 = 0" "msgid_s sA1 = msgid_s sA"
    using syn_ack_arrives[OF a0(2) b1(4-6)] by blast
  obtain LB2 where b2: "recv_packet C cf now sB LB1 (received (h2, [])) = Some (sB, LB2, [])" "at_start 2 LB2" "link_key LB2 = link_key LB1"
    using ack_arrives[OF b1(2) a1(4,5)] by blast
  show ?thesis using b0 b1 a0 a1 b2 by (simp add: handshake_def only_def)
qed

lemma start_array_facts:
  "length start_array = MAX_PACKET_NUMBER" "i < MAX_PACKET_NUMBER \<Longrightarrow> len_p (start_array ! i) = 0"
  "p \<in> set start_array \<Longrightarrow> length (buf p) = MAX_PACKET_DATA_SIZE"
  by (auto simp: start_array_def seq_consts nth_list_update zero_packet_def dest!: set_update_subset_insert[THEN subsetD])

lemma conn_start_inv:
  assumes "at_start 2 LA" "at_start 2 LB" "msgid_s sB = -1"
  shows "conn_inv (conn_start (sA, LA, sB, LB))"
  using assms
  by (intro conn_invI[of "[]" 0])
    (auto simp: conn_start_def at_start_def sender_inv_def receiver_inv_def start_array_facts seqn_def seq_consts)

section \<open>Times and calls\<close>

text \<open>
  The interval between two checks stays below 4195 seconds, so that it is over at some time; the mutex
  of the reader is taken exactly during a call.
\<close>

definition lack_time :: "s_link \<Rightarrow> bool" where
  "lack_time L \<longleftrightarrow> 0 \<le> tv_usec (timeoutCheckLack L) \<and> tv_usec (timeoutCheckLack L) \<le> 4194302000"

definition live_inv :: "'h conn \<Rightarrow> bool" where
  "live_inv s \<longleftrightarrow> lack_time (sndr s) \<and> lack_time (rcvr s) \<and> semRecvListMutex (rcvr s) = (if rcall s = Idle then 1 else 0)"

definition same_times :: "s_link \<Rightarrow> s_link \<Rightarrow> bool" where
  "same_times L L' \<longleftrightarrow> timeoutCheckLack L' = timeoutCheckLack L \<and> semRecvListMutex L' = semRecvListMutex L"

lemma lack_ack_loop_times: "lack_ack_loop L chk b off n out = Some (L', ds) \<Longrightarrow> same_times L L'"
proof (induction L chk b off n out rule: lack_ack_loop.induct)
  case (2 L chk b off n out)
  then show ?case by (fastforce simp: same_times_def split: if_splits)
qed (simp add: same_times_def)

lemma times_kept:
  "UserDataRecv C sts L pa = Some (v, sts', L') \<Longrightarrow> same_times L L'"
  "SeqCheckAck C sts L pa = Some (v, sts', L', ds) \<Longrightarrow> same_times L L'"
  "SeqLackAck L pa = Some (v, L', ds) \<Longrightarrow> same_times L L'"
  "fresh_recv q L = Some L' \<Longrightarrow> same_times L L'"
  "recv_syn L pa = Some (L', ds) \<Longrightarrow> same_times L L'"
  "recv_syn_ack cf sts L pa = Some (sts', L', ds) \<Longrightarrow> same_times L L'"
  "SeqLack now L = Some (v, L', ds) \<Longrightarrow> same_times L L'"
  "SeqReport now L = Some (L', ds) \<Longrightarrow> same_times L L'"
  "SeqCheck cf now sts L = Some (v, sts', L', ds) \<Longrightarrow> same_times L L'"
proof -
  show "UserDataRecv C sts L pa = Some (v, sts', L') \<Longrightarrow> same_times L L'"
    "SeqCheckAck C sts L pa = Some (v, sts', L', ds) \<Longrightarrow> same_times L L'"
    by (auto simp: same_times_def UserDataRecv_def SeqCheckAck_def Let_def split: if_splits)
  show "SeqLackAck L pa = Some (v, L', ds) \<Longrightarrow> same_times L L'"
    by (auto simp: SeqLackAck_def Let_def dest!: lack_ack_loop_times split: if_splits) (simp_all add: same_times_def)
  show fresh: "fresh_recv q L = Some L' \<Longrightarrow> same_times L L'" for q L L'
    by (auto simp: same_times_def fresh_recv_def)
  show "recv_syn L pa = Some (L', ds) \<Longrightarrow> same_times L L'"
    "recv_syn_ack cf sts L pa = Some (sts', L', ds) \<Longrightarrow> same_times L L'"
    by (auto simp: recv_syn_def recv_syn_ack_def Let_def same_times_def dest!: fresh split: if_splits)
  show lack: "SeqLack now L = Some (v, L', ds) \<Longrightarrow> same_times L L'" for v L' ds
    by (auto simp: same_times_def SeqLack_def Let_def split: if_splits)
  show "SeqReport now L = Some (L', ds) \<Longrightarrow> same_times L L'"
    by (auto simp: SeqReport_def Let_def dest: lack split: if_splits) (simp add: same_times_def)
  show "SeqCheck cf now sts L = Some (v, sts', L', ds) \<Longrightarrow> same_times L L'"
    by (auto simp: same_times_def SeqCheck_def Let_def split: if_splits)
qed

lemma SeqReportAck_times:
  assumes "SeqReportAck now L pa = (v, L')" "lack_time L"
  shows "lack_time L' \<and> semRecvListMutex L' = semRecvListMutex L"
proof -
  let ?u = "tv_usec (timeoutCheckLack L)" and ?x = "GET_MS_DIFF now (packet_time pa) AND 0x1FFFFF"
  have "?x \<le> 0x1FFFFF" by (rule AND_upper2) simp
  then have x: "?u < ?x * 1000 \<Longrightarrow> ?u \<le> 2097151000" by linarith
  have "drop_bit 1 ?u = ?u div 2" "push_bit 1 ?u = ?u * 2" by (simp_all add: drop_bit_eq_div push_bit_eq_mult)
  then show ?thesis using assms x
    by (auto simp: SeqReportAck_def Let_def lack_time_def split: if_splits)
qed

lemma recv_packet_times:
  assumes "recv_packet C cf now sts L pa = Some (sts', L', ds)" "lack_time L"
  shows "lack_time L' \<and> semRecvListMutex L' = semRecvListMutex L"
proof -
  obtain L0 where L0: "same_times L L0" "recv_switch C cf now sts L0 pa = Some (sts', L', ds)"
    using assms(1) unfolding recv_packet_def
    by (auto simp: Let_def dest!: times_kept(4) split: if_splits intro!: that[rotated]) (simp_all add: same_times_def)
  have "lack_time L0" using L0(1) assms(2) by (simp add: same_times_def lack_time_def)
  moreover have "same_times L0 L' \<or> (\<exists>v. SeqReportAck now L0 pa = (v, L'))"
    using L0(2) unfolding recv_switch_def Let_def
    by (auto split: if_splits prod.splits dest: times_kept simp: same_times_def)
  ultimately show ?thesis using L0(1) SeqReportAck_times by (auto simp: same_times_def lack_time_def)
qed

lemma live_step:
  assumes "conn_step C cf s s'" "live_inv s"
  shows "live_inv s'"
  using assms
proof cases
  case (listen now now' tm sts L ds)
  then have "same_times (sndr s) L"
    by (auto simp: listen_link_def Let_def same_times_def dest!: times_kept(9) split: if_splits)
  then show ?thesis using listen(1) assms(2) by (simp add: live_inv_def same_times_def lack_time_def)
next
  case (recv_try now r L ds)
  then have "timeoutCheckLack L = timeoutCheckLack (rcvr s) \<and>
      semRecvListMutex L = (if r = Again then semRecvListMutex (rcvr s) else semRecvListMutex (rcvr s) + 1)"
    by (auto simp: exRecv_try_def Let_def same_times_def dest!: times_kept(8) split: if_splits)
  then show ?thesis using recv_try assms(2) by (auto simp: live_inv_def lack_time_def)
next
  case (arrive_B d now sts L ds)
  then show ?thesis using assms(2) recv_packet_times[OF arrive_B(4)] by (simp add: live_inv_def)
next
  case (arrive_A d now sts L ds)
  then show ?thesis using assms(2) recv_packet_times[OF arrive_A(4)] by (simp add: live_inv_def)
qed (auto simp: live_inv_def lack_time_def exSend_enter_def exSend_try_def exSend_wake_def exRecv_enter_def exRecv_wake_def Let_def
    split: if_splits)

section \<open>Missing packets are repeated\<close>

lemma lack_ack_repeats:
  assumes "sender_inv W c L" "\<forall>n \<in> set ps. c \<le> n \<and> n < length W"
    "\<forall>j < length ps. get_ushort b (off + 2 * j) = Some (seqn (ps ! j))"
  shows "\<exists>L' ds. lack_ack_loop L (Suc c mod MAX_PACKET_SEQ) b off (length ps) out = Some (L', out @ ds) \<and>
    map (\<lambda>d. (type_h (fst d), seq_h (fst d), snd d)) ds = map (\<lambda>n. (USER_DATA, seqn n, W ! n)) ps"
  using assms
proof (induction ps arbitrary: L off out)
  case Nil
  then show ?case by simp
next
  case (Cons n ps)
  have n: "c \<le> n" "n < length W" and q: "get_ushort b off = Some (seqn n)" using Cons.prems(2,3) by (simp, simp, fastforce)
  have ord: "CMP_SEQ_ORDER (Suc c mod MAX_PACKET_SEQ) (seqn n) (SeqMaxSend L)"
    using cmp_order_pos[of "Suc c" "Suc n" "length W"] n Cons.prems(1) by (simp add: sender_inv_def seqn_def)
  obtain p p' ph v where p: "slot (paArraySend L) (seqn n mod MAX_PACKET_NUMBER) = Some p"
    "SendMsg True L p (len_p p) = Some (v, p', [(ph, W ! n)])" "type_h ph = USER_DATA" "seq_h ph = seqn n"
    "sender_inv W c (L\<lparr>paArraySend := (paArraySend L)[seqn n mod MAX_PACKET_NUMBER := p']\<rparr>)"
    using resend_one[OF Cons.prems(1) n] by blast
  have "\<forall>j < length ps. get_ushort b (off + 2 + 2 * j) = Some (seqn (ps ! j))" using Cons.prems(3) by (fastforce simp: add.assoc)
  with Cons.IH[OF p(5), of "off + 2" "out @ [(ph, W ! n)]"] Cons.prems(2)
  obtain L' ds where "lack_ack_loop (L\<lparr>paArraySend := (paArraySend L)[seqn n mod MAX_PACKET_NUMBER := p']\<rparr>)
      (Suc c mod MAX_PACKET_SEQ) b (off + 2) (length ps) (out @ [(ph, W ! n)]) = Some (L', (out @ [(ph, W ! n)]) @ ds)"
    "map (\<lambda>d. (type_h (fst d), seq_h (fst d), snd d)) ds = map (\<lambda>n. (USER_DATA, seqn n, W ! n)) ps" by auto
  then show ?case using q ord p by (intro exI[of _ L'] exI[of _ "(ph, W ! n) # ds"]) simp
qed

lemma missing_positions:
  "missing_from L (seqn r) k = map seqn (filter (\<lambda>n. lacking L (seqn n) = Some True) [r..<r + k])"
proof -
  have "map (\<lambda>i. (seqn r + i) mod MAX_PACKET_SEQ) [0..<k] = map seqn [r..<r + k]"
    by (rule nth_equalityI) (simp_all add: seqn_def mod_simps)
  then show ?thesis by (simp add: missing_from_def filter_map comp_def)
qed

text \<open>The positions the reader has nothing for, of those that were written and not yet read.\<close>

definition gaps :: "'h conn \<Rightarrow> nat list" where
  "gaps s = filter (\<lambda>n. lacking (rcvr s) (seqn n) = Some True) [length (delivered s)..<length (written s)]"

lemma lack_answered:
  assumes "conn_inv s" "ps \<noteq> []" "set ps \<subseteq> {length (delivered s)..<length (written s)}"
    "type_h (fst d) = SEQ_LACK" "length (snd d) = 2 * length ps" "ushorts (snd d) (length ps) = map seqn ps" "length ps \<le> 510"
  shows "\<exists>L ds. recv_packet C cf now (ssock s) (sndr s) (received d) = Some (ssock s, L, ds) \<and>
    map (\<lambda>d. (type_h (fst d), seq_h (fst d), snd d)) ds = map (\<lambda>n. (USER_DATA, seqn n, written s ! n)) ps"
proof -
  from assms(1) obtain c where c: "sender_inv (written s) c (sndr s)" "c \<le> length (delivered s)" by (rule conn_invE)
  let ?L = "(sndr s)\<lparr>timeout_l := (timeout_l (sndr s))\<lparr>tv_sec := 0\<rparr>\<rparr>"
  have S: "sender_inv (written s) c (?L\<lparr>PrioritySendLack := 1\<rparr>)" "linkState (sndr s) = 2" "SeqCheckSend (sndr s) = c mod MAX_PACKET_SEQ"
    using c(1) by (simp_all add: sender_inv_sems) (simp_all add: sender_inv_def)
  have get: "get_ushort (buf (received d)) (0 + 2 * j) = Some (seqn (ps ! j))" if j: "j < length ps" for j
  proof -
    have "get_ushort (snd d) (2 * j) = Some (seqn (ps ! j))" using get_ushorts[OF j, of "snd d"] assms(5,6) j by simp
    then show ?thesis using j assms(5) by (simp add: get_ushort_def received_def nth_append split: if_splits)
  qed
  obtain L' ds where r: "lack_ack_loop (?L\<lparr>PrioritySendLack := 1\<rparr>) (Suc c mod MAX_PACKET_SEQ) (buf (received d)) 0 (length ps) [] = Some (L', [] @ ds)"
    "map (\<lambda>d. (type_h (fst d), seq_h (fst d), snd d)) ds = map (\<lambda>n. (USER_DATA, seqn n, written s ! n)) ps"
    using lack_ack_repeats[OF S(1), of ps "buf (received d)" 0 "[]"] assms(3) c(2) get by fastforce
  then show ?thesis using S(2,3) recv_packet_types(4)[OF S(2), of "received d" C cf now "ssock s"] assms(4,5)
    by (simp add: SeqLackAck_def Let_def mod_simps)
qed

section \<open>The connection can always go on\<close>

text \<open>A time that is late enough for every interval.\<close>

definition later :: "timeval \<Rightarrow> timeval" where
  "later t = t\<lparr>tv_sec := tv_sec t + 0x1FFFFF\<rparr>"

lemma later_due: "lack_time L \<Longrightarrow> \<not> GET_MS_DIFF (later t) t < tv_usec (timeoutCheckLack L) sdiv 1000"
  by (auto simp: GET_MS_DIFF_def later_def lack_time_def signed_divide_int_def sgn_if)

lemma same_time: "GET_MS_DIFF t t = 0"
  by (simp add: GET_MS_DIFF_def)

definition asks :: "byte list list \<Rightarrow> nat \<Rightarrow> dgram \<Rightarrow> bool" where
  "asks W c d \<longleftrightarrow> type_h (fst d) = SEQ_CHECK \<and> seq_h (fst d) = seqn (length W) \<and> seqCheck_h (fst d) = seqn c \<and> length (snd d) = 16"

lemma SeqCheck_asks:
  assumes "sender_inv W c L" "c < length W" "lack_time L" "GET_MS_DIFF (time_listen sts) (timeout_l L) < LISTEN_LINK_INTERVAL cf"
  shows "\<exists>v sts' L' d. SeqCheck cf (later (timeoutSend L)) sts L = Some (v, sts', L', [d]) \<and> asks W c d"
proof -
  have L: "linkState L = 2" "SeqMaxSend L = seqn (length W)" "(SeqCheckSend L + 1) mod MAX_PACKET_SEQ = seqn c"
    using assms(1) by (simp_all add: sender_inv_def seqn_def mod_simps)
  have "length W \<le> c + 509" using assms(1) by (simp add: sender_inv_def)
  then have "SeqMaxSend L \<noteq> (SeqCheckSend L + 1) mod MAX_PACKET_SEQ"
    using L seqn_inj[of c "length W"] assms(2) by (auto simp: seq_consts)
  moreover have "length (time_bytes t) = 16" for t by (simp add: time_bytes_def numeral_eq_Suc)
  ultimately show ?thesis using L assms(4) later_due[OF assms(3)]
    by (simp add: SeqCheck_def Let_def SendMsg_def size_consts stamp_packet_def asks_def)
qed

lemma listen_asks:
  assumes "sender_inv W c L" "c < length W" "lack_time L" "0 < LISTEN_LINK_INTERVAL cf" "0 \<le> LISTEN_LINK_TIMES cf"
  shows "\<exists>tm now now' sts' L' ds d. listen_link cf now now' (sts\<lparr>time_listen := tm\<rparr>) L = Some (Listened (sts', L', ds)) \<and>
    d \<in> set ds \<and> asks W c d"
proof -
  let ?t = "if tv_sec (timeout_l L) = 0 then timeoutSend L else timeout_l L"
  let ?s = "sts\<lparr>time_listen := ?t\<rparr>"
  define L1 where "L1 = (if tv_sec (timeout_l L) = 0 then L\<lparr>timeout_l := ?t, timeout_times := 1\<rparr>
    else if LISTEN_LINK_INTERVAL cf * int (timeout_times L) \<le> 0 then L\<lparr>timeout_times := (timeout_times L + 1) mod 256\<rparr> else L)"
  have L1: "sender_inv W c L1" "lack_time L1" "timeoutSend L1 = timeoutSend L" "timeout_l L1 = ?t"
    using assms(1,3) by (simp_all add: L1_def sender_inv_sems lack_time_def)
  obtain v sts' L' d where c: "SeqCheck cf (later (timeoutSend L)) ?s L1 = Some (v, sts', L', [d])" "asks W c d"
    using SeqCheck_asks[OF L1(1) assms(2) L1(2), of ?s cf] L1(3,4) assms(4) by (auto simp: same_time)
  have "int (timeout_times L) \<le> 0" if "LISTEN_LINK_INTERVAL cf * int (timeout_times L) \<le> 0"
    using that assms(4) by (simp add: mult_le_0_iff)
  then have "\<exists>es. listen_link cf ?t (later (timeoutSend L)) ?s L = Some (Listened (sts', L', es @ [d]))"
    using c(1) assms(5) by (auto simp: listen_link_def L1_def same_time SendMsg_head Let_def)
  then show ?thesis using c(2) by (metis in_set_conv_decomp)
qed

lemma check_accepted:
  assumes "receiver_inv W r L" "c \<le> r" "r < length W" "length W \<le> c + 509" "asks W c d" "msgid_s sts = -1"
  shows "\<exists>v L' ds. SeqCheckAck C sts L (received d) = Some (v, sts, L', ds) \<and>
    SeqReadMax L' = seqn (length W) \<and> semRecvList L' > 0 \<and> paArrayRecv L' = paArrayRecv L"
proof -
  have L: "linkState L = 2" "SeqRead L = seqn r" using assms(1) by (simp_all add: receiver_inv_def)
  have "CMP_SEQ_ORDER (seqn c) (seqn r) (seqn (length W))"
    using cmp_order_pos[of "Suc c" "Suc r" "length W"] assms(2-4) by (simp add: seqn_def)
  then show ?thesis using assms(5,6) L received_buf(1)[of d]
    by (simp add: SeqCheckAck_def asks_def Let_def SendMsg_def size_consts)
qed

text \<open>
  A connection that is in order, and the runs of it: they keep the order.
\<close>

definition conn_ok :: "'h conn \<Rightarrow> bool" where
  "conn_ok s \<longleftrightarrow> conn_inv s \<and> live_inv s"

lemma conn_ok_step: "conn_step C cf s s' \<Longrightarrow> conn_ok s \<Longrightarrow> conn_ok s'"
  using conn_step_inv live_step unfolding conn_ok_def by blast

lemma conn_ok_steps: "(conn_step C cf)\<^sup>*\<^sup>* s s' \<Longrightarrow> conn_ok s \<Longrightarrow> conn_ok s'"
  by (induction rule: rtranclp_induct) (auto intro: conn_ok_step)

lemma conn_okE:
  assumes "conn_ok s"
  obtains c where "sender_inv (written s) c (sndr s)" "c \<le> length (delivered s)" "length (written s) \<le> c + 509"
    "receiver_inv (written s) (length (delivered s)) (rcvr s)" "msgid_s (rsock s) = -1"
    "lack_time (sndr s)" "lack_time (rcvr s)" "semRecvListMutex (rcvr s) = (if rcall s = Idle then 1 else 0)"
  using assms conn_invE[of s] unfolding conn_ok_def live_inv_def by metis

lemma arrives_now: "(length (written s), d) \<in> net \<Longrightarrow> arrives s net d"
  by (auto simp: arrives_def)

text \<open>First the sender's check reaches the reader.\<close>

lemma check_reaches:
  assumes "conn_ok s" "length (delivered s) < length (written s)" "0 < LISTEN_LINK_INTERVAL cf" "0 \<le> LISTEN_LINK_TIMES cf"
  shows "\<exists>s'. (conn_step C cf)\<^sup>*\<^sup>* s s' \<and> written s' = written s \<and> delivered s' = delivered s \<and>
    SeqReadMax (rcvr s') = seqn (length (written s)) \<and> semRecvList (rcvr s') > 0 \<and> paArrayRecv (rcvr s') = paArrayRecv (rcvr s)"
proof -
  let ?W = "written s" and ?r = "length (delivered s)"
  from assms(1) obtain c where c: "sender_inv ?W c (sndr s)" "c \<le> ?r" "length ?W \<le> c + 509" "receiver_inv ?W ?r (rcvr s)"
    "msgid_s (rsock s) = -1" "lack_time (sndr s)" by (rule conn_okE)
  have "c < length ?W" using c(2) assms(2) by simp
  from listen_asks[OF c(1) this c(6) assms(3,4), of "ssock s"] obtain tm now now' sts L ds d where
    l: "listen_link cf now now' ((ssock s)\<lparr>time_listen := tm\<rparr>) (sndr s) = Some (Listened (sts, L, ds))" "d \<in> set ds" "asks ?W c d"
    by blast
  let ?s1 = "s\<lparr>ssock := sts, sndr := L, toB := toB s \<union> post (length ?W) ds\<rparr>"
  let ?R = "(rcvr s)\<lparr>timeout_l := (timeout_l (rcvr s))\<lparr>tv_sec := 0\<rparr>\<rparr>"
  have s1: "conn_step C cf s ?s1" by (rule conn_step.listen[OF l(1)])
  have arr: "arrives ?s1 (toB ?s1) d" using l(2) by (intro arrives_now) simp
  have ok: "packet_ok (received d)" using l(3) by (simp add: packet_ok_def asks_def packet_types size_consts not_le)
  have "receiver_inv ?W ?r ?R" and st: "linkState (rcvr s) = 2" using c(4) by (simp_all add: receiver_inv_sems) (simp add: receiver_inv_def)
  from check_accepted[OF this(1) c(2) assms(2) c(3) l(3) c(5), of C] obtain v L' es where
    a: "SeqCheckAck C (rsock s) ?R (received d) = Some (v, rsock s, L', es)" "SeqReadMax L' = seqn (length ?W)" "semRecvList L' > 0"
    "paArrayRecv L' = paArrayRecv ?R" by blast
  have "recv_packet C cf now (rsock ?s1) (rcvr ?s1) (received d) = Some (rsock s, L', es)"
    using recv_packet_types(2)[OF st, of "received d" C cf now "rsock s"] a(1) l(3) by (simp add: asks_def)
  from conn_step.arrive_B[where C = C, OF arr ok this] show ?thesis
    using s1 a(2,3,4) by (intro exI[of _ "?s1\<lparr>rsock := rsock s, rcvr := L', toA := toA ?s1 \<union> post (length (written ?s1)) es\<rparr>"]) auto
qed

text \<open>Then the reader wakes up or begins a call.\<close>

lemma reader_tries:
  assumes "conn_ok s" "semRecvList (rcvr s) > 0 \<or> rcall s \<noteq> Waiting"
  shows "\<exists>s' a b. (conn_step C cf)\<^sup>*\<^sup>* s s' \<and> s' = s\<lparr>rcvr := (rcvr s)\<lparr>semRecvList := a, semRecvListMutex := b\<rparr>, rcall := Trying\<rparr>"
proof (cases "rcall s")
  case Idle
  have "semRecvListMutex (rcvr s) = 1" using conn_okE[OF assms(1)] Idle by metis
  then have "conn_step C cf s (s\<lparr>rcvr := (rcvr s)\<lparr>semRecvList := semRecvList (rcvr s), semRecvListMutex := 0\<rparr>, rcall := Trying\<rparr>)"
    using conn_step.recv_enter[OF Idle, of _ C cf] by (simp add: exRecv_enter_def)
  then show ?thesis by blast
next
  case Trying
  then have "s = s\<lparr>rcvr := (rcvr s)\<lparr>semRecvList := semRecvList (rcvr s), semRecvListMutex := semRecvListMutex (rcvr s)\<rparr>, rcall := Trying\<rparr>"
    by simp
  then show ?thesis by blast
next
  case Waiting
  then have "exRecv_wake Got (rcvr s) = Some (Again, (rcvr s)\<lparr>semRecvList := semRecvList (rcvr s) - 1, semRecvListMutex := semRecvListMutex (rcvr s)\<rparr>)"
    using assms(2) by (simp add: exRecv_wake_def wait_on_def)
  from conn_step.recv_wake[OF Waiting this, of C cf]
  have "conn_step C cf s (s\<lparr>rcvr := (rcvr s)\<lparr>semRecvList := semRecvList (rcvr s) - 1, semRecvListMutex := semRecvListMutex (rcvr s)\<rparr>, rcall := Trying\<rparr>)"
    by simp
  then show ?thesis by blast
qed

text \<open>It reads what it has, or asks for the packets that are missing.\<close>

lemma reader_reads:
  assumes "conn_ok s" "rcall s = Trying" "length (delivered s) < length (written s)"
    "lacking (rcvr s) (seqn (length (delivered s))) = Some False"
  shows "\<exists>s'. conn_step C cf s s' \<and> written s' = written s \<and> delivered s' = delivered s @ [written s ! length (delivered s)]"
proof -
  let ?W = "written s" and ?r = "length (delivered s)"
  from assms(1) obtain c where c: "c \<le> ?r" "length ?W \<le> c + 509" "receiver_inv ?W ?r (rcvr s)" by (rule conn_okE)
  have d: "1 \<le> length (?W ! ?r)" "length (?W ! ?r) \<le> MAX_PACKET_DATA_SIZE"
    using assms(1,3) by (auto simp: conn_ok_def conn_inv_def)
  have "SeqRead (rcvr s) = seqn ?r" using c(3) by (simp add: receiver_inv_def)
  then obtain L where "exRecv_try now (rcvr s) = Some (Returns (int (length (?W ! ?r)), ?W ! ?r), L, [])"
    using exRecv_reads[OF c(3) _ _ d, of now] assms(4) c(1,2) by auto
  from conn_step.recv_try[OF assms(2) this, of C cf] show ?thesis using d(1)
    by (intro exI[of _ "s\<lparr>rcvr := L, toA := toA s \<union> post (length ?W) [], delivered := delivered s @ [?W ! ?r], rcall := Idle\<rparr>"]) (auto split: if_splits)
qed

definition wants :: "nat list \<Rightarrow> dgram \<Rightarrow> bool" where
  "wants ps d \<longleftrightarrow> type_h (fst d) = SEQ_LACK \<and> seq_h (fst d) = 0 \<and> length (snd d) = 2 * length ps \<and> ushorts (snd d) (length ps) = map seqn ps"

lemma seqn_add: "seqn (r + k) = (seqn r + k) mod MAX_PACKET_SEQ"
  unfolding seqn_def by (simp only: mod_add_left_eq add_Suc)

lemma lack_wants:
  assumes "conn_ok s" "length (delivered s) < length (written s)" "SeqReadMax (rcvr s) = seqn (length (written s))" "gaps s \<noteq> []"
    "\<not> GET_MS_DIFF now (timeoutReportLack (rcvr s)) < tv_usec (timeoutCheckLack (rcvr s)) sdiv 1000"
  shows "\<exists>d. SeqLack now (rcvr s) = Some (EX_UDP_OK, (rcvr s)\<lparr>timeoutReportLack := now\<rparr>, [d]) \<and> wants (gaps s) d"
proof -
  let ?W = "written s" and ?r = "length (delivered s)" and ?R = "rcvr s"
  from assms(1) obtain c where c: "c \<le> ?r" "length ?W \<le> c + 509" "receiver_inv ?W ?r ?R" by (rule conn_okE)
  obtain k where k: "length ?W = ?r + Suc k" using assms(2) less_iff_Suc_add by auto
  have R: "SeqRead ?R = seqn ?r" using c(3) by (simp add: receiver_inv_def)
  have "SeqReadMax ?R = (SeqRead ?R + Suc k) mod MAX_PACKET_SEQ" using assms(3) k R seqn_add[of ?r "Suc k"] by simp
  moreover have "CMP_SEQ (SeqReadMax ?R) (SeqRead ?R)"
    using cmp_seq_pos[of "Suc ?r" "Suc (length ?W)"] c assms(2,3) R by (simp add: seqn_def)
  moreover have "missing_from ?R (SeqRead ?R) (Suc k) = map seqn (gaps s)" using missing_positions[of ?R ?r "Suc k"] R k by (simp add: gaps_def)
  ultimately show ?thesis using SeqLack_spec[OF c(3), of k now] assms(4,5) k c(1,2) by (auto simp: Let_def wants_def)
qed

lemma reader_asks:
  assumes "conn_ok s" "rcall s = Trying" "length (delivered s) < length (written s)"
    "lacking (rcvr s) (seqn (length (delivered s))) = Some True" "SeqReadMax (rcvr s) = seqn (length (written s))"
  shows "\<exists>s' d. conn_step C cf s s' \<and> written s' = written s \<and> delivered s' = delivered s \<and> gaps s' = gaps s \<and>
    (length (written s), d) \<in> toA s' \<and> wants (gaps s) d \<and> rcall s' \<noteq> Trying"
proof -
  let ?R = "rcvr s" and ?r = "length (delivered s)"
  let ?now = "later (timeoutReportLack ?R)"
  from assms(1) have c: "receiver_inv (written s) ?r ?R" "lack_time ?R" by (auto elim: conn_okE)
  have R: "SeqRead ?R = seqn ?r" "linkState ?R = 2" using c(1) by (simp_all add: receiver_inv_def)
  have g: "gaps s \<noteq> []" using assms(3,4) by (auto simp: gaps_def filter_empty_conv)
  obtain d where d: "SeqLack ?now ?R = Some (EX_UDP_OK, ?R\<lparr>timeoutReportLack := ?now\<rparr>, [d])" "wants (gaps s) d"
    using lack_wants[OF assms(1,3,5) g later_due[OF c(2)]] by blast
  then obtain e where "SeqReport ?now ?R = Some (?R\<lparr>timeoutReportLack := ?now\<rparr>, [e, d])"
    using R(2) by (simp add: SeqReport_def SendMsg_head Let_def)
  then have "exRecv_try ?now ?R = Some (if tsWaitTime ?R = 0
      then (Returns (0, []), ?R\<lparr>timeoutReportLack := ?now, semRecvListMutex := semRecvListMutex ?R + 1\<rparr>, [e, d])
      else (Again, ?R\<lparr>timeoutReportLack := ?now\<rparr>, [e, d]))"
    using assms(4) R(1) by (simp add: exRecv_try_def)
  then obtain v L where t: "exRecv_try ?now ?R = Some (v, L, [e, d])" "v = Returns (0, []) \<or> v = Again" "paArrayRecv L = paArrayRecv ?R"
    by (cases "tsWaitTime ?R = 0") auto
  have "gaps (s\<lparr>rcvr := L, toA := T, delivered := delivered s, rcall := x\<rparr>) = gaps s" for T x using t(3) by (simp add: gaps_def lacking_def)
  then show ?thesis using conn_step.recv_try[OF assms(2) t(1), of C cf] t(2) d(2)
    by (intro exI[of _ "s\<lparr>rcvr := L, toA := toA s \<union> post (length (written s)) [e, d], delivered := delivered s,
      rcall := (if v = Again then Waiting else Idle)\<rparr>"] exI[of _ d]) auto
qed

lemma gaps_length: "conn_ok s \<Longrightarrow> length (gaps s) \<le> 509"
proof -
  assume "conn_ok s"
  then obtain c where c: "c \<le> length (delivered s)" "length (written s) \<le> c + 509" by (rule conn_okE)
  have "length (gaps s) \<le> length (written s) - length (delivered s)"
    unfolding gaps_def by (rule order_trans[OF length_filter_le]) simp
  then show ?thesis using c by linarith
qed

text \<open>The sender repeats them; the first one is what the reader waits for.\<close>

lemma sender_repeats:
  assumes "conn_ok s" "(length (written s), d) \<in> toA s" "wants (gaps s) d" "gaps s \<noteq> []"
  shows "\<exists>s' ds. conn_step C cf s s' \<and> written s' = written s \<and> delivered s' = delivered s \<and> rcvr s' = rcvr s \<and> rcall s' = rcall s \<and>
    (\<forall>x \<in> set ds. (length (written s), x) \<in> toB s') \<and>
    map (\<lambda>x. (type_h (fst x), seq_h (fst x), snd x)) ds = map (\<lambda>n. (USER_DATA, seqn n, written s ! n)) (gaps s)"
proof -
  have len: "length (gaps s) \<le> 509" by (rule gaps_length[OF assms(1)])
  have "\<exists>L ds. recv_packet C cf (time_listen (ssock s)) (ssock s) (sndr s) (received d) = Some (ssock s, L, ds) \<and>
    map (\<lambda>d. (type_h (fst d), seq_h (fst d), snd d)) ds = map (\<lambda>n. (USER_DATA, seqn n, written s ! n)) (gaps s)"
    by (rule lack_answered) (use assms len in \<open>auto simp: conn_ok_def wants_def gaps_def\<close>)
  then obtain L ds where r: "recv_packet C cf (time_listen (ssock s)) (ssock s) (sndr s) (received d) = Some (ssock s, L, ds)"
    "map (\<lambda>d. (type_h (fst d), seq_h (fst d), snd d)) ds = map (\<lambda>n. (USER_DATA, seqn n, written s ! n)) (gaps s)" by blast
  have "packet_ok (received d)" using assms(3) len by (simp add: packet_ok_def wants_def packet_types size_consts seq_consts)
  from conn_step.arrive_A[OF arrives_now[OF assms(2)] this r(1)] show ?thesis using r(2)
    by (intro exI[of _ "s\<lparr>ssock := ssock s, sndr := L, toB := toB s \<union> post (length (written s)) ds\<rparr>"] exI[of _ ds]) auto
qed

lemma packet_stored:
  assumes "conn_ok s" "(length (written s), d) \<in> toB s" "length (delivered s) < length (written s)"
    "type_h (fst d) = USER_DATA" "seq_h (fst d) = seqn (length (delivered s))" "snd d = written s ! length (delivered s)"
    "lacking (rcvr s) (seqn (length (delivered s))) = Some True"
  shows "\<exists>s'. conn_step C cf s s' \<and> written s' = written s \<and> delivered s' = delivered s \<and>
    lacking (rcvr s') (seqn (length (delivered s))) = Some False \<and> semRecvList (rcvr s') > 0"
proof -
  let ?W = "written s" and ?r = "length (delivered s)"
  let ?R = "(rcvr s)\<lparr>timeout_l := (timeout_l (rcvr s))\<lparr>tv_sec := 0\<rparr>\<rparr>"
  let ?L = "?R\<lparr>paArrayRecv := (paArrayRecv ?R)[seqn ?r mod MAX_PACKET_NUMBER := received d], semRecvList := semRecvList ?R + 1\<rparr>"
  from assms(1) have c: "receiver_inv ?W ?r (rcvr s)" "msgid_s (rsock s) = -1" by (auto elim: conn_okE)
  have R: "SeqRead (rcvr s) = seqn ?r" "linkState (rcvr s) = 2" "length (paArrayRecv (rcvr s)) = MAX_PACKET_NUMBER"
    using c(1) by (simp_all add: receiver_inv_def)
  have "length (snd d) \<le> MAX_PACKET_DATA_SIZE" using assms(1,3,6) by (auto simp: conn_ok_def conn_inv_def)
  then have ok: "packet_ok (received d)"
    using assms(4,5) seqn_less(1)[of ?r] by (simp add: packet_ok_def packet_types size_consts not_le)
  have "lacking ?R (seqn ?r) = Some True" using assms(7) by (simp add: lacking_def)
  then have "UserDataRecv C (rsock s) ?R (received d) = Some (EX_UDP_OK, rsock s, ?L)"
    using R c(2) assms(5) by (simp add: UserDataRecv_def Let_def)
  then have "recv_packet C cf (time_listen (rsock s)) (rsock s) (rcvr s) (received d) = Some (rsock s, ?L, [])"
    using recv_packet_types(1)[OF R(2), of "received d" C cf "time_listen (rsock s)" "rsock s"] assms(4) by simp
  from conn_step.arrive_B[OF arrives_now[OF assms(2)] ok this] show ?thesis using R(3) assms(5)
    by (intro exI[of _ "s\<lparr>rsock := rsock s, rcvr := ?L, toA := toA s \<union> post (length ?W) []\<rparr>"])
      (auto simp: lacking_def slot_def seq_consts size_consts)
qed

text \<open>So the reader gets the next packet, whatever was lost.\<close>

lemma next_packet_read:
  assumes "conn_ok s" "length (delivered s) < length (written s)" "semRecvList (rcvr s) > 0 \<or> rcall s \<noteq> Waiting"
    "lacking (rcvr s) (seqn (length (delivered s))) = Some False"
  shows "\<exists>s'. (conn_step C cf)\<^sup>*\<^sup>* s s' \<and> written s' = written s \<and> delivered s' = delivered s @ [written s ! length (delivered s)]"
proof -
  obtain s1 a b where s1: "(conn_step C cf)\<^sup>*\<^sup>* s s1" "s1 = s\<lparr>rcvr := (rcvr s)\<lparr>semRecvList := a, semRecvListMutex := b\<rparr>, rcall := Trying\<rparr>"
    using reader_tries[OF assms(1,3)] by blast
  have "conn_ok s1" using conn_ok_steps[OF s1(1) assms(1)] .
  moreover have "lacking (rcvr s1) (seqn (length (delivered s1))) = Some False" using assms(4) s1(2) by (simp add: lacking_def)
  ultimately obtain s2 where "conn_step C cf s1 s2" "written s2 = written s" "delivered s2 = delivered s @ [written s ! length (delivered s)]"
    using reader_reads[of s1 C cf] s1(2) assms(2) by auto
  then show ?thesis using s1(1) by (meson rtranclp.rtrancl_into_rtrancl)
qed

lemma asked_and_stored:
  assumes "conn_ok s" "length (delivered s) < length (written s)" "SeqReadMax (rcvr s) = seqn (length (written s))"
    "semRecvList (rcvr s) > 0" "lacking (rcvr s) (seqn (length (delivered s))) = Some True"
  shows "\<exists>s'. (conn_step C cf)\<^sup>*\<^sup>* s s' \<and> written s' = written s \<and> delivered s' = delivered s \<and>
    lacking (rcvr s') (seqn (length (delivered s))) = Some False \<and> semRecvList (rcvr s') > 0"
proof -
  obtain s1 a b where s1: "(conn_step C cf)\<^sup>*\<^sup>* s s1" "s1 = s\<lparr>rcvr := (rcvr s)\<lparr>semRecvList := a, semRecvListMutex := b\<rparr>, rcall := Trying\<rparr>"
    using reader_tries[OF assms(1)] assms(4) by blast
  have ok1: "conn_ok s1" using conn_ok_steps[OF s1(1) assms(1)] .
  obtain s2 d where s2: "conn_step C cf s1 s2" "written s2 = written s" "delivered s2 = delivered s" "gaps s2 = gaps s1"
    "(length (written s), d) \<in> toA s2" "wants (gaps s1) d"
    using reader_asks[OF ok1, of C cf] s1(2) assms(2,3,5) by (auto simp: lacking_def)
  have ok2: "conn_ok s2" using conn_ok_step[OF s2(1) ok1] .
  have "lacking (rcvr s1) (seqn (length (delivered s))) = Some True" using s1(2) assms(5) by (simp add: lacking_def)
  then have "length (delivered s) \<in> set (gaps s1)" using s1(2) assms(2) by (simp add: gaps_def)
  then have first: "length (delivered s) \<in> set (gaps s2)" using s2(4) by simp
  then have miss2: "lacking (rcvr s2) (seqn (length (delivered s))) = Some True" by (simp add: gaps_def)
  have "gaps s2 \<noteq> []" "(length (written s2), d) \<in> toA s2" "wants (gaps s2) d" using first s2 by auto
  then obtain s3 ds where s3: "conn_step C cf s2 s3" "written s3 = written s" "delivered s3 = delivered s" "rcvr s3 = rcvr s2"
    "\<forall>x \<in> set ds. (length (written s), x) \<in> toB s3"
    "map (\<lambda>x. (type_h (fst x), seq_h (fst x), snd x)) ds = map (\<lambda>n. (USER_DATA, seqn n, written s ! n)) (gaps s2)"
    using sender_repeats[OF ok2, of d C cf] s2(2,3) by auto
  have "(USER_DATA, seqn (length (delivered s)), written s ! length (delivered s)) \<in> (\<lambda>x. (type_h (fst x), seq_h (fst x), snd x)) ` set ds"
    unfolding set_map[symmetric] s3(6) using first by auto
  then obtain x where x: "x \<in> set ds" "type_h (fst x) = USER_DATA" "seq_h (fst x) = seqn (length (delivered s))"
    "snd x = written s ! length (delivered s)" by auto
  have ok3: "conn_ok s3" using conn_ok_step[OF s3(1) ok2] .
  obtain s4 where "conn_step C cf s3 s4" "written s4 = written s" "delivered s4 = delivered s"
    "lacking (rcvr s4) (seqn (length (delivered s))) = Some False" "semRecvList (rcvr s4) > 0"
    using packet_stored[OF ok3, of x C cf] s3(2-5) x assms(2) miss2 by auto
  moreover have "(conn_step C cf)\<^sup>*\<^sup>* s s3" using s1(1) s2(1) s3(1) by (meson rtranclp.rtrancl_into_rtrancl)
  ultimately show ?thesis by (meson rtranclp.rtrancl_into_rtrancl)
qed

lemma one_more:
  assumes "conn_ok s" "length (delivered s) < length (written s)" "0 < LISTEN_LINK_INTERVAL cf" "0 \<le> LISTEN_LINK_TIMES cf"
  shows "\<exists>s'. (conn_step C cf)\<^sup>*\<^sup>* s s' \<and> written s' = written s \<and> delivered s' = delivered s @ [written s ! length (delivered s)]"
proof -
  let ?q = "seqn (length (delivered s))"
  obtain s1 where s1: "(conn_step C cf)\<^sup>*\<^sup>* s s1" "written s1 = written s" "delivered s1 = delivered s"
    "SeqReadMax (rcvr s1) = seqn (length (written s))" "semRecvList (rcvr s1) > 0"
    using check_reaches[OF assms] by blast
  have ok1: "conn_ok s1" using conn_ok_steps[OF s1(1) assms(1)] .
  then have "receiver_inv (written s1) (length (delivered s1)) (rcvr s1)" by (rule conn_okE)
  then have "lacking (rcvr s1) ?q = Some True \<or> lacking (rcvr s1) ?q = Some False" using receiver_slot(2) by auto
  then obtain s2 where s2: "(conn_step C cf)\<^sup>*\<^sup>* s1 s2" "written s2 = written s" "delivered s2 = delivered s"
    "lacking (rcvr s2) ?q = Some False" "semRecvList (rcvr s2) > 0"
  proof
    assume "lacking (rcvr s1) ?q = Some True"
    then show thesis using asked_and_stored[OF ok1, of C cf] s1 assms(2) that by auto
  next
    assume "lacking (rcvr s1) ?q = Some False"
    then show thesis using that[of s1] s1 by simp
  qed
  have "conn_ok s2" using conn_ok_steps[OF s2(1) ok1] .
  then obtain s3 where "(conn_step C cf)\<^sup>*\<^sup>* s2 s3" "written s3 = written s" "delivered s3 = delivered s @ [written s ! length (delivered s)]"
    using next_packet_read[of s2 C cf] s2 assms(2) by auto
  then show ?thesis using s1(1) s2(1) by (meson rtranclp_trans)
qed

lemma all_read:
  assumes "conn_ok s" "0 < LISTEN_LINK_INTERVAL cf" "0 \<le> LISTEN_LINK_TIMES cf"
  shows "\<exists>s'. (conn_step C cf)\<^sup>*\<^sup>* s s' \<and> written s' = written s \<and> delivered s' = written s"
  using assms(1)
proof (induction "length (written s) - length (delivered s)" arbitrary: s)
  case 0
  then have "delivered s = written s" by (auto simp: conn_ok_def conn_inv_def)
  then show ?case by blast
next
  case (Suc k)
  have "length (delivered s) < length (written s)" using Suc.hyps(2) by simp
  then obtain s1 where s1: "(conn_step C cf)\<^sup>*\<^sup>* s s1" "written s1 = written s" "delivered s1 = delivered s @ [written s ! length (delivered s)]"
    using one_more[OF Suc.prems _ assms(2,3), of C] by auto
  have "conn_ok s1" "k = length (written s1) - length (delivered s1)"
    using conn_ok_steps[OF s1(1) Suc.prems] Suc.hyps(2) s1(2,3) by simp_all
  from Suc.hyps(1)[OF this(2,1)] s1(2) obtain s2 where "(conn_step C cf)\<^sup>*\<^sup>* s1 s2" "written s2 = written s" "delivered s2 = written s"
    by auto
  then show ?case using s1(1) by (meson rtranclp_trans)
qed

section \<open>What holds of every run\<close>

lemma start_ok:
  assumes "handshake C cf now ipA portA ipB portB ia ib sA sB = Some h" "msgid_s sB = -1"
  shows "conn_ok (conn_start h)"
proof -
  obtain sA' LA LB where h: "h = (sA', LA, sB, LB)" "at_start 2 LA" "at_start 2 LB"
    using handshake_links[of C cf now ipA portA ipB portB ia ib sA sB] assms(1) by auto
  moreover have "live_inv (conn_start h)"
    using h by (simp add: live_inv_def conn_start_def at_start_def lack_time_def CHECK_INTERVAL_INIT_def)
  ultimately show ?thesis using conn_start_inv[OF h(2,3) assms(2), of sA'] by (simp add: conn_ok_def)
qed

lemma run_ok:
  assumes "handshake C cf now ipA portA ipB portB ia ib sA sB = Some h" "msgid_s sB = -1" "(conn_step C cf)\<^sup>*\<^sup>* (conn_start h) s"
  shows "conn_ok s"
  using conn_ok_steps[OF assms(3) start_ok[OF assms(1,2)]] .

lemma exRecv_total: "conn_ok s \<Longrightarrow> exRecv_try t (rcvr s) \<noteq> None"
proof -
  assume ok: "conn_ok s"
  let ?r = "length (delivered s)"
  obtain c where c: "receiver_inv (written s) ?r (rcvr s)" "length (written s) \<le> ?r + 509" "SeqRead (rcvr s) = seqn ?r"
    using ok by (auto elim!: conn_okE simp: receiver_inv_def)
  show ?thesis
  proof (cases "lacking (rcvr s) (SeqRead (rcvr s)) = Some False")
    case True
    then have "?r < length (written s)"
      using receiver_read_pos[OF c(1)] by simp
    then have "1 \<le> length (written s ! ?r)" "length (written s ! ?r) \<le> MAX_PACKET_DATA_SIZE"
      using ok by (auto simp: conn_ok_def conn_inv_def)
    then show ?thesis using exRecv_reads[OF c(1) True c(2), of t] by auto
  next
    case False
    then have "lacking (rcvr s) (SeqRead (rcvr s)) = Some True" using receiver_slot(2)[OF c(1)] by auto
    moreover obtain L ds where "SeqReport t (rcvr s) = Some (L, ds)" using SeqReport_inv[OF c(1), of t] by blast
    ultimately have "exRecv_try t (rcvr s) = (if tsWaitTime L = 0
        then Some (Returns (0, []), L\<lparr>semRecvListMutex := semRecvListMutex L + 1\<rparr>, ds) else Some (Again, L, ds))"
      by (simp add: exRecv_try_def)
    then show ?thesis by simp
  qed
qed

lemma exSend_total:
  assumes "conn_ok s" "length data \<le> MAX_PACKET_DATA_SIZE"
  shows "exSend_try cf t ok (ssock s) (sndr s) data \<noteq> None"
proof -
  let ?i = "SeqMaxSend (sndr s) mod MAX_PACKET_NUMBER"
  from assms(1) obtain c where c: "sender_inv (written s) c (sndr s)" by (rule conn_okE)
  then have i: "?i < length (paArraySend (sndr s))" by (simp add: sender_inv_def seq_consts)
  then have "length (buf (paArraySend (sndr s) ! ?i)) = MAX_PACKET_DATA_SIZE" using c by (simp add: sender_inv_def)
  then show ?thesis using i assms(2) by (auto simp: exSend_try_def slot_def blit_def SendMsg_def Let_def split: if_splits)
qed

text \<open>A first run: one packet is sent, after a handshake.\<close>

lemma one_sent:
  assumes "at_start 2 LA" "1 \<le> length data" "length data \<le> MAX_PACKET_DATA_SIZE"
  shows "\<exists>s. (conn_step C cf)\<^sup>*\<^sup>* (conn_start (sA, LA, sB, LB)) s \<and> written s = [data] \<and> delivered s = [] \<and> rcvr s = LB"
proof -
  let ?s = "conn_start (sA, LA, sB, LB)" and ?L = "LA\<lparr>semSendListMutex := 0\<rparr>"
  let ?s1 = "?s\<lparr>sndr := ?L, scall := Trying\<rparr>"
  have "exSend_enter LA = Some ?L" using assms(1) by (simp add: exSend_enter_def at_start_def)
  then have s1: "conn_step C cf ?s ?s1" using conn_step.send_enter[of ?s ?L C cf] by (simp add: conn_start_def)
  have "length (buf (start_array ! 1)) = MAX_PACKET_DATA_SIZE" by (simp add: start_array_def zero_packet_def seq_consts)
  then have "\<exists>sts L ds. exSend_try cf (time_listen sA) True sA ?L data = Some (Returns (int (length data)), sts, L, ds)"
    using assms by (simp add: exSend_try_def at_start_def slot_def start_array_facts seq_consts blit_def SendMsg_def Let_def EX_UDP_ERROR_def)
  then obtain sts L ds where t: "exSend_try cf (time_listen sA) True (ssock ?s1) (sndr ?s1) data = Some (Returns (int (length data)), sts, L, ds)"
    by (auto simp: conn_start_def)
  from conn_step.send_try[OF _ assms(2,3) t] s1 show ?thesis
    by (intro exI[of _ "?s1\<lparr>ssock := sts, sndr := L, toB := toB ?s1 \<union> post (length (written ?s1)) ds, written := [data], scall := Idle\<rparr>"])
      (auto simp: conn_start_def intro: rtranclp.rtrancl_into_rtrancl)
qed

definition conf0 :: udp_conf where
  "conf0 = \<lparr>LISTEN_LINK_INTERVAL = 3000, LISTEN_LINK_TIMES = 3\<rparr>"

definition sock0 :: "(addr \<rightharpoonup> list_head) st_sock" where
  "sock0 = new_sock 4096 Map.empty 3 (-1)"

definition links0 :: "(addr \<rightharpoonup> list_head) st_sock \<times> s_link \<times> (addr \<rightharpoonup> list_head) st_sock \<times> s_link" where
  "links0 = the (handshake ring_ops conf0 (time_listen sock0) 1 5000 2 6000 0 0 sock0 sock0)"

lemma links0: "handshake ring_ops conf0 (time_listen sock0) 1 5000 2 6000 0 0 sock0 sock0 = Some links0" "msgid_s sock0 = -1"
  "at_start 2 (fst (snd links0))" "at_start 2 (snd (snd (snd links0)))"
  using handshake_links[of ring_ops conf0 "time_listen sock0" 1 5000 2 6000 0 0 sock0 sock0]
  by (auto simp: links0_def) (simp add: sock0_def new_sock_def)

lemma sent0: "\<exists>s. (conn_step ring_ops conf0)\<^sup>*\<^sup>* (conn_start links0) s \<and> written s = [[7]] \<and> delivered s = [] \<and>
    paArrayRecv (rcvr s) = start_array"
  using one_sent[OF links0(3), of "[7]" ring_ops conf0 "fst links0" "fst (snd (snd links0))" "snd (snd (snd links0))"] links0(4)
  by (auto simp: size_consts at_start_def)

lemma read0: "\<exists>s. (conn_step ring_ops conf0)\<^sup>*\<^sup>* (conn_start links0) s \<and> written s = [[7]] \<and> delivered s = [[7]]"
proof -
  obtain s where s: "(conn_step ring_ops conf0)\<^sup>*\<^sup>* (conn_start links0) s" "written s = [[7]]" using sent0 by blast
  then obtain s' where "(conn_step ring_ops conf0)\<^sup>*\<^sup>* s s'" "written s' = [[7]]" "delivered s' = [[7]]"
    using all_read[OF run_ok[OF links0(1,2) s(1)], of conf0 ring_ops] by (auto simp: conf0_def)
  then show ?thesis using s(1) rtranclp_trans by metis
qed

lemma checked0: "\<exists>s. (conn_step ring_ops conf0)\<^sup>*\<^sup>* (conn_start links0) s \<and> written s = [[7]] \<and> gaps s = [0] \<and> SeqReadMax (rcvr s) = SeqMaxSend (sndr s)"
proof -
  obtain s where s: "(conn_step ring_ops conf0)\<^sup>*\<^sup>* (conn_start links0) s" "written s = [[7]]" "delivered s = []" "paArrayRecv (rcvr s) = start_array"
    using sent0 by blast
  then obtain s' where s': "(conn_step ring_ops conf0)\<^sup>*\<^sup>* s s'" "written s' = [[7]]" "delivered s' = []" "SeqReadMax (rcvr s') = seqn 1"
    "paArrayRecv (rcvr s') = start_array"
    using check_reaches[OF run_ok[OF links0(1,2) s(1)], of conf0 ring_ops] by (auto simp: conf0_def)
  have run: "(conn_step ring_ops conf0)\<^sup>*\<^sup>* (conn_start links0) s'" using s(1) s'(1) by (rule rtranclp_trans)
  have "SeqMaxSend (sndr s') = seqn 1" using conn_okE[OF run_ok[OF links0(1,2) run]] s'(2) by (auto simp: sender_inv_def)
  moreover have "gaps s' = [0]"
    using s'(2,3,5) start_array_facts(1,2) by (simp add: gaps_def lacking_def slot_def seq_consts)
  ultimately show ?thesis using run s' by auto
qed





text \<open>
  C23: When the reader knows how far the writer is, the packet it sends to ask for repetition lists the
  written packets it has not got, exactly these and in order, and the writer answers it with these
  packets.
\<close>

theorem udp_gaps_repeated:
  assumes "handshake C cf now ipA portA ipB portB ia ib sA sB = Some h" "msgid_s sB = -1"
    "(conn_step C cf)\<^sup>*\<^sup>* (conn_start h) s" "SeqReadMax (rcvr s) = SeqMaxSend (sndr s)" "gaps s \<noteq> []"
    "tv_usec (timeoutCheckLack (rcvr s)) sdiv 1000 \<le> GET_MS_DIFF t (timeoutReportLack (rcvr s))"
  shows "\<exists>d L ds. SeqLack t (rcvr s) = Some (EX_UDP_OK, (rcvr s)\<lparr>timeoutReportLack := t\<rparr>, [d]) \<and>
    recv_packet C cf u (ssock s) (sndr s) (received d) = Some (ssock s, L, ds) \<and>
    map (\<lambda>x. (type_h (fst x), seq_h (fst x), snd x)) ds = map (\<lambda>n. (USER_DATA, seqn n, written s ! n)) (gaps s)"
proof -
  have ok: "conn_ok s" using run_ok[OF assms(1-3)] .
  then obtain c where c: "sender_inv (written s) c (sndr s)" "c \<le> length (delivered s)" "length (written s) \<le> c + 509" by (rule conn_okE)
  have l: "length (delivered s) < length (written s)" using assms(5) by (auto simp: gaps_def filter_empty_conv)
  have "SeqReadMax (rcvr s) = seqn (length (written s))" using assms(4) c(1) by (simp add: sender_inv_def)
  then obtain d where d: "SeqLack t (rcvr s) = Some (EX_UDP_OK, (rcvr s)\<lparr>timeoutReportLack := t\<rparr>, [d])" "wants (gaps s) d"
    using lack_wants[OF ok l _ assms(5), of t] assms(6) by (auto simp: not_less)
  have "\<exists>L ds. recv_packet C cf u (ssock s) (sndr s) (received d) = Some (ssock s, L, ds) \<and>
    map (\<lambda>x. (type_h (fst x), seq_h (fst x), snd x)) ds = map (\<lambda>n. (USER_DATA, seqn n, written s ! n)) (gaps s)"
    by (rule lack_answered) (use ok d(2) assms(5) gaps_length[OF ok] in \<open>auto simp: conn_ok_def wants_def gaps_def\<close>)
  then show ?thesis using d(1) by blast
qed

theorem udp_gaps_repeated_witness:
  "\<exists>s t d L ds. (conn_step ring_ops conf0)\<^sup>*\<^sup>* (conn_start links0) s \<and> gaps s = [0] \<and>
     SeqLack t (rcvr s) = Some (EX_UDP_OK, (rcvr s)\<lparr>timeoutReportLack := t\<rparr>, [d]) \<and>
     recv_packet ring_ops conf0 t (ssock s) (sndr s) (received d) = Some (ssock s, L, ds) \<and>
     map (\<lambda>x. (type_h (fst x), seq_h (fst x), snd x)) ds = [(4, 1, [7])]"
proof -
  obtain s where s: "(conn_step ring_ops conf0)\<^sup>*\<^sup>* (conn_start links0) s" "written s = [[7]]" "gaps s = [0]"
    "SeqReadMax (rcvr s) = SeqMaxSend (sndr s)" using checked0 by blast
  let ?t = "later (timeoutReportLack (rcvr s))"
  have "tv_usec (timeoutCheckLack (rcvr s)) sdiv 1000 \<le> GET_MS_DIFF ?t (timeoutReportLack (rcvr s))"
    using conn_okE[OF run_ok[OF links0(1,2) s(1)]] later_due[of "rcvr s" "timeoutReportLack (rcvr s)"] by (metis not_less)
  then obtain d L ds where "SeqLack ?t (rcvr s) = Some (EX_UDP_OK, (rcvr s)\<lparr>timeoutReportLack := ?t\<rparr>, [d])"
    "recv_packet ring_ops conf0 ?t (ssock s) (sndr s) (received d) = Some (ssock s, L, ds)"
    "map (\<lambda>x. (type_h (fst x), seq_h (fst x), snd x)) ds = map (\<lambda>n. (USER_DATA, seqn n, written s ! n)) (gaps s)"
    using udp_gaps_repeated[OF links0(1,2) s(1,4), of ?t ?t] s(3) by auto
  moreover from this(3) have "map (\<lambda>x. (type_h (fst x), seq_h (fst x), snd x)) ds = [(4, 1, [7])]"
    using s(2,3) by (simp add: USER_DATA_def seqn_def seq_consts)
  ultimately show ?thesis using s(1,3) by (intro exI[of _ s] exI[of _ ?t] exI[of _ d] exI[of _ L] exI[of _ ds]) simp
qed

text \<open>
  C24: The three datagrams of the handshake leave both sides with an established link, each with the
  address of the other and its own id, no packet sent or read: \<open>handshake\<close> succeeds for every clock,
  configuration and pair of sockets.
\<close>

theorem udp_handshake:
  "\<exists>sA' LA LB. handshake C cf now ipA portA ipB portB ia ib sA sB = Some (sA', LA, sB, LB) \<and>
     linkState LA = 2 \<and> linkState LB = 2 \<and> (id_l LA, ip_l LA, port_l LA) = (ia, ipB, portB) \<and>
     (id_l LB, ip_l LB, port_l LB) = (ib, ipA, portA) \<and>
     (SeqRead LA, SeqMaxSend LA, SeqCheckSend LA) = (1, 1, 0) \<and> (SeqRead LB, SeqMaxSend LB, SeqCheckSend LB) = (1, 1, 0)"
  using handshake_links[of C cf now ipA portA ipB portB ia ib sA sB] by (auto simp: at_start_def link_key_def)

lemma fresh_recv_lacks:
  assumes "length (paArrayRecv L) = MAX_PACKET_NUMBER"
  shows "\<exists>L'. fresh_recv 1 L = Some L' \<and> SeqRead L' = 1 \<and> linkState L' = linkState L \<and> lacking L' 1 = Some True"
  using assms by (cases "seq_h (head (paArrayRecv L ! 1)) = 1")
    (auto simp: fresh_recv_def first_seq_def slot_def lacking_def seq_consts zero_packet_def)

text \<open>
  C25: A late copy of the request that opened a connection breaks it: the established link stays
  established but reads from sequence number 1 again, which it has no packet for any more.
\<close>

theorem udp_late_syn_resets:
  assumes "linkState L = 2" "length (paArrayRecv L) = MAX_PACKET_NUMBER"
  shows "\<exists>L' d. recv_packet C cf now sts L (received (head syn_packet, [])) = Some (sts, L', [d]) \<and>
    linkState L' = 2 \<and> SeqRead L' = 1 \<and> lacking L' 1 = Some True"
proof -
  let ?R = "L\<lparr>timeout_l := (timeout_l L)\<lparr>tv_sec := 0\<rparr>\<rparr>"
  obtain L' where "fresh_recv 1 ?R = Some L'" "SeqRead L' = 1" "linkState L' = 2" "lacking L' 1 = Some True"
    using fresh_recv_lacks[of ?R] assms by auto
  then show ?thesis using recv_packet_types(5)[OF assms(1), of "received (head syn_packet, [])" C cf now sts]
    by (simp add: syn_packet_def recv_syn_def SendMsg_head Let_def)
qed

theorem udp_late_syn_resets_witness:
  "\<exists>L L' d. linkState L = 2 \<and> SeqRead L = 3 \<and>
    recv_packet ring_ops conf0 (time_listen sock0) sock0 L (received (head syn_packet, [])) = Some (sock0, L', [d]) \<and> SeqRead L' = 1"
proof -
  let ?L = "zero_link\<lparr>linkState := 2, SeqRead := 3\<rparr>"
  have L: "linkState ?L = 2" "length (paArrayRecv ?L) = MAX_PACKET_NUMBER" "SeqRead ?L = 3" by (simp_all add: zero_link_def)
  show ?thesis using udp_late_syn_resets[OF L(1,2), of ring_ops conf0 "time_listen sock0" sock0] L(1,3) by blast
qed

end
