(* ===== verification/Udp_Robust.thy ===== *)
theory Udp_Robust
  imports Udp_Live
begin

text \<open>
  The handlers of a link on datagrams of any content: a link is well formed when its arrays have
  their sizes, the lengths stored in them fit their buffers and every packet of the sender's window can
  be sent. Every operation on a well-formed link succeeds and leaves a well-formed link, whatever
  the datagram says that \<open>thread_recv\<close> lets through.
\<close>

section \<open>Well-formed packets and links\<close>

definition packet_typed :: "s_packet_all \<Rightarrow> bool" where
  "packet_typed p \<longleftrightarrow> length (buf p) = MAX_PACKET_DATA_SIZE \<and> len_p p \<le> MAX_PACKET_SIZE"

definition window_typed :: "s_link \<Rightarrow> bool" where
  "window_typed L \<longleftrightarrow> (\<forall>q < MAX_PACKET_SEQ. CMP_SEQ_ORDER ((SeqCheckSend L + 1) mod MAX_PACKET_SEQ) q (SeqMaxSend L) \<longrightarrow>
     LEN_PACKET_HEAD \<le> len_p (paArraySend L ! (q mod MAX_PACKET_NUMBER)))"

definition link_typed :: "s_link \<Rightarrow> bool" where
  "link_typed L \<longleftrightarrow> length (paArrayRecv L) = MAX_PACKET_NUMBER \<and> length (paArraySend L) = MAX_PACKET_NUMBER \<and>
     (\<forall>p \<in> set (paArrayRecv L). packet_typed p \<and> (len_p p = 0 \<or> LEN_PACKET_HEAD \<le> len_p p)) \<and>
     (\<forall>p \<in> set (paArraySend L). packet_typed p) \<and>
     SeqReadMax L < MAX_PACKET_SEQ \<and> SeqMaxSend L < MAX_PACKET_SEQ \<and> SeqCheckSend L < MAX_PACKET_SEQ \<and> window_typed L"

text \<open>The fields that \<open>link_typed\<close> does not look at.\<close>

lemma link_typed_other:
  "link_typed (L\<lparr>timeout_l := t\<rparr>) = link_typed L" "link_typed (L\<lparr>linkState := i\<rparr>) = link_typed L"
  "link_typed (L\<lparr>SeqRead := n\<rparr>) = link_typed L" "link_typed (L\<lparr>semRecvList := n\<rparr>) = link_typed L"
  "link_typed (L\<lparr>semSendList := n\<rparr>) = link_typed L" "link_typed (L\<lparr>PrioritySendLack := i\<rparr>) = link_typed L"
  "link_typed (L\<lparr>timeoutCheckLack := t\<rparr>) = link_typed L" "link_typed (L\<lparr>timeoutReportLack := t\<rparr>) = link_typed L"
  "link_typed (L\<lparr>timeoutSend := t\<rparr>) = link_typed L" "link_typed (L\<lparr>semRecvListMutex := n\<rparr>) = link_typed L"
  "link_typed (L\<lparr>semSendListMutex := n\<rparr>) = link_typed L" "link_typed (L\<lparr>timeout_times := n\<rparr>) = link_typed L"
  by (simp_all add: link_typed_def window_typed_def)

lemma slot_typed:
  assumes "link_typed L"
  shows "slot (paArrayRecv L) (q mod MAX_PACKET_NUMBER) = Some (paArrayRecv L ! (q mod MAX_PACKET_NUMBER))"
    "slot (paArraySend L) (q mod MAX_PACKET_NUMBER) = Some (paArraySend L ! (q mod MAX_PACKET_NUMBER))"
    "packet_typed (paArrayRecv L ! (q mod MAX_PACKET_NUMBER))" "packet_typed (paArraySend L ! (q mod MAX_PACKET_NUMBER))"
    "len_p (paArrayRecv L ! (q mod MAX_PACKET_NUMBER)) = 0 \<or> LEN_PACKET_HEAD \<le> len_p (paArrayRecv L ! (q mod MAX_PACKET_NUMBER))"
proof -
  have "q mod MAX_PACKET_NUMBER < length (paArrayRecv L)" "q mod MAX_PACKET_NUMBER < length (paArraySend L)"
    using assms by (simp_all add: link_typed_def seq_consts)
  then show "slot (paArrayRecv L) (q mod MAX_PACKET_NUMBER) = Some (paArrayRecv L ! (q mod MAX_PACKET_NUMBER))"
    "slot (paArraySend L) (q mod MAX_PACKET_NUMBER) = Some (paArraySend L ! (q mod MAX_PACKET_NUMBER))"
    "packet_typed (paArrayRecv L ! (q mod MAX_PACKET_NUMBER))" "packet_typed (paArraySend L ! (q mod MAX_PACKET_NUMBER))"
    "len_p (paArrayRecv L ! (q mod MAX_PACKET_NUMBER)) = 0 \<or> LEN_PACKET_HEAD \<le> len_p (paArrayRecv L ! (q mod MAX_PACKET_NUMBER))"
    using assms by (auto simp: slot_def link_typed_def)
qed

lemma put_recv_typed:
  assumes "link_typed L" "packet_typed p" "len_p p = 0 \<or> LEN_PACKET_HEAD \<le> len_p p"
  shows "link_typed (L\<lparr>paArrayRecv := (paArrayRecv L)[i := p]\<rparr>)"
  using assms by (auto simp: link_typed_def window_typed_def dest!: set_update_subset_insert[THEN subsetD])

lemma put_send_typed:
  assumes "link_typed L" "packet_typed p" "LEN_PACKET_HEAD \<le> len_p p"
  shows "link_typed (L\<lparr>paArraySend := (paArraySend L)[i := p]\<rparr>)"
proof -
  have "LEN_PACKET_HEAD \<le> len_p ((paArraySend L)[i := p] ! j)"
    if "LEN_PACKET_HEAD \<le> len_p (paArraySend L ! j)" for j
    using that assms(3) by (cases "i = j"; cases "i < length (paArraySend L)") (auto simp: list_update_beyond)
  then show ?thesis using assms
    by (auto simp: link_typed_def window_typed_def dest!: set_update_subset_insert[THEN subsetD])
qed

section \<open>The window\<close>

lemma Suc_seq: "x < 2044 \<Longrightarrow> (x + 1) mod 2044 = (if x = 2043 then 0 else x + (1::nat))"
  by (cases "x = 2043") auto

lemma window_acknowledge:
  assumes "link_typed L" "CMP_SEQ_ORDER (SeqCheckSend L) k (SeqMaxSend L)" "k < MAX_PACKET_SEQ"
  shows "link_typed (L\<lparr>SeqCheckSend := k\<rparr>)"
proof -
  have b: "SeqCheckSend L < 2044" "SeqMaxSend L < 2044" "k < 2044" using assms(1,3) by (simp_all add: link_typed_def seq_consts)
  have "CMP_SEQ_ORDER ((SeqCheckSend L + 1) mod 2044) q (SeqMaxSend L)"
    if "CMP_SEQ_ORDER ((k + 1) mod 2044) q (SeqMaxSend L)" "q < 2044" for q
    using that assms(2) b unfolding Suc_seq[OF b(1)] Suc_seq[OF b(3)] CMP_SEQ_ORDER_def seq_consts
    by (simp split: if_splits) arith+
  then show ?thesis using assms(1,3) by (auto simp: link_typed_def window_typed_def seq_consts)
qed

lemma window_send:
  assumes "link_typed L" "packet_typed p" "LEN_PACKET_HEAD \<le> len_p p"
  shows "link_typed (L\<lparr>paArraySend := (paArraySend L)[SeqMaxSend L mod MAX_PACKET_NUMBER := p],
      SeqMaxSend := (SeqMaxSend L + 1) mod MAX_PACKET_SEQ\<rparr>)"
proof -
  let ?L = "L\<lparr>paArraySend := (paArraySend L)[SeqMaxSend L mod MAX_PACKET_NUMBER := p]\<rparr>"
  have t: "link_typed ?L" by (rule put_send_typed[OF assms])
  have b: "SeqCheckSend L < 2044" "SeqMaxSend L < 2044" using assms(1) by (simp_all add: link_typed_def seq_consts)
  have w: "q = SeqMaxSend L \<or> CMP_SEQ_ORDER ((SeqCheckSend L + 1) mod 2044) q (SeqMaxSend L)"
    if "CMP_SEQ_ORDER ((SeqCheckSend L + 1) mod 2044) q ((SeqMaxSend L + 1) mod 2044)" "q < 2044" for q
    using that b unfolding Suc_seq[OF b(1)] Suc_seq[OF b(2)] CMP_SEQ_ORDER_def seq_consts
    by (simp split: if_splits) arith+
  have p: "paArraySend ?L ! (SeqMaxSend L mod MAX_PACKET_NUMBER) = p" using assms(1) by (simp add: link_typed_def seq_consts)
  have "LEN_PACKET_HEAD \<le> len_p (paArraySend ?L ! (q mod MAX_PACKET_NUMBER))"
    if q: "CMP_SEQ_ORDER ((SeqCheckSend L + 1) mod 2044) q ((SeqMaxSend L + 1) mod 2044)" "q < 2044" for q
  proof (cases "q = SeqMaxSend L")
    case True
    then show ?thesis using p assms(3) by simp
  next
    case False
    then show ?thesis using w[OF q] t q(2) unfolding link_typed_def window_typed_def by (simp add: seq_consts)
  qed
  then show ?thesis using t by (simp add: link_typed_def window_typed_def seq_consts)
qed

section \<open>Sending\<close>

definition sendable :: "dgram \<Rightarrow> bool" where
  "sendable d \<longleftrightarrow> length (snd d) \<le> MAX_PACKET_DATA_SIZE"

lemma SendMsg_typed:
  assumes "packet_typed p" "LEN_PACKET_HEAD \<le> n" "n \<le> MAX_PACKET_SIZE"
  shows "\<exists>v ds. SendMsg ok L p n = Some (v, stamp_packet L p, ds) \<and> (\<forall>d \<in> set ds. sendable d)"
  using assms by (auto simp: SendMsg_def packet_typed_def size_consts Let_def sendable_def)

lemma stamp_typed [simp]: "packet_typed (stamp_packet L p) = packet_typed p"
  by (simp add: packet_typed_def)

lemma lacking_typed: "link_typed L \<Longrightarrow> \<exists>b. lacking L q = Some b"
  by (simp add: lacking_def slot_typed)

lemma lack_offset: "Suc n * 2 mod 1464 = 2 * (Suc n mod 732)"
  using mult_mod_right[of 2 "Suc n" 732] by (simp add: mult.commute)

lemma lack_offset_Suc: "Suc n mod 732 \<noteq> 0 \<Longrightarrow> 2 * (n mod 732) + 2 = 2 * (Suc n mod 732)"
  by (simp add: mod_Suc split: if_splits)

lemma lack_round:
  assumes "link_typed L" "length (buf pa) = MAX_PACKET_DATA_SIZE" "\<forall>d \<in> set out. sendable d"
  shows "\<exists>pa' m out'. lack_loop L q pa n (2 * (n mod 732)) out =
      (if (q + 1) mod MAX_PACKET_SEQ \<noteq> SeqReadMax L then lack_loop L ((q + 1) mod MAX_PACKET_SEQ) pa' m (2 * (m mod 732)) out'
       else Some (pa', m, out')) \<and> length (buf pa') = MAX_PACKET_DATA_SIZE \<and> (\<forall>d \<in> set out'. sendable d)"
proof -
  obtain miss where m: "lacking L q = Some miss" using lacking_typed[OF assms(1)] by blast
  have "n mod 732 < 732" by simp
  then have off: "2 * (n mod 732) + 1 < 1464" by linarith
  then obtain b where b: "put_ushort (buf pa) (2 * (n mod 732)) q = Some b" "length b = MAX_PACKET_DATA_SIZE"
    using assms(2) by (simp add: put_ushort_def size_consts)
  show ?thesis
  proof (cases miss)
    case True
    show ?thesis
    proof (cases "Suc n mod 732 = 0")
      case z: True
      let ?p = "pa\<lparr>buf := b, len_p := MAX_PACKET_SIZE\<rparr>"
      obtain v ds where "SendMsg True L ?p MAX_PACKET_SIZE = Some (v, stamp_packet L ?p, ds)" "\<forall>d \<in> set ds. sendable d"
        using SendMsg_typed[of ?p MAX_PACKET_SIZE True L] b(2) by (auto simp: packet_typed_def size_consts)
      then show ?thesis using m b \<open>miss\<close> z assms(3) lack_offset[of n]
        by (intro exI[of _ "stamp_packet L ?p"] exI[of _ "Suc n"] exI[of _ "out @ ds"], subst lack_loop.simps) (auto simp: size_consts Let_def)
    next
      case z: False
      then show ?thesis using m b \<open>miss\<close> assms(3) lack_offset[of n] lack_offset_Suc[of n]
        by (intro exI[of _ "pa\<lparr>buf := b\<rparr>"] exI[of _ "Suc n"] exI[of _ out], subst lack_loop.simps) (auto simp: size_consts Let_def)
    qed
  next
    case False
    then show ?thesis using m assms(2,3)
      by (intro exI[of _ pa] exI[of _ n] exI[of _ out], subst lack_loop.simps) (auto simp: Let_def)
  qed
qed

lemma lack_loop_total:
  assumes "link_typed L" "length (buf pa) = MAX_PACKET_DATA_SIZE" "SeqReadMax L = (q + Suc k) mod MAX_PACKET_SEQ"
    "\<forall>d \<in> set out. sendable d"
  shows "\<exists>pa' m out'. lack_loop L q pa n (2 * (n mod 732)) out = Some (pa', m, out') \<and>
    length (buf pa') = MAX_PACKET_DATA_SIZE \<and> (\<forall>d \<in> set out'. sendable d)"
  using assms(2-)
proof (induction k arbitrary: q pa n out)
  case (0 q pa n out)
  then show ?case using lack_round[OF assms(1) 0(1,3), of q n] by auto
next
  case (Suc k q pa n out)
  obtain pa' m out' where r: "lack_loop L q pa n (2 * (n mod 732)) out =
      (if (q + 1) mod MAX_PACKET_SEQ \<noteq> SeqReadMax L then lack_loop L ((q + 1) mod MAX_PACKET_SEQ) pa' m (2 * (m mod 732)) out'
       else Some (pa', m, out'))" "length (buf pa') = MAX_PACKET_DATA_SIZE" "\<forall>d \<in> set out'. sendable d"
    using lack_round[OF assms(1) Suc.prems(1,3), of q n] by blast
  have "SeqReadMax L = ((q + 1) mod MAX_PACKET_SEQ + Suc k) mod MAX_PACKET_SEQ"
    using Suc.prems(2) mod_add_left_eq[of "q + 1" MAX_PACKET_SEQ "Suc k"] by simp
  from Suc.IH[OF r(2) this r(3), of m] show ?case using r by auto
qed

lemma SeqLack_total:
  assumes "link_typed L"
  shows "\<exists>v L' ds. SeqLack now L = Some (v, L', ds) \<and> link_typed L' \<and> (\<forall>d \<in> set ds. sendable d)"
proof -
  let ?L = "L\<lparr>timeoutReportLack := now\<rparr>" and ?pa = "zero_packet\<lparr>head := (head zero_packet)\<lparr>type_h := SEQ_LACK\<rparr>\<rparr>"
  let ?k = "SeqReadMax L + 2044 * (SeqRead L div 2044 + 1) - SeqRead L - 1"
  have t: "link_typed ?L" using assms by (simp add: link_typed_other)
  have "SeqRead L < 2044 * (SeqRead L div 2044 + 1)" by (simp add: dividend_less_div_times)
  then have "SeqRead L + Suc ?k = SeqReadMax L + 2044 * (SeqRead L div 2044 + 1)" by linarith
  then have "(SeqRead L + Suc ?k) mod 2044 = SeqReadMax L mod 2044" by (simp only: mod_mult_self2)
  then have "SeqReadMax ?L = (SeqRead L + Suc ?k) mod MAX_PACKET_SEQ" using assms by (simp add: link_typed_def seq_consts)
  from lack_loop_total[OF t _ this, of ?pa "[]" 0] obtain pa m out where
    l: "lack_loop ?L (SeqRead L) ?pa 0 0 [] = Some (pa, m, out)" "length (buf pa) = MAX_PACKET_DATA_SIZE" "\<forall>d \<in> set out. sendable d"
    by (auto simp: zero_packet_def)
  have "m * 2 mod MAX_PACKET_DATA_SIZE < MAX_PACKET_DATA_SIZE" by (simp add: size_consts)
  then obtain v ds where "SendMsg True ?L (pa\<lparr>len_p := LEN_PACKET_HEAD + m * 2 mod MAX_PACKET_DATA_SIZE\<rparr>)
      (LEN_PACKET_HEAD + m * 2 mod MAX_PACKET_DATA_SIZE) = Some (v, stamp_packet ?L (pa\<lparr>len_p := LEN_PACKET_HEAD + m * 2 mod MAX_PACKET_DATA_SIZE\<rparr>), ds)"
    "\<forall>d \<in> set ds. sendable d"
    using SendMsg_typed[of "pa\<lparr>len_p := LEN_PACKET_HEAD + m * 2 mod MAX_PACKET_DATA_SIZE\<rparr>" "LEN_PACKET_HEAD + m * 2 mod MAX_PACKET_DATA_SIZE" True ?L] l(2)
    by (auto simp: packet_typed_def size_consts)
  then show ?thesis using l t assms by (auto simp: SeqLack_def Let_def)
qed

lemma header_typed: "length (buf p) = MAX_PACKET_DATA_SIZE \<Longrightarrow> len_p p = LEN_PACKET_HEAD \<Longrightarrow> packet_typed p"
  by (simp add: packet_typed_def size_consts)

lemma SeqReport_total:
  assumes "link_typed L"
  shows "\<exists>L' ds. SeqReport now L = Some (L', ds) \<and> link_typed L' \<and> (\<forall>d \<in> set ds. sendable d)"
proof -
  obtain v L' ds where "SeqLack now L = Some (v, L', ds)" "link_typed L'" "\<forall>d \<in> set ds. sendable d" using SeqLack_total[OF assms] by blast
  then show ?thesis using assms by (auto simp: SeqReport_def SendMsg_head Let_def sendable_def)
qed

section \<open>Datagrams of any content\<close>

lemma UserDataRecv_total:
  assumes "link_typed L" "packet_typed pa" "LEN_PACKET_HEAD \<le> len_p pa" "msgid_s sts = -1"
  shows "\<exists>v L'. UserDataRecv C sts L pa = Some (v, sts, L') \<and> link_typed L'"
proof -
  obtain b where b: "lacking L (seq_h (head pa)) = Some b" using lacking_typed[OF assms(1)] by blast
  have put: "link_typed (L\<lparr>paArrayRecv := (paArrayRecv L)[seq_h (head pa) mod MAX_PACKET_NUMBER := pa]\<rparr>)"
    by (rule put_recv_typed[OF assms(1,2)]) (use assms(3) in simp)
  show ?thesis using b assms(1,4) put by (cases b) (auto simp: UserDataRecv_def Let_def link_typed_other)
qed

lemma SeqCheckAck_total:
  assumes "link_typed L" "packet_typed pa" "LEN_PACKET_HEAD \<le> len_p pa" "seq_h (head pa) < MAX_PACKET_SEQ" "msgid_s sts = -1"
  shows "\<exists>v L' ds. SeqCheckAck C sts L pa = Some (v, sts, L', ds) \<and> link_typed L' \<and> (\<forall>d \<in> set ds. sendable d)"
proof -
  let ?L = "L\<lparr>SeqReadMax := seq_h (head pa)\<rparr>"
  let ?p = "pa\<lparr>head := (head pa)\<lparr>type_h := SEQ_REPORT, seq_h := last_seq (SeqRead L)\<rparr>\<rparr>"
  have t: "link_typed (?L\<lparr>semRecvList := n\<rparr>)" for n using assms(1,4) by (simp add: link_typed_def window_typed_def)
  obtain v ds where "SendMsg True ?L ?p (len_p pa) = Some (v, stamp_packet ?L ?p, ds)" "\<forall>d \<in> set ds. sendable d"
    using SendMsg_typed[of ?p "len_p pa" True ?L] assms(2,3) by (auto simp: packet_typed_def)
  then show ?thesis using assms(1,5) t by (auto simp: SeqCheckAck_def Let_def)
qed

lemma SeqReportAck_typed:
  assumes "link_typed L" "seq_h (head pa) < MAX_PACKET_SEQ" "SeqReportAck now L pa = (v, L')"
  shows "link_typed L'"
  using assms window_acknowledge[OF assms(1) _ assms(2)]
  by (auto simp: SeqReportAck_def Let_def link_typed_other split: if_splits)

lemma lack_ack_loop_total:
  assumes "link_typed L" "off + 2 * n \<le> length b" "\<forall>d \<in> set out. sendable d" "chk = (SeqCheckSend L + 1) mod MAX_PACKET_SEQ"
  shows "\<exists>L' ds. lack_ack_loop L chk b off n out = Some (L', ds) \<and> link_typed L' \<and> (\<forall>d \<in> set ds. sendable d)"
  using assms
proof (induction n arbitrary: L off out)
  case (Suc n)
  obtain q where q: "get_ushort b off = Some q" using Suc.prems(2) by (simp add: get_ushort_def)
  show ?case
  proof (cases "q < MAX_PACKET_SEQ \<and> CMP_SEQ_ORDER chk q (SeqMaxSend L)")
    case True
    let ?i = "q mod MAX_PACKET_NUMBER" let ?p = "paArraySend L ! ?i"
    have p: "packet_typed ?p" "LEN_PACKET_HEAD \<le> len_p ?p"
      using slot_typed(4)[OF Suc.prems(1)] Suc.prems(1,4) True by (simp_all add: link_typed_def window_typed_def)
    obtain v ds where s: "SendMsg True L ?p (len_p ?p) = Some (v, stamp_packet L ?p, ds)" "\<forall>d \<in> set ds. sendable d"
      using SendMsg_typed[OF p(1,2), of True L] p(1) by (auto simp: packet_typed_def)
    have "link_typed (L\<lparr>paArraySend := (paArraySend L)[?i := stamp_packet L ?p]\<rparr>)"
      by (rule put_send_typed[OF Suc.prems(1)]) (use p in simp_all)
    from Suc.IH[OF this, of "off + 2" "out @ ds"] Suc.prems s(2)
    obtain L' es where "lack_ack_loop (L\<lparr>paArraySend := (paArraySend L)[?i := stamp_packet L ?p]\<rparr>) chk b (off + 2) n (out @ ds) = Some (L', es)"
      "link_typed L'" "\<forall>d \<in> set es. sendable d" by auto
    then show ?thesis using q True s slot_typed(2)[OF Suc.prems(1), of q] by simp
  next
    case False
    then show ?thesis using q Suc.prems by auto
  qed
qed simp

lemma SeqLackAck_total:
  assumes "link_typed L" "packet_typed pa" "LEN_PACKET_HEAD \<le> len_p pa"
  shows "\<exists>v L' ds. SeqLackAck L pa = Some (v, L', ds) \<and> link_typed L' \<and> (\<forall>d \<in> set ds. sendable d)"
proof -
  have "2 * ((len_p pa - LEN_PACKET_HEAD) div 2) \<le> len_p pa - LEN_PACKET_HEAD" by simp
  also have "\<dots> \<le> length (buf pa)" using assms(2) by (auto simp: packet_typed_def size_consts)
  finally have "2 * ((len_p pa - LEN_PACKET_HEAD) div 2) \<le> length (buf pa)" .
  then obtain L' ds where "lack_ack_loop (L\<lparr>PrioritySendLack := 1\<rparr>) ((SeqCheckSend L + 1) mod MAX_PACKET_SEQ) (buf pa) 0
      ((len_p pa - LEN_PACKET_HEAD) div 2) [] = Some (L', ds)" "link_typed L'" "\<forall>d \<in> set ds. sendable d"
    using lack_ack_loop_total[of "L\<lparr>PrioritySendLack := 1\<rparr>" 0 "(len_p pa - LEN_PACKET_HEAD) div 2" "buf pa" "[]"] assms(1) by (auto simp: link_typed_other)
  then show ?thesis using assms(1) by (auto simp: SeqLackAck_def Let_def link_typed_other)
qed

lemma first_seq_typed:
  assumes "length ps = MAX_PACKET_NUMBER" "\<forall>p \<in> set ps. packet_typed p \<and> (len_p p = 0 \<or> LEN_PACKET_HEAD \<le> len_p p)"
  shows "\<exists>qs. first_seq ps = Some qs \<and> length qs = MAX_PACKET_NUMBER \<and>
    (\<forall>p \<in> set qs. packet_typed p \<and> (len_p p = 0 \<or> LEN_PACKET_HEAD \<le> len_p p))"
proof -
  have "ps \<noteq> []" using assms(1) by (auto simp: seq_consts)
  then have "packet_typed (ps ! 0) \<and> (len_p (ps ! 0) = 0 \<or> LEN_PACKET_HEAD \<le> len_p (ps ! 0))" using assms(2) by simp
  then show ?thesis using assms \<open>ps \<noteq> []\<close>
    by (auto simp: first_seq_def slot_def packet_typed_def seq_consts dest!: set_update_subset_insert[THEN subsetD])
qed

lemma fresh_recv_total:
  assumes "link_typed L"
  shows "\<exists>L'. fresh_recv q L = Some L' \<and> link_typed L' \<and> linkState L' = linkState L \<and> SeqCheckSend L' = SeqCheckSend L"
proof -
  let ?A = "if seq_h (head (paArrayRecv L ! 1)) = 1 then replicate MAX_PACKET_NUMBER zero_packet else paArrayRecv L"
  have "length ?A = MAX_PACKET_NUMBER" "\<forall>p \<in> set ?A. packet_typed p \<and> (len_p p = 0 \<or> LEN_PACKET_HEAD \<le> len_p p)"
    using assms by (auto simp: link_typed_def packet_typed_def zero_packet_def)
  from first_seq_typed[OF this] obtain ra where "first_seq ?A = Some ra" "length ra = MAX_PACKET_NUMBER"
    "\<forall>p \<in> set ra. packet_typed p \<and> (len_p p = 0 \<or> LEN_PACKET_HEAD \<le> len_p p)" by blast
  then show ?thesis using assms by (auto simp: fresh_recv_def slot_def link_typed_def window_typed_def seq_consts)
qed

lemma recv_syn_total:
  assumes "link_typed L"
  shows "\<exists>L' ds. recv_syn L pa = Some (L', ds) \<and> link_typed L' \<and> (\<forall>d \<in> set ds. sendable d)"
proof -
  obtain L1 where "(if state_h (head pa) < 2 then fresh_recv (seqCheck_h (head pa)) L else Some L) = Some L1" "link_typed L1"
    using fresh_recv_total[OF assms, of "seqCheck_h (head pa)"] assms by (cases "state_h (head pa) < 2") auto
  then show ?thesis by (auto simp: recv_syn_def SendMsg_head Let_def link_typed_other sendable_def)
qed

lemma recv_syn_ack_total:
  assumes "link_typed L"
  shows "\<exists>sts' L' ds. recv_syn_ack cf sts L pa = Some (sts', L', ds) \<and> link_typed L' \<and> (\<forall>d \<in> set ds. sendable d)"
proof -
  obtain L1 where "fresh_recv (seqCheck_h (head pa)) L = Some L1" "link_typed L1" using fresh_recv_total[OF assms] by blast
  then show ?thesis using assms by (auto simp: recv_syn_ack_def SendMsg_head Let_def link_typed_other sendable_def)
qed

lemma recv_switch_total:
  assumes "link_typed L" "packet_typed pa" "packet_ok pa" "msgid_s sts = -1"
  shows "\<exists>sts' L' ds. recv_switch C cf now sts L pa = Some (sts', L', ds) \<and> link_typed L' \<and> (\<forall>d \<in> set ds. sendable d)"
proof -
  have h: "LEN_PACKET_HEAD \<le> len_p pa" "seq_h (head pa) < MAX_PACKET_SEQ" using assms(3) by (auto simp: packet_ok_def)
  obtain v1 L1 where 1: "UserDataRecv C sts L pa = Some (v1, sts, L1)" "link_typed L1"
    using UserDataRecv_total[OF assms(1,2) h(1) assms(4)] by blast
  obtain v2 L2 d2 where 2: "SeqCheckAck C sts L pa = Some (v2, sts, L2, d2)" "link_typed L2" "\<forall>d \<in> set d2. sendable d"
    using SeqCheckAck_total[OF assms(1,2) h assms(4)] by blast
  obtain v3 L3 where 3: "SeqReportAck now L pa = (v3, L3)" by (cases "SeqReportAck now L pa")
  have 4: "link_typed L3" by (rule SeqReportAck_typed[OF assms(1) h(2) 3])
  obtain v5 L5 d5 where 5: "SeqLackAck L pa = Some (v5, L5, d5)" "link_typed L5" "\<forall>d \<in> set d5. sendable d"
    using SeqLackAck_total[OF assms(1,2) h(1)] by blast
  obtain L6 d6 where 6: "recv_syn L pa = Some (L6, d6)" "link_typed L6" "\<forall>d \<in> set d6. sendable d"
    using recv_syn_total[OF assms(1)] by blast
  obtain s7 L7 d7 where 7: "recv_syn_ack cf sts L pa = Some (s7, L7, d7)" "link_typed L7" "\<forall>d \<in> set d7. sendable d"
    using recv_syn_ack_total[OF assms(1)] by blast
  show ?thesis unfolding recv_switch_def Let_def using 1 2 3 4 5 6 7 assms(1) by (simp add: link_typed_other)
qed

lemma recv_packet_total:
  assumes "link_typed L" "packet_typed pa" "packet_ok pa" "msgid_s sts = -1"
  shows "\<exists>sts' L' ds. recv_packet C cf now sts L pa = Some (sts', L', ds) \<and> link_typed L' \<and> (\<forall>d \<in> set ds. sendable d)"
proof -
  obtain L1 where L1: "(if linkState L = 1 \<and> state_h (head pa) = 2
      then do { L \<leftarrow> fresh_recv (seqCheck_h (head pa)) L; Some (L\<lparr>linkState := 2\<rparr>) } else Some L) = Some L1" "link_typed L1"
    using fresh_recv_total[OF assms(1), of "seqCheck_h (head pa)"] assms(1)
    by (cases "linkState L = 1 \<and> state_h (head pa) = 2") (auto simp: link_typed_other)
  let ?L = "L1\<lparr>timeout_l := (timeout_l L1)\<lparr>tv_sec := 0\<rparr>\<rparr>"
  have "link_typed ?L" using L1(2) by (simp add: link_typed_other)
  from recv_switch_total[OF this assms(2-4), of C cf now] show ?thesis using L1(1) by (simp add: recv_packet_def Let_def)
qed

section \<open>The calls of the user and the listening thread\<close>

lemma exRecv_typed:
  assumes "link_typed L"
  shows "\<exists>v L' ds. exRecv_try now L = Some (v, L', ds) \<and> link_typed L' \<and> (\<forall>d \<in> set ds. sendable d)"
proof -
  let ?i = "SeqRead L mod MAX_PACKET_NUMBER" let ?p = "paArrayRecv L ! ?i"
  obtain L1 ds where r: "SeqReport now L = Some (L1, ds)" "link_typed L1" "\<forall>d \<in> set ds. sendable d" using SeqReport_total[OF assms] by blast
  have p: "packet_typed ?p" "len_p ?p = 0 \<or> LEN_PACKET_HEAD \<le> len_p ?p" using slot_typed(3,5)[OF assms] by blast+
  have put: "link_typed (L\<lparr>paArrayRecv := (paArrayRecv L)[?i := ?p\<lparr>len_p := 0\<rparr>]\<rparr>)"
    by (rule put_recv_typed[OF assms]) (use p in \<open>simp_all add: packet_typed_def\<close>)
  show ?thesis
  proof (cases "seq_h (head ?p) \<noteq> SeqRead L \<or> len_p ?p = 0")
    case True
    then show ?thesis using r slot_typed(1)[OF assms, of "SeqRead L"]
      by (cases "tsWaitTime L1 = 0") (auto simp: exRecv_try_def lacking_def link_typed_other)
  next
    case False
    then have "LEN_PACKET_HEAD \<le> len_p ?p" "len_p ?p - LEN_PACKET_HEAD \<le> MAX_PACKET_DATA_SIZE" using p by (auto simp: packet_typed_def size_consts)
    then show ?thesis using False put slot_typed(1)[OF assms, of "SeqRead L"]
      by (simp add: exRecv_try_def lacking_def Let_def link_typed_other)
  qed
qed

lemma exSend_typed:
  assumes "link_typed L" "length data \<le> MAX_PACKET_DATA_SIZE"
  shows "\<exists>v sts' L' ds. exSend_try cf now ok sts L data = Some (v, sts', L', ds) \<and> link_typed L' \<and> (\<forall>d \<in> set ds. sendable d)"
proof -
  let ?i = "SeqMaxSend L mod MAX_PACKET_NUMBER" let ?p = "paArraySend L ! ?i"
  obtain b where b: "blit (buf ?p) 0 data 0 (length data) = Some b" "length b = MAX_PACKET_DATA_SIZE"
    using slot_typed(4)[OF assms(1), of "SeqMaxSend L"] assms(2) by (auto simp: blit_def packet_typed_def)
  let ?q = "?p\<lparr>head := (head ?p)\<lparr>seq_h := SeqMaxSend L, seqCheck_h := (SeqCheckSend L + 1) mod MAX_PACKET_SEQ, type_h := USER_DATA\<rparr>,
      len_p := LEN_PACKET_HEAD + length data, buf := b\<rparr>"
  have q: "packet_typed ?q" "LEN_PACKET_HEAD \<le> len_p ?q" using b(2) assms(2) by (simp_all add: packet_typed_def size_consts)
  obtain v ds where s: "SendMsg ok L ?q (len_p ?q) = Some (v, stamp_packet L ?q, ds)" "\<forall>d \<in> set ds. sendable d"
    using SendMsg_typed[OF q(1,2), of ok L] q(1) by (auto simp: packet_typed_def)
  have "packet_typed (stamp_packet L ?q)" "LEN_PACKET_HEAD \<le> len_p (stamp_packet L ?q)" using q by simp_all
  note put = put_send_typed[OF assms(1) this, of ?i] window_send[OF assms(1) this]
  show ?thesis unfolding exSend_try_def
    using assms(1) put s b(1) slot_typed(2)[OF assms(1), of "SeqMaxSend L"] by (auto simp: Let_def link_typed_other)
qed

lemma SeqCheck_total:
  assumes "link_typed L"
  shows "\<exists>v sts' L' ds. SeqCheck cf now sts L = Some (v, sts', L', ds) \<and> link_typed L' \<and> (\<forall>d \<in> set ds. sendable d)"
proof -
  have "length (time_bytes now) = 16" by (simp add: time_bytes_def numeral_eq_Suc)
  then show ?thesis using assms
    by (auto simp: SeqCheck_def Let_def SendMsg_def size_consts zero_packet_def stamp_packet_def sendable_def link_typed_other)
qed

lemma listen_link_total:
  assumes "link_typed L"
  shows "listen_link cf now now' sts L = Some Expired \<or>
    (\<exists>sts' L' ds. listen_link cf now now' sts L = Some (Listened (sts', L', ds)) \<and> link_typed L' \<and> (\<forall>d \<in> set ds. sendable d))"
proof -
  let ?L1 = "L\<lparr>timeout_l := now, timeout_times := 1\<rparr>" and ?L2 = "L\<lparr>timeout_times := (timeout_times L + 1) mod 256\<rparr>"
  have "link_typed ?L1" "link_typed ?L2" using assms by (simp_all add: link_typed_other)
  then obtain v1 s1 L1 d1 v2 s2 L2 d2 v3 s3 L3 d3 where
    "SeqCheck cf now' sts ?L1 = Some (v1, s1, L1, d1)" "link_typed L1" "\<forall>d \<in> set d1. sendable d"
    "SeqCheck cf now' sts ?L2 = Some (v2, s2, L2, d2)" "link_typed L2" "\<forall>d \<in> set d2. sendable d"
    "SeqCheck cf now' sts L = Some (v3, s3, L3, d3)" "link_typed L3" "\<forall>d \<in> set d3. sendable d"
    using SeqCheck_total[of _ cf now' sts] assms by metis
  then show ?thesis by (simp add: listen_link_def SendMsg_head Let_def) (auto simp: sendable_def)
qed

lemma start_array_typed: "p \<in> set start_array \<Longrightarrow> packet_typed p \<and> len_p p = 0"
  by (auto simp: start_array_def packet_typed_def zero_packet_def dest!: set_update_subset_insert[THEN subsetD])

lemma at_start_typed: "at_start st L \<Longrightarrow> link_typed L"
  by (auto simp: at_start_def link_typed_def window_typed_def CMP_SEQ_ORDER_def seq_consts start_array_typed start_array_facts(1))

lemma new_link_typed: "\<exists>L. init_link now sts i (CREATE_LINK ip port sts) = Some L \<and> link_typed L"
  using new_link_start at_start_typed by blast

text \<open>
  C22: No datagram that passes the checks of \<open>thread_recv\<close>, whatever it contains, makes a handler fault,
  exit or loop, and none breaks a link: a new link is well formed, and receiving, reading, sending and
  listening succeed on a well-formed link, leave it well formed and send datagrams of at most 1472
  bytes.
\<close>

theorem udp_any_datagram:
  assumes "link_typed L" "packet_typed pa" "packet_ok pa" "msgid_s sts = -1" "length data \<le> MAX_PACKET_DATA_SIZE"
  shows "(\<exists>L0. init_link now sts i (CREATE_LINK ip port sts) = Some L0 \<and> link_typed L0) \<and>
    (\<exists>sts' L' ds. recv_packet C cf now sts L pa = Some (sts', L', ds) \<and> link_typed L' \<and> list_all sendable ds) \<and>
    (\<exists>v L' ds. exRecv_try now L = Some (v, L', ds) \<and> link_typed L' \<and> list_all sendable ds) \<and>
    (\<exists>v sts' L' ds. exSend_try cf now ok sts L data = Some (v, sts', L', ds) \<and> link_typed L' \<and> list_all sendable ds) \<and>
    (listen_link cf now now' sts L = Some Expired \<or>
      (\<exists>sts' L' ds. listen_link cf now now' sts L = Some (Listened (sts', L', ds)) \<and> link_typed L' \<and> list_all sendable ds))"
  unfolding list_all_iff
  using new_link_typed recv_packet_total[OF assms(1-4), of C cf now] exRecv_typed[OF assms(1)]
    exSend_typed[OF assms(1,5)] listen_link_total[OF assms(1)] by blast

definition hostile :: s_packet_all where
  "hostile = received (\<lparr>type_h = 7, state_h = 255, seq_h = 2043, seqCheck_h = 65535, checksum_h = 9\<rparr>, replicate 1464 255)"

theorem udp_any_datagram_witness:
  "packet_ok hostile \<and> (\<exists>sts' L' ds.
     recv_packet ring_ops conf0 (time_listen sock0) sock0 (fst (snd links0)) hostile = Some (sts', L', ds) \<and> link_typed L')"
proof -
  have "packet_typed hostile" by (simp add: hostile_def packet_typed_def received_def zero_packet_def size_consts)
  moreover have "packet_ok hostile" by (simp add: hostile_def packet_ok_def packet_types size_consts seq_consts)
  moreover have "link_typed (fst (snd links0))" by (rule at_start_typed[OF links0(3)])
  ultimately show ?thesis
    using udp_any_datagram[of "fst (snd links0)" hostile sock0 "[]" "time_listen sock0" 0 0 0 ring_ops conf0 True "time_listen sock0"] links0(2)
    by auto
qed

end
