(* ===== verification/Udp_Sock.thy ===== *)
theory Udp_Sock
  imports Udp_Robust
begin

text \<open>
  The sockets of the datagram module: the tables that find a link by its id and by its address,
  making and deleting links, the three threads of a socket and the interface of the module. The
  links of a socket are in its list, the deleted ones in another until they are freed, the free
  ids in a third. What \<open>malloc\<close> returns is an argument; \<^const>\<open>None\<close> is a fault, \<open>exit\<close> or a wait
  for a semaphore that is taken. An index outside an array is a fault.
\<close>

section \<open>Places in the socket\<close>

definition list_s :: "'h st_sock \<Rightarrow> addr" where
  "list_s sts = addr_s sts"

definition listIDAllocationHead :: "'h st_sock \<Rightarrow> addr" where
  "listIDAllocationHead sts = addr_s sts + 40"

definition listFreeHead :: "'h st_sock \<Rightarrow> addr" where
  "listFreeHead sts = addr_s sts + 272"

definition stIDListAllocation :: "'h st_sock \<Rightarrow> nat \<Rightarrow> addr" where
  "stIDListAllocation sts i = addr_s sts + 655648 + of_nat (24 * i)"

definition at :: "addr list \<Rightarrow> nat \<Rightarrow> addr option" where
  "at xs i = (if i < length xs then Some (xs ! i) else None)"

definition put_link :: "addr \<Rightarrow> s_link \<Rightarrow> 'h st_sock \<Rightarrow> 'h st_sock" where
  "put_link p L sts = sts\<lparr>links := (links sts)(p \<mapsto> L)\<rparr>"

section \<open>Deleting a link\<close>

text \<open>The search for the link in the chain of its port, behind the first one.\<close>

partial_function (option) unlink_port :: "u32 \<Rightarrow> int \<Rightarrow> addr \<Rightarrow> 'h st_sock \<Rightarrow> 'h st_sock option" where
  "unlink_port ip sock q sts = do {
     Q \<leftarrow> links sts q;
     if same_port_next Q \<noteq> NULL
     then do {
       N \<leftarrow> links sts (same_port_next Q);
       if ip_l N = ip \<and> socket_l N = sock
       then Some (put_link q (Q\<lparr>same_port_next := same_port_next N\<rparr>) sts)
       else unlink_port ip sock (same_port_next Q) sts }
     else Some sts }"

definition port_unlink :: "s_link \<Rightarrow> addr \<Rightarrow> 'h st_sock \<Rightarrow> 'h st_sock option" where
  "port_unlink L q sts =
     (if q = NULL then Some sts
      else do {
        Q \<leftarrow> links sts q;
        if ip_l Q = ip_l L \<and> socket_l Q = socket_s sts
        then Some (sts\<lparr>pLinkPortArray := (pLinkPortArray sts)[port_l L := same_port_next Q]\<rparr>)
        else unlink_port (ip_l L) (socket_s sts) q sts })"

definition del_list :: "'h clist_ops \<Rightarrow> timeval \<Rightarrow> addr \<Rightarrow> 'h st_sock \<Rightarrow> (int \<times> 'h st_sock \<times> dgram list) option" where
  "del_list C now p sts = do {
     L \<leftarrow> links sts p;
     let i = id_l L;
     if i > MAX_LINK_COUNT then Some (EX_UDP_ERROR, sts, [])
     else do {
       e \<leftarrow> at (pLinkIDArray sts) i;
       if e = NULL then Some (EX_UDP_ERROR, sts, [])
       else do {
         (r, pa, d) \<leftarrow> SendMsg True L (zero_packet\<lparr>head := (head zero_packet)\<lparr>type_h := LINK_FIN\<rparr>\<rparr>) LEN_PACKET_HEAD;
         sts \<leftarrow> (if msgid_s sts \<noteq> -1 then del_listRead C sts L else Some sts);
         let sts = sts\<lparr>pLinkIDArray := (pLinkIDArray sts)[i := NULL]\<rparr>;
         n \<leftarrow> cl_next C p (clists_s sts);
         let sts = sts\<lparr>nextListenLink := n\<rparr>;
         h \<leftarrow> cl_erase C p (clists_s sts);
         let sts = sts\<lparr>clists_s := h\<rparr>;
         q \<leftarrow> at (pLinkPortArray sts) (port_l L);
         sts \<leftarrow> port_unlink L q sts;
         L \<leftarrow> links sts p;
         let sts = put_link p (L\<lparr>semSendList := semSendList L + 1, semRecvList := semRecvList L + 1,
           semSendListMutex := semSendListMutex L + 1, semRecvListMutex := semRecvListMutex L + 1,
           timeoutFree := now, linkState := -1\<rparr>) sts;
         h \<leftarrow> cl_push_back C (listFreeHead sts) p (clists_s sts);
         h \<leftarrow> cl_push_back C (listIDAllocationHead sts) (stIDListAllocation sts i) h;
         Some (EX_UDP_OK, sts\<lparr>clists_s := h, semListen := semListen sts + 1\<rparr>, d) } } }"

section \<open>Making and finding a link\<close>

definition add_list :: "'h clist_ops \<Rightarrow> timeval \<Rightarrow> addr \<Rightarrow> 'h st_sock \<Rightarrow> (int \<times> 'h st_sock) option" where
  "add_list C now p sts = do {
     e \<leftarrow> cl_empty C (listIDAllocationHead sts) (clists_s sts);
     if e then Some (EX_UDP_ERROR, sts\<lparr>links := (links sts)(p := None)\<rparr>)
     else do {
       n \<leftarrow> cl_begin C (listIDAllocationHead sts) (clists_s sts);
       i \<leftarrow> ids_s sts n;
       h \<leftarrow> cl_erase C n (clists_s sts);
       L \<leftarrow> links sts p;
       L \<leftarrow> init_link now sts i L;
       let sts = put_link p L (sts\<lparr>clists_s := h\<rparr>);
       guard_opt (i < length (pLinkIDArray sts));
       let sts = sts\<lparr>pLinkIDArray := (pLinkIDArray sts)[i := p]\<rparr>;
       h \<leftarrow> cl_push_back C (list_s sts) p (clists_s sts);
       Some (EX_UDP_OK, sts\<lparr>clists_s := h, semAccept := semAccept sts + 1, semListen := semListen sts + 1\<rparr>) } }"

text \<open>
  \<open>ASSERT_CREATE_NEW_LINK\<close>, the allocation and \<open>CREATE_LINK\<close>: the new address \<open>m\<close> is first stored
  where the search ended (\<open>store\<close>).
\<close>

definition make_link ::
  "'h clist_ops \<Rightarrow> timeval \<Rightarrow> addr \<Rightarrow> u32 \<Rightarrow> nat \<Rightarrow> nat \<Rightarrow> ('h st_sock \<Rightarrow> 'h st_sock option) \<Rightarrow> 'h st_sock \<Rightarrow>
   (addr \<times> 'h st_sock) option" where
  "make_link C now m ip port ty store sts =
     (if ty \<noteq> LINK_SYN \<and> ty \<noteq> LINK_SYN_ACK then Some (NULL, sts)
      else do {
        guard_opt (semLink sts > 0);
        if linkState_s sts \<noteq> 1 then Some (NULL, sts)
        else do {
          sts \<leftarrow> store sts;
          if m = NULL then Some (NULL, sts)
          else do {
            (r, sts) \<leftarrow> add_list C now m (put_link m (CREATE_LINK ip port sts) sts);
            Some (if r = EX_UDP_ERROR then NULL else m, sts) } } })"

partial_function (option) find_port ::
  "'h clist_ops \<Rightarrow> timeval \<Rightarrow> addr \<Rightarrow> u32 \<Rightarrow> nat \<Rightarrow> nat \<Rightarrow> addr \<Rightarrow> 'h st_sock \<Rightarrow> (addr \<times> 'h st_sock) option" where
  "find_port C now m ip port ty p sts = do {
     L \<leftarrow> links sts p;
     if ip_l L = ip then Some (p, sts)
     else if same_port_next L = NULL
     then make_link C now m ip port ty (\<lambda>sts. Some (put_link p (L\<lparr>same_port_next := m\<rparr>) sts)) sts
     else find_port C now m ip port ty (same_port_next L) sts }"

definition get_link ::
  "'h clist_ops \<Rightarrow> timeval \<Rightarrow> addr \<Rightarrow> u32 \<Rightarrow> nat \<Rightarrow> nat \<Rightarrow> 'h st_sock \<Rightarrow> (addr \<times> 'h st_sock) option" where
  "get_link C now m ip port ty sts = do {
     p \<leftarrow> at (pLinkPortArray sts) port;
     if p = NULL
     then make_link C now m ip port ty (\<lambda>sts. Some (sts\<lparr>pLinkPortArray := (pLinkPortArray sts)[port := m]\<rparr>)) sts
     else find_port C now m ip port ty p sts }"

partial_function (option) accept_walk :: "'h clist_ops \<Rightarrow> addr \<Rightarrow> 'h st_sock \<Rightarrow> (addr \<times> 'h st_sock) option" where
  "accept_walk C p sts = do {
     e \<leftarrow> cl_end C (list_s sts) (clists_s sts);
     if e \<noteq> p
     then do {
       L \<leftarrow> links sts p;
       if accept_l L = 0 then Some (p, put_link p (L\<lparr>accept_l := 1, tsWaitTime := tsWaitTime_s sts\<rparr>) sts)
       else do {
         n \<leftarrow> cl_next C p (clists_s sts);
         accept_walk C n sts } }
     else Some (NULL, sts) }"

definition GetLinkAccept :: "'h clist_ops \<Rightarrow> 'h st_sock \<Rightarrow> (addr \<times> 'h st_sock) option" where
  "GetLinkAccept C sts = do {
     guard_opt (semLink sts > 0);
     p \<leftarrow> cl_begin C (list_s sts) (clists_s sts);
     accept_walk C p sts }"

section \<open>The message queue\<close>

definition MSG_EX_UDP_PACKET :: nat where "MSG_EX_UDP_PACKET = push_bit 8 1"

definition MSGTYPE_UNCONNECTED :: nat where "MSGTYPE_UNCONNECTED = push_bit 9 1"

definition msg_id :: "s_link \<Rightarrow> int" where
  "msg_id L = int (id_l L) OR push_bit 16 (socket_l L)"

text \<open>
  \<open>SendToMsgQueue\<close> moves the packets that are next into the queue; \<open>n\<close> is the number of messages
  \<open>msgsnd\<close> takes before it fails.
\<close>

partial_function (option) queue_loop :: "nat \<Rightarrow> addr \<Rightarrow> 'h st_sock \<Rightarrow> (bool \<times> 'h st_sock) option" where
  "queue_loop n p sts = do {
     L \<leftarrow> links sts p;
     miss \<leftarrow> lacking L (SeqRead L);
     if miss then Some (True, sts)
     else do {
       pa \<leftarrow> slot (paArrayRecv L) (SeqRead L mod MAX_PACKET_NUMBER);
       guard_opt (LEN_PACKET_HEAD \<le> len_p pa);
       let len = len_p pa - LEN_PACKET_HEAD;
       if len > MAX_PACKET_DATA_SIZE then Some (False, sts)
       else do {
         let sent = (if n = 0 then sts else sts\<lparr>msgq := msgq sts @ [(MSG_EX_UDP_PACKET, msg_id L, take len (buf pa))]\<rparr>);
         e \<leftarrow> at (pLinkIDArray sts) (id_l L mod Suc MAX_LINK_COUNT);
         if e = NULL then Some (False, sent)
         else if n = 0 then Some (True, sts)
         else queue_loop (n - 1) p (put_link p (L\<lparr>
             paArrayRecv := (paArrayRecv L)[SeqRead L mod MAX_PACKET_NUMBER := pa\<lparr>len_p := 0\<rparr>],
             SeqRead := (SeqRead L + 1) mod MAX_PACKET_SEQ\<rparr>) sent) } } }"

definition SendToMsgQueue :: "'h clist_ops \<Rightarrow> timeval \<Rightarrow> nat \<Rightarrow> addr \<Rightarrow> 'h st_sock \<Rightarrow> ('h st_sock \<times> dgram list) option" where
  "SendToMsgQueue C now n p sts =
     (if 0 \<le> msgid_s sts
      then do {
        (go, sts) \<leftarrow> queue_loop n p sts;
        if \<not> go then Some (sts, [])
        else do {
          L \<leftarrow> links sts p;
          sts \<leftarrow> del_listRead C sts L;
          (L, d) \<leftarrow> SeqReport now L;
          Some (put_link p L sts, d) } }
      else Some (sts, []))"

text \<open>
  One pass of the inner loop of \<open>thread_RecvToMsg\<close>: the first id of the list, or the end of the list. A
  link that is gone leaves the list as it is and the loop goes round for ever.
\<close>

definition recv_to_msg ::
  "'h clist_ops \<Rightarrow> timeval \<Rightarrow> nat \<Rightarrow> 'h st_sock \<Rightarrow> (bool \<times> 'h st_sock \<times> dgram list) option" where
  "recv_to_msg C now n sts = do {
     e \<leftarrow> cl_end C (listIDMsgReadHead sts) (clists_s sts);
     q \<leftarrow> cl_begin C (listIDMsgReadHead sts) (clists_s sts);
     if e \<noteq> q
     then do {
       i \<leftarrow> ids_s sts q;
       p \<leftarrow> at (pLinkIDArray sts) (i mod Suc MAX_LINK_COUNT);
       if p = NULL then Some (True, sts, [])
       else do {
         (sts, d) \<leftarrow> SendToMsgQueue C now n p sts;
         Some (True, sts, d) } }
     else Some (False, sts, []) }"

text \<open>
  The thread counts itself, and after each wait for \<open>semRecvToMsg\<close> it leaves when the socket is closed or
  serves the list until it is empty; the result says whether it goes on.
\<close>

definition thread_start :: "'h st_sock \<Rightarrow> 'h st_sock" where
  "thread_start sts = sts\<lparr>threadState := threadState sts + 1\<rparr>"

partial_function (option) recv_to_msg_loop ::
  "'h clist_ops \<Rightarrow> timeval \<Rightarrow> nat \<Rightarrow> 'h st_sock \<Rightarrow> dgram list \<Rightarrow> ('h st_sock \<times> dgram list) option" where
  "recv_to_msg_loop C now n sts ds = do {
     (more, sts, d) \<leftarrow> recv_to_msg C now n sts;
     if more then recv_to_msg_loop C now n sts (ds @ d) else Some (sts, ds @ d) }"

definition thread_RecvToMsg_turn ::
  "'h clist_ops \<Rightarrow> timeval \<Rightarrow> nat \<Rightarrow> 'h st_sock \<Rightarrow> (bool \<times> 'h st_sock \<times> dgram list) option" where
  "thread_RecvToMsg_turn C now n sts = do {
     guard_opt (semRecvToMsg sts > 0);
     let sts = sts\<lparr>semRecvToMsg := semRecvToMsg sts - 1\<rparr>;
     if linkState_s sts \<noteq> 1 then Some (False, sts\<lparr>threadState := threadState sts - 1\<rparr>, [])
     else do {
       (sts, ds) \<leftarrow> recv_to_msg_loop C now n sts [];
       Some (True, sts, ds) } }"

section \<open>The receiving thread\<close>

text \<open>
  One turn of \<open>thread_recv\<close>: \<open>ret\<close> is what \<open>recvfrom\<close> returns, \<open>pa\<close> the packet it filled. The result says
  whether the thread goes on.
\<close>

definition unconnected_msg :: "s_link \<Rightarrow> 'h st_sock \<Rightarrow> 'h st_sock" where
  "unconnected_msg L sts = (if msgid_s sts \<ge> 0
     then sts\<lparr>msgq := msgq sts @ [(MSGTYPE_UNCONNECTED, msg_id L, [])]\<rparr> else sts)"

definition thread_recv_turn ::
  "'h clist_ops \<Rightarrow> udp_conf \<Rightarrow> timeval \<Rightarrow> addr \<Rightarrow> int \<Rightarrow> u32 \<Rightarrow> nat \<Rightarrow> s_packet_all \<Rightarrow> 'h st_sock \<Rightarrow>
   (bool \<times> 'h st_sock \<times> dgram list) option" where
  "thread_recv_turn C cf now m ret ip port pa sts =
     (if linkState_s sts \<noteq> 1 then Some (False, sts\<lparr>threadState := threadState sts - 1\<rparr>, [])
      else if ret = -1 then Some (True, sts, [])
      else do {
        let pa = pa\<lparr>len_p := nat ret\<rparr>;
        if \<not> packet_ok pa then Some (True, sts, [])
        else do {
          (p, sts) \<leftarrow> get_link C now m ip port (type_h (head pa)) sts;
          if p = NULL then Some (True, sts, [])
          else do {
            L \<leftarrow> links sts p;
            (sts, L, d) \<leftarrow> recv_packet C cf now sts L pa;
            let sts = put_link p L sts;
            if type_h (head pa) = LINK_FIN
            then do {
              let sts = unconnected_msg L sts;
              guard_opt (semLink sts > 0);
              (r, sts, d') \<leftarrow> del_list C now p sts;
              Some (True, sts, d @ d') }
            else Some (True, sts, d) } } })"

section \<open>The listening thread\<close>

definition FREE_MEM_INTERVAL :: int where "FREE_MEM_INTERVAL = 5000"

definition HOUR_TIME :: int where "HOUR_TIME = 3600000"

partial_function (option) free_links :: "'h clist_ops \<Rightarrow> bool \<Rightarrow> 'h st_sock \<Rightarrow> 'h st_sock option" where
  "free_links C all sts = do {
     p \<leftarrow> cl_begin C (listFreeHead sts) (clists_s sts);
     e \<leftarrow> cl_end C (listFreeHead sts) (clists_s sts);
     if p = e then Some sts
     else do {
       L \<leftarrow> links sts p;
       if all \<or> GET_MS_DIFF (time_listen sts) (timeoutFree L) > FREE_MEM_INTERVAL
       then do {
         h \<leftarrow> cl_erase C p (clists_s sts);
         free_links C all (sts\<lparr>clists_s := h, links := (links sts)(p := None)\<rparr>) }
       else Some sts } }"

definition thread_listen_start :: "'h st_sock \<Rightarrow> 'h st_sock" where
  "thread_listen_start sts = sts\<lparr>time_send := \<lparr>tv_sec = 0, tv_usec = 0\<rparr>\<rparr>"

text \<open>The turn up to its wait: the links deleted long ago are freed and the time to wait is chosen.\<close>

definition thread_listen_wait :: "'h clist_ops \<Rightarrow> udp_conf \<Rightarrow> timeval \<Rightarrow> 'h st_sock \<Rightarrow> (int \<times> 'h st_sock) option" where
  "thread_listen_wait C cf now sts = do {
     let sts = sts\<lparr>time_listen := now\<rparr>;
     f \<leftarrow> cl_empty C (listFreeHead sts) (clists_s sts);
     e \<leftarrow> cl_empty C (list_s sts) (clists_s sts);
     if \<not> f then do { sts \<leftarrow> free_links C False sts; Some (LISTEN_INTERVAL sdiv 1000, sts) }
     else if GET_MS_DIFF (time_listen sts) (time_send sts) < LISTEN_LINK_INTERVAL cf then Some (LISTEN_INTERVAL sdiv 1000, sts)
     else if e then Some (HOUR_TIME, sts)
     else Some (LISTEN_LINK_INTERVAL cf, sts) }"

text \<open>The walk over the links after the wait.\<close>

partial_function (option) listen_walk ::
  "'h clist_ops \<Rightarrow> udp_conf \<Rightarrow> timeval \<Rightarrow> addr \<Rightarrow> 'h st_sock \<Rightarrow> dgram list \<Rightarrow> ('h st_sock \<times> dgram list) option" where
  "listen_walk C cf now p sts ds = do {
     e \<leftarrow> cl_end C (list_s sts) (clists_s sts);
     if e = p then Some (sts, ds)
     else if p = listFreeHead sts then listen_walk C cf now (nextListenLink sts) sts ds
     else do {
       L \<leftarrow> links sts p;
       if linkState L = -1 then listen_walk C cf now (nextListenLink sts) sts ds
       else do {
         r \<leftarrow> listen_link cf now now sts L;
         case r of
           Expired \<Rightarrow> do {
             let sts = unconnected_msg L sts;
             n \<leftarrow> cl_next C p (clists_s sts);
             guard_opt (semLink sts > 0);
             (v, sts, d) \<leftarrow> del_list C now p sts;
             listen_walk C cf now n sts (ds @ d) }
         | Listened (sts, L, d) \<Rightarrow> do {
             let sts = put_link p L sts;
             n \<leftarrow> cl_next C p (clists_s sts);
             listen_walk C cf now n sts (ds @ d) } } } }"

definition thread_listen_turn :: "'h clist_ops \<Rightarrow> udp_conf \<Rightarrow> timeval \<Rightarrow> 'h st_sock \<Rightarrow> ('h st_sock option \<times> dgram list) option" where
  "thread_listen_turn C cf now sts =
     (if linkState_s sts \<noteq> 1
      then if threadState sts \<noteq> 0 then None
        else do { sts \<leftarrow> free_links C True sts; Some (None, []) }
      else do {
        p \<leftarrow> cl_begin C (list_s sts) (clists_s sts);
        (sts, ds) \<leftarrow> listen_walk C cf now p sts [];
        Some (Some sts, ds) })"

section \<open>The interface\<close>

definition MAX_SOCKET_NUM :: nat where "MAX_SOCKET_NUM = 0x1FFF"

record 'h udp_glob =
  g_pSock :: "'h st_sock option list"
  g_tsWaitTime :: int
  g_semLink :: nat
  exSocket_flag :: bool
  conf_g :: udp_conf

definition setListenTime :: "int \<Rightarrow> int \<Rightarrow> 'h udp_glob \<Rightarrow> int \<times> 'h udp_glob" where
  "setListenTime Milliseconds ts g =
     (if Milliseconds < LISTEN_INTERVAL sdiv 1000 then (EX_UDP_ERROR, g)
      else if ts < 1 then (EX_UDP_ERROR, g)
      else (EX_UDP_OK, g\<lparr>conf_g := \<lparr>LISTEN_LINK_INTERVAL = Milliseconds, LISTEN_LINK_TIMES = ts\<rparr>\<rparr>))"

definition setDefaultWaitTime :: "int \<Rightarrow> 'h udp_glob \<Rightarrow> 'h udp_glob" where
  "setDefaultWaitTime Milliseconds g = g\<lparr>g_tsWaitTime := Milliseconds\<rparr>"

text \<open>
  \<open>exSocket\<close>: \<open>sock\<close> is the number the system gives, \<open>bound\<close> whether \<open>bind\<close> succeeds, \<open>a\<close> the address
  of the new socket structure and \<open>h\<close> the memory of list nodes.
\<close>

definition init_ids :: "'h clist_ops \<Rightarrow> 'h st_sock \<Rightarrow> 'h st_sock option" where
  "init_ids C sts = do {
     h \<leftarrow> cl_init C (list_s sts) (clists_s sts);
     h \<leftarrow> cl_init C (listFreeHead sts) h;
     h \<leftarrow> cl_init C (listIDAllocationHead sts) h;
     h \<leftarrow> foldM (cl_push_back C (listIDAllocationHead sts)) (map (stIDListAllocation sts) [0..<Suc MAX_LINK_COUNT]) h;
     Some (sts\<lparr>clists_s := h, ids_s := map_of (map (\<lambda>i. (stIDListAllocation sts i, i)) [0..<Suc MAX_LINK_COUNT])\<rparr>) }"

definition exSocket :: "'h clist_ops \<Rightarrow> nat \<Rightarrow> int \<Rightarrow> bool \<Rightarrow> addr \<Rightarrow> 'h \<Rightarrow> 'h udp_glob \<Rightarrow> (int \<times> 'h udp_glob) option" where
  "exSocket C recvPort sock bound a h g = do {
     let g = (if exSocket_flag g then g else g\<lparr>exSocket_flag := True, g_semLink := 1\<rparr>);
     guard_opt (g_semLink g > 0);
     guard_opt (sock \<noteq> -1);
     guard_opt (0 \<le> sock);
     if sock > int MAX_SOCKET_NUM then Some (EX_UDP_ERROR, g)
     else do {
       guard_opt (nat sock < length (g_pSock g));
       if g_pSock g ! nat sock \<noteq> None then Some (EX_UDP_ERROR, g)
       else do {
         guard_opt (recvPort = 0 \<or> bound);
         guard_opt (a \<noteq> NULL);
         sts \<leftarrow> init_ids C (new_sock a h sock (g_tsWaitTime g));
         Some (sock, g\<lparr>g_pSock := (g_pSock g)[nat sock := Some sts]\<rparr>) } } }"

text \<open>\<open>ASSERT_SOCK\<close>: the socket of a number, if it is open.\<close>

definition ASSERT_SOCK :: "int \<Rightarrow> 'h udp_glob \<Rightarrow> 'h st_sock option" where
  "ASSERT_SOCK sock g =
     (if sock \<ge> int MAX_SOCKET_NUM \<or> sock < 0 then None
      else case g_pSock g ! nat sock of None \<Rightarrow> None | Some sts \<Rightarrow> if linkState_s sts \<noteq> 1 then None else Some sts)"

definition put_sock :: "int \<Rightarrow> 'h st_sock \<Rightarrow> 'h udp_glob \<Rightarrow> 'h udp_glob" where
  "put_sock sock sts g = g\<lparr>g_pSock := (g_pSock g)[nat sock := Some sts]\<rparr>"

definition setMsgQueue :: "'h clist_ops \<Rightarrow> int \<Rightarrow> int \<Rightarrow> 'h udp_glob \<Rightarrow> (int \<times> 'h udp_glob) option" where
  "setMsgQueue C sock msgid g =
     (case ASSERT_SOCK sock g of
        None \<Rightarrow> Some (EX_UDP_ERROR, g)
      | Some sts \<Rightarrow>
        if msgid < 0 then Some (EX_UDP_ERROR, g)
        else do {
          h \<leftarrow> cl_init C (listIDMsgReadHead sts) (clists_s sts);
          h \<leftarrow> foldM (cl_init C) (map (stIDListMsgRead sts) [0..<Suc MAX_LINK_COUNT]) h;
          let sts = sts\<lparr>msgid_s := msgid, clists_s := h,
            ids_s := ids_s sts ++ map_of (map (\<lambda>i. (stIDListMsgRead sts i, i)) [0..<Suc MAX_LINK_COUNT]),
            semRecvToMsg := 0, semListRead := 1\<rparr>;
          Some (EX_UDP_OK, put_sock sock sts g) })"

definition link_handle :: "nat \<Rightarrow> int \<Rightarrow> int" where
  "link_handle i sock = int i OR push_bit 16 sock"

text \<open>\<open>exAccept\<close> takes the first link that is not accepted, or waits for \<open>semAccept\<close> and tries again.\<close>

definition exAccept_try :: "'h clist_ops \<Rightarrow> int \<Rightarrow> 'h udp_glob \<Rightarrow> (int round \<times> 'h udp_glob) option" where
  "exAccept_try C sock g =
     (case ASSERT_SOCK sock g of
        None \<Rightarrow> Some (Returns EX_UDP_ERROR, g)
      | Some sts \<Rightarrow> do {
          (p, sts) \<leftarrow> GetLinkAccept C sts;
          if p = NULL then Some (Again, put_sock sock sts g)
          else do {
            L \<leftarrow> links sts p;
            Some (Returns (link_handle (id_l L) sock), put_sock sock sts g) } })"

definition exAccept_wake :: "int \<Rightarrow> 'h udp_glob \<Rightarrow> (int round \<times> bool \<times> 'h udp_glob) option" where
  "exAccept_wake sock g =
     (case ASSERT_SOCK sock g of
        None \<Rightarrow> Some (Returns EX_UDP_ERROR, False, g)
      | Some sts \<Rightarrow> do {
          guard_opt (semAccept sts > 0);
          if connectPriority sts then Some (Again, True, g)
          else Some (Again, False, put_sock sock (sts\<lparr>semAccept := semAccept sts - 1\<rparr>) g) })"

text \<open>
  \<open>exConnect\<close>: it sends the request \<open>syn_packet\<close> and waits, at most \<open>LISTEN_LINK_TIMES\<close> times; after a
  wait that was successful it looks for a link with the address. \<open>ip\<close> is what \<open>inet_addr\<close> makes of its
  argument, \<open>-1\<close> for no address.
\<close>

partial_function (option) connect_walk :: "'h clist_ops \<Rightarrow> u32 \<Rightarrow> nat \<Rightarrow> addr \<Rightarrow> 'h st_sock \<Rightarrow> addr option" where
  "connect_walk C ip port p sts = do {
     e \<leftarrow> cl_end C (list_s sts) (clists_s sts);
     if e \<noteq> p
     then do {
       L \<leftarrow> links sts p;
       if ip_l L = ip \<and> port_l L = port then Some p
       else do {
         n \<leftarrow> cl_next C p (clists_s sts);
         connect_walk C ip port n sts } }
     else Some NULL }"

definition exConnect_begin :: "int \<Rightarrow> u32 \<Rightarrow> 'h udp_glob \<Rightarrow> int round \<times> 'h udp_glob" where
  "exConnect_begin sock ip g =
     (case ASSERT_SOCK sock g of
        None \<Rightarrow> (Returns EX_UDP_ERROR, g)
      | Some sts \<Rightarrow> if ip = -1 then (Returns EX_UDP_ERROR, g) else (Again, put_sock sock (sts\<lparr>connectPriority := True\<rparr>) g))"

definition exConnect_wake ::
  "'h clist_ops \<Rightarrow> int \<Rightarrow> u32 \<Rightarrow> nat \<Rightarrow> bool \<Rightarrow> 'h udp_glob \<Rightarrow> (int round \<times> 'h udp_glob) option" where
  "exConnect_wake C sock ip port got g =
     (case ASSERT_SOCK sock g of
        None \<Rightarrow> Some (Returns EX_UDP_ERROR, g)
      | Some sts \<Rightarrow>
        if \<not> got then Some (Again, g)
        else do {
          guard_opt (semAccept sts > 0 \<and> semLink sts > 0);
          let sts = sts\<lparr>semAccept := semAccept sts - 1\<rparr>;
          p \<leftarrow> cl_begin C (list_s sts) (clists_s sts);
          p \<leftarrow> connect_walk C ip port p sts;
          if p = NULL then Some (Again, put_sock sock sts g)
          else do {
            L \<leftarrow> links sts p;
            let sts = put_link p (L\<lparr>accept_l := 1\<rparr>) sts;
            Some (Returns (link_handle (id_l L) sock),
              put_sock sock (sts\<lparr>connectPriority := False, semAccept := semAccept sts + 1\<rparr>) g) } })"

definition exConnect_end :: "int \<Rightarrow> 'h udp_glob \<Rightarrow> (int \<times> 'h udp_glob) option" where
  "exConnect_end sock g =
     (case ASSERT_SOCK sock g of
        None \<Rightarrow> Some (EX_UDP_ERROR, g)
      | Some sts \<Rightarrow> Some (EX_UDP_ERROR,
          put_sock sock (sts\<lparr>connectPriority := False, semAccept := semAccept sts + 1\<rparr>) g))"

text \<open>\<open>GET_LINK_FOR_ID\<close>: the socket and the link of a handle.\<close>

definition GET_LINK_FOR_ID :: "int \<Rightarrow> 'h udp_glob \<Rightarrow> (int \<times> 'h st_sock \<times> addr) option" where
  "GET_LINK_FOR_ID i g =
     (let sock = drop_bit 16 i AND int MAX_SOCKET_NUM in
      if i = EX_UDP_ERROR then None
      else case g_pSock g ! nat sock of
        None \<Rightarrow> None
      | Some sts \<Rightarrow>
        if linkState_s sts \<noteq> 1 then None
        else (let p = pLinkIDArray sts ! nat (i AND int MAX_LINK_COUNT) in
              if p = NULL then None else Some (sock, sts, p)))"

definition setWaitTime :: "int \<Rightarrow> int \<Rightarrow> 'h udp_glob \<Rightarrow> (int \<times> 'h udp_glob) option" where
  "setWaitTime i Milliseconds g =
     (case GET_LINK_FOR_ID i g of
        None \<Rightarrow> Some (EX_UDP_ERROR, g)
      | Some (sock, sts, p) \<Rightarrow> do {
          L \<leftarrow> links sts p;
          Some (EX_UDP_OK, put_sock sock (put_link p (L\<lparr>tsWaitTime := Milliseconds\<rparr>) sts) g) })"

text \<open>The first part of \<open>exRecv\<close> and \<open>exSend\<close>: the link, the checks of the arguments and the mutex.\<close>

definition exRecv_begin :: "int \<Rightarrow> addr \<Rightarrow> 'h udp_glob \<Rightarrow> (int round \<times> 'h udp_glob) option" where
  "exRecv_begin i b g =
     (case GET_LINK_FOR_ID i g of
        None \<Rightarrow> Some (Returns EX_UDP_ERROR, g)
      | Some (sock, sts, p) \<Rightarrow>
        if b = NULL then Some (Returns EX_UDP_ERROR, g)
        else do {
          L \<leftarrow> links sts p;
          L \<leftarrow> exRecv_enter L;
          Some (Again, put_sock sock (put_link p L sts) g) })"

definition exSend_begin :: "int \<Rightarrow> addr \<Rightarrow> int \<Rightarrow> 'h udp_glob \<Rightarrow> (int round \<times> 'h udp_glob) option" where
  "exSend_begin i b len g =
     (case GET_LINK_FOR_ID i g of
        None \<Rightarrow> Some (Returns EX_UDP_ERROR, g)
      | Some (sock, sts, p) \<Rightarrow>
        if b = NULL then Some (Returns EX_UDP_ERROR, g)
        else if len \<le> 0 \<or> len > int MAX_PACKET_DATA_SIZE then Some (Returns EX_UDP_ERROR, g)
        else do {
          L \<leftarrow> links sts p;
          L \<leftarrow> exSend_enter L;
          Some (Again, put_sock sock (put_link p L sts) g) })"

partial_function (option) close_links :: "'h clist_ops \<Rightarrow> timeval \<Rightarrow> 'h st_sock \<Rightarrow> dgram list \<Rightarrow> ('h st_sock \<times> dgram list) option" where
  "close_links C now sts ds = do {
     e \<leftarrow> cl_empty C (list_s sts) (clists_s sts);
     if e then Some (sts, ds)
     else do {
       p \<leftarrow> cl_begin C (list_s sts) (clists_s sts);
       (r, sts, d) \<leftarrow> del_list C now p sts;
       close_links C now sts (ds @ d) } }"

text \<open>
  \<open>exClose\<close> takes the socket out of the table; the structure lives on until the listening thread frees
  it, so that it is part of the result.
\<close>

definition exClose ::
  "'h clist_ops \<Rightarrow> timeval \<Rightarrow> int \<Rightarrow> 'h udp_glob \<Rightarrow> (int \<times> 'h udp_glob \<times> 'h st_sock option \<times> dgram list) option" where
  "exClose C now sock g = do {
     guard_opt (g_semLink g > 0);
     if sock > int MAX_SOCKET_NUM \<or> sock < 0 then Some (EX_UDP_ERROR, g, None, [])
     else case g_pSock g ! nat sock of
       None \<Rightarrow> Some (EX_UDP_ERROR, g, None, [])
     | Some sts \<Rightarrow>
       if linkState_s sts = -1 then Some (EX_UDP_ERROR, g, None, [])
       else do {
         guard_opt (semLink sts > 0);
         let sts = sts\<lparr>linkState_s := -1\<rparr>;
         let g = g\<lparr>g_pSock := (g_pSock g)[nat sock := None]\<rparr>;
         (sts, ds) \<leftarrow> close_links C now sts [];
         let sts = (if msgid_s sts \<noteq> -1 then sts\<lparr>semRecvToMsg := semRecvToMsg sts + 1, semListRead := semListRead sts + 1\<rparr> else sts);
         Some (EX_UDP_OK, g, Some (sts\<lparr>semAccept := semAccept sts + 1, semListen := semListen sts + 1\<rparr>), ds) } }"

end
