(* ===== verification/Udp_Table.thy ===== *)
theory Udp_Table
  imports Udp_Sock
begin

text \<open>
  The tables of a socket: every link in use has one id and is found under it, under its address and
  in the list of links; the ids not in use are the free ones. The lemmas rest on the contract of the
  list operations only.
\<close>

section \<open>Well-formed tables\<close>

fun port_chain :: "(addr \<rightharpoonup> s_link) \<Rightarrow> addr \<Rightarrow> addr list \<Rightarrow> bool" where
  "port_chain lk p [] \<longleftrightarrow> p = NULL"
| "port_chain lk p (q # qs) \<longleftrightarrow> p = q \<and> q \<noteq> NULL \<and> (\<exists>L. lk q = Some L \<and> port_chain lk (same_port_next L) qs)"

definition link_row :: "'h st_sock \<Rightarrow> (nat \<Rightarrow> addr list) \<Rightarrow> addr \<Rightarrow> bool" where
  "link_row sts ch p \<longleftrightarrow> (\<exists>L. links sts p = Some L \<and> p \<noteq> NULL \<and> id_l L \<le> MAX_LINK_COUNT \<and> pLinkIDArray sts ! id_l L = p \<and>
     port_l L < 65535 \<and> p \<in> set (ch (port_l L)) \<and> socket_l L = socket_s sts \<and> link_typed L \<and> linkState L \<noteq> -1)"

definition port_row :: "'h st_sock \<Rightarrow> addr list \<Rightarrow> (nat \<Rightarrow> addr list) \<Rightarrow> nat \<Rightarrow> bool" where
  "port_row sts ls ch port \<longleftrightarrow> port_chain (links sts) (pLinkPortArray sts ! port) (ch port) \<and>
     distinct (map (\<lambda>p. ip_l (the (links sts p))) (ch port)) \<and>
     (\<forall>p \<in> set (ch port). p \<in> set ls \<and> port_l (the (links sts p)) = port)"

definition id_row :: "'h st_sock \<Rightarrow> addr list \<Rightarrow> nat list \<Rightarrow> nat \<Rightarrow> bool" where
  "id_row sts ls free i \<longleftrightarrow> ids_s sts (stIDListAllocation sts i) = Some i \<and>
     (if i \<in> set free then pLinkIDArray sts ! i = NULL
      else pLinkIDArray sts ! i \<in> set ls \<and> id_l (the (links sts (pLinkIDArray sts ! i))) = i)"

definition sock_lists :: "'h st_sock \<Rightarrow> addr list \<Rightarrow> addr list \<Rightarrow> nat list \<Rightarrow> (addr \<rightharpoonup> addr list)" where
  "sock_lists sts ls fs free = [list_s sts \<mapsto> ls, listFreeHead sts \<mapsto> fs,
     listIDAllocationHead sts \<mapsto> map (stIDListAllocation sts) free]"

definition sock_wf ::
  "('h \<Rightarrow> (addr \<rightharpoonup> addr list) \<Rightarrow> bool) \<Rightarrow> ('h \<Rightarrow> addr \<Rightarrow> bool) \<Rightarrow> 'h st_sock \<Rightarrow> addr list \<Rightarrow> addr list \<Rightarrow> nat list \<Rightarrow> (nat \<Rightarrow> addr list) \<Rightarrow> bool"
where
  "sock_wf rep node sts ls fs free ch \<longleftrightarrow> rep (clists_s sts) (sock_lists sts ls fs free) \<and> msgid_s sts = -1 \<and>
     length (pLinkIDArray sts) = Suc MAX_LINK_COUNT \<and> length (pLinkPortArray sts) = 65535 \<and>
     set free \<subseteq> {..MAX_LINK_COUNT} \<and> distinct free \<and>
     (\<forall>p \<in> set ls. link_row sts ch p) \<and> (\<forall>p \<in> set fs. links sts p \<noteq> None) \<and> (\<forall>p \<in> set ls \<union> set fs. node (clists_s sts) p) \<and>
     (\<forall>port < 65535. port_row sts ls ch port) \<and> (\<forall>i \<le> MAX_LINK_COUNT. id_row sts ls free i) \<and>
     (\<forall>i \<le> MAX_LINK_COUNT. node (clists_s sts) (stIDListAllocation sts i) \<and>
        stIDListAllocation sts i \<notin> {list_s sts, listFreeHead sts, listIDAllocationHead sts} \<union> set ls \<union> set fs)"

lemma heads_apart:
  "listFreeHead sts \<noteq> list_s sts" "listIDAllocationHead sts \<noteq> list_s sts" "listIDAllocationHead sts \<noteq> listFreeHead sts"
  by (simp_all add: listFreeHead_def list_s_def listIDAllocationHead_def)

lemma sock_lists_at:
  "sock_lists sts ls fs free (list_s sts) = Some ls" "sock_lists sts ls fs free (listFreeHead sts) = Some fs"
  "sock_lists sts ls fs free (listIDAllocationHead sts) = Some (map (stIDListAllocation sts) free)"
  using heads_apart[of sts] by (auto simp: sock_lists_def)

lemma sock_lists_put:
  "(sock_lists sts ls fs free)(list_s sts \<mapsto> ls') = sock_lists sts ls' fs free"
  "(sock_lists sts ls fs free)(listFreeHead sts \<mapsto> fs') = sock_lists sts ls fs' free"
  "(sock_lists sts ls fs free)(listIDAllocationHead sts \<mapsto> map (stIDListAllocation sts) free') = sock_lists sts ls fs free'"
  using heads_apart[of sts] by (auto simp: sock_lists_def)

lemma sock_lists_occupied:
  "occupied (sock_lists sts ls fs free) = {list_s sts, listFreeHead sts, listIDAllocationHead sts} \<union> set ls \<union> set fs \<union> stIDListAllocation sts ` set free"
  using heads_apart[of sts] by (auto simp: occupied_def sock_lists_def)

lemma idnode_inj:
  assumes "stIDListAllocation sts i = stIDListAllocation sts j" "i \<le> MAX_LINK_COUNT" "j \<le> MAX_LINK_COUNT"
  shows "i = j"
proof -
  have "(of_nat (24 * i) :: addr) = of_nat (24 * j)" using assms(1) unfolding stIDListAllocation_def by (simp only: add_left_cancel)
  from arg_cong[OF this, of unat] have "24 * i mod 2 ^ 64 = 24 * j mod 2 ^ 64" by (simp only: unat_of_nat len_of_numeral_defs) simp
  then show ?thesis using assms(2,3) by (simp add: MAX_LINK_COUNT_def)
qed

lemma sock_wfD:
  assumes "sock_wf rep node sts ls fs free ch"
  shows "rep (clists_s sts) (sock_lists sts ls fs free)" "msgid_s sts = -1"
    "length (pLinkIDArray sts) = Suc MAX_LINK_COUNT" "length (pLinkPortArray sts) = 65535"
    "set free \<subseteq> {..MAX_LINK_COUNT}" "distinct free" "p \<in> set ls \<Longrightarrow> link_row sts ch p" "p \<in> set fs \<Longrightarrow> links sts p \<noteq> None"
    "port < 65535 \<Longrightarrow> port_row sts ls ch port" "i \<le> MAX_LINK_COUNT \<Longrightarrow> id_row sts ls free i"
    "i \<le> MAX_LINK_COUNT \<Longrightarrow> node (clists_s sts) (stIDListAllocation sts i)"
    "i \<le> MAX_LINK_COUNT \<Longrightarrow> stIDListAllocation sts i \<notin> {list_s sts, listFreeHead sts, listIDAllocationHead sts} \<union> set ls \<union> set fs"
    "p \<in> set ls \<union> set fs \<Longrightarrow> node (clists_s sts) p"
  using assms by (auto simp: sock_wf_def)

section \<open>Changes of one link\<close>

lemma port_chain_nodes: "port_chain lk p qs \<Longrightarrow> q \<in> set qs \<Longrightarrow> q \<noteq> NULL \<and> lk q \<noteq> None"
  by (induction qs arbitrary: p) auto

lemma port_chain_upd: "q \<notin> set qs \<Longrightarrow> port_chain (lk(q := x)) p qs = port_chain lk p qs"
  by (induction qs arbitrary: p) auto

lemma port_chain_same_next:
  "lk q = Some L \<Longrightarrow> same_port_next L' = same_port_next L \<Longrightarrow> port_chain (lk(q \<mapsto> L')) p qs = port_chain lk p qs"
  by (induction qs arbitrary: p) auto

lemma port_chain_append:
  "port_chain lk p qs \<Longrightarrow> qs \<noteq> [] \<Longrightarrow> distinct qs \<Longrightarrow> m \<notin> set qs \<Longrightarrow> m \<noteq> NULL \<Longrightarrow> lk (last qs) = Some L \<Longrightarrow>
   lk' = lk(last qs \<mapsto> L\<lparr>same_port_next := m\<rparr>, m \<mapsto> M) \<Longrightarrow> same_port_next M = NULL \<Longrightarrow> port_chain lk' p (qs @ [m])"
proof (induction qs arbitrary: p)
  case (Cons q qs)
  show ?case
  proof (cases "qs = []")
    case True
    then show ?thesis using Cons.prems by auto
  next
    case False
    then have "q \<noteq> last qs" using Cons.prems(3) by auto
    then show ?thesis using Cons False by auto
  qed
qed simp

text \<open>The members of a link that the tables depend on.\<close>

definition link_static :: "s_link \<Rightarrow> nat \<times> nat \<times> u32 \<times> int \<times> addr" where
  "link_static L = (id_l L, port_l L, ip_l L, socket_l L, same_port_next L)"

lemma put_link_fields [simp]:
  "clists_s (put_link p L s) = clists_s s" "msgid_s (put_link p L s) = msgid_s s" "pLinkIDArray (put_link p L s) = pLinkIDArray s"
  "pLinkPortArray (put_link p L s) = pLinkPortArray s" "links (put_link p L s) = (links s)(p \<mapsto> L)" "ids_s (put_link p L s) = ids_s s"
  "list_s (put_link p L s) = list_s s" "listFreeHead (put_link p L s) = listFreeHead s"
  "listIDAllocationHead (put_link p L s) = listIDAllocationHead s" "stIDListAllocation (put_link p L s) = stIDListAllocation s"
  "socket_s (put_link p L s) = socket_s s" "sock_lists (put_link p L s) = sock_lists s" "semLink (put_link p L s) = semLink s"
  "linkState_s (put_link p L s) = linkState_s s"
  by (simp_all add: put_link_def list_s_def listFreeHead_def listIDAllocationHead_def stIDListAllocation_def sock_lists_def fun_eq_iff)

lemma put_link_wf:
  assumes "sock_wf rep node sts ls fs free ch" "links sts p = Some L" "link_static L' = link_static L" "link_typed L'" "linkState L' \<noteq> -1"
  shows "sock_wf rep node (put_link p L' sts) ls fs free ch"
proof -
  have st: "id_l L' = id_l L" "port_l L' = port_l L" "ip_l L' = ip_l L" "socket_l L' = socket_l L" "same_port_next L' = same_port_next L"
    using assms(3) by (simp_all add: link_static_def)
  have the: "ip_l (the (((links sts)(p \<mapsto> L')) q)) = ip_l (the (links sts q))" "port_l (the (((links sts)(p \<mapsto> L')) q)) = port_l (the (links sts q))"
    "id_l (the (((links sts)(p \<mapsto> L')) q)) = id_l (the (links sts q))" for q
    using assms(2) st by (cases "q = p"; simp)+
  have "link_row (put_link p L' sts) ch q" if "link_row sts ch q" for q
    using that st assms(2,4,5) by (cases "q = p") (auto simp: link_row_def)
  moreover have "port_row (put_link p L' sts) ls ch i" if "port_row sts ls ch i" for i
    using that unfolding port_row_def put_link_fields the port_chain_same_next[of "links sts" p, OF assms(2) st(5)] .
  moreover have "id_row (put_link p L' sts) ls free i" if "id_row sts ls free i" for i
    using that unfolding id_row_def put_link_fields the .
  ultimately show ?thesis using assms(1) by (auto simp: sock_wf_def)
qed

text \<open>Other members of the socket do not matter.\<close>

definition sock_table :: "'h st_sock \<Rightarrow> _" where
  "sock_table s = (addr_s s, clists_s s, msgid_s s, pLinkIDArray s, pLinkPortArray s, links s, ids_s s, socket_s s)"

lemma sock_wf_cong:
  assumes "sock_table s = sock_table t"
  shows "sock_wf rep node s ls fs free ch = sock_wf rep node t ls fs free ch"
proof -
  have e: "addr_s s = addr_s t" "clists_s s = clists_s t" "msgid_s s = msgid_s t" "pLinkIDArray s = pLinkIDArray t"
    "pLinkPortArray s = pLinkPortArray t" "links s = links t" "ids_s s = ids_s t" "socket_s s = socket_s t"
    using assms by (simp_all add: sock_table_def)
  have "list_s s = list_s t" "listFreeHead s = listFreeHead t" "listIDAllocationHead s = listIDAllocationHead t"
    "stIDListAllocation s = stIDListAllocation t"
    by (simp_all add: list_s_def listFreeHead_def listIDAllocationHead_def stIDListAllocation_def e fun_eq_iff)
  moreover from this have "sock_lists s = sock_lists t" by (simp add: sock_lists_def fun_eq_iff)
  ultimately show ?thesis unfolding sock_wf_def link_row_def port_row_def id_row_def by (simp only: e)
qed

section \<open>Handlers keep what the tables depend on\<close>

lemma lack_ack_loop_static: "lack_ack_loop L chk b off n out = Some (L', ds) \<Longrightarrow> link_static L' = link_static L"
proof (induction L chk b off n out rule: lack_ack_loop.induct)
  case (2 L chk b off n out)
  then show ?case by (fastforce simp: link_static_def split: if_splits)
qed simp

lemma static_kept:
  "UserDataRecv C sts L pa = Some (v, sts', L') \<Longrightarrow> msgid_s sts = -1 \<Longrightarrow> link_static L' = link_static L \<and> sts' = sts"
  "SeqCheckAck C sts L pa = Some (v, sts', L', ds) \<Longrightarrow> msgid_s sts = -1 \<Longrightarrow> link_static L' = link_static L \<and> sts' = sts"
  "SeqLackAck L pa = Some (v, L', ds) \<Longrightarrow> link_static L' = link_static L"
  "fresh_recv q L = Some L' \<Longrightarrow> link_static L' = link_static L"
  "SeqReportAck now L pa = (v, L') \<Longrightarrow> link_static L' = link_static L"
proof -
  show "UserDataRecv C sts L pa = Some (v, sts', L') \<Longrightarrow> msgid_s sts = -1 \<Longrightarrow> link_static L' = link_static L \<and> sts' = sts"
    by (auto simp: link_static_def UserDataRecv_def Let_def split: if_splits)
  show "SeqCheckAck C sts L pa = Some (v, sts', L', ds) \<Longrightarrow> msgid_s sts = -1 \<Longrightarrow> link_static L' = link_static L \<and> sts' = sts"
    by (auto simp: link_static_def SeqCheckAck_def Let_def split: if_splits)
  show "fresh_recv q L = Some L' \<Longrightarrow> link_static L' = link_static L"
    by (auto simp: link_static_def fresh_recv_def)
  show "SeqReportAck now L pa = (v, L') \<Longrightarrow> link_static L' = link_static L"
    by (auto simp: SeqReportAck_def Let_def link_static_def split: if_splits)
  show "SeqLackAck L pa = Some (v, L', ds) \<Longrightarrow> link_static L' = link_static L"
    by (auto simp: SeqLackAck_def Let_def dest!: lack_ack_loop_static split: if_splits) (simp_all add: link_static_def)
qed

lemma recv_syn_static: "recv_syn L pa = Some (L', ds) \<Longrightarrow> link_static L' = link_static L"
  by (auto simp: recv_syn_def Let_def dest!: static_kept(4) split: if_splits) (simp_all add: link_static_def)

lemma recv_syn_ack_static:
  "recv_syn_ack cf sts L pa = Some (sts', L', ds) \<Longrightarrow>
     link_static L' = link_static L \<and> (sts' = sts \<or> sts' = sts\<lparr>semListen := semListen sts + 1\<rparr>)"
  by (auto simp: recv_syn_ack_def Let_def dest!: static_kept(4) split: if_splits) (simp_all add: link_static_def)

lemma recv_switch_static:
  assumes "recv_switch C cf now sts L pa = Some (sts', L', ds)" "msgid_s sts = -1"
  shows "link_static L' = link_static L \<and> (sts' = sts \<or> sts' = sts\<lparr>semListen := semListen sts + 1\<rparr>)"
  using assms unfolding recv_switch_def Let_def
  by (auto split: if_splits prod.splits dest!: static_kept recv_syn_static recv_syn_ack_static) (simp_all add: link_static_def)

lemma recv_packet_static:
  assumes "recv_packet C cf now sts L pa = Some (sts', L', ds)" "msgid_s sts = -1"
  shows "link_static L' = link_static L" "sts' = sts \<or> sts' = sts\<lparr>semListen := semListen sts + 1\<rparr>"
proof -
  obtain L0 where L0: "link_static L0 = link_static L" "recv_switch C cf now sts L0 pa = Some (sts', L', ds)"
    using assms(1) unfolding recv_packet_def
    by (auto simp: Let_def dest!: static_kept(4) split: if_splits intro!: that[rotated]) (simp_all add: link_static_def)
  show "link_static L' = link_static L" "sts' = sts \<or> sts' = sts\<lparr>semListen := semListen sts + 1\<rparr>"
    using recv_switch_static[OF L0(2) assms(2)] L0(1) by auto
qed

section \<open>Finding a link\<close>

lemma find_known:
  assumes "port_chain (links sts) p qs" "q \<in> set qs" "ip_l (the (links sts q)) = ip"
    "distinct (map (\<lambda>p. ip_l (the (links sts p))) qs)"
  shows "find_port C now m ip port ty p sts = Some (q, sts)"
  using assms
proof (induction qs arbitrary: p)
  case (Cons a qs)
  then obtain L where L: "p = a" "links sts a = Some L" "port_chain (links sts) (same_port_next L) qs" by auto
  show ?case
  proof (cases "q = a")
    case True
    then show ?thesis using L Cons.prems(3) by (subst find_port.simps) simp
  next
    case False
    then have q: "q \<in> set qs" using Cons.prems(2) by simp
    then have "ip_l L \<noteq> ip" using Cons.prems(3,4) L(2) by (force simp: rev_image_eqI)
    moreover have "same_port_next L \<noteq> NULL" using L(3) q by (cases qs) auto
    ultimately show ?thesis using L Cons.IH[OF L(3) q Cons.prems(3)] Cons.prems(4) by (subst find_port.simps) simp
  qed
qed simp

lemma find_unknown:
  assumes "port_chain (links sts) p qs" "qs \<noteq> []" "\<forall>q \<in> set qs. ip_l (the (links sts q)) \<noteq> ip"
  shows "\<exists>L. links sts (last qs) = Some L \<and> find_port C now m ip port ty p sts =
    make_link C now m ip port ty (\<lambda>sts. Some (put_link (last qs) (L\<lparr>same_port_next := m\<rparr>) sts)) sts"
  using assms
proof (induction qs arbitrary: p)
  case (Cons a qs)
  then obtain L where L: "p = a" "links sts a = Some L" "port_chain (links sts) (same_port_next L) qs" "ip_l L \<noteq> ip" by auto
  show ?case
  proof (cases "qs = []")
    case True
    then show ?thesis using L by (subst find_port.simps) simp
  next
    case False
    then have "same_port_next L \<noteq> NULL" using L(3) by (cases qs) auto
    then show ?thesis using L False Cons.IH[OF L(3) False] Cons.prems(3) by (subst find_port.simps) simp
  qed
qed simp

section \<open>A new link\<close>

lemma new_link_static:
  "\<exists>L. init_link now sts i (CREATE_LINK ip port sts') = Some L \<and> link_typed L \<and> linkState L = 0 \<and> link_static L = (i, port, ip, socket_s sts', NULL)"
proof -
  obtain L where L: "init_link now sts i (CREATE_LINK ip port sts') = Some L" "at_start 0 L"
    by (simp add: init_link_def CREATE_LINK_def zero_link_def first_seq_start at_start_def)
  moreover from L(1) have "link_static L = (i, port, ip, socket_s sts', NULL)"
    by (auto simp: init_link_def CREATE_LINK_def zero_link_def first_seq_start link_static_def)
  ultimately show ?thesis using at_start_typed by (auto simp: at_start_def)
qed

context clist_laws
begin

lemma add_list_new:
  assumes "rep (clists_s sts) (sock_lists sts ls fs (i # free))" "links sts m = Some (CREATE_LINK ip port sts')"
    "node (clists_s sts) m" "m \<notin> occupied (sock_lists sts ls fs (i # free))" "ids_s sts (stIDListAllocation sts i) = Some i"
    "i < length (pLinkIDArray sts)"
  shows "\<exists>h L. add_list C now m sts = Some (EX_UDP_OK, (put_link m L sts)\<lparr>clists_s := h, pLinkIDArray := (pLinkIDArray sts)[i := m],
      semAccept := semAccept sts + 1, semListen := semListen sts + 1\<rparr>) \<and>
    rep h (sock_lists sts (ls @ [m]) fs free) \<and> node h = node (clists_s sts) \<and> link_typed L \<and> linkState L = 0 \<and> link_static L = (i, port, ip, socket_s sts', NULL)"
proof -
  let ?R = "sock_lists sts ls fs (i # free)" and ?n = "stIDListAllocation sts i"
  have al: "?R (listIDAllocationHead sts) = Some ([] @ ?n # map (stIDListAllocation sts) free)" by (simp add: sock_lists_at)
  obtain h1 where h1: "cl_erase C ?n (clists_s sts) = Some h1" "rep h1 (sock_lists sts ls fs free)" "node h1 = node (clists_s sts)"
    using erase_rep[OF assms(1) al] by (auto simp: sock_lists_put(3)[of sts ls fs "i # free" free, simplified])
  have "m \<notin> occupied (sock_lists sts ls fs free)" using assms(4) by (auto simp: sock_lists_occupied)
  then obtain h2 where h2: "cl_push_back C (list_s sts) m h1 = Some h2" "rep h2 (sock_lists sts (ls @ [m]) fs free)" "node h2 = node h1"
    using push_back_rep[OF h1(2) sock_lists_at(1), of m] assms(3) h1(3) by (auto simp: sock_lists_put)
  obtain L where L: "init_link now sts i (CREATE_LINK ip port sts') = Some L" "link_typed L" "linkState L = 0" "link_static L = (i, port, ip, socket_s sts', NULL)"
    using new_link_static by blast
  have "cl_empty C (listIDAllocationHead sts) (clists_s sts) = Some False" "cl_begin C (listIDAllocationHead sts) (clists_s sts) = Some ?n"
    using empty_rep[OF assms(1) al] begin_rep[OF assms(1) al] by simp_all
  then have "add_list C now m sts = Some (EX_UDP_OK, (put_link m L sts)\<lparr>clists_s := h2, pLinkIDArray := (pLinkIDArray sts)[i := m],
      semAccept := semAccept sts + 1, semListen := semListen sts + 1\<rparr>)"
    using h1(1) h2(1) assms(2,5,6) L(1) by (simp add: add_list_def Let_def put_link_def list_s_def)
  then show ?thesis using h1(3) h2 L by auto
qed

lemma add_list_full:
  assumes "rep (clists_s sts) (sock_lists sts ls fs [])"
  shows "add_list C now m sts = Some (EX_UDP_ERROR, sts\<lparr>links := (links sts)(m := None)\<rparr>)"
  using empty_rep[OF assms sock_lists_at(3)] by (simp add: add_list_def)

end

text \<open>The tables with the link \<open>m\<close> under the new id \<open>i\<close>, at the end of the chain of its port.\<close>

definition fresh_link :: "('h \<Rightarrow> addr \<Rightarrow> bool) \<Rightarrow> 'h st_sock \<Rightarrow> addr \<Rightarrow> bool" where
  "fresh_link node sts m \<longleftrightarrow> m \<noteq> NULL \<and> links sts m = None \<and> node (clists_s sts) m \<and>
     m \<notin> {list_s sts, listFreeHead sts, listIDAllocationHead sts} \<union> stIDListAllocation sts ` {..MAX_LINK_COUNT}"

definition tables_with :: "'h st_sock \<Rightarrow> addr list \<Rightarrow> addr \<Rightarrow> s_link \<Rightarrow> 'h st_sock \<Rightarrow> bool" where
  "tables_with sts qs m M sts' \<longleftrightarrow> addr_s sts' = addr_s sts \<and> msgid_s sts' = msgid_s sts \<and> ids_s sts' = ids_s sts \<and> socket_s sts' = socket_s sts \<and>
     pLinkIDArray sts' = (pLinkIDArray sts)[id_l M := m] \<and>
     (if qs = [] then pLinkPortArray sts' = (pLinkPortArray sts)[port_l M := m] \<and> links sts' = (links sts)(m \<mapsto> M)
      else pLinkPortArray sts' = pLinkPortArray sts \<and>
        links sts' = (links sts)(last qs \<mapsto> (the (links sts (last qs)))\<lparr>same_port_next := m\<rparr>, m \<mapsto> M))"

lemma heads_same:
  assumes "addr_s s = addr_s t"
  shows "list_s s = list_s t" "listFreeHead s = listFreeHead t" "listIDAllocationHead s = listIDAllocationHead t"
    "stIDListAllocation s = stIDListAllocation t" "sock_lists s = sock_lists t"
  using assms by (simp_all add: list_s_def listFreeHead_def listIDAllocationHead_def stIDListAllocation_def sock_lists_def fun_eq_iff)

lemma link_typed_next: "link_typed (L\<lparr>same_port_next := q\<rparr>) = link_typed L"
  by (simp add: link_typed_def window_typed_def)

lemma tables_with_chain:
  assumes "tables_with sts qs m M sts'" "port_chain (links sts) (pLinkPortArray sts ! j) (ch j)" "m \<notin> set (ch j)" "m \<noteq> NULL"
    "port_l M < length (pLinkPortArray sts)" "same_port_next M = NULL"
    "if j = port_l M then qs = ch j \<and> distinct qs else qs = [] \<or> last qs \<notin> set (ch j)"
  shows "port_chain (links sts') (pLinkPortArray sts' ! j) (if j = port_l M then ch j @ [m] else ch j)"
proof (cases "j = port_l M")
  case True
  then have q: "qs = ch j" "distinct qs" using assms(7) by auto
  show ?thesis
  proof (cases "qs = []")
    case True
    then show ?thesis using assms q \<open>j = port_l M\<close> by (auto simp: tables_with_def)
  next
    case False
    then have "last qs \<in> set (ch j)" using q by auto
    then obtain L where L: "links sts (last qs) = Some L" using port_chain_nodes[OF assms(2)] by auto
    have "port_chain (links sts') (pLinkPortArray sts ! j) (ch j @ [m])"
      by (rule port_chain_append[OF assms(2), where L = L and M = M]) (use assms q False L in \<open>auto simp: tables_with_def\<close>)
    then show ?thesis using assms(1) False \<open>j = port_l M\<close> by (simp add: tables_with_def)
  qed
next
  case False
  then show ?thesis using assms by (auto simp: tables_with_def port_chain_upd split: if_splits)
qed

lemma tables_with_port_row:
  assumes row: "port_row sts ls ch j" and pr: "port_row sts ls ch port" and m: "m \<notin> set ls" "m \<noteq> NULL"
    and tw: "tables_with sts (ch port) m M sts'" and len: "port < length (pLinkPortArray sts)" and lm: "links sts' m = Some M"
    and M: "id_l M = i" "port_l M = port" "ip_l M = ip" "socket_l M = so" "same_port_next M = NULL"
    and new: "\<forall>q \<in> set (ch port). ip_l (the (links sts q)) \<noteq> ip"
    and same: "\<And>p. p \<in> set ls \<Longrightarrow> ip_l (the (links sts' p)) = ip_l (the (links sts p))"
      "\<And>p. p \<in> set ls \<Longrightarrow> port_l (the (links sts' p)) = port_l (the (links sts p))"
  shows "port_row sts' (ls @ [m]) (ch(port := ch port @ [m])) j"
proof -
  let ?ch = "ch(port := ch port @ [m])" and ?qs = "ch port"
  have qls: "set ?qs \<subseteq> set ls" using pr by (auto simp: port_row_def)
  have chj: "set (ch j) \<subseteq> set ls" "\<forall>p \<in> set (ch j). port_l (the (links sts p)) = j" using row by (auto simp: port_row_def)
  have ips: "map (\<lambda>p. ip_l (the (links sts' p))) (ch j) = map (\<lambda>p. ip_l (the (links sts p))) (ch j)"
    using chj(1) same(1) by auto
  have "last ?qs \<in> set ?qs" if "?qs \<noteq> []" using that by simp
  then have "?qs = [] \<or> last ?qs \<notin> set (ch j)" if "j \<noteq> port"
    using pr chj(2) that unfolding port_row_def by metis
  moreover have "distinct ?qs" using pr unfolding port_row_def by (simp add: distinct_map)
  ultimately have c: "if j = port_l M then ?qs = ch j \<and> distinct ?qs else ?qs = [] \<or> last ?qs \<notin> set (ch j)" using M(2) by simp
  have a: "port_chain (links sts) (pLinkPortArray sts ! j) (ch j)" "m \<notin> set (ch j)" "port_l M < length (pLinkPortArray sts)"
    using row chj(1) m(1) len M(2) by (auto simp: port_row_def)
  have "port_chain (links sts') (pLinkPortArray sts' ! j) (?ch j)"
    using tables_with_chain[of sts ?qs m M sts' j ch, OF tw a(1,2) m(2) a(3) M(5) c] M(2) by (simp split: if_splits)
  moreover have "distinct (map (\<lambda>p. ip_l (the (links sts' p))) (ch j))" unfolding ips using row by (simp add: port_row_def)
  moreover have "\<forall>q \<in> set ?qs. ip_l (the (links sts' q)) \<noteq> ip" using new same(1) qls by (metis subsetD)
  ultimately show ?thesis using chj same(2) lm M by (auto simp: port_row_def)
qed

lemma tables_with_wf:
  assumes "sock_wf rep node sts ls fs (i # free) ch" "m \<notin> set ls" "links sts m = None" "m \<noteq> NULL" "m \<notin> stIDListAllocation sts ` {..MAX_LINK_COUNT}"
    "tables_with sts (ch port) m M sts'" "link_static M = (i, port, ip, socket_s sts, NULL)" "link_typed M" "port < 65535"
    "\<forall>q \<in> set (ch port). ip_l (the (links sts q)) \<noteq> ip"
    "rep (clists_s sts') (sock_lists sts (ls @ [m]) fs free)" "node (clists_s sts') = node (clists_s sts)" "node (clists_s sts) m" "linkState M \<noteq> -1"
  shows "sock_wf rep node sts' (ls @ [m]) fs free (ch(port := ch port @ [m]))"
proof -
  let ?ch = "ch(port := ch port @ [m])" and ?qs = "ch port"
  note wf = sock_wfD[OF assms(1)]
  have tw: "addr_s sts' = addr_s sts" "msgid_s sts' = msgid_s sts" "ids_s sts' = ids_s sts" "socket_s sts' = socket_s sts"
    "pLinkIDArray sts' = (pLinkIDArray sts)[i := m]"
    using assms(6,7) by (auto simp: tables_with_def link_static_def)
  note hs = heads_same[OF tw(1)]
  have M: "id_l M = i" "port_l M = port" "ip_l M = ip" "socket_l M = socket_s sts" "same_port_next M = NULL"
    using assms(7) by (simp_all add: link_static_def)
  have pr: "port_row sts ls ch port" using wf(9) assms(9) by blast
  then have qls: "set ?qs \<subseteq> set ls" by (auto simp: port_row_def)
  have lm: "links sts' m = Some M" using assms(6) by (auto simp: tables_with_def split: if_splits)
  have lo: "\<exists>L'. links sts' p = Some L' \<and> link_typed L' = link_typed L \<and> id_l L' = id_l L \<and> port_l L' = port_l L \<and> ip_l L' = ip_l L \<and>
      socket_l L' = socket_l L \<and> linkState L' = linkState L \<and> (p \<noteq> last ?qs \<or> ?qs = [] \<longrightarrow> L' = L)" if "links sts p = Some L" for p L
    using that assms(3,6) by (cases "p = m"; cases "p = last ?qs") (auto simp: tables_with_def link_typed_next split: if_splits)
  have i: "i \<le> MAX_LINK_COUNT" "pLinkIDArray sts ! i = NULL" using wf(5) wf(10)[of i] by (auto simp: id_row_def)
  have same: "ip_l (the (links sts' p)) = ip_l (the (links sts p))" "port_l (the (links sts' p)) = port_l (the (links sts p))"
    "id_l (the (links sts' p)) = id_l (the (links sts p))" if p: "p \<in> set ls" for p
    using wf(7)[OF p] lo by (fastforce simp: link_row_def)+
  have "link_row sts' ?ch p" if p: "p \<in> set ls" for p
  proof -
    obtain L where L: "links sts p = Some L" "p \<noteq> NULL" "id_l L \<le> MAX_LINK_COUNT" "pLinkIDArray sts ! id_l L = p" "port_l L < 65535"
      "p \<in> set (ch (port_l L))" "socket_l L = socket_s sts" "link_typed L" "linkState L \<noteq> -1" using wf(7)[OF p] by (auto simp: link_row_def)
    then have "id_l L \<noteq> i" using i(2) by auto
    moreover obtain L' where "links sts' p = Some L'" "link_typed L' = link_typed L" "id_l L' = id_l L" "port_l L' = port_l L"
      "socket_l L' = socket_l L" "linkState L' = linkState L" using lo[OF L(1)] by blast
    ultimately show ?thesis using L tw(4,5) unfolding link_row_def by (intro exI[of _ L']) auto
  qed
  moreover have "link_row sts' ?ch m" using lm M assms(4,8,9,14) i(1) tw(4,5) wf(3) by (simp add: link_row_def)
  moreover have "\<forall>p \<in> set fs. links sts' p \<noteq> None" using wf(8) lo by fastforce
  moreover have "port_row sts' (ls @ [m]) ?ch j" if j: "j < 65535" for j
    by (rule tables_with_port_row[OF wf(9)[OF j] pr assms(2,4,6) _ lm M assms(10)]) (use assms(9) wf(4) same in auto)
  moreover have "id_row sts' (ls @ [m]) free j" if j: "j \<le> MAX_LINK_COUNT" for j
  proof (cases "j = i")
    case True
    then show ?thesis using wf(3,6) wf(10)[OF j] i lm M tw(3,5) hs(4) by (auto simp: id_row_def)
  next
    case False
    then show ?thesis using wf(10)[OF j] same(3) tw(3,5) hs(4) by (auto simp: id_row_def)
  qed
  moreover have "length (pLinkPortArray sts') = 65535" using assms(6) wf(4) by (simp add: tables_with_def split: if_splits)
  ultimately show ?thesis using wf assms(5,11-13) tw unfolding sock_wf_def hs by auto
qed

lemma fresh_not_listed:
  assumes "sock_wf rep node sts ls fs free ch" "fresh_link node sts m"
  shows "m \<notin> set ls" "m \<notin> set fs" "m \<notin> occupied (sock_lists sts ls fs free)"
proof -
  show "m \<notin> set ls" "m \<notin> set fs" using sock_wfD(7,8)[OF assms(1), of m] assms(2) by (auto simp: fresh_link_def link_row_def)
  then show "m \<notin> occupied (sock_lists sts ls fs free)"
    using assms(2) sock_wfD(5)[OF assms(1)] by (auto simp: sock_lists_occupied fresh_link_def)
qed

text \<open>The address of the new link, stored at the end of the chain of its port.\<close>

definition stored :: "addr list \<Rightarrow> nat \<Rightarrow> addr \<Rightarrow> 'h st_sock \<Rightarrow> 'h st_sock" where
  "stored qs port m sts = (if qs = [] then sts\<lparr>pLinkPortArray := (pLinkPortArray sts)[port := m]\<rparr>
     else put_link (last qs) ((the (links sts (last qs)))\<lparr>same_port_next := m\<rparr>) sts)"

lemma stored_fields [simp]:
  "clists_s (stored qs port m s) = clists_s s" "semLink (stored qs port m s) = semLink s" "linkState_s (stored qs port m s) = linkState_s s"
  "pLinkIDArray (stored qs port m s) = pLinkIDArray s" "addr_s (stored qs port m s) = addr_s s"
  "socket_s (stored qs port m s) = socket_s s" "ids_s (stored qs port m s) = ids_s s" "msgid_s (stored qs port m s) = msgid_s s"
  by (simp_all add: stored_def put_link_def)

lemma stored_tables:
  "link_static M = (i, port, ip, so, n) \<Longrightarrow>
   tables_with s qs m M ((put_link m M (put_link m N (stored qs port m s)))\<lparr>clists_s := h, pLinkIDArray := (pLinkIDArray s)[i := m],
      semAccept := x, semListen := y\<rparr>)"
  by (auto simp: tables_with_def stored_def put_link_def link_static_def)

lemma get_link_make:
  assumes "sock_wf rep node sts ls fs free ch" "port < 65535" "\<forall>q \<in> set (ch port). ip_l (the (links sts q)) \<noteq> ip"
  shows "\<exists>store. get_link C now m ip port ty sts = make_link C now m ip port ty store sts \<and>
    store sts = Some (stored (ch port) port m sts)"
proof -
  have c: "port_chain (links sts) (pLinkPortArray sts ! port) (ch port)" "port < length (pLinkPortArray sts)"
    using sock_wfD(4,9)[OF assms(1)] assms(2) by (auto simp: port_row_def)
  show ?thesis
  proof (cases "ch port = []")
    case True
    then show ?thesis using c by (auto simp: get_link_def at_def stored_def)
  next
    case False
    then have "pLinkPortArray sts ! port \<noteq> NULL" using c(1) by (cases "ch port") auto
    then show ?thesis using find_unknown[OF c(1) False assms(3), of C now m port ty] c(2) False
      by (auto simp: get_link_def at_def stored_def)
  qed
qed

context clist_laws
begin

lemma get_link_new:
  assumes wf: "sock_wf rep node sts ls fs (i # free) ch" and fresh: "fresh_link node sts m" and port: "port < 65535"
    and unknown: "\<forall>q \<in> set (ch port). ip_l (the (links sts q)) \<noteq> ip"
    and ty: "ty = LINK_SYN \<or> ty = LINK_SYN_ACK" and up: "semLink sts > 0" "linkState_s sts = 1"
  shows "\<exists>sts'. get_link C now m ip port ty sts = Some (m, sts') \<and>
    sock_wf rep node sts' (ls @ [m]) fs free (ch(port := ch port @ [m])) \<and> semLink sts' = semLink sts \<and> linkState_s sts' = 1 \<and>
    ip_l (the (links sts' m)) = ip"
proof -
  obtain store where g: "get_link C now m ip port ty sts = make_link C now m ip port ty store sts" "store sts = Some (stored (ch port) port m sts)"
    using get_link_make[OF wf port unknown] by blast
  let ?s1 = "stored (ch port) port m sts" let ?s = "put_link m (CREATE_LINK ip port ?s1) ?s1"
  note w = sock_wfD[OF wf] and hs = heads_same[of ?s sts]
  have ad: "addr_s ?s = addr_s sts" by (simp add: put_link_def)
  have m: "m \<noteq> NULL" "m \<notin> occupied (sock_lists sts ls fs (i # free))" "node (clists_s sts) m" "links sts m = None"
    "m \<notin> stIDListAllocation sts ` {..MAX_LINK_COUNT}"
    using fresh fresh_not_listed(3)[OF wf fresh] by (auto simp: fresh_link_def)
  have i: "ids_s sts (stIDListAllocation sts i) = Some i" "i < length (pLinkIDArray sts)"
    using w(5) w(10)[of i] w(3) by (auto simp: id_row_def)
  have "\<exists>h L. add_list C now m ?s = Some (EX_UDP_OK, (put_link m L ?s)\<lparr>clists_s := h, pLinkIDArray := (pLinkIDArray ?s)[i := m],
      semAccept := semAccept ?s + 1, semListen := semListen ?s + 1\<rparr>) \<and>
    rep h (sock_lists ?s (ls @ [m]) fs free) \<and> node h = node (clists_s ?s) \<and> link_typed L \<and> linkState L = 0 \<and> link_static L = (i, port, ip, socket_s ?s1, NULL)"
    by (rule add_list_new) (use w(1) m i hs[OF ad] in simp_all)
  then obtain h M where a: "add_list C now m ?s = Some (EX_UDP_OK, (put_link m M ?s)\<lparr>clists_s := h, pLinkIDArray := (pLinkIDArray sts)[i := m],
      semAccept := semAccept ?s + 1, semListen := semListen ?s + 1\<rparr>)" (is "_ = Some (_, ?t)")
    "rep h (sock_lists sts (ls @ [m]) fs free)" "node h = node (clists_s sts)" "link_typed M" "link_static M = (i, port, ip, socket_s sts, NULL)" "linkState M \<noteq> -1"
    using hs[OF ad] by auto
  have tw: "tables_with sts (ch port) m M ?t" by (rule stored_tables[OF a(5)])
  have "sock_wf rep node ?t (ls @ [m]) fs free (ch(port := ch port @ [m]))"
    by (rule tables_with_wf[OF wf fresh_not_listed(1)[OF wf fresh] m(4,1,5) tw a(5,4) port unknown]) (use a(2,3,6) m(3) in simp_all)
  moreover have "get_link C now m ip port ty sts = Some (m, ?t)" "semLink ?t = semLink sts" "linkState_s ?t = 1" "ip_l (the (links ?t m)) = ip"
    using g a(1,5) ty up m(1) by (auto simp: make_link_def EX_UDP_OK_def EX_UDP_ERROR_def put_link_def link_static_def)
  ultimately show ?thesis by blast
qed

lemma get_link_known:
  assumes "sock_wf rep node sts ls fs free ch" "port < 65535" "q \<in> set (ch port)" "ip_l (the (links sts q)) = ip"
  shows "get_link C now m ip port ty sts = Some (q, sts)"
proof -
  have r: "port_row sts ls ch port" "port < length (pLinkPortArray sts)" using sock_wfD(4,9)[OF assms(1)] assms(2) by auto
  then have "pLinkPortArray sts ! port \<noteq> NULL" using assms(3) by (cases "ch port") (auto simp: port_row_def)
  then show ?thesis using find_known[of sts "pLinkPortArray sts ! port" "ch port" q ip] r assms(3,4)
    by (simp add: get_link_def at_def port_row_def)
qed

end

section \<open>A deleted link\<close>

lemma port_chain_remove:
  assumes "port_chain lk q (xs @ p # bs)" "distinct (xs @ p # bs)" "xs \<noteq> []" "lk (last xs) = Some A" "lk p = Some P"
  shows "port_chain (lk(last xs \<mapsto> A\<lparr>same_port_next := same_port_next P\<rparr>)) q (xs @ bs)"
  using assms
proof (induction xs arbitrary: q)
  case (Cons a xs)
  show ?case
  proof (cases "xs = []")
    case True
    then have "port_chain lk (same_port_next P) bs" "a \<notin> set bs" using Cons.prems by auto
    then have "port_chain (lk(a \<mapsto> A\<lparr>same_port_next := same_port_next P\<rparr>)) (same_port_next P) bs" by (simp add: port_chain_upd)
    then show ?thesis using True Cons.prems by (auto simp del: fun_upd_apply simp: fun_upd_same)
  next
    case False
    then have "a \<noteq> last xs" using Cons.prems(2) by auto
    then show ?thesis using Cons False by auto
  qed
qed simp

lemma unlink_port_spec:
  assumes "port_chain (links sts) q (xs @ p # bs)" "xs \<noteq> []" "links sts p = Some P" "socket_l P = sock"
    "\<forall>x \<in> set (tl xs). ip_l (the (links sts x)) \<noteq> ip_l P"
  shows "\<exists>A. links sts (last xs) = Some A \<and>
    unlink_port (ip_l P) sock q sts = Some (put_link (last xs) (A\<lparr>same_port_next := same_port_next P\<rparr>) sts)"
  using assms
proof (induction xs arbitrary: q)
  case step: (Cons a xs)
  then obtain A where A: "q = a" "links sts a = Some A" "port_chain (links sts) (same_port_next A) (xs @ p # bs)" by auto
  then have ne: "same_port_next A \<noteq> NULL" by (cases xs) auto
  show ?case
  proof (cases xs)
    case Nil
    then have "same_port_next A = p" using A(3) by simp
    then show ?thesis using A ne step.prems(3,4) Nil by (subst unlink_port.simps) simp
  next
    case (Cons b ys)
    then obtain B where B: "same_port_next A = b" "links sts b = Some B" using A(3) by auto
    have "ip_l B \<noteq> ip_l P" using Cons B(2) step.prems(5) by simp
    then show ?thesis using step.IH[OF A(3) _ step.prems(3,4)] step.prems(5) A(1,2) B ne Cons by (subst unlink_port.simps) simp
  qed
qed simp

text \<open>The tables without the link \<open>p\<close>, which goes to the deleted ones as \<open>P'\<close>.\<close>

definition tables_without :: "'h st_sock \<Rightarrow> addr list \<Rightarrow> addr \<Rightarrow> s_link \<Rightarrow> s_link \<Rightarrow> 'h st_sock \<Rightarrow> bool" where
  "tables_without sts xs p P P' sts' \<longleftrightarrow> addr_s sts' = addr_s sts \<and> msgid_s sts' = msgid_s sts \<and> ids_s sts' = ids_s sts \<and> socket_s sts' = socket_s sts \<and>
     pLinkIDArray sts' = (pLinkIDArray sts)[id_l P := NULL] \<and>
     (if xs = [] then pLinkPortArray sts' = (pLinkPortArray sts)[port_l P := same_port_next P] \<and> links sts' = (links sts)(p \<mapsto> P')
      else pLinkPortArray sts' = pLinkPortArray sts \<and>
        links sts' = (links sts)(last xs \<mapsto> (the (links sts (last xs)))\<lparr>same_port_next := same_port_next P\<rparr>, p \<mapsto> P'))"

lemma tables_without_chain:
  assumes "tables_without sts xs p P P' sts'" "port_chain (links sts) (pLinkPortArray sts ! j) (ch j)" "links sts p = Some P"
    "port_l P < length (pLinkPortArray sts)"
    "if j = port_l P then ch j = xs @ p # bs \<and> distinct (ch j) else p \<notin> set (ch j) \<and> (xs = [] \<or> last xs \<notin> set (ch j))"
  shows "port_chain (links sts') (pLinkPortArray sts' ! j) (if j = port_l P then xs @ bs else ch j)"
proof (cases "j = port_l P")
  case True
  then have c: "ch j = xs @ p # bs" "distinct (xs @ p # bs)" using assms(5) by auto
  show ?thesis
  proof (cases "xs = []")
    case True
    then show ?thesis using assms(1-4) c \<open>j = port_l P\<close> by (auto simp: tables_without_def port_chain_upd)
  next
    case False
    then have "last xs \<in> set (ch j)" using c by auto
    then obtain A where A: "links sts (last xs) = Some A" using port_chain_nodes[OF assms(2)] by auto
    have "port_chain ((links sts)(last xs \<mapsto> A\<lparr>same_port_next := same_port_next P\<rparr>)) (pLinkPortArray sts ! j) (xs @ bs)"
      by (rule port_chain_remove[OF _ c(2) False A assms(3)]) (use assms(2) c(1) in simp)
    then show ?thesis using assms(1) c(2) A False \<open>j = port_l P\<close> by (auto simp: tables_without_def port_chain_upd)
  qed
next
  case False
  then show ?thesis using assms by (auto simp: tables_without_def port_chain_upd split: if_splits)
qed

lemma tables_without_links:
  assumes "tables_without sts xs p P P' sts'" "links sts q = Some L" "q \<noteq> p"
  shows "\<exists>L'. links sts' q = Some L' \<and> link_typed L' = link_typed L \<and> id_l L' = id_l L \<and> port_l L' = port_l L \<and> ip_l L' = ip_l L \<and>
    socket_l L' = socket_l L \<and> linkState L' = linkState L"
  using assms by (cases "q = last xs") (auto simp: tables_without_def link_typed_next split: if_splits)

lemma tables_without_port_row:
  assumes row: "port_row sts (as @ p # cs) ch j" and pr: "port_row sts (as @ p # cs) ch (port_l P)" and P: "links sts p = Some P"
    and ch: "ch (port_l P) = xs @ p # bs" and tw: "tables_without sts xs p P P' sts'" and len: "port_l P < length (pLinkPortArray sts)"
    and same: "\<And>q. q \<in> set (as @ p # cs) \<Longrightarrow> q \<noteq> p \<Longrightarrow> ip_l (the (links sts' q)) = ip_l (the (links sts q))"
      "\<And>q. q \<in> set (as @ p # cs) \<Longrightarrow> q \<noteq> p \<Longrightarrow> port_l (the (links sts' q)) = port_l (the (links sts q))"
  shows "port_row sts' (as @ cs) (ch(port_l P := xs @ bs)) j"
proof -
  let ?ch = "ch(port_l P := xs @ bs)" and ?ls = "as @ p # cs"
  have dch: "distinct (xs @ p # bs)" using pr ch unfolding port_row_def by (metis distinct_map)
  have chj: "set (ch j) \<subseteq> set ?ls" "\<forall>q \<in> set (ch j). port_l (the (links sts q)) = j" using row by (auto simp: port_row_def)
  have sub: "set (?ch j) \<subseteq> set (ch j) - {p}" using ch dch chj(2) P by auto
  have "last xs \<in> set (xs @ p # bs)" if "xs \<noteq> []" using that by simp
  then have "p \<notin> set (ch j) \<and> (xs = [] \<or> last xs \<notin> set (ch j))" if "j \<noteq> port_l P"
    using pr ch chj(2) P that unfolding port_row_def by (metis option.sel)
  then have c: "if j = port_l P then ch j = xs @ p # bs \<and> distinct (ch j) else p \<notin> set (ch j) \<and> (xs = [] \<or> last xs \<notin> set (ch j))"
    using ch dch by simp
  have "port_chain (links sts) (pLinkPortArray sts ! j) (ch j)" using row by (simp add: port_row_def)
  from tables_without_chain[of sts xs p P P' sts' j ch bs, OF tw this P _ c]
  have "port_chain (links sts') (pLinkPortArray sts' ! j) (?ch j)" using len by (simp split: if_splits)
  moreover have "distinct (map (\<lambda>q. ip_l (the (links sts' q))) (?ch j))"
  proof -
    have "map (\<lambda>q. ip_l (the (links sts' q))) (?ch j) = map (\<lambda>q. ip_l (the (links sts q))) (?ch j)"
      by (rule map_cong[OF refl]) (use sub chj(1) same(1) in blast)
    moreover have "distinct (map (\<lambda>q. ip_l (the (links sts q))) (?ch j))"
      using row ch by (cases "j = port_l P") (simp_all add: port_row_def)
    ultimately show ?thesis by (simp only:)
  qed
  moreover have "q \<in> set (as @ cs) \<and> port_l (the (links sts' q)) = j" if q: "q \<in> set (?ch j)" for q
  proof -
    have "q \<in> set ?ls" "q \<noteq> p" "port_l (the (links sts q)) = j" using q sub chj by blast+
    then show ?thesis using same(2)[of q] by auto
  qed
  ultimately show ?thesis by (simp add: port_row_def)
qed

lemma tables_without_wf:
  assumes wf: "sock_wf rep node sts (as @ p # cs) fs free ch" and dist: "distinct (as @ p # cs)" and P: "links sts p = Some P"
    and ch: "ch (port_l P) = xs @ p # bs" and tw: "tables_without sts xs p P P' sts'"
    and h: "rep (clists_s sts') (sock_lists sts (as @ cs) (fs @ [p]) (free @ [id_l P]))" "node (clists_s sts') = node (clists_s sts)"
  shows "sock_wf rep node sts' (as @ cs) (fs @ [p]) (free @ [id_l P]) (ch(port_l P := xs @ bs))"
proof -
  let ?ch = "ch(port_l P := xs @ bs)" and ?ls = "as @ p # cs"
  note w = sock_wfD[OF wf]
  have t: "addr_s sts' = addr_s sts" "msgid_s sts' = msgid_s sts" "ids_s sts' = ids_s sts" "socket_s sts' = socket_s sts"
    "pLinkIDArray sts' = (pLinkIDArray sts)[id_l P := NULL]" "length (pLinkPortArray sts') = 65535" "links sts' p = Some P'"
    using tw w(4) by (auto simp: tables_without_def split: if_splits)
  note hs = heads_same[OF t(1)] and lo = tables_without_links[OF tw]
  have row_p: "p \<noteq> NULL" "id_l P \<le> MAX_LINK_COUNT" "pLinkIDArray sts ! id_l P = p" "port_l P < 65535"
    using w(7)[of p] P by (auto simp: link_row_def)
  have idP: "id_l P \<notin> set free" using w(10)[OF row_p(2)] row_p(1,3) by (auto simp: id_row_def)
  have same: "ip_l (the (links sts' q)) = ip_l (the (links sts q))" "port_l (the (links sts' q)) = port_l (the (links sts q))"
    "id_l (the (links sts' q)) = id_l (the (links sts q))" if q: "q \<in> set ?ls" "q \<noteq> p" for q
    using w(7)[OF q(1)] lo[OF _ q(2)] by (fastforce simp: link_row_def)+
  have "link_row sts' ?ch q" if q: "q \<in> set (as @ cs)" for q
  proof -
    have qp: "q \<noteq> p" "q \<in> set ?ls" using q dist by auto
    obtain L where L: "links sts q = Some L" "q \<noteq> NULL" "id_l L \<le> MAX_LINK_COUNT" "pLinkIDArray sts ! id_l L = q" "port_l L < 65535"
      "q \<in> set (ch (port_l L))" "socket_l L = socket_s sts" "link_typed L" "linkState L \<noteq> -1" using w(7)[OF qp(2)] by (auto simp: link_row_def)
    then have "id_l L \<noteq> id_l P" using row_p(3) qp(1) by auto
    moreover obtain L' where "links sts' q = Some L'" "link_typed L' = link_typed L" "id_l L' = id_l L" "port_l L' = port_l L"
      "socket_l L' = socket_l L" "linkState L' = linkState L" using lo[OF L(1) qp(1)] by blast
    ultimately show ?thesis using L t(4,5) qp(1) ch unfolding link_row_def by (intro exI[of _ L']) auto
  qed
  moreover have "links sts' q \<noteq> None" if q: "q \<in> set (fs @ [p])" for q
    using q t(7) w(8)[of q] lo[of q] by (cases "q = p") auto
  moreover have "port_row sts' (as @ cs) ?ch j" if j: "j < 65535" for j
    by (rule tables_without_port_row[OF w(9)[OF j] w(9)[OF row_p(4)] P ch tw]) (use row_p(4) w(4) same in auto)
  moreover have "id_row sts' (as @ cs) (free @ [id_l P]) j" if j: "j \<le> MAX_LINK_COUNT" for j
  proof (cases "j = id_l P")
    case True
    then show ?thesis using w(3) w(10)[OF j] t(3,5) hs(4) row_p(2) by (simp add: id_row_def)
  next
    case False
    let ?q = "pLinkIDArray sts ! j"
    have "?q \<in> set (as @ cs) \<and> id_l (the (links sts' ?q)) = j" if nf: "j \<notin> set free"
    proof -
      have q: "?q \<in> set ?ls" "id_l (the (links sts ?q)) = j" using w(10)[OF j] nf by (auto simp: id_row_def)
      then have "?q \<noteq> p" using P False by auto
      then show ?thesis using same(3)[OF q(1)] q by auto
    qed
    then show ?thesis using w(10)[OF j] False t(3,5) hs(4) by (simp add: id_row_def)
  qed
  ultimately show ?thesis using w t h idP row_p(2) unfolding sock_wf_def hs by auto
qed

text \<open>Taking the link out of the chain of its port, as \<open>del_list\<close> does it.\<close>

definition unchain :: "addr list \<Rightarrow> s_link \<Rightarrow> 'h st_sock \<Rightarrow> 'h st_sock" where
  "unchain xs P sts = (if xs = [] then sts\<lparr>pLinkPortArray := (pLinkPortArray sts)[port_l P := same_port_next P]\<rparr>
     else put_link (last xs) ((the (links sts (last xs)))\<lparr>same_port_next := same_port_next P\<rparr>) sts)"

lemma unchain_fields [simp]:
  "clists_s (unchain xs P s) = clists_s s" "semLink (unchain xs P s) = semLink s" "addr_s (unchain xs P s) = addr_s s"
  "semListen (unchain xs P s) = semListen s" "linkState_s (unchain xs P s) = linkState_s s"
  by (simp_all add: unchain_def put_link_def)

lemma unchain_spec:
  assumes "port_chain (links sts) q (xs @ p # bs)" "links sts p = Some P" "socket_l P = socket_s sts"
    "distinct (map (\<lambda>p. ip_l (the (links sts p))) (xs @ p # bs))" "distinct (xs @ p # bs)"
  shows "port_unlink P q sts = Some (unchain xs P sts)" "links (unchain xs P sts) p = Some P" "q \<noteq> NULL"
proof -
  show "links (unchain xs P sts) p = Some P" using assms(2,5) by (cases "xs = []") (auto simp: unchain_def put_link_def)
  show ne: "q \<noteq> NULL" using assms(1) by (cases xs) auto
  have ips: "\<forall>x \<in> set xs. ip_l (the (links sts x)) \<noteq> ip_l P" using assms(2,4) by (auto simp: rev_image_eqI)
  show "port_unlink P q sts = Some (unchain xs P sts)"
  proof (cases xs)
    case Nil
    then show ?thesis using assms ne by (auto simp: unchain_def port_unlink_def)
  next
    case (Cons a ys)
    then obtain A where "q = a" "links sts a = Some A" "ip_l A \<noteq> ip_l P" using assms(1) ips by auto
    moreover obtain B where "links sts (last xs) = Some B"
      "unlink_port (ip_l P) (socket_s sts) q sts = Some (put_link (last xs) (B\<lparr>same_port_next := same_port_next P\<rparr>) sts)"
      using unlink_port_spec[OF assms(1) _ assms(2,3)] ips Cons by auto
    ultimately show ?thesis using Cons ne by (simp add: unchain_def port_unlink_def)
  qed
qed

lemma unchain_tables:
  "tables_without s xs p P P' ((put_link p P' (unchain xs P (s\<lparr>pLinkIDArray := (pLinkIDArray s)[id_l P := NULL], nextListenLink := n, clists_s := h1\<rparr>)))
     \<lparr>clists_s := h2, semListen := y\<rparr>)"
  by (auto simp: tables_without_def unchain_def put_link_def)

lemma del_list_eq:
  assumes "links sts p = Some P" "id_l P \<le> MAX_LINK_COUNT" "length (pLinkIDArray sts) = Suc MAX_LINK_COUNT" "pLinkIDArray sts ! id_l P \<noteq> NULL"
    "msgid_s sts = -1" "cl_next C p (clists_s sts) = Some n" "cl_erase C p (clists_s sts) = Some h1"
    "port_l P < length (pLinkPortArray sts)" "pLinkPortArray sts ! port_l P = q"
    "cl_push_back C (listFreeHead sts) p h1 = Some h2"
    "cl_push_back C (listIDAllocationHead sts) (stIDListAllocation sts (id_l P)) h2 = Some h3"
  defines "s1 \<equiv> sts\<lparr>pLinkIDArray := (pLinkIDArray sts)[id_l P := NULL], nextListenLink := n, clists_s := h1\<rparr>"
  assumes "port_unlink P q s1 = Some (unchain xs P s1)" "links (unchain xs P s1) p = Some P"
  shows "\<exists>d. del_list C now p sts = Some (EX_UDP_OK, (put_link p (P\<lparr>semSendList := semSendList P + 1, semRecvList := semRecvList P + 1,
      semSendListMutex := semSendListMutex P + 1, semRecvListMutex := semRecvListMutex P + 1, timeoutFree := now, linkState := -1\<rparr>) (unchain xs P s1))
      \<lparr>clists_s := h3, semListen := semListen sts + 1\<rparr>, [d]) \<and> type_h (fst d) = LINK_FIN"
proof -
  have hs: "listFreeHead (unchain xs P s1) = listFreeHead sts" "listIDAllocationHead (unchain xs P s1) = listIDAllocationHead sts"
    "stIDListAllocation (unchain xs P s1) = stIDListAllocation sts" "clists_s (unchain xs P s1) = h1" "semListen (unchain xs P s1) = semListen sts"
    "semListen (put_link p L s) = semListen s" for L and s :: "'a st_sock"
    using heads_same[of "unchain xs P s1" sts] by (simp_all add: s1_def put_link_def)
  have "links s1 = links sts" by (simp add: s1_def)
  then show ?thesis using assms(1-11,13,14) hs unfolding del_list_def Let_def s1_def[symmetric]
    by (simp add: at_def SendMsg_head s1_def[symmetric])
qed

context clist_laws
begin

lemma move_to_free:
  assumes "rep h (sock_lists sts (as @ p # cs) fs free)" "node h p" "node h (stIDListAllocation sts i)"
    "stIDListAllocation sts i \<notin> occupied (sock_lists sts (as @ p # cs) fs free)"
  shows "\<exists>n h1 h2 h3. cl_next C p h = Some n \<and> cl_erase C p h = Some h1 \<and> cl_push_back C (listFreeHead sts) p h1 = Some h2 \<and>
    cl_push_back C (listIDAllocationHead sts) (stIDListAllocation sts i) h2 = Some h3 \<and>
    rep h3 (sock_lists sts (as @ cs) (fs @ [p]) (free @ [i])) \<and> node h3 = node h"
proof -
  let ?R = "sock_lists sts (as @ p # cs) fs free" and ?R1 = "sock_lists sts (as @ cs) fs free"
  let ?R2 = "sock_lists sts (as @ cs) (fs @ [p]) free"
  obtain h1 where h1: "cl_erase C p h = Some h1" "rep h1 ?R1" "node h1 = node h"
    using erase_rep[OF assms(1) sock_lists_at(1)] by (auto simp: sock_lists_put)
  have "p \<noteq> list_s sts \<and> p \<notin> set (as @ cs)" using rep_distinct[OF assms(1) sock_lists_at(1)] by auto
  moreover have "p \<noteq> listFreeHead sts \<and> p \<notin> set fs" "p \<noteq> listIDAllocationHead sts \<and> p \<notin> stIDListAllocation sts ` set free"
    using rep_apart[OF assms(1) sock_lists_at(1) sock_lists_at(2)] rep_apart[OF assms(1) sock_lists_at(1) sock_lists_at(3)] heads_apart[of sts] by auto
  ultimately have "p \<notin> occupied ?R1" by (auto simp: sock_lists_occupied)
  then obtain h2 where h2: "cl_push_back C (listFreeHead sts) p h1 = Some h2" "rep h2 ?R2" "node h2 = node h1"
    using push_back_rep[OF h1(2) sock_lists_at(2), of p] assms(2) h1(3) by (auto simp: sock_lists_put)
  have "stIDListAllocation sts i \<notin> occupied ?R2" using assms(4) by (auto simp: sock_lists_occupied)
  then obtain h3 where h3: "cl_push_back C (listIDAllocationHead sts) (stIDListAllocation sts i) h2 = Some h3"
    "rep h3 (?R2(listIDAllocationHead sts \<mapsto> map (stIDListAllocation sts) free @ [stIDListAllocation sts i]))" "node h3 = node h2"
    using push_back_rep[OF h2(2) sock_lists_at(3), of "stIDListAllocation sts i"] assms(3) h1(3) h2(3) by auto
  have "rep h3 (sock_lists sts (as @ cs) (fs @ [p]) (free @ [i]))"
    using h3(2) sock_lists_put(3)[of sts "as @ cs" "fs @ [p]" free "free @ [i]"] by simp
  then show ?thesis using h1 h2 h3 next_rep[OF assms(1) sock_lists_at(1)] by auto
qed

lemma del_list_wf:
  assumes wf: "sock_wf rep node sts ls fs free ch" and p: "p \<in> set ls"
  shows "\<exists>sts' P P' as cs xs bs d. del_list C now p sts = Some (EX_UDP_OK, sts', [d]) \<and> ls = as @ p # cs \<and> links sts p = Some P \<and>
    ch (port_l P) = xs @ p # bs \<and> sock_wf rep node sts' (as @ cs) (fs @ [p]) (free @ [id_l P]) (ch(port_l P := xs @ bs)) \<and>
    links sts' p = Some P' \<and> linkState P' = -1 \<and> semLink sts' = semLink sts \<and> linkState_s sts' = linkState_s sts \<and> type_h (fst d) = LINK_FIN \<and>
    addr_s sts' = addr_s sts \<and> (\<forall>q \<in> set (xs @ bs). ip_l (the (links sts' q)) = ip_l (the (links sts q)))"
proof -
  note w = sock_wfD[OF wf]
  obtain P where P: "links sts p = Some P" "p \<noteq> NULL" "id_l P \<le> MAX_LINK_COUNT" "pLinkIDArray sts ! id_l P = p" "port_l P < 65535"
    "p \<in> set (ch (port_l P))" "socket_l P = socket_s sts" using w(7)[OF p] by (auto simp: link_row_def)
  obtain as cs where ls: "ls = as @ p # cs" using p by (meson split_list)
  obtain xs bs where ch: "ch (port_l P) = xs @ p # bs" using P(6) by (meson split_list)
  have idf: "id_l P \<notin> set free" using w(10)[OF P(3)] P(2,4) by (auto simp: id_row_def)
  then have "stIDListAllocation sts (id_l P) \<notin> stIDListAllocation sts ` set free"
    using idnode_inj[of sts "id_l P"] P(3) w(5) by auto
  then have idn: "stIDListAllocation sts (id_l P) \<notin> occupied (sock_lists sts (as @ p # cs) fs free)"
    using w(12)[OF P(3)] ls by (auto simp: sock_lists_occupied)
  obtain n h1 h2 h3 where h: "cl_next C p (clists_s sts) = Some n" "cl_erase C p (clists_s sts) = Some h1"
    "cl_push_back C (listFreeHead sts) p h1 = Some h2" "cl_push_back C (listIDAllocationHead sts) (stIDListAllocation sts (id_l P)) h2 = Some h3"
    "rep h3 (sock_lists sts (as @ cs) (fs @ [p]) (free @ [id_l P]))" "node h3 = node (clists_s sts)"
    using move_to_free[OF w(1)[unfolded ls] _ w(11)[OF P(3)] idn] w(13)[of p] p by auto
  let ?s = "sts\<lparr>pLinkIDArray := (pLinkIDArray sts)[id_l P := NULL], nextListenLink := n, clists_s := h1\<rparr>"
  let ?P = "P\<lparr>semSendList := semSendList P + 1, semRecvList := semRecvList P + 1, semSendListMutex := semSendListMutex P + 1,
    semRecvListMutex := semRecvListMutex P + 1, timeoutFree := now, linkState := -1\<rparr>"
  let ?t = "(put_link p ?P (unchain xs P ?s))\<lparr>clists_s := h3, semListen := semListen sts + 1\<rparr>"
  have pr: "port_row sts ls ch (port_l P)" by (rule w(9)[OF P(5)])
  have dist: "distinct (xs @ p # bs)" "distinct (as @ p # cs)"
    using pr ch rep_distinct[OF w(1) sock_lists_at(1)] ls unfolding port_row_def by (metis distinct_map, simp)
  have uc: "port_chain (links ?s) (pLinkPortArray ?s ! port_l P) (xs @ p # bs)" "links ?s p = Some P" "socket_l P = socket_s ?s"
    "distinct (map (\<lambda>p. ip_l (the (links ?s p))) (xs @ p # bs))" using pr ch P(1,7) by (simp_all add: port_row_def)
  note un = unchain_spec[OF uc dist(1)]
  have ne: "pLinkIDArray sts ! id_l P \<noteq> NULL" and len: "port_l P < length (pLinkPortArray sts)" using P(2,4,5) w(4) by auto
  obtain d where d: "del_list C now p sts = Some (EX_UDP_OK, ?t, [d])" "type_h (fst d) = LINK_FIN"
    using del_list_eq[OF P(1,3) w(3) ne w(2) h(1,2) len refl h(3,4) un(1)[simplified] un(2)[simplified], of now] by blast
  have t: "sock_wf rep node ?t (as @ cs) (fs @ [p]) (free @ [id_l P]) (ch(port_l P := xs @ bs))"
    by (rule tables_without_wf[OF wf[unfolded ls] dist(2) P(1) ch unchain_tables]) (use h(5,6) in simp_all)
  have "links ?t p = Some ?P" "linkState ?P = -1" "semLink ?t = semLink sts" "linkState_s ?t = linkState_s sts" "addr_s ?t = addr_s sts"
    by (simp_all add: put_link_def)
  moreover have "\<forall>q \<in> set (xs @ bs). ip_l (the (links ?t q)) = ip_l (the (links sts q))"
    using unchain_tables dist(1) by (auto simp: unchain_def put_link_def)
  ultimately show ?thesis using d t ls P(1) ch by metis
qed

end

end
