(* ===== verification/Udp_Threads.thy ===== *)
theory Udp_Threads
  imports Udp_Table
begin

text \<open>
  The threads of a socket on its tables: one turn of the receiving thread for any datagram and one turn
  of the listening thread return and keep the tables, from the socket that \<open>exSocket\<close> makes on.
\<close>

section \<open>Handlers leave a link in use\<close>

lemma lack_ack_loop_state: "lack_ack_loop L chk b off n out = Some (L', ds) \<Longrightarrow> linkState L' = linkState L"
proof (induction L chk b off n out rule: lack_ack_loop.induct)
  case (2 L chk b off n out)
  then show ?case by (fastforce split: if_splits)
qed simp

lemma state_kept:
  "UserDataRecv C sts L pa = Some (v, sts', L') \<Longrightarrow> linkState L' = linkState L"
  "SeqCheckAck C sts L pa = Some (v, sts', L', ds) \<Longrightarrow> linkState L' = linkState L"
  "SeqLackAck L pa = Some (v, L', ds) \<Longrightarrow> linkState L' = linkState L"
  "fresh_recv q L = Some L' \<Longrightarrow> linkState L' = linkState L"
  "SeqReportAck now L pa = (v, L') \<Longrightarrow> linkState L' = linkState L"
  "SeqCheck cf now sts L = Some (v, sts', L', ds) \<Longrightarrow> linkState L' = linkState L"
proof -
  show "UserDataRecv C sts L pa = Some (v, sts', L') \<Longrightarrow> linkState L' = linkState L"
    by (auto simp: UserDataRecv_def Let_def split: if_splits)
  show "SeqCheckAck C sts L pa = Some (v, sts', L', ds) \<Longrightarrow> linkState L' = linkState L"
    by (auto simp: SeqCheckAck_def Let_def split: if_splits)
  show "SeqLackAck L pa = Some (v, L', ds) \<Longrightarrow> linkState L' = linkState L"
    by (auto simp: SeqLackAck_def Let_def dest!: lack_ack_loop_state split: if_splits)
  show "fresh_recv q L = Some L' \<Longrightarrow> linkState L' = linkState L" by (auto simp: fresh_recv_def)
  show "SeqReportAck now L pa = (v, L') \<Longrightarrow> linkState L' = linkState L"
    by (auto simp: SeqReportAck_def Let_def split: if_splits)
  show "SeqCheck cf now sts L = Some (v, sts', L', ds) \<Longrightarrow> linkState L' = linkState L"
    by (auto simp: SeqCheck_def Let_def split: if_splits)
qed

lemma recv_syn_state: "recv_syn L pa = Some (L', ds) \<Longrightarrow> linkState L' = linkState L \<or> 0 \<le> linkState L'"
  by (auto simp: recv_syn_def Let_def dest!: state_kept(4) split: if_splits)

lemma recv_syn_ack_state:
  "recv_syn_ack cf sts L pa = Some (sts', L', ds) \<Longrightarrow> linkState L' = linkState L \<or> 0 \<le> linkState L'"
  by (auto simp: recv_syn_ack_def Let_def dest!: state_kept(4) split: if_splits)

lemma recv_switch_state:
  assumes "recv_switch C cf now sts L pa = Some (sts', L', ds)"
  shows "linkState L' = linkState L \<or> 0 \<le> linkState L'"
  using assms unfolding recv_switch_def Let_def
  by (auto split: if_splits prod.splits dest!: state_kept(1-5) recv_syn_state recv_syn_ack_state)

lemma recv_switch_alive:
  assumes "recv_switch C cf now sts L pa = Some (sts', L', ds)" "linkState L \<noteq> -1"
  shows "linkState L' \<noteq> -1"
  using recv_switch_state[OF assms(1)] assms(2) by auto

lemma recv_packet_alive:
  assumes "recv_packet C cf now sts L pa = Some (sts', L', ds)" "linkState L \<noteq> -1"
  shows "linkState L' \<noteq> -1"
proof -
  obtain L0 where "linkState L0 \<noteq> -1" "recv_switch C cf now sts L0 pa = Some (sts', L', ds)"
    using assms unfolding recv_packet_def
    by (auto simp: Let_def dest!: state_kept(4) split: if_splits intro!: that[rotated])
  then show ?thesis using recv_switch_alive by blast
qed

lemma SeqCheck_static:
  "SeqCheck cf now sts L = Some (v, sts', L', ds) \<Longrightarrow> link_static L' = link_static L \<and> sock_table sts' = sock_table sts \<and>
     semLink sts' = semLink sts \<and> linkState_s sts' = linkState_s sts"
  by (auto simp: SeqCheck_def Let_def link_static_def ctlIntervalTime_def sock_table_def split: if_splits)

lemma listen_link_static:
  assumes "listen_link cf now now' sts L = Some (Listened (sts', L', ds))" "linkState L \<noteq> -1"
  shows "link_static L' = link_static L" "linkState L' \<noteq> -1" "sock_table sts' = sock_table sts" "semLink sts' = semLink sts"
    "linkState_s sts' = linkState_s sts"
proof -
  obtain L0 v es where L0: "link_static L0 = link_static L" "linkState L0 = linkState L" "SeqCheck cf now' sts L0 = Some (v, sts', L', es)"
    using assms(1) unfolding listen_link_def Let_def
    by (auto split: if_splits intro!: that[rotated 2]) (simp_all add: link_static_def)
  show "link_static L' = link_static L" "linkState L' \<noteq> -1" "sock_table sts' = sock_table sts" "semLink sts' = semLink sts"
    "linkState_s sts' = linkState_s sts"
    using SeqCheck_static[OF L0(3)] state_kept(6)[OF L0(3)] L0(1,2) assms(2) by simp_all
qed

section \<open>One datagram\<close>

lemma put_link_table: "sock_table s = sock_table t \<Longrightarrow> sock_table (put_link p L s) = sock_table (put_link p L t)"
  by (simp add: sock_table_def put_link_def)

context clist_laws
begin

lemma recv_on_link:
  assumes wf: "sock_wf rep node sts ls fs free ch" and p: "p \<in> set ls" and pa: "packet_typed pa" "packet_ok pa"
  shows "\<exists>L sts1 L1 ds. links sts p = Some L \<and> recv_packet C cf now sts L pa = Some (sts1, L1, ds) \<and>
    sock_wf rep node (put_link p L1 sts1) ls fs free ch \<and> semLink sts1 = semLink sts \<and> linkState_s sts1 = linkState_s sts \<and> msgid_s sts1 = -1"
proof -
  obtain L where L: "links sts p = Some L" "link_typed L" "linkState L \<noteq> -1" using sock_wfD(7)[OF wf p] by (auto simp: link_row_def)
  have m: "msgid_s sts = -1" by (rule sock_wfD(2)[OF wf])
  obtain sts1 L1 ds where r: "recv_packet C cf now sts L pa = Some (sts1, L1, ds)" "link_typed L1"
    using recv_packet_total[OF L(2) pa m] by blast
  have "sock_wf rep node (put_link p L1 sts) ls fs free ch"
    by (rule put_link_wf[OF wf L(1) recv_packet_static(1)[OF r(1) m] r(2) recv_packet_alive[OF r(1) L(3)]])
  moreover have s1: "sts1 = sts \<or> sts1 = sts\<lparr>semListen := semListen sts + 1\<rparr>" by (rule recv_packet_static(2)[OF r(1) m])
  then have "sock_table sts1 = sock_table sts" by (auto simp: sock_table_def)
  ultimately have "sock_wf rep node (put_link p L1 sts1) ls fs free ch" using sock_wf_cong[OF put_link_table] by blast
  then show ?thesis using L(1) r(1) s1 m by auto
qed

lemma get_link_total:
  assumes wf: "sock_wf rep node sts ls fs free ch" and fresh: "fresh_link node sts m" and port: "port < 65535"
    and up: "semLink sts > 0" "linkState_s sts = 1" and ids: "free \<noteq> []"
  shows "\<exists>p sts' ls' free' ch'. get_link C now m ip port ty sts = Some (p, sts') \<and> sock_wf rep node sts' ls' fs free' ch' \<and>
    semLink sts' = semLink sts \<and> linkState_s sts' = 1 \<and> (p = NULL \<or> p \<in> set ls' \<and> p \<noteq> NULL)"
proof (cases "\<exists>q \<in> set (ch port). ip_l (the (links sts q)) = ip")
  case True
  then obtain q where q: "q \<in> set (ch port)" "ip_l (the (links sts q)) = ip" by blast
  then have "q \<in> set ls" using sock_wfD(9)[OF wf port] by (auto simp: port_row_def)
  then show ?thesis using get_link_known[OF wf port q] wf up(2) by blast
next
  case False
  then have new: "\<forall>q \<in> set (ch port). ip_l (the (links sts q)) \<noteq> ip" by blast
  obtain i free' where f: "free = i # free'" using ids by (cases free) auto
  show ?thesis
  proof (cases "ty = LINK_SYN \<or> ty = LINK_SYN_ACK")
    case True
    obtain sts' where "get_link C now m ip port ty sts = Some (m, sts')" "sock_wf rep node sts' (ls @ [m]) fs free' (ch(port := ch port @ [m]))"
      "semLink sts' = semLink sts" "linkState_s sts' = 1"
      using get_link_new[OF wf[unfolded f] fresh port new True up] by blast
    moreover have "m \<noteq> NULL" using fresh by (simp add: fresh_link_def)
    ultimately show ?thesis by fastforce
  next
    case False
    obtain store where "get_link C now m ip port ty sts = make_link C now m ip port ty store sts"
      using get_link_make[OF wf port new] by blast
    then have "get_link C now m ip port ty sts = Some (NULL, sts)" using False by (simp add: make_link_def)
    then show ?thesis using wf up(2) by blast
  qed
qed

lemma recv_turn_wf:
  assumes wf: "sock_wf rep node sts ls fs free ch" and fresh: "fresh_link node sts m" and port: "port < 65535"
    and up: "semLink sts > 0" "linkState_s sts = 1" and ids: "free \<noteq> []" and pa: "length (buf pa) = MAX_PACKET_DATA_SIZE"
  shows "\<exists>sts' ds ls' fs' free' ch'. thread_recv_turn C cf now m ret ip port pa sts = Some (True, sts', ds) \<and>
    sock_wf rep node sts' ls' fs' free' ch' \<and> semLink sts' = semLink sts \<and> linkState_s sts' = 1"
proof (cases "ret = -1 \<or> \<not> packet_ok (pa\<lparr>len_p := nat ret\<rparr>)")
  case True
  then show ?thesis using wf up by (intro exI[of _ sts]) (auto simp: thread_recv_turn_def Let_def)
next
  case ok: False
  let ?pa = "pa\<lparr>len_p := nat ret\<rparr>"
  obtain p s1 ls1 free1 ch1 where g: "get_link C now m ip port (type_h (head ?pa)) sts = Some (p, s1)"
    "sock_wf rep node s1 ls1 fs free1 ch1" "semLink s1 = semLink sts" "linkState_s s1 = 1" "p = NULL \<or> p \<in> set ls1 \<and> p \<noteq> NULL"
    using get_link_total[OF wf fresh port up ids] by blast
  show ?thesis
  proof (cases "p = NULL")
    case True
    then show ?thesis using ok g up(2) by (intro exI[of _ s1]) (auto simp: thread_recv_turn_def Let_def)
  next
    case False
    have "packet_typed ?pa" using pa ok by (auto simp: packet_typed_def packet_ok_def)
    then obtain L s2 L2 ds where r: "links s1 p = Some L" "recv_packet C cf now s1 L ?pa = Some (s2, L2, ds)"
      "sock_wf rep node (put_link p L2 s2) ls1 fs free1 ch1" "semLink s2 = semLink s1" "linkState_s s2 = linkState_s s1" "msgid_s s2 = -1"
      using recv_on_link[OF g(2), of p ?pa] g(5) False ok by blast
    show ?thesis
    proof (cases "type_h (head pa) = LINK_FIN")
      case True
      have "p \<in> set ls1" using g(5) False by blast
      then obtain s3 d where "del_list C now p (put_link p L2 s2) = Some (EX_UDP_OK, s3, [d])" "semLink s3 = semLink s2" "linkState_s s3 = linkState_s s2"
        "\<exists>ls' fs' free' ch'. sock_wf rep node s3 ls' fs' free' ch'"
        using del_list_wf[OF r(3)] by force
      then show ?thesis using ok g r False up True by (auto simp: thread_recv_turn_def Let_def unconnected_msg_def)
    next
      case nofin: False
      then show ?thesis using ok g r False up(2) by (auto simp: thread_recv_turn_def Let_def)
    qed
  qed
qed

end

end
