(* ===== verification/Udp_Run.thy ===== *)
theory Udp_Run
  imports Udp_Threads
begin

text \<open>
  The life of a socket: \<open>exSocket\<close> makes the tables, the turns of the receiving and of the listening thread
  follow each other in any order, \<open>exClose\<close> deletes what is left. The tables are well formed in every state on
  the way, and no turn faults or runs for ever.
\<close>

section \<open>Freeing deleted links\<close>

definition sock_free :: "addr \<Rightarrow> 'h \<Rightarrow> 'h st_sock \<Rightarrow> 'h st_sock" where
  "sock_free p h sts = sts\<lparr>clists_s := h, links := (links sts)(p := None)\<rparr>"

lemma sock_free_fields [simp]:
  "clists_s (sock_free p h s) = h" "msgid_s (sock_free p h s) = msgid_s s" "pLinkIDArray (sock_free p h s) = pLinkIDArray s"
  "pLinkPortArray (sock_free p h s) = pLinkPortArray s" "links (sock_free p h s) = (links s)(p := None)" "ids_s (sock_free p h s) = ids_s s"
  "list_s (sock_free p h s) = list_s s" "listFreeHead (sock_free p h s) = listFreeHead s"
  "listIDAllocationHead (sock_free p h s) = listIDAllocationHead s" "stIDListAllocation (sock_free p h s) = stIDListAllocation s"
  "socket_s (sock_free p h s) = socket_s s" "sock_lists (sock_free p h s) = sock_lists s" "semLink (sock_free p h s) = semLink s"
  "linkState_s (sock_free p h s) = linkState_s s"
  by (simp_all add: sock_free_def list_s_def listFreeHead_def listIDAllocationHead_def stIDListAllocation_def sock_lists_def fun_eq_iff)

lemma sock_free_wf:
  assumes wf: "sock_wf rep node sts ls (p # fs) free ch" and p: "p \<notin> set ls" "p \<notin> set fs"
    and h: "rep h (sock_lists sts ls fs free)" "node h = node (clists_s sts)"
  shows "sock_wf rep node (sock_free p h sts) ls fs free ch"
proof -
  note w = sock_wfD[OF wf]
  have "link_row (sock_free p h sts) ch q" if "q \<in> set ls" for q
    using w(7)[OF that] that p(1) by (auto simp: link_row_def)
  moreover have "port_row (sock_free p h sts) ls ch i" if "i < 65535" for i
  proof -
    have c: "p \<notin> set (ch i)" using w(9)[OF that] p(1) by (auto simp: port_row_def)
    have "distinct (map (\<lambda>q. ip_l (the (((links sts)(p := None)) q))) (ch i)) = distinct (map (\<lambda>q. ip_l (the (links sts q))) (ch i))"
      by (rule arg_cong[of _ _ distinct], rule map_cong) (use c in auto)
    then show ?thesis using w(9)[OF that] c unfolding port_row_def sock_free_fields by (auto simp: port_chain_upd)
  qed
  moreover have "id_row (sock_free p h sts) ls free i" if "i \<le> MAX_LINK_COUNT" for i
    using w(10)[OF that] p(1) by (auto simp: id_row_def)
  ultimately show ?thesis using w h p by (auto simp: sock_wf_def)
qed

context clist_laws
begin

lemma free_links_wf:
  assumes "sock_wf rep node sts ls fs free ch"
  shows "\<exists>sts' fs'. free_links C all sts = Some sts' \<and> sock_wf rep node sts' ls fs' free ch \<and>
    semLink sts' = semLink sts \<and> linkState_s sts' = linkState_s sts \<and> (all \<longrightarrow> fs' = [])"
  using assms
proof (induction fs arbitrary: sts)
  case Nil
  then show ?case using begin_rep[OF sock_wfD(1)[OF Nil] sock_lists_at(2)] end_rep[OF sock_wfD(1)[OF Nil] sock_lists_at(2)]
    by (subst free_links.simps) auto
next
  case (Cons p fs)
  note r = sock_wfD(1)[OF Cons.prems]
  have b: "cl_begin C (listFreeHead sts) (clists_s sts) = Some p" "cl_end C (listFreeHead sts) (clists_s sts) = Some (listFreeHead sts)"
    using begin_rep[OF r sock_lists_at(2)] end_rep[OF r sock_lists_at(2)] by simp_all
  have d: "p \<noteq> listFreeHead sts" "p \<notin> set fs" "p \<notin> set ls"
    using rep_distinct[OF r sock_lists_at(2)] rep_apart[OF r sock_lists_at(1) sock_lists_at(2)] heads_apart[of sts] by auto
  obtain P where P: "links sts p = Some P" using sock_wfD(8)[OF Cons.prems, of p] by auto
  obtain h where h: "cl_erase C p (clists_s sts) = Some h" "rep h (sock_lists sts ls fs free)" "node h = node (clists_s sts)"
    using erase_rep[OF r, of "listFreeHead sts" "[]" p fs] by (auto simp: sock_lists_at sock_lists_put)
  show ?case
  proof (cases "all \<or> GET_MS_DIFF (time_listen sts) (timeoutFree P) > FREE_MEM_INTERVAL")
    case True
    then have "free_links C all sts = free_links C all (sock_free p h sts)"
      using b d(1) P h(1) by (subst free_links.simps) (simp add: sock_free_def)
    then show ?thesis using Cons.IH[OF sock_free_wf[OF Cons.prems d(3,2) h(2,3)]] by simp
  next
    case False
    then show ?thesis using b d(1) P Cons.prems by (subst free_links.simps) auto
  qed
qed

lemma listen_walk_wf:
  assumes "sock_wf rep node sts (ps @ qs) fs free ch" "semLink sts > 0"
  shows "\<exists>sts' es ls' fs' free' ch'. listen_walk C cf now (hd (qs @ [list_s sts])) sts ds = Some (sts', ds @ es) \<and>
    sock_wf rep node sts' ls' fs' free' ch' \<and> semLink sts' = semLink sts \<and> linkState_s sts' = linkState_s sts"
  using assms
proof (induction qs arbitrary: sts ps fs free ch ds)
  case Nil
  then show ?case using end_rep[OF sock_wfD(1)[OF Nil(1)] sock_lists_at(1)] by (subst listen_walk.simps) auto
next
  case (Cons p qs)
  note wf = Cons.prems(1) and r = sock_wfD(1)[OF Cons.prems(1)]
  have e: "cl_end C (list_s sts) (clists_s sts) = Some (list_s sts)" "p \<noteq> list_s sts" "p \<noteq> listFreeHead sts"
    using end_rep[OF r sock_lists_at(1)] rep_distinct[OF r sock_lists_at(1)] rep_apart[OF r sock_lists_at(1,2)] heads_apart[of sts] by auto
  obtain L where L: "links sts p = Some L" "link_typed L" "linkState L \<noteq> -1" using sock_wfD(7)[OF wf, of p] by (auto simp: link_row_def)
  have n: "cl_next C p (clists_s sts) = Some (hd (qs @ [list_s sts]))" by (rule next_rep[OF r sock_lists_at(1)])
  consider "listen_link cf now now sts L = Some Expired" |
    s1 L1 d where "listen_link cf now now sts L = Some (Listened (s1, L1, d))" "link_typed L1" using listen_link_total[OF L(2)] by blast
  then show ?case
  proof cases
    case 1
    obtain s1 as cs d fs' free' ch' where d: "del_list C now p sts = Some (EX_UDP_OK, s1, [d])" "ps @ p # qs = as @ p # cs"
      "sock_wf rep node s1 (as @ cs) fs' free' ch'" "semLink s1 = semLink sts" "linkState_s s1 = linkState_s sts" "addr_s s1 = addr_s sts"
      using del_list_wf[OF wf, of p now] by force
    have "distinct (ps @ p # qs)" using rep_distinct[OF r sock_lists_at(1)] by simp
    then have "as = ps \<and> cs = qs" using d(2) append_Cons_eq_iff[of p ps qs as cs] by (metis distinct.simps(2) distinct_append not_distinct_conv_prefix)
    then have w: "sock_wf rep node s1 (ps @ qs) fs' free' ch'" using d(3) by simp
    have u: "unconnected_msg L sts = sts" using sock_wfD(2)[OF wf] by (simp add: unconnected_msg_def)
    have "listen_walk C cf now (hd ((p # qs) @ [list_s sts])) sts ds = listen_walk C cf now (hd (qs @ [list_s s1])) s1 (ds @ [d])"
      using e L 1 n d(1) Cons.prems(2) u heads_same(1)[OF d(6)] by (subst listen_walk.simps) simp
    then show ?thesis using Cons.IH[OF w, of "ds @ [d]"] d(4,5) Cons.prems(2) by fastforce
  next
    case 2
    note k = listen_link_static[OF 2(1) L(3)]
    have "sock_wf rep node (put_link p L1 sts) (ps @ p # qs) fs free ch" by (rule put_link_wf[OF wf L(1) k(1) 2(2) k(2)])
    then have w: "sock_wf rep node (put_link p L1 s1) ((ps @ [p]) @ qs) fs free ch" using sock_wf_cong[OF put_link_table[OF k(3)]] by simp
    have s: "list_s s1 = list_s sts" "clists_s s1 = clists_s sts" using k(3) by (simp_all add: sock_table_def list_s_def)
    have "listen_walk C cf now (hd ((p # qs) @ [list_s sts])) sts ds =
      listen_walk C cf now (hd (qs @ [list_s (put_link p L1 s1)])) (put_link p L1 s1) (ds @ d)"
      using e L 2 n s by (subst listen_walk.simps) simp
    then show ?thesis using Cons.IH[OF w, of "ds @ d"] k(4,5) Cons.prems(2) by fastforce
  qed
qed

lemma close_links_wf:
  assumes "sock_wf rep node sts ls fs free ch"
  shows "\<exists>sts' es fs' free' ch'. close_links C now sts ds = Some (sts', ds @ es) \<and> sock_wf rep node sts' [] fs' free' ch' \<and>
    length es = length ls \<and> (\<forall>d \<in> set es. type_h (fst d) = LINK_FIN) \<and> linkState_s sts' = linkState_s sts \<and> semLink sts' = semLink sts"
  using assms
proof (induction "length ls" arbitrary: sts ls fs free ch ds)
  case 0
  then show ?case using empty_rep[OF sock_wfD(1)[OF 0(2)] sock_lists_at(1)] by (subst close_links.simps) auto
next
  case (Suc n)
  then obtain p qs where ls: "ls = p # qs" by (cases ls) auto
  note wf = Suc.prems[unfolded ls] and r = sock_wfD(1)[OF Suc.prems[unfolded ls]]
  obtain s1 as cs d fs' free' ch' where d: "del_list C now p sts = Some (EX_UDP_OK, s1, [d])" "p # qs = as @ p # cs"
    "sock_wf rep node s1 (as @ cs) fs' free' ch'" "type_h (fst d) = LINK_FIN" "linkState_s s1 = linkState_s sts" "semLink s1 = semLink sts"
    using del_list_wf[OF wf, of p now] by force
  have l: "n = length (as @ cs)" "length ls = Suc (length (as @ cs))" using arg_cong[OF d(2), of length] Suc.hyps(2) ls by auto
  have "close_links C now sts ds = close_links C now s1 (ds @ [d])"
    using empty_rep[OF r sock_lists_at(1)] begin_rep[OF r sock_lists_at(1)] d(1) by (subst close_links.simps) simp
  then show ?case using Suc.hyps(1)[OF l(1) d(3), of "ds @ [d]"] d(4,5,6) l(2) by fastforce
qed

end

section \<open>A new socket\<close>

text \<open>The memory of list nodes has the places of the socket: the three heads and the nodes of the free ids.\<close>

definition sock_nodes :: "('h \<Rightarrow> addr \<Rightarrow> bool) \<Rightarrow> 'h st_sock \<Rightarrow> bool" where
  "sock_nodes node sts \<longleftrightarrow> list_all (node (clists_s sts))
     ([list_s sts, listFreeHead sts, listIDAllocationHead sts] @ map (stIDListAllocation sts) [0..<Suc MAX_LINK_COUNT])"

lemma idnode_apart:
  assumes "i \<le> MAX_LINK_COUNT"
  shows "stIDListAllocation sts i \<notin> {list_s sts, listFreeHead sts, listIDAllocationHead sts}"
proof -
  have u: "unat (of_nat (655648 + 24 * i) :: addr) = 655648 + 24 * i"
    using assms by (simp add: unat_of_nat MAX_LINK_COUNT_def del: of_nat_add of_nat_mult)
  have e: "stIDListAllocation sts i = addr_s sts + of_nat (655648 + 24 * i)"
    by (simp add: stIDListAllocation_def)
  have "stIDListAllocation sts i \<noteq> addr_s sts + c" if "unat c < 655648" for c
    using u that unfolding e by (metis add_left_cancel le_add1 not_le)
  from this[of 0] this[of 272] this[of 40] show ?thesis
    by (simp add: list_s_def listFreeHead_def listIDAllocationHead_def)
qed

lemma idnode_inj_on: "inj_on (stIDListAllocation sts) (set [0..<Suc MAX_LINK_COUNT])"
  by (rule inj_onI) (use idnode_inj in \<open>auto simp: less_Suc_eq_le simp del: upt_Suc\<close>)

lemma heads_occupied:
  "occupied [x \<mapsto> []] = {x}" "x \<noteq> y \<Longrightarrow> occupied [x \<mapsto> [], y \<mapsto> []] = {x, y}"
  by (auto simp: occupied_def split: if_splits)

context clist_laws
begin

lemma init_lists:
  assumes "sock_nodes node sts"
  shows "\<exists>h. init_ids C sts = Some (sts\<lparr>clists_s := h, ids_s := map_of (map (\<lambda>i. (stIDListAllocation sts i, i)) [0..<Suc MAX_LINK_COUNT])\<rparr>) \<and>
    rep h (sock_lists sts [] [] [0..<Suc MAX_LINK_COUNT]) \<and> node h = node (clists_s sts)"
proof -
  let ?l = "list_s sts" and ?f = "listFreeHead sts" and ?a = "listIDAllocationHead sts"
  let ?ns = "map (stIDListAllocation sts) [0..<Suc MAX_LINK_COUNT]"
  have n: "node (clists_s sts) ?l" "node (clists_s sts) ?f" "node (clists_s sts) ?a" "\<forall>x \<in> set ?ns. node (clists_s sts) x"
    using assms by (auto simp: sock_nodes_def list_all_iff)
  obtain h1 where h1: "cl_init C ?l (clists_s sts) = Some h1" "rep h1 [?l \<mapsto> []]" "node h1 = node (clists_s sts)"
    using init_rep[OF rep_empty n(1)] by (simp add: occupied_def) blast
  obtain h2 where h2: "cl_init C ?f h1 = Some h2" "rep h2 [?l \<mapsto> [], ?f \<mapsto> []]" "node h2 = node (clists_s sts)"
    using init_rep[OF h1(2), of ?f] n(2) h1(3) heads_apart[of sts] by (auto simp: heads_occupied simp del: fun_upd_apply)
  obtain h3 where h3: "cl_init C ?a h2 = Some h3" "rep h3 [?l \<mapsto> [], ?f \<mapsto> [], ?a \<mapsto> []]" "node h3 = node (clists_s sts)"
    using init_rep[OF h2(2), of ?a] n(3) h2(3) heads_apart[of sts] heads_occupied(2)[of ?l ?f] by (auto simp del: fun_upd_apply)
  have r3: "rep h3 (sock_lists sts [] [] [])" using h3(2) by (simp add: sock_lists_def)
  have "distinct ?ns" using idnode_inj_on by (simp add: distinct_map del: upt_Suc)
  moreover have "x \<notin> occupied (sock_lists sts [] [] [])" if "x \<in> set ?ns" for x
  proof -
    from that obtain i where "i \<le> MAX_LINK_COUNT" "x = stIDListAllocation sts i" by (auto simp: less_Suc_eq_le simp del: upt_Suc)
    then show ?thesis using idnode_apart[of i sts] by (simp add: sock_lists_occupied)
  qed
  then have "set ?ns \<inter> occupied (sock_lists sts [] [] []) = {}" by blast
  ultimately obtain h4 where h4: "foldM (cl_push_back C ?a) ?ns h3 = Some h4" "rep h4 ((sock_lists sts [] [] [])(?a \<mapsto> ?ns))" "node h4 = node h3"
    using push_back_all[OF r3, of ?a "[]" ?ns] n(4) h3(3) by (auto simp: sock_lists_at simp del: upt_Suc)
  have "rep h4 (sock_lists sts [] [] [0..<Suc MAX_LINK_COUNT])" using h4(2) by (simp only: sock_lists_put)
  then show ?thesis using h1(1) h2(1) h3(1,3) h4(1,3)
    by (intro exI[of _ h4]) (simp add: init_ids_def del: upt_Suc)
qed

end

lemma ids_of_nodes:
  assumes "i \<le> MAX_LINK_COUNT"
  shows "map_of (map (\<lambda>i. (stIDListAllocation sts i, i)) [0..<Suc MAX_LINK_COUNT]) (stIDListAllocation sts i) = Some i"
proof -
  have "distinct (map fst (map (\<lambda>i. (stIDListAllocation sts i, i)) [0..<Suc MAX_LINK_COUNT]))"
    using idnode_inj_on by (simp add: comp_def distinct_map del: upt_Suc)
  then show ?thesis by (rule map_of_is_SomeI) (use assms in \<open>auto simp del: upt_Suc\<close>)
qed

lemma new_sock_fields [simp]:
  "clists_s (new_sock a h sock ts) = h" "msgid_s (new_sock a h sock ts) = -1" "length (pLinkIDArray (new_sock a h sock ts)) = Suc MAX_LINK_COUNT"
  "length (pLinkPortArray (new_sock a h sock ts)) = 65535" "semLink (new_sock a h sock ts) = 1" "linkState_s (new_sock a h sock ts) = 1"
  by (simp_all add: new_sock_def)

context clist_laws
begin

lemma new_sock_wf:
  assumes nodes: "sock_nodes node (new_sock a h sock ts)"
  shows "\<exists>sts. init_ids C (new_sock a h sock ts) = Some sts \<and> sock_wf rep node sts [] [] [0..<Suc MAX_LINK_COUNT] (\<lambda>_. []) \<and>
    semLink sts = 1 \<and> linkState_s sts = 1"
proof -
  let ?s = "new_sock a h sock ts"
  let ?ids = "map_of (map (\<lambda>i. (stIDListAllocation ?s i, i)) [0..<Suc MAX_LINK_COUNT])"
  obtain h' where h': "init_ids C ?s = Some (?s\<lparr>clists_s := h', ids_s := ?ids\<rparr>)" (is "_ = Some ?t")
    "rep h' (sock_lists ?s [] [] [0..<Suc MAX_LINK_COUNT])" "node h' = node (clists_s ?s)" using init_lists[OF nodes] by blast
  have hs: "list_s ?t = list_s ?s" "listFreeHead ?t = listFreeHead ?s" "listIDAllocationHead ?t = listIDAllocationHead ?s"
    "stIDListAllocation ?t = stIDListAllocation ?s" "sock_lists ?t = sock_lists ?s" using heads_same[of ?t ?s] by auto
  have n: "node (clists_s ?s) (stIDListAllocation ?s i)" if "i \<le> MAX_LINK_COUNT" for i
    using nodes that by (auto simp: sock_nodes_def list_all_iff simp del: upt_Suc)
  have "id_row ?t [] [0..<Suc MAX_LINK_COUNT] i" if "i \<le> MAX_LINK_COUNT" for i
  proof -
    have "pLinkIDArray ?t ! i = NULL" "ids_s ?t = ?ids" using that by (simp_all add: new_sock_def nth_Cons' del: upt_Suc)
    then show ?thesis using ids_of_nodes[OF that, of ?s] that unfolding id_row_def hs by (simp del: upt_Suc)
  qed
  moreover have "port_row ?t [] (\<lambda>_. []) i" if "i < 65535" for i using that by (simp add: port_row_def new_sock_def)
  ultimately have "sock_wf rep node ?t [] [] [0..<Suc MAX_LINK_COUNT] (\<lambda>_. [])"
    using h'(2,3) n idnode_apart[of _ ?s] unfolding sock_wf_def hs by (auto simp: less_Suc_eq_le simp del: upt_Suc)
  then show ?thesis using h'(1) by auto
qed

end

section \<open>Reachable sockets\<close>

text \<open>
  A step is a turn of a thread. For the receiving thread \<open>m\<close> is the memory \<open>malloc\<close> would return for a
  new link; a turn is taken while an id is free and the datagram does not come from port 65535, for which
  \<open>pLinkPortArray\<close> has no entry.
\<close>

definition some_id_free :: "'h st_sock \<Rightarrow> bool" where
  "some_id_free sts \<longleftrightarrow> list_ex (\<lambda>p. p = NULL) (pLinkIDArray sts)"

inductive sock_reach :: "'h clist_ops \<Rightarrow> ('h \<Rightarrow> addr \<Rightarrow> bool) \<Rightarrow> udp_conf \<Rightarrow> 'h st_sock \<Rightarrow> bool" for C node cf where
  opened: "exSocket C port sock bound a h g = Some (sock, g') \<Longrightarrow> 0 \<le> sock \<Longrightarrow> g_pSock g' ! nat sock = Some sts \<Longrightarrow>
    sock_nodes node (new_sock a h sock (g_tsWaitTime g)) \<Longrightarrow> sock_reach C node cf sts"
| received: "sock_reach C node cf sts \<Longrightarrow> fresh_link node sts m \<Longrightarrow> port < 65535 \<Longrightarrow> some_id_free sts \<Longrightarrow>
    length (buf pa) = MAX_PACKET_DATA_SIZE \<Longrightarrow> thread_recv_turn C cf now m ret ip port pa sts = Some (go, sts', ds) \<Longrightarrow>
    sock_reach C node cf sts'"
| waited: "sock_reach C node cf sts \<Longrightarrow> thread_listen_wait C cf now sts = Some (w, sts') \<Longrightarrow> sock_reach C node cf sts'"
| listened: "sock_reach C node cf sts \<Longrightarrow> thread_listen_turn C cf now sts = Some (Some sts', ds) \<Longrightarrow> sock_reach C node cf sts'"

definition sock_inv :: "('h \<Rightarrow> (addr \<rightharpoonup> addr list) \<Rightarrow> bool) \<Rightarrow> ('h \<Rightarrow> addr \<Rightarrow> bool) \<Rightarrow> 'h st_sock \<Rightarrow> bool" where
  "sock_inv rep node sts \<longleftrightarrow> (\<exists>ls fs free ch. sock_wf rep node sts ls fs free ch) \<and> semLink sts > 0 \<and> linkState_s sts = 1"

lemma some_id_free_iff:
  assumes "sock_wf rep node sts ls fs free ch"
  shows "some_id_free sts \<longleftrightarrow> free \<noteq> []"
proof -
  have "pLinkIDArray sts ! i = NULL \<longleftrightarrow> i \<in> set free" if "i < length (pLinkIDArray sts)" for i
  proof -
    have i: "i \<le> MAX_LINK_COUNT" using that sock_wfD(3)[OF assms] by simp
    show ?thesis using sock_wfD(10)[OF assms i] sock_wfD(7)[OF assms, of "pLinkIDArray sts ! i"] by (auto simp: id_row_def link_row_def split: if_splits)
  qed
  moreover have "set free \<subseteq> {..<length (pLinkIDArray sts)}" using sock_wfD(3,5)[OF assms] by auto
  ultimately show ?thesis unfolding some_id_free_def list_ex_length by (metis last_in_set lessThan_iff list.set(1) empty_iff subsetD)
qed

context clist_laws
begin

lemma recv_turn_inv:
  assumes "sock_inv rep node sts" "fresh_link node sts m" "port < 65535" "some_id_free sts" "length (buf pa) = MAX_PACKET_DATA_SIZE"
  shows "\<exists>sts' ds. thread_recv_turn C cf now m ret ip port pa sts = Some (True, sts', ds) \<and> sock_inv rep node sts'"
proof -
  obtain ls fs free ch where wf: "sock_wf rep node sts ls fs free ch" and up: "semLink sts > 0" "linkState_s sts = 1"
    using assms(1) by (auto simp: sock_inv_def)
  show ?thesis using recv_turn_wf[OF wf assms(2,3) up _ assms(5), of cf now ret ip] some_id_free_iff[OF wf] assms(4) up by (fastforce simp: sock_inv_def)
qed

lemma wait_inv:
  assumes "sock_inv rep node sts"
  shows "\<exists>w sts'. thread_listen_wait C cf now sts = Some (w, sts') \<and> sock_inv rep node sts'"
proof -
  obtain ls fs free ch where wf: "sock_wf rep node sts ls fs free ch" and up: "semLink sts > 0" "linkState_s sts = 1"
    using assms(1) by (auto simp: sock_inv_def)
  let ?s = "sts\<lparr>time_listen := now\<rparr>"
  have wf': "sock_wf rep node ?s ls fs free ch" using wf sock_wf_cong[of ?s sts] by (simp add: sock_table_def)
  obtain s1 fs1 where f: "free_links C False ?s = Some s1" "sock_wf rep node s1 ls fs1 free ch" "semLink s1 = semLink sts" "linkState_s s1 = linkState_s sts"
    using free_links_wf[OF wf', of False] by auto
  have e: "cl_empty C (listFreeHead ?s) (clists_s ?s) = Some (fs = [])" "cl_empty C (list_s ?s) (clists_s ?s) = Some (ls = [])"
    using empty_rep[OF sock_wfD(1)[OF wf'] sock_lists_at(2)] empty_rep[OF sock_wfD(1)[OF wf'] sock_lists_at(1)] by simp_all
  have "sock_inv rep node s1" "sock_inv rep node ?s" using f(2-4) wf' up by (auto simp: sock_inv_def)
  then show ?thesis unfolding thread_listen_wait_def Let_def using e f(1) by simp
qed

lemma listen_inv:
  assumes "sock_inv rep node sts"
  shows "\<exists>sts' ds. thread_listen_turn C cf now sts = Some (Some sts', ds) \<and> sock_inv rep node sts'"
proof -
  obtain ls fs free ch where wf: "sock_wf rep node sts ([] @ ls) fs free ch" and up: "semLink sts > 0" "linkState_s sts = 1"
    using assms(1) by (auto simp: sock_inv_def)
  have "cl_begin C (list_s sts) (clists_s sts) = Some (hd (ls @ [list_s sts]))"
    using begin_rep[OF sock_wfD(1)[OF wf] sock_lists_at(1)] by simp
  then show ?thesis using listen_walk_wf[OF wf up(1), of cf now "[]"] up by (fastforce simp: thread_listen_turn_def sock_inv_def)
qed

lemma socket_reach_inv: "sock_reach C node cf sts \<Longrightarrow> sock_inv rep node sts"
proof (induction rule: sock_reach.induct)
  case (opened port sock bound a h g g' sts)
  obtain s where s: "init_ids C (new_sock a h sock (g_tsWaitTime g)) = Some s" "sock_wf rep node s [] [] [0..<Suc MAX_LINK_COUNT] (\<lambda>_. [])"
    "semLink s = 1" "linkState_s s = 1" using new_sock_wf[OF opened(4)] by blast
  have "sts = s" using opened(1-3) s(1) by (auto simp: exSocket_def Let_def EX_UDP_ERROR_def split: if_splits)
  then show ?case using s(2-4) unfolding sock_inv_def by auto
next
  case (received sts m port pa now ret ip go sts' ds)
  then show ?case using recv_turn_inv[of sts m port pa cf now ret ip] by auto
next
  case (waited sts now w sts')
  then show ?case using wait_inv[of sts cf now] by auto
next
  case (listened sts now sts' ds)
  then show ?case using listen_inv[of sts cf now] by auto
qed

lemma link_found:
  assumes "sock_wf rep node s ls fs free ch" "port < 65535" "p \<in> set (ch port)" "ip_l (the (links s p)) = ip"
  shows "\<exists>L. links s p = Some L \<and> p \<noteq> NULL \<and> ip_l L = ip \<and> port_l L = port \<and> pLinkIDArray s ! id_l L = p \<and>
    get_link C now m ip port ty s = Some (p, s) \<and> id_l L \<le> MAX_LINK_COUNT"
proof -
  have p: "p \<in> set ls" "port_l (the (links s p)) = port" using sock_wfD(9)[OF assms(1,2)] assms(3) by (auto simp: port_row_def)
  then show ?thesis using sock_wfD(7)[OF assms(1) p(1)] assms(4) get_link_known[OF assms] by (auto simp: link_row_def)
qed

lemma get_link_found:
  assumes "sock_inv rep node sts" "fresh_link node sts m" "port < 65535" "some_id_free sts"
  shows "\<exists>p s L. get_link C now m ip port LINK_SYN sts = Some (p, s) \<and> links s p = Some L \<and> p \<noteq> NULL \<and> ip_l L = ip \<and> port_l L = port \<and>
    pLinkIDArray s ! id_l L = p \<and> get_link C now' m' ip port ty s = Some (p, s) \<and> sock_inv rep node s \<and> id_l L \<le> MAX_LINK_COUNT"
proof -
  obtain ls fs free ch where wf: "sock_wf rep node sts ls fs free ch" and up: "semLink sts > 0" "linkState_s sts = 1"
    using assms(1) by (auto simp: sock_inv_def)
  show ?thesis
  proof (cases "\<exists>q \<in> set (ch port). ip_l (the (links sts q)) = ip")
    case True
    then obtain q where q: "q \<in> set (ch port)" "ip_l (the (links sts q)) = ip" by blast
    show ?thesis using link_found[OF wf assms(3) q, of now' m' ty] get_link_known[OF wf assms(3) q, of now m LINK_SYN] assms(1) by blast
  next
    case False
    obtain i free' where f: "free = i # free'" using some_id_free_iff[OF wf] assms(4) by (cases free) auto
    obtain s where s: "get_link C now m ip port LINK_SYN sts = Some (m, s)" "sock_wf rep node s (ls @ [m]) fs free' (ch(port := ch port @ [m]))"
      "semLink s = semLink sts" "linkState_s s = 1" "ip_l (the (links s m)) = ip"
      using get_link_new[OF wf[unfolded f] assms(2,3) _ _ up] False by blast
    have "sock_inv rep node s" using s(2-4) up(1) by (auto simp: sock_inv_def)
    then show ?thesis using link_found[OF s(2) assms(3) _ s(5), of now' m' ty] s(1) by auto
  qed
qed

lemma deleted_unknown:
  assumes "sock_inv rep node s" "links s p = Some L" "p \<noteq> NULL" "id_l L \<le> MAX_LINK_COUNT" "pLinkIDArray s ! id_l L = p"
    "ty \<noteq> LINK_SYN" "ty \<noteq> LINK_SYN_ACK"
  shows "\<exists>s' d. del_list C now p s = Some (EX_UDP_OK, s', [d]) \<and> type_h (fst d) = LINK_FIN \<and> pLinkIDArray s' ! id_l L = NULL \<and>
    get_link C now' m (ip_l L) (port_l L) ty s' = Some (NULL, s') \<and> sock_inv rep node s'"
proof -
  obtain ls fs free ch where wf: "sock_wf rep node s ls fs free ch" and up: "semLink s > 0" "linkState_s s = 1"
    using assms(1) by (auto simp: sock_inv_def)
  have "p \<in> set ls" using sock_wfD(10)[OF wf assms(4)] assms(3,5) by (auto simp: id_row_def split: if_splits)
  then obtain s' as cs xs bs d where d: "del_list C now p s = Some (EX_UDP_OK, s', [d])" "type_h (fst d) = LINK_FIN"
    "ch (port_l L) = xs @ p # bs" "sock_wf rep node s' (as @ cs) (fs @ [p]) (free @ [id_l L]) (ch(port_l L := xs @ bs))"
    "semLink s' = semLink s" "linkState_s s' = linkState_s s" "\<forall>q \<in> set (xs @ bs). ip_l (the (links s' q)) = ip_l (the (links s q))"
    using del_list_wf[OF wf, of p now] assms(2) by force
  have "port_l L < 65535" "port_row s ls ch (port_l L)"
    using sock_wfD(7)[OF wf \<open>p \<in> set ls\<close>] assms(2) sock_wfD(9)[OF wf, of "port_l L"] by (auto simp: link_row_def)
  then have port: "port_l L < 65535" "\<forall>q \<in> set ((ch(port_l L := xs @ bs)) (port_l L)). ip_l (the (links s' q)) \<noteq> ip_l L"
    using d(3,7) assms(2) by (auto simp: port_row_def image_iff)
  obtain store where "get_link C now' m (ip_l L) (port_l L) ty s' = make_link C now' m (ip_l L) (port_l L) ty store s'"
    using get_link_make[OF d(4) port] by blast
  then have "get_link C now' m (ip_l L) (port_l L) ty s' = Some (NULL, s')" using assms(6,7) by (simp add: make_link_def)
  moreover have "pLinkIDArray s' ! id_l L = NULL" using sock_wfD(10)[OF d(4) assms(4)] by (simp add: id_row_def)
  moreover have "sock_inv rep node s'" using d(4-6) up by (auto simp: sock_inv_def)
  ultimately show ?thesis using d(1,2) by blast
qed

lemma close_inv:
  assumes "sock_inv rep node sts" "g_semLink g > 0" "0 \<le> sock" "sock \<le> int MAX_SOCKET_NUM" "length (g_pSock g) = Suc MAX_SOCKET_NUM" "g_pSock g ! nat sock = Some sts"
  shows "\<exists>g' s ds. exClose C now sock g = Some (EX_UDP_OK, g', Some s, ds) \<and> g_pSock g' = (g_pSock g)[nat sock := None] \<and>
    linkState_s s = -1 \<and> list_all (\<lambda>p. p = NULL) (pLinkIDArray s) \<and> list_all (\<lambda>d. type_h (fst d) = LINK_FIN) ds"
proof -
  obtain ls fs free ch where wf: "sock_wf rep node sts ls fs free ch" and up: "semLink sts > 0" "linkState_s sts = 1"
    using assms(1) by (auto simp: sock_inv_def)
  let ?s = "sts\<lparr>linkState_s := -1\<rparr>"
  have wf': "sock_wf rep node ?s ls fs free ch" using wf sock_wf_cong[of ?s sts] by (simp add: sock_table_def)
  obtain s1 es fs1 free1 ch1 where c: "close_links C now ?s [] = Some (s1, es)" "sock_wf rep node s1 [] fs1 free1 ch1"
    "\<forall>d \<in> set es. type_h (fst d) = LINK_FIN" "linkState_s s1 = -1" using close_links_wf[OF wf', of now "[]"] by auto
  have "pLinkIDArray s1 ! i = NULL" if "i \<le> MAX_LINK_COUNT" for i
    using sock_wfD(10)[OF c(2) that] by (auto simp: id_row_def split: if_splits)
  then have ids: "list_all (\<lambda>p. p = NULL) (pLinkIDArray s1)" using sock_wfD(3)[OF c(2)] by (simp add: list_all_length less_Suc_eq_le)
  have "msgid_s s1 = -1" by (rule sock_wfD(2)[OF c(2)])
  then show ?thesis using assms(2-6) up c(1,3,4) ids by (simp add: exClose_def list_all_iff)
qed

end

section \<open>The promises of a socket\<close>

abbreviation ring_node :: "lheap \<Rightarrow> addr \<Rightarrow> bool" where
  "ring_node h a \<equiv> a \<in> dom h"


definition heap0 :: lheap where
  "heap0 = (\<lambda>a. Some \<lparr>next_f = NULL, prev_f = NULL\<rparr>)"

definition glob0 :: "lheap udp_glob" where
  "glob0 = \<lparr>g_pSock = replicate (Suc MAX_SOCKET_NUM) None, g_tsWaitTime = -1, g_semLink = 0, exSocket_flag = False, conf_g = conf0\<rparr>"

lemma open0: "\<exists>g' sts. exSocket ring_ops 0 3 True 0x1000 heap0 glob0 = Some (3, g') \<and> g_pSock g' = (g_pSock glob0)[3 := Some sts] \<and>
    g_semLink g' = 1 \<and> sock_reach ring_ops ring_node conf0 sts \<and> some_id_free sts \<and> fresh_link ring_node sts 0x10"
proof -
  let ?n = "new_sock 0x1000 heap0 3 (-1)"
  have nodes: "sock_nodes ring_node ?n" by (simp add: sock_nodes_def list_all_iff heap0_def dom_def)
  obtain h where h: "init_ids ring_ops ?n = Some (?n\<lparr>clists_s := h, ids_s := map_of (map (\<lambda>i. (stIDListAllocation ?n i, i)) [0..<Suc MAX_LINK_COUNT])\<rparr>)"
    (is "_ = Some ?s") "ring_node h = ring_node heap0" using ring.init_lists[OF nodes] by auto
  have dom: "dom h = UNIV" using fun_cong[OF h(2)] by (auto simp: heap0_def)
  let ?g = "glob0\<lparr>exSocket_flag := True, g_semLink := 1\<rparr>" let ?g' = "?g\<lparr>g_pSock := (g_pSock glob0)[3 := Some ?s]\<rparr>"
  have e: "exSocket ring_ops 0 3 True 0x1000 heap0 glob0 = Some (3, ?g')"
    using h(1) by (simp add: exSocket_def glob0_def MAX_SOCKET_NUM_def Let_def nth_Cons' del: upt_Suc)
  have "g_pSock ?g' ! nat 3 = Some ?s" by (simp add: glob0_def MAX_SOCKET_NUM_def del: upt_Suc)
  from sock_reach.opened[OF e _ this] have r: "sock_reach ring_ops ring_node conf0 ?s" using nodes by (simp add: glob0_def del: upt_Suc)
  have "stIDListAllocation ?s i \<noteq> 0x10" if "i \<le> MAX_LINK_COUNT" for i
  proof
    assume "stIDListAllocation ?s i = 0x10"
    then have "(of_nat (659728 + 24 * i) :: addr) = 0" by (simp add: stIDListAllocation_def new_sock_def)
    then have "unat (of_nat (659728 + 24 * i) :: addr) = 0" by simp
    then show False using that by (simp add: unat_of_nat MAX_LINK_COUNT_def del: of_nat_add of_nat_mult)
  qed
  then have "fresh_link ring_node ?s 0x10"
    using dom by (auto simp: fresh_link_def list_s_def listFreeHead_def listIDAllocationHead_def new_sock_def simp del: upt_Suc)
  moreover have "some_id_free ?s" by (simp add: some_id_free_def new_sock_def)
  ultimately show ?thesis using e r by (intro exI[of _ ?g'] exI[of _ ?s]) (simp del: upt_Suc)
qed






end
