(* ===== verification/Idr.thy ===== *)
theory Idr
  imports Prelude
begin

text \<open>
  The service that gives small ids to pointers, \<^verbatim>\<open>datastruct/idr.c\<close> and \<^verbatim>\<open>idr.h\<close>: a radix tree of layers with 64
  slots each. A layer holds in its slots the layers below it, or at the bottom the pointers of the
  user; a bit of its bitmap says that the part of the tree under the slot has no free id, and its count
  how many slots are in use. Free layers are kept in a list through their first slot.

  The layers are a memory of their own. The bit operations of the kernel (\<open>find_next_bit\<close>, \<open>__set_bit\<close>,
  \<open>__clear_bit\<close>, \<open>test_bit\<close>) are not part of the repository and therefore a parameter; the answers of
  \<open>kmem_cache_alloc\<close> are an argument. \<^const>\<open>None\<close> is a fault: memory that is not a layer, an index outside
  an array, a shift or a sum that is not defined for \<open>int\<close>, or a lock that is taken. The local array
  \<open>pa\<close> starts without values.
\<close>

section \<open>Bit operations of the kernel\<close>

type_synonym u64 = "64 word"

record bitops =
  find_next_bit :: "u64 \<Rightarrow> nat \<Rightarrow> nat \<Rightarrow> nat"
  b_set_bit :: "nat \<Rightarrow> u64 \<Rightarrow> u64"
  b_clear_bit :: "nat \<Rightarrow> u64 \<Rightarrow> u64"
  b_test_bit :: "nat \<Rightarrow> u64 \<Rightarrow> bool"

locale bitops_laws =
  fixes B :: bitops
  assumes find_hit: "n \<le> i \<Longrightarrow> i < sz \<Longrightarrow> sz \<le> 64 \<Longrightarrow> bit w i \<Longrightarrow> (\<And>j. n \<le> j \<Longrightarrow> j < i \<Longrightarrow> \<not> bit w j) \<Longrightarrow> find_next_bit B w sz n = i"
    and find_none: "sz \<le> 64 \<Longrightarrow> (\<And>j. n \<le> j \<Longrightarrow> j < sz \<Longrightarrow> \<not> bit w j) \<Longrightarrow> find_next_bit B w sz n = sz"
    and set_bit_iff: "i < 64 \<Longrightarrow> bit (b_set_bit B i w) j \<longleftrightarrow> i = j \<or> bit w j"
    and clear_bit_iff: "i < 64 \<Longrightarrow> bit (b_clear_bit B i w) j \<longleftrightarrow> i \<noteq> j \<and> bit w j"
    and test_bit_iff: "i < 64 \<Longrightarrow> b_test_bit B i w \<longleftrightarrow> bit w i"

text \<open>An implementation, as the header files of the kernel document it.\<close>

fun scan_bits :: "u64 \<Rightarrow> nat \<Rightarrow> nat \<Rightarrow> nat" where
  "scan_bits w n 0 = n"
| "scan_bits w n (Suc k) = (if bit w n then n else scan_bits w (Suc n) k)"

definition std_bits :: bitops where
  "std_bits = \<lparr>find_next_bit = (\<lambda>w sz n. if n < sz then scan_bits w n (sz - n) else sz),
     b_set_bit = set_bit, b_clear_bit = unset_bit, b_test_bit = (\<lambda>i w. bit w i)\<rparr>"

lemma scan_hit: "n \<le> i \<Longrightarrow> i < n + k \<Longrightarrow> bit w i \<Longrightarrow> (\<And>j. n \<le> j \<Longrightarrow> j < i \<Longrightarrow> \<not> bit w j) \<Longrightarrow> scan_bits w n k = i"
proof (induction w n k rule: scan_bits.induct)
  case (2 w n k)
  show ?case
  proof (cases "bit w n")
    case True
    then have "n = i" using 2(2,5) by (metis le_neq_implies_less order_refl)
    then show ?thesis using True by simp
  next
    case False
    then have "n \<noteq> i" using 2(4) by blast
    then show ?thesis using False 2 by auto
  qed
qed simp

lemma scan_none: "(\<And>j. n \<le> j \<Longrightarrow> j < n + k \<Longrightarrow> \<not> bit w j) \<Longrightarrow> scan_bits w n k = n + k"
  by (induction w n k rule: scan_bits.induct) auto

interpretation std: bitops_laws std_bits
proof unfold_locales
  fix n i sz :: nat and w :: u64
  assume "n \<le> i" "i < sz" "sz \<le> 64" "bit w i" "\<And>j. n \<le> j \<Longrightarrow> j < i \<Longrightarrow> \<not> bit w j"
  then show "find_next_bit std_bits w sz n = i" using scan_hit[of n i "sz - n" w] by (simp add: std_bits_def)
next
  fix n sz :: nat and w :: u64
  assume "sz \<le> 64" "\<And>j. n \<le> j \<Longrightarrow> j < sz \<Longrightarrow> \<not> bit w j"
  then show "find_next_bit std_bits w sz n = sz" using scan_none[of n "sz - n" w] by (simp add: std_bits_def)
qed (auto simp: std_bits_def bit_set_bit_iff bit_unset_bit_iff)

section \<open>Data\<close>

definition IDR_BITS :: nat where "IDR_BITS = 6"

definition IDR_FULL :: u64 where "IDR_FULL = 0xffffffffffffffff"

definition IDR_SIZE :: nat where "IDR_SIZE = push_bit IDR_BITS 1"

definition IDR_MASK :: int where "IDR_MASK = push_bit IDR_BITS 1 - 1"

definition MAX_ID_SHIFT :: nat where "MAX_ID_SHIFT = 4 * 8 - 1"

definition MAX_ID_BIT :: int where "MAX_ID_BIT = push_bit MAX_ID_SHIFT 1"

definition MAX_ID_MASK :: int where "MAX_ID_MASK = MAX_ID_BIT - 1"

definition MAX_LEVEL :: nat where "MAX_LEVEL = (MAX_ID_SHIFT + IDR_BITS - 1) div IDR_BITS"

definition IDR_FREE_MAX :: int where "IDR_FREE_MAX = int (MAX_LEVEL + MAX_LEVEL)"

record idr_layer =
  bitmap :: u64
  ary :: "addr list"
  count_l :: int

record idr =
  top_i :: addr
  id_free :: addr
  layers :: nat
  id_free_cnt :: int
  lock_i :: bool
  mem_i :: "addr \<rightharpoonup> idr_layer"

text \<open>A layer as the constructor \<open>idr_cache_ctor\<close> of the cache leaves it.\<close>

definition idr_cache_ctor :: idr_layer where
  "idr_cache_ctor = \<lparr>bitmap = 0, ary = replicate IDR_SIZE NULL, count_l = 0\<rparr>"

definition idr_init :: "(addr \<rightharpoonup> idr_layer) \<Rightarrow> idr" where
  "idr_init mem = \<lparr>top_i = NULL, id_free = NULL, layers = 0, id_free_cnt = 0, lock_i = False, mem_i = mem\<rparr>"

text \<open>Places in memory and in the arrays; integers of 32 bits.\<close>

definition ary_at :: "idr_layer \<Rightarrow> nat \<Rightarrow> addr option" where
  "ary_at P i = (if i < length (ary P) then Some (ary P ! i) else None)"

definition put_layer :: "addr \<Rightarrow> idr_layer \<Rightarrow> idr \<Rightarrow> idr" where
  "put_layer p P s = s\<lparr>mem_i := (mem_i s)(p \<mapsto> P)\<rparr>"

definition pa_put :: "'a option list \<Rightarrow> nat \<Rightarrow> 'a \<Rightarrow> 'a option list option" where
  "pa_put pa i v = (if i < length pa then Some (pa[i := Some v]) else None)"

definition pa_get :: "'a option list \<Rightarrow> nat \<Rightarrow> 'a option" where
  "pa_get pa i = (if i < length pa then pa ! i else None)"

definition int32 :: "int \<Rightarrow> int option" where
  "int32 x = (if - (2 ^ 31) \<le> x \<and> x < 2 ^ 31 then Some x else None)"

definition shl32 :: "int \<Rightarrow> nat \<Rightarrow> int option" where
  "shl32 x n = (if 0 \<le> x \<and> n < 32 then int32 (push_bit n x) else None)"

definition spin_lock :: "idr \<Rightarrow> idr option" where
  "spin_lock s = (if lock_i s then None else Some (s\<lparr>lock_i := True\<rparr>))"

definition spin_unlock :: "idr \<Rightarrow> idr" where
  "spin_unlock s = s\<lparr>lock_i := False\<rparr>"

section \<open>The list of free layers\<close>

definition alloc_layer :: "idr \<Rightarrow> (addr \<times> idr) option" where
  "alloc_layer s = do {
     s \<leftarrow> spin_lock s;
     let p = id_free s;
     s \<leftarrow> (if p \<noteq> NULL
          then do {
            P \<leftarrow> mem_i s p;
            q \<leftarrow> ary_at P 0;
            Some (put_layer p (P\<lparr>ary := (ary P)[0 := NULL]\<rparr>) (s\<lparr>id_free := q, id_free_cnt := id_free_cnt s - 1\<rparr>)) }
          else Some s);
     Some (p, spin_unlock s) }"

definition free_layer :: "addr \<Rightarrow> idr \<Rightarrow> idr option" where
  "free_layer p s = do {
     s \<leftarrow> spin_lock s;
     P \<leftarrow> mem_i s p;
     q \<leftarrow> ary_at P 0;
     Some (spin_unlock (put_layer p (P\<lparr>ary := (ary P)[0 := id_free s]\<rparr>) (s\<lparr>id_free := p, id_free_cnt := id_free_cnt s + 1\<rparr>))) }"

text \<open>\<open>ks\<close> are the answers of \<open>kmem_cache_alloc\<close>; it returns \<open>NULL\<close> when there is no more.\<close>

fun idr_pre_get :: "addr list \<Rightarrow> idr \<Rightarrow> (int \<times> idr) option" where
  "idr_pre_get [] s = Some (if id_free_cnt s < IDR_FREE_MAX then 0 else 1, s)"
| "idr_pre_get (a # ks) s =
     (if id_free_cnt s < IDR_FREE_MAX
      then if a = NULL then Some (0, s)
        else do {
          s \<leftarrow> free_layer a (put_layer a idr_cache_ctor s);
          idr_pre_get ks s }
      else Some (1, s))"

section \<open>Getting an id\<close>

text \<open>
  The first loop of \<open>sub_alloc\<close>: down to the leaf with the first free slot from \<open>id\<close> on. It ends with a
  return value of the function (and the value of \<open>*starting_id\<close>) or with the leaf, the slot and the id.
\<close>

definition layer_below :: "addr \<Rightarrow> nat \<Rightarrow> idr \<Rightarrow> (bool \<times> idr) option" where
  "layer_below p m s = do {
     P \<leftarrow> mem_i s p;
     c \<leftarrow> ary_at P m;
     if c = NULL
     then do {
       (new, s) \<leftarrow> alloc_layer s;
       if new = NULL then Some (False, s)
       else do {
         P \<leftarrow> mem_i s p;
         Some (True, put_layer p (P\<lparr>ary := (ary P)[m := new], count_l := count_l P + 1\<rparr>) s) } }
     else Some (True, s) }"

type_synonym leaf_search = "(int \<times> int) + (addr \<times> nat \<times> int \<times> addr option list)"

partial_function (option) find_leaf ::
  "bitops \<Rightarrow> addr option list \<Rightarrow> addr \<Rightarrow> nat \<Rightarrow> int \<Rightarrow> idr \<Rightarrow> (leaf_search \<times> idr) option" where
  "find_leaf B pa p l nr s = do {
     P \<leftarrow> mem_i s p;
     let n = drop_bit (IDR_BITS * l) nr AND IDR_MASK;
     let m = find_next_bit B (NOT (bitmap P)) IDR_SIZE (nat n);
     if m = IDR_SIZE
     then do {
       let l = l + 1;
       b \<leftarrow> shl32 1 (IDR_BITS * l);
       nr \<leftarrow> int32 ((nr OR (b - 1)) + 1);
       q \<leftarrow> pa_get pa l;
       if q = NULL then Some (Inl (-2, nr), s)
       else find_leaf B pa q l nr s }
     else do {
       nr \<leftarrow> (if int m \<noteq> n then shl32 (drop_bit (IDR_BITS * l) nr XOR n XOR int m) (IDR_BITS * l) else Some nr);
       if nr mod 2 ^ 32 \<ge> MAX_ID_BIT \<or> nr < 0 then Some (Inl (-3, nr), s)
       else if l = 0 then Some (Inr (p, m, nr, pa), s)
       else do {
         (ok, s) \<leftarrow> layer_below p m s;
         if \<not> ok then Some (Inl (-1, nr), s)
         else do {
           pa \<leftarrow> pa_put pa l p;
           P \<leftarrow> mem_i s p;
           c \<leftarrow> ary_at P m;
           find_leaf B pa c (l - 1) nr s } } } }"

text \<open>The second loop of \<open>sub_alloc\<close>: as long as a layer is full, its bit in the layer above is set.\<close>

partial_function (option) mark_full ::
  "bitops \<Rightarrow> addr option list \<Rightarrow> addr \<Rightarrow> nat \<Rightarrow> int \<Rightarrow> idr \<Rightarrow> idr option" where
  "mark_full B pa p l n s = do {
     P \<leftarrow> mem_i s p;
     if bitmap P = IDR_FULL
     then do {
       q \<leftarrow> pa_get pa (l + 1);
       if q = NULL then Some s
       else do {
         let n = drop_bit IDR_BITS n;
         Q \<leftarrow> mem_i s q;
         mark_full B pa q (l + 1) n (put_layer q (Q\<lparr>bitmap := b_set_bit B (nat (n AND IDR_MASK)) (bitmap Q)\<rparr>) s) } }
     else Some s }"

text \<open>The result is the return value and the value of \<open>*starting_id\<close>.\<close>

definition sub_alloc :: "bitops \<Rightarrow> addr \<Rightarrow> int \<Rightarrow> idr \<Rightarrow> (int \<times> int \<times> idr) option" where
  "sub_alloc B ptr starting_id s = do {
     pa \<leftarrow> pa_put (replicate MAX_LEVEL None) (layers s) NULL;
     (r, s) \<leftarrow> find_leaf B pa (top_i s) (layers s - 1) starting_id s;
     case r of
       Inl (v, nr) \<Rightarrow> Some (v, if v = -2 then nr else starting_id, s)
     | Inr (p, m, nr, pa) \<Rightarrow> do {
         P \<leftarrow> mem_i s p;
         guard_opt (m < length (ary P));
         let s = put_layer p (P\<lparr>ary := (ary P)[m := ptr], bitmap := b_set_bit B m (bitmap P), count_l := count_l P + 1\<rparr>) s;
         s \<leftarrow> mark_full B pa p 0 nr s;
         Some (nr, starting_id, s) } }"

text \<open>What was built is taken down again when there is no layer for the next step.\<close>

partial_function (option) tear_down :: "addr \<Rightarrow> idr \<Rightarrow> idr option" where
  "tear_down p s =
     (if p \<noteq> NULL \<and> p \<noteq> top_i s
      then do {
        P \<leftarrow> mem_i s p;
        q \<leftarrow> ary_at P 0;
        s \<leftarrow> free_layer p (put_layer p (P\<lparr>ary := (ary P)[0 := NULL], bitmap := 0, count_l := 0\<rparr>) s);
        tear_down q s }
      else Some s)"

partial_function (option) grow_layers :: "bitops \<Rightarrow> addr \<Rightarrow> nat \<Rightarrow> int \<Rightarrow> idr \<Rightarrow> (bool \<times> addr \<times> nat \<times> idr) option" where
  "grow_layers B p ls nr s =
     (if ls < MAX_LEVEL
      then do {
        b \<leftarrow> shl32 1 (ls * IDR_BITS);
        if nr \<ge> b
        then do {
          P \<leftarrow> mem_i s p;
          if count_l P = 0 then grow_layers B p (ls + 1) nr s
          else do {
            (new, s) \<leftarrow> alloc_layer s;
            if new = NULL then do { s \<leftarrow> tear_down p s; Some (False, p, ls, s) }
            else do {
              N \<leftarrow> mem_i s new;
              guard_opt (0 < length (ary N));
              P \<leftarrow> mem_i s p;
              grow_layers B new (ls + 1) nr (put_layer new (N\<lparr>ary := (ary N)[0 := p], count_l := 1,
                bitmap := (if bitmap P = IDR_FULL then b_set_bit B 0 (bitmap N) else bitmap N)\<rparr>) s) } } }
        else Some (True, p, ls, s) }
      else Some (True, p, ls, s))"

text \<open>\<open>idr_get_new_above_int\<close>; the jump to \<open>build_up\<close> is the recursive call.\<close>

partial_function (option) idr_get_new_above_int :: "bitops \<Rightarrow> addr \<Rightarrow> int \<Rightarrow> idr \<Rightarrow> (int \<times> idr) option" where
  "idr_get_new_above_int B ptr nr s = do {
     (p, ls, s) \<leftarrow> (if top_i s = NULL then do { (p, s) \<leftarrow> alloc_layer s; Some (p, 1, s) } else Some (top_i s, layers s, s));
     if p = NULL then Some (-1, s)
     else do {
       (ok, p, ls, s) \<leftarrow> grow_layers B p ls nr s;
       if \<not> ok then Some (-1, s)
       else do {
         (v, nr, s) \<leftarrow> sub_alloc B ptr nr (s\<lparr>top_i := p, layers := ls\<rparr>);
         if v = -2 then idr_get_new_above_int B ptr nr s else Some (v, s) } } }"

definition EAGAIN :: int where "EAGAIN = 11"

definition ENOSPC :: int where "ENOSPC = 28"

text \<open>The id is \<^const>\<open>None\<close> when \<open>*id\<close> is not written.\<close>

definition idr_get_new_above :: "bitops \<Rightarrow> addr \<Rightarrow> int \<Rightarrow> idr \<Rightarrow> (int \<times> int option \<times> idr) option" where
  "idr_get_new_above B ptr starting_id s = do {
     (rv, s) \<leftarrow> idr_get_new_above_int B ptr starting_id s;
     if rv < 0 then Some (if rv = -1 then - EAGAIN else - ENOSPC, None, s)
     else Some (0, Some rv, s) }"

definition idr_get_new :: "bitops \<Rightarrow> addr \<Rightarrow> idr \<Rightarrow> (int \<times> int option \<times> idr) option" where
  "idr_get_new B ptr s = do {
     (rv, s) \<leftarrow> idr_get_new_above_int B ptr 0 s;
     if rv < 0 then Some (if rv = -1 then - EAGAIN else - ENOSPC, None, s)
     else Some (0, Some rv, s) }"

section \<open>Removing an id\<close>

text \<open>
  \<open>pa\<close> holds the addresses of the pointers on the way down: of \<open>top\<close>, or of a slot of a layer; \<open>No_ref\<close> is the
  null pointer in its first place.
\<close>

datatype layer_ref = No_ref | Top_ref | Slot_ref addr nat

fun read_ref :: "layer_ref \<Rightarrow> idr \<Rightarrow> addr option" where
  "read_ref No_ref s = None"
| "read_ref Top_ref s = Some (top_i s)"
| "read_ref (Slot_ref p n) s = do { P \<leftarrow> mem_i s p; ary_at P n }"

fun clear_ref :: "layer_ref \<Rightarrow> idr \<Rightarrow> idr option" where
  "clear_ref No_ref s = None"
| "clear_ref Top_ref s = Some (s\<lparr>top_i := NULL\<rparr>)"
| "clear_ref (Slot_ref p n) s = do {
     P \<leftarrow> mem_i s p;
     guard_opt (n < length (ary P));
     Some (put_layer p (P\<lparr>ary := (ary P)[n := NULL]\<rparr>) s) }"

partial_function (option) remove_down ::
  "bitops \<Rightarrow> layer_ref option list \<Rightarrow> nat \<Rightarrow> addr \<Rightarrow> int \<Rightarrow> int \<Rightarrow> idr \<Rightarrow> (layer_ref option list \<times> nat \<times> addr \<times> idr) option" where
  "remove_down B pa i p shift nr s =
     (if shift > 0 \<and> p \<noteq> NULL
      then do {
        P \<leftarrow> mem_i s p;
        let n = nat (drop_bit (nat shift) nr AND IDR_MASK);
        let s = put_layer p (P\<lparr>bitmap := b_clear_bit B n (bitmap P)\<rparr>) s;
        pa \<leftarrow> pa_put pa (i + 1) (Slot_ref p n);
        c \<leftarrow> ary_at P n;
        remove_down B pa (i + 1) c (shift - int IDR_BITS) nr s }
      else Some (pa, i, p, s))"

text \<open>The layers that have become empty are freed, from the leaf up; the result is the place of \<open>paa\<close>.\<close>

partial_function (option) remove_up :: "layer_ref option list \<Rightarrow> nat \<Rightarrow> idr \<Rightarrow> (nat \<times> idr) option" where
  "remove_up pa i s = do {
     r \<leftarrow> pa_get pa i;
     if r = No_ref then Some (i, s)
     else do {
       p \<leftarrow> read_ref r s;
       P \<leftarrow> mem_i s p;
       let s = put_layer p (P\<lparr>count_l := count_l P - 1\<rparr>) s;
       if count_l P - 1 \<noteq> 0 then Some (i, s)
       else do {
         s \<leftarrow> free_layer p s;
         s \<leftarrow> clear_ref r s;
         remove_up pa (i - 1) s } } }"

definition sub_remove :: "bitops \<Rightarrow> int \<Rightarrow> int \<Rightarrow> idr \<Rightarrow> idr option" where
  "sub_remove B shift nr s = do {
     pa \<leftarrow> pa_put (replicate MAX_LEVEL None) 0 No_ref;
     pa \<leftarrow> pa_put pa 1 Top_ref;
     (pa, i, p, s) \<leftarrow> remove_down B pa 1 (top_i s) shift nr s;
     let n = nat (nr AND IDR_MASK);
     if p = NULL then Some s
     else do {
       P \<leftarrow> mem_i s p;
       if \<not> b_test_bit B n (bitmap P) then Some s
       else do {
         guard_opt (n < length (ary P));
         (i, s) \<leftarrow> remove_up pa i (put_layer p (P\<lparr>bitmap := b_clear_bit B n (bitmap P), ary := (ary P)[n := NULL]\<rparr>) s);
         r \<leftarrow> pa_get pa i;
         Some (if r = No_ref then s\<lparr>layers := 0\<rparr> else s) } } }"

definition drop_layer :: "idr \<Rightarrow> idr option" where
  "drop_layer s =
     (if top_i s = NULL then Some s
      else do {
        T \<leftarrow> mem_i s (top_i s);
        if count_l T = 1 \<and> layers s > 1
        then do {
          p \<leftarrow> ary_at T 0;
          if p = NULL then Some s
          else do {
            s \<leftarrow> free_layer (top_i s) (put_layer (top_i s) (T\<lparr>bitmap := 0, count_l := 0\<rparr>) s);
            Some (s\<lparr>top_i := p, layers := layers s - 1\<rparr>) } }
        else Some s })"

definition idr_remove :: "bitops \<Rightarrow> int \<Rightarrow> idr \<Rightarrow> idr option" where
  "idr_remove B nr s = do {
     let nr = nr AND MAX_ID_MASK;
     s \<leftarrow> sub_remove B ((int (layers s) - 1) * int IDR_BITS) nr s;
     s \<leftarrow> drop_layer s;
     if id_free_cnt s \<ge> IDR_FREE_MAX
     then do {
       (p, s) \<leftarrow> alloc_layer s;
       Some (if p = NULL then s else s\<lparr>mem_i := (mem_i s)(p := None)\<rparr>) }
     else Some s }"

section \<open>Finding a pointer\<close>

fun find_walk :: "nat \<Rightarrow> addr \<Rightarrow> int \<Rightarrow> idr \<Rightarrow> addr option" where
  "find_walk 0 p nr s = Some p"
| "find_walk (Suc k) p nr s =
     (if p = NULL then Some p
      else do {
        P \<leftarrow> mem_i s p;
        c \<leftarrow> ary_at P (nat (drop_bit (IDR_BITS * k) nr AND IDR_MASK));
        find_walk k c nr s })"

definition idr_find :: "int \<Rightarrow> idr \<Rightarrow> addr option" where
  "idr_find nr s = do {
     let nr = nr AND MAX_ID_MASK;
     b \<leftarrow> shl32 1 (layers s * IDR_BITS);
     if nr \<ge> b then Some NULL else find_walk (layers s) (top_i s) nr s }"

end
