(* ===== verification/Idr_Tree.thy ===== *)
theory Idr_Tree
  imports Idr
begin

text \<open>
  What the layers of an id table represent: a partial map from ids to pointers. The layer of level \<open>l\<close>
  with number \<open>k\<close> serves the ids \<open>x\<close> with \<open>x div 64 ^ (l + 1) = k\<close>; the invariant says where it is, what its
  slots, its bitmap and its count are, and that the free layers are apart from the tree.
\<close>

section \<open>Numbers\<close>

lemma idr_consts:
  "IDR_BITS = 6" "IDR_SIZE = 64" "IDR_MASK = 63" "MAX_LEVEL = 6" "MAX_ID_BIT = 2147483648" "MAX_ID_MASK = 2147483647" "IDR_FREE_MAX = 12"
  by (simp_all add: IDR_BITS_def IDR_SIZE_def IDR_MASK_def MAX_LEVEL_def MAX_ID_BIT_def MAX_ID_MASK_def MAX_ID_SHIFT_def IDR_FREE_MAX_def)

lemma shift_id: "drop_bit (6 * l) (int u) = int (u div 64 ^ l)"
  by (simp add: drop_bit_eq_div power_mult zdiv_int)

lemma mask_id: "int x AND 63 = int (x mod 64)"
proof -
  have "int x AND mask 6 = int x mod 64" by (simp flip: take_bit_eq_mask add: take_bit_eq_mod)
  then show ?thesis by (simp add: zmod_int mask_eq_exp_minus_1)
qed

text \<open>The slot of the id \<open>u\<close> in its layer of level \<open>l\<close>.\<close>

definition digit :: "nat \<Rightarrow> nat \<Rightarrow> nat" where
  "digit u l = u div 64 ^ l mod 64"

lemma digit_less [simp]: "digit u l < 64"
  by (simp add: digit_def)

lemma slot_id: "nat (drop_bit (6 * l) (int u) AND 63) = digit u l" "drop_bit (6 * l) (int u) AND 63 = int (digit u l)"
  by (simp_all only: shift_id mask_id digit_def nat_int)

lemma div_Suc: "(u::nat) div 64 ^ Suc l = u div 64 ^ l div 64"
  by (simp only: power_Suc2 div_mult2_eq)

lemma path_id: "64 * (u div 64 ^ Suc l) + digit u l = u div 64 ^ l"
  by (simp only: div_Suc digit_def mult_div_mod_eq)

lemma split_64: "i < 64 \<Longrightarrow> 64 * k + i = x \<longleftrightarrow> k = x div 64 \<and> i = x mod (64::nat)"
  by (metis add.commute div_mult_self2 div_less mod_less mod_mult_self2 mult_div_mod_eq add_0 zero_neq_numeral)

lemma child_number: "i < 64 \<Longrightarrow> 64 * k + i = u div 64 ^ l \<longleftrightarrow> k = u div 64 ^ Suc l \<and> i = digit u l"
  unfolding div_Suc digit_def by (rule split_64)

lemma mask_max: "int u AND 2147483647 = int (u mod 2 ^ 31)"
proof -
  have "int u AND mask 31 = int u mod 2 ^ 31" by (simp flip: take_bit_eq_mask add: take_bit_eq_mod)
  then show ?thesis by (simp add: zmod_int mask_eq_exp_minus_1)
qed

lemma shl32_one: "l \<le> 5 \<Longrightarrow> shl32 1 (6 * l) = Some (64 ^ l)"
proof -
  assume "l \<le> 5"
  then have "(64::int) ^ l \<le> 64 ^ 5" by (intro power_increasing) auto
  moreover have "(0::int) < 64 ^ l" by simp
  then have "- (2 ^ 31) \<le> (64::int) ^ l" by (meson order_trans less_imp_le neg_le_0_iff_le zero_le_numeral zero_le_power)
  ultimately show ?thesis using \<open>l \<le> 5\<close> by (simp add: shl32_def int32_def push_bit_eq_mult power_mult)
qed

section \<open>The tree\<close>

fun child :: "(nat \<Rightarrow> nat \<Rightarrow> addr) \<Rightarrow> (nat \<rightharpoonup> addr) \<Rightarrow> nat \<Rightarrow> nat \<Rightarrow> addr" where
  "child g M 0 j = (case M j of None \<Rightarrow> NULL | Some p \<Rightarrow> p)"
| "child g M (Suc l) j = g l j"

fun used :: "(nat \<Rightarrow> nat \<Rightarrow> addr) \<Rightarrow> (nat \<rightharpoonup> addr) \<Rightarrow> nat \<Rightarrow> nat \<Rightarrow> bool" where
  "used g M 0 j \<longleftrightarrow> M j \<noteq> None"
| "used g M (Suc l) j \<longleftrightarrow> g l j \<noteq> NULL"

definition full :: "nat set \<Rightarrow> nat \<Rightarrow> nat \<Rightarrow> bool" where
  "full D l j \<longleftrightarrow> (\<forall>x. x div 64 ^ l = j \<longrightarrow> x \<in> D)"

text \<open>
  A layer, where \<open>D\<close> is the set of ids its bitmap is about and \<open>c\<close> is what its count is ahead of the slots in
  use; both differ from the map only in the middle of an operation.
\<close>

definition layer_ok :: "(nat \<Rightarrow> nat \<Rightarrow> addr) \<Rightarrow> (nat \<rightharpoonup> addr) \<Rightarrow> nat set \<Rightarrow> int \<Rightarrow> nat \<Rightarrow> nat \<Rightarrow> idr_layer \<Rightarrow> bool" where
  "layer_ok g M D c l k P \<longleftrightarrow> length (ary P) = 64 \<and> (\<forall>i < 64. ary P ! i = child g M l (64 * k + i)) \<and>
     (\<forall>i < 64. bit (bitmap P) i \<longleftrightarrow> full D l (64 * k + i)) \<and>
     count_l P = int (card {i. i < 64 \<and> used g M l (64 * k + i)}) + c"

definition parent_ok :: "nat \<Rightarrow> (nat \<Rightarrow> nat \<Rightarrow> addr) \<Rightarrow> nat \<Rightarrow> nat \<Rightarrow> bool" where
  "parent_ok L g l k \<longleftrightarrow> (if Suc l = L then k = 0 else g (Suc l) (k div 64) \<noteq> NULL)"

definition idr_tree ::
  "(addr \<rightharpoonup> idr_layer) \<Rightarrow> nat \<Rightarrow> (nat \<Rightarrow> nat \<Rightarrow> addr) \<Rightarrow> (nat \<rightharpoonup> addr) \<Rightarrow> (nat \<Rightarrow> nat set) \<Rightarrow> (nat \<Rightarrow> nat \<Rightarrow> int) \<Rightarrow> bool" where
  "idr_tree mem L g M D c \<longleftrightarrow>
     (\<forall>l < L. \<forall>k. g l k \<noteq> NULL \<longrightarrow> (\<exists>P. mem (g l k) = Some P \<and> layer_ok g M (D l) (c l k) l k P) \<and> parent_ok L g l k) \<and>
     (\<forall>l < L. \<forall>l' < L. \<forall>k k'. g l k = g l' k' \<longrightarrow> g l k \<noteq> NULL \<longrightarrow> l = l' \<and> k = k') \<and>
     (\<forall>x \<in> dom M. 0 < L \<and> g 0 (x div 64) \<noteq> NULL)"

lemma idr_treeD:
  assumes "idr_tree mem L g M D c"
  shows "l < L \<Longrightarrow> g l k \<noteq> NULL \<Longrightarrow> \<exists>P. mem (g l k) = Some P \<and> layer_ok g M (D l) (c l k) l k P"
    "l < L \<Longrightarrow> g l k \<noteq> NULL \<Longrightarrow> parent_ok L g l k"
    "g l k = g l' k' \<Longrightarrow> l < L \<Longrightarrow> l' < L \<Longrightarrow> g l k \<noteq> NULL \<Longrightarrow> l = l' \<and> k = k'"
    "M x = Some q \<Longrightarrow> 0 < L \<and> g 0 (x div 64) \<noteq> NULL"
  using assms unfolding idr_tree_def by blast+

lemma path_present:
  assumes "idr_tree mem L g M D c" "g l (u div 64 ^ Suc l) \<noteq> NULL" "l \<le> l'" "l' < L"
  shows "g l' (u div 64 ^ Suc l') \<noteq> NULL"
  using assms(3,4)
proof (induction rule: dec_induct)
  case base
  then show ?case using assms(2) by simp
next
  case (step n)
  then have "parent_ok L g n (u div 64 ^ Suc n)" using idr_treeD(2)[OF assms(1), of n] by simp
  then show ?case using step.prems div_Suc[of u "Suc n"] by (simp add: parent_ok_def)
qed

lemma id_bound:
  assumes "idr_tree mem L g M D c" "M x = Some q"
  shows "x < 64 ^ L"
proof -
  have L: "0 < L" "g 0 (x div 64 ^ Suc 0) \<noteq> NULL" using idr_treeD(4)[OF assms] by simp_all
  have "g (L - 1) (x div 64 ^ L) \<noteq> NULL" using path_present[OF assms(1) L(2), of "L - 1"] L(1) by simp
  then have "x div 64 ^ L = 0" using idr_treeD(2)[OF assms(1), of "L - 1" "x div 64 ^ L"] L(1) by (simp add: parent_ok_def)
  then show ?thesis by (simp add: div_eq_0_iff)
qed

section \<open>Finding\<close>

lemma find_walk_tree:
  assumes "idr_tree (mem_i s) L g M D c" "l \<le> L" "l = 0 \<longrightarrow> p = child g M 0 u" "0 < l \<longrightarrow> p = g (l - 1) (u div 64 ^ l)"
  shows "find_walk l p (int u) s = Some (child g M 0 u)"
  using assms(2-)
proof (induction l arbitrary: p)
  case (Suc l)
  show ?case
  proof (cases "p = NULL")
    case True
    then have "M u = None" using path_present[OF assms(1), of 0 u l] idr_treeD(4)[OF assms(1), of u] Suc.prems by (cases "M u") auto
    then show ?thesis using True by simp
  next
    case False
    then obtain P where P: "mem_i s p = Some P" "layer_ok g M (D l) (c l (u div 64 ^ Suc l)) l (u div 64 ^ Suc l) P"
      using idr_treeD(1)[OF assms(1), of l] Suc.prems by auto
    then have c: "ary_at P (digit u l) = Some (child g M l (u div 64 ^ l))"
      by (simp add: ary_at_def layer_ok_def path_id[of u l] del: power_Suc)
    have "find_walk l (child g M l (u div 64 ^ l)) (int u) s = Some (child g M 0 u)"
      using Suc.IH[of "child g M l (u div 64 ^ l)"] Suc.prems(1) by (cases l) simp_all
    then show ?thesis using False P(1) c by (simp add: idr_consts slot_id)
  qed
qed simp

section \<open>The free layers\<close>

fun free_chain :: "(addr \<rightharpoonup> idr_layer) \<Rightarrow> addr \<Rightarrow> addr list \<Rightarrow> bool" where
  "free_chain mem p [] \<longleftrightarrow> p = NULL"
| "free_chain mem p (q # qs) \<longleftrightarrow> p = q \<and> q \<noteq> NULL \<and>
     (\<exists>n. mem q = Some (idr_cache_ctor\<lparr>ary := (ary idr_cache_ctor)[0 := n]\<rparr>) \<and> free_chain mem n qs)"

definition idr_base ::
  "idr \<Rightarrow> nat \<Rightarrow> (nat \<Rightarrow> nat \<Rightarrow> addr) \<Rightarrow> (nat \<rightharpoonup> addr) \<Rightarrow> (nat \<Rightarrow> nat set) \<Rightarrow> (nat \<Rightarrow> nat \<Rightarrow> int) \<Rightarrow> addr list \<Rightarrow> bool" where
  "idr_base s L g M D c F \<longleftrightarrow> idr_tree (mem_i s) L g M D c \<and> free_chain (mem_i s) (id_free s) F \<and> distinct F \<and>
     (\<forall>l < L. \<forall>k. g l k \<notin> set F) \<and> id_free_cnt s = int (length F) \<and> \<not> lock_i s"

lemma free_chain_cong: "(\<And>q. q \<in> set F \<Longrightarrow> mem' q = mem q) \<Longrightarrow> free_chain mem' p F = free_chain mem p F"
  by (induction F arbitrary: p) auto

lemma free_chain_upd [simp]: "q \<notin> set F \<Longrightarrow> free_chain (mem(q := x)) p F = free_chain mem p F"
  by (rule free_chain_cong) auto

lemma free_chain_not_NULL: "free_chain mem p F \<Longrightarrow> NULL \<notin> set F"
  by (induction F arbitrary: p) auto

lemma layer_ok_cong:
  assumes "\<And>i. i < 64 \<Longrightarrow> child g' M' l (64 * k + i) = child g M l (64 * k + i) \<and> used g' M' l (64 * k + i) = used g M l (64 * k + i) \<and>
     full D' l (64 * k + i) = full D l (64 * k + i)"
  shows "layer_ok g' M' D' c l k P = layer_ok g M D c l k P"
proof -
  have "{i. i < 64 \<and> used g' M' l (64 * k + i)} = {i. i < 64 \<and> used g M l (64 * k + i)}" using assms by blast
  then show ?thesis using assms by (auto simp: layer_ok_def)
qed

lemma tree_mem_cong:
  assumes "\<And>l k. l < L \<Longrightarrow> g l k \<noteq> NULL \<Longrightarrow> mem' (g l k) = mem (g l k)"
  shows "idr_tree mem' L g M D c = idr_tree mem L g M D c"
  using assms by (auto simp: idr_tree_def)

lemma idr_baseD:
  assumes "idr_base s L g M D c F"
  shows "idr_tree (mem_i s) L g M D c" "free_chain (mem_i s) (id_free s) F" "distinct F" "l < L \<Longrightarrow> g l k \<notin> set F"
    "id_free_cnt s = int (length F)" "\<not> lock_i s"
  using assms by (auto simp: idr_base_def)

text \<open>The table on other places of its state.\<close>

lemma idr_base_place [simp]:
  "idr_base (s\<lparr>top_i := p\<rparr>) L g M D c F = idr_base s L g M D c F" "idr_base (s\<lparr>layers := n\<rparr>) L g M D c F = idr_base s L g M D c F"
  by (simp_all add: idr_base_def)

lemma put_layer_fields [simp]:
  "top_i (put_layer p P s) = top_i s" "layers (put_layer p P s) = layers s" "id_free (put_layer p P s) = id_free s"
  "id_free_cnt (put_layer p P s) = id_free_cnt s" "lock_i (put_layer p P s) = lock_i s" "mem_i (put_layer p P s) = (mem_i s)(p \<mapsto> P)"
  by (simp_all add: put_layer_def)

lemma alloc_layer_none: "idr_base s L g M D c [] \<Longrightarrow> alloc_layer s = Some (NULL, s)"
  by (simp add: idr_base_def alloc_layer_def spin_lock_def spin_unlock_def)

lemma ctor_ary [simp]: "length (ary idr_cache_ctor) = 64" "i < 64 \<Longrightarrow> ary idr_cache_ctor ! i = NULL" "bitmap idr_cache_ctor = 0" "count_l idr_cache_ctor = 0"
  "ary idr_cache_ctor \<noteq> []"
  by (simp_all add: idr_cache_ctor_def idr_consts)

lemma alloc_base:
  assumes "idr_base s L g M D c (a # F)"
  shows "\<exists>s'. alloc_layer s = Some (a, s') \<and> mem_i s' = (mem_i s)(a \<mapsto> idr_cache_ctor) \<and> top_i s' = top_i s \<and> layers s' = layers s \<and>
    idr_base s' L g M D c F \<and> a \<noteq> NULL \<and> a \<notin> set F \<and> (\<forall>l < L. \<forall>k. g l k \<noteq> a)"
proof -
  obtain n where n: "id_free s = a" "a \<noteq> NULL" "mem_i s a = Some (idr_cache_ctor\<lparr>ary := (ary idr_cache_ctor)[0 := n]\<rparr>)" "free_chain (mem_i s) n F"
    using idr_baseD(2)[OF assms] by auto
  have apart: "a \<notin> set F" "\<forall>l < L. \<forall>k. g l k \<noteq> a" using idr_baseD(3,4)[OF assms] by auto
  have z: "idr_cache_ctor\<lparr>ary := (ary idr_cache_ctor)[0 := n]\<rparr>\<lparr>ary := ((ary idr_cache_ctor)[0 := n])[0 := NULL]\<rparr> = idr_cache_ctor"
    by (simp add: idr_cache_ctor_def idr_consts list_update_same_conv)
  let ?s = "s\<lparr>id_free := n, id_free_cnt := id_free_cnt s - 1, mem_i := (mem_i s)(a \<mapsto> idr_cache_ctor)\<rparr>"
  have "alloc_layer s = Some (a, ?s)"
    using n z idr_baseD(6)[OF assms] by (simp add: alloc_layer_def spin_lock_def spin_unlock_def ary_at_def put_layer_def)
  moreover have "idr_tree (mem_i ?s) L g M D c"
    using idr_baseD(1)[OF assms] apart(2) by (subst tree_mem_cong[of L g "mem_i ?s" "mem_i s"]) auto
  moreover have "free_chain (mem_i ?s) n F" using n(4) apart(1) by simp
  ultimately show ?thesis using n(2) apart assms by (auto simp: idr_base_def)
qed

lemma absent:
  assumes "idr_tree mem L g M D c" "l < L" "g l (x div 64 ^ Suc l) = NULL"
  shows "M x = None"
proof (rule ccontr)
  assume "M x \<noteq> None"
  then have "g 0 (x div 64 ^ Suc 0) \<noteq> NULL" using idr_treeD(4)[OF assms(1), of x] by auto
  then show False using path_present[OF assms(1), of 0 x l] assms(2,3) by simp
qed

lemma full_in: "full D l j \<Longrightarrow> j * 64 ^ l \<in> D"
  by (simp add: full_def)

lemma absent_child:
  assumes "idr_tree mem L g M D c" "l < L" "g l j = NULL" "i < 64"
  shows "child g M l (64 * j + i) = NULL" "\<not> used g M l (64 * j + i)"
proof -
  have d: "(64 * j + i) div 64 = j" using assms(4) by simp
  have "M (64 * j + i) = None" if "l = 0" using absent[OF assms(1,2), of "64 * j + i"] that assms(3) d by simp
  moreover have "g l' (64 * j + i) = NULL" if "l = Suc l'" for l'
    using idr_treeD(2)[OF assms(1), of l' "64 * j + i"] that assms(2,3) d by (auto simp: parent_ok_def)
  ultimately show "child g M l (64 * j + i) = NULL" "\<not> used g M l (64 * j + i)" by (cases l; simp)+
qed

lemma absent_not_full:
  assumes "idr_tree mem L g M D c" "l < L" "g l j = NULL" "i < 64" "D l \<subseteq> dom M"
  shows "\<not> full (D l) l (64 * j + i)"
proof
  assume "full (D l) l (64 * j + i)"
  then have "(64 * j + i) * 64 ^ l \<in> dom M" using full_in assms(5) by blast
  moreover have "(64 * j + i) * 64 ^ l div 64 ^ Suc l = j" using assms(4) unfolding div_Suc by simp
  ultimately show False using absent[OF assms(1,2), of "(64 * j + i) * 64 ^ l"] assms(3) by (simp add: domIff)
qed

lemma new_layer_ok:
  assumes "idr_tree mem L g M D c" "l < L" "g l j = NULL" "D l \<subseteq> dom M"
  shows "layer_ok g M (D l) 0 l j idr_cache_ctor"
  using absent_child[OF assms(1-3)] absent_not_full[OF assms(1-3) _ assms(4)] by (auto simp: layer_ok_def)

section \<open>A new layer below another\<close>

lemma card_slot:
  assumes "i < 64" "\<not> Q i"
  shows "card {j. j < (64::nat) \<and> (j = i \<or> Q j)} = Suc (card {j. j < 64 \<and> Q j})"
proof -
  have "{j. j < 64 \<and> (j = i \<or> Q j)} = insert i {j. j < 64 \<and> Q j}" using assms(1) by auto
  then show ?thesis using assms(2) by simp
qed

lemma attach_layer_ok:
  assumes "layer_ok g M D c (Suc l) (j div 64) P" "g l j = NULL" "a \<noteq> NULL"
  shows "layer_ok (g(l := (g l)(j := a))) M D c (Suc l) (j div 64) (P\<lparr>ary := (ary P)[j mod 64 := a], count_l := count_l P + 1\<rparr>)"
proof -
  let ?k = "j div 64" and ?g = "g(l := (g l)(j := a))"
  have n: "64 * ?k + i = j \<longleftrightarrow> i = j mod 64" if "i < 64" for i using split_64[OF that, of ?k j] by simp
  have "{i. i < 64 \<and> used ?g M (Suc l) (64 * ?k + i)} = {i. i < 64 \<and> (i = j mod 64 \<or> g l (64 * ?k + i) \<noteq> NULL)}"
    using n assms(3) by auto
  moreover have "\<not> g l (64 * ?k + j mod 64) \<noteq> NULL" using assms(2) by simp
  ultimately have "card {i. i < 64 \<and> used ?g M (Suc l) (64 * ?k + i)} = Suc (card {i. i < 64 \<and> used g M (Suc l) (64 * ?k + i)})"
    using card_slot[of "j mod 64" "\<lambda>i. g l (64 * ?k + i) \<noteq> NULL"] by simp
  moreover have "(ary P)[j mod 64 := a] ! i = child ?g M (Suc l) (64 * ?k + i)" if "i < 64" for i
    using that n[OF that] assms(1) by (auto simp: layer_ok_def nth_list_update)
  ultimately show ?thesis using assms(1) by (auto simp: layer_ok_def)
qed

lemma attach_tree:
  assumes t: "idr_tree mem L g M D c" and l: "Suc l < L" and p: "g (Suc l) (j div 64) \<noteq> NULL" "mem (g (Suc l) (j div 64)) = Some P"
    and j: "g l j = NULL" "D l \<subseteq> dom M" "c l j = 0" and a: "a \<noteq> NULL" "\<forall>l < L. \<forall>k. g l k \<noteq> a"
  shows "idr_tree (mem(a \<mapsto> idr_cache_ctor, g (Suc l) (j div 64) \<mapsto> P\<lparr>ary := (ary P)[j mod 64 := a], count_l := count_l P + 1\<rparr>))
    L (g(l := (g l)(j := a))) M D c"
proof -
  let ?g = "g(l := (g l)(j := a))" and ?p = "g (Suc l) (j div 64)"
  let ?mem = "mem(a \<mapsto> idr_cache_ctor, ?p \<mapsto> P\<lparr>ary := (ary P)[j mod 64 := a], count_l := count_l P + 1\<rparr>)"
  have same: "layer_ok ?g M (D l') (c l' k) l' k Q = layer_ok g M (D l') (c l' k) l' k Q" if "l' \<noteq> Suc l \<or> k \<noteq> j div 64" for l' k Q
  proof (rule layer_ok_cong)
    fix i :: nat assume "i < 64"
    then have "l' = Suc l \<longrightarrow> 64 * k + i \<noteq> j" using that by auto
    then show "child ?g M l' (64 * k + i) = child g M l' (64 * k + i) \<and> used ?g M l' (64 * k + i) = used g M l' (64 * k + i) \<and>
      full (D l') l' (64 * k + i) = full (D l') l' (64 * k + i)" by (cases l') auto
  qed
  have layer: "\<exists>Q. ?mem (?g l' k) = Some Q \<and> layer_ok ?g M (D l') (c l' k) l' k Q" if lk: "l' < L" "?g l' k \<noteq> NULL" for l' k
  proof -
    consider "l' = l \<and> k = j" | "l' = Suc l \<and> k = j div 64" | "\<not> (l' = l \<and> k = j)" "\<not> (l' = Suc l \<and> k = j div 64)" by blast
    then show ?thesis
    proof cases
      case 1
      then show ?thesis using same[of l j idr_cache_ctor] new_layer_ok[where j = j, OF t _ j(1,2)] lk(1) a(2) j(3) l by auto
    next
      case 2
      obtain P' where "mem ?p = Some P'" "layer_ok g M (D (Suc l)) (c (Suc l) (j div 64)) (Suc l) (j div 64) P'" using idr_treeD(1)[OF t l p(1)] by blast
      then show ?thesis using attach_layer_ok[of g M "D (Suc l)" _ l j P a] p(2) j(1) a(1) 2 by auto
    next
      case 3
      then have g: "?g l' k = g l' k" by auto
      then obtain Q where "mem (g l' k) = Some Q" "layer_ok g M (D l') (c l' k) l' k Q" using idr_treeD(1)[OF t lk(1)] lk(2) by auto
      moreover have "g l' k \<noteq> ?p" using idr_treeD(3)[OF t, of "l'" k "Suc l" "j div 64"] lk l p(1) 3(2) by auto
      ultimately show ?thesis using same[of l' k Q] 3 a(2) lk(1) g by auto
    qed
  qed
  have parent: "parent_ok L ?g l' k" if "l' < L" "?g l' k \<noteq> NULL" for l' k
    using that idr_treeD(2)[OF t, of l' k] l p(1) a(1) by (cases "l' = l \<and> k = j") (auto simp: parent_ok_def split: if_splits)
  have inj: "l' = l'' \<and> k' = k''" if "?g l' k' = ?g l'' k''" "l' < L" "l'' < L" "?g l' k' \<noteq> NULL" for l' l'' k' k''
    using that idr_treeD(3)[OF t, of l' k' l'' k''] a(2) by (auto split: if_splits)
  have "0 < L \<and> ?g 0 (x div 64) \<noteq> NULL" if "x \<in> dom M" for x
    using idr_treeD(4)[OF t] that a(1) by auto
  then show ?thesis using layer parent inj unfolding idr_tree_def by blast
qed

section \<open>A change of one layer\<close>

lemma tree_change:
  assumes t: "idr_tree mem L g M D c" and l: "l < L" "g l k \<noteq> NULL" and P: "layer_ok g M' (D' l) (c' l k) l k P"
    and others: "\<And>l' k' Q. l' < L \<Longrightarrow> (l', k') \<noteq> (l, k) \<Longrightarrow> layer_ok g M (D l') (c l' k') l' k' Q \<Longrightarrow> layer_ok g M' (D' l') (c' l' k') l' k' Q"
    and M': "\<And>x. M' x \<noteq> None \<Longrightarrow> M x \<noteq> None \<or> g 0 (x div 64) \<noteq> NULL"
  shows "idr_tree (mem(g l k \<mapsto> P)) L g M' D' c'"
proof -
  have "\<exists>Q. (mem(g l k \<mapsto> P)) (g l' k') = Some Q \<and> layer_ok g M' (D' l') (c' l' k') l' k' Q" if lk: "l' < L" "g l' k' \<noteq> NULL" for l' k'
  proof (cases "(l', k') = (l, k)")
    case True
    then show ?thesis using P by auto
  next
    case False
    then have "g l' k' \<noteq> g l k" using idr_treeD(3)[OF t, of l' k' l k] lk l by auto
    moreover obtain Q where "mem (g l' k') = Some Q" "layer_ok g M (D l') (c l' k') l' k' Q" using idr_treeD(1)[OF t lk] by blast
    ultimately show ?thesis using others[OF lk(1) False] by auto
  qed
  moreover have "0 < L \<and> g 0 (x div 64) \<noteq> NULL" if "x \<in> dom M'" for x
    using M'[of x] that idr_treeD(4)[OF t, of x] l(1) by auto
  ultimately show ?thesis using t unfolding idr_tree_def by blast
qed

lemma full_bits: "w = IDR_FULL \<longleftrightarrow> (\<forall>i < 64. bit w i)"
proof -
  have "IDR_FULL = - 1" by (simp add: IDR_FULL_def)
  then show ?thesis by (auto simp: bit_eq_iff)
qed

lemma full_Suc: "full D (Suc l) k \<longleftrightarrow> (\<forall>i < 64. full D l (64 * k + i))"
proof
  assume f: "full D (Suc l) k"
  have "x div 64 ^ Suc l = k" if "x div 64 ^ l = 64 * k + i" "i < 64" for x i using that unfolding div_Suc by simp
  then show "\<forall>i < 64. full D l (64 * k + i)" using f unfolding full_def by blast
next
  assume f: "\<forall>i < 64. full D l (64 * k + i)"
  show "full D (Suc l) k" unfolding full_def
  proof (intro allI impI)
    fix x assume "x div 64 ^ Suc l = k"
    then have "x div 64 ^ l = 64 * k + digit x l" using path_id[of x l] by simp
    then show "x \<in> D" using f digit_less[of x l] unfolding full_def by blast
  qed
qed

lemma count_pos:
  assumes "layer_ok g M D c l k P"
  shows "c < count_l P \<longleftrightarrow> (\<exists>i < 64. used g M l (64 * k + i))"
proof -
  have "count_l P = int (card {i. i < 64 \<and> used g M l (64 * k + i)}) + c" using assms by (simp add: layer_ok_def)
  moreover have "0 < card {i. i < 64 \<and> used g M l (64 * k + i)} \<longleftrightarrow> {i. i < 64 \<and> used g M l (64 * k + i)} \<noteq> {}" by (simp add: card_gt_0_iff)
  ultimately show ?thesis by auto
qed

end
