(* ===== verification/Idr_Alloc.thy ===== *)
theory Idr_Alloc
  imports Idr_Tree
begin

text \<open>
  Getting the lowest free id: the walk down to its leaf, which makes the layers that are missing, the mark
  in the layers that become full, and a new layer on top when the whole tree is full.
\<close>

section \<open>One step down\<close>

lemma xor_low:
  fixes k :: int
  assumes "0 \<le> n" "n < 64"
  shows "64 * k XOR n = 64 * k + n"
proof -
  have n: "n = take_bit 6 n" using assms by (simp add: take_bit_eq_mod)
  have "push_bit 6 k AND take_bit 6 n = 0" by (rule bit_eqI) (auto simp: bit_simps)
  then have "64 * k AND n = 0" using n by (simp add: push_bit_eq_mult mult.commute)
  then show ?thesis by (simp add: disjunctive_add_eq_xor)
qed

lemma replace_slot:
  assumes "a < 64" "b < 64"
  shows "(int (64 * k + a) XOR int a) XOR int b = int (64 * k + b)"
proof -
  have "int (64 * k + a) XOR int a = 64 * int k" using xor_low[of "int a" "int k"] assms(1) by (simp flip: xor.assoc) (metis xor.assoc xor_self_eq xor.right_neutral)
  then show ?thesis using xor_low[of "int b" "int k"] assms(2) by simp
qed

lemma full_below:
  assumes "\<forall>x < u. x \<in> D" "j < u div 64 ^ l"
  shows "full D l j"
  unfolding full_def
proof (intro allI impI)
  fix x assume "x div 64 ^ l = j"
  then have "x div 64 ^ l < u div 64 ^ l" using assms(2) by simp
  then have "x < u" by (meson div_le_mono leD leI)
  then show "x \<in> D" using assms(1) by blast
qed

lemma not_full_at: "u \<notin> D \<Longrightarrow> \<not> full D l (u div 64 ^ l)"
  by (auto simp: full_def)

context bitops_laws
begin

lemma next_slot:
  assumes P: "layer_ok g M (dom M) c l (u div 64 ^ Suc l) P" and u: "M u = None" "\<forall>x < u. M x \<noteq> None"
    and v: "v \<le> u" "v div 64 ^ Suc l = u div 64 ^ Suc l"
  shows "find_next_bit B (NOT (bitmap P)) 64 (digit v l) = digit u l"
proof (rule find_hit)
  have "v div 64 ^ l \<le> u div 64 ^ l" using v(1) by (rule div_le_mono)
  then show "digit v l \<le> digit u l" using path_id[of v l] path_id[of u l] v(2) by linarith
  have "\<not> full (dom M) l (u div 64 ^ l)" by (rule not_full_at) (use u(1) in auto)
  then show "bit (NOT (bitmap P)) (digit u l)" using P path_id[of u l] by (simp add: layer_ok_def bit_not_iff)
  fix j assume "digit v l \<le> j" "j < digit u l"
  then have "64 * (u div 64 ^ Suc l) + j < u div 64 ^ l" "j < 64" using path_id[of u l] digit_less[of u l] by linarith+
  moreover from this(1) have "full (dom M) l (64 * (u div 64 ^ Suc l) + j)" by (rule full_below[rotated]) (use u(2) in auto)
  ultimately show "\<not> bit (NOT (bitmap P)) j" using P by (simp add: layer_ok_def bit_not_iff)
qed simp_all

end

text \<open>The id after the step agrees with the lowest free id down to this level.\<close>

lemma step_id:
  assumes "v \<le> u" "v div 64 ^ Suc l = u div 64 ^ Suc l" "u < 2 ^ 30" "l < 5"
  shows "\<exists>w. (if int (digit u l) \<noteq> int (digit v l) then shl32 (drop_bit (6 * l) (int v) XOR int (digit v l) XOR int (digit u l)) (6 * l) else Some (int v)) =
      Some (int w) \<and> w \<le> u \<and> w div 64 ^ l = u div 64 ^ l"
proof (cases "digit u l = digit v l")
  case True
  then have "v div 64 ^ l = u div 64 ^ l" using path_id[of v l] path_id[of u l] assms(2) by simp
  then show ?thesis using True assms(1) by auto
next
  case False
  have "drop_bit (6 * l) (int v) = int (64 * (u div 64 ^ Suc l) + digit v l)" using path_id[of v l] assms(2) by (simp only: shift_id)
  then have x: "drop_bit (6 * l) (int v) XOR int (digit v l) XOR int (digit u l) = int (u div 64 ^ l)"
    using replace_slot[of "digit v l" "digit u l" "u div 64 ^ Suc l"] by (simp only: xor.assoc path_id digit_less)
  let ?w = "u div 64 ^ l * 64 ^ l"
  have w: "?w \<le> u" "?w div 64 ^ l = u div 64 ^ l" by simp_all
  have "int ?w \<le> int u" "int u < 2 ^ 31" using w(1) assms(3) by (simp_all del: of_nat_mult)
  then have "int ?w < 2 ^ 31" by (rule le_less_trans)
  moreover have "- (2 ^ 31) \<le> int ?w" by (rule order_trans[of _ 0]) simp_all
  ultimately have "shl32 (int (u div 64 ^ l)) (6 * l) = Some (int ?w)"
    using assms(4) by (simp add: shl32_def int32_def push_bit_eq_mult power_mult)
  then show ?thesis using False x w by (intro exI[of _ ?w]) simp
qed

section \<open>The walk to the leaf\<close>

text \<open>\<open>g'\<close> has the layers of \<open>g\<close> and more of the path to \<open>u\<close>.\<close>

definition grown :: "(nat \<Rightarrow> nat \<Rightarrow> addr) \<Rightarrow> (nat \<Rightarrow> nat \<Rightarrow> addr) \<Rightarrow> nat \<Rightarrow> bool" where
  "grown g g' u \<longleftrightarrow> (\<forall>l k. g' l k = g l k \<or> g l k = NULL \<and> k = u div 64 ^ Suc l)"

lemma grown_refl [simp]: "grown g g u"
  by (simp add: grown_def)

lemma grown_trans: "grown g g' u \<Longrightarrow> grown g' g'' u \<Longrightarrow> grown g g'' u"
  unfolding grown_def by metis

definition pa_ok :: "addr option list \<Rightarrow> nat \<Rightarrow> (nat \<Rightarrow> nat \<Rightarrow> addr) \<Rightarrow> nat \<Rightarrow> nat \<Rightarrow> bool" where
  "pa_ok pa L g u lo \<longleftrightarrow> length pa = 6 \<and> pa ! L = Some NULL \<and>
     (\<forall>j. lo \<le> j \<and> j < L \<longrightarrow> g j (u div 64 ^ Suc j) \<noteq> NULL \<and> pa ! j = Some (g j (u div 64 ^ Suc j)))"

lemma pa_ok_grown: "pa_ok pa L g u lo \<Longrightarrow> grown g g' u \<Longrightarrow> pa_ok pa L g' u lo"
  unfolding pa_ok_def grown_def by metis

lemma pa_ok_put:
  assumes "pa_ok pa L g u (Suc l)" "l < L" "L \<le> 5" "g l (u div 64 ^ Suc l) = p" "p \<noteq> NULL"
  shows "pa_ok (pa[l := Some p]) L g u l"
proof -
  have "g j (u div 64 ^ Suc j) \<noteq> NULL \<and> pa[l := Some p] ! j = Some (g j (u div 64 ^ Suc j))" if "l \<le> j" "j < L" for j
    using assms that by (cases "j = l") (auto simp: pa_ok_def)
  then show ?thesis using assms(1,2) by (simp add: pa_ok_def)
qed

lemma layer_below_ok:
  assumes base: "idr_base s L g M (\<lambda>_. dom M) (\<lambda>_ _. 0) F" and l: "Suc l < L" and p: "g (Suc l) (j div 64) \<noteq> NULL"
    and j: "j = u div 64 ^ Suc l"
  shows "F = [] \<and> layer_below (g (Suc l) (j div 64)) (j mod 64) s = Some (False, s) \<or>
    (\<exists>s' g' F'. layer_below (g (Suc l) (j div 64)) (j mod 64) s = Some (True, s') \<and> idr_base s' L g' M (\<lambda>_. dom M) (\<lambda>_ _. 0) F' \<and>
       g' l j \<noteq> NULL \<and> length F \<le> Suc (length F') \<and> grown g g' u \<and> top_i s' = top_i s \<and> layers s' = layers s)"
proof -
  note t = idr_baseD(1)[OF base]
  obtain P where P: "mem_i s (g (Suc l) (j div 64)) = Some P" "layer_ok g M (dom M) 0 (Suc l) (j div 64) P" using idr_treeD(1)[OF t l p] by blast
  have c: "ary_at P (j mod 64) = Some (g l j)" using P(2) by (simp add: ary_at_def layer_ok_def)
  consider "g l j \<noteq> NULL" | "g l j = NULL" "F = []" | a F' where "g l j = NULL" "F = a # F'" by (cases F) auto
  then show ?thesis
  proof cases
    case 1
    then show ?thesis using P(1) c base
      by (intro disjI2 exI[of _ s] exI[of _ g] exI[of _ F]) (simp add: layer_below_def)
  next
    case 2
    then show ?thesis using P(1) c alloc_layer_none[OF base[unfolded 2(2)]] by (simp add: layer_below_def)
  next
    case (3 a F')
    note True = 3(1) and F' = 3(2)
    obtain s1 where s1: "alloc_layer s = Some (a, s1)" "mem_i s1 = (mem_i s)(a \<mapsto> idr_cache_ctor)" "top_i s1 = top_i s" "layers s1 = layers s"
      "idr_base s1 L g M (\<lambda>_. dom M) (\<lambda>_ _. 0) F'" "a \<noteq> NULL" "a \<notin> set F'" "\<forall>l < L. \<forall>k. g l k \<noteq> a"
      using alloc_base[OF base[unfolded F']] by blast
    have pa: "g (Suc l) (j div 64) \<noteq> a" using s1(8) l by blast
    let ?P = "P\<lparr>ary := (ary P)[j mod 64 := a], count_l := count_l P + 1\<rparr>" and ?g = "g(l := (g l)(j := a))"
    let ?s = "put_layer (g (Suc l) (j div 64)) ?P s1"
    have tr: "idr_tree (mem_i ?s) L ?g M (\<lambda>_. dom M) (\<lambda>_ _. 0)"
      using attach_tree[OF t l p P(1) True _ _ s1(6,8)] s1(2) by (simp add: put_layer_def)
    have "g (Suc l) (j div 64) \<notin> set F'" using idr_baseD(4)[OF s1(5)] l by blast
    then have "idr_base ?s L ?g M (\<lambda>_. dom M) (\<lambda>_ _. 0) F'" using s1(5,7) tr by (auto simp: idr_base_def put_layer_def)
    moreover have "layer_below (g (Suc l) (j div 64)) (j mod 64) s = Some (True, ?s)"
      using P(1) c True s1(1,2,6) pa by (simp add: layer_below_def)
    moreover have "grown g ?g u" using True j by (simp add: grown_def)
    ultimately show ?thesis using s1(3,4,6) F' by (intro disjI2 exI[of _ ?s] exI[of _ ?g] exI[of _ F']) (simp add: put_layer_def)
  qed
qed

lemma small_id: "w \<le> u \<Longrightarrow> u < 2 ^ 30 \<Longrightarrow> (2147483648 \<le> int w mod 2 ^ 32 \<or> int w < 0) = False"
  by simp

context bitops_laws
begin

lemma find_step:
  assumes u: "M u = None" "\<forall>x < u. M x \<noteq> None" "u < 2 ^ 30" and l: "l < 5" and P: "mem_i s p = Some P" "layer_ok g M (dom M) c l (u div 64 ^ Suc l) P"
    and v: "v \<le> u" "v div 64 ^ Suc l = u div 64 ^ Suc l"
  shows "\<exists>w. w \<le> u \<and> w div 64 ^ l = u div 64 ^ l \<and> find_leaf B pa p l (int v) s =
    (if l = 0 then Some (Inr (p, digit u l, int w, pa), s)
     else do {
       (ok, s) \<leftarrow> layer_below p (digit u l) s;
       if \<not> ok then Some (Inl (-1, int w), s)
       else do {
         pa \<leftarrow> pa_put pa l p;
         P \<leftarrow> mem_i s p;
         c \<leftarrow> ary_at P (digit u l);
         find_leaf B pa c (l - 1) (int w) s } })"
proof -
  have m: "find_next_bit B (NOT (bitmap P)) 64 (digit v l) = digit u l" by (rule next_slot[OF P(2) u(1,2) v])
  obtain w where w: "(if int (digit u l) \<noteq> int (digit v l) then shl32 (drop_bit (6 * l) (int v) XOR int (digit v l) XOR int (digit u l)) (6 * l) else Some (int v)) =
      Some (int w)" "w \<le> u" "w div 64 ^ l = u div 64 ^ l" using step_id[OF v u(3) l] by blast
  have "(digit u l = 64) = False" by (metis digit_less less_irrefl)
  then have "find_leaf B pa p l (int v) s =
    (if l = 0 then Some (Inr (p, digit u l, int w, pa), s)
     else do {
       (ok, s) \<leftarrow> layer_below p (digit u l) s;
       if \<not> ok then Some (Inl (-1, int w), s)
       else do {
         pa \<leftarrow> pa_put pa l p;
         P \<leftarrow> mem_i s p;
         c \<leftarrow> ary_at P (digit u l);
         find_leaf B pa c (l - 1) (int w) s } })"
    by (subst find_leaf.simps) (simp only: P(1) bind.bind_lunit Let_def idr_consts slot_id nat_int m w(1) small_id[OF w(2) u(3)] if_False)
  then show ?thesis using w(2,3) by blast
qed

lemma find_leaf_ok:
  assumes L: "L \<le> 5" and u: "M u = None" "\<forall>x < u. M x \<noteq> None" "u < 2 ^ 30"
    and base: "idr_base s L g M (\<lambda>_. dom M) (\<lambda>_ _. 0) F" and l: "l < L" and p: "g l (u div 64 ^ Suc l) \<noteq> NULL"
    and v: "v \<le> u" "v div 64 ^ Suc l = u div 64 ^ Suc l" and pa: "pa_ok pa L g u (Suc l)"
  shows "\<exists>s' g' F'. idr_base s' L g' M (\<lambda>_. dom M) (\<lambda>_ _. 0) F' \<and> grown g g' u \<and> top_i s' = top_i s \<and> layers s' = layers s \<and>
    (length F < l \<and> (\<exists>w. find_leaf B pa (g l (u div 64 ^ Suc l)) l (int v) s = Some (Inl (-1, w), s')) \<or>
     (\<exists>pa'. find_leaf B pa (g l (u div 64 ^ Suc l)) l (int v) s = Some (Inr (g' 0 (u div 64), u mod 64, int u, pa'), s') \<and>
        pa_ok pa' L g' u 1 \<and> g' 0 (u div 64) \<noteq> NULL))"
  using base l p v pa
proof (induction l arbitrary: s g v pa F)
  case (0 s g v pa F)
  obtain P where P: "mem_i s (g 0 (u div 64 ^ Suc 0)) = Some P" "layer_ok g M (dom M) 0 0 (u div 64 ^ Suc 0) P"
    using idr_treeD(1)[OF idr_baseD(1)[OF 0(1)] 0(2,3)] by blast
  obtain w where w: "w div 64 ^ 0 = u div 64 ^ 0" "find_leaf B pa (g 0 (u div 64 ^ Suc 0)) 0 (int v) s = Some (Inr (g 0 (u div 64 ^ Suc 0), digit u 0, int w, pa), s)"
    using find_step[OF u _ P 0(4,5), of pa] by auto
  then show ?case using 0(1,3,6) by (intro exI[of _ s] exI[of _ g] exI[of _ F]) (auto simp: digit_def)
next
  case (Suc l s g v pa F)
  let ?j = "u div 64 ^ Suc l" and ?p = "g (Suc l) (u div 64 ^ Suc (Suc l))"
  have j: "?j div 64 = u div 64 ^ Suc (Suc l)" "?j mod 64 = digit u (Suc l)" by (simp_all only: div_Suc[of u "Suc l"] digit_def)
  obtain P where P: "mem_i s ?p = Some P" "layer_ok g M (dom M) 0 (Suc l) (u div 64 ^ Suc (Suc l)) P"
    using idr_treeD(1)[OF idr_baseD(1)[OF Suc.prems(1)] Suc.prems(2,3)] by blast
  have l5: "Suc l < 5" using Suc.prems(2) L by auto
  obtain w where w: "w \<le> u" "w div 64 ^ Suc l = ?j" "find_leaf B pa ?p (Suc l) (int v) s = do {
       (ok, s) \<leftarrow> layer_below ?p (digit u (Suc l)) s;
       if \<not> ok then Some (Inl (-1, int w), s)
       else do {
         pa \<leftarrow> pa_put pa (Suc l) ?p;
         P \<leftarrow> mem_i s ?p;
         c \<leftarrow> ary_at P (digit u (Suc l));
         find_leaf B pa c l (int w) s } }"
    using find_step[OF u l5 P Suc.prems(4,5), of pa] by (simp only: nat.distinct if_False diff_Suc_1) blast
  have "F = [] \<and> layer_below ?p (digit u (Suc l)) s = Some (False, s) \<or> (\<exists>s1 g1 F1. layer_below ?p (digit u (Suc l)) s = Some (True, s1) \<and>
      idr_base s1 L g1 M (\<lambda>_. dom M) (\<lambda>_ _. 0) F1 \<and> g1 l ?j \<noteq> NULL \<and> length F \<le> Suc (length F1) \<and> grown g g1 u \<and> top_i s1 = top_i s \<and> layers s1 = layers s)"
    using layer_below_ok[OF Suc.prems(1,2), of ?j u] Suc.prems(3) unfolding j by blast
  then show ?case
  proof (elim disjE exE conjE)
    assume "F = []" "layer_below ?p (digit u (Suc l)) s = Some (False, s)"
    then show ?thesis using w(3) Suc.prems(1) by (intro exI[of _ s] exI[of _ g] exI[of _ F]) simp
  next
    fix s1 g1 F1
    assume b: "layer_below ?p (digit u (Suc l)) s = Some (True, s1)" "idr_base s1 L g1 M (\<lambda>_. dom M) (\<lambda>_ _. 0) F1"
      "g1 l ?j \<noteq> NULL" "length F \<le> Suc (length F1)" "grown g g1 u" "top_i s1 = top_i s" "layers s1 = layers s"
    have p1: "g1 (Suc l) (u div 64 ^ Suc (Suc l)) = ?p" using b(5) Suc.prems(3) unfolding grown_def by metis
    obtain P1 where P1: "mem_i s1 ?p = Some P1" "layer_ok g1 M (dom M) 0 (Suc l) (u div 64 ^ Suc (Suc l)) P1"
      using idr_treeD(1)[OF idr_baseD(1)[OF b(2)] Suc.prems(2), of "u div 64 ^ Suc (Suc l)"] Suc.prems(3) p1 by auto
    have c: "ary_at P1 (digit u (Suc l)) = Some (g1 l ?j)" using P1(2) path_id[of u "Suc l"] by (simp add: ary_at_def layer_ok_def del: power_Suc)
    let ?pa = "pa[Suc l := Some ?p]"
    have "pa_put pa (Suc l) ?p = Some ?pa" using Suc.prems(6) l5 by (simp add: pa_put_def pa_ok_def)
    then have r: "find_leaf B pa ?p (Suc l) (int v) s = find_leaf B ?pa (g1 l ?j) l (int w) s1" using w(3) b(1) P1(1) c by simp
    have "pa_ok ?pa L g1 u (Suc l)" by (rule pa_ok_put[OF pa_ok_grown[OF Suc.prems(6) b(5)] Suc.prems(2) L p1 Suc.prems(3)])
    note IH = Suc.IH[OF b(2) _ b(3) w(1,2) this]
    have "length F1 < l \<Longrightarrow> length F < Suc l" "l < L" using b(4) Suc.prems(2) by simp_all
    then show ?thesis using IH unfolding r b(6,7) using grown_trans[OF b(5)] by blast
  qed
qed

end

section \<open>Planting the pointer\<close>

text \<open>The ids that the bitmaps show when the layers below level \<open>lo\<close> have been brought up to date.\<close>

definition marked :: "nat set \<Rightarrow> nat \<Rightarrow> nat \<Rightarrow> nat \<Rightarrow> nat set" where
  "marked D u lo l = (if l < lo then insert u D else D)"

lemma full_other: "j \<noteq> u div 64 ^ l \<Longrightarrow> full (insert u D) l j = full D l j"
  by (auto simp: full_def)

context bitops_laws
begin

lemma plant_ok:
  assumes base: "idr_base s L g M (\<lambda>_. dom M) (\<lambda>_ _. 0) F" and L: "0 < L" and p: "g 0 (u div 64) \<noteq> NULL" "mem_i s (g 0 (u div 64)) = Some P"
    and u: "M u = None"
  shows "u mod 64 < length (ary P)" "idr_base (put_layer (g 0 (u div 64)) (P\<lparr>ary := (ary P)[u mod 64 := ptr], bitmap := b_set_bit B (u mod 64) (bitmap P),
      count_l := count_l P + 1\<rparr>) s) L g (M(u \<mapsto> ptr)) (marked (dom M) u 1) (\<lambda>_ _. 0) F"
proof -
  note t = idr_baseD(1)[OF base]
  let ?P = "P\<lparr>ary := (ary P)[u mod 64 := ptr], bitmap := b_set_bit B (u mod 64) (bitmap P), count_l := count_l P + 1\<rparr>"
  have P: "layer_ok g M (dom M) 0 0 (u div 64) P" using idr_treeD(1)[OF t L p(1)] p(2) by auto
  then show "u mod 64 < length (ary P)" by (simp add: layer_ok_def)
  have n: "64 * (u div 64) + i = u \<longleftrightarrow> i = u mod 64" if "i < 64" for i using split_64[OF that, of "u div 64" u] by simp
  have "{i. i < 64 \<and> used g (M(u \<mapsto> ptr)) 0 (64 * (u div 64) + i)} = {i. i < 64 \<and> (i = u mod 64 \<or> M (64 * (u div 64) + i) \<noteq> None)}" using n by auto
  then have "card {i. i < 64 \<and> used g (M(u \<mapsto> ptr)) 0 (64 * (u div 64) + i)} = Suc (card {i. i < 64 \<and> used g M 0 (64 * (u div 64) + i)})"
    using card_slot[of "u mod 64" "\<lambda>i. M (64 * (u div 64) + i) \<noteq> None"] u by simp
  moreover have "(ary P)[u mod 64 := ptr] ! i = child g (M(u \<mapsto> ptr)) 0 (64 * (u div 64) + i)" if "i < 64" for i
    using that n[OF that] P by (auto simp: layer_ok_def nth_list_update)
  moreover have "bit (b_set_bit B (u mod 64) (bitmap P)) i \<longleftrightarrow> full (insert u (dom M)) 0 (64 * (u div 64) + i)" if "i < 64" for i
    using that n[OF that] P by (auto simp: layer_ok_def set_bit_iff full_def)
  ultimately have ok: "layer_ok g (M(u \<mapsto> ptr)) (marked (dom M) u 1 0) 0 0 (u div 64) ?P" using P by (auto simp: layer_ok_def marked_def)
  have "layer_ok g (M(u \<mapsto> ptr)) (marked (dom M) u 1 l) 0 l k Q"
    if lk: "(l, k) \<noteq> (0, u div 64)" "layer_ok g M (dom M) 0 l k Q" for l k Q
  proof -
    have "layer_ok g (M(u \<mapsto> ptr)) (marked (dom M) u 1 l) 0 l k Q = layer_ok g M (dom M) 0 l k Q"
    proof (rule layer_ok_cong)
      fix i :: nat assume "i < 64"
      then have "l = 0 \<longrightarrow> 64 * k + i \<noteq> u" using lk(1) by auto
      then show "child g (M(u \<mapsto> ptr)) l (64 * k + i) = child g M l (64 * k + i) \<and> used g (M(u \<mapsto> ptr)) l (64 * k + i) = used g M l (64 * k + i) \<and>
        full (marked (dom M) u 1 l) l (64 * k + i) = full (dom M) l (64 * k + i)" by (cases l) (auto simp: marked_def full_def)
    qed
    then show ?thesis using lk(2) by simp
  qed
  then have "idr_tree ((mem_i s)(g 0 (u div 64) \<mapsto> ?P)) L g (M(u \<mapsto> ptr)) (marked (dom M) u 1) (\<lambda>_ _. 0)"
    using tree_change[where D' = "marked (dom M) u 1" and c' = "\<lambda>_ _. 0", OF t L p(1) ok] p(1) by (auto split: if_splits)
  moreover have "g 0 (u div 64) \<notin> set F" using idr_baseD(4)[OF base L] .
  ultimately show "idr_base (put_layer (g 0 (u div 64)) ?P s) L g (M(u \<mapsto> ptr)) (marked (dom M) u 1) (\<lambda>_ _. 0) F"
    using base by (simp add: idr_base_def put_layer_def)
qed

end

lemma unmarked_above:
  assumes "\<not> full (insert u D) (Suc l) (u div 64 ^ Suc l)" "Suc l \<le> j"
  shows "full (insert u D) j b = full D j b"
proof (cases "b = u div 64 ^ j")
  case True
  obtain x where x: "x div 64 ^ Suc l = u div 64 ^ Suc l" "x \<notin> insert u D" using assms(1) by (auto simp: full_def)
  have "y div 64 ^ j = y div 64 ^ Suc l div 64 ^ (j - Suc l)" for y :: nat
    using assms(2) by (simp flip: div_mult2_eq power_add del: power_Suc)
  then have "x div 64 ^ j = u div 64 ^ j" using x(1) by simp
  then show ?thesis using x(2) True by (auto simp: full_def)
qed (simp add: full_other)

context bitops_laws
begin

lemma mark_bit_ok:
  assumes base: "idr_base s L g M (marked D u (Suc l)) (\<lambda>_ _. 0) F" and l: "Suc l < L" and q: "g (Suc l) (u div 64 ^ Suc (Suc l)) \<noteq> NULL"
    "mem_i s (g (Suc l) (u div 64 ^ Suc (Suc l))) = Some Q" and f: "full (insert u D) (Suc l) (u div 64 ^ Suc l)"
  shows "idr_base (put_layer (g (Suc l) (u div 64 ^ Suc (Suc l))) (Q\<lparr>bitmap := b_set_bit B (digit u (Suc l)) (bitmap Q)\<rparr>) s) L g M
    (marked D u (Suc (Suc l))) (\<lambda>_ _. 0) F"
proof -
  note t = idr_baseD(1)[OF base]
  let ?k = "u div 64 ^ Suc (Suc l)" let ?Q = "Q\<lparr>bitmap := b_set_bit B (digit u (Suc l)) (bitmap Q)\<rparr>"
  have Q: "layer_ok g M D 0 (Suc l) ?k Q" using idr_treeD(1)[OF t l q(1)] q(2) by (auto simp: marked_def)
  have "bit (b_set_bit B (digit u (Suc l)) (bitmap Q)) i = full (insert u D) (Suc l) (64 * ?k + i)" if i: "i < 64" for i
  proof (cases "i = digit u (Suc l)")
    case True
    then show ?thesis using f path_id[of u "Suc l"] by (simp add: set_bit_iff del: power_Suc)
  next
    case False
    then have "64 * ?k + i \<noteq> u div 64 ^ Suc l" using child_number[OF i] by blast
    then show ?thesis using full_other[of "64 * ?k + i" u "Suc l" D] Q i False by (simp add: set_bit_iff layer_ok_def del: power_Suc)
  qed
  then have ok: "layer_ok g M (marked D u (Suc (Suc l)) (Suc l)) 0 (Suc l) ?k ?Q" using Q by (auto simp: layer_ok_def marked_def)
  have "layer_ok g M (marked D u (Suc (Suc l)) l') 0 l' k P" if "(l', k) \<noteq> (Suc l, ?k)" "layer_ok g M (marked D u (Suc l) l') 0 l' k P" for l' k P
  proof -
    have "layer_ok g M (marked D u (Suc (Suc l)) l') 0 l' k P = layer_ok g M (marked D u (Suc l) l') 0 l' k P"
    proof (rule layer_ok_cong)
      fix i :: nat assume i: "i < 64"
      then have "l' = Suc l \<longrightarrow> 64 * k + i \<noteq> u div 64 ^ l'" using child_number[OF i, of k u l'] that(1) by auto
      then show "child g M l' (64 * k + i) = child g M l' (64 * k + i) \<and> used g M l' (64 * k + i) = used g M l' (64 * k + i) \<and>
        full (marked D u (Suc (Suc l)) l') l' (64 * k + i) = full (marked D u (Suc l) l') l' (64 * k + i)"
        using full_other[of "64 * k + i" u l' D] by (cases "l' = Suc l") (auto simp: marked_def simp del: power_Suc)
    qed
    then show ?thesis using that(2) by simp
  qed
  then have "idr_tree ((mem_i s)(g (Suc l) ?k \<mapsto> ?Q)) L g M (marked D u (Suc (Suc l))) (\<lambda>_ _. 0)"
    using tree_change[where D' = "marked D u (Suc (Suc l))" and c' = "\<lambda>_ _. 0", OF t l q(1) ok] by auto
  then show ?thesis using base idr_baseD(4)[OF base l] by (simp add: idr_base_def put_layer_def)
qed

lemma all_marked:
  assumes "idr_base s L g M (marked D u n) (\<lambda>_ _. 0) F" "\<And>l j. n \<le> l \<Longrightarrow> l < L \<Longrightarrow> full (insert u D) l j = full D l j"
  shows "idr_base s L g M (\<lambda>_. insert u D) (\<lambda>_ _. 0) F"
proof -
  have "layer_ok g M (insert u D) 0 l k P = layer_ok g M (marked D u n l) 0 l k P" if "l < L" for l k P
    by (rule layer_ok_cong) (use assms(2) that in \<open>auto simp: marked_def\<close>)
  then show ?thesis using assms(1) by (auto simp: idr_base_def idr_tree_def)
qed

lemma mark_full_ok:
  assumes "idr_base s L g M (marked D u (Suc l)) (\<lambda>_ _. 0) F" "l < L" "L \<le> 5" "g l (u div 64 ^ Suc l) \<noteq> NULL" "pa_ok pa L g u (Suc l)"
  shows "\<exists>s'. mark_full B pa (g l (u div 64 ^ Suc l)) l (int (u div 64 ^ l)) s = Some s' \<and> idr_base s' L g M (\<lambda>_. insert u D) (\<lambda>_ _. 0) F \<and>
    top_i s' = top_i s \<and> layers s' = layers s"
  using assms
proof (induction "L - l" arbitrary: s l)
  case 0
  then show ?case by simp
next
  case (Suc n)
  let ?p = "g l (u div 64 ^ Suc l)"
  obtain P where P: "mem_i s ?p = Some P" "layer_ok g M (insert u D) 0 l (u div 64 ^ Suc l) P"
    using idr_treeD(1)[OF idr_baseD(1)[OF Suc.prems(1)] Suc.prems(2,4)] by (auto simp: marked_def)
  have full: "bitmap P = IDR_FULL \<longleftrightarrow> full (insert u D) (Suc l) (u div 64 ^ Suc l)" using P(2) by (simp add: full_bits full_Suc layer_ok_def)
  show ?case
  proof (cases "bitmap P = IDR_FULL")
    case False
    then have "idr_base s L g M (\<lambda>_. insert u D) (\<lambda>_ _. 0) F"
      using all_marked[OF Suc.prems(1)] unmarked_above[of u D l] full by blast
    then show ?thesis using False P(1) by (subst mark_full.simps) simp
  next
    case True
    show ?thesis
    proof (cases "Suc l = L")
      case top: True
      have "idr_base s L g M (\<lambda>_. insert u D) (\<lambda>_ _. 0) F" by (rule all_marked[OF Suc.prems(1)]) (use top in auto)
      moreover have "pa_get pa (Suc l) = Some NULL" using Suc.prems(3,5) top by (auto simp: pa_ok_def pa_get_def)
      ultimately show ?thesis using True P(1) by (subst mark_full.simps) simp
    next
      case False
      let ?q = "g (Suc l) (u div 64 ^ Suc (Suc l))"
      have q: "?q \<noteq> NULL" "pa_get pa (Suc l) = Some ?q" "Suc l < L" "n = L - Suc l" "pa_ok pa L g u (Suc (Suc l))"
        using Suc.prems(2,3,5) Suc.hyps(2) False by (auto simp: pa_ok_def pa_get_def)
      obtain Q where Q: "mem_i s ?q = Some Q" using idr_treeD(1)[OF idr_baseD(1)[OF Suc.prems(1)] q(3,1)] by blast
      let ?s = "put_layer ?q (Q\<lparr>bitmap := b_set_bit B (digit u (Suc l)) (bitmap Q)\<rparr>) s"
      have b: "idr_base ?s L g M (marked D u (Suc (Suc l))) (\<lambda>_ _. 0) F" by (rule mark_bit_ok[OF Suc.prems(1) q(3,1) Q]) (use True full in simp)
      have n: "drop_bit 6 (int (u div 64 ^ l)) = int (u div 64 ^ Suc l)" using shift_id[of 1 "u div 64 ^ l"] by (simp add: div_Suc del: power_Suc)
      have "nat (int (u div 64 ^ Suc l) AND 63) = digit u (Suc l)" by (simp only: mask_id nat_int digit_def)
      then have "mark_full B pa ?p l (int (u div 64 ^ l)) s = mark_full B pa ?q (Suc l) (int (u div 64 ^ Suc l)) ?s"
        using True P(1) q(1,2) Q n by (subst mark_full.simps) (simp add: idr_consts Let_def del: power_Suc)
      then show ?thesis using Suc.hyps(1)[OF q(4) b q(3) Suc.prems(3) q(1,5)] by (simp add: put_layer_def)
    qed
  qed
qed

end

section \<open>The lowest free id\<close>

lemma pow64: "L \<le> 5 \<Longrightarrow> (64::nat) ^ L \<le> 2 ^ 30"
  using power_increasing[of L 5 "64::nat"] by simp

lemma or_mask: "v < 2 ^ n \<Longrightarrow> int v OR (2 ^ n - 1) = 2 ^ n - 1"
proof -
  assume "v < 2 ^ n"
  then have "int v < 2 ^ n" by (metis of_nat_less_iff of_nat_numeral of_nat_power)
  then have "take_bit n (int v) = int v" by (simp add: take_bit_int_eq_self)
  then have "bit (int v) i \<Longrightarrow> i < n" for i by (metis bit_take_bit_iff)
  then have "int v OR mask n = mask n" by (intro bit_eqI) (auto simp: bit_simps)
  then show ?thesis by (simp add: mask_eq_exp_minus_1)
qed

text \<open>The table has \<open>L\<close> layers and represents the map.\<close>

definition represents :: "idr \<Rightarrow> nat \<Rightarrow> (nat \<rightharpoonup> addr) \<Rightarrow> bool" where
  "represents s L M \<longleftrightarrow> layers s = L \<and> (\<exists>g F. idr_base s L g M (\<lambda>_. dom M) (\<lambda>_ _. 0) F \<and>
     (if L = 0 then top_i s = NULL else top_i s = g (L - 1) 0 \<and> top_i s \<noteq> NULL))"

lemma representsI:
  "layers s = L \<Longrightarrow> idr_base s L g M (\<lambda>_. dom M) (\<lambda>_ _. 0) F \<Longrightarrow>
   (if L = 0 then top_i s = NULL else top_i s = g (L - 1) 0 \<and> top_i s \<noteq> NULL) \<Longrightarrow> represents s L M"
  unfolding represents_def by blast

context bitops_laws
begin

lemma sub_alloc_ok:
  assumes base: "idr_base s L g M (\<lambda>_. dom M) (\<lambda>_ _. 0) F" and L: "layers s = L" "0 < L" "L \<le> 5" and top: "top_i s = g (L - 1) 0" "g (L - 1) 0 \<noteq> NULL"
    and u: "M u = None" "\<forall>x < u. M x \<noteq> None" "u < 64 ^ L" and v: "v \<le> u"
  shows "\<exists>r M' s'. sub_alloc B ptr (int v) s = Some (r, int v, s') \<and> represents s' L M' \<and>
    (r = int u \<and> M' = M(u \<mapsto> ptr) \<or> length F < L - 1 \<and> r = -1 \<and> M' = M)"
proof -
  have u30: "u < 2 ^ 30" using u(3) pow64[OF L(3)] by (rule less_le_trans)
  have SL: "Suc (L - 1) = L" using L(2) by simp
  have d0: "u div 64 ^ Suc (L - 1) = 0" "v div 64 ^ Suc (L - 1) = 0" using u(3) v unfolding SL by (auto simp: div_eq_0_iff)
  let ?pa = "(replicate 6 None)[L := Some NULL]"
  have pa0: "pa_put (replicate MAX_LEVEL None) (layers s) NULL = Some ?pa" "pa_ok ?pa L g u (Suc (L - 1))"
    using L by (auto simp: pa_put_def pa_ok_def idr_consts)
  have p: "g (L - 1) (u div 64 ^ Suc (L - 1)) = top_i s" "L - 1 = layers s - 1" using d0(1) top(1) L(1) by simp_all
  obtain s1 g1 F1 where f: "idr_base s1 L g1 M (\<lambda>_. dom M) (\<lambda>_ _. 0) F1" "grown g g1 u" "top_i s1 = top_i s" "layers s1 = L" and
    r: "length F < L - 1 \<and> (\<exists>w. find_leaf B ?pa (top_i s) (layers s - 1) (int v) s = Some (Inl (-1, w), s1)) \<or>
     (\<exists>pa'. find_leaf B ?pa (top_i s) (layers s - 1) (int v) s = Some (Inr (g1 0 (u div 64), u mod 64, int u, pa'), s1) \<and> pa_ok pa' L g1 u 1 \<and> g1 0 (u div 64) \<noteq> NULL)"
    using find_leaf_ok[OF L(3) u(1,2) u30 base _ _ v _ pa0(2)] L(1,2) top d0 unfolding p by auto
  have g1: "top_i s1 = g1 (L - 1) 0" "g1 (L - 1) 0 \<noteq> NULL" using f(2,3) top unfolding grown_def by metis+
  show ?thesis using r
  proof (elim disjE exE conjE)
    fix w assume w: "length F < L - 1" "find_leaf B ?pa (top_i s) (layers s - 1) (int v) s = Some (Inl (-1, w), s1)"
    have "represents s1 L M" using f(1,4) g1 L(2) unfolding represents_def by auto
    then show ?thesis using w pa0(1) by (intro exI[of _ "-1"] exI[of _ M] exI[of _ s1]) (simp add: sub_alloc_def)
  next
    fix pa1 assume i: "find_leaf B ?pa (top_i s) (layers s - 1) (int v) s = Some (Inr (g1 0 (u div 64), u mod 64, int u, pa1), s1)" "pa_ok pa1 L g1 u 1" "g1 0 (u div 64) \<noteq> NULL"
    obtain P where P: "mem_i s1 (g1 0 (u div 64)) = Some P" using idr_treeD(1)[OF idr_baseD(1)[OF f(1)] L(2) i(3)] by blast
    note pl = plant_ok(1)[OF f(1) L(2) i(3) P u(1)] plant_ok(2)[OF f(1) L(2) i(3) P u(1), of ptr]
    obtain s2 where m: "mark_full B pa1 (g1 0 (u div 64)) 0 (int u) (put_layer (g1 0 (u div 64)) (P\<lparr>ary := (ary P)[u mod 64 := ptr],
        bitmap := b_set_bit B (u mod 64) (bitmap P), count_l := count_l P + 1\<rparr>) s1) = Some s2" "idr_base s2 L g1 (M(u \<mapsto> ptr)) (\<lambda>_. insert u (dom M)) (\<lambda>_ _. 0) F1"
        "top_i s2 = top_i s1" "layers s2 = layers s1"
      using mark_full_ok[OF pl(2)[unfolded One_nat_def] L(2,3), of pa1] i(2,3) by auto
    have "represents s2 L (M(u \<mapsto> ptr))" using m(2-4) f(4) g1 L(2) unfolding represents_def by auto
    moreover have "sub_alloc B ptr (int v) s = Some (int u, int v, s2)" using pa0(1) i(1) P pl(1) m(1) by (simp add: sub_alloc_def Let_def)
    ultimately show ?thesis by blast
  qed
qed

lemma sub_alloc_full:
  assumes base: "idr_base s L g M (\<lambda>_. dom M) (\<lambda>_ _. 0) F" and L: "layers s = L" "0 < L" "L \<le> 5" and top: "top_i s = g (L - 1) 0" "g (L - 1) 0 \<noteq> NULL"
    and u: "\<forall>x < 64 ^ L. M x \<noteq> None" and v: "v < 64 ^ L"
  shows "sub_alloc B ptr (int v) s = Some (-2, 64 ^ L, s)" "\<exists>P. mem_i s (top_i s) = Some P \<and> bitmap P = IDR_FULL \<and> count_l P \<noteq> 0"
proof -
  note t = idr_baseD(1)[OF base]
  obtain P where P: "mem_i s (top_i s) = Some P" "layer_ok g M (dom M) 0 (L - 1) 0 P" using idr_treeD(1)[OF t _ top(2)] L(2) top(1) by auto
  have SL: "Suc (L - 1) = L" using L(2) by simp
  have "full (dom M) (Suc (L - 1)) 0" using u unfolding SL full_def by (auto simp: div_eq_0_iff)
  then have f: "\<forall>i < 64. bit (bitmap P) i" using P(2) by (simp add: full_Suc layer_ok_def)
  then have m: "find_next_bit B (NOT (bitmap P)) 64 n = 64" for n by (intro find_none) (auto simp: bit_not_iff)
  have M0: "M 0 \<noteq> None" using u by simp
  have "used g M (L - 1) (64 * 0 + 0)"
  proof (cases "L - 1")
    case (Suc n)
    have "g 0 (0 div 64 ^ Suc 0) \<noteq> NULL" using idr_treeD(4)[OF t, of 0] M0 by auto
    then show ?thesis using path_present[OF t, of 0 0 n] Suc by simp
  qed (use M0 in simp)
  then have "count_l P \<noteq> 0" using count_pos[OF P(2)] by (metis less_irrefl zero_less_numeral)
  then show "\<exists>P. mem_i s (top_i s) = Some P \<and> bitmap P = IDR_FULL \<and> count_l P \<noteq> 0" using P(1) f full_bits by blast
  let ?pa = "(replicate 6 None)[L := Some NULL]"
  have pa: "pa_put (replicate MAX_LEVEL None) L NULL = Some ?pa" "pa_get ?pa L = Some NULL" using L(3) by (simp_all add: pa_put_def pa_get_def idr_consts)
  have o: "(int v OR (64 ^ L - 1)) + 1 = 64 ^ L" using or_mask[of v "6 * L"] v by (simp add: power_mult)
  have "int (64 ^ L) \<le> int (2 ^ 30)" using pow64[OF L(3)] by (simp only: of_nat_le_iff)
  moreover have "- (2 ^ 31) \<le> int (64 ^ L)" by (rule order_trans[of _ 0]) simp_all
  ultimately have i: "int32 (64 ^ L) = Some (64 ^ L)" by (simp add: int32_def)
  have "find_leaf B ?pa (top_i s) (L - 1) (int v) s = Some (Inl (-2, 64 ^ L), s)"
    using P(1) m shl32_one[OF L(3)] o i pa(2) SL by (subst find_leaf.simps) (simp add: idr_consts Let_def)
  then show "sub_alloc B ptr (int v) s = Some (-2, 64 ^ L, s)" using pa(1) L(1) by (simp add: sub_alloc_def)
qed

end

section \<open>A new layer on top\<close>

definition on_top :: "nat \<Rightarrow> addr \<Rightarrow> (nat \<Rightarrow> nat \<Rightarrow> addr) \<Rightarrow> nat \<Rightarrow> nat \<Rightarrow> addr" where
  "on_top L a g = g(L := (\<lambda>k. if k = 0 then a else NULL))"

lemma on_top_simps [simp]: "l \<noteq> L \<Longrightarrow> on_top L a g l = g l" "on_top L a g L k = (if k = 0 then a else NULL)"
  by (simp_all add: on_top_def)

lemma on_top_cong: "l \<le> L \<Longrightarrow> layer_ok (on_top L a g) M D c l k P = layer_ok g M D c l k P"
  by (rule layer_ok_cong) (cases l; simp add: on_top_def)

lemma on_top_tree:
  assumes t: "idr_tree mem L g M D c" and a: "a \<noteq> NULL" "\<forall>l < L. \<forall>k. g l k \<noteq> a" and N: "layer_ok g M (D L) (c L 0) L 0 N"
  shows "idr_tree (mem(a \<mapsto> N)) (Suc L) (on_top L a g) M D c"
proof -
  have "\<exists>P. (mem(a \<mapsto> N)) (on_top L a g l k) = Some P \<and> layer_ok (on_top L a g) M (D l) (c l k) l k P \<and> parent_ok (Suc L) (on_top L a g) l k"
    if lk: "l < Suc L" "on_top L a g l k \<noteq> NULL" for l k
  proof (cases "l = L")
    case True
    then have "k = 0" using lk(2) by (simp split: if_splits)
    then show ?thesis using True N on_top_cong[of L L a g M] by (simp add: parent_ok_def)
  next
    case False
    then have l: "l < L" "g l k \<noteq> NULL" using lk by auto
    then have "parent_ok (Suc L) (on_top L a g) l k"
      using idr_treeD(2)[OF t l] a(1) by (auto simp: parent_ok_def on_top_def split: if_splits)
    then show ?thesis using idr_treeD(1)[OF t l] a(2) l False on_top_cong[of l L a g M] by auto
  qed
  moreover have "l = l' \<and> k = k'" if "on_top L a g l k = on_top L a g l' k'" "l < Suc L" "l' < Suc L" "on_top L a g l k \<noteq> NULL" for l l' k k'
  proof (cases "l = L \<or> l' = L")
    case True
    then show ?thesis using that a(2) by (auto simp: less_Suc_eq split: if_splits) blast+
  next
    case False
    then show ?thesis using that idr_treeD(3)[OF t, of l k l' k'] by auto
  qed
  moreover have "on_top L a g 0 (x div 64) \<noteq> NULL" if "x \<in> dom M" for x
    using idr_treeD(4)[OF t, of x] that by auto
  ultimately show ?thesis unfolding idr_tree_def by blast
qed

lemma on_top_base:
  assumes "idr_base s L g M D c F" "a \<noteq> NULL" "a \<notin> set F" "\<forall>l < L. \<forall>k. g l k \<noteq> a" "layer_ok g M (D L) (c L 0) L 0 N"
  shows "idr_base (put_layer a N s) (Suc L) (on_top L a g) M D c F"
proof -
  have "NULL \<notin> set F" using free_chain_not_NULL[OF idr_baseD(2)[OF assms(1)]] .
  then have "on_top L a g l k \<notin> set F" if "l < Suc L" for l k using idr_baseD(4)[OF assms(1), of l k] that assms(3) by (cases "l = L") auto
  then show ?thesis using assms(1,3) on_top_tree[OF idr_baseD(1)[OF assms(1)] assms(2,4,5)] by (simp add: idr_base_def put_layer_def)
qed

text \<open>The tree of an empty table gets its first layer; a full tree becomes the first slot of a new layer.\<close>

lemma first_layer:
  assumes base: "idr_base s 0 g M D c (a # F)" and M: "M = Map.empty" "D 0 = {}" "c 0 0 = 0"
  shows "\<exists>s1. alloc_layer s = Some (a, s1) \<and> idr_base s1 1 (on_top 0 a g) M D c F \<and> a \<noteq> NULL \<and> mem_i s1 a = Some idr_cache_ctor"
proof -
  obtain s1 where s1: "alloc_layer s = Some (a, s1)" "mem_i s1 = (mem_i s)(a \<mapsto> idr_cache_ctor)" "idr_base s1 0 g M D c F" "a \<noteq> NULL" "a \<notin> set F"
    using alloc_base[OF base] by blast
  have "layer_ok g M (D 0) (c 0 0) 0 0 idr_cache_ctor" using M by (auto simp: layer_ok_def full_def)
  from on_top_base[OF s1(3-5) _ this] have "idr_base (put_layer a idr_cache_ctor s1) 1 (on_top 0 a g) M D c F" by simp
  moreover have "put_layer a idr_cache_ctor s1 = s1" using s1(2) by (simp add: put_layer_def)
  ultimately show ?thesis using s1 by auto
qed

lemma above_absent:
  assumes "idr_tree mem L g M D c" "0 < i"
  shows "child g M L i = (if L = 0 then child g M 0 i else g (L - 1) i)" "0 < L \<Longrightarrow> g (L - 1) i = NULL" "\<not> full (dom M) L i"
proof -
  show "child g M L i = (if L = 0 then child g M 0 i else g (L - 1) i)" by (cases L) auto
  show "g (L - 1) i = NULL" if "0 < L" using idr_treeD(2)[OF assms(1), of "L - 1" i] that assms(2) by (auto simp: parent_ok_def)
  show "\<not> full (dom M) L i"
  proof
    assume "full (dom M) L i"
    then have "i * 64 ^ L \<in> dom M" by (rule full_in)
    then have "i * 64 ^ L < 1 * 64 ^ L" using id_bound[OF assms(1), of "i * 64 ^ L"] by auto
    then show False using assms(2) by simp
  qed
qed

context bitops_laws
begin

lemma new_top_ok:
  assumes t: "idr_tree mem L g M D c" and L: "0 < L" "g (L - 1) 0 \<noteq> NULL" and f: "full (dom M) L 0"
  shows "layer_ok g M (dom M) 0 L 0 (idr_cache_ctor\<lparr>ary := (ary idr_cache_ctor)[0 := g (L - 1) 0], count_l := 1, bitmap := b_set_bit B 0 0\<rparr>)"
proof -
  obtain l where l: "L = Suc l" using L(1) by (cases L) auto
  have n: "g l i = NULL" if "0 < i" for i using above_absent(2)[OF t that] l by simp
  have "{i. i < 64 \<and> used g M L (64 * 0 + i)} = {0}" using n L(2) l by auto
  moreover have "(ary idr_cache_ctor)[0 := g (L - 1) 0] ! i = child g M L (64 * 0 + i)" if "i < 64" for i
    using that n[of i] l by (cases "i = 0") auto
  moreover have "bit (b_set_bit B 0 0) i = full (dom M) L (64 * 0 + i)" for i
    using above_absent(3)[OF t, of i] f by (cases "i = 0") (auto simp: set_bit_iff)
  ultimately show ?thesis by (simp add: layer_ok_def)
qed

lemma grow_full:
  assumes base: "idr_base s L g M (\<lambda>_. dom M) (\<lambda>_ _. 0) (a # F)" and L: "0 < L" "L < 5" and top: "top_i s = g (L - 1) 0" "g (L - 1) 0 \<noteq> NULL"
    and P: "mem_i s (top_i s) = Some P" "bitmap P = IDR_FULL" "count_l P \<noteq> 0" and f: "\<forall>x < 64 ^ L. M x \<noteq> None"
  shows "\<exists>s'. grow_layers B (top_i s) L (64 ^ L) s = Some (True, a, Suc L, s') \<and> idr_base s' (Suc L) (on_top L a g) M (\<lambda>_. dom M) (\<lambda>_ _. 0) F \<and> a \<noteq> NULL"
proof -
  obtain s1 where s1: "alloc_layer s = Some (a, s1)" "mem_i s1 = (mem_i s)(a \<mapsto> idr_cache_ctor)" "idr_base s1 L g M (\<lambda>_. dom M) (\<lambda>_ _. 0) F"
    "a \<noteq> NULL" "a \<notin> set F" "\<forall>l < L. \<forall>k. g l k \<noteq> a" "top_i s1 = top_i s" using alloc_base[OF base] by blast
  let ?N = "idr_cache_ctor\<lparr>ary := (ary idr_cache_ctor)[0 := g (L - 1) 0], count_l := 1, bitmap := b_set_bit B 0 0\<rparr>"
  have "full (dom M) L 0" using f by (auto simp: full_def div_eq_0_iff)
  then have "layer_ok g M (dom M) 0 L 0 ?N" using new_top_ok[OF idr_baseD(1)[OF s1(3)] L(1) top(2)] by blast
  then have b: "idr_base (put_layer a ?N s1) (Suc L) (on_top L a g) M (\<lambda>_. dom M) (\<lambda>_ _. 0) F" using on_top_base[OF s1(3-6)] by simp
  have ta: "top_i s \<noteq> a" using s1(6) top(1) L(1) by simp
  have sh: "shl32 1 (L * 6) = Some (64 ^ L)" "shl32 1 (Suc L * 6) = Some (64 ^ Suc L)" "\<not> (64::int) ^ Suc L \<le> 64 ^ L"
    using shl32_one[of L] shl32_one[of "Suc L"] L(2) by (simp_all add: mult.commute)
  have "grow_layers B a (Suc L) (64 ^ L) (put_layer a ?N s1) = Some (True, a, Suc L, put_layer a ?N s1)"
    using sh(2,3) L(2) by (subst grow_layers.simps) (simp add: idr_consts)
  then have "grow_layers B (top_i s) L (64 ^ L) s = Some (True, a, Suc L, put_layer a ?N s1)"
    using sh(1) L(2) P s1(1,2,4) ta top(1) by (subst grow_layers.simps) (simp add: idr_consts)
  then show ?thesis using b s1(4) by blast
qed

end

section \<open>The table\<close>

definition idr_wf :: "idr \<Rightarrow> (nat \<rightharpoonup> addr) \<Rightarrow> bool" where
  "idr_wf s M \<longleftrightarrow> layers s \<le> 5 \<and> represents s (layers s) M"

lemma represents_wf: "represents s L M \<Longrightarrow> L \<le> 5 \<Longrightarrow> idr_wf s M"
  unfolding idr_wf_def represents_def by blast

lemma idr_wfE:
  assumes "idr_wf s M"
  obtains g F where "layers s \<le> 5" "idr_base s (layers s) g M (\<lambda>_. dom M) (\<lambda>_ _. 0) F"
    "if layers s = 0 then top_i s = NULL else top_i s = g (layers s - 1) 0 \<and> top_i s \<noteq> NULL"
  using assms unfolding idr_wf_def represents_def by blast

lemma init_wf: "idr_wf (idr_init mem) Map.empty"
  by (auto simp: idr_wf_def represents_def idr_init_def idr_base_def idr_tree_def intro!: exI[of _ "[]"])

lemma wf_bound:
  assumes "idr_wf s M" "M x = Some p"
  shows "x < 64 ^ layers s"
  using assms(1)
proof (rule idr_wfE)
  fix g F assume "idr_base s (layers s) g M (\<lambda>_. dom M) (\<lambda>_ _. 0) F"
  then show ?thesis using id_bound[of "mem_i s" "layers s" g M _ _ x p] idr_baseD(1) assms(2) by blast
qed

lemma no_growth: "L \<le> 5 \<Longrightarrow> v < 64 ^ L \<Longrightarrow> grow_layers B p L (int v) s = Some (True, p, L, s)"
  using shl32_one[of L] by (subst grow_layers.simps) (auto simp: idr_consts mult.commute)

lemma find_wf:
  assumes "idr_wf s M"
  shows "idr_find (int u) s = Some (case M (u mod 2 ^ 31) of None \<Rightarrow> NULL | Some p \<Rightarrow> p)"
proof -
  from assms obtain g F where w: "layers s \<le> 5" "idr_base s (layers s) g M (\<lambda>_. dom M) (\<lambda>_ _. 0) F"
    "if layers s = 0 then top_i s = NULL else top_i s = g (layers s - 1) 0 \<and> top_i s \<noteq> NULL" by (rule idr_wfE)
  note b = w(1) idr_baseD(1)[OF w(2)] w(3)
  let ?v = "u mod 2 ^ 31"
  have m: "int u AND MAX_ID_MASK = int ?v" by (simp only: idr_consts mask_max)
  have sh: "shl32 1 (layers s * IDR_BITS) = Some (64 ^ layers s)" using shl32_one[OF b(1)] by (simp add: idr_consts mult.commute)
  show ?thesis
  proof (cases "?v < 64 ^ layers s")
    case True
    then have "?v div 64 ^ layers s = 0" by simp
    then have "find_walk (layers s) (top_i s) (int ?v) s = Some (child g M 0 ?v)"
      using find_walk_tree[OF b(2), of "layers s" "top_i s" ?v] b(2,3) id_bound[OF b(2), of ?v] True
      by (cases "layers s = 0") (auto simp: idr_tree_def split: option.splits)
    moreover have "\<not> (64::int) ^ layers s \<le> int ?v" using True by (metis not_le of_nat_less_iff of_nat_numeral of_nat_power)
    ultimately show ?thesis using m sh by (simp add: idr_find_def Let_def)
  next
    case False
    then have "M ?v = None" using id_bound[OF b(2), of ?v] by (cases "M ?v") auto
    moreover have "(64::int) ^ layers s \<le> int ?v" using False by (metis not_le of_nat_less_iff of_nat_numeral of_nat_power)
    ultimately show ?thesis using m sh by (simp add: idr_find_def Let_def)
  qed
qed

context bitops_laws
begin

text \<open>What a request for an id may come to: the id \<open>u\<close>, or no id when fewer than six layers are free.\<close>

definition got :: "idr \<Rightarrow> (nat \<rightharpoonup> addr) \<Rightarrow> nat \<Rightarrow> addr \<Rightarrow> (int \<times> idr) option \<Rightarrow> bool" where
  "got s M u ptr x \<longleftrightarrow> (\<exists>s'. x = Some (int u, s') \<and> idr_wf s' (M(u \<mapsto> ptr)) \<or> x = Some (-1, s') \<and> idr_wf s' M \<and> id_free_cnt s < 6)"

lemma got_from:
  assumes "represents s' L M'" "L \<le> 5" "r = int u \<and> M' = M(u \<mapsto> ptr) \<or> id_free_cnt s < 6 \<and> r = -1 \<and> M' = M"
  shows "got s M u ptr (Some (r, s'))" "r \<noteq> - 2"
  using assms represents_wf[OF assms(1,2)] by (auto simp: got_def)

lemma get_first:
  assumes base: "idr_base s 0 g Map.empty (\<lambda>_. {}) (\<lambda>_ _. 0) F" and top: "top_i s = NULL" "layers s = 0"
  shows "got s Map.empty 0 ptr (idr_get_new_above_int B ptr 0 s)"
proof (cases F)
  case Nil
  have "idr_wf s Map.empty" using base top unfolding idr_wf_def represents_def by auto
  moreover have "idr_get_new_above_int B ptr 0 s = Some (-1, s)"
    using top alloc_layer_none[OF base[unfolded Nil]] by (subst idr_get_new_above_int.simps) simp
  ultimately show ?thesis using idr_baseD(5)[OF base] Nil by (simp add: got_def)
next
  case (Cons a F')
  obtain s1 where s1: "alloc_layer s = Some (a, s1)" "idr_base s1 1 (on_top 0 a g) Map.empty (\<lambda>_. {}) (\<lambda>_ _. 0) F'" "a \<noteq> NULL"
    using first_layer[OF base[unfolded Cons]] by auto
  let ?s = "s1\<lparr>top_i := a, layers := 1\<rparr>"
  have "\<exists>r M' s'. sub_alloc B ptr (int 0) ?s = Some (r, int 0, s') \<and> represents s' 1 M' \<and>
    (r = int 0 \<and> M' = [0 \<mapsto> ptr] \<or> length F' < 1 - 1 \<and> r = -1 \<and> M' = Map.empty)"
    by (rule sub_alloc_ok[where g = "on_top 0 a g" and F = F']) (use s1 in auto)
  then obtain s' where s': "sub_alloc B ptr 0 ?s = Some (0, 0, s')" "represents s' 1 [0 \<mapsto> ptr]" by auto
  have "idr_get_new_above_int B ptr 0 s = Some (0, s')"
    using top s1(1,3) s'(1) no_growth[of 1 0 B a s1] by (subst idr_get_new_above_int.simps) simp
  then show ?thesis using represents_wf[OF s'(2)] by (simp add: got_def)
qed

lemma get_inside:
  assumes base: "idr_base s (layers s) g M (\<lambda>_. dom M) (\<lambda>_ _. 0) F" and L: "0 < layers s" "layers s \<le> 5"
    and top: "top_i s = g (layers s - 1) 0" "g (layers s - 1) 0 \<noteq> NULL" and u: "M u = None" "\<forall>x < u. M x \<noteq> None" "u < 64 ^ layers s"
  shows "got s M u ptr (idr_get_new_above_int B ptr 0 s)"
proof -
  obtain r M' s' where s': "sub_alloc B ptr 0 s = Some (r, 0, s')" "represents s' (layers s) M'"
    "r = int u \<and> M' = M(u \<mapsto> ptr) \<or> length F < layers s - 1 \<and> r = -1 \<and> M' = M"
    using sub_alloc_ok[OF base refl L top u, of 0 ptr] by auto
  have "r = int u \<and> M' = M(u \<mapsto> ptr) \<or> id_free_cnt s < 6 \<and> r = -1 \<and> M' = M" using s'(3) idr_baseD(5)[OF base] L(2) by auto
  note g = got_from[OF s'(2) L(2) this]
  have "top_i s \<noteq> NULL" using top by simp
  then have "idr_get_new_above_int B ptr 0 s = Some (r, s')"
    using L(2) s'(1) g(2) no_growth[of "layers s" 0 B "top_i s" s] by (subst idr_get_new_above_int.simps) simp
  then show ?thesis using g(1) by simp
qed

lemma get_full:
  assumes base: "idr_base s (layers s) g M (\<lambda>_. dom M) (\<lambda>_ _. 0) F" and L: "0 < layers s" "layers s < 5"
    and top: "top_i s = g (layers s - 1) 0" "g (layers s - 1) 0 \<noteq> NULL" and u: "M (64 ^ layers s) = None" "\<forall>x < 64 ^ layers s. M x \<noteq> None"
  shows "got s M (64 ^ layers s) ptr (idr_get_new_above_int B ptr 0 s)"
proof -
  let ?L = "layers s" and ?u = "64 ^ layers s :: nat"
  have L5: "?L \<le> 5" "Suc ?L \<le> 5" using L(2) by simp_all
  note f = sub_alloc_full(1)[OF base refl L(1) L5(1) top u(2), of 0 ptr] sub_alloc_full(2)[OF base refl L(1) L5(1) top u(2), of 0]
  then obtain P where P: "mem_i s (top_i s) = Some P" "bitmap P = IDR_FULL" "count_l P \<noteq> 0" by auto
  have tn: "top_i s \<noteq> NULL" using top by simp
  have again: "idr_get_new_above_int B ptr 0 s = idr_get_new_above_int B ptr (64 ^ ?L) s"
    using tn f(1) no_growth[OF L5(1), of 0 B "top_i s" s] by (subst idr_get_new_above_int.simps) simp
  show ?thesis
  proof (cases F)
    case Nil
    have "grow_layers B (top_i s) ?L (64 ^ ?L) s = Some (False, top_i s, ?L, s)"
      using shl32_one[OF L5(1)] L(2) P alloc_layer_none[OF base[unfolded Nil]]
      by (subst grow_layers.simps, subst tear_down.simps) (simp add: idr_consts mult.commute)
    then have "idr_get_new_above_int B ptr (64 ^ ?L) s = Some (-1, s)" using tn by (subst idr_get_new_above_int.simps) simp
    moreover have "idr_wf s M" using base top L L5 unfolding idr_wf_def represents_def by auto
    ultimately show ?thesis using again idr_baseD(5)[OF base] Nil by (auto simp: got_def)
  next
    case (Cons a F')
    obtain s1 where s1: "grow_layers B (top_i s) ?L (64 ^ ?L) s = Some (True, a, Suc ?L, s1)" "idr_base s1 (Suc ?L) (on_top ?L a g) M (\<lambda>_. dom M) (\<lambda>_ _. 0) F'" "a \<noteq> NULL"
      using grow_full[OF base[unfolded Cons] L top P u(2)] by blast
    let ?s = "s1\<lparr>top_i := a, layers := Suc ?L\<rparr>"
    have "\<exists>r M' s'. sub_alloc B ptr (int ?u) ?s = Some (r, int ?u, s') \<and> represents s' (Suc ?L) M' \<and>
      (r = int ?u \<and> M' = M(?u \<mapsto> ptr) \<or> length F' < Suc ?L - 1 \<and> r = -1 \<and> M' = M)"
      by (rule sub_alloc_ok[where g = "on_top ?L a g" and F = F', OF _ _ _ L5(2) _ _ u]) (use s1 in simp_all)
    then obtain r M' s' where s': "sub_alloc B ptr (64 ^ ?L) ?s = Some (r, 64 ^ ?L, s')" "represents s' (Suc ?L) M'"
      "r = int ?u \<and> M' = M(?u \<mapsto> ptr) \<or> length F' < ?L \<and> r = -1 \<and> M' = M" by auto
    have "r = int ?u \<and> M' = M(?u \<mapsto> ptr) \<or> id_free_cnt s < 6 \<and> r = -1 \<and> M' = M" using s'(3) idr_baseD(5)[OF base] Cons L(2) by auto
    note g = got_from[OF s'(2) L5(2) this]
    have "idr_get_new_above_int B ptr (64 ^ ?L) s = Some (r, s')"
      using tn s1(1,3) s'(1) g(2) by (subst idr_get_new_above_int.simps) simp
    then show ?thesis using g(1) again by simp
  qed
qed

text \<open>The table gives out the lowest free id, or leaves what it represents alone.\<close>

lemma get_new_ok:
  assumes wf: "idr_wf s M" and u: "M u = None" "\<forall>x < u. M x \<noteq> None" "u < 2 ^ 30"
  shows "got s M u ptr (idr_get_new_above_int B ptr 0 s)"
proof -
  from wf obtain g F where b: "layers s \<le> 5" "idr_base s (layers s) g M (\<lambda>_. dom M) (\<lambda>_ _. 0) F"
    "if layers s = 0 then top_i s = NULL else top_i s = g (layers s - 1) 0 \<and> top_i s \<noteq> NULL" by (rule idr_wfE)
  note t = idr_baseD(1)[OF b(2)]
  consider "layers s = 0" | "0 < layers s" "u < 64 ^ layers s" | "0 < layers s" "64 ^ layers s \<le> u" by fastforce
  then show ?thesis
  proof cases
    case 1
    then have M: "M = Map.empty" using t by (auto simp: idr_tree_def)
    then have "u = 0" using u(2) by auto
    then show ?thesis using get_first[of s g F ptr] b(2,3) 1 M by simp
  next
    case 2
    then show ?thesis using get_inside[OF b(2) 2(1) b(1) _ _ u(1,2) 2(2)] b(3) by auto
  next
    case 3
    have e: "u = 64 ^ layers s"
    proof (rule ccontr)
      assume "u \<noteq> 64 ^ layers s"
      then have "M (64 ^ layers s) \<noteq> None" using 3(2) u(2) by simp
      then show False using id_bound[OF t] by fastforce
    qed
    have "layers s \<noteq> 5" using u(3) e by auto
    then have "layers s < 5" using b(1) by simp
    then show ?thesis using get_full[OF b(2) 3(1)] b(3) 3(1) u(1,2) unfolding e by auto
  qed
qed

end

end
