(* ===== verification/Idr_Remove.thy ===== *)
theory Idr_Remove
  imports Idr_Alloc
begin

text \<open>
  Giving an id back: the way down clears the bits of the layers on the path, the way up frees the layers
  that have become empty, and a top layer with one slot in use is dropped. Then what the operations do
  together, from an empty table on.
\<close>

section \<open>The way down\<close>

lemma full_without: "full (D - {u}) l j \<longleftrightarrow> j \<noteq> u div 64 ^ l \<and> full D l j"
  by (auto simp: full_def)

context bitops_laws
begin

lemma clear_bit_layer:
  assumes "layer_ok g M D c l (u div 64 ^ Suc l) P"
  shows "layer_ok g M (D - {u}) c l (u div 64 ^ Suc l) (P\<lparr>bitmap := b_clear_bit B (digit u l) (bitmap P)\<rparr>)"
  using assms child_number[of _ "u div 64 ^ Suc l" u l] by (auto simp: layer_ok_def clear_bit_iff full_without simp del: power_Suc)

lemma other_layer_without:
  assumes "layer_ok g M D c l k Q" "k \<noteq> u div 64 ^ Suc l"
  shows "layer_ok g M (D - {u}) c l k Q"
proof -
  have "full (D - {u}) l (64 * k + i) = full D l (64 * k + i)" if "i < 64" for i
    using child_number[OF that, of k u l] assms(2) by (auto simp: full_without)
  then have "layer_ok g M (D - {u}) c l k Q = layer_ok g M D c l k Q" by (intro layer_ok_cong) simp
  then show ?thesis using assms(1) by simp
qed

lemma clear_bit_ok:
  assumes base: "idr_base s L g M D c F" and l: "l < L" and p: "g l (u div 64 ^ Suc l) \<noteq> NULL" "mem_i s (g l (u div 64 ^ Suc l)) = Some P"
  shows "idr_base (put_layer (g l (u div 64 ^ Suc l)) (P\<lparr>bitmap := b_clear_bit B (digit u l) (bitmap P)\<rparr>) s) L g M (D(l := D l - {u})) c F"
proof -
  note t = idr_baseD(1)[OF base]
  let ?k = "u div 64 ^ Suc l" and ?D = "D(l := D l - {u})" and ?P = "P\<lparr>bitmap := b_clear_bit B (digit u l) (bitmap P)\<rparr>"
  obtain P' where "mem_i s (g l ?k) = Some P'" "layer_ok g M (D l) (c l ?k) l ?k P'" using idr_treeD(1)[OF t l p(1)] by blast
  then have ok: "layer_ok g M (?D l) (c l ?k) l ?k ?P" using clear_bit_layer[of g M "D l" "c l ?k" l u P] p(2) by simp
  have "layer_ok g M (?D l') (c l' k') l' k' Q" if "(l', k') \<noteq> (l, ?k)" "layer_ok g M (D l') (c l' k') l' k' Q" for l' k' Q
    using other_layer_without[OF that(2), of u] that by (cases "l' = l") auto
  then have "idr_tree ((mem_i s)(g l ?k \<mapsto> ?P)) L g M ?D c"
    using tree_change[where D' = ?D and c' = c, OF t l p(1) ok] by auto
  then show ?thesis using base idr_baseD(4)[OF base l] by (simp add: idr_base_def put_layer_def)
qed

end

text \<open>The references that \<open>sub_remove\<close> collects: of the layers on the path from level \<open>lo\<close> up.\<close>

definition ref_of :: "nat \<Rightarrow> (nat \<Rightarrow> nat \<Rightarrow> addr) \<Rightarrow> nat \<Rightarrow> nat \<Rightarrow> layer_ref" where
  "ref_of L g u l = (if Suc l = L then Top_ref else Slot_ref (g (Suc l) (u div 64 ^ Suc (Suc l))) (digit u (Suc l)))"

definition refs_ok :: "layer_ref option list \<Rightarrow> nat \<Rightarrow> (nat \<Rightarrow> nat \<Rightarrow> addr) \<Rightarrow> nat \<Rightarrow> nat \<Rightarrow> bool" where
  "refs_ok pa L g u lo \<longleftrightarrow> length pa = 6 \<and> pa ! 0 = Some No_ref \<and> (\<forall>l. lo \<le> l \<and> l < L \<longrightarrow> pa ! (L - l) = Some (ref_of L g u l))"

lemma refs_ok_put:
  assumes "refs_ok pa L g u (Suc l)" "Suc l < L" "L \<le> 5"
  shows "refs_ok (pa[L - l := Some (Slot_ref (g (Suc l) (u div 64 ^ Suc (Suc l))) (digit u (Suc l)))]) L g u l"
proof -
  have "pa[L - l := Some (ref_of L g u l)] ! (L - l') = Some (ref_of L g u l')" if "l \<le> l'" "l' < L" for l'
  proof (cases "l' = l")
    case False
    then have "L - l' \<noteq> L - l" "Suc l \<le> l'" using that assms(2) by simp_all
    then show ?thesis using assms(1) that(2) by (simp add: refs_ok_def)
  qed (use assms in \<open>simp add: refs_ok_def\<close>)
  then show ?thesis using assms(1,2) by (simp add: refs_ok_def ref_of_def)
qed

definition unmarked :: "nat set \<Rightarrow> nat \<Rightarrow> nat \<Rightarrow> nat \<Rightarrow> nat set" where
  "unmarked D u lo l = (if lo < l then D - {u} else D)"

lemma unmarked_absent: "u \<notin> D \<Longrightarrow> unmarked D u lo = unmarked D u 0"
  by (auto simp: unmarked_def fun_eq_iff)

lemma unmarked_step: "(unmarked D u (Suc l))(Suc l := unmarked D u (Suc l) (Suc l) - {u}) = unmarked D u l"
  by (auto simp: unmarked_def fun_eq_iff)

context bitops_laws
begin

lemma remove_down_ok:
  assumes "idr_base s L g M (unmarked (dom M) u l) (\<lambda>_ _. 0) F" "l < L" "L \<le> 5" "refs_ok pa L g u l"
  shows "\<exists>pa' i' p' s'. remove_down B pa (L - l) (g l (u div 64 ^ Suc l)) (int (6 * l)) (int u) s = Some (pa', i', p', s') \<and>
    idr_base s' L g M (unmarked (dom M) u 0) (\<lambda>_ _. 0) F \<and> top_i s' = top_i s \<and> layers s' = layers s \<and>
    (p' = NULL \<and> M u = None \<or> p' = g 0 (u div 64) \<and> p' \<noteq> NULL \<and> i' = L \<and> refs_ok pa' L g u 0)"
  using assms
proof (induction l arbitrary: s pa)
  case (0 s pa)
  then show ?case using absent[OF idr_baseD(1)[OF 0(1)], of 0 u]
    by (subst remove_down.simps) auto
next
  case (Suc l s pa)
  note t = idr_baseD(1)[OF Suc.prems(1)]
  let ?p = "g (Suc l) (u div 64 ^ Suc (Suc l))" and ?d = "digit u (Suc l)"
  show ?case
  proof (cases "?p = NULL")
    case True
    then have "M u = None" using absent[OF t Suc.prems(2)] by blast
    then have "idr_base s L g M (unmarked (dom M) u 0) (\<lambda>_ _. 0) F" using Suc.prems(1) unmarked_absent[of u "dom M" "Suc l"] by (simp add: domIff)
    then show ?thesis using True \<open>M u = None\<close> by (subst remove_down.simps) auto
  next
    case False
    obtain P where P: "mem_i s ?p = Some P" "layer_ok g M (unmarked (dom M) u (Suc l) (Suc l)) 0 (Suc l) (u div 64 ^ Suc (Suc l)) P"
      using idr_treeD(1)[OF t Suc.prems(2) False] by blast
    have c: "ary_at P ?d = Some (g l (u div 64 ^ Suc l))" using P(2) path_id[of u "Suc l"] by (simp add: ary_at_def layer_ok_def del: power_Suc)
    let ?s = "put_layer ?p (P\<lparr>bitmap := b_clear_bit B ?d (bitmap P)\<rparr>) s" and ?pa = "pa[L - l := Some (Slot_ref ?p ?d)]"
    have b: "idr_base ?s L g M (unmarked (dom M) u l) (\<lambda>_ _. 0) F" using clear_bit_ok[OF Suc.prems(1,2) False P(1)] by (simp only: unmarked_step)
    have i: "L - Suc l + 1 = L - l" "L - l < length pa" using Suc.prems(2-4) by (simp_all add: refs_ok_def)
    have n: "nat (drop_bit (nat (int (6 * Suc l))) (int u) AND 63) = ?d" using slot_id(1)[of "Suc l" u] by (simp only: nat_int)
    have sh: "int (6 * Suc l) - int 6 = int (6 * l)" by simp
    have "remove_down B pa (L - Suc l) ?p (int (6 * Suc l)) (int u) s = remove_down B ?pa (L - l) (g l (u div 64 ^ Suc l)) (int (6 * l)) (int u) ?s"
      by (subst remove_down.simps) (simp only: False P(1) c n i sh idr_consts Let_def pa_put_def bind.bind_lunit, simp)
    then show ?thesis using Suc.IH[OF b _ Suc.prems(3) refs_ok_put[OF Suc.prems(4,2,3)]] Suc.prems(2) by simp
  qed
qed

end

section \<open>The way up\<close>

text \<open>A layer with no slot in use is as the constructor left it.\<close>

lemma unused_child: "\<not> used g M l j \<Longrightarrow> child g M l j = NULL"
  by (cases l) simp_all

lemma unused_ids:
  assumes "idr_tree mem L g M D c" "l < L" "\<not> used g M l j" "x div 64 ^ l = j"
  shows "M x = None"
proof (cases l)
  case 0
  then show ?thesis using assms(3,4) by simp
next
  case (Suc n)
  then show ?thesis using absent[OF assms(1), of n x] assms by (simp del: power_Suc)
qed

lemma empty_layer:
  assumes t: "idr_tree mem L g M (\<lambda>_. dom M) c" and l: "l < L" and P: "layer_ok g M (dom M) 0 l k P" "count_l P = 0"
  shows "P = idr_cache_ctor" "\<And>i. i < 64 \<Longrightarrow> \<not> used g M l (64 * k + i)" "\<And>x. x div 64 ^ Suc l = k \<Longrightarrow> M x = None"
proof -
  show u: "\<not> used g M l (64 * k + i)" if "i < 64" for i using count_pos[OF P(1)] P(2) that by auto
  show "M x = None" if x: "x div 64 ^ Suc l = k" for x
    using unused_ids[OF t l, of "x div 64 ^ l" x] u[of "digit x l"] path_id[of x l] x by simp
  have nf: "\<not> full (dom M) l (64 * k + i)" if "i < 64" for i
    using unused_ids[OF t l u[OF that], of "(64 * k + i) * 64 ^ l"] full_in[of "dom M" l "64 * k + i"] by (auto simp: domIff)
  have "ary P ! i = NULL" if "i < 64" for i using P(1) unused_child[OF u[OF that]] that by (simp add: layer_ok_def)
  then have "ary P = replicate 64 NULL" using P(1) by (intro nth_equalityI) (simp_all add: layer_ok_def)
  moreover have "bitmap P = 0" using P(1) nf by (intro bit_word_eqI) (simp add: layer_ok_def)
  ultimately show "P = idr_cache_ctor" using P(2) by (simp add: idr_cache_ctor_def idr_consts)
qed

lemma free_base:
  assumes base: "idr_base s L g M D c F" and p: "p \<noteq> NULL" "p \<notin> set F" "\<forall>l < L. \<forall>k. g l k \<noteq> p"
    and P: "mem_i s p = Some (idr_cache_ctor\<lparr>ary := (ary idr_cache_ctor)[0 := q]\<rparr>)"
  shows "\<exists>s'. free_layer p s = Some s' \<and> idr_base s' L g M D c (p # F) \<and> top_i s' = top_i s \<and> layers s' = layers s"
proof -
  let ?N = "idr_cache_ctor\<lparr>ary := (ary idr_cache_ctor)[0 := id_free s]\<rparr>"
  let ?s = "s\<lparr>id_free := p, id_free_cnt := id_free_cnt s + 1, mem_i := (mem_i s)(p \<mapsto> ?N)\<rparr>"
  have "free_layer p s = Some ?s"
    using P idr_baseD(6)[OF base] by (simp add: free_layer_def spin_lock_def spin_unlock_def ary_at_def put_layer_def)
  moreover have "idr_tree (mem_i ?s) L g M D c" using idr_baseD(1)[OF base] p(3) by (subst tree_mem_cong[of L g "mem_i ?s" "mem_i s"]) auto
  moreover have "free_chain (mem_i ?s) p (p # F)" using idr_baseD(2)[OF base] p(1,2) by auto
  ultimately show ?thesis using base p by (intro exI[of _ ?s]) (auto simp: idr_base_def)
qed

text \<open>An empty layer is taken out of its slot; the count of the layer above is one ahead now.\<close>

definition ahead :: "nat \<Rightarrow> nat \<Rightarrow> nat \<Rightarrow> nat \<Rightarrow> int" where
  "ahead l k l' k' = (if l' = l \<and> k' = k then 1 else 0)"

lemma detach_layer_ok:
  assumes "layer_ok g M D 0 (Suc l) (j div 64) P" "g l j \<noteq> NULL"
  shows "layer_ok (g(l := (g l)(j := NULL))) M D 1 (Suc l) (j div 64) (P\<lparr>ary := (ary P)[j mod 64 := NULL]\<rparr>)"
proof -
  let ?k = "j div 64" and ?g = "g(l := (g l)(j := NULL))"
  have n: "64 * ?k + i = j \<longleftrightarrow> i = j mod 64" if "i < 64" for i using split_64[OF that, of ?k j] by simp
  have "{i. i < 64 \<and> used g M (Suc l) (64 * ?k + i)} = {i. i < 64 \<and> (i = j mod 64 \<or> used ?g M (Suc l) (64 * ?k + i))}"
    using n assms(2) by auto
  moreover have "\<not> used ?g M (Suc l) (64 * ?k + j mod 64)" by simp
  ultimately have "card {i. i < 64 \<and> used g M (Suc l) (64 * ?k + i)} = Suc (card {i. i < 64 \<and> used ?g M (Suc l) (64 * ?k + i)})"
    using card_slot[of "j mod 64" "\<lambda>i. used ?g M (Suc l) (64 * ?k + i)"] by simp
  moreover have "(ary P)[j mod 64 := NULL] ! i = child ?g M (Suc l) (64 * ?k + i)" if "i < 64" for i
    using that n[OF that] assms(1) by (auto simp: layer_ok_def nth_list_update)
  ultimately show ?thesis using assms(1) by (auto simp: layer_ok_def)
qed

lemma detach_tree:
  assumes t: "idr_tree mem L g M D (\<lambda>_ _. 0)" and l: "Suc l < L" and p: "g l j \<noteq> NULL" "mem (g (Suc l) (j div 64)) = Some P"
    and e: "\<And>i. i < 64 \<Longrightarrow> \<not> used g M l (64 * j + i)"
  shows "idr_tree (mem(g (Suc l) (j div 64) \<mapsto> P\<lparr>ary := (ary P)[j mod 64 := NULL]\<rparr>)) L (g(l := (g l)(j := NULL))) M D (ahead (Suc l) (j div 64))"
proof -
  let ?g = "g(l := (g l)(j := NULL))" and ?p = "g (Suc l) (j div 64)" and ?c = "ahead (Suc l) (j div 64)"
  have p1: "?p \<noteq> NULL" using idr_treeD(2)[OF t _ p(1)] l by (simp add: parent_ok_def)
  have same: "layer_ok ?g M (D l') 0 l' k Q = layer_ok g M (D l') 0 l' k Q" if "l' \<noteq> Suc l \<or> k \<noteq> j div 64" for l' k Q
  proof (rule layer_ok_cong)
    fix i :: nat assume "i < 64"
    then have "l' = Suc l \<longrightarrow> 64 * k + i \<noteq> j" using that by auto
    then show "child ?g M l' (64 * k + i) = child g M l' (64 * k + i) \<and> used ?g M l' (64 * k + i) = used g M l' (64 * k + i) \<and>
      full (D l') l' (64 * k + i) = full (D l') l' (64 * k + i)" by (cases l') auto
  qed
  have layer: "\<exists>Q. (mem(?p \<mapsto> P\<lparr>ary := (ary P)[j mod 64 := NULL]\<rparr>)) (?g l' k) = Some Q \<and> layer_ok ?g M (D l') (?c l' k) l' k Q" if lk: "l' < L" "?g l' k \<noteq> NULL" for l' k
  proof (cases "l' = Suc l \<and> k = j div 64")
    case True
    obtain P' where "mem ?p = Some P'" "layer_ok g M (D (Suc l)) 0 (Suc l) (j div 64) P'" using idr_treeD(1)[OF t l p1] by blast
    then show ?thesis using detach_layer_ok[of g M "D (Suc l)" l j P] p True by (auto simp: ahead_def)
  next
    case False
    have g: "?g l' k = g l' k" using lk(2) by (auto split: if_splits)
    then obtain Q where "mem (g l' k) = Some Q" "layer_ok g M (D l') 0 l' k Q" using idr_treeD(1)[OF t lk(1)] lk(2) by auto
    moreover have "g l' k \<noteq> ?p" using idr_treeD(3)[OF t, of l' k "Suc l" "j div 64"] lk l p1 False g by auto
    ultimately show ?thesis using same[of l' k Q] False g by (auto simp: ahead_def)
  qed
  have up: "g l' k = NULL" if "Suc l' = l" "k div 64 = j" for l' k using e[of "k mod 64"] that by auto
  have parent: "parent_ok L ?g l' k" if "l' < L" "?g l' k \<noteq> NULL" for l' k
    using that idr_treeD(2)[OF t, of l' k] up[of l' k] by (auto simp: parent_ok_def split: if_splits)
  have inj: "l' = l'' \<and> k' = k''" if "?g l' k' = ?g l'' k''" "l' < L" "l'' < L" "?g l' k' \<noteq> NULL" for l' l'' k' k''
    using that idr_treeD(3)[OF t, of l' k' l'' k''] by (auto split: if_splits)
  have "0 < L \<and> ?g 0 (x div 64) \<noteq> NULL" if "x \<in> dom M" for x
    using idr_treeD(4)[OF t, of x] that e[of "x mod 64"] by (cases l) auto
  then show ?thesis using layer parent inj unfolding idr_tree_def by blast
qed

lemma clear_free_swap:
  assumes "clear_ref r s = Some s1" "free_layer p s1 = Some s2" "\<And>q n. r = Slot_ref q n \<Longrightarrow> q \<noteq> p"
  shows "\<exists>s'. free_layer p s = Some s' \<and> clear_ref r s' = Some s2"
  using assms
  by (cases r; cases s) (auto simp: free_layer_def spin_lock_def spin_unlock_def put_layer_def fun_upd_twist split: if_splits)

lemma count_down_ok:
  assumes base: "idr_base s L g M D (ahead l k) F" and l: "l < L" "g l k \<noteq> NULL" and P: "mem_i s (g l k) = Some P"
  shows "idr_base (put_layer (g l k) (P\<lparr>count_l := count_l P - 1\<rparr>) s) L g M D (\<lambda>_ _. 0) F" "layer_ok g M (D l) 0 l k (P\<lparr>count_l := count_l P - 1\<rparr>)"
proof -
  note t = idr_baseD(1)[OF base]
  obtain P' where "mem_i s (g l k) = Some P'" "layer_ok g M (D l) (ahead l k l k) l k P'" using idr_treeD(1)[OF t l] by blast
  then show ok: "layer_ok g M (D l) 0 l k (P\<lparr>count_l := count_l P - 1\<rparr>)" using P by (auto simp: layer_ok_def ahead_def)
  have "idr_tree ((mem_i s)(g l k \<mapsto> P\<lparr>count_l := count_l P - 1\<rparr>)) L g M D (\<lambda>_ _. 0)"
    by (rule tree_change[OF t l]) (use ok in \<open>auto simp: ahead_def split: if_splits\<close>)
  then show "idr_base (put_layer (g l k) (P\<lparr>count_l := count_l P - 1\<rparr>) s) L g M D (\<lambda>_ _. 0) F"
    using base idr_baseD(4)[OF base l(1)] by (simp add: idr_base_def put_layer_def)
qed

lemma read_ref_of:
  assumes t: "idr_tree (mem_i s) L g M D c" and l: "l < L" "g l (u div 64 ^ Suc l) \<noteq> NULL" and top: "top_i s = g (L - 1) 0" "u < 64 ^ L"
  shows "read_ref (ref_of L g u l) s = Some (g l (u div 64 ^ Suc l))"
proof (cases "Suc l = L")
  case True
  then show ?thesis using top by (auto simp: ref_of_def div_eq_0_iff)
next
  case False
  then have q: "Suc l < L" "g (Suc l) (u div 64 ^ Suc (Suc l)) \<noteq> NULL" using path_present[OF t l(2), of "Suc l"] l(1) by simp_all
  obtain Q where "mem_i s (g (Suc l) (u div 64 ^ Suc (Suc l))) = Some Q" "layer_ok g M (D (Suc l)) (c (Suc l) (u div 64 ^ Suc (Suc l))) (Suc l) (u div 64 ^ Suc (Suc l)) Q"
    using idr_treeD(1)[OF t q] by blast
  then show ?thesis using False path_id[of u "Suc l"] by (simp add: ref_of_def ary_at_def layer_ok_def del: power_Suc)
qed

text \<open>The empty layer goes to the free list and its slot is cleared.\<close>

lemma release_top:
  assumes base: "idr_base s L g M (\<lambda>_. dom M) (\<lambda>_ _. 0) F" and L: "L = Suc l" and P: "g l 0 \<noteq> NULL" "mem_i s (g l 0) = Some P" "layer_ok g M (dom M) 0 l 0 P" "count_l P = 0"
  shows "\<exists>s1 s2. free_layer (g l 0) s = Some s1 \<and> clear_ref Top_ref s1 = Some s2 \<and> represents (s2\<lparr>layers := 0\<rparr>) 0 M"
proof -
  note t = idr_baseD(1)[OF base] and e = empty_layer[OF idr_baseD(1)[OF base] _ P(3,4)]
  have "M x = None" for x using e(3)[of x] id_bound[OF t, of x] L by (cases "M x") (auto simp: div_eq_0_iff simp del: power_Suc)
  then have b: "idr_base (s\<lparr>top_i := NULL\<rparr>) 0 g M (\<lambda>_. dom M) (\<lambda>_ _. 0) F" using base by (simp add: idr_base_def idr_tree_def dom_def)
  have "idr_cache_ctor\<lparr>ary := (ary idr_cache_ctor)[0 := NULL]\<rparr> = idr_cache_ctor" by (simp add: list_update_same_conv)
  then have "mem_i (s\<lparr>top_i := NULL\<rparr>) (g l 0) = Some (idr_cache_ctor\<lparr>ary := (ary idr_cache_ctor)[0 := NULL]\<rparr>)" using P(2) e(1) L by simp
  from free_base[OF b P(1) _ _ this] obtain s2 where s2: "free_layer (g l 0) (s\<lparr>top_i := NULL\<rparr>) = Some s2" "idr_base s2 0 g M (\<lambda>_. dom M) (\<lambda>_ _. 0) (g l 0 # F)" "top_i s2 = NULL"
    using idr_baseD(4)[OF base] L by auto
  then have "represents (s2\<lparr>layers := 0\<rparr>) 0 M" unfolding represents_def by auto
  moreover have "clear_ref Top_ref s = Some (s\<lparr>top_i := NULL\<rparr>)" by simp
  ultimately show ?thesis using clear_free_swap[OF _ s2(1), of Top_ref s] by blast
qed

lemma release_below:
  assumes base: "idr_base s L g M (\<lambda>_. dom M) (\<lambda>_ _. 0) F" and l: "Suc l < L"
    and P: "g l j \<noteq> NULL" "mem_i s (g l j) = Some P" "layer_ok g M (dom M) 0 l j P" "count_l P = 0"
  shows "\<exists>s1 s2. free_layer (g l j) s = Some s1 \<and> clear_ref (Slot_ref (g (Suc l) (j div 64)) (j mod 64)) s1 = Some s2 \<and>
    idr_base s2 L (g(l := (g l)(j := NULL))) M (\<lambda>_. dom M) (ahead (Suc l) (j div 64)) (g l j # F) \<and> top_i s2 = top_i s \<and> layers s2 = layers s"
proof -
  note t = idr_baseD(1)[OF base] and e = empty_layer[OF idr_baseD(1)[OF base] _ P(3,4)]
  let ?q = "g (Suc l) (j div 64)" and ?g = "g(l := (g l)(j := NULL))"
  have q: "?q \<noteq> NULL" using idr_treeD(2)[OF t _ P(1)] l by (simp add: parent_ok_def)
  obtain Q where Q: "mem_i s ?q = Some Q" "length (ary Q) = 64" using idr_treeD(1)[OF t l q] by (auto simp: layer_ok_def)
  let ?s = "put_layer ?q (Q\<lparr>ary := (ary Q)[j mod 64 := NULL]\<rparr>) s"
  have qp: "?q \<noteq> g l j" using idr_treeD(3)[OF t, of "Suc l" "j div 64" l j] l q by auto
  have "idr_tree (mem_i ?s) L ?g M (\<lambda>_. dom M) (ahead (Suc l) (j div 64))" using detach_tree[OF t l P(1) Q(1)] e(2) l by simp
  moreover have "?q \<notin> set F" "NULL \<notin> set F" using idr_baseD(4)[OF base l] free_chain_not_NULL[OF idr_baseD(2)[OF base]] by simp_all
  ultimately have b: "idr_base ?s L ?g M (\<lambda>_. dom M) (ahead (Suc l) (j div 64)) F" using base by (auto simp: idr_base_def put_layer_def)
  have "idr_cache_ctor\<lparr>ary := (ary idr_cache_ctor)[0 := NULL]\<rparr> = idr_cache_ctor" by (simp add: list_update_same_conv)
  then have m: "mem_i ?s (g l j) = Some (idr_cache_ctor\<lparr>ary := (ary idr_cache_ctor)[0 := NULL]\<rparr>)" using P(2) e(1) l qp by simp
  have "\<forall>l' < L. \<forall>k. ?g l' k \<noteq> g l j" using idr_treeD(3)[OF t, of _ _ l j] P(1) l by auto
  from free_base[OF b P(1) _ this m] obtain s2 where s2: "free_layer (g l j) ?s = Some s2" "idr_base s2 L ?g M (\<lambda>_. dom M) (ahead (Suc l) (j div 64)) (g l j # F)" "top_i s2 = top_i s" "layers s2 = layers s"
    using idr_baseD(4)[OF base, of l j] l by (auto simp del: fun_upd_apply)
  have "clear_ref (Slot_ref ?q (j mod 64)) s = Some ?s" using Q by simp
  from clear_free_swap[OF this s2(1)] show ?thesis using s2(2-4) qp by blast
qed

lemma remove_up_ok:
  assumes "idr_base s L g M (\<lambda>_. dom M) (ahead l (u div 64 ^ Suc l)) F" "l < L" "L \<le> 5" "u < 64 ^ L" "g l (u div 64 ^ Suc l) \<noteq> NULL"
    "refs_ok pa L g u l" "top_i s = g (L - 1) 0" "layers s = L"
  shows "\<exists>i r s'. remove_up pa (L - l) s = Some (i, s') \<and> pa_get pa i = Some r \<and>
    (if r = No_ref then represents (s'\<lparr>layers := 0\<rparr>) 0 M else represents s' L M)"
  using assms
proof (induction "L - l" arbitrary: s l g F)
  case 0
  then show ?case by simp
next
  case (Suc n)
  let ?p = "g l (u div 64 ^ Suc l)" and ?r = "ref_of L g u l"
  note t = idr_baseD(1)[OF Suc.prems(1)]
  have r: "pa_get pa (L - l) = Some ?r" "?r \<noteq> No_ref" "read_ref ?r s = Some ?p"
    using Suc.prems(2,3,6) read_ref_of[OF t Suc.prems(2,5,7,4)] by (auto simp: refs_ok_def pa_get_def ref_of_def)
  obtain P where P: "mem_i s ?p = Some P" using idr_treeD(1)[OF t Suc.prems(2,5)] by blast
  let ?P = "P\<lparr>count_l := count_l P - 1\<rparr>" and ?s = "put_layer ?p (P\<lparr>count_l := count_l P - 1\<rparr>) s"
  note b = count_down_ok[OF Suc.prems(1,2,5) P]
  have top: "g (L - 1) 0 \<noteq> NULL" using path_present[OF t Suc.prems(5), of "L - 1"] Suc.prems(2,4) by (simp add: div_eq_0_iff)
  consider "count_l ?P \<noteq> 0" | "count_l ?P = 0" "Suc l = L" | "count_l ?P = 0" "Suc l < L" using Suc.prems(2) by linarith
  then show ?case
  proof cases
    case 1
    then have "remove_up pa (L - l) s = Some (L - l, ?s)" using r P by (subst remove_up.simps) (simp add: Let_def)
    moreover have "represents ?s L M" using b(1) top Suc.prems(2,7,8) unfolding represents_def by auto
    ultimately show ?thesis using r(1,2) by auto
  next
    case 2
    have k: "u div 64 ^ Suc l = 0" using Suc.prems(4) 2(2) by (simp add: div_eq_0_iff)
    obtain s1 s2 where s2: "free_layer ?p ?s = Some s1" "clear_ref Top_ref s1 = Some s2" "represents (s2\<lparr>layers := 0\<rparr>) 0 M"
      using release_top[OF b(1) 2(2)[symmetric], of ?P] Suc.prems(5) b(2) 2(1) unfolding k by auto
    have "pa_get pa 0 = Some No_ref" "L - l - 1 = 0" using Suc.prems(2,6) 2(2) by (auto simp: refs_ok_def pa_get_def)
    moreover from this have "remove_up pa 0 s2 = Some (0, s2)" by (subst remove_up.simps) simp
    ultimately have "remove_up pa (L - l) s = Some (0, s2)"
      using r P 2 s2(1,2) by (subst remove_up.simps) (simp add: Let_def ref_of_def)
    then show ?thesis using s2(3) \<open>pa_get pa 0 = Some No_ref\<close> by auto
  next
    case 3
    have k: "u div 64 ^ Suc l div 64 = u div 64 ^ Suc (Suc l)" "u div 64 ^ Suc l mod 64 = digit u (Suc l)" by (simp_all only: div_Suc[of u "Suc l"] digit_def)
    let ?g = "g(l := (g l)(u div 64 ^ Suc l := NULL))"
    obtain s1 s2 where s2: "free_layer ?p ?s = Some s1" "clear_ref ?r s1 = Some s2"
      "idr_base s2 L ?g M (\<lambda>_. dom M) (ahead (Suc l) (u div 64 ^ Suc (Suc l))) (?p # F)" "top_i s2 = top_i s" "layers s2 = layers s"
      using release_below[OF b(1) 3(2) Suc.prems(5) _ b(2) 3(1)] 3(2) unfolding k ref_of_def by auto
    have "remove_up pa (L - l) s = remove_up pa (L - l - 1) s2" using r P 3(1) s2(1,2) by (subst remove_up.simps) (simp add: Let_def)
    moreover have "L - l - 1 = L - Suc l" "n = L - Suc l" using Suc.hyps(2) by simp_all
    moreover have "refs_ok pa L ?g u (Suc l)" using Suc.prems(6) by (auto simp: refs_ok_def ref_of_def)
    moreover have "?g (Suc l) (u div 64 ^ Suc (Suc l)) \<noteq> NULL" using path_present[OF t Suc.prems(5), of "Suc l"] 3(2) by simp
    moreover have "top_i s2 = ?g (L - 1) 0" using s2(4) Suc.prems(7) 3(2) by auto
    ultimately show ?thesis using Suc.hyps(1)[OF _ s2(3) 3(2) Suc.prems(3,4)] s2(5) Suc.prems(8) by simp
  qed
qed

section \<open>The leaf\<close>

lemma full_0 [simp]: "full D 0 j \<longleftrightarrow> j \<in> D"
  by (simp add: full_def)

context bitops_laws
begin

lemma leaf_layer_ok:
  assumes "layer_ok g M (dom M) 0 0 (u div 64) P" "M u \<noteq> None"
  shows "layer_ok g (M(u := None)) (dom M - {u}) 1 0 (u div 64) (P\<lparr>bitmap := b_clear_bit B (u mod 64) (bitmap P), ary := (ary P)[u mod 64 := NULL]\<rparr>)"
proof -
  let ?k = "u div 64" and ?M = "M(u := None)"
  have n: "64 * ?k + i = u \<longleftrightarrow> i = u mod 64" if "i < 64" for i using split_64[OF that, of ?k u] by simp
  have "{i. i < 64 \<and> used g M 0 (64 * ?k + i)} = {i. i < 64 \<and> (i = u mod 64 \<or> used g ?M 0 (64 * ?k + i))}" using n assms(2) by auto
  moreover have "\<not> used g ?M 0 (64 * ?k + u mod 64)" by simp
  ultimately have "card {i. i < 64 \<and> used g M 0 (64 * ?k + i)} = Suc (card {i. i < 64 \<and> used g ?M 0 (64 * ?k + i)})"
    using card_slot[of "u mod 64" "\<lambda>i. used g ?M 0 (64 * ?k + i)"] by simp
  moreover have "(ary P)[u mod 64 := NULL] ! i = child g ?M 0 (64 * ?k + i)" if "i < 64" for i
    using that n[OF that] assms(1) by (auto simp: layer_ok_def nth_list_update)
  moreover have "bit (b_clear_bit B (u mod 64) (bitmap P)) i = full (dom M - {u}) 0 (64 * ?k + i)" if "i < 64" for i
    using that n[OF that] assms(1) by (auto simp: layer_ok_def clear_bit_iff)
  ultimately show ?thesis using assms(1) by (simp add: layer_ok_def)
qed

lemma leaf_ok:
  assumes base: "idr_base s L g M (unmarked (dom M) u 0) (\<lambda>_ _. 0) F" and L: "0 < L" and p: "g 0 (u div 64) \<noteq> NULL" "mem_i s (g 0 (u div 64)) = Some P"
  shows "b_test_bit B (u mod 64) (bitmap P) \<longleftrightarrow> M u \<noteq> None" "u mod 64 < length (ary P)"
    "M u \<noteq> None \<Longrightarrow> idr_base (put_layer (g 0 (u div 64)) (P\<lparr>bitmap := b_clear_bit B (u mod 64) (bitmap P), ary := (ary P)[u mod 64 := NULL]\<rparr>) s)
       L g (M(u := None)) (\<lambda>_. dom (M(u := None))) (ahead 0 (u div 64)) F"
proof -
  note t = idr_baseD(1)[OF base]
  have P: "layer_ok g M (dom M) 0 0 (u div 64) P" using idr_treeD(1)[OF t L p(1)] p(2) by (auto simp: unmarked_def)
  then have "bit (bitmap P) (u mod 64) = full (dom M) 0 (64 * (u div 64) + u mod 64)" unfolding layer_ok_def by (metis mod_less_divisor zero_less_numeral)
  then show "b_test_bit B (u mod 64) (bitmap P) \<longleftrightarrow> M u \<noteq> None" by (simp add: test_bit_iff domIff)
  show "u mod 64 < length (ary P)" using P by (simp add: layer_ok_def)
  assume u: "M u \<noteq> None"
  let ?M = "M(u := None)" and ?P = "P\<lparr>bitmap := b_clear_bit B (u mod 64) (bitmap P), ary := (ary P)[u mod 64 := NULL]\<rparr>"
  have ok: "layer_ok g ?M (dom ?M) (ahead 0 (u div 64) 0 (u div 64)) 0 (u div 64) ?P" using leaf_layer_ok[OF P u] by (simp add: ahead_def)
  have others: "layer_ok g ?M (dom ?M) (ahead 0 (u div 64) l k) l k Q" if "(l, k) \<noteq> (0, u div 64)" "layer_ok g M (unmarked (dom M) u 0 l) 0 l k Q" for l k Q
  proof -
    have "layer_ok g ?M (dom M - {u}) 0 l k Q = layer_ok g M (unmarked (dom M) u 0 l) 0 l k Q"
    proof (rule layer_ok_cong)
      fix i :: nat assume "i < 64"
      then have "l = 0 \<longrightarrow> 64 * k + i \<noteq> u" using that(1) by auto
      then show "child g ?M l (64 * k + i) = child g M l (64 * k + i) \<and> used g ?M l (64 * k + i) = used g M l (64 * k + i) \<and>
        full (dom M - {u}) l (64 * k + i) = full (unmarked (dom M) u 0 l) l (64 * k + i)" by (cases l) (auto simp: unmarked_def)
    qed
    then show ?thesis using that by (auto simp: ahead_def)
  qed
  have "?M x \<noteq> None \<Longrightarrow> M x \<noteq> None \<or> g 0 (x div 64) \<noteq> NULL" for x by (simp split: if_splits)
  from tree_change[where M' = ?M and D' = "\<lambda>_. dom ?M" and c' = "ahead 0 (u div 64)", OF t L p(1) ok others this]
  have "idr_tree ((mem_i s)(g 0 (u div 64) \<mapsto> ?P)) L g ?M (\<lambda>_. dom ?M) (ahead 0 (u div 64))" by simp
  then show "idr_base (put_layer (g 0 (u div 64)) ?P s) L g ?M (\<lambda>_. dom ?M) (ahead 0 (u div 64)) F"
    using base idr_baseD(4)[OF base L] by (simp add: idr_base_def put_layer_def)
qed

section \<open>The operation\<close>

text \<open>The end of \<open>sub_remove\<close>, from what the way down has left.\<close>

lemma remove_leaf_ok:
  assumes down: "remove_down B ((replicate 6 None)[0 := Some No_ref, 1 := Some Top_ref]) 1 (top_i s) sh (int u) s = Some (pa, i, p, s1)"
    and base: "idr_base s1 L g M (unmarked (dom M) u 0) (\<lambda>_ _. 0) F" and L: "layers s1 = L" "0 < L" "L \<le> 5" and u: "u < 64 ^ L"
    and top: "top_i s1 = g (L - 1) 0" "g (L - 1) 0 \<noteq> NULL"
    and p: "p = NULL \<and> M u = None \<or> p = g 0 (u div 64) \<and> p \<noteq> NULL \<and> i = L \<and> refs_ok pa L g u 0"
  shows "\<exists>s'. sub_remove B sh (int u) s = Some s' \<and> idr_wf s' (M(u := None))"
proof -
  have pa: "pa_put (replicate MAX_LEVEL None) 0 No_ref = Some ((replicate 6 None)[0 := Some No_ref])"
    "pa_put ((replicate 6 None)[0 := Some No_ref]) 1 Top_ref = Some ((replicate 6 None)[0 := Some No_ref, 1 := Some Top_ref])"
    by (simp_all add: pa_put_def idr_consts)
  have n: "nat (int u AND IDR_MASK) = u mod 64" by (simp only: idr_consts mask_id nat_int)
  have same: "idr_wf s1 (M(u := None))" if "M u = None"
  proof -
    have "unmarked (dom M) u 0 = (\<lambda>_. dom M)" "M(u := None) = M" using that by (auto simp: unmarked_def fun_eq_iff)
    then have "represents s1 L (M(u := None))" using base L(1,2) top by (intro representsI) auto
    then show ?thesis using L(3) by (rule represents_wf)
  qed
  show ?thesis using p
  proof (elim disjE conjE)
    assume "p = NULL" "M u = None"
    then show ?thesis using down pa same by (simp add: sub_remove_def Let_def)
  next
    assume p: "p = g 0 (u div 64)" "p \<noteq> NULL" "i = L" "refs_ok pa L g u 0"
    obtain P where P: "mem_i s1 p = Some P" using idr_treeD(1)[OF idr_baseD(1)[OF base] L(2), of "u div 64"] p(1,2) by auto
    note lf = leaf_ok[OF base L(2) p(2)[unfolded p(1)] P[unfolded p(1)], folded p(1)]
    show ?thesis
    proof (cases "M u = None")
      case True
      then show ?thesis using down pa same P p(2) lf(1) n by (simp add: sub_remove_def Let_def)
    next
      case False
      let ?s = "put_layer p (P\<lparr>bitmap := b_clear_bit B (u mod 64) (bitmap P), ary := (ary P)[u mod 64 := NULL]\<rparr>) s1"
      have "idr_base ?s L g (M(u := None)) (\<lambda>_. dom (M(u := None))) (ahead 0 (u div 64 ^ Suc 0)) F" using lf(3)[OF False] by simp
      from remove_up_ok[OF this L(2,3) u _ p(4)]
      obtain i r s2 where up: "remove_up pa L ?s = Some (i, s2)" "pa_get pa i = Some r"
        "if r = No_ref then represents (s2\<lparr>layers := 0\<rparr>) 0 (M(u := None)) else represents s2 L (M(u := None))"
        using p(1,2) L(1) top by auto
      have "idr_wf (if r = No_ref then s2\<lparr>layers := 0\<rparr> else s2) (M(u := None))" using up(3) L(3) represents_wf by (auto split: if_splits)
      then show ?thesis using down pa P p(2,3) lf(1,2) n up(1,2) False by (simp add: sub_remove_def Let_def)
    qed
  qed
qed

lemma start_refs:
  assumes "0 < L"
  shows "refs_ok ((replicate 6 None)[0 := Some No_ref, 1 := Some Top_ref]) L g u (L - 1)"
proof -
  have "[Some No_ref, Some Top_ref, None, None, None, None] ! (L - l) = Some (ref_of L g u l)" if "L - 1 \<le> l \<and> l < L" for l
  proof -
    have "L - l = 1" "Suc l = L" using that by linarith+
    then show ?thesis by (simp add: ref_of_def)
  qed
  then show ?thesis by (simp add: refs_ok_def numeral_eq_Suc)
qed

lemma sub_remove_ok:
  assumes wf: "idr_wf s M" and u: "u < 64 ^ layers s"
  shows "\<exists>s'. sub_remove B ((int (layers s) - 1) * int IDR_BITS) (int u) s = Some s' \<and> idr_wf s' (M(u := None))"
proof -
  from wf obtain g F where b: "layers s \<le> 5" "idr_base s (layers s) g M (\<lambda>_. dom M) (\<lambda>_ _. 0) F"
    "if layers s = 0 then top_i s = NULL else top_i s = g (layers s - 1) 0 \<and> top_i s \<noteq> NULL" by (rule idr_wfE)
  let ?pa = "(replicate 6 None)[0 := Some No_ref, 1 := Some Top_ref]" and ?L = "layers s" and ?l = "layers s - 1"
  show ?thesis
  proof (cases "?L = 0")
    case True
    then have "M = Map.empty" using idr_baseD(1)[OF b(2)] by (auto simp: idr_tree_def)
    moreover have "remove_down B ?pa 1 (top_i s) ((int ?L - 1) * int IDR_BITS) (int u) s = Some (?pa, 1, NULL, s)"
      using True b(3) by (subst remove_down.simps) simp
    then have "sub_remove B ((int ?L - 1) * int IDR_BITS) (int u) s = Some s" by (simp add: sub_remove_def pa_put_def idr_consts)
    ultimately show ?thesis using wf by simp
  next
    case False
    have l: "?l < ?L" "?L - ?l = 1" "int (6 * ?l) = (int ?L - 1) * int IDR_BITS" "Suc ?l = ?L" "0 < ?L" using False by (simp_all add: idr_consts)
    have k: "u div 64 ^ Suc ?l = 0" using u unfolding l(4) by (simp add: div_eq_0_iff)
    have top: "top_i s = g ?l 0" "g ?l 0 \<noteq> NULL" using b(3) False by auto
    have "layer_ok g M (unmarked (dom M) u ?l l) c l k P = layer_ok g M (dom M) c l k P" if "l < ?L" for l c k P using that by (simp add: unmarked_def)
    then have D: "idr_base s ?L g M (unmarked (dom M) u ?l) (\<lambda>_ _. 0) F" using b(2) by (auto simp: idr_base_def idr_tree_def)
    from remove_down_ok[OF D l(1) b(1) start_refs[OF l(5)], unfolded l(2,3) k, folded top(1)]
    obtain pa' i' p' s1 where d: "remove_down B ?pa 1 (top_i s) ((int ?L - 1) * int IDR_BITS) (int u) s = Some (pa', i', p', s1)"
      "idr_base s1 ?L g M (unmarked (dom M) u 0) (\<lambda>_ _. 0) F" "top_i s1 = top_i s" "layers s1 = ?L"
      "p' = NULL \<and> M u = None \<or> p' = g 0 (u div 64) \<and> p' \<noteq> NULL \<and> i' = ?L \<and> refs_ok pa' ?L g u 0" by blast
    show ?thesis by (rule remove_leaf_ok[OF d(1,2,4) l(5) b(1) u _ top(2) d(5)]) (use d(3) top(1) in simp)
  qed
qed

end

lemma tree_without_top:
  assumes t: "idr_tree mem (Suc L) g M D c" and L: "0 < L" and o: "\<And>k. g (L - 1) k \<noteq> NULL \<Longrightarrow> k = 0"
  shows "idr_tree mem L g M D c"
proof -
  have "parent_ok L g l k" if "l < L" "g l k \<noteq> NULL" for l k
    using idr_treeD(2)[OF t, of l k] that o[of k] by (auto simp: parent_ok_def split: if_splits)
  then show ?thesis using t L unfolding idr_tree_def by (meson less_Suc_eq)
qed

lemma single_slot:
  assumes "layer_ok g M D 0 (Suc l) k P" "count_l P = 1" "ary P ! 0 \<noteq> NULL" "0 < i" "i < 64"
  shows "g l (64 * k + i) = NULL" "ary P ! i = NULL"
proof -
  let ?S = "{i. i < 64 \<and> used g M (Suc l) (64 * k + i)}"
  have "card ?S = 1" "0 \<in> ?S" using assms(1-3) by (auto simp: layer_ok_def)
  then have "?S = {0}" by (metis card_1_singletonE singletonD)
  then have "i \<notin> ?S" using assms(4) by (simp only: singleton_iff)
  then show "g l (64 * k + i) = NULL" using assms(5) by simp
  then show "ary P ! i = NULL" using assms(1,5) by (simp add: layer_ok_def)
qed

lemma cleared_top:
  assumes "length (ary P) = 64" "\<And>i. 0 < i \<Longrightarrow> i < 64 \<Longrightarrow> ary P ! i = NULL"
  shows "\<exists>q. P\<lparr>bitmap := 0, count_l := 0\<rparr> = idr_cache_ctor\<lparr>ary := (ary idr_cache_ctor)[0 := q]\<rparr>"
proof -
  have "ary P = (replicate 64 NULL)[0 := ary P ! 0]"
  proof (rule nth_equalityI)
    fix i assume "i < length (ary P)"
    then show "ary P ! i = (replicate 64 NULL)[0 := ary P ! 0] ! i" using assms by (cases i) auto
  qed (simp add: assms(1))
  then obtain q where "ary P = (replicate 64 NULL)[0 := q]" by blast
  then show ?thesis by (cases P) (auto simp: idr_cache_ctor_def idr_consts)
qed

lemma drop_top_ok:
  assumes base: "idr_base s (Suc (Suc l)) g M (\<lambda>_. dom M) (\<lambda>_ _. 0) F" and top: "top_i s = g (Suc l) 0" "g (Suc l) 0 \<noteq> NULL" "layers s = Suc (Suc l)"
    and T: "mem_i s (top_i s) = Some T" "count_l T = 1" "ary T ! 0 \<noteq> NULL"
  shows "\<exists>s'. drop_layer s = Some s' \<and> represents s' (Suc l) M"
proof -
  note t = idr_baseD(1)[OF base]
  have ok: "layer_ok g M (dom M) 0 (Suc l) 0 T" using idr_treeD(1)[OF t _ top(2)] T(1) top(1) by auto
  have len: "length (ary T) = 64" "ary T ! 0 = g l 0" using ok by (auto simp: layer_ok_def)
  have "k = 0" if "g l k \<noteq> NULL" for k
  proof (rule ccontr)
    assume k: "k \<noteq> 0"
    have "parent_ok (Suc (Suc l)) g l k" using idr_treeD(2)[OF t _ that] by simp
    then have "g (Suc l) (k div 64) \<noteq> NULL" by (simp add: parent_ok_def)
    moreover from this have "k div 64 = 0" using idr_treeD(2)[OF t, of "Suc l" "k div 64"] by (simp add: parent_ok_def)
    ultimately have "g l (64 * 0 + k) = NULL" by (intro single_slot(1)[OF ok T(2,3)]) (use k in \<open>simp_all add: div_eq_0_iff\<close>)
    then show False using that by simp
  qed
  then have t': "idr_tree (mem_i s) (Suc l) g M (\<lambda>_. dom M) (\<lambda>_ _. 0)" by (intro tree_without_top[OF t]) simp_all
  let ?s = "put_layer (top_i s) (T\<lparr>bitmap := 0, count_l := 0\<rparr>) s"
  have apart: "\<forall>l' < Suc l. \<forall>k. g l' k \<noteq> top_i s" "top_i s \<notin> set F"
    using idr_treeD(3)[OF t, of _ _ "Suc l" 0] idr_baseD(4)[OF base, of "Suc l" 0] top(1,2) by (metis less_Suc_eq less_irrefl, simp)
  have "idr_tree (mem_i ?s) (Suc l) g M (\<lambda>_. dom M) (\<lambda>_ _. 0)" using t' apart(1) by (subst tree_mem_cong[of _ g "mem_i ?s" "mem_i s"]) auto
  then have b: "idr_base ?s (Suc l) g M (\<lambda>_. dom M) (\<lambda>_ _. 0) F" using base apart(2) by (simp add: idr_base_def)
  obtain q where "mem_i ?s (top_i s) = Some (idr_cache_ctor\<lparr>ary := (ary idr_cache_ctor)[0 := q]\<rparr>)" using cleared_top[OF len(1) single_slot(2)[OF ok T(2,3)]] by auto
  from free_base[OF b _ apart(2,1) this] obtain s2 where s2: "free_layer (top_i s) ?s = Some s2" "idr_base s2 (Suc l) g M (\<lambda>_. dom M) (\<lambda>_ _. 0) (top_i s # F)" "layers s2 = layers s"
    using top(1,2) by auto
  have "drop_layer s = Some (s2\<lparr>top_i := g l 0, layers := Suc l\<rparr>)"
    using T top s2(1,3) len by (simp add: drop_layer_def ary_at_def)
  moreover have "represents (s2\<lparr>top_i := g l 0, layers := Suc l\<rparr>) (Suc l) M" using s2(2) T(3) len(2) unfolding represents_def by auto
  ultimately show ?thesis by blast
qed

lemma drop_layer_ok:
  assumes wf: "idr_wf s M"
  shows "\<exists>s'. drop_layer s = Some s' \<and> idr_wf s' M"
proof -
  from wf obtain g F where b: "layers s \<le> 5" "idr_base s (layers s) g M (\<lambda>_. dom M) (\<lambda>_ _. 0) F"
    "if layers s = 0 then top_i s = NULL else top_i s = g (layers s - 1) 0 \<and> top_i s \<noteq> NULL" by (rule idr_wfE)
  show ?thesis
  proof (cases "layers s = 0")
    case True
    then show ?thesis using b(3) wf by (auto simp: drop_layer_def)
  next
    case False
    then obtain T where T: "mem_i s (top_i s) = Some T" "layer_ok g M (dom M) 0 (layers s - 1) 0 T"
      using idr_treeD(1)[OF idr_baseD(1)[OF b(2)], of "layers s - 1" 0] b(3) by auto
    have a: "ary_at T 0 = Some (ary T ! 0)" using T(2) by (auto simp: layer_ok_def ary_at_def)
    show ?thesis
    proof (cases "count_l T = 1 \<and> layers s > 1 \<and> ary T ! 0 \<noteq> NULL")
      case True
      then obtain l where l: "layers s = Suc (Suc l)" by (metis One_nat_def less_imp_Suc_add add_Suc)
      have "Suc l \<le> 5" using b(1) l by simp
      moreover have "\<exists>s'. drop_layer s = Some s' \<and> represents s' (Suc l) M"
        by (rule drop_top_ok[OF b(2)[unfolded l] _ _ l T(1)]) (use True b(3) l in auto)
      ultimately show ?thesis using represents_wf by blast
    next
      case no: False
      then have "drop_layer s = Some s" using T(1) a False b(3) by (auto simp: drop_layer_def)
      then show ?thesis using wf by blast
    qed
  qed
qed

lemma trim_ok:
  assumes wf: "idr_wf s M"
  shows "\<exists>p s1. alloc_layer s = Some (p, s1) \<and> idr_wf (if p = NULL then s1 else s1\<lparr>mem_i := (mem_i s1)(p := None)\<rparr>) M"
proof -
  from wf obtain g F where b: "layers s \<le> 5" "idr_base s (layers s) g M (\<lambda>_. dom M) (\<lambda>_ _. 0) F"
    "if layers s = 0 then top_i s = NULL else top_i s = g (layers s - 1) 0 \<and> top_i s \<noteq> NULL" by (rule idr_wfE)
  show ?thesis
  proof (cases F)
    case Nil
    then show ?thesis using alloc_layer_none[of s] b(2) wf by auto
  next
    case (Cons a F')
    obtain s1 where s1: "alloc_layer s = Some (a, s1)" "top_i s1 = top_i s" "layers s1 = layers s" "idr_base s1 (layers s) g M (\<lambda>_. dom M) (\<lambda>_ _. 0) F'"
      "a \<noteq> NULL" "a \<notin> set F'" "\<forall>l < layers s. \<forall>k. g l k \<noteq> a" using alloc_base[OF b(2)[unfolded Cons]] by blast
    let ?s = "s1\<lparr>mem_i := (mem_i s1)(a := None)\<rparr>"
    have "idr_tree (mem_i ?s) (layers s) g M (\<lambda>_. dom M) (\<lambda>_ _. 0)"
      using idr_baseD(1)[OF s1(4)] s1(7) by (subst tree_mem_cong[of "layers s" g "mem_i ?s" "mem_i s1"]) auto
    then have "idr_base ?s (layers s) g M (\<lambda>_. dom M) (\<lambda>_ _. 0) F'" using s1(4,6) by (simp add: idr_base_def)
    then have "represents ?s (layers s) M" using b(3) s1(2,3) by (intro representsI) (auto split: if_splits)
    then show ?thesis using s1(1,5) represents_wf[OF _ b(1)] by auto
  qed
qed

context bitops_laws
begin

lemma idr_remove_ok:
  assumes wf: "idr_wf s M" and u: "u < 64 ^ layers s"
  shows "\<exists>s'. idr_remove B (int u) s = Some s' \<and> idr_wf s' (M(u := None))"
proof -
  have "u < 2 ^ 30" using u pow64[of "layers s"] wf by (auto simp: idr_wf_def)
  then have m: "int u AND MAX_ID_MASK = int u" by (simp add: idr_consts mask_max)
  obtain s1 where s1: "sub_remove B ((int (layers s) - 1) * int IDR_BITS) (int u) s = Some s1" "idr_wf s1 (M(u := None))" using sub_remove_ok[OF wf u] by blast
  obtain s2 where s2: "drop_layer s1 = Some s2" "idr_wf s2 (M(u := None))" using drop_layer_ok[OF s1(2)] by blast
  obtain p s3 where s3: "alloc_layer s2 = Some (p, s3)" "idr_wf (if p = NULL then s3 else s3\<lparr>mem_i := (mem_i s3)(p := None)\<rparr>) (M(u := None))" using trim_ok[OF s2(2)] by blast
  have "idr_remove B (int u) s = Some (if IDR_FREE_MAX \<le> id_free_cnt s2 then if p = NULL then s3 else s3\<lparr>mem_i := (mem_i s3)(p := None)\<rparr> else s2)"
    using m s1(1) s2(1) s3(1) by (simp add: idr_remove_def Let_def)
  then show ?thesis using s2(2) s3(2) by simp
qed

end

section \<open>Making layers\<close>

text \<open>The cache gives out memory that no layer of the table is in.\<close>

definition fresh_layers :: "addr list \<Rightarrow> idr \<Rightarrow> bool" where
  "fresh_layers ks s \<longleftrightarrow> distinct (filter (\<lambda>a. a \<noteq> NULL) ks) \<and> (\<forall>a \<in> set ks. a \<noteq> NULL \<longrightarrow> mem_i s a = None)"

lemma new_layer_wf:
  assumes wf: "idr_wf s M" and a: "a \<noteq> NULL" "mem_i s a = None"
  shows "\<exists>s'. free_layer a (put_layer a idr_cache_ctor s) = Some s' \<and> idr_wf s' M \<and> dom (mem_i s') = insert a (dom (mem_i s)) \<and> id_free_cnt s' = id_free_cnt s + 1"
proof -
  from wf obtain g F where b: "layers s \<le> 5" "idr_base s (layers s) g M (\<lambda>_. dom M) (\<lambda>_ _. 0) F"
    "if layers s = 0 then top_i s = NULL else top_i s = g (layers s - 1) 0 \<and> top_i s \<noteq> NULL" by (rule idr_wfE)
  have "free_chain (mem_i s) p F \<Longrightarrow> a \<notin> set F" for p using a(2) by (induction F arbitrary: p) auto
  then have apart: "a \<notin> set F" "\<forall>l < layers s. \<forall>k. g l k \<noteq> a"
    using idr_baseD(2)[OF b(2)] idr_treeD(1)[OF idr_baseD(1)[OF b(2)]] a by (blast, metis option.distinct(1))
  let ?s = "put_layer a idr_cache_ctor s"
  have "idr_tree (mem_i ?s) (layers s) g M (\<lambda>_. dom M) (\<lambda>_ _. 0)"
    using idr_baseD(1)[OF b(2)] apart(2) by (subst tree_mem_cong[of "layers s" g "mem_i ?s" "mem_i s"]) auto
  then have b': "idr_base ?s (layers s) g M (\<lambda>_. dom M) (\<lambda>_ _. 0) F" using b(2) apart(1) by (simp add: idr_base_def)
  have "idr_cache_ctor\<lparr>ary := (ary idr_cache_ctor)[0 := NULL]\<rparr> = idr_cache_ctor" by (simp add: list_update_same_conv)
  then have "mem_i ?s a = Some (idr_cache_ctor\<lparr>ary := (ary idr_cache_ctor)[0 := NULL]\<rparr>)" by simp
  from free_base[OF b' a(1) apart this] obtain s' where s': "free_layer a ?s = Some s'" "idr_base s' (layers s) g M (\<lambda>_. dom M) (\<lambda>_ _. 0) (a # F)"
    "top_i s' = top_i s" "layers s' = layers s" by auto
  have "represents s' (layers s) M" using s'(2-4) b(3) by (intro representsI) (auto split: if_splits)
  moreover have "dom (mem_i s') = insert a (dom (mem_i s))" "id_free_cnt s' = id_free_cnt s + 1"
    using s'(1) by (auto simp: free_layer_def spin_lock_def spin_unlock_def split: if_splits)
  ultimately show ?thesis using s'(1) represents_wf[OF _ b(1)] by blast
qed

lemma idr_pre_get_ok:
  assumes "idr_wf s M" "fresh_layers ks s"
  shows "\<exists>r s'. idr_pre_get ks s = Some (r, s') \<and> idr_wf s' M \<and> (r = 1 \<longrightarrow> 12 \<le> id_free_cnt s') \<and> (r = 1 \<or> r = 0) \<and>
    (NULL \<notin> set ks \<and> 12 - id_free_cnt s \<le> int (length ks) \<longrightarrow> r = 1)"
  using assms
proof (induction ks s rule: idr_pre_get.induct)
  case (1 s)
  then show ?case by (simp add: idr_consts)
next
  case (2 a ks s)
  show ?case
  proof (cases "id_free_cnt s < 12 \<and> a \<noteq> NULL")
    case True
    then have "mem_i s a = None" using 2(3) by (simp add: fresh_layers_def)
    then obtain s1 where s1: "free_layer a (put_layer a idr_cache_ctor s) = Some s1" "idr_wf s1 M" "dom (mem_i s1) = insert a (dom (mem_i s))" "id_free_cnt s1 = id_free_cnt s + 1"
      using new_layer_wf[OF 2(2)] True by blast
    have "fresh_layers ks s1" using 2(3) s1(3) True by (auto simp: fresh_layers_def domIff)
    then show ?thesis using 2(1)[of s1] s1 True by (simp add: idr_consts)
  next
    case False
    then show ?thesis using 2(2) by (auto simp: idr_consts)
  qed
qed

end
