(* ===== verification/Idr_Run.thy ===== *)
theory Idr_Run
  imports Idr_Remove
begin

text \<open>
  The life of an id table: the states that the operations reach with the map from ids to pointers that each of
  them stands for, and what the operations do to that map. Then what ids outside the table do.
\<close>

section \<open>Reachable tables\<close>

inductive idr_reach :: "bitops \<Rightarrow> idr \<Rightarrow> (nat \<rightharpoonup> addr) \<Rightarrow> bool" for B where
  Init: "idr_reach B (idr_init mem) Map.empty"
| Pre_get: "idr_reach B s M \<Longrightarrow> fresh_layers ks s \<Longrightarrow> idr_pre_get ks s = Some (r, s') \<Longrightarrow> idr_reach B s' M"
| Get_new: "idr_reach B s M \<Longrightarrow> \<exists>u < 2 ^ 30. M u = None \<Longrightarrow> idr_get_new B ptr s = Some (r, i, s') \<Longrightarrow>
    idr_reach B s' (case i of None \<Rightarrow> M | Some v \<Rightarrow> M(nat v \<mapsto> ptr))"
| Remove: "idr_reach B s M \<Longrightarrow> M u \<noteq> None \<Longrightarrow> idr_remove B (int u) s = Some s' \<Longrightarrow> idr_reach B s' (M(u := None))"

text \<open>The lowest free id.\<close>

definition lowest_free :: "(nat \<rightharpoonup> addr) \<Rightarrow> nat \<Rightarrow> bool" where
  "lowest_free M u \<longleftrightarrow> M u = None \<and> (\<forall>x < u. M x \<noteq> None) \<and> u < 2 ^ 30"

lemma lowest_exists:
  assumes "\<exists>u < 2 ^ 30. M u = None"
  shows "\<exists>u. lowest_free M u"
proof -
  obtain v where v: "v < 2 ^ 30" "M v = None" using assms by blast
  let ?u = "LEAST u. M u = None"
  have "?u \<le> v" "M ?u = None" using v(2) by (rule Least_le, rule LeastI)
  moreover have "M x \<noteq> None" if "x < ?u" for x using not_less_Least[OF that] by simp
  ultimately show ?thesis using v(1) unfolding lowest_free_def by (blast intro: le_less_trans)
qed

context bitops_laws
begin

lemma idr_get_new_ok:
  assumes "idr_wf s M" "lowest_free M u"
  shows "\<exists>s'. idr_get_new B ptr s = Some (0, Some (int u), s') \<and> idr_wf s' (M(u \<mapsto> ptr)) \<or>
    idr_get_new B ptr s = Some (- EAGAIN, None, s') \<and> idr_wf s' M \<and> id_free_cnt s < 6"
proof -
  have "got s M u ptr (idr_get_new_above_int B ptr 0 s)" using get_new_ok[OF assms(1)] assms(2) by (simp add: lowest_free_def)
  then show ?thesis unfolding got_def by (elim exE disjE) (auto simp: idr_get_new_def)
qed

lemma table_reach_wf: "idr_reach B s M \<Longrightarrow> idr_wf s M"
proof (induction rule: idr_reach.induct)
  case (Init mem)
  show ?case by (rule init_wf)
next
  case (Pre_get s M ks r s')
  then show ?case using idr_pre_get_ok[OF Pre_get.IH Pre_get.hyps(2)] by auto
next
  case (Get_new s M ptr r i s')
  obtain u where u: "lowest_free M u" using lowest_exists[OF Get_new.hyps(2)] by blast
  show ?case using idr_get_new_ok[OF Get_new.IH u, of ptr] Get_new.hyps(3) by (auto simp del: fun_upd_apply)
next
  case (Remove s M u s')
  then obtain q where "M u = Some q" by blast
  then show ?case using idr_remove_ok[OF Remove.IH wf_bound[OF Remove.IH, of u]] Remove.hyps(3) by (auto simp del: fun_upd_apply)
qed

lemma get_new_reach:
  assumes r: "idr_reach B s M" and u: "lowest_free M u"
  shows "\<exists>s'. idr_get_new B ptr s = Some (0, Some (int u), s') \<and> idr_reach B s' (M(u \<mapsto> ptr)) \<or>
    idr_get_new B ptr s = Some (- EAGAIN, None, s') \<and> idr_reach B s' M \<and> id_free_cnt s < 6"
proof -
  note g = idr_reach.Get_new[OF r, of ptr]
  have "\<exists>x < 2 ^ 30. M x = None" using u unfolding lowest_free_def by blast
  then show ?thesis using idr_get_new_ok[OF table_reach_wf[OF r] u, of ptr] g by (auto simp del: fun_upd_apply)
qed

lemma pre_get_then_new:
  assumes r: "idr_reach B s M" and u: "lowest_free M u" and ks: "fresh_layers ks s" "NULL \<notin> set ks" "12 \<le> length ks"
  shows "\<exists>s1 s2. idr_pre_get ks s = Some (1, s1) \<and> idr_get_new B ptr s1 = Some (0, Some (int u), s2) \<and> idr_reach B s2 (M(u \<mapsto> ptr))"
proof -
  have "0 \<le> id_free_cnt s" using table_reach_wf[OF r] by (rule idr_wfE) (auto simp: idr_base_def)
  then obtain s1 where s1: "idr_pre_get ks s = Some (1, s1)" "12 \<le> id_free_cnt s1" using idr_pre_get_ok[OF table_reach_wf[OF r] ks(1)] ks(2,3) by auto
  have "idr_reach B s1 M" by (rule idr_reach.Pre_get[OF r ks(1) s1(1)])
  then show ?thesis using get_new_reach[of s1 M u ptr] u s1 by auto
qed

lemma remove_reach:
  assumes r: "idr_reach B s M" and u: "M u \<noteq> None"
  shows "\<exists>s'. idr_remove B (int u) s = Some s' \<and> idr_reach B s' (M(u := None))"
proof -
  note wf = table_reach_wf[OF r]
  obtain q where "M u = Some q" using u by blast
  then obtain s' where "idr_remove B (int u) s = Some s'" using idr_remove_ok[OF wf wf_bound[OF wf, of u]] by blast
  then show ?thesis using idr_reach.Remove[OF r u] by blast
qed

end

text \<open>Of an id above the table, only the part below counts when it is removed.\<close>

lemma digit_mod: "l < L \<Longrightarrow> digit (u mod 64 ^ L) l = digit u l"
proof -
  assume "l < L"
  then have e: "(64::nat) ^ L = 64 ^ l * (64 * 64 ^ (L - Suc l))" by (simp flip: power_add power_Suc)
  show ?thesis unfolding digit_def e by (simp add: mod_mult2_eq mod_mult_right_eq div_mult2_eq)
qed

lemma remove_down_mod:
  assumes "l < L"
  shows "remove_down B pa i p (int (6 * l)) (int u) s = remove_down B pa i p (int (6 * l)) (int (u mod 64 ^ L)) s"
  using assms
proof (induction l arbitrary: pa i p s)
  case 0
  show ?case by (subst (1 2) remove_down.simps) simp
next
  case (Suc l)
  have n: "nat (drop_bit (nat (int (6 * Suc l))) (int v) AND IDR_MASK) = digit v (Suc l)" for v using slot_id(1)[of "Suc l" v] by (simp only: nat_int idr_consts)
  have sh: "int (6 * Suc l) - int IDR_BITS = int (6 * l)" by (simp add: idr_consts)
  have IH: "remove_down B pa i p (int (6 * l)) (int (u mod 64 ^ L)) s = remove_down B pa i p (int (6 * l)) (int u) s" for pa i p s using Suc.IH Suc.prems by simp
  show ?case by (subst (1 2) remove_down.simps) (simp only: n sh digit_mod[OF Suc.prems] IH)
qed

lemma idr_remove_mod:
  assumes "0 < layers s" "layers s \<le> 5" "u < 2 ^ 31"
  shows "idr_remove B (int u) s = idr_remove B (int (u mod 64 ^ layers s)) s"
proof -
  let ?v = "u mod 64 ^ layers s"
  have "?v < 2 ^ 31" using assms(3) by (meson le_less_trans mod_less_eq_dividend)
  then have m: "int u AND MAX_ID_MASK = int u" "int ?v AND MAX_ID_MASK = int ?v" using assms(3) by (simp_all add: idr_consts mask_max)
  have sh: "(int (layers s) - 1) * int IDR_BITS = int (6 * (layers s - 1))" using assms(1) by (simp add: idr_consts)
  have n: "int u AND IDR_MASK = int ?v AND IDR_MASK" using digit_mod[of 0 "layers s" u] assms(1) by (simp add: idr_consts mask_id digit_def)
  have d: "remove_down B pa i p (int (6 * (layers s - 1))) (int u) s' = remove_down B pa i p (int (6 * (layers s - 1))) (int ?v) s'" for pa i p s'
    by (rule remove_down_mod) (use assms(1) in simp)
  have "sub_remove B (int (6 * (layers s - 1))) (int u) s = sub_remove B (int (6 * (layers s - 1))) (int ?v) s"
    unfolding sub_remove_def d n ..
  then show ?thesis unfolding idr_remove_def m sh by simp
qed

section \<open>Asking for ids from a number on\<close>

text \<open>In an empty table the layers are counted up to six.\<close>

lemma grow_empty:
  assumes "mem_i s p = Some P" "count_l P = 0" "2 ^ 30 \<le> nr" "0 < l" "l \<le> 6"
  shows "grow_layers B p l nr s = Some (True, p, 6, s)"
  using assms(4,5)
proof (induction "6 - l" arbitrary: l)
  case 0
  then have "l = 6" by simp
  then show ?case by (subst grow_layers.simps) (simp add: idr_consts)
next
  case (Suc n)
  then have l: "l \<le> 5" by simp
  have "(64::int) ^ l \<le> 64 ^ 5" using l by (intro power_increasing) auto
  then have "(64::int) ^ l \<le> nr" using assms(3) by simp
  moreover have "grow_layers B p (Suc l) nr s = Some (True, p, 6, s)" using Suc by simp
  ultimately show ?case using shl32_one[OF l] assms(1,2) l by (subst grow_layers.simps) (simp add: idr_consts mult.commute)
qed

lemma above_empty:
  assumes "idr_wf s Map.empty" "layers s = 0" "0 < id_free_cnt s" "2 ^ 30 \<le> nr"
  shows "idr_get_new_above B ptr nr s = None"
proof -
  from assms(1) obtain g F where b: "idr_base s 0 g Map.empty (\<lambda>_. {}) (\<lambda>_ _. 0) F" "top_i s = NULL" by (rule idr_wfE) (use assms(2) in auto)
  then obtain a F' where F: "F = a # F'" using assms(3) idr_baseD(5)[OF b(1)] by (cases F) auto
  obtain s1 where s1: "alloc_layer s = Some (a, s1)" "a \<noteq> NULL" "mem_i s1 a = Some idr_cache_ctor" using first_layer[OF b(1)[unfolded F]] by auto
  have "sub_alloc B ptr nr (s1\<lparr>top_i := a, layers := 6\<rparr>) = None" by (simp add: sub_alloc_def pa_put_def idr_consts)
  then have "idr_get_new_above_int B ptr nr s = None"
    using b(2) s1 grow_empty[OF s1(3) _ assms(4), of 1 B] by (subst idr_get_new_above_int.simps) simp
  then show ?thesis by (simp add: idr_get_new_above_def)
qed

text \<open>
  In a table of two layers, the search from 4095 on goes to the last leaf. When its last slot is in use, the id is
  4096 from there on, but the search goes on in the same layer on top, in its first slot.
\<close>

abbreviation pa_top :: "addr \<Rightarrow> addr option list" where
  "pa_top p \<equiv> [None, Some p, Some NULL, None, None, None]"

lemma leaf_slot_4095: "digit 4095 0 = 63" "digit 4095 1 = 63" "digit 4096 0 = 0" "digit 4096 1 = 0"
  by (simp_all add: digit_def)

context bitops_laws
begin

lemma walk_to_last:
  assumes base: "idr_base s 2 g M (\<lambda>_. dom M) (\<lambda>_ _. 0) F" and top: "g 1 0 \<noteq> NULL" and M: "M 4095 \<noteq> None" "4032 \<le> x" "x < 4095" "M x = None"
  shows "find_leaf B [None, None, Some NULL, None, None, None] (g 1 0) 1 4095 s = find_leaf B (pa_top (g 1 0)) (g 1 0) 1 4096 s"
proof -
  note t = idr_baseD(1)[OF base]
  have q: "g 0 63 \<noteq> NULL" using idr_treeD(4)[OF t, of 4095] M(1) by auto
  obtain P where P: "mem_i s (g 1 0) = Some P" "layer_ok g M (dom M) 0 1 0 P" using idr_treeD(1)[OF t, of 1 0] top by auto
  obtain Q where Q: "mem_i s (g 0 63) = Some Q" "layer_ok g M (dom M) 0 0 63 Q" using idr_treeD(1)[OF t, of 0 63] q by auto
  have "x div 64 = 63" using M(2,3) by (simp add: div_nat_eqI)
  then have "\<not> full (dom M) 1 63" using M(4) by (auto simp: full_def domIff)
  then have b: "\<not> bit (bitmap P) 63" "ary P ! 63 = g 0 63" "length (ary P) = 64" using P(2) by (auto simp: layer_ok_def)
  have m: "find_next_bit B (NOT (bitmap P)) 64 63 = 63" by (rule find_hit) (use b(1) in \<open>simp_all add: bit_not_iff\<close>)
  have a: "ary_at P 63 = Some (g 0 63)" using b(2,3) by (simp add: ary_at_def)
  have "bit (bitmap Q) (63::nat) = full (dom M) 0 (64 * 63 + 63)" using Q(2) unfolding layer_ok_def by (elim conjE) simp
  then have "bit (bitmap Q) 63" using M(1) by (auto simp: domIff)
  then have "\<not> bit (NOT (bitmap Q)) j" if "63 \<le> j" "j < 64" for j using that by (cases "j = 63") (simp_all add: bit_not_iff)
  then have n: "find_next_bit B (NOT (bitmap Q)) 64 63 = 64" by (intro find_none) simp_all
  have lb: "layer_below (g 1 0) 63 s = Some (True, s)" using P(1) a q by (simp add: layer_below_def)
  have d: "nat (drop_bit 6 4095 AND 63) = 63" "drop_bit 6 4095 AND 63 = (63::int)" "nat (4095 AND 63) = 63" by simp_all
  have "find_leaf B [None, None, Some NULL, None, None, None] (g 1 0) 1 4095 s = find_leaf B (pa_top (g 1 0)) (g 0 63) 0 4095 s"
    using P(1) m a lb d(1,2) by (subst find_leaf.simps) (simp add: idr_consts Let_def pa_put_def)
  also have "\<dots> = find_leaf B (pa_top (g 1 0)) (g 1 0) 1 4096 s"
    using Q(1) n d(3) top by (subst find_leaf.simps) (simp add: idr_consts Let_def pa_get_def shl32_def int32_def)
  finally show ?thesis .
qed

lemma walk_to_first:
  assumes base: "idr_base s 2 g M (\<lambda>_. dom M) (\<lambda>_ _. 0) F" and top: "g 1 0 \<noteq> NULL" and M: "M 0 = None" and F: "F \<noteq> []"
  shows "\<exists>s' g' F'. find_leaf B (pa_top (g 1 0)) (g 1 0) 1 4096 s = Some (Inr (g' 0 0, 0, 4096, pa_top (g 1 0)), s') \<and>
    idr_base s' 2 g' M (\<lambda>_. dom M) (\<lambda>_ _. 0) F' \<and> g' 0 0 \<noteq> NULL \<and> g' 1 0 = g 1 0 \<and> top_i s' = top_i s \<and> layers s' = layers s"
proof -
  obtain P where P: "mem_i s (g 1 0) = Some P" "layer_ok g M (dom M) 0 1 0 P" using idr_treeD(1)[OF idr_baseD(1)[OF base], of 1 0] top by auto
  have free: "\<not> full (dom M) l 0" for l using M not_full_at[of 0 "dom M" l] by auto
  have "\<not> bit (bitmap P) 0" using P(2) free by (auto simp: layer_ok_def)
  then have m: "find_next_bit B (NOT (bitmap P)) 64 0 = 0" by (intro find_hit) (simp_all add: bit_not_iff)
  obtain s' g' F' where b: "layer_below (g 1 0) 0 s = Some (True, s')" "idr_base s' 2 g' M (\<lambda>_. dom M) (\<lambda>_ _. 0) F'" "g' 0 0 \<noteq> NULL" "grown g g' 0"
    "top_i s' = top_i s" "layers s' = layers s" using layer_below_ok[OF base, of 0 0 0] top F by auto
  have g': "g' 1 0 = g 1 0" using b(4) top unfolding grown_def by metis
  obtain P' where P': "mem_i s' (g 1 0) = Some P'" "layer_ok g' M (dom M) 0 1 0 P'" using idr_treeD(1)[OF idr_baseD(1)[OF b(2)], of 1 0] top g' by auto
  obtain Q where Q: "mem_i s' (g' 0 0) = Some Q" "layer_ok g' M (dom M) 0 0 0 Q" using idr_treeD(1)[OF idr_baseD(1)[OF b(2)], of 0 0] b(3) by auto
  have c: "ary_at P' 0 = Some (g' 0 0)" using P'(2) by (auto simp: ary_at_def layer_ok_def)
  have "\<not> bit (bitmap Q) 0" using Q(2) M by (auto simp: layer_ok_def domIff)
  then have n: "find_next_bit B (NOT (bitmap Q)) 64 0 = 0" by (intro find_hit) (simp_all add: bit_not_iff)
  have d: "drop_bit 6 4096 AND 63 = (0::int)" "4096 AND 63 = (0::int)" by simp_all
  have "find_leaf B (pa_top (g 1 0)) (g 1 0) 1 4096 s = find_leaf B (pa_top (g 1 0)) (g' 0 0) 0 4096 s'"
    using P(1) P'(1) m c b(1) d(1) by (subst find_leaf.simps) (simp add: idr_consts Let_def pa_put_def)
  also have "\<dots> = Some (Inr (g' 0 0, 0, 4096, pa_top (g 1 0)), s')"
    using Q(1) n d(2) by (subst find_leaf.simps) (simp add: idr_consts Let_def)
  finally show ?thesis using b(2,3,5,6) g' by blast
qed

lemma mark_two: "mark_full B (pa_top q) p 0 4096 s = mark_full B (pa_top q) p 0 0 s"
proof -
  have p: "pa_get (pa_top q) (1 + 1) = Some NULL" "pa_get (pa_top q) (0 + 1) = Some q" by (simp_all add: pa_get_def)
  have d: "drop_bit 6 4096 AND 63 = (0::int)" "drop_bit 6 0 AND 63 = (0::int)" by simp_all
  have "mark_full B (pa_top q) q (0 + 1) n s' = mem_i s' q \<bind> (\<lambda>_. Some s')" for n s'
    by (subst mark_full.simps) (simp only: p(1) add_0 bind.bind_lunit if_True if_cancel refl simp_thms)
  then show ?thesis by (subst (1 2) mark_full.simps) (simp only: p(2) bind.bind_lunit Let_def idr_consts d)
qed

lemma above_lost:
  assumes wf: "idr_wf s M" and L: "layers s = 2" and M: "M 4095 \<noteq> None" "4032 \<le> x" "x < 4095" "M x = None" "M 0 = None" and F: "0 < id_free_cnt s"
  shows "\<exists>s'. idr_get_new_above B ptr 4095 s = Some (0, Some 4096, s') \<and> idr_wf s' (M(0 \<mapsto> ptr))"
proof -
  from wf obtain g F where b: "idr_base s 2 g M (\<lambda>_. dom M) (\<lambda>_ _. 0) F" "top_i s = g 1 0" "g 1 0 \<noteq> NULL" by (rule idr_wfE) (use L in auto)
  have "F \<noteq> []" using idr_baseD(5)[OF b(1)] F by auto
  from walk_to_first[OF b(1,3) M(5) this] walk_to_last[OF b(1,3) M(1-4)]
  obtain s1 g1 F1 where f: "find_leaf B [None, None, Some NULL, None, None, None] (g 1 0) 1 4095 s = Some (Inr (g1 0 0, 0, 4096, pa_top (g 1 0)), s1)"
    "idr_base s1 2 g1 M (\<lambda>_. dom M) (\<lambda>_ _. 0) F1" "g1 0 0 \<noteq> NULL" "g1 1 0 = g 1 0" "top_i s1 = top_i s" "layers s1 = layers s" by auto
  obtain P where P: "mem_i s1 (g1 0 0) = Some P" using idr_treeD(1)[OF idr_baseD(1)[OF f(2)], of 0 0] f(3) by auto
  note pl = plant_ok(1)[OF f(2), of 0 P] plant_ok(2)[OF f(2), of 0 P ptr]
  have pa: "pa_ok (pa_top (g 1 0)) 2 g1 0 (Suc 0)" using f(4) b(3) by (auto simp: pa_ok_def less_2_cases_iff)
  let ?s = "put_layer (g1 0 0) (P\<lparr>ary := (ary P)[0 := ptr], bitmap := b_set_bit B 0 (bitmap P), count_l := count_l P + 1\<rparr>) s1"
  obtain s2 where m: "mark_full B (pa_top (g 1 0)) (g1 0 0) 0 0 ?s = Some s2" "idr_base s2 2 g1 (M(0 \<mapsto> ptr)) (\<lambda>_. insert 0 (dom M)) (\<lambda>_ _. 0) F1"
    "top_i s2 = top_i s1" "layers s2 = layers s1"
    using mark_full_ok[of ?s 2 g1 "M(0 \<mapsto> ptr)" "dom M" 0 0 F1, OF _ _ _ _ pa] pl(2) P f(3) M(5) by auto
  have "pa_put (replicate MAX_LEVEL None) (layers s) NULL = Some [None, None, Some NULL, None, None, None]"
    unfolding L by (simp add: pa_put_def idr_consts numeral_eq_Suc)
  moreover have "0 < length (ary P)" using pl(1) P f(3) M(5) by simp
  ultimately have "sub_alloc B ptr 4095 s = Some (4096, 4095, s2)"
    using f(1) P m(1) b(2) L by (simp add: sub_alloc_def Let_def mark_two)
  moreover have "top_i s \<noteq> NULL" "layers s \<le> 5" "4095 < (64::nat) ^ layers s" using b(2,3) L by simp_all
  ultimately have "idr_get_new_above_int B ptr 4095 s = Some (4096, s2)"
    using no_growth[of "layers s" 4095 B "top_i s" s] by (subst idr_get_new_above_int.simps) simp
  moreover have "represents s2 2 (M(0 \<mapsto> ptr))" using m(2-4) f(4-6) b(2,3) L by (intro representsI[where g = g1 and F = F1]) auto
  ultimately show ?thesis using represents_wf by (simp add: idr_get_new_above_def)
qed

end

section \<open>Properties\<close>


text \<open>Layers for a table, and a table with a pointer in it.\<close>

definition ex_layers :: "addr list" where
  "ex_layers = map (\<lambda>i. of_nat (4096 * Suc i)) [0..<12]"

lemma ex_fresh: "fresh_layers ex_layers (idr_init Map.empty)" "NULL \<notin> set ex_layers" "12 \<le> length ex_layers"
  by (simp_all add: fresh_layers_def ex_layers_def idr_init_def upt_rec)

lemma lowest_first: "lowest_free Map.empty 0"
  by (simp add: lowest_free_def)

lemma ex_reach: "\<exists>s. idr_reach std_bits s [0 \<mapsto> 7]"
  using std.pre_get_then_new[OF idr_reach.Init lowest_first ex_fresh, of 7] by auto

lemma idr_pre_get_layers: "idr_pre_get ks s = Some (r, s') \<Longrightarrow> layers s' = layers s"
  by (induction ks s rule: idr_pre_get.induct) (auto simp: free_layer_def spin_lock_def spin_unlock_def split: if_splits)

text \<open>A table of two layers with the last id in it.\<close>

definition ex_two :: idr where
  "ex_two = \<lparr>top_i = 4096, id_free = 12288, layers = 2, id_free_cnt = 1, lock_i = False, mem_i =
     [4096 \<mapsto> \<lparr>bitmap = 0, ary = (replicate 64 NULL)[63 := 8192], count_l = 1\<rparr>,
      8192 \<mapsto> \<lparr>bitmap = push_bit 63 1, ary = (replicate 64 NULL)[63 := 7], count_l = 1\<rparr>, 12288 \<mapsto> idr_cache_ctor]\<rparr>"

lemma ex_two_wf: "idr_wf ex_two [4095 \<mapsto> 7]"
proof -
  let ?g = "\<lambda>l k. if l = Suc 0 \<and> k = 0 then 4096 else if l = 0 \<and> k = 63 then 8192 else NULL" and ?M = "[4095 \<mapsto> 7]" and ?m = "mem_i ex_two"
  have nf: "\<not> full {4095} 1 k" for k
  proof -
    have "k * 64 \<noteq> 4095" by presburger
    then show ?thesis using full_in[of "{4095}" 1 k] by auto
  qed
  have one: "{i::nat. i < 64 \<and> i = 63} = {63}" by auto
  have i63: "64 * 63 + i = 4095 \<longleftrightarrow> i = 63" for i :: nat by auto
  have top: "layer_ok ?g ?M {4095} 0 1 0 \<lparr>bitmap = 0, ary = (replicate 64 NULL)[63 := 8192], count_l = 1\<rparr>"
    using nf one by (auto simp: layer_ok_def nth_list_update)
  have leaf: "layer_ok ?g ?M {4095} 0 0 63 \<lparr>bitmap = push_bit 63 1, ary = (replicate 64 NULL)[63 := 7], count_l = 1\<rparr>"
  proof -
    have "bit (push_bit 63 (1::64 word)) i \<longleftrightarrow> i = 63" if "i < 64" for i
      unfolding bit_push_bit_iff bit_1_iff using that by auto
    moreover have "{i. i < 64 \<and> used ?g ?M 0 (64 * 63 + i)} = {63}" by auto
    ultimately show ?thesis unfolding layer_ok_def i63 by (simp add: nth_list_update)
  qed
  have "idr_tree ?m 2 ?g ?M (\<lambda>_. {4095}) (\<lambda>_ _. 0)"
    using top leaf by (auto simp: idr_tree_def ex_two_def parent_ok_def less_2_cases_iff split: if_splits)
  moreover have "idr_cache_ctor\<lparr>ary := (ary idr_cache_ctor)[0 := NULL]\<rparr> = idr_cache_ctor" by (simp add: list_update_same_conv)
  then have "free_chain ?m 12288 [12288]" by (auto simp: ex_two_def intro!: exI[of _ NULL])
  ultimately have "idr_base ex_two 2 ?g ?M (\<lambda>_. dom ?M) (\<lambda>_ _. 0) [12288]" by (simp add: idr_base_def ex_two_def)
  then have "represents ex_two 2 ?M" by (intro representsI[where g = ?g and F = "[12288]"]) (simp_all add: ex_two_def)
  then show ?thesis by (rule represents_wf) simp
qed

text \<open>
  C6: A table that the operations have made from an empty one represents a map from ids below \<open>2 ^ 30\<close> to pointers:
  \<open>idr_find\<close> returns what the map has for the id (less its top bit), and \<open>NULL\<close> for an id that is not in it.
\<close>

theorem idr_refines_map:
  assumes "bitops_laws B" "idr_reach B s M"
  shows "idr_find (int u) s = Some (case M (u mod 2 ^ 31) of None \<Rightarrow> NULL | Some p \<Rightarrow> p) \<and> (M u = None \<or> u < 2 ^ 30)"
proof -
  have wf: "idr_wf s M" by (rule bitops_laws.table_reach_wf[OF assms])
  have "M u = None \<or> u < 64 ^ layers s" using wf_bound[OF wf, of u] by (cases "M u") auto
  then show ?thesis using find_wf[OF wf] pow64[of "layers s"] wf by (auto simp: idr_wf_def)
qed

theorem idr_refines_map_witness:
  "\<exists>s. idr_reach std_bits s [0 \<mapsto> 7] \<and> idr_find 0 s = Some 7 \<and> idr_find 5 s = Some NULL"
proof -
  obtain s where s: "idr_reach std_bits s [0 \<mapsto> 7]" using ex_reach by blast
  show ?thesis using s idr_refines_map[OF std.bitops_laws_axioms s, of 0] idr_refines_map[OF std.bitops_laws_axioms s, of 5] by auto
qed



text \<open>
  C9: After \<open>idr_pre_get\<close> with enough memory, \<open>idr_get_new\<close> succeeds in every table that has a free id, and
  \<open>idr_find\<close> returns the pointer for the id.
\<close>

theorem idr_pre_get_suffices:
  assumes "bitops_laws B" "idr_reach B s M" "lowest_free M u" "fresh_layers ks s" "NULL \<notin> set ks" "12 \<le> length ks"
  shows "\<exists>s1 s2. idr_pre_get ks s = Some (1, s1) \<and> idr_get_new B ptr s1 = Some (0, Some (int u), s2) \<and> idr_find (int u) s2 = Some ptr"
proof -
  obtain s1 s2 where s: "idr_pre_get ks s = Some (1, s1)" "idr_get_new B ptr s1 = Some (0, Some (int u), s2)" "idr_reach B s2 (M(u \<mapsto> ptr))"
    using bitops_laws.pre_get_then_new[OF assms] by blast
  have "u < 2 ^ 31" using assms(3) by (simp add: lowest_free_def)
  then show ?thesis using s find_wf[OF bitops_laws.table_reach_wf[OF assms(1) s(3)], of u] by auto
qed

theorem idr_pre_get_suffices_witness:
  "\<exists>s1 s2. idr_pre_get ex_layers (idr_init Map.empty) = Some (1, s1) \<and> idr_get_new std_bits 7 s1 = Some (0, Some 0, s2) \<and> idr_find 0 s2 = Some 7"
  using idr_pre_get_suffices[OF std.bitops_laws_axioms idr_reach.Init lowest_first ex_fresh, of 7] by simp

text \<open>
  C8: \<open>idr_remove\<close> of an id that is in the table takes it out and leaves every other id as it was: layers that
  become empty are freed, and the layer on top is dropped when only its first slot is in use.
\<close>

theorem idr_remove_frees:
  assumes "bitops_laws B" "idr_reach B s M" "M u \<noteq> None"
  shows "\<exists>s'. idr_remove B (int u) s = Some s' \<and> idr_reach B s' (M(u := None)) \<and> idr_find (int u) s' = Some NULL \<and>
    (\<forall>v < 2 ^ 31. v \<noteq> u \<longrightarrow> idr_find (int v) s' = idr_find (int v) s)"
proof -
  note wf = bitops_laws.table_reach_wf[OF assms(1,2)]
  obtain s' where s': "idr_remove B (int u) s = Some s'" "idr_reach B s' (M(u := None))" using bitops_laws.remove_reach[OF assms] by blast
  note f = find_wf[OF bitops_laws.table_reach_wf[OF assms(1) s'(2)]]
  have "u < 64 ^ layers s" using wf_bound[OF wf, of u] assms(3) by blast
  then have "u < 2 ^ 30" using pow64[of "layers s"] wf by (auto simp: idr_wf_def)
  then show ?thesis using s' f[of u] f find_wf[OF wf] by simp
qed

theorem idr_remove_frees_witness:
  "\<exists>s s'. idr_reach std_bits s [0 \<mapsto> 7] \<and> idr_remove std_bits 0 s = Some s' \<and> idr_reach std_bits s' Map.empty \<and> idr_find 0 s' = Some NULL"
proof -
  obtain s where s: "idr_reach std_bits s [0 \<mapsto> 7]" using ex_reach by blast
  have "[0 \<mapsto> 7] 0 \<noteq> None" "[0 \<mapsto> 7](0 := None) = Map.empty" by simp_all
  then show ?thesis using s idr_remove_frees[OF std.bitops_laws_axioms s, of 0] by (auto simp del: fun_upd_apply)
qed

text \<open>
  C32: \<open>idr_remove\<close> does not see that an id is above the table: of an id that was never given out it takes the part
  below, and the pointer of that id is lost.
\<close>

theorem idr_remove_wrong_id:
  assumes "bitops_laws B" "idr_reach B s M" "64 ^ layers s \<le> u" "u < 2 ^ 31" "M (u mod 64 ^ layers s) = Some p"
  shows "M u = None \<and> idr_find (int (u mod 64 ^ layers s)) s = Some p \<and>
    (\<exists>s'. idr_remove B (int u) s = Some s' \<and> idr_find (int (u mod 64 ^ layers s)) s' = Some NULL)"
proof -
  let ?v = "u mod 64 ^ layers s"
  note wf = bitops_laws.table_reach_wf[OF assms(1,2)]
  have v: "?v < 64 ^ layers s" "?v < 2 ^ 31" using assms(4) by (simp, meson le_less_trans mod_less_eq_dividend)
  have "0 < layers s" using assms(5) wf by (auto simp: idr_wf_def represents_def idr_base_def idr_tree_def split: if_splits)
  then have "idr_remove B (int u) s = idr_remove B (int ?v) s" using idr_remove_mod[of s u B] assms(4) wf by (simp add: idr_wf_def)
  moreover obtain s' where "idr_remove B (int ?v) s = Some s'" "idr_wf s' (M(?v := None))" using bitops_laws.idr_remove_ok[OF assms(1) wf v(1)] by blast
  moreover have "M u = None" using wf_bound[OF wf, of u] assms(3) by (cases "M u") auto
  ultimately show ?thesis using find_wf[of s' _ ?v] find_wf[OF wf, of ?v] v(2) assms(5) by auto
qed

theorem idr_remove_wrong_id_witness:
  "\<exists>s u s'. idr_reach std_bits s [0 \<mapsto> 7] \<and> idr_find 0 s = Some 7 \<and> idr_remove std_bits (int u) s = Some s' \<and> 0 < u \<and> idr_find 0 s' = Some NULL"
proof -
  obtain s where s: "idr_reach std_bits s [0 \<mapsto> 7]" using ex_reach by blast
  have "(64::nat) ^ layers s \<le> 2 ^ 30" using std.table_reach_wf[OF s] pow64 by (simp add: idr_wf_def)
  then have "(64::nat) ^ layers s < 2 ^ 31" by simp
  then have "idr_find 0 s = Some 7 \<and> (\<exists>s'. idr_remove std_bits (int (64 ^ layers s)) s = Some s' \<and> idr_find 0 s' = Some NULL)"
    using idr_remove_wrong_id[OF std.bitops_laws_axioms s, of "64 ^ layers s" 7] by simp
  moreover have "0 < (64::nat) ^ layers s" by simp
  ultimately show ?thesis using s by blast
qed

text \<open>
  \<open>idr_get_new_above\<close> with a start of \<open>2 ^ 30\<close> or more in an empty table writes behind the array \<open>pa\<close> of
  \<open>sub_alloc\<close>, although ids up to \<open>0x7fffffff\<close> are promised.
\<close>

theorem idr_above_overruns:
  assumes "bitops_laws B" "idr_reach B s Map.empty" "layers s = 0" "0 < id_free_cnt s" "2 ^ 30 \<le> nr"
  shows "idr_get_new_above B ptr nr s = None"
  by (rule above_empty[OF bitops_laws.table_reach_wf[OF assms(1,2)] assms(3-5)])

theorem idr_above_overruns_witness:
  "\<exists>s. idr_pre_get ex_layers (idr_init Map.empty) = Some (1, s) \<and> idr_get_new_above std_bits 7 (2 ^ 30) s = None"
proof -
  have "id_free_cnt (idr_init Map.empty) = 0" by (simp add: idr_init_def)
  then obtain s where s: "idr_pre_get ex_layers (idr_init Map.empty) = Some (1, s)" "12 \<le> id_free_cnt s"
    using idr_pre_get_ok[OF init_wf ex_fresh(1)] ex_fresh(2,3) by auto
  have "idr_reach std_bits s Map.empty" by (rule idr_reach.Pre_get[OF idr_reach.Init ex_fresh(1) s(1)])
  moreover have "layers s = 0" using idr_pre_get_layers[OF s(1)] by (simp add: idr_init_def)
  ultimately have "idr_get_new_above std_bits 7 (2 ^ 30) s = None" using s(2) by (intro idr_above_overruns[OF std.bitops_laws_axioms]) simp_all
  then show ?thesis using s(1) by blast
qed

text \<open>
  C31: The search of \<open>sub_alloc\<close> does not start again when the id carries over more than one layer: in a
  table of two layers where the id 4095 is in use, \<open>idr_get_new_above\<close> from 4095 returns the id 4096, but puts the
  pointer under the id 0; \<open>idr_find\<close> of the id that was returned gives \<open>NULL\<close>.
\<close>

theorem idr_above_loses_pointer:
  assumes "bitops_laws B" "idr_wf s M" "layers s = 2" "M 4095 \<noteq> None" "4032 \<le> x" "x < 4095" "M x = None" "M 0 = None" "0 < id_free_cnt s"
  shows "\<exists>s'. idr_get_new_above B ptr 4095 s = Some (0, Some 4096, s') \<and> idr_find 4096 s' = Some NULL \<and> idr_find 0 s' = Some ptr"
proof -
  obtain s' where s': "idr_get_new_above B ptr 4095 s = Some (0, Some 4096, s')" "idr_wf s' (M(0 \<mapsto> ptr))"
    using bitops_laws.above_lost[OF assms] by blast
  have "M 4096 = None" using wf_bound[OF assms(2), of 4096] assms(3) by (cases "M 4096") auto
  then show ?thesis using s' find_wf[OF s'(2), of 4096] find_wf[OF s'(2), of 0] by simp
qed

theorem idr_above_loses_pointer_witness:
  "\<exists>s'. idr_get_new_above std_bits 9 4095 ex_two = Some (0, Some 4096, s') \<and> idr_find 4096 s' = Some NULL \<and> idr_find 0 s' = Some 9"
  by (rule idr_above_loses_pointer[OF std.bitops_laws_axioms ex_two_wf, of 4094]) (simp_all add: ex_two_def)

end
