(* ===== verification/Common.thy ===== *)
theory Common
  imports Prelude "HOL-Library.Signed_Division"
begin

text \<open>
  The macros on times of \<^verbatim>\<open>module_common.h\<close>. \<open>tv_sec\<close> and \<open>tv_usec\<close> are \<open>long\<close>; a result outside that range is
  \<^const>\<open>None\<close>.
\<close>

definition long_int :: "int \<Rightarrow> int option" where
  "long_int x = (if - (2 ^ 63) \<le> x \<and> x < 2 ^ 63 then Some x else None)"

definition TIME_VAL_MSEC :: "timeval \<Rightarrow> int option" where
  "TIME_VAL_MSEC t = do { x \<leftarrow> long_int (tv_sec t * 1000); long_int (x + tv_usec t sdiv 1000) }"

definition TIME_VAL_EQ :: "timeval \<Rightarrow> timeval \<Rightarrow> bool" where
  "TIME_VAL_EQ t1 t2 \<longleftrightarrow> tv_sec t1 = tv_sec t2 \<and> tv_usec t1 = tv_usec t2"

definition TIME_VAL_GT :: "timeval \<Rightarrow> timeval \<Rightarrow> bool" where
  "TIME_VAL_GT t1 t2 \<longleftrightarrow> tv_sec t1 > tv_sec t2 \<or> tv_sec t1 = tv_sec t2 \<and> tv_usec t1 > tv_usec t2"

definition TIME_VAL_GTE :: "timeval \<Rightarrow> timeval \<Rightarrow> bool" where
  "TIME_VAL_GTE t1 t2 \<longleftrightarrow> TIME_VAL_GT t1 t2 \<or> TIME_VAL_EQ t1 t2"

definition TIME_VAL_LT :: "timeval \<Rightarrow> timeval \<Rightarrow> bool" where
  "TIME_VAL_LT t1 t2 \<longleftrightarrow> \<not> TIME_VAL_GTE t1 t2"

definition TIME_VAL_LTE :: "timeval \<Rightarrow> timeval \<Rightarrow> bool" where
  "TIME_VAL_LTE t1 t2 \<longleftrightarrow> \<not> TIME_VAL_GT t1 t2"

text \<open>The new value of \<open>t1\<close>.\<close>

definition TIME_VAL_ADD :: "timeval \<Rightarrow> timeval \<Rightarrow> timeval option" where
  "TIME_VAL_ADD t1 t2 = do {
     s \<leftarrow> long_int (tv_sec t1 + tv_sec t2);
     u \<leftarrow> long_int (tv_usec t1 + tv_usec t2);
     Some \<lparr>tv_sec = s, tv_usec = u\<rparr> }"

definition TIME_VAL_SUB :: "timeval \<Rightarrow> timeval \<Rightarrow> timeval option" where
  "TIME_VAL_SUB t1 t2 = do {
     t1 \<leftarrow> (if tv_usec t1 < tv_usec t2
           then do {
             s \<leftarrow> long_int (tv_sec t1 - 1);
             u \<leftarrow> long_int (tv_usec t1 + 1000000);
             Some \<lparr>tv_sec = s, tv_usec = u\<rparr> }
           else Some t1);
     s \<leftarrow> long_int (tv_sec t1 - tv_sec t2);
     u \<leftarrow> long_int (tv_usec t1 - tv_usec t2);
     Some \<lparr>tv_sec = s, tv_usec = u\<rparr> }"

section \<open>Times in microseconds\<close>

definition micros :: "timeval \<Rightarrow> int" where
  "micros t = tv_sec t * 1000000 + tv_usec t"

text \<open>A time as \<open>gettimeofday\<close> gives it.\<close>

definition time_ok :: "timeval \<Rightarrow> bool" where
  "time_ok t \<longleftrightarrow> 0 \<le> tv_usec t \<and> tv_usec t < 1000000 \<and> 0 \<le> tv_sec t \<and> tv_sec t < 2 ^ 40"

lemma long_small [simp]: "- (2 ^ 63) \<le> x \<Longrightarrow> x < 2 ^ 63 \<Longrightarrow> long_int x = Some x"
  by (simp add: long_int_def)

lemma sdiv_pos: "0 \<le> a \<Longrightarrow> (a::int) sdiv 1000 = a div 1000"
  by (simp add: signed_divide_int_def sgn_if)

lemma micros_order:
  assumes "time_ok t1" "time_ok t2"
  shows "TIME_VAL_EQ t1 t2 \<longleftrightarrow> micros t1 = micros t2" "TIME_VAL_GT t1 t2 \<longleftrightarrow> micros t1 > micros t2"
proof -
  have u: "0 \<le> tv_usec t1" "tv_usec t1 < 1000000" "0 \<le> tv_usec t2" "tv_usec t2 < 1000000" using assms by (simp_all add: time_ok_def)
  have "tv_sec t1 < tv_sec t2 \<or> tv_sec t1 = tv_sec t2 \<or> tv_sec t2 < tv_sec t1" by linarith
  then show "TIME_VAL_EQ t1 t2 \<longleftrightarrow> micros t1 = micros t2" "TIME_VAL_GT t1 t2 \<longleftrightarrow> micros t1 > micros t2"
    using u unfolding micros_def TIME_VAL_EQ_def TIME_VAL_GT_def by (elim disjE; linarith)+
qed

lemma micros_msec:
  assumes "time_ok t"
  shows "TIME_VAL_MSEC t = Some (micros t div 1000)"
proof -
  have "micros t div 1000 = tv_sec t * 1000 + tv_usec t div 1000" 
    using div_mult_self1[of 1000 "tv_usec t" "tv_sec t * 1000"] by (simp add: micros_def algebra_simps)
  moreover have "0 \<le> tv_usec t div 1000" "tv_usec t div 1000 < 1000" using assms by (auto simp: time_ok_def)
  ultimately show ?thesis using assms by (simp add: TIME_VAL_MSEC_def time_ok_def sdiv_pos)
qed

lemma micros_sub:
  assumes "time_ok t1" "time_ok t2" "micros t2 \<le> micros t1"
  shows "\<exists>t. TIME_VAL_SUB t1 t2 = Some t \<and> micros t = micros t1 - micros t2 \<and> time_ok t"
  using assms by (auto simp: TIME_VAL_SUB_def time_ok_def micros_def)

text \<open>
  C28: The time macros agree with times in microseconds: on normalised times the comparisons are those of the
  microseconds, \<open>TIME_VAL_MSEC\<close> is their number of milliseconds, and \<open>TIME_VAL_SUB\<close> of an earlier time is the
  normalised difference.
\<close>

theorem time_val_micros:
  assumes "time_ok t1" "time_ok t2"
  shows "(TIME_VAL_EQ t1 t2 \<longleftrightarrow> micros t1 = micros t2) \<and> (TIME_VAL_GT t1 t2 \<longleftrightarrow> micros t1 > micros t2) \<and>
    (TIME_VAL_GTE t1 t2 \<longleftrightarrow> micros t1 \<ge> micros t2) \<and> (TIME_VAL_LT t1 t2 \<longleftrightarrow> micros t1 < micros t2) \<and>
    (TIME_VAL_LTE t1 t2 \<longleftrightarrow> micros t1 \<le> micros t2) \<and> TIME_VAL_MSEC t1 = Some (micros t1 div 1000) \<and>
    (micros t2 \<le> micros t1 \<longrightarrow> (\<exists>t. TIME_VAL_SUB t1 t2 = Some t \<and> micros t = micros t1 - micros t2 \<and> time_ok t))"
  using micros_order[OF assms] micros_msec[OF assms(1)] micros_sub[OF assms]
  by (auto simp: TIME_VAL_GTE_def TIME_VAL_LT_def TIME_VAL_LTE_def)

theorem time_val_micros_witness:
  "TIME_VAL_LT \<lparr>tv_sec = 1, tv_usec = 999999\<rparr> \<lparr>tv_sec = 2, tv_usec = 0\<rparr> \<and>
   TIME_VAL_SUB \<lparr>tv_sec = 2, tv_usec = 0\<rparr> \<lparr>tv_sec = 1, tv_usec = 999999\<rparr> = Some \<lparr>tv_sec = 0, tv_usec = 1\<rparr>"
  using time_val_micros[of "\<lparr>tv_sec = 1, tv_usec = 999999\<rparr>" "\<lparr>tv_sec = 2, tv_usec = 0\<rparr>"]
  by (simp add: time_ok_def micros_def TIME_VAL_SUB_def)

text \<open>\<open>TIME_VAL_ADD\<close> does not carry: the sum of two normalised times may not be one, and is then compared wrongly.\<close>

lemma add_not_normalised:
  "TIME_VAL_ADD \<lparr>tv_sec = 1, tv_usec = 600000\<rparr> \<lparr>tv_sec = 1, tv_usec = 600000\<rparr> = Some \<lparr>tv_sec = 2, tv_usec = 1200000\<rparr>"
  "\<not> TIME_VAL_GT \<lparr>tv_sec = 2, tv_usec = 1200000\<rparr> \<lparr>tv_sec = 3, tv_usec = 0\<rparr>"
  "micros \<lparr>tv_sec = 2, tv_usec = 1200000\<rparr> > micros \<lparr>tv_sec = 3, tv_usec = 0\<rparr>"
  by (simp_all add: TIME_VAL_ADD_def TIME_VAL_GT_def micros_def)

end
