(* ===== verification/Log.thy ===== *)
theory Log
  imports Thread Common
begin

text \<open>
  The log module, \<^verbatim>\<open>log/log.c\<close> and \<^verbatim>\<open>log.h\<close>: levels, decorations, indentation, colours, and the function \<open>log_core\<close> that
  makes a message in a buffer of 4000 bytes and gives it to the writer. The functions that touch the level or the
  thread-local indentation are programs of the theory of threads, with one action for every access, so that they
  can be interleaved; the buffer is a list of bytes. The texts of the C library (numbers, the expanded format) are
  byte lists, and what the system answers (the time, the thread and process number) is an argument.
  \<open>HAS_THREADS\<close> is not defined anywhere in the repository: the branches for it are compiled out.
\<close>

section \<open>Settings\<close>

definition LOG_MAX_SIZE :: int where "LOG_MAX_SIZE = 4000"

definition MDL_LOG_MAX_LEVEL :: int where "MDL_LOG_MAX_LEVEL = 6"

definition LOG_HAS_DAY_NAME :: u32 where "LOG_HAS_DAY_NAME = 0x0001"
definition LOG_HAS_YEAR :: u32 where "LOG_HAS_YEAR = 0x0002"
definition LOG_HAS_MONTH :: u32 where "LOG_HAS_MONTH = 0x0004"
definition LOG_HAS_DAY_OF_MON :: u32 where "LOG_HAS_DAY_OF_MON = 0x0008"
definition LOG_HAS_TIME :: u32 where "LOG_HAS_TIME = 0x0010"
definition LOG_HAS_MICRO_SEC :: u32 where "LOG_HAS_MICRO_SEC = 0x0020"
definition LOG_HAS_SENDER :: u32 where "LOG_HAS_SENDER = 0x0040"
definition LOG_HAS_NEWLINE :: u32 where "LOG_HAS_NEWLINE = 0x0080"
definition LOG_HAS_PROCESS_ID :: u32 where "LOG_HAS_PROCESS_ID = 0x0100"
definition LOG_HAS_SPACE :: u32 where "LOG_HAS_SPACE = 0x0200"
definition LOG_HAS_COLOR :: u32 where "LOG_HAS_COLOR = 0x0400"
definition LOG_HAS_LEVEL_TEXT :: u32 where "LOG_HAS_LEVEL_TEXT = 0x0800"
definition LOG_HAS_THREAD_ID :: u32 where "LOG_HAS_THREAD_ID = 0x1000"
definition LOG_HAS_THREAD_SWC :: u32 where "LOG_HAS_THREAD_SWC = 0x2000"
definition LOG_HAS_INDENT :: u32 where "LOG_HAS_INDENT = 0x4000"

definition MDL_LOG_INDENT_CHAR :: byte where "MDL_LOG_INDENT_CHAR = 46"
definition MDL_LOG_INDENT_SIZE :: int where "MDL_LOG_INDENT_SIZE = 1"
definition LOG_MAX_INDENT :: int where "LOG_MAX_INDENT = 80"

definition TERM_COLOR_B :: u32 where "TERM_COLOR_B = 1"
definition TERM_COLOR_R :: u32 where "TERM_COLOR_R = 2"
definition TERM_COLOR_G :: u32 where "TERM_COLOR_G = 4"
definition TERM_COLOR_BRIGHT :: u32 where "TERM_COLOR_BRIGHT = 8"

text \<open>The global variables except the level, which the state of the threads has. \<open>log_writer\<close> is the address of the function.\<close>

record log_conf =
  log_decor :: u32
  log_writer :: addr
  LOG_COLOR_0 :: u32
  LOG_COLOR_1 :: u32
  LOG_COLOR_2 :: u32
  LOG_COLOR_3 :: u32
  LOG_COLOR_4 :: u32
  LOG_COLOR_5 :: u32
  LOG_COLOR_6 :: u32
  LOG_COLOR_77 :: u32
  g_last_thread :: addr

definition log_start :: "addr \<Rightarrow> log_conf" where
  "log_start log_write = \<lparr>log_decor = LOG_HAS_TIME OR LOG_HAS_MICRO_SEC OR LOG_HAS_NEWLINE OR LOG_HAS_SPACE OR LOG_HAS_THREAD_ID OR
       LOG_HAS_INDENT OR LOG_HAS_PROCESS_ID,
     log_writer = log_write,
     LOG_COLOR_0 = TERM_COLOR_BRIGHT OR TERM_COLOR_R,
     LOG_COLOR_1 = TERM_COLOR_BRIGHT OR TERM_COLOR_R,
     LOG_COLOR_2 = TERM_COLOR_BRIGHT OR TERM_COLOR_R OR TERM_COLOR_G,
     LOG_COLOR_3 = TERM_COLOR_BRIGHT OR TERM_COLOR_R OR TERM_COLOR_G OR TERM_COLOR_B,
     LOG_COLOR_4 = TERM_COLOR_R OR TERM_COLOR_G OR TERM_COLOR_B,
     LOG_COLOR_5 = TERM_COLOR_R OR TERM_COLOR_G OR TERM_COLOR_B,
     LOG_COLOR_6 = TERM_COLOR_R OR TERM_COLOR_G OR TERM_COLOR_B,
     LOG_COLOR_77 = TERM_COLOR_R OR TERM_COLOR_G OR TERM_COLOR_B,
     g_last_thread = NULL\<rparr>"

definition mdl_log_set_decor :: "u32 \<Rightarrow> log_conf \<Rightarrow> log_conf" where
  "mdl_log_set_decor decor c = c\<lparr>log_decor := decor\<rparr>"

definition mdl_log_get_decor :: "log_conf \<Rightarrow> u32" where
  "mdl_log_get_decor c = log_decor c"

definition mdl_log_set_log_func :: "addr \<Rightarrow> log_conf \<Rightarrow> log_conf" where
  "mdl_log_set_log_func func c = c\<lparr>log_writer := func\<rparr>"

definition mdl_log_get_log_func :: "log_conf \<Rightarrow> addr" where
  "mdl_log_get_log_func c = log_writer c"

definition mdl_log_set_color :: "int \<Rightarrow> u32 \<Rightarrow> log_conf \<Rightarrow> log_conf" where
  "mdl_log_set_color level color c =
     (if level = 0 then c\<lparr>LOG_COLOR_0 := color\<rparr>
      else if level = 1 then c\<lparr>LOG_COLOR_1 := color\<rparr>
      else if level = 2 then c\<lparr>LOG_COLOR_2 := color\<rparr>
      else if level = 3 then c\<lparr>LOG_COLOR_3 := color\<rparr>
      else if level = 4 then c\<lparr>LOG_COLOR_4 := color\<rparr>
      else if level = 5 then c\<lparr>LOG_COLOR_5 := color\<rparr>
      else if level = 6 then c\<lparr>LOG_COLOR_6 := color\<rparr>
      else if level = 77 then c\<lparr>LOG_COLOR_77 := color\<rparr>
      else c)"

definition mdl_log_get_color :: "int \<Rightarrow> log_conf \<Rightarrow> u32" where
  "mdl_log_get_color level c =
     (if level = 0 then LOG_COLOR_0 c
      else if level = 1 then LOG_COLOR_1 c
      else if level = 2 then LOG_COLOR_2 c
      else if level = 3 then LOG_COLOR_3 c
      else if level = 4 then LOG_COLOR_4 c
      else if level = 5 then LOG_COLOR_5 c
      else if level = 6 then LOG_COLOR_6 c
      else LOG_COLOR_77 c)"

definition mdl_log_init :: "log_conf \<Rightarrow> int \<times> log_conf" where
  "mdl_log_init c = (0, c\<lparr>g_last_thread := NULL\<rparr>)"

text \<open>The level, with one action for every access to the variable.\<close>

definition mdl_log_set_level :: "int \<Rightarrow> unit prog" where
  "mdl_log_set_level level = prim (\<lambda>t s. Result () (s\<lparr>log_max_level := level\<rparr>))"

definition mdl_log_get_level :: "int prog" where
  "mdl_log_get_level = prim (\<lambda>t s. Result (log_max_level s) s)"

section \<open>Indentation\<close>

text \<open>The key \<open>thread_indent_tls_id\<close> is -1 and nothing sets it; as a \<open>pthread_key_t\<close> it is \<open>2 ^ 32 - 1\<close>.\<close>

definition thread_indent_tls_id :: int where "thread_indent_tls_id = -1"

definition key_of :: "int \<Rightarrow> nat" where "key_of i = nat (i mod 2 ^ 32)"

definition log_set_indent :: "int \<Rightarrow> unit prog" where
  "log_set_indent indent =
     (let indent = (if indent < 0 then 0 else indent) in
      bindp (mdl_thread_local_set (key_of thread_indent_tls_id) (word_of_int indent)) (\<lambda>_. Ret ()))"

definition log_get_raw_indent :: "int prog" where
  "log_get_raw_indent = bindp (mdl_thread_local_get (key_of thread_indent_tls_id)) (\<lambda>p. Ret (sint (ucast p :: 32 word)))"

definition log_get_indent :: "int prog" where
  "log_get_indent = bindp log_get_raw_indent (\<lambda>indent. Ret (if indent > LOG_MAX_INDENT then LOG_MAX_INDENT else indent))"

text \<open>The sum is an \<open>int\<close>.\<close>

definition int_ok :: "int \<Rightarrow> bool" where
  "int_ok x \<longleftrightarrow> - (2 ^ 31) \<le> x \<and> x < 2 ^ 31"

definition mdl_log_add_indent :: "int \<Rightarrow> unit prog" where
  "mdl_log_add_indent indent = bindp log_get_raw_indent (\<lambda>r. if int_ok (r + indent) then log_set_indent (r + indent) else Fault)"

definition mdl_log_push_indent :: "unit prog" where
  "mdl_log_push_indent = mdl_log_add_indent MDL_LOG_INDENT_SIZE"

definition mdl_log_pop_indent :: "unit prog" where
  "mdl_log_pop_indent = mdl_log_add_indent (- MDL_LOG_INDENT_SIZE)"

section \<open>The terminal\<close>

text \<open>Texts of the source as bytes.\<close>

definition ascii :: "string \<Rightarrow> byte list" where
  "ascii s = map of_char s"

text \<open>\<open>strcpy\<close> and \<open>strcat\<close> on the local array of 12 bytes, of which only the text is kept.\<close>

definition ansi_put :: "byte list \<Rightarrow> byte list option" where
  "ansi_put s = (if length s < 12 then Some s else None)"

definition term_set_color :: "u32 \<Rightarrow> byte list option" where
  "term_set_color color = do {
     let ansi_color = 27 # ascii ''[01;3'';
     (color, ansi_color) \<leftarrow>
       (if color AND TERM_COLOR_BRIGHT \<noteq> 0 then Some (color XOR TERM_COLOR_BRIGHT, ansi_color)
        else map_option (Pair color) (ansi_put (27 # ascii ''[00;3'')));
     if color = 0 then ansi_put (ansi_color @ ascii ''0m'')
     else if color = TERM_COLOR_R then ansi_put (ansi_color @ ascii ''1m'')
     else if color = TERM_COLOR_G then ansi_put (ansi_color @ ascii ''2m'')
     else if color = TERM_COLOR_B then ansi_put (ansi_color @ ascii ''4m'')
     else if color = TERM_COLOR_R OR TERM_COLOR_G then ansi_put (ansi_color @ ascii ''3m'')
     else if color = TERM_COLOR_R OR TERM_COLOR_B then ansi_put (ansi_color @ ascii ''5m'')
     else if color = TERM_COLOR_G OR TERM_COLOR_B then ansi_put (ansi_color @ ascii ''6m'')
     else if color = TERM_COLOR_R OR TERM_COLOR_G OR TERM_COLOR_B then ansi_put (ansi_color @ ascii ''7m'')
     else ansi_put (27 # ascii ''[00m'') }"

definition log_term_set_color :: "int \<Rightarrow> log_conf \<Rightarrow> byte list option" where
  "log_term_set_color level c = term_set_color (mdl_log_get_color level c)"

definition log_term_restore_color :: "log_conf \<Rightarrow> byte list option" where
  "log_term_restore_color c = term_set_color (mdl_log_get_color 77 c)"

text \<open>The text up to the first null byte; there has to be one.\<close>

definition cstring :: "byte list \<Rightarrow> byte list option" where
  "cstring b = (if 0 \<in> set b then Some (takeWhile (\<lambda>x. x \<noteq> 0) b) else None)"

text \<open>What goes to the terminal.\<close>

definition log_write :: "log_conf \<Rightarrow> int \<Rightarrow> byte list \<Rightarrow> int \<Rightarrow> byte list option" where
  "log_write c level buffer len =
     (if mdl_log_get_decor c AND LOG_HAS_COLOR \<noteq> 0
      then do {
        a \<leftarrow> log_term_set_color level c;
        b \<leftarrow> cstring buffer;
        d \<leftarrow> log_term_restore_color c;
        Some (a @ b @ d) }
      else cstring buffer)"

section \<open>Numbers and texts\<close>

text \<open>The conversions of \<open>snprintf\<close> that the module uses: \<open>%d\<close>, \<open>%0wd\<close>, \<open>%wd\<close> and \<open>%ws\<close>.\<close>

fun dec :: "nat \<Rightarrow> byte list" where
  "dec n = (if n < 10 then [48 + of_nat n] else dec (n div 10) @ [48 + of_nat (n mod 10)])"

declare dec.simps [simp del]

definition fmt_d :: "int \<Rightarrow> byte list" where
  "fmt_d x = (if x < 0 then [45] else []) @ dec (nat \<bar>x\<bar>)"

definition fmt_0d :: "nat \<Rightarrow> int \<Rightarrow> byte list" where
  "fmt_0d w x = (if x < 0 then [45] else []) @ replicate (w - length (fmt_d x)) 48 @ dec (nat \<bar>x\<bar>)"

definition fmt_s :: "nat \<Rightarrow> byte list \<Rightarrow> byte list" where
  "fmt_s w s = replicate (w - length s) 32 @ s"

text \<open>
  \<open>snprintf\<close> of a text at place \<open>off\<close> of a buffer: at most \<open>n - 1\<close> bytes and a null byte are written, and the length of
  the whole text is returned. The size \<open>n\<close> is converted to \<open>size_t\<close>.
\<close>

definition snprintf :: "byte list \<Rightarrow> int \<Rightarrow> int \<Rightarrow> byte list \<Rightarrow> (byte list \<times> int) option" where
  "snprintf buf off n text = do {
     guard_opt (int_ok (int (length text)));
     let n = nat (n mod 2 ^ 64);
     if n = 0 then Some (buf, int (length text))
     else do {
       let out = take (n - 1) text @ [0];
       guard_opt (0 \<le> off);
       buf \<leftarrow> blit buf (nat off) out 0 (length out);
       Some (buf, int (length text)) } }"

text \<open>\<open>len += snprintf(log_buffer + len, max - len, ...)\<close>.\<close>

definition LOG_MAX :: int where "LOG_MAX = LOG_MAX_SIZE - 1"

definition put_text :: "byte list \<Rightarrow> byte list \<times> int \<Rightarrow> (byte list \<times> int) option" where
  "put_text text bl = do {
     (buf, r) \<leftarrow> snprintf (fst bl) (snd bl) (LOG_MAX - snd bl) text;
     guard_opt (int_ok (snd bl + r));
     Some (buf, snd bl + r) }"

definition put_if :: "bool \<Rightarrow> byte list option \<Rightarrow> byte list \<times> int \<Rightarrow> (byte list \<times> int) option" where
  "put_if b text bl = (if b then do { x \<leftarrow> text; put_text x bl } else Some bl)"

section \<open>Messages\<close>

record parsed_time =
  wday_p :: int
  day_p :: int
  mon_p :: int
  year_p :: int
  sec_p :: int
  min_p :: int
  hour_p :: int
  msec_p :: int

text \<open>\<open>struct tm\<close>, as \<open>localtime\<close> fills it.\<close>

record tm =
  tm_sec :: int
  tm_min :: int
  tm_hour :: int
  tm_mday :: int
  tm_mon :: int
  tm_year :: int
  tm_wday :: int

definition time_decode :: "tm \<Rightarrow> timeval \<Rightarrow> parsed_time" where
  "time_decode local_time tv = \<lparr>wday_p = tm_wday local_time, day_p = tm_mday local_time, mon_p = tm_mon local_time + 1,
     year_p = tm_year local_time + 1900, sec_p = tm_sec local_time, min_p = tm_min local_time, hour_p = tm_hour local_time,
     msec_p = tv_usec tv sdiv 1000\<rparr>"

text \<open>What the system answers to a call, and the name of the source file that the compiler was given.\<close>

record log_env =
  now_e :: timeval
  tm_e :: tm
  gettid_e :: int
  getpid_e :: int
  file_e :: "byte list"

definition ltexts :: "int \<Rightarrow> byte list option" where
  "ltexts level = (let l = map ascii [''FATAL:'', ''ERROR:'', '' WARN:'', '' INFO:'', ''DEBUG:'', ''TRACE:'', ''DETRC:'']
     in if 0 \<le> level \<and> level < int (length l) then Some (l ! nat level) else None)"

definition wdays :: "int \<Rightarrow> byte list option" where
  "wdays day = (let l = map ascii [''Sun'', ''Mon'', ''Tue'', ''Wed'', ''Thu'', ''Fri'', ''Sat'']
     in if 0 \<le> day \<and> day < int (length l) then Some (l ! nat day) else None)"

definition decor :: "log_conf \<Rightarrow> u32 \<Rightarrow> bool" where
  "decor c b \<longleftrightarrow> log_decor c AND b \<noteq> 0"

text \<open>The decorations in front of the message.\<close>

definition log_head :: "log_conf \<Rightarrow> log_env \<Rightarrow> int \<Rightarrow> byte list \<times> int \<Rightarrow> (byte list \<times> int) option" where
  "log_head c e level bl = do {
     let pt = time_decode (tm_e e) (now_e e);
     bl \<leftarrow> put_if (decor c LOG_HAS_LEVEL_TEXT) (ltexts level) bl;
     bl \<leftarrow> put_if (decor c LOG_HAS_DAY_NAME) (wdays (wday_p pt)) bl;
     bl \<leftarrow> put_if (decor c LOG_HAS_YEAR) (Some (if snd bl \<noteq> 0 then ascii '' '' @ fmt_d (year_p pt) else fmt_d (year_p pt))) bl;
     bl \<leftarrow> put_if (decor c LOG_HAS_MONTH) (Some (ascii ''-'' @ fmt_0d 2 (mon_p pt))) bl;
     bl \<leftarrow> put_if (decor c LOG_HAS_DAY_OF_MON) (Some (ascii ''-'' @ fmt_0d 2 (day_p pt))) bl;
     bl \<leftarrow> put_if (decor c LOG_HAS_TIME) (Some (ascii '' '' @ fmt_0d 2 (hour_p pt) @ ascii '':'' @ fmt_0d 2 (min_p pt) @ ascii '':'' @ fmt_0d 2 (sec_p pt))) bl;
     bl \<leftarrow> put_if (decor c LOG_HAS_MICRO_SEC) (Some (ascii ''.'' @ fmt_0d 3 (msec_p pt) @ ascii '' '')) bl;
     bl \<leftarrow> put_if (decor c LOG_HAS_SENDER)
       (Some (ascii '' ['' @ fmt_s 14 (file_e e) @ ascii '':'' @ fmt_s 16 (ascii ''log_core'') @ ascii ''#'' @ fmt_0d 3 544 @ ascii '']'')) bl;
     bl \<leftarrow> put_if (decor c LOG_HAS_THREAD_ID) (Some (ascii '' ['' @ fmt_s 8 (fmt_d (gettid_e e)) @ ascii '']'')) bl;
     bl \<leftarrow> put_if (decor c LOG_HAS_PROCESS_ID) (Some (ascii ''#['' @ fmt_s 8 (fmt_d (getpid_e e)) @ ascii '']'')) bl;
     bl \<leftarrow> put_if (log_decor c \<noteq> 0 \<and> log_decor c \<noteq> LOG_HAS_NEWLINE) (Some (ascii '' '')) bl;
     put_if (\<not> decor c LOG_HAS_THREAD_SWC \<and> decor c LOG_HAS_SPACE) (Some (ascii '' '')) bl }"

text \<open>The indentation, the message and the end of the line; \<open>None\<close> as message stands for a failure of \<open>vsnprintf\<close>, which returns -1.\<close>

definition log_body :: "log_conf \<Rightarrow> int \<Rightarrow> byte list option \<Rightarrow> byte list \<times> int \<Rightarrow> (byte list \<times> int) option" where
  "log_body c indent msg bl = do {
     bl \<leftarrow> (if decor c LOG_HAS_INDENT \<and> indent > 0
           then do {
             buf \<leftarrow> blit (fst bl) (nat (snd bl)) (replicate (nat indent) MDL_LOG_INDENT_CHAR) 0 (nat indent);
             Some (buf, snd bl + indent) }
           else Some bl);
     (buf, len) \<leftarrow> (case msg of Some text \<Rightarrow> put_text text bl | None \<Rightarrow> Some (fst bl, snd bl - 1));
     (buf, len) \<leftarrow>
       (if len \<ge> LOG_MAX then Some (buf, len)
        else if decor c LOG_HAS_NEWLINE
        then do { guard_opt (0 \<le> len \<and> len < int (length buf)); Some (buf[nat len := 10], len + 1) }
        else Some (buf, len));
     guard_opt (LOG_MAX < int (length buf));
     Some (buf[nat LOG_MAX := 0], len) }"

text \<open>\<open>saved_level\<close> is the result.\<close>

definition suspend_logging :: "int prog" where
  "suspend_logging = bindp mdl_log_get_level (\<lambda>saved_level. bindp (mdl_log_set_level 0) (\<lambda>_. Ret saved_level))"

definition resume_logging :: "int \<Rightarrow> unit prog" where
  "resume_logging saved_level = bindp mdl_log_get_level (\<lambda>l.
     if l = 0 \<and> saved_level \<noteq> 0 then mdl_log_set_level saved_level else Ret ())"

definition is_logging_suspended :: "bool prog" where
  "is_logging_suspended = bindp mdl_log_get_level (\<lambda>l. Ret (l = 0))"

text \<open>
  \<open>log_core\<close> and its part from \<open>gettimeofday\<close> on, when the other calls are suspended. The result is what the writer is
  called with, if it is called.
\<close>

definition log_emit :: "log_conf \<Rightarrow> log_env \<Rightarrow> int \<Rightarrow> byte list option \<Rightarrow> int \<Rightarrow> (int \<times> byte list \<times> int) option prog" where
  "log_emit c e level msg saved_level =
     (case log_head c e level (replicate (nat LOG_MAX_SIZE) 0, 0) of
        None \<Rightarrow> Fault
      | Some bl \<Rightarrow>
          bindp (if decor c LOG_HAS_INDENT then log_get_indent else Ret 0) (\<lambda>indent.
          case log_body c indent msg bl of
            None \<Rightarrow> Fault
          | Some (buf, len) \<Rightarrow>
              bindp (resume_logging saved_level) (\<lambda>_. Ret (if log_writer c \<noteq> NULL then Some (level, buf, len) else None))))"

definition log_core :: "log_conf \<Rightarrow> log_env \<Rightarrow> int \<Rightarrow> byte list option \<Rightarrow> (int \<times> byte list \<times> int) option prog" where
  "log_core c e level msg =
     bindp mdl_log_get_level (\<lambda>l.
     if level > l then Ret None
     else bindp is_logging_suspended (\<lambda>b.
     if b then Ret None
     else bindp suspend_logging (log_emit c e level msg)))"

text \<open>The macro \<open>log\<close>.\<close>

definition log_macro :: "log_conf \<Rightarrow> log_env \<Rightarrow> int \<Rightarrow> byte list option \<Rightarrow> (int \<times> byte list \<times> int) option prog" where
  "log_macro c e level msg = bindp mdl_log_get_level (\<lambda>l. if level \<le> l then log_core c e level msg else Ret None)"

section \<open>The buffer\<close>

text \<open>A buffer with a text in it and zeros behind, and the length of the text.\<close>

definition fill :: "byte list \<Rightarrow> byte list \<times> int" where
  "fill X = (X @ replicate (4000 - length X) 0, int (length X))"

lemma log_max: "LOG_MAX = 3999" "LOG_MAX_SIZE = 4000"
  by (simp_all add: LOG_MAX_def LOG_MAX_SIZE_def)

lemma fill_write:
  assumes "length X + length Y \<le> 4000"
  shows "blit (X @ replicate (4000 - length X) 0) (length X) (Y @ Z) 0 (length Y) = Some ((X @ Y) @ replicate (4000 - (length X + length Y)) 0)"
  using assms by (simp add: blit_def)

lemma put_text_fill:
  assumes "length X + length text < 3999"
  shows "put_text text (fill X) = Some (fill (X @ text))"
proof -
  let ?n = "3999 - length X"
  have n: "nat ((LOG_MAX - int (length X)) mod 2 ^ 64) = ?n" using assms by (simp add: log_max nat_diff_distrib' of_nat_diff)
  have "take (?n - 1) text = text" using assms by simp
  moreover have "blit (X @ replicate (4000 - length X) 0) (length X) (text @ [0]) 0 (Suc (length text)) = Some ((X @ text) @ replicate (4000 - (length X + length text)) 0)"
    using fill_write[of X "text @ [0]" "[]"] assms by (simp add: replicate_append_same flip: replicate_Suc)
  ultimately show ?thesis using assms n by (simp add: put_text_def snprintf_def fill_def int_ok_def Let_def)
qed

lemma put_text_cut:
  assumes "length X < 3999" "3999 \<le> length X + length text" "length text < 2 ^ 31 - 4096"
  shows "put_text text (fill X) = Some (take 3998 (X @ text) @ [0, 0], int (length (X @ text)))"
proof -
  let ?k = "3998 - length X"
  have n: "nat ((LOG_MAX - int (length X)) mod 2 ^ 64) = Suc ?k" using assms(1) by (simp add: log_max nat_diff_distrib' of_nat_diff)
  have k: "length (take ?k text) = ?k" "take 3998 (X @ text) = X @ take ?k text" "length X + ?k = 3998" using assms by simp_all
  have "blit (X @ replicate (4000 - length X) 0) (length X) ((take ?k text @ [0]) @ []) 0 (length (take ?k text @ [0])) =
      Some ((X @ take ?k text @ [0]) @ replicate (4000 - (length X + length (take ?k text @ [0]))) 0)"
    by (rule fill_write) (use k assms(1) in simp)
  moreover have "4000 - (length X + length (take ?k text @ [0])) = 1" using k by simp
  moreover have "int (length text) < 2 ^ 31 - 4096" using assms(3) by simp
  ultimately show ?thesis using assms(1) n k(2) by (simp add: put_text_def snprintf_def fill_def int_ok_def Let_def)
qed

section \<open>The decorations\<close>

lemma dec_length: "0 < k \<Longrightarrow> n < 10 ^ k \<Longrightarrow> length (dec n) \<le> k"
proof (induction n arbitrary: k rule: dec.induct)
  case (1 n)
  show ?case
  proof (cases "n < 10")
    case True
    then show ?thesis using 1(2) by (simp add: dec.simps)
  next
    case False
    then obtain k' where k: "k = Suc k'" "0 < k'" using 1(2,3) by (cases k; cases "k - 1") auto
    then have "n div 10 < 10 ^ k'" using 1(3) by (simp add: less_mult_imp_div_less mult.commute)
    then show ?thesis using 1(1)[OF False k(2)] False k(1) by (subst dec.simps) simp
  qed
qed

lemma fmt_d_length: "\<bar>x\<bar> < 10 ^ k \<Longrightarrow> 0 < k \<Longrightarrow> length (fmt_d x) \<le> Suc k"
  using dec_length[of k "nat \<bar>x\<bar>"] by (auto simp: fmt_d_def nat_less_iff)

lemma fmt_0d_length: "\<bar>x\<bar> < 10 ^ k \<Longrightarrow> 0 < k \<Longrightarrow> w \<le> Suc k \<Longrightarrow> length (fmt_0d w x) \<le> Suc k"
  using fmt_d_length[of x k] by (auto simp: fmt_0d_def fmt_d_def)

lemma fmt_s_length: "length (fmt_s w x) = max w (length x)"
  by (simp add: fmt_s_def)

lemma ascii_length [simp]: "length (ascii x) = length x"
  by (simp add: ascii_def)

definition env_ok :: "log_env \<Rightarrow> bool" where
  "env_ok e \<longleftrightarrow> (let p = time_decode (tm_e e) (now_e e) in 0 \<le> wday_p p \<and> wday_p p \<le> 6 \<and>
     (\<forall>x \<in> {day_p p, mon_p p, year_p p, sec_p p, min_p p, hour_p p, msec_p p, getpid_e e}. int_ok x) \<and>
     - (2 ^ 63) \<le> gettid_e e \<and> gettid_e e < 2 ^ 63 \<and> length (file_e e) \<le> 1000)"

definition opt_text :: "bool \<Rightarrow> byte list option \<Rightarrow> byte list" where
  "opt_text b x = (if b then the x else [])"

text \<open>The decorations as one text.\<close>

definition log_prefix :: "log_conf \<Rightarrow> log_env \<Rightarrow> int \<Rightarrow> byte list" where
  "log_prefix c e level =
     (let pt = time_decode (tm_e e) (now_e e);
          a = opt_text (decor c LOG_HAS_LEVEL_TEXT) (ltexts level) @ opt_text (decor c LOG_HAS_DAY_NAME) (wdays (wday_p pt))
      in a @ opt_text (decor c LOG_HAS_YEAR) (Some ((if a = [] then [] else ascii '' '') @ fmt_d (year_p pt))) @
        opt_text (decor c LOG_HAS_MONTH) (Some (ascii ''-'' @ fmt_0d 2 (mon_p pt))) @
        opt_text (decor c LOG_HAS_DAY_OF_MON) (Some (ascii ''-'' @ fmt_0d 2 (day_p pt))) @
        opt_text (decor c LOG_HAS_TIME) (Some (ascii '' '' @ fmt_0d 2 (hour_p pt) @ ascii '':'' @ fmt_0d 2 (min_p pt) @ ascii '':'' @ fmt_0d 2 (sec_p pt))) @
        opt_text (decor c LOG_HAS_MICRO_SEC) (Some (ascii ''.'' @ fmt_0d 3 (msec_p pt) @ ascii '' '')) @
        opt_text (decor c LOG_HAS_SENDER)
          (Some (ascii '' ['' @ fmt_s 14 (file_e e) @ ascii '':'' @ fmt_s 16 (ascii ''log_core'') @ ascii ''#'' @ fmt_0d 3 544 @ ascii '']'')) @
        opt_text (decor c LOG_HAS_THREAD_ID) (Some (ascii '' ['' @ fmt_s 8 (fmt_d (gettid_e e)) @ ascii '']'')) @
        opt_text (decor c LOG_HAS_PROCESS_ID) (Some (ascii ''#['' @ fmt_s 8 (fmt_d (getpid_e e)) @ ascii '']'')) @
        opt_text (log_decor c \<noteq> 0 \<and> log_decor c \<noteq> LOG_HAS_NEWLINE) (Some (ascii '' '')) @
        opt_text (\<not> decor c LOG_HAS_THREAD_SWC \<and> decor c LOG_HAS_SPACE) (Some (ascii '' '')))"

lemma put_if_fill: "x = Some y \<Longrightarrow> length X + length y < 3999 \<Longrightarrow> put_if b x (fill X) = Some (fill (X @ opt_text b x))"
  by (simp add: put_if_def opt_text_def put_text_fill)

lemma opt_text_length: "length (the x) \<le> n \<Longrightarrow> length (opt_text b x) \<le> n"
  by (simp add: opt_text_def)

lemma int_ok_10: "int_ok x \<Longrightarrow> \<bar>x\<bar> < 10 ^ 10"
  by (auto simp: int_ok_def abs_if)

lemma level_texts: "0 \<le> level \<Longrightarrow> level \<le> 6 \<Longrightarrow> \<exists>y. ltexts level = Some y \<and> length y = 6"
proof -
  assume "0 \<le> level" "level \<le> 6"
  then have "level \<in> {0, 1, 2, 3, 4, 5, 6}" by auto
  then show ?thesis by (auto simp: ltexts_def)
qed

lemma day_texts: "0 \<le> day \<Longrightarrow> day \<le> 6 \<Longrightarrow> \<exists>y. wdays day = Some y \<and> length y = 3"
proof -
  assume "0 \<le> day" "day \<le> 6"
  then have "day \<in> {0, 1, 2, 3, 4, 5, 6}" by auto
  then show ?thesis by (auto simp: wdays_def)
qed

lemma puts_fill:
  assumes "\<forall>x \<in> snd ` set ps. \<exists>y. x = Some y" "length X + sum_list (map (\<lambda>(b, x). length (the x)) ps) < 3999"
  shows "foldM (\<lambda>(b, x). put_if b x) ps (fill X) = Some (fill (X @ concat (map (\<lambda>(b, x). opt_text b x) ps)))"
  using assms
proof (induction ps arbitrary: X)
  case (Cons p ps)
  obtain b y where p: "p = (b, Some y)" using Cons.prems(1) by (cases p) auto
  have "length X + length y \<le> length X + sum_list (map (\<lambda>(b, x). length (the x)) (p # ps))" using p by simp
  then have "length X + length y < 3999" using Cons.prems(2) by (rule le_less_trans)
  then have "put_if b (Some y) (fill X) = Some (fill (X @ opt_text b (Some y)))" by (intro put_if_fill) simp_all
  moreover have "length (opt_text b (Some y)) \<le> length y" by (simp add: opt_text_def)
  ultimately show ?case using Cons.IH[of "X @ opt_text b (Some y)"] Cons.prems p by simp
qed simp

definition head_rest :: "log_conf \<Rightarrow> log_env \<Rightarrow> bool \<Rightarrow> (bool \<times> byte list option) list" where
  "head_rest c e first =
     (let pt = time_decode (tm_e e) (now_e e) in
      [(decor c LOG_HAS_YEAR, Some ((if first then [] else ascii '' '') @ fmt_d (year_p pt))),
       (decor c LOG_HAS_MONTH, Some (ascii ''-'' @ fmt_0d 2 (mon_p pt))),
       (decor c LOG_HAS_DAY_OF_MON, Some (ascii ''-'' @ fmt_0d 2 (day_p pt))),
       (decor c LOG_HAS_TIME, Some (ascii '' '' @ fmt_0d 2 (hour_p pt) @ ascii '':'' @ fmt_0d 2 (min_p pt) @ ascii '':'' @ fmt_0d 2 (sec_p pt))),
       (decor c LOG_HAS_MICRO_SEC, Some (ascii ''.'' @ fmt_0d 3 (msec_p pt) @ ascii '' '')),
       (decor c LOG_HAS_SENDER,
          Some (ascii '' ['' @ fmt_s 14 (file_e e) @ ascii '':'' @ fmt_s 16 (ascii ''log_core'') @ ascii ''#'' @ fmt_0d 3 544 @ ascii '']'')),
       (decor c LOG_HAS_THREAD_ID, Some (ascii '' ['' @ fmt_s 8 (fmt_d (gettid_e e)) @ ascii '']'')),
       (decor c LOG_HAS_PROCESS_ID, Some (ascii ''#['' @ fmt_s 8 (fmt_d (getpid_e e)) @ ascii '']'')),
       (log_decor c \<noteq> 0 \<and> log_decor c \<noteq> LOG_HAS_NEWLINE, Some (ascii '' '')),
       (\<not> decor c LOG_HAS_THREAD_SWC \<and> decor c LOG_HAS_SPACE, Some (ascii '' ''))])"

lemma head_rest_length:
  assumes "env_ok e"
  shows "sum_list (map (\<lambda>(b, x). length (the x)) (head_rest c e first)) \<le> 1500"
proof -
  let ?p = "time_decode (tm_e e) (now_e e)"
  have ok: "int_ok (day_p ?p)" "int_ok (mon_p ?p)" "int_ok (year_p ?p)" "int_ok (sec_p ?p)" "int_ok (min_p ?p)" "int_ok (hour_p ?p)" "int_ok (msec_p ?p)" "int_ok (getpid_e e)"
    "\<bar>gettid_e e\<bar> < 10 ^ 20" "length (file_e e) \<le> 1000" using assms by (auto simp: env_ok_def Let_def)
  have d: "length (fmt_d x) \<le> 11" "w \<le> 11 \<Longrightarrow> length (fmt_0d w x) \<le> 11" if "int_ok x" for w x
    using fmt_d_length[OF int_ok_10[OF that]] fmt_0d_length[OF int_ok_10[OF that], of w] by simp_all
  have "length (fmt_d (gettid_e e)) \<le> 21" using fmt_d_length[OF ok(9)] by simp
  moreover have "length (fmt_0d 3 544) \<le> 11" by (rule d) (simp_all add: int_ok_def)
  ultimately show ?thesis using d(1)[OF ok(3)] d(1)[OF ok(8)] d(2)[OF ok(1), of 2] d(2)[OF ok(2), of 2] d(2)[OF ok(4), of 2] d(2)[OF ok(5), of 2] d(2)[OF ok(6), of 2]
      d(2)[OF ok(7), of 3] ok(10) by (simp add: head_rest_def Let_def fmt_s_length max_def)
qed

lemma head_rest_some: "\<forall>x \<in> snd ` set (head_rest c e first). \<exists>y. x = Some y"
  by (simp add: head_rest_def Let_def)

lemma log_head_puts:
  "log_head c e level bl = do {
     bl \<leftarrow> foldM (\<lambda>(b, x). put_if b x) [(decor c LOG_HAS_LEVEL_TEXT, ltexts level), (decor c LOG_HAS_DAY_NAME, wdays (wday_p (time_decode (tm_e e) (now_e e))))] bl;
     foldM (\<lambda>(b, x). put_if b x) (head_rest c e (snd bl = 0)) bl }"
proof -
  have i: "(if b then [] else s) @ r = (if \<not> b then s @ r else r)" for b and s r :: "byte list" by simp
  have f: "foldM f [] = Some" "foldM f (x # xs) = (\<lambda>s. f x s \<bind> foldM f xs)" for f :: "'a \<Rightarrow> 'b \<Rightarrow> 'b option" and x xs
    by (simp_all add: fun_eq_iff)
  show ?thesis unfolding log_head_def head_rest_def Let_def i f prod.case bind_assoc bind_runit ..
qed

lemma log_head_ok:
  assumes "env_ok e" "0 \<le> level" "level \<le> 6"
  shows "log_head c e level (replicate (nat LOG_MAX_SIZE) 0, 0) = Some (fill (log_prefix c e level))" "length (log_prefix c e level) \<le> 2000"
proof -
  let ?day = "wday_p (time_decode (tm_e e) (now_e e))"
  obtain y1 y2 where y: "ltexts level = Some y1" "length y1 = 6" "wdays ?day = Some y2" "length y2 = 3"
    using level_texts[OF assms(2,3)] day_texts[of ?day] assms(1) by (auto simp: env_ok_def Let_def)
  let ?a = "opt_text (decor c LOG_HAS_LEVEL_TEXT) (ltexts level) @ opt_text (decor c LOG_HAS_DAY_NAME) (wdays ?day)"
  let ?r = "concat (map (\<lambda>(b, x). opt_text b x) (head_rest c e (?a = [])))"
  have la: "length ?a \<le> 9" using y opt_text_length[of "ltexts level" 6] opt_text_length[of "wdays ?day" 3] by (simp add: opt_text_def)
  have p: "log_prefix c e level = ?a @ ?r" by (simp add: log_prefix_def head_rest_def Let_def)
  have z: "(replicate (nat LOG_MAX_SIZE) 0, 0) = fill []" by (simp add: fill_def log_max)
  have "foldM (\<lambda>(b, x). put_if b x) [(decor c LOG_HAS_LEVEL_TEXT, ltexts level), (decor c LOG_HAS_DAY_NAME, wdays ?day)] (fill []) = Some (fill ?a)"
    by (subst puts_fill) (use y in auto)
  moreover have "foldM (\<lambda>(b, x). put_if b x) (head_rest c e (?a = [])) (fill ?a) = Some (fill (?a @ ?r))"
    by (rule puts_fill[OF head_rest_some]) (use la head_rest_length[OF assms(1), of c "?a = []"] in linarith)
  moreover have "(snd (fill ?a) = 0) = (?a = [])" by (simp add: fill_def del: length_append of_nat_add append_is_Nil_conv)
  ultimately show "log_head c e level (replicate (nat LOG_MAX_SIZE) 0, 0) = Some (fill (log_prefix c e level))" unfolding log_head_puts z p by (simp only: bind.bind_lunit)
  have "length (concat (map (\<lambda>(b, x). opt_text b x) ps)) \<le> sum_list (map (\<lambda>(b, x). length (the x)) ps)" for ps :: "(bool \<times> byte list option) list"
    by (induction ps) (auto simp: opt_text_def)
  from this[of "head_rest c e (?a = [])"] show "length (log_prefix c e level) \<le> 2000" using la head_rest_length[OF assms(1), of c "?a = []"] unfolding p length_append by linarith
qed

section \<open>The line\<close>

text \<open>The buffer and the length for a whole text: it is cut behind 3998 bytes, but the length is that of the whole.\<close>

definition log_line :: "log_conf \<Rightarrow> byte list \<Rightarrow> byte list \<times> int" where
  "log_line c text = (if length text < 3999 then fill (text @ (if decor c LOG_HAS_NEWLINE then [10] else []))
     else (take 3998 text @ [0, 0], int (length text)))"

lemma log_line_length: "length (fst (log_line c text)) = 4000"
  by (simp add: log_line_def fill_def)

lemma fill_last: "length X \<le> 3999 \<Longrightarrow> (X @ replicate (4000 - length X) 0)[3999 := 0] = X @ replicate (4000 - length X) (0::byte)"
  by (rule nth_equalityI) (auto simp: nth_list_update nth_append)

lemma fill_snoc: "length X < 3999 \<Longrightarrow> (X @ replicate (4000 - length X) 0)[length X := 10] = (X @ [10]) @ replicate (4000 - Suc (length X)) (0::byte)"
  by (simp add: list_update_append Suc_diff_le flip: Suc_diff_Suc)

lemma cut_last: "3998 \<le> length T \<Longrightarrow> (take 3998 T @ [0, 0])[3999 := 0] = take 3998 T @ [0, 0::byte]"
  by (simp add: list_update_append)

definition indent_text :: "log_conf \<Rightarrow> int \<Rightarrow> byte list" where
  "indent_text c indent = (if decor c LOG_HAS_INDENT then replicate (nat indent) MDL_LOG_INDENT_CHAR else [])"

lemma log_body_ok:
  assumes X: "length X \<le> 2000" and i: "indent \<le> 80" and m: "length msg < 2 ^ 31 - 4096"
  shows "log_body c indent (Some msg) (fill X) = Some (log_line c (X @ indent_text c indent @ msg))"
proof -
  let ?I = "indent_text c indent" and ?Y = "X @ indent_text c indent"
  have lI: "length ?I \<le> 80" using i by (simp add: indent_text_def nat_le_iff)
  have "blit (fst (fill X)) (nat (snd (fill X))) (replicate (nat indent) MDL_LOG_INDENT_CHAR) 0 (nat indent) =
      Some ((X @ replicate (nat indent) MDL_LOG_INDENT_CHAR) @ replicate (4000 - (length X + nat indent)) 0)"
    using fill_write[of X "replicate (nat indent) MDL_LOG_INDENT_CHAR" "[]"] X i by (simp add: fill_def)
  then have 1: "(if decor c LOG_HAS_INDENT \<and> indent > 0
      then do {
        buf \<leftarrow> blit (fst (fill X)) (nat (snd (fill X))) (replicate (nat indent) MDL_LOG_INDENT_CHAR) 0 (nat indent);
        Some (buf, snd (fill X) + indent) }
      else Some (fill X)) = Some (fill ?Y)"
    by (simp add: indent_text_def fill_def)
  show ?thesis
  proof (cases "length (?Y @ msg) < 3999")
    case True
    define T where "T = X @ indent_text c indent @ msg"
    then have T: "length T < 3999" "?Y @ msg = T" using True by simp_all
    have p: "put_text msg (fill ?Y) = Some (fill T)" using put_text_fill[of ?Y msg] True T(2) by simp
    show ?thesis using T(1) fill_last[of "T @ [10]"] fill_last[of T] fill_snoc[OF T(1)]
      unfolding log_body_def 1 bind.bind_lunit option.case p log_line_def T_def[symmetric] by (simp add: fill_def log_max)
  next
    case False
    then have p: "put_text msg (fill ?Y) = Some (take 3998 (?Y @ msg) @ [0, 0], int (length (?Y @ msg)))" using X lI m by (intro put_text_cut) simp_all
    have "(take 3998 (?Y @ msg) @ [0, 0])[3999 := 0] = take 3998 (?Y @ msg) @ [0, 0::byte]" by (rule cut_last) (use False in simp)
    then show ?thesis using False unfolding log_body_def 1 bind.bind_lunit option.case p log_line_def by (simp add: log_max)
  qed
qed

section \<open>A call\<close>

text \<open>The indentation of a thread.\<close>

definition indent_of :: "tid \<Rightarrow> sys \<Rightarrow> int" where
  "indent_of t s = (let r = sint (ucast (pthread_getspecific (key_of thread_indent_tls_id) t s) :: 32 word) in
     if r > LOG_MAX_INDENT then LOG_MAX_INDENT else r)"

lemma run_levels [simp]:
  "run t mdl_log_get_level s = Done (log_max_level s) s" "run t (mdl_log_set_level l) s = Done () (s\<lparr>log_max_level := l\<rparr>)"
  "run t log_get_indent s = Done (indent_of t s) s"
  by (simp_all add: mdl_log_get_level_def mdl_log_set_level_def log_get_indent_def log_get_raw_indent_def mdl_thread_local_get_def indent_of_def Let_def)

lemma indent_of_level [simp]: "indent_of t (s\<lparr>log_max_level := l\<rparr>) = indent_of t s"
  by (simp add: indent_of_def pthread_getspecific_def)

lemma run_emit:
  assumes "env_ok e" "0 \<le> level" "level \<le> 6" "length msg < 2 ^ 31 - 4096" "log_max_level s = 0"
  shows "run t (log_emit c e level (Some msg) saved) s =
    Done (if log_writer c \<noteq> NULL then Some (level, log_line c (log_prefix c e level @ indent_text c (indent_of t s) @ msg)) else None)
      (if saved \<noteq> 0 then s\<lparr>log_max_level := saved\<rparr> else s)"
proof -
  note h = log_head_ok[OF assms(1-3), of c]
  define i where "i = (if decor c LOG_HAS_INDENT then indent_of t s else 0)"
  have i: "i \<le> 80" "indent_text c i = indent_text c (indent_of t s)" by (auto simp: i_def indent_of_def Let_def LOG_MAX_INDENT_def indent_text_def)
  have "run t (if decor c LOG_HAS_INDENT then log_get_indent else Ret 0) s = Done i s" by (simp add: i_def)
  moreover have "log_body c i (Some msg) (fill (log_prefix c e level)) = Some (log_line c (log_prefix c e level @ indent_text c (indent_of t s) @ msg))"
    using log_body_ok[OF h(2) i(1) assms(4), of c] unfolding i(2) .
  ultimately show ?thesis using h(1) assms(5)
    by (simp add: log_emit_def resume_logging_def split: prod.split)
qed

section \<open>Two calls at once\<close>

text \<open>A thread goes on by some actions.\<close>

primrec advance :: "nat \<Rightarrow> tid \<Rightarrow> 'a prog \<Rightarrow> sys \<Rightarrow> ('a prog \<times> sys) option" where
  "advance 0 t p s = Some (p, s)"
| "advance (Suc n) t p s = (case p of Act k \<Rightarrow> (case k t s of None \<Rightarrow> None | Some (s', p') \<Rightarrow> advance n t p' s') | _ \<Rightarrow> None)"

lemma advance_sched:
  assumes "advance n t p s = Some (p', s')" "P t = Some p" "\<forall>u. u \<noteq> t \<longrightarrow> P u \<noteq> Some Fault" "p' \<noteq> Fault"
  shows "(sched body)\<^sup>*\<^sup>* (s, P) (s', P(t \<mapsto> p'))"
  using assms
proof (induction n arbitrary: p s P)
  case 0
  then show ?case by (simp add: fun_upd_idem)
next
  case (Suc n)
  then obtain k s1 p1 where k: "p = Act k" "k t s = Some (s1, p1)" "advance n t p1 s1 = Some (p', s')" by (auto split: prog.splits option.splits)
  have "\<not> crashed (s, P)" using Suc.prems(2,3) k(1) by (auto simp: crashed_def) (metis option.inject prog.distinct(5))
  then have "sched body (s, P) (s1, P(t \<mapsto> p1))" using Suc.prems(2) k by (blast intro: sched.act)
  moreover have "(sched body)\<^sup>*\<^sup>* (s1, P(t \<mapsto> p1)) (s', P(t \<mapsto> p1, t \<mapsto> p'))" using Suc.prems(3,4) k(3) by (intro Suc.IH) auto
  ultimately have "(sched body)\<^sup>*\<^sup>* (s, P) (s', P(t \<mapsto> p1, t \<mapsto> p'))" by (rule converse_rtranclp_into_rtranclp)
  then show ?case by (simp only: fun_upd_upd)
qed

lemma run_advance: "run t p s = Done a s' \<Longrightarrow> \<exists>n. advance n t p s = Some (Ret a, s')"
proof (induction p arbitrary: s)
  case (Ret x)
  then show ?case by (intro exI[of _ 0]) simp
next
  case (Act k)
  then obtain s1 p1 where k: "k t s = Some (s1, p1)" "run t p1 s1 = Done a s'" by (auto split: option.splits)
  have "p1 \<in> range (\<lambda>_. p1)" by simp
  then obtain n where "advance n t p1 s1 = Some (Ret a, s')" using Act.IH k by fastforce
  then show ?case using k(1) by (intro exI[of _ "Suc n"]) simp
qed simp

text \<open>A thread that logs a message and ends.\<close>

definition logger :: "log_conf \<Rightarrow> log_env \<Rightarrow> int \<Rightarrow> byte list \<Rightarrow> addr prog" where
  "logger c e level msg = bindp (log_core c e level (Some msg)) (\<lambda>_. Ret NULL)"

definition logger_rest :: "log_conf \<Rightarrow> log_env \<Rightarrow> int \<Rightarrow> byte list \<Rightarrow> int \<Rightarrow> addr prog" where
  "logger_rest c e level msg saved = bindp (log_emit c e level (Some msg) saved) (\<lambda>_. Ret NULL)"

lemma logger_checks:
  assumes "level \<le> log_max_level s" "log_max_level s \<noteq> 0"
  shows "advance 2 t (logger c e level msg) s = Some (bindp (bindp suspend_logging (log_emit c e level (Some msg))) (\<lambda>_. Ret NULL), s)"
  using assms by (simp add: logger_def log_core_def is_logging_suspended_def mdl_log_get_level_def bindp_prim_acts numeral_2_eq_2)

lemma logger_saves:
  "advance 1 t (bindp (bindp suspend_logging (log_emit c e level (Some msg))) (\<lambda>_. Ret NULL)) s =
     Some (bindp (mdl_log_set_level 0) (\<lambda>_. logger_rest c e level msg (log_max_level s)), s)"
  by (simp add: suspend_logging_def mdl_log_get_level_def mdl_log_set_level_def bindp_prim_acts logger_rest_def fun_eq_iff)

lemma logger_suspends:
  "advance 1 t (bindp (mdl_log_set_level 0) (\<lambda>_. p)) s = Some (p, s\<lparr>log_max_level := 0\<rparr>)"
  by (simp add: mdl_log_set_level_def bindp_prim_acts)

lemma logger_ends:
  assumes "env_ok e" "0 \<le> level" "level \<le> 6" "length msg < 2 ^ 31 - 4096" "log_max_level s = 0"
  shows "\<exists>n. advance n t (logger_rest c e level msg saved) s = Some (Ret NULL, if saved \<noteq> 0 then s\<lparr>log_max_level := saved\<rparr> else s)"
  by (rule run_advance) (simp add: logger_rest_def run_emit[OF assms])

lemma advance_not_Fault: "advance n t p s = Some (Ret a, s') \<Longrightarrow> p \<noteq> Fault"
  by (cases n) auto

lemma pair_steps:
  assumes "t1 \<noteq> t2" "Y \<noteq> Fault" "X' \<noteq> Fault"
  shows "advance n t1 X s = Some (X', s') \<Longrightarrow> (sched body)\<^sup>*\<^sup>* (s, [t1 \<mapsto> X, t2 \<mapsto> Y]) (s', [t1 \<mapsto> X', t2 \<mapsto> Y])"
    "advance n t2 X s = Some (X', s') \<Longrightarrow> (sched body)\<^sup>*\<^sup>* (s, [t1 \<mapsto> Y, t2 \<mapsto> X]) (s', [t1 \<mapsto> Y, t2 \<mapsto> X'])"
proof -
  assume a: "advance n t1 X s = Some (X', s')"
  have "(sched body)\<^sup>*\<^sup>* (s, [t1 \<mapsto> X, t2 \<mapsto> Y]) (s', [t1 \<mapsto> X, t2 \<mapsto> Y](t1 \<mapsto> X'))" by (rule advance_sched[OF a]) (use assms in auto)
  moreover have "[t1 \<mapsto> X, t2 \<mapsto> Y](t1 \<mapsto> X') = [t1 \<mapsto> X', t2 \<mapsto> Y]" using assms(1) by auto
  ultimately show "(sched body)\<^sup>*\<^sup>* (s, [t1 \<mapsto> X, t2 \<mapsto> Y]) (s', [t1 \<mapsto> X', t2 \<mapsto> Y])" by simp
next
  assume a: "advance n t2 X s = Some (X', s')"
  have "(sched body)\<^sup>*\<^sup>* (s, [t1 \<mapsto> Y, t2 \<mapsto> X]) (s', [t1 \<mapsto> Y, t2 \<mapsto> X](t2 \<mapsto> X'))" by (rule advance_sched[OF a]) (use assms in auto)
  then show "(sched body)\<^sup>*\<^sup>* (s, [t1 \<mapsto> Y, t2 \<mapsto> X]) (s', [t1 \<mapsto> Y, t2 \<mapsto> X'])" by simp
qed

lemma two_loggers:
  assumes e: "env_ok e1" "env_ok e2" and l: "0 \<le> l1" "l1 \<le> 6" "0 \<le> l2" "l2 \<le> 6" and m: "length m1 < 2 ^ 31 - 4096" "length m2 < 2 ^ 31 - 4096"
    and s: "l1 \<le> log_max_level s" "l2 \<le> log_max_level s" "log_max_level s \<noteq> 0" and t: "t1 \<noteq> t2"
  shows "(sched body)\<^sup>*\<^sup>* (s, [t1 \<mapsto> logger c e1 l1 m1, t2 \<mapsto> logger c e2 l2 m2]) (s\<lparr>log_max_level := 0\<rparr>, [t1 \<mapsto> Ret NULL, t2 \<mapsto> Ret NULL])"
proof -
  let ?s = "s\<lparr>log_max_level := 0\<rparr>" and ?A1 = "bindp (bindp suspend_logging (log_emit c e1 l1 (Some m1))) (\<lambda>_. Ret NULL)"
    and ?B1 = "bindp (bindp suspend_logging (log_emit c e2 l2 (Some m2))) (\<lambda>_. Ret NULL)" and ?L = "log_max_level s"
  let ?A2 = "bindp (mdl_log_set_level 0) (\<lambda>_. logger_rest c e1 l1 m1 ?L)" and ?B2 = "bindp (mdl_log_set_level 0) (\<lambda>_. logger_rest c e2 l2 m2 0)"
  obtain n1 where n1: "advance n1 t1 (logger_rest c e1 l1 m1 ?L) ?s = Some (Ret NULL, s)" using logger_ends[OF e(1) l(1,2) m(1), of ?s t1 c ?L] s(3) by auto
  obtain n2 where n2: "advance n2 t2 (logger_rest c e2 l2 m2 0) ?s = Some (Ret NULL, ?s)" using logger_ends[OF e(2) l(3,4) m(2), of ?s t2 c 0] by auto
  have nf: "logger c e1 l1 m1 \<noteq> Fault" "?A1 \<noteq> Fault" "?A2 \<noteq> Fault" "?B1 \<noteq> Fault" "?B2 \<noteq> Fault" "Ret NULL \<noteq> (Fault :: addr prog)"
    by (simp_all add: logger_def log_core_def suspend_logging_def mdl_log_get_level_def mdl_log_set_level_def bindp_prim_acts)
  note r = advance_not_Fault[OF n1] advance_not_Fault[OF n2]
  have "(sched body)\<^sup>*\<^sup>* (s, [t1 \<mapsto> logger c e1 l1 m1, t2 \<mapsto> logger c e2 l2 m2]) (s, [t1 \<mapsto> logger c e1 l1 m1, t2 \<mapsto> ?B1])"
    by (rule pair_steps(2)[OF t nf(1,4) logger_checks[OF s(2,3)]])
  also have "(sched body)\<^sup>*\<^sup>* \<dots> (s, [t1 \<mapsto> ?A1, t2 \<mapsto> ?B1])" by (rule pair_steps(1)[OF t nf(4,2) logger_checks[OF s(1,3)]])
  also have "(sched body)\<^sup>*\<^sup>* \<dots> (s, [t1 \<mapsto> ?A2, t2 \<mapsto> ?B1])" by (rule pair_steps(1)[OF t nf(4,3) logger_saves])
  also have "(sched body)\<^sup>*\<^sup>* \<dots> (?s, [t1 \<mapsto> logger_rest c e1 l1 m1 ?L, t2 \<mapsto> ?B1])" by (rule pair_steps(1)[OF t nf(4) r(1) logger_suspends])
  also have "(sched body)\<^sup>*\<^sup>* \<dots> (?s, [t1 \<mapsto> logger_rest c e1 l1 m1 ?L, t2 \<mapsto> ?B2])"
    using pair_steps(2)[OF t r(1) nf(5), of 1 ?B1 ?s ?s body] logger_saves[of t2 c e2 l2 m2 ?s] by simp
  also have "(sched body)\<^sup>*\<^sup>* \<dots> (s, [t1 \<mapsto> Ret NULL, t2 \<mapsto> ?B2])" by (rule pair_steps(1)[OF t nf(5,6) n1])
  also have "(sched body)\<^sup>*\<^sup>* \<dots> (?s, [t1 \<mapsto> Ret NULL, t2 \<mapsto> logger_rest c e2 l2 m2 0])" by (rule pair_steps(2)[OF t nf(6) r(2) logger_suspends])
  also have "(sched body)\<^sup>*\<^sup>* \<dots> (?s, [t1 \<mapsto> Ret NULL, t2 \<mapsto> Ret NULL])" by (rule pair_steps(2)[OF t nf(6,6) n2])
  finally show ?thesis .
qed

lemma log_silent: "log_max_level s = 0 \<Longrightarrow> run t (log_core c e level msg) s = Done None s"
  by (simp add: log_core_def is_logging_suspended_def)

section \<open>Properties\<close>

definition ex_env :: log_env where
  "ex_env = \<lparr>now_e = \<lparr>tv_sec = 0, tv_usec = 5000\<rparr>, tm_e = \<lparr>tm_sec = 7, tm_min = 30, tm_hour = 12, tm_mday = 1, tm_mon = 0, tm_year = 70, tm_wday = 4\<rparr>,
     gettid_e = 17, getpid_e = 16, file_e = ascii ''log.c''\<rparr>"

lemma ex_env_ok: "env_ok ex_env"
  by (simp add: env_ok_def ex_env_def time_decode_def int_ok_def signed_divide_int_def)

text \<open>
  C26: A call of \<open>log_core\<close> whose level is enabled calls the writer with the decorations, the indentation and the message
  in the buffer of 4000 bytes, and a newline behind it; a longer text is cut behind 3998 bytes. Nothing is written outside
  the buffer, the text in it ends with a null byte, and the level is as before.
\<close>

theorem log_core_output:
  assumes "env_ok e" "0 \<le> level" "level \<le> 6" "level \<le> log_max_level s" "log_max_level s \<noteq> 0" "log_writer c \<noteq> NULL" "length msg < 2 ^ 31 - 4096"
  shows "run t (log_core c e level (Some msg)) s = Done (Some (level, log_line c (log_prefix c e level @ indent_text c (indent_of t s) @ msg))) s \<and>
    (\<forall>x. length (fst (log_line c x)) = 4000 \<and> last (fst (log_line c x)) = 0)"
proof -
  have "last (fst (log_line c x)) = 0" for x by (auto simp: log_line_def fill_def last_append)
  moreover have "run t (log_emit c e level (Some msg) (log_max_level s)) (s\<lparr>log_max_level := 0\<rparr>) =
      Done (Some (level, log_line c (log_prefix c e level @ indent_text c (indent_of t s) @ msg))) s"
    using run_emit[OF assms(1-3,7), of "s\<lparr>log_max_level := 0\<rparr>" t c "log_max_level s"] assms(5,6) by simp
  then have "run t (log_core c e level (Some msg)) s = Done (Some (level, log_line c (log_prefix c e level @ indent_text c (indent_of t s) @ msg))) s"
    using assms(4,5) by (simp add: log_core_def is_logging_suspended_def suspend_logging_def)
  ultimately show ?thesis using log_line_length by blast
qed

theorem log_core_output_witness:
  "run 1 (log_core (log_start 4096) ex_env 3 (Some (ascii ''hi''))) (ex_sys\<lparr>log_max_level := 6\<rparr>) =
     Done (Some (3, log_line (log_start 4096) (log_prefix (log_start 4096) ex_env 3 @
       indent_text (log_start 4096) (indent_of 1 (ex_sys\<lparr>log_max_level := 6\<rparr>)) @ ascii ''hi''))) (ex_sys\<lparr>log_max_level := 6\<rparr>)"
  using log_core_output[OF ex_env_ok, of 3 "ex_sys\<lparr>log_max_level := 6\<rparr>" "log_start 4096" "ascii ''hi''" 1] by (simp add: log_start_def)

text \<open>
  C27: The level is lost when two threads log at the same time: there is an interleaving of two calls after which the
  level is 0, and from then on no call of \<open>log_core\<close> logs anything.
\<close>

theorem log_level_lost:
  assumes "env_ok e1" "env_ok e2" "0 \<le> l1" "l1 \<le> 6" "0 \<le> l2" "l2 \<le> 6" "length m1 < 2 ^ 31 - 4096" "length m2 < 2 ^ 31 - 4096"
    and "l1 \<le> log_max_level s" "l2 \<le> log_max_level s" "log_max_level s \<noteq> 0" "t1 \<noteq> t2"
  shows "\<exists>s'. (sched body)\<^sup>*\<^sup>* (s, [t1 \<mapsto> logger c e1 l1 m1, t2 \<mapsto> logger c e2 l2 m2]) (s', [t1 \<mapsto> Ret NULL, t2 \<mapsto> Ret NULL]) \<and>
    (\<forall>t c e level msg. run t (log_core c e level msg) s' = Done None s')"
proof -
  have "\<forall>t c e level msg. run t (log_core c e level msg) (s\<lparr>log_max_level := 0\<rparr>) = Done None (s\<lparr>log_max_level := 0\<rparr>)" by (simp add: log_silent)
  then show ?thesis using two_loggers[OF assms] by blast
qed

theorem log_level_lost_witness:
  "\<exists>s'. (sched (\<lambda>_. Ret NULL))\<^sup>*\<^sup>* (ex_sys\<lparr>log_max_level := 6\<rparr>, [1 \<mapsto> logger (log_start 4096) ex_env 3 (ascii ''hi''), 2 \<mapsto> logger (log_start 4096) ex_env 1 (ascii ''ho'')])
       (s', [1 \<mapsto> Ret NULL, 2 \<mapsto> Ret NULL]) \<and> (\<forall>t c e level msg. run t (log_core c e level msg) s' = Done None s')"
  by (rule log_level_lost[OF ex_env_ok ex_env_ok]) simp_all

text \<open>No call of \<open>mdl_log_init\<close> makes the key for the indentation, so that it stays as it is: none.\<close>

lemma indent_stays:
  assumes "\<forall>k \<in> set (keys s). k < PTHREAD_KEYS_MAX" "int_ok n"
  shows "run t (mdl_log_add_indent n) s = Done () s" "indent_of t s = 0"
proof -
  have "4294967295 \<notin> set (keys s)" using assms(1) by (auto simp: PTHREAD_KEYS_MAX_def)
  then show "run t (mdl_log_add_indent n) s = Done () s" "indent_of t s = 0"
    using assms(2) by (simp_all add: mdl_log_add_indent_def log_get_raw_indent_def log_set_indent_def mdl_thread_local_get_def mdl_thread_local_set_def
      pthread_getspecific_def pthread_setspecific_def key_of_def thread_indent_tls_id_def indent_of_def LOG_MAX_INDENT_def EINVAL_def Let_def)
qed

text \<open>The colours and their escape sequences fit their array.\<close>

lemma color_fits: "\<exists>x. term_set_color color = Some x"
proof -
  have p: "ansi_put (a @ ascii x) = Some (a @ ascii x)" if "length a = 6" "length x = 2" for a x using that by (simp add: ansi_put_def)
  have l: "length (27 # ascii ''[01;3'') = 6" "length (27 # ascii ''[00;3'') = 6" "length ''0m'' = 2" "length ''1m'' = 2" "length ''2m'' = 2" "length ''3m'' = 2"
    "length ''4m'' = 2" "length ''5m'' = 2" "length ''6m'' = 2" "length ''7m'' = 2" by simp_all
  have a: "ansi_put (27 # ascii ''[00;3'') = Some (27 # ascii ''[00;3'')" "ansi_put (27 # ascii ''[00m'') = Some (27 # ascii ''[00m'')" by (simp_all add: ansi_put_def)
  have e: "(\<exists>x. (if b then Some u else v) = Some x) \<longleftrightarrow> b \<or> (\<exists>x. v = Some x)" "\<exists>x. Some u = Some x" for b u and v :: "byte list option" by simp_all
  show ?thesis unfolding term_set_color_def Let_def a option.map
    by (cases "color AND TERM_COLOR_BRIGHT \<noteq> 0") (simp_all only: if_True if_False bind.bind_lunit prod.case p[OF l(1)] p[OF l(2)] l(3-10) e simp_thms)
qed

end
