(* ===== verification/Spec2Isabelle.thy ===== *)
theory Spec2Isabelle
  imports Klist Kfifo Sort Cstring Pool Caching Thread Rbtree_Erase Timer Udp_Run Idr_Run Log
begin

text \<open>
  A verification of utils-modules, a collection of C modules for server programs: data structures
  (\<^verbatim>\<open>datastruct/\<close>), memory pools (\<^verbatim>\<open>pool/\<close>), threads (\<^verbatim>\<open>thread/\<close>), logging (\<^verbatim>\<open>log/\<close>), timers (\<^verbatim>\<open>timer/\<close>)
  and reliable connections over UDP (\<^verbatim>\<open>udp/\<close>). The modules are independent libraries with few calls between them: the
  pools keep their blocks in the rings of \<^verbatim>\<open>list.h\<close>, the caching pool is a factory of pools, threads and log use
  each other, and the timer and the datagram module use a list interface (\<^verbatim>\<open>clist.h\<close>) that is not part of the repository.

  \<^bold>\<open>The model.\<close> Every C function is one definition, with its guards, early returns and error paths; a loop
  is a recursive function of its own, a \<^verbatim>\<open>partial_function\<close> in the option monad where its end has to be
  proved. Memory is a partial map from 64-bit addresses to the structures stored there, one map per
  structure type. The result \<^const>\<open>None\<close> is a fault: an access to memory that is not allocated, an index
  outside an array, a failed assertion, a call of \<open>exit\<close> or a wait that cannot succeed. Machine integers
  are words or integers with an explicit reduction where the program depends on it. What a system call
  answers (\<open>malloc\<close>, the clock, \<open>sendto\<close>, \<open>msgsnd\<close>) is an argument or a part of the state. Every theorem
  that says what a function does also says that it returns.

  \<^bold>\<open>Prelude\<close> holds the types of addresses, bytes and words, the option monad with its rules, block copies
  and the arithmetic lemmas that the other theories share.

  \<^bold>\<open>Klist\<close> (\<^verbatim>\<open>datastruct/list.h\<close>): the circular doubly linked list over a memory of list heads. A locale
  states the queue operations; it is interpreted on the ring of the code. Appended entries are visited in
  order, deletion and the splices keep the rings well formed.

  \<^bold>\<open>Kfifo\<close> (\<^verbatim>\<open>datastruct/kfifo.c\<close>, \<^verbatim>\<open>kfifo.h\<close>): the ring buffer with its 32-bit counters that wrap around. Any run of put
  and get refines a bounded byte queue. The assertions of \<open>kfifo_init\<close> are inverted, so that with assertions
  enabled no FIFO can be made.

  \<^bold>\<open>Sort\<close> (\<^verbatim>\<open>datastruct/sort.c\<close>): quick, merge and bubble sort on arrays of 32-bit integers; each returns a sorted
  permutation and stays inside its arrays, without overflow of the index arithmetic.

  \<^bold>\<open>Cstring\<close> (\<^verbatim>\<open>datastruct/string.c\<close>, \<^verbatim>\<open>module_string.c\<close>): the string and memory routines on one byte memory: overlapping
  moves, first occurrences, tokens, bounded copies, comparisons, against definitions on lists of bytes.

  \<^bold>\<open>Pool\<close> (\<^verbatim>\<open>pool/pool.c\<close>, \<^verbatim>\<open>policy.c\<close>, \<^verbatim>\<open>pool.h\<close>): blocks, the pool and the allocation policy. The pieces a pool hands out
  are aligned, inside the memory \<open>malloc\<close> gave and pairwise disjoint; \<open>reset_pool\<close> frees the wrong blocks of a
  pool that has grown. \<^bold>\<open>Caching\<close> (\<^verbatim>\<open>pool/caching.c\<close>): the factory with its size classes; its invariant holds in
  every state reached by creating and releasing pools.

  \<^bold>\<open>Thread\<close> (\<^verbatim>\<open>thread/thread.c\<close>): threads, mutexes, atomic counters and semaphores as programs of atomic actions
  with all interleavings as a step relation. Semaphores keep their account; a simple mutex is never
  released, because \<open>mdl_mutex_unlock\<close> locks it again.

  \<^bold>\<open>Rbtree\<close>, \<^bold>\<open>Rbtree_Erase\<close> (\<^verbatim>\<open>datastruct/rbtree.c\<close>): the red-black tree in a memory of nodes. Insertion and
  deletion keep colours, heights and order; the traversal visits the nodes in order and ends.

  \<^bold>\<open>Idr\<close> (\<^verbatim>\<open>datastruct/idr.c\<close>, \<^verbatim>\<open>idr.h\<close>): the service that gives ids to pointers, a radix tree of layers with 64 slots. The
  bit operations of the kernel are a locale (\<open>bitops_laws\<close>) with an interpretation. \<^bold>\<open>Idr_Tree\<close> says what map a tree of
  layers represents, \<^bold>\<open>Idr_Alloc\<close> and \<^bold>\<open>Idr_Remove\<close> what getting and removing an id do to it, \<^bold>\<open>Idr_Run\<close> puts the
  operations together: every reachable table represents a map, \<open>idr_get_new\<close> takes the lowest free id and
  \<open>idr_remove\<close> gives it back. These theorems are about at most five layers, which hold \<open>2 ^ 30\<close> ids; a sixth layer
  overruns an array of \<open>sub_alloc\<close>. \<open>idr_get_new_above\<close> can return an id under which the pointer is not.

  \<^bold>\<open>Common\<close> (\<^verbatim>\<open>module_common.h\<close>): the macros on times, against times in microseconds. \<^bold>\<open>Log\<close> (\<^verbatim>\<open>log/log.c\<close>, \<^verbatim>\<open>log.h\<close>): settings,
  indentation, colours and the making of a message. The accesses to the level and to thread-local data are actions
  of the programs of \<^bold>\<open>Thread\<close>. A message stays inside its buffer and the level is restored, but two threads that log
  at once can switch logging off.

  \<^bold>\<open>Clist\<close>: the operations of \<^verbatim>\<open>clist.h\<close> as a locale (\<open>clist_laws\<close>): a memory represents lists of nodes, and each
  operation does on them what its name says. It is interpreted on the rings of \<^verbatim>\<open>list.h\<close>. \<^bold>\<open>Timer\<close>
  (\<^verbatim>\<open>timer/module_timer.c\<close>): the timers, their two lists and the timer thread, over any list operations that keep
  the contract. In every reachable state the working list is sorted and the thread serves the first timer.

  \<^bold>\<open>Udp\<close> (\<^verbatim>\<open>udp/ex_udp.c\<close>, \<^verbatim>\<open>ex_udp.h\<close>): packets, links and the message handlers. A link has a window of 511 slots in
  each direction and sequence numbers modulo 2044. \<^bold>\<open>Udp_Reliable\<close> puts two links together: a step is a call of
  a user, a turn of the listening thread or the arrival of a datagram; the network loses, repeats and
  reorders datagrams, as long as none arrives more than \<open>LIFETIME\<close> = 1023 packets late (with numbers modulo 2044 and
  windows of at most 509 packets, an older one can be taken for a new one). What is read is always a prefix of what was written. \<^bold>\<open>Udp_Live\<close>: the set-up
  of a connection, and that no packet is lost for good. \<^bold>\<open>Udp_Robust\<close>: no datagram, whatever it contains, makes
  a handler fault or loop. \<^bold>\<open>Udp_Sock\<close>: the socket tables, the threads and the interface of the module;
  \<^bold>\<open>Udp_Table\<close> and \<^bold>\<open>Udp_Threads\<close>: the tables are consistent (a link is found by its id, by its address and
  in the list) and the turns of the threads keep them so. \<^bold>\<open>Udp_Run\<close>: the life of a socket as a step relation; in
  every state it reaches the tables are consistent, a link is found as long as it lives, and \<open>exClose\<close> ends.

  \<^bold>\<open>Bounds.\<close> There is no fuel. Loops whose end needs an argument are partial functions, and their theorems
  state that they return. Addresses have 64 bits, \<open>int\<close> 32, \<open>long\<close> 64, as on the platform of the Makefiles.

  \<^bold>\<open>Not modelled.\<close> \<^verbatim>\<open>signal/\<close> installs signal handlers, calls of the system without logic of its own.
  \<^verbatim>\<open>datastruct/module_array\<close> and \<^verbatim>\<open>module_list\<close> do not compile: they use a pool with other functions and fields than
  \<^verbatim>\<open>pool/\<close> has, from header files that are not in the repository. Test programs, the branches for Windows and for
  \<open>HAS_THREADS\<close> (which nothing defines), shell scripts and build files are left out, as are the calls that only print.
\<close>

end
